(* ===== verification/Prelude.thy ===== *)
theory Prelude
  imports Main "HOL-Library.Word" "HOL-Library.Monad_Syntax"
begin

text \<open>
  Shared vocabulary of the development: the machine types of the C sources, byte strings,
  reads from a bounded piece of memory, and the generic lemmas on lists that the component
  theories use.

  Conventions.  A C pointer that may be \<open>NULL\<close> is an \<open>option\<close>.  A buffer is the list of the
  bytes that are allocated behind the pointer; \<open>rd\<close> reads one of them, and a read past the
  allocation is undefined behaviour in C and the value \<open>None\<close> here.  \<open>size_t\<close> values are
  natural numbers where the code cannot wrap them (they are bounded by the size of an
  allocation) and are reduced modulo \<open>2 ^ 64\<close> where it can.
\<close>

type_synonym byte = "8 word"
type_synonym u16 = "16 word"
type_synonym u32 = "32 word"
type_synonym u64 = "64 word"
type_synonym addr = nat

named_theorems list_abs \<open>how the operations act on the list a data structure represents\<close>
named_theorems wf_intros \<open>preservation of the well-formedness invariants\<close>

lemma unat_byte: "unat (b :: byte) < 256"
proof -
  have "unat b < 2 ^ LENGTH(8)" by (rule unsigned_less)
  then show ?thesis by simp
qed

section \<open>Byte strings\<close>

definition str :: "string \<Rightarrow> byte list" where
  "str s = map of_char s"

lemma str_simps [simp]: "str [] = []" "str (c # s) = of_char c # str s"
  by (simp_all add: str_def)

lemma length_str [simp]: "length (str s) = length s"
  by (simp add: str_def)

text \<open>\<open>INT32_MAX\<close> and the modulus of \<open>size_t\<close> on the 64-bit targets.\<close>

definition INT32_MAX :: nat where
  "INT32_MAX = 2147483647"

definition SIZE_MOD :: nat where
  "SIZE_MOD = 18446744073709551616"

section \<open>Bounded reads\<close>

definition rd :: "byte list \<Rightarrow> nat \<Rightarrow> byte option" where
  "rd mem i = (if i < length mem then Some (mem ! i) else None)"

lemma rd_Some [simp]: "i < length mem \<Longrightarrow> rd mem i = Some (mem ! i)"
  by (simp add: rd_def)

lemma rd_None [simp]: "length mem \<le> i \<Longrightarrow> rd mem i = None"
  by (simp add: rd_def)

lemma rd_eq_Some: "rd mem i = Some v \<longleftrightarrow> i < length mem \<and> mem ! i = v"
  by (simp add: rd_def)

section \<open>Slices of a buffer\<close>

definition slice :: "'a list \<Rightarrow> nat \<Rightarrow> nat \<Rightarrow> 'a list" where
  "slice xs off len = take len (drop off xs)"

lemma length_slice [simp]: "off + len \<le> length xs \<Longrightarrow> length (slice xs off len) = len"
  by (simp add: slice_def)

lemma slice_0 [simp]: "slice xs off 0 = []"
  by (simp add: slice_def)

lemma slice_nth: "off + len \<le> length xs \<Longrightarrow> i < len \<Longrightarrow> slice xs off len ! i = xs ! (off + i)"
  by (simp add: slice_def)

lemma slice_slice: "a + b \<le> len \<Longrightarrow> slice (slice xs off len) a b = slice xs (off + a) b"
  by (simp add: slice_def take_drop min_def add.commute)

lemma slice_all [simp]: "slice xs 0 (length xs) = xs"
  by (simp add: slice_def)

lemma slice_append_slice:
  "slice xs off (a + b) = slice xs off a @ slice xs (off + a) b"
  by (simp add: slice_def take_add add.commute)

lemma slice_Cons:
  "off < length xs \<Longrightarrow> slice xs off (Suc len) = xs ! off # slice xs (Suc off) len"
  by (simp add: slice_def Cons_nth_drop_Suc [symmetric])

lemma slice_step:
  "i < n \<Longrightarrow> n \<le> length xs \<Longrightarrow> slice xs i (n - i) = xs ! i # slice xs (i + 1) (n - (i + 1))"
  using slice_Cons [of i xs "n - (i + 1)"] by (simp add: Suc_diff_Suc)

lemma rd_drop: "rd (drop j mem) i = rd mem (j + i)"
  by (auto simp: rd_def less_diff_conv add.commute)

lemma slice_eq_iff:
  assumes "off + length ys \<le> length xs"
  shows "slice xs off (length ys) = ys \<longleftrightarrow> (\<forall>i < length ys. xs ! (off + i) = ys ! i)"
  using assms by (auto simp: list_eq_iff_nth_eq slice_nth)

section \<open>Result of a computation that may exit the process\<close>

text \<open>
  \<open>ILIBCRITICALEXIT\<close> ends the process: the constructor \<open>Exit\<close>.  \<open>UB\<close> stands for undefined
  behaviour (a read or write outside an allocation, the use of a null pointer).
\<close>

datatype failure = Exit nat | UB

definition and_then :: "failure + 'a \<Rightarrow> ('a \<Rightarrow> failure + 'b) \<Rightarrow> failure + 'b" where
  "and_then m f = (case m of Inl e \<Rightarrow> Inl e | Inr x \<Rightarrow> f x)"

lemma and_then_simps [simp]: "and_then (Inl e) f = Inl e" "and_then (Inr x) f = f x"
  by (simp_all add: and_then_def)

definition or_UB :: "'a option \<Rightarrow> failure + 'a" where
  "or_UB m = (case m of None \<Rightarrow> Inl UB | Some x \<Rightarrow> Inr x)"

lemma or_UB_simps [simp]: "or_UB None = Inl UB" "or_UB (Some x) = Inr x"
  by (simp_all add: or_UB_def)

section \<open>\<open>size_t\<close> arithmetic\<close>

definition sub64 :: "nat \<Rightarrow> nat \<Rightarrow> nat" where
  "sub64 a b = (a + SIZE_MOD - b) mod SIZE_MOD"

lemma sub64_le [simp]: "b \<le> a \<Longrightarrow> a < SIZE_MOD \<Longrightarrow> sub64 a b = a - b"
proof -
  assume "b \<le> a" "a < SIZE_MOD"
  then have "a + SIZE_MOD - b = (a - b) + SIZE_MOD" "a - b < SIZE_MOD" by auto
  then show ?thesis unfolding sub64_def by (metis mod_add_self2 mod_less)
qed

end
