(* ===== verification/LinkedList.thy ===== *)
theory LinkedList
  imports Prelude
begin

text \<open>
  The doubly linked list of microstack/ILibParsers.c (\<open>ILibLinkedList_*\<close>), modelled with an
  explicit store of nodes: \<open>nodes\<close> maps the address of every live node of the list to its
  fields.  The address a call of \<open>ILibLinkedList_AllocateNode\<close> returns is an argument \<open>p\<close> of
  the operations that allocate; the theorems assume it is not in use.  A node that has been
  freed is no longer in the store, and \<open>ILibMemory_CanaryOK\<close> is the test whether a pointer
  leads to a live node.  The \<open>Root\<close> field of a node is the list record itself.

  \<open>ll_wf L as\<close> says that \<open>L\<close> is a correct doubly linked list over the nodes \<open>as\<close>.  Every
  operation is shown to refine the corresponding operation on the list of node addresses and
  on the list of data pointers (\<open>ll_data\<close>).
\<close>

section \<open>State\<close>

record 'd ll_node =
  Data :: 'd
  Next :: "addr option"
  Previous :: "addr option"

record 'd ll_root =
  Head :: "addr option"
  Tail :: "addr option"
  count :: int
  Tag :: "addr option"
  nodes :: "addr \<rightharpoonup> 'd ll_node"

definition CanaryOK :: "'d ll_root \<Rightarrow> addr option \<Rightarrow> bool" where
  "CanaryOK L node = (case node of None \<Rightarrow> False | Some a \<Rightarrow> nodes L a \<noteq> None)"

text \<open>
  A store through a pointer to a node, \<open>p->field = v\<close>, and the same through a pointer the code
  has just compared with \<open>NULL\<close>.
\<close>

definition hupd :: "addr \<Rightarrow> ('n \<Rightarrow> 'n) \<Rightarrow> (addr \<rightharpoonup> 'n) \<Rightarrow> addr \<rightharpoonup> 'n" where
  "hupd a f h = h(a := map_option f (h a))"

definition hupd_opt :: "addr option \<Rightarrow> ('n \<Rightarrow> 'n) \<Rightarrow> (addr \<rightharpoonup> 'n) \<Rightarrow> addr \<rightharpoonup> 'n" where
  "hupd_opt p f h = (case p of None \<Rightarrow> h | Some a \<Rightarrow> hupd a f h)"

definition upd_node :: "addr \<Rightarrow> ('d ll_node \<Rightarrow> 'd ll_node) \<Rightarrow> 'd ll_root \<Rightarrow> 'd ll_root" where
  "upd_node a f L = L\<lparr>nodes := hupd a f (nodes L)\<rparr>"

definition upd_opt :: "addr option \<Rightarrow> ('d ll_node \<Rightarrow> 'd ll_node) \<Rightarrow> 'd ll_root \<Rightarrow> 'd ll_root" where
  "upd_opt p f L = L\<lparr>nodes := hupd_opt p f (nodes L)\<rparr>"

section \<open>Operations\<close>

definition ILibLinkedList_Create :: "'d ll_root" where
  "ILibLinkedList_Create = \<lparr>Head = None, Tail = None, count = 0, Tag = None, nodes = Map.empty\<rparr>"

definition ILibLinkedList_SetTag :: "addr option \<Rightarrow> 'd ll_root \<Rightarrow> 'd ll_root" where
  "ILibLinkedList_SetTag t L = L\<lparr>Tag := t\<rparr>"

definition ILibLinkedList_GetTag :: "'d ll_root \<Rightarrow> addr option" where
  "ILibLinkedList_GetTag L = Tag L"

definition ILibLinkedList_GetNode_Head :: "'d ll_root \<Rightarrow> addr option" where
  "ILibLinkedList_GetNode_Head L = Head L"

definition ILibLinkedList_GetNode_Tail :: "'d ll_root \<Rightarrow> addr option" where
  "ILibLinkedList_GetNode_Tail L = Tail L"

definition ILibLinkedList_GetNextNode :: "addr option \<Rightarrow> 'd ll_root \<Rightarrow> addr option" where
  "ILibLinkedList_GetNextNode node L =
     (case node of None \<Rightarrow> None
      | Some a \<Rightarrow> (case nodes L a of None \<Rightarrow> None
          | Some nd \<Rightarrow> if Next nd = Some a then None else Next nd))"

definition ILibLinkedList_GetPreviousNode :: "addr option \<Rightarrow> 'd ll_root \<Rightarrow> addr option" where
  "ILibLinkedList_GetPreviousNode node L =
     (case node of None \<Rightarrow> None
      | Some a \<Rightarrow> (case nodes L a of None \<Rightarrow> None | Some nd \<Rightarrow> Previous nd))"

definition ILibLinkedList_GetDataFromNode :: "addr option \<Rightarrow> 'd ll_root \<Rightarrow> 'd option" where
  "ILibLinkedList_GetDataFromNode node L =
     (case node of None \<Rightarrow> None | Some a \<Rightarrow> map_option Data (nodes L a))"

definition ILibLinkedList_SetData :: "addr \<Rightarrow> 'd \<Rightarrow> 'd ll_root \<Rightarrow> 'd ll_root" where
  "ILibLinkedList_SetData node d L = upd_node node (\<lambda>nd. nd\<lparr>Data := d\<rparr>) L"

definition ILibLinkedList_GetCount :: "'d ll_root \<Rightarrow> int" where
  "ILibLinkedList_GetCount L = count L"

definition ILibLinkedList_InsertBefore ::
  "addr \<Rightarrow> addr option \<Rightarrow> 'd \<Rightarrow> 'd ll_root \<Rightarrow> 'd ll_root \<times> addr option" where
  "ILibLinkedList_InsertBefore p node d L =
     (case node of None \<Rightarrow> (L, None)
      | Some n \<Rightarrow> (case nodes L n of None \<Rightarrow> (L, None)
          | Some nd \<Rightarrow>
             let L = L\<lparr>nodes := (nodes L)(p \<mapsto> \<lparr>Data = d, Next = Some n, Previous = Previous nd\<rparr>)\<rparr>;
                 L = upd_opt (Previous nd) (\<lambda>m. m\<lparr>Next := Some p\<rparr>) L;
                 L = upd_node n (\<lambda>m. m\<lparr>Previous := Some p\<rparr>) L;
                 L = (if Head L = Some n then L\<lparr>Head := Some p\<rparr> else L)
             in (L\<lparr>count := count L + 1\<rparr>, Some p)))"

definition ILibLinkedList_InsertAfter ::
  "addr \<Rightarrow> addr option \<Rightarrow> 'd \<Rightarrow> 'd ll_root \<Rightarrow> 'd ll_root \<times> addr option" where
  "ILibLinkedList_InsertAfter p node d L =
     (case node of None \<Rightarrow> (L, None)
      | Some n \<Rightarrow> (case nodes L n of None \<Rightarrow> (L, None)
          | Some nd \<Rightarrow>
             let L = L\<lparr>nodes := (nodes L)(p \<mapsto> \<lparr>Data = d, Next = Next nd, Previous = Some n\<rparr>)\<rparr>;
                 L = upd_node n (\<lambda>m. m\<lparr>Next := Some p\<rparr>) L;
                 L = upd_opt (Next nd) (\<lambda>m. m\<lparr>Previous := Some p\<rparr>) L;
                 L = (if Tail L = Some n then L\<lparr>Tail := Some p\<rparr> else L)
             in (L\<lparr>count := count L + 1\<rparr>, Some p)))"

definition ILibLinkedList_Remove :: "addr option \<Rightarrow> 'd ll_root \<Rightarrow> 'd ll_root \<times> addr option" where
  "ILibLinkedList_Remove node L =
     (case node of None \<Rightarrow> (L, None)
      | Some n \<Rightarrow> (case nodes L n of None \<Rightarrow> (L, None)
          | Some nd \<Rightarrow>
             let L = upd_opt (Previous nd) (\<lambda>m. m\<lparr>Next := Next nd\<rparr>) L;
                 L = upd_opt (Next nd) (\<lambda>m. m\<lparr>Previous := Previous nd\<rparr>) L;
                 L = (if Head L = Some n then L\<lparr>Head := Next nd\<rparr> else L);
                 L = (if Tail L = Some n
                      then (if Next nd = None then L\<lparr>Tail := Previous nd\<rparr> else L\<lparr>Tail := Next nd\<rparr>)
                      else L);
                 L = L\<lparr>count := count L - 1\<rparr>
             in (L\<lparr>nodes := (nodes L)(n := None)\<rparr>, Next nd)))"

definition ILibLinkedList_AddHead :: "addr \<Rightarrow> 'd \<Rightarrow> 'd ll_root \<Rightarrow> 'd ll_root" where
  "ILibLinkedList_AddHead p d L =
     (let L = L\<lparr>nodes := (nodes L)(p \<mapsto> \<lparr>Data = d, Next = Head L, Previous = None\<rparr>)\<rparr>;
          L = upd_opt (Head L) (\<lambda>m. m\<lparr>Previous := Some p\<rparr>) L;
          L = L\<lparr>Head := Some p\<rparr>;
          L = (if Tail L = None then L\<lparr>Tail := Some p\<rparr> else L)
      in L\<lparr>count := count L + 1\<rparr>)"

definition ILibLinkedList_AddTailEx :: "addr \<Rightarrow> 'd \<Rightarrow> 'd ll_root \<Rightarrow> 'd ll_root" where
  "ILibLinkedList_AddTailEx p d L =
     (let L = L\<lparr>nodes := (nodes L)(p \<mapsto> \<lparr>Data = d, Next = None, Previous = Tail L\<rparr>)\<rparr>;
          L = upd_opt (Tail L) (\<lambda>m. m\<lparr>Next := Some p\<rparr>) L;
          L = L\<lparr>Tail := Some p\<rparr>;
          L = (if Head L = None then L\<lparr>Head := Some p\<rparr> else L)
      in L\<lparr>count := count L + 1\<rparr>)"

text \<open>
  The loops follow the pointers of the store, so on a damaged list they may not end:
  \<open>None\<close> is a loop that does not return.
\<close>

partial_function (option) remove_by_data_loop ::
  "'d \<Rightarrow> addr option \<Rightarrow> nat \<Rightarrow> 'd ll_root \<Rightarrow> ('d ll_root \<times> nat) option" where
  "remove_by_data_loop d node r L =
     (case node of None \<Rightarrow> Some (L, r)
      | Some a \<Rightarrow>
          if ILibLinkedList_GetDataFromNode (Some a) L = Some d
          then (case ILibLinkedList_Remove (Some a) L of (L', nxt) \<Rightarrow> remove_by_data_loop d nxt (r + 1) L')
          else remove_by_data_loop d (ILibLinkedList_GetNextNode (Some a) L) r L)"

definition ILibLinkedList_Remove_ByData :: "'d \<Rightarrow> 'd ll_root \<Rightarrow> ('d ll_root \<times> nat) option" where
  "ILibLinkedList_Remove_ByData d L = remove_by_data_loop d (ILibLinkedList_GetNode_Head L) 0 L"

definition search_match :: "('d \<Rightarrow> 'd \<Rightarrow> int) option \<Rightarrow> 'd \<Rightarrow> 'd \<Rightarrow> bool" where
  "search_match comparer matchWith d =
     (case comparer of Some c \<Rightarrow> c d matchWith = 0 | None \<Rightarrow> d = matchWith)"

partial_function (option) search_loop ::
  "('d \<Rightarrow> 'd \<Rightarrow> int) option \<Rightarrow> 'd \<Rightarrow> addr option \<Rightarrow> 'd ll_root \<Rightarrow> addr option option" where
  "search_loop comparer matchWith node L =
     (case node of None \<Rightarrow> Some None
      | Some a \<Rightarrow> do {
          d \<leftarrow> ILibLinkedList_GetDataFromNode (Some a) L;
          if search_match comparer matchWith d then Some (Some a)
          else search_loop comparer matchWith (ILibLinkedList_GetNextNode (Some a) L) L })"

definition ILibLinkedList_GetNode_Search ::
  "('d \<Rightarrow> 'd \<Rightarrow> int) option \<Rightarrow> 'd \<Rightarrow> 'd ll_root \<Rightarrow> addr option option" where
  "ILibLinkedList_GetNode_Search comparer matchWith L =
     search_loop comparer matchWith (ILibLinkedList_GetNode_Head L) L"

text \<open>
  \<open>chooser old new user\<close> returns the pointer to store and the new contents of \<open>*user\<close>; the
  old object is \<open>NULL\<close> when there is no duplicate.
\<close>

partial_function (option) sorted_insert_loop ::
  "addr \<Rightarrow> ('d \<Rightarrow> 'd \<Rightarrow> int) \<Rightarrow> ('d option \<Rightarrow> 'd \<Rightarrow> 'u \<Rightarrow> 'd \<times> 'u) \<Rightarrow> 'd \<Rightarrow> 'u \<Rightarrow> addr option
     \<Rightarrow> 'd ll_root \<Rightarrow> ('d ll_root \<times> addr option \<times> 'u) option" where
  "sorted_insert_loop p comparer chooser d u node L =
     (case node of
        None \<Rightarrow> (case chooser None d u of (x, u') \<Rightarrow> Some (ILibLinkedList_AddTailEx p x L, Some p, u'))
      | Some a \<Rightarrow> do {
          cur \<leftarrow> ILibLinkedList_GetDataFromNode (Some a) L;
          if comparer cur d = 0
          then (case chooser (Some cur) d u of (x, u') \<Rightarrow> Some (ILibLinkedList_SetData a x L, Some a, u'))
          else if comparer cur d < 0
          then (case chooser None d u of (x, u') \<Rightarrow>
                 (case ILibLinkedList_InsertBefore p (Some a) x L of (L', r) \<Rightarrow> Some (L', r, u')))
          else sorted_insert_loop p comparer chooser d u (ILibLinkedList_GetNextNode (Some a) L) L })"

definition ILibLinkedList_SortedInsertEx ::
  "addr \<Rightarrow> ('d \<Rightarrow> 'd \<Rightarrow> int) \<Rightarrow> ('d option \<Rightarrow> 'd \<Rightarrow> 'u \<Rightarrow> 'd \<times> 'u) \<Rightarrow> 'd \<Rightarrow> 'u
     \<Rightarrow> 'd ll_root \<Rightarrow> ('d ll_root \<times> addr option \<times> 'u) option" where
  "ILibLinkedList_SortedInsertEx p comparer chooser d u L =
     (case ILibLinkedList_GetNode_Head L of
        None \<Rightarrow> (case chooser None d u of (x, u') \<Rightarrow> Some (ILibLinkedList_AddHead p x L, Some p, u'))
      | Some a \<Rightarrow> sorted_insert_loop p comparer chooser d u (Some a) L)"

definition ILibLinkedList_SortedInsert_DefaultChooser ::
  "'d option \<Rightarrow> 'd \<Rightarrow> 'd option \<Rightarrow> 'd \<times> 'd option" where
  "ILibLinkedList_SortedInsert_DefaultChooser old new user = (new, old)"

definition ILibLinkedList_SortedInsert ::
  "addr \<Rightarrow> ('d \<Rightarrow> 'd \<Rightarrow> int) \<Rightarrow> 'd \<Rightarrow> 'd ll_root \<Rightarrow> ('d ll_root \<times> 'd option) option" where
  "ILibLinkedList_SortedInsert p comparer d L =
     map_option (\<lambda>(L', _, u). (L', u))
       (ILibLinkedList_SortedInsertEx p comparer ILibLinkedList_SortedInsert_DefaultChooser d None L)"

text \<open>
  \<open>ILibLinkedList_ShallowCopy\<close>: the \<open>k\<close>-th node of the copy is allocated at \<open>alloc k\<close>.
\<close>

partial_function (option) shallow_copy_loop ::
  "(nat \<Rightarrow> addr) \<Rightarrow> nat \<Rightarrow> addr option \<Rightarrow> 'd ll_root \<Rightarrow> 'd ll_root \<Rightarrow> 'd ll_root option" where
  "shallow_copy_loop alloc k node L R =
     (case node of None \<Rightarrow> Some R
      | Some a \<Rightarrow> do {
          d \<leftarrow> ILibLinkedList_GetDataFromNode (Some a) L;
          shallow_copy_loop alloc (k + 1) (ILibLinkedList_GetNextNode (Some a) L) L
            (ILibLinkedList_AddTailEx (alloc k) d R) })"

definition ILibLinkedList_ShallowCopy :: "(nat \<Rightarrow> addr) \<Rightarrow> 'd ll_root \<Rightarrow> 'd ll_root option" where
  "ILibLinkedList_ShallowCopy alloc L =
     shallow_copy_loop alloc 0 (ILibLinkedList_GetNode_Head L) L ILibLinkedList_Create"

text \<open>
  \<open>ILibLinkedList_Node_ResizeAdditional\<close>: \<open>r\<close> is what \<open>ILibMemory_SmartAllocateEx_ResizeExtra\<close>
  returns for the node (it reallocates the node, so its fields move along), \<open>None\<close> when that
  call refuses; the code then follows a null pointer, which is the outer \<open>None\<close>.
\<close>

definition ILibLinkedList_Node_ResizeAdditional ::
  "addr option \<Rightarrow> addr option \<Rightarrow> 'd ll_root \<Rightarrow> ('d ll_root \<times> addr option) option" where
  "ILibLinkedList_Node_ResizeAdditional r node L =
     (case node of None \<Rightarrow> Some (L, None)
      | Some n \<Rightarrow> (case nodes L n of None \<Rightarrow> Some (L, None)
          | Some nd \<Rightarrow> (case r of None \<Rightarrow> None
              | Some p \<Rightarrow>
                 if p = n then Some (L, Some n)
                 else
                  let L = L\<lparr>nodes := (nodes L)(n := None, p \<mapsto> nd)\<rparr>;
                      L = (if Previous nd = None then L\<lparr>Head := Some p\<rparr>
                           else upd_opt (Previous nd) (\<lambda>m. m\<lparr>Next := Some p\<rparr>) L);
                      L = (if Next nd = None then L\<lparr>Tail := Some p\<rparr>
                           else upd_opt (Next nd) (\<lambda>m. m\<lparr>Previous := Some p\<rparr>) L)
                  in Some (L, Some p))))"

partial_function (option) index_loop :: "addr \<Rightarrow> addr option \<Rightarrow> int \<Rightarrow> 'd ll_root \<Rightarrow> int option" where
  "index_loop node current i L =
     (case current of None \<Rightarrow> Some (-1)
      | Some a \<Rightarrow> if a = node then Some i
          else (case nodes L a of None \<Rightarrow> None | Some nd \<Rightarrow> index_loop node (Next nd) (i + 1) L))"

definition ILibLinkedList_GetIndex :: "addr \<Rightarrow> 'd ll_root \<Rightarrow> int option" where
  "ILibLinkedList_GetIndex node L = index_loop node (ILibLinkedList_GetNode_Head L) 0 L"

partial_function (option) destroy_loop :: "'d ll_root \<Rightarrow> 'd ll_root option" where
  "destroy_loop L =
     (if Head L \<noteq> None \<and> ILibLinkedList_GetNode_Head L \<noteq> None
      then destroy_loop (fst (ILibLinkedList_Remove (ILibLinkedList_GetNode_Head L) L))
      else Some L)"

definition ILibLinkedList_Destroy :: "'d ll_root \<Rightarrow> 'd ll_root option" where
  "ILibLinkedList_Destroy L = destroy_loop L"

declare remove_by_data_loop.simps [code] search_loop.simps [code] index_loop.simps [code]
  destroy_loop.simps [code] sorted_insert_loop.simps [code] shallow_copy_loop.simps [code]

section \<open>The represented list\<close>

definition hd_or :: "'a list \<Rightarrow> 'a option \<Rightarrow> 'a option" where
  "hd_or as n = (case as of [] \<Rightarrow> n | a # _ \<Rightarrow> Some a)"

definition last_or :: "'a option \<Rightarrow> 'a list \<Rightarrow> 'a option" where
  "last_or p as = (if as = [] then p else Some (last as))"

lemma hd_or_simps [simp]: "hd_or [] n = n" "hd_or (a # as) n = Some a"
  by (simp_all add: hd_or_def)

lemma hd_or_append [simp]: "hd_or (xs @ ys) n = hd_or xs (hd_or ys n)"
  by (cases xs) simp_all

lemma last_or_simps [simp]: "last_or p [] = p" "last_or p (a # as) = last_or (Some a) as"
    "last_or p (as @ [a]) = Some a"
  by (auto simp: last_or_def)

lemma last_or_append [simp]: "last_or p (xs @ ys) = last_or (last_or p xs) ys"
  by (induction xs arbitrary: p) simp_all

text \<open>\<open>dseg h p as n\<close>: the nodes \<open>as\<close> are linked in this order, \<open>p\<close> before and \<open>n\<close> after them.\<close>

fun dseg :: "(addr \<rightharpoonup> 'd ll_node) \<Rightarrow> addr option \<Rightarrow> addr list \<Rightarrow> addr option \<Rightarrow> bool" where
  "dseg h p [] n = True"
| "dseg h p (a # as) n =
     ((case h a of None \<Rightarrow> False | Some nd \<Rightarrow> Previous nd = p \<and> Next nd = hd_or as n)
      \<and> dseg h (Some a) as n)"

definition ll_wf :: "'d ll_root \<Rightarrow> addr list \<Rightarrow> bool" where
  "ll_wf L as \<longleftrightarrow> dseg (nodes L) None as None \<and> distinct as \<and> Head L = hd_or as None
     \<and> Tail L = last_or None as \<and> count L = int (length as) \<and> dom (nodes L) = set as"

definition ll_data :: "'d ll_root \<Rightarrow> addr list \<Rightarrow> 'd list" where
  "ll_data L as = map (\<lambda>a. Data (the (nodes L a))) as"

lemma dseg_append: "dseg h p (xs @ ys) n \<longleftrightarrow> dseg h p xs (hd_or ys n) \<and> dseg h (last_or p xs) ys n"
  by (induction xs arbitrary: p) (auto split: option.splits)

lemma dseg_frame [simp]: "a \<notin> set as \<Longrightarrow> dseg (h(a := v)) p as n = dseg h p as n"
  by (induction as arbitrary: p) auto

lemma dseg_dom: "dseg h p as n \<Longrightarrow> a \<in> set as \<Longrightarrow> \<exists>nd. h a = Some nd"
  by (induction as arbitrary: p) (auto split: option.splits)

lemma dseg_lookup:
  "dseg h p (xs @ a # ys) n \<Longrightarrow>
     \<exists>nd. h a = Some nd \<and> Previous nd = last_or p xs \<and> Next nd = hd_or ys n"
  by (induction xs arbitrary: p) (auto split: option.splits)


lemma hd_or_ne [simp]: "xs \<noteq> [] \<Longrightarrow> hd_or xs n = Some (hd xs)"
  by (cases xs) simp_all

lemma last_or_ne [simp]: "xs \<noteq> [] \<Longrightarrow> last_or p xs = Some (last xs)"
  by (simp add: last_or_def)

lemma last_or_neq_None [simp]: "last_or (Some a) xs \<noteq> None" "(\<exists>y. last_or (Some a) xs = Some y)"
  by (cases "xs = []"; simp)+

lemma dom_hupd [simp]: "dom (hupd a f h) = dom h"
  by (auto simp: hupd_def split: if_splits)

lemma dom_hupd_opt [simp]: "dom (hupd_opt p f h) = dom h"
  by (simp add: hupd_opt_def split: option.split)

lemma hupd_None [simp]: "hupd a f h b = None \<longleftrightarrow> h b = None"
  by (simp add: hupd_def)

lemma hupd_opt_None [simp]: "hupd_opt p f h b = None \<longleftrightarrow> h b = None"
  by (simp add: hupd_opt_def split: option.split)

lemma hupd_other [simp]: "a \<noteq> b \<Longrightarrow> hupd a f h b = h b"
  by (simp add: hupd_def)

lemma hupd_opt_other [simp]: "p \<noteq> Some b \<Longrightarrow> hupd_opt p f h b = h b"
  by (cases p) (auto simp: hupd_opt_def)

lemma hupd_opt_simps [simp]: "hupd_opt None f h = h" "hupd_opt (Some a) f h = hupd a f h"
  by (simp_all add: hupd_opt_def)

lemma dseg_hupd [simp]: "a \<notin> set as \<Longrightarrow> dseg (hupd a f h) p as n = dseg h p as n"
  by (simp add: hupd_def)

lemma dseg_hupd_opt [simp]: "q \<notin> Some ` set as \<Longrightarrow> dseg (hupd_opt q f h) p as n = dseg h p as n"
  by (cases q) (simp_all add: image_iff)

text \<open>Relinking the end and the start of a segment.\<close>

lemma dseg_relink_last:
  assumes "dseg h p xs n" "distinct xs"
  shows "dseg (hupd_opt (last_or None xs) (\<lambda>m. m\<lparr>Next := n'\<rparr>) h) p xs n'"
proof (cases xs rule: rev_cases)
  case (snoc ys b)
  with assms show ?thesis
    by (auto simp: dseg_append hupd_def split: option.splits)
qed simp

lemma dseg_relink_hd:
  assumes "dseg h p xs n" "distinct xs"
  shows "dseg (hupd_opt (hd_or xs None) (\<lambda>m. m\<lparr>Previous := p'\<rparr>) h) p' xs n"
proof (cases xs)
  case (Cons b ys)
  with assms show ?thesis
    by (auto simp: hupd_def split: option.splits)
qed simp

lemma hd_or_eq_Some: "distinct (xs @ a # ys) \<Longrightarrow> hd_or (xs @ a # ys) n = Some a \<longleftrightarrow> xs = []"
  by (cases xs) auto

lemma last_or_eq_Some: "distinct (xs @ a # ys) \<Longrightarrow> last_or p (xs @ a # ys) = Some a \<longleftrightarrow> ys = []"
  by (cases ys rule: rev_cases) auto

lemma last_or_notin: "set xs \<inter> set ys = {} \<Longrightarrow> last_or None xs \<notin> Some ` set ys"
  by (cases xs rule: rev_cases) auto

lemma hd_or_notin: "set xs \<inter> set ys = {} \<Longrightarrow> hd_or xs None \<notin> Some ` set ys"
  by (cases xs) auto

text \<open>The general step: a new node between two segments.\<close>

lemma dseg_insert:
  assumes seg: "dseg h None xs n" "dseg h q ys None"
    and dist: "distinct (xs @ ys)" "p \<notin> set (xs @ ys)"
    and nd: "h p = Some nd" "Previous nd = last_or None xs" "Next nd = hd_or ys None"
  shows "dseg (hupd_opt (hd_or ys None) (\<lambda>m. m\<lparr>Previous := Some p\<rparr>)
           (hupd_opt (last_or None xs) (\<lambda>m. m\<lparr>Next := Some p\<rparr>) h)) None (xs @ p # ys) None"
    (is "dseg (hupd_opt ?r ?f (hupd_opt ?q ?g h)) _ _ _")
proof -
  have q: "?q \<notin> Some ` set (p # ys)" and r: "?r \<notin> Some ` set (xs @ [p])"
    using dist last_or_notin [of xs "p # ys"] hd_or_notin [of ys "xs @ [p]"] by auto
  have "dseg (hupd_opt ?q ?g h) None xs (Some p)" using dseg_relink_last [OF seg(1)] dist by simp
  then have xs: "dseg (hupd_opt ?r ?f (hupd_opt ?q ?g h)) None xs (Some p)" using r by simp
  have "dseg (hupd_opt ?q ?g h) q ys None" using seg(2) q by simp
  then have ys: "dseg (hupd_opt ?r ?f (hupd_opt ?q ?g h)) (Some p) ys None"
    by (rule dseg_relink_hd) (use dist in simp)
  have "hupd_opt ?r ?f (hupd_opt ?q ?g h) p = Some nd"
    using q r nd(1) by simp
  with xs ys nd(2,3) show ?thesis by (simp add: dseg_append)
qed

lemma hupd_opt_commute:
  "p \<noteq> q \<Longrightarrow> hupd_opt p f (hupd_opt q g h) = hupd_opt q g (hupd_opt p f h)"
  by (cases p; cases q) (auto simp: hupd_def fun_eq_iff)

lemma ll_wf_lookup:
  assumes "ll_wf L (xs @ a # ys)"
  obtains nd where "nodes L a = Some nd" "Previous nd = last_or None xs" "Next nd = hd_or ys None"
  using assms dseg_lookup by (fastforce simp: ll_wf_def)

lemma ll_wf_live: "ll_wf L as \<Longrightarrow> nodes L a \<noteq> None \<longleftrightarrow> a \<in> set as"
  by (auto simp: ll_wf_def)

lemma ll_wf_fresh: "ll_wf L as \<Longrightarrow> nodes L a = None \<longleftrightarrow> a \<notin> set as"
  by (auto simp: ll_wf_def)

lemma Create_wf [wf_intros]: "ll_wf ILibLinkedList_Create []"
  by (simp add: ll_wf_def ILibLinkedList_Create_def)

lemma InsertBefore_wf [wf_intros]:
  assumes wf: "ll_wf L (xs @ a # ys)" and fresh: "nodes L p = None"
  shows "ll_wf (fst (ILibLinkedList_InsertBefore p (Some a) d L)) (xs @ p # a # ys)"
proof -
  obtain nd where nd: "nodes L a = Some nd" "Previous nd = last_or None xs" "Next nd = hd_or ys None"
    using wf by (rule ll_wf_lookup)
  have dist: "distinct (xs @ a # ys)" "p \<notin> set (xs @ a # ys)"
    using wf fresh by (auto simp: ll_wf_def)
  let ?h = "(nodes L)(p \<mapsto> \<lparr>Data = d, Next = Some a, Previous = last_or None xs\<rparr>)"
  have "dseg ?h None xs (Some a)" "dseg ?h (last_or None xs) (a # ys) None"
    using wf dist by (simp_all add: ll_wf_def dseg_append del: dseg.simps)
  then have "dseg (hupd_opt (hd_or (a # ys) None) (\<lambda>m. m\<lparr>Previous := Some p\<rparr>)
      (hupd_opt (last_or None xs) (\<lambda>m. m\<lparr>Next := Some p\<rparr>) ?h)) None (xs @ p # a # ys) None"
    by (rule dseg_insert) (use dist in auto)
  then show ?thesis using wf nd dist hd_or_eq_Some [OF dist(1)]
    by (cases xs) (auto simp: ll_wf_def ILibLinkedList_InsertBefore_def Let_def upd_opt_def upd_node_def
        simp del: dseg.simps)
qed

lemma InsertAfter_wf [wf_intros]:
  assumes wf: "ll_wf L (xs @ a # ys)" and fresh: "nodes L p = None"
  shows "ll_wf (fst (ILibLinkedList_InsertAfter p (Some a) d L)) (xs @ a # p # ys)"
proof -
  obtain nd where nd: "nodes L a = Some nd" "Previous nd = last_or None xs" "Next nd = hd_or ys None"
    using wf by (rule ll_wf_lookup)
  have dist: "distinct (xs @ a # ys)" "p \<notin> set (xs @ a # ys)"
    using wf fresh by (auto simp: ll_wf_def)
  let ?h = "(nodes L)(p \<mapsto> \<lparr>Data = d, Next = hd_or ys None, Previous = Some a\<rparr>)"
  have "dseg (nodes L) None ((xs @ [a]) @ ys) None" using wf by (simp add: ll_wf_def)
  then have "dseg ?h None (xs @ [a]) (hd_or ys None)" "dseg ?h (Some a) ys None"
    using dist by (simp_all only: dseg_append last_or_simps) (simp_all add: dseg_append)
  then have "dseg (hupd_opt (hd_or ys None) (\<lambda>m. m\<lparr>Previous := Some p\<rparr>)
      (hupd_opt (last_or None (xs @ [a])) (\<lambda>m. m\<lparr>Next := Some p\<rparr>) ?h)) None ((xs @ [a]) @ p # ys) None"
    by (rule dseg_insert) (use dist in auto)
  then show ?thesis using wf nd dist last_or_eq_Some [OF dist(1)]
    by (cases ys) (auto simp: ll_wf_def ILibLinkedList_InsertAfter_def Let_def upd_opt_def upd_node_def
        simp del: dseg.simps)
qed

lemma AddHead_wf [wf_intros]:
  assumes wf: "ll_wf L as" and fresh: "nodes L p = None"
  shows "ll_wf (ILibLinkedList_AddHead p d L) (p # as)"
proof -
  have dist: "distinct as" "p \<notin> set as" using wf fresh by (auto simp: ll_wf_def)
  let ?h = "(nodes L)(p \<mapsto> \<lparr>Data = d, Next = hd_or as None, Previous = None\<rparr>)"
  have "dseg ?h None [] None" "dseg ?h None as None" using wf dist by (simp_all add: ll_wf_def)
  then have "dseg (hupd_opt (hd_or as None) (\<lambda>m. m\<lparr>Previous := Some p\<rparr>)
      (hupd_opt (last_or None []) (\<lambda>m. m\<lparr>Next := Some p\<rparr>) ?h)) None ([] @ p # as) None"
    by (rule dseg_insert) (use dist in auto)
  then show ?thesis using wf dist
    by (cases as) (auto simp: ll_wf_def ILibLinkedList_AddHead_def Let_def upd_opt_def
        simp del: dseg.simps)
qed

lemma AddTail_wf [wf_intros]:
  assumes wf: "ll_wf L as" and fresh: "nodes L p = None"
  shows "ll_wf (ILibLinkedList_AddTailEx p d L) (as @ [p])"
proof -
  have dist: "distinct as" "p \<notin> set as" using wf fresh by (auto simp: ll_wf_def)
  let ?h = "(nodes L)(p \<mapsto> \<lparr>Data = d, Next = None, Previous = last_or None as\<rparr>)"
  have "dseg ?h None as None" "dseg ?h None [] None" using wf dist by (simp_all add: ll_wf_def)
  then have "dseg (hupd_opt (hd_or [] None) (\<lambda>m. m\<lparr>Previous := Some p\<rparr>)
      (hupd_opt (last_or None as) (\<lambda>m. m\<lparr>Next := Some p\<rparr>) ?h)) None (as @ p # []) None"
    by (rule dseg_insert) (use dist in auto)
  then show ?thesis using wf dist
    by (cases as) (auto simp: ll_wf_def ILibLinkedList_AddTailEx_def Let_def upd_opt_def
        simp del: dseg.simps)
qed

lemma dseg_remove:
  assumes "dseg h None xs n" "dseg h q ys None" and dist: "distinct (xs @ ys)"
  shows "dseg (hupd_opt (hd_or ys None) (\<lambda>m. m\<lparr>Previous := last_or None xs\<rparr>)
           (hupd_opt (last_or None xs) (\<lambda>m. m\<lparr>Next := hd_or ys None\<rparr>) h)) None (xs @ ys) None"
    (is "dseg (hupd_opt ?r ?f (hupd_opt ?q ?g h)) _ _ _")
proof -
  have q: "?q \<notin> Some ` set ys" and r: "?r \<notin> Some ` set xs"
    using dist last_or_notin [of xs "ys"] hd_or_notin [of ys "xs"] by auto
  have "dseg (hupd_opt ?q ?g h) None xs (hd_or ys None)" using dseg_relink_last [OF assms(1)] dist by simp
  then have xs: "dseg (hupd_opt ?r ?f (hupd_opt ?q ?g h)) None xs (hd_or ys None)" using r by simp
  have "dseg (hupd_opt ?q ?g h) q ys None" using assms(2) q by simp
  then have "dseg (hupd_opt ?r ?f (hupd_opt ?q ?g h)) (last_or None xs) ys None"
    by (rule dseg_relink_hd) (use dist in simp)
  with xs show ?thesis by (simp add: dseg_append)
qed

lemma Remove_wf [wf_intros]:
  assumes wf: "ll_wf L (xs @ a # ys)"
  shows "ll_wf (fst (ILibLinkedList_Remove (Some a) L)) (xs @ ys)"
proof -
  obtain nd where nd: "nodes L a = Some nd" "Previous nd = last_or None xs" "Next nd = hd_or ys None"
    using wf by (rule ll_wf_lookup)
  have dist: "distinct (xs @ a # ys)" using wf by (auto simp: ll_wf_def)
  have "dseg (nodes L) None xs (Some a)" "dseg (nodes L) (Some a) ys None"
    using wf by (auto simp: ll_wf_def dseg_append)
  then have "dseg (hupd_opt (hd_or ys None) (\<lambda>m. m\<lparr>Previous := last_or None xs\<rparr>)
     (hupd_opt (last_or None xs) (\<lambda>m. m\<lparr>Next := hd_or ys None\<rparr>) (nodes L))) None (xs @ ys) None"
    by (rule dseg_remove) (use dist in auto)
  then show ?thesis using wf nd dist hd_or_eq_Some [OF dist] last_or_eq_Some [OF dist]
    by (cases "xs = []"; cases "ys = []")
       (auto simp: ll_wf_def ILibLinkedList_Remove_def Let_def upd_opt_def simp del: dseg.simps)
qed

text \<open>The data pointers.\<close>

lemma Data_hupd [simp]:
  "Data (the (hupd a (\<lambda>m. m\<lparr>Next := n\<rparr>) h b)) = Data (the (h b))"
  "Data (the (hupd a (\<lambda>m. m\<lparr>Previous := n\<rparr>) h b)) = Data (the (h b))"
  "Data (the (hupd_opt p (\<lambda>m. m\<lparr>Next := n\<rparr>) h b)) = Data (the (h b))"
  "Data (the (hupd_opt p (\<lambda>m. m\<lparr>Previous := n\<rparr>) h b)) = Data (the (h b))"
  by (cases "h b"; cases p; auto simp: hupd_def)+

lemma ll_data_simps [simp]:
  "ll_data L [] = []"
  "ll_data L (a # as) = Data (the (nodes L a)) # ll_data L as"
  "ll_data L (as @ bs) = ll_data L as @ ll_data L bs"
  "length (ll_data L as) = length as"
  by (simp_all add: ll_data_def)

lemma ll_data_cong:
  "(\<And>a. a \<in> set as \<Longrightarrow> Data (the (nodes L a)) = Data (the (nodes L' a))) \<Longrightarrow> ll_data L as = ll_data L' as"
  by (simp add: ll_data_def)

lemma Data_AddHead:
  "Data (the (nodes (ILibLinkedList_AddHead p d L) b)) = (if b = p then d else Data (the (nodes L b)))"
  by (simp add: ILibLinkedList_AddHead_def Let_def upd_opt_def)

lemma Data_AddTail:
  "Data (the (nodes (ILibLinkedList_AddTailEx p d L) b)) = (if b = p then d else Data (the (nodes L b)))"
  by (simp add: ILibLinkedList_AddTailEx_def Let_def upd_opt_def)

lemma Data_InsertBefore:
  "nodes L a \<noteq> None \<Longrightarrow> Data (the (nodes (fst (ILibLinkedList_InsertBefore p (Some a) d L)) b))
     = (if b = p then d else Data (the (nodes L b)))"
  by (auto simp: ILibLinkedList_InsertBefore_def Let_def upd_opt_def upd_node_def)

lemma Data_InsertAfter:
  "nodes L a \<noteq> None \<Longrightarrow> Data (the (nodes (fst (ILibLinkedList_InsertAfter p (Some a) d L)) b))
     = (if b = p then d else Data (the (nodes L b)))"
  by (auto simp: ILibLinkedList_InsertAfter_def Let_def upd_opt_def upd_node_def)

lemma Data_Remove:
  "nodes L a \<noteq> None \<Longrightarrow> b \<noteq> a \<Longrightarrow>
     Data (the (nodes (fst (ILibLinkedList_Remove (Some a) L)) b)) = Data (the (nodes L b))"
  by (auto simp: ILibLinkedList_Remove_def Let_def upd_opt_def)

lemma AddHead_data [list_abs]:
  assumes "ll_wf L as" "nodes L p = None"
  shows "ll_data (ILibLinkedList_AddHead p d L) (p # as) = d # ll_data L as"
  using assms by (auto simp: Data_AddHead ll_wf_fresh intro!: ll_data_cong)

lemma AddTail_data [list_abs]:
  assumes "ll_wf L as" "nodes L p = None"
  shows "ll_data (ILibLinkedList_AddTailEx p d L) (as @ [p]) = ll_data L as @ [d]"
  using assms by (auto simp: Data_AddTail ll_wf_fresh intro!: ll_data_cong)

lemma InsertBefore_data [list_abs]:
  assumes "ll_wf L (xs @ a # ys)" "nodes L p = None"
  shows "ll_data (fst (ILibLinkedList_InsertBefore p (Some a) d L)) (xs @ p # a # ys)
    = ll_data L xs @ d # ll_data L (a # ys)"
  using assms(2) ll_wf_live [OF assms(1), of a] ll_wf_fresh [OF assms(1), of p]
  by (auto simp: ll_data_def Data_InsertBefore)

lemma InsertAfter_data [list_abs]:
  assumes "ll_wf L (xs @ a # ys)" "nodes L p = None"
  shows "ll_data (fst (ILibLinkedList_InsertAfter p (Some a) d L)) (xs @ a # p # ys)
    = ll_data L (xs @ [a]) @ d # ll_data L ys"
  using assms(2) ll_wf_live [OF assms(1), of a] ll_wf_fresh [OF assms(1), of p]
  by (auto simp: ll_data_def Data_InsertAfter)

lemma Remove_data [list_abs]:
  assumes "ll_wf L (xs @ a # ys)"
  shows "ll_data (fst (ILibLinkedList_Remove (Some a) L)) (xs @ ys) = ll_data L xs @ ll_data L ys"
proof -
  have "distinct (xs @ a # ys)" using assms by (simp add: ll_wf_def)
  then have "a \<notin> set xs" "a \<notin> set ys" by auto
  with ll_wf_live [OF assms, of a] show ?thesis
    by (auto simp: ll_data_def intro!: Data_Remove)
qed

lemma Remove_next [list_abs]:
  "ll_wf L (xs @ a # ys) \<Longrightarrow> snd (ILibLinkedList_Remove (Some a) L) = hd_or ys None"
  by (erule ll_wf_lookup) (simp add: ILibLinkedList_Remove_def Let_def)

lemma GetNextNode_wf [list_abs]:
  assumes "ll_wf L (xs @ a # ys)"
  shows "ILibLinkedList_GetNextNode (Some a) L = hd_or ys None"
proof (rule ll_wf_lookup [OF assms])
  fix nd assume "nodes L a = Some nd" "Next nd = hd_or ys None"
  moreover from assms have "hd_or ys None \<noteq> Some a" by (cases ys) (auto simp: ll_wf_def)
  ultimately show ?thesis by (simp add: ILibLinkedList_GetNextNode_def)
qed

lemma GetData_wf [list_abs]:
  "ll_wf L (xs @ a # ys) \<Longrightarrow> ILibLinkedList_GetDataFromNode (Some a) L = Some (Data (the (nodes L a)))"
  by (erule ll_wf_lookup) (simp add: ILibLinkedList_GetDataFromNode_def)


lemma ll_wf_Head: "ll_wf L as \<Longrightarrow> ILibLinkedList_GetNode_Head L = hd_or as None"
  by (simp add: ll_wf_def ILibLinkedList_GetNode_Head_def)

text \<open>The list of data pointers a list object represents, with its node addresses hidden.\<close>

definition ll_repr :: "'d ll_root \<Rightarrow> 'd list \<Rightarrow> bool" where
  "ll_repr L ds \<longleftrightarrow> (\<exists>as. ll_wf L as \<and> ll_data L as = ds)"

lemma ll_reprI: "ll_wf L as \<Longrightarrow> ll_data L as = ds \<Longrightarrow> ll_repr L ds"
  by (auto simp: ll_repr_def)

section \<open>Loops over the list\<close>

lemma SetData_wf [wf_intros]:
  assumes "ll_wf L (xs @ a # ys)"
  shows "ll_wf (ILibLinkedList_SetData a d L) (xs @ a # ys)"
proof -
  have "dseg (hupd a (\<lambda>nd. nd\<lparr>Data := d\<rparr>) h) p zs n = dseg h p zs n" for h p zs n
    by (induction zs arbitrary: p) (auto simp: hupd_def split: option.splits)
  with assms show ?thesis
    by (simp add: ll_wf_def ILibLinkedList_SetData_def upd_node_def del: dseg.simps)
qed

lemma SetData_data [list_abs]:
  assumes "ll_wf L (xs @ a # ys)"
  shows "ll_data (ILibLinkedList_SetData a d L) (xs @ a # ys) = ll_data L xs @ d # ll_data L ys"
proof -
  have "a \<notin> set xs" "a \<notin> set ys" "nodes L a \<noteq> None"
    using assms by (auto simp: ll_wf_def)
  then show ?thesis
    by (auto simp: ll_data_def ILibLinkedList_SetData_def upd_node_def hupd_def)
qed

text \<open>
  \<open>ILibLinkedList_Remove_ByData\<close> returns on every well-formed list; it removes exactly the nodes
  that point to the given data and counts them.
\<close>

lemma remove_by_data_loop_correct:
  assumes "ll_wf L (xs @ ys)"
  shows "\<exists>L'. remove_by_data_loop d (hd_or ys None) r L
      = Some (L', r + length (filter (\<lambda>a. Data (the (nodes L a)) = d) ys))
    \<and> ll_wf L' (xs @ filter (\<lambda>a. Data (the (nodes L a)) \<noteq> d) ys)
    \<and> ll_data L' (xs @ filter (\<lambda>a. Data (the (nodes L a)) \<noteq> d) ys)
        = ll_data L xs @ filter (\<lambda>x. x \<noteq> d) (ll_data L ys)"
  using assms
proof (induction ys arbitrary: L xs r)
  case Nil
  then show ?case by (simp add: remove_by_data_loop.simps)
next
  case (Cons a ys)
  note data = GetData_wf [OF Cons.prems] and next_node = GetNextNode_wf [OF Cons.prems]
  show ?case
  proof (cases "Data (the (nodes L a)) = d")
    case True
    let ?L = "fst (ILibLinkedList_Remove (Some a) L)"
    have wf: "ll_wf ?L (xs @ ys)" using Cons.prems by (rule Remove_wf)
    have dist: "distinct (xs @ a # ys)" using Cons.prems by (simp add: ll_wf_def)
    have same: "Data (the (nodes ?L b)) = Data (the (nodes L b))" if "b \<in> set xs \<union> set ys" for b
    proof -
      have "b \<noteq> a" using that dist by auto
      then show ?thesis using Data_Remove ll_wf_live [OF Cons.prems, of a] by simp
    qed
    have fil: "filter (\<lambda>b. P (Data (the (nodes ?L b)))) ys = filter (\<lambda>b. P (Data (the (nodes L b)))) ys" for P
      using same by (intro filter_cong) simp_all
    have lld: "ll_data ?L xs = ll_data L xs" "ll_data ?L ys = ll_data L ys"
      using same by (simp_all add: ll_data_def)
    from Cons.IH [OF wf, of "r + 1"] show ?thesis
      using True Remove_next [OF Cons.prems] data
      by (subst remove_by_data_loop.simps)
         (simp add: fil [of "\<lambda>x. x = d"] fil [of "\<lambda>x. x \<noteq> d"] lld case_prod_unfold)
  next
    case False
    from Cons.IH [of L "xs @ [a]" r] Cons.prems show ?thesis
      using False next_node data by (subst remove_by_data_loop.simps) simp
  qed
qed

lemma Remove_ByData_repr:
  assumes "ll_repr L ds"
  shows "\<exists>L'. ILibLinkedList_Remove_ByData d L = Some (L', count_list ds d)
    \<and> ll_repr L' (filter (\<lambda>x. x \<noteq> d) ds)"
proof -
  from assms obtain as where as: "ll_wf L as" "ll_data L as = ds" by (auto simp: ll_repr_def)
  have "length (filter (\<lambda>a. Data (the (nodes L a)) = d) as) = count_list (ll_data L as) d"
    by (induction as) auto
  with remove_by_data_loop_correct [of L "[]" as d 0] as show ?thesis
    by (auto simp: ILibLinkedList_Remove_ByData_def ll_wf_Head intro: ll_reprI)
qed

text \<open>The search returns the first node that matches.\<close>

lemma search_loop_correct:
  assumes "ll_wf L (xs @ ys)"
  shows "search_loop comparer k (hd_or ys None) L
    = Some (find (\<lambda>a. search_match comparer k (Data (the (nodes L a)))) ys)"
  using assms
proof (induction ys arbitrary: xs)
  case Nil
  then show ?case by (simp add: search_loop.simps)
next
  case (Cons a ys)
  from Cons.IH [of "xs @ [a]"] Cons.prems show ?case
    using GetNextNode_wf [OF Cons.prems] GetData_wf [OF Cons.prems]
    by (subst search_loop.simps) simp
qed

lemma GetNode_Search_wf [list_abs]:
  "ll_wf L as \<Longrightarrow> ILibLinkedList_GetNode_Search comparer k L
     = Some (find (\<lambda>a. search_match comparer k (Data (the (nodes L a)))) as)"
  using search_loop_correct [of L "[]" as]
  by (simp add: ILibLinkedList_GetNode_Search_def ll_wf_Head)

text \<open>
  Sorted insertion on the list of data: the first element that compares equal is replaced by
  what the chooser returns, the new element goes before the first one that compares below it
  (so the comparer orders the list from large to small), or at the end.
\<close>

fun sins :: "('d \<Rightarrow> 'd \<Rightarrow> int) \<Rightarrow> ('d option \<Rightarrow> 'd \<Rightarrow> 'u \<Rightarrow> 'd \<times> 'u) \<Rightarrow> 'd \<Rightarrow> 'u \<Rightarrow> 'd list \<Rightarrow> 'd list \<times> 'u" where
  "sins cmp ch d u [] = (case ch None d u of (x, u') \<Rightarrow> ([x], u'))"
| "sins cmp ch d u (y # ys) =
     (if cmp y d = 0 then (case ch (Some y) d u of (x, u') \<Rightarrow> (x # ys, u'))
      else if cmp y d < 0 then (case ch None d u of (x, u') \<Rightarrow> (x # y # ys, u'))
      else (case sins cmp ch d u ys of (zs, u') \<Rightarrow> (y # zs, u')))"

lemma sorted_insert_loop_correct:
  assumes "ll_wf L (xs @ ys)" "nodes L p = None"
  shows "\<exists>L' r u'. sorted_insert_loop p cmp ch d u (hd_or ys None) L = Some (L', r, u')
    \<and> ll_repr L' (ll_data L xs @ fst (sins cmp ch d u (ll_data L ys)))
    \<and> u' = snd (sins cmp ch d u (ll_data L ys))"
  using assms
proof (induction ys arbitrary: xs)
  case Nil
  then have "ll_repr (ILibLinkedList_AddTailEx p x L) (ll_data L xs @ [x])" for x
    using AddTail_wf [of L xs p] AddTail_data [of L xs p] by (auto intro!: ll_reprI)
  then show ?case by (simp add: sorted_insert_loop.simps split: prod.split)
next
  case (Cons a ys)
  note wf = Cons.prems(1) and fresh = Cons.prems(2)
  note data = GetData_wf [OF wf] and next_node = GetNextNode_wf [OF wf]
  let ?x = "Data (the (nodes L a))"
  consider "cmp ?x d = 0" | "cmp ?x d < 0" | "cmp ?x d > 0" by linarith
  then show ?case
  proof cases
    case 1
    have "ll_repr (ILibLinkedList_SetData a x L) (ll_data L xs @ x # ll_data L ys)" for x
      using SetData_wf [OF wf] SetData_data [OF wf] by (rule ll_reprI)
    with 1 show ?thesis using data
      by (subst sorted_insert_loop.simps) (simp split: prod.split)
  next
    case 2
    have "ll_repr (fst (ILibLinkedList_InsertBefore p (Some a) x L)) (ll_data L xs @ x # ll_data L (a # ys))" for x
      using InsertBefore_wf [OF wf fresh] InsertBefore_data [OF wf fresh] by (rule ll_reprI)
    with 2 show ?thesis using data
      by (subst sorted_insert_loop.simps) (simp add: case_prod_unfold)
  next
    case 3
    have "ll_wf L ((xs @ [a]) @ ys)" using wf by simp
    from Cons.IH [OF this fresh] 3 show ?thesis using data next_node
      by (subst sorted_insert_loop.simps) (auto split: prod.split)
  qed
qed

lemma SortedInsertEx_repr:
  assumes "ll_repr L ds" "nodes L p = None"
  shows "\<exists>L' r. ILibLinkedList_SortedInsertEx p cmp ch d u L
      = Some (L', r, snd (sins cmp ch d u ds)) \<and> ll_repr L' (fst (sins cmp ch d u ds))"
proof -
  from assms obtain as where as: "ll_wf L as" "ll_data L as = ds" by (auto simp: ll_repr_def)
  show ?thesis
  proof (cases as)
    case Nil
    have "ll_repr (ILibLinkedList_AddHead p x L) [x]" for x
      using AddHead_wf [OF as(1) assms(2)] AddHead_data [OF as(1) assms(2)] Nil as(2)
      by (intro ll_reprI) auto
    with Nil as show ?thesis
      by (auto simp: ILibLinkedList_SortedInsertEx_def ll_wf_Head split: prod.split)
  next
    case (Cons a bs)
    then show ?thesis
      using sorted_insert_loop_correct [of L "[]" as p cmp ch d u] assms as
      by (auto simp: ILibLinkedList_SortedInsertEx_def ll_wf_Head)
  qed
qed

lemma SortedInsert_repr:
  assumes "ll_repr L ds" "nodes L p = None"
    and S: "S = sins cmp ILibLinkedList_SortedInsert_DefaultChooser d None ds"
  shows "\<exists>L'. ILibLinkedList_SortedInsert p cmp d L = Some (L', snd S) \<and> ll_repr L' (fst S)"
  using SortedInsertEx_repr [OF assms(1,2), of cmp ILibLinkedList_SortedInsert_DefaultChooser d None]
  by (auto simp: ILibLinkedList_SortedInsert_def S)

lemma index_loop_correct:
  assumes "ll_wf L (xs @ ys)"
  shows "index_loop a (hd_or ys None) i L
    = Some (if a \<in> set ys then i + int (length (takeWhile (\<lambda>b. b \<noteq> a) ys)) else -1)"
  using assms
proof (induction ys arbitrary: xs i)
  case Nil
  then show ?case by (simp add: index_loop.simps)
next
  case (Cons b ys)
  have "ll_wf L ((xs @ [b]) @ ys)" using Cons.prems by simp
  note IH = Cons.IH [OF this]
  obtain nd where "nodes L b = Some nd" "Next nd = hd_or ys None"
    using Cons.prems by (rule ll_wf_lookup)
  with IH show ?case by (subst index_loop.simps) auto
qed

lemma GetIndex_wf [list_abs]:
  assumes "ll_wf L as"
  shows "ILibLinkedList_GetIndex a L
    = Some (if a \<in> set as then int (length (takeWhile (\<lambda>b. b \<noteq> a) as)) else -1)"
  using index_loop_correct [of L "[]" as a 0] assms
  by (simp add: ILibLinkedList_GetIndex_def ll_wf_Head)

lemma Destroy_wf:
  assumes "ll_wf L as"
  shows "\<exists>L'. ILibLinkedList_Destroy L = Some L' \<and> ll_wf L' []"
  unfolding ILibLinkedList_Destroy_def
  using assms
proof (induction as arbitrary: L)
  case Nil
  then have "Head L = None" by (simp add: ll_wf_def)
  with Nil show ?case by (subst destroy_loop.simps) simp
next
  case (Cons a as)
  have "Head L = Some a" "ILibLinkedList_GetNode_Head L = Some a"
    using Cons.prems ll_wf_Head [OF Cons.prems] by (simp_all add: ILibLinkedList_GetNode_Head_def)
  moreover have "ll_wf (fst (ILibLinkedList_Remove (Some a) L)) as"
    using Remove_wf [of L "[]" a as] Cons.prems by simp
  ultimately show ?case using Cons.IH by (subst destroy_loop.simps) simp
qed

lemma shallow_copy_loop_correct:
  assumes "ll_wf L (xs @ ys)" "ll_wf R bs" "inj alloc" "set bs = alloc ` {..<k}"
  shows "\<exists>R' bs'. shallow_copy_loop alloc k (hd_or ys None) L R = Some R' \<and> ll_wf R' bs'
    \<and> ll_data R' bs' = ll_data R bs @ ll_data L ys"
  using assms
proof (induction ys arbitrary: xs k R bs)
  case Nil
  then show ?case by (auto simp: shallow_copy_loop.simps)
next
  case (Cons a ys)
  have fresh: "nodes R (alloc k) = None"
    using Cons.prems(2-4) by (auto simp: ll_wf_fresh inj_def)
  let ?R = "ILibLinkedList_AddTailEx (alloc k) (Data (the (nodes L a))) R"
  have "ll_wf L ((xs @ [a]) @ ys)" using Cons.prems(1) by simp
  moreover have "ll_wf ?R (bs @ [alloc k])" using Cons.prems(2) fresh by (rule AddTail_wf)
  moreover have "set (bs @ [alloc k]) = alloc ` {..<k + 1}"
    using Cons.prems(4) by (auto simp: lessThan_Suc)
  ultimately show ?case
    using Cons.IH [of "xs @ [a]" ?R "bs @ [alloc k]" "k + 1"] Cons.prems(1,3)
      AddTail_data [OF Cons.prems(2) fresh] GetData_wf [OF Cons.prems(1)] GetNextNode_wf [OF Cons.prems(1)]
    by (subst shallow_copy_loop.simps) auto
qed

lemma ShallowCopy_repr:
  assumes "ll_repr L ds" "inj alloc"
  shows "\<exists>R. ILibLinkedList_ShallowCopy alloc L = Some R \<and> ll_repr R ds"
proof -
  from assms obtain as where "ll_wf L as" "ll_data L as = ds" by (auto simp: ll_repr_def)
  with shallow_copy_loop_correct [of L "[]" as ILibLinkedList_Create "[]" alloc 0] show ?thesis
    using assms(2) Create_wf by (auto simp: ILibLinkedList_ShallowCopy_def ll_wf_Head intro: ll_reprI)
qed

text \<open>Reallocating a node: its neighbours, the head and the tail follow the node to its new address.\<close>

lemma ResizeAdditional_wf:
  assumes wf: "ll_wf L (xs @ a # ys)" and fresh: "p = a \<or> nodes L p = None"
  shows "\<exists>L'. ILibLinkedList_Node_ResizeAdditional (Some p) (Some a) L = Some (L', Some p)
    \<and> ll_wf L' (xs @ p # ys) \<and> ll_data L' (xs @ p # ys) = ll_data L (xs @ a # ys)"
proof -
  obtain nd where nd: "nodes L a = Some nd" "Previous nd = last_or None xs" "Next nd = hd_or ys None"
    using wf by (rule ll_wf_lookup)
  show ?thesis
  proof (cases "p = a")
    case True
    with wf nd show ?thesis by (simp add: ILibLinkedList_Node_ResizeAdditional_def)
  next
    case False
    then have dist: "distinct (xs @ a # ys)" "p \<notin> set (xs @ a # ys)"
      using wf fresh by (auto simp: ll_wf_def)
    let ?h = "(nodes L)(a := None, p \<mapsto> nd)"
    have "dseg ?h None xs (Some a)" "dseg ?h (Some a) ys None"
      using wf dist by (auto simp: ll_wf_def dseg_append)
    then have seg: "dseg (hupd_opt (hd_or ys None) (\<lambda>m. m\<lparr>Previous := Some p\<rparr>)
        (hupd_opt (last_or None xs) (\<lambda>m. m\<lparr>Next := Some p\<rparr>) ?h)) None (xs @ p # ys) None"
      by (rule dseg_insert) (use dist nd in auto)
    let ?L = "fst (the (ILibLinkedList_Node_ResizeAdditional (Some p) (Some a) L))"
    have "ILibLinkedList_Node_ResizeAdditional (Some p) (Some a) L = Some (?L, Some p)"
      using nd False by (simp add: ILibLinkedList_Node_ResizeAdditional_def Let_def)
    moreover have "ll_wf ?L (xs @ p # ys)" using wf nd dist seg False
      by (cases "xs = []"; cases "ys = []")
         (auto simp: ll_wf_def ILibLinkedList_Node_ResizeAdditional_def Let_def upd_opt_def
            simp del: dseg.simps)
    moreover have "ll_data ?L (xs @ p # ys) = ll_data L (xs @ a # ys)" using nd dist False
      by (auto simp: ll_data_def ILibLinkedList_Node_ResizeAdditional_def Let_def upd_opt_def)
    ultimately show ?thesis by blast
  qed
qed

section \<open>The abstraction function\<close>

text \<open>
  \<open>ll_addrs L\<close> follows the \<open>Next\<close> pointers from the head for \<open>count\<close> steps, so it is
  executable; on a well-formed list it returns the nodes of the list.
\<close>

fun walk :: "(addr \<rightharpoonup> 'd ll_node) \<Rightarrow> nat \<Rightarrow> addr option \<Rightarrow> addr list" where
  "walk h 0 p = []"
| "walk h (Suc k) None = []"
| "walk h (Suc k) (Some a) = (case h a of None \<Rightarrow> [] | Some nd \<Rightarrow> a # walk h k (Next nd))"

definition ll_addrs :: "'d ll_root \<Rightarrow> addr list" where
  "ll_addrs L = walk (nodes L) (nat (count L)) (Head L)"

definition ll_list :: "'d ll_root \<Rightarrow> 'd list" where
  "ll_list L = ll_data L (ll_addrs L)"

definition ll_ok :: "'d ll_root \<Rightarrow> bool" where
  "ll_ok L \<longleftrightarrow> ll_wf L (ll_addrs L)"

lemma walk_dseg: "dseg h p as None \<Longrightarrow> walk h (length as) (hd_or as None) = as"
  by (induction as arbitrary: p) (auto split: option.splits)

lemma ll_wf_addrs: "ll_wf L as \<Longrightarrow> ll_addrs L = as"
  using walk_dseg by (fastforce simp: ll_addrs_def ll_wf_def)

lemma ll_repr_iff: "ll_repr L ds \<longleftrightarrow> ll_ok L \<and> ll_list L = ds"
  by (auto simp: ll_repr_def ll_ok_def ll_list_def dest: ll_wf_addrs)

lemma ll_okI: "ll_wf L as \<Longrightarrow> ll_ok L"
  by (simp add: ll_ok_def ll_wf_addrs)

lemma ll_ok_count: "ll_ok L \<Longrightarrow> count L = int (length (ll_list L))"
  by (simp add: ll_ok_def ll_wf_def ll_list_def)

lemma ll_ok_repr: "ll_ok L \<Longrightarrow> ll_repr L (ll_list L)"
  by (simp add: ll_repr_iff)

lemma AddTail_repr:
  "ll_repr L ds \<Longrightarrow> nodes L p = None \<Longrightarrow> ll_repr (ILibLinkedList_AddTailEx p d L) (ds @ [d])"
  by (auto simp: ll_repr_def intro: AddTail_wf AddTail_data)

lemma AddHead_repr:
  "ll_repr L ds \<Longrightarrow> nodes L p = None \<Longrightarrow> ll_repr (ILibLinkedList_AddHead p d L) (d # ds)"
  by (auto simp: ll_repr_def intro: AddHead_wf AddHead_data)

section \<open>Properties\<close>

text \<open>
  C36 (refinement): on a well-formed linked list, \<open>ILibLinkedList_InsertBefore\<close>, \<open>InsertAfter\<close>
  and \<open>Remove\<close> at any node \<open>a\<close> relink the store to a well-formed doubly linked list over the
  expected node sequence, with the data pointers of all other nodes unchanged, and
  \<open>Remove\<close> returns the successor of the node it freed.
\<close>

theorem linked_list_updates_refine:
  assumes "ll_wf L (xs @ a # ys)" "nodes L p = None"
  shows "ll_wf (fst (ILibLinkedList_InsertBefore p (Some a) d L)) (xs @ p # a # ys)
    \<and> ll_data (fst (ILibLinkedList_InsertBefore p (Some a) d L)) (xs @ p # a # ys)
        = ll_data L xs @ d # ll_data L (a # ys)
    \<and> ll_wf (fst (ILibLinkedList_InsertAfter p (Some a) d L)) (xs @ a # p # ys)
    \<and> ll_data (fst (ILibLinkedList_InsertAfter p (Some a) d L)) (xs @ a # p # ys)
        = ll_data L (xs @ [a]) @ d # ll_data L ys
    \<and> ll_wf (fst (ILibLinkedList_Remove (Some a) L)) (xs @ ys)
    \<and> ll_data (fst (ILibLinkedList_Remove (Some a) L)) (xs @ ys) = ll_data L xs @ ll_data L ys
    \<and> snd (ILibLinkedList_Remove (Some a) L) = hd_or ys None"
  using assms
  by (intro conjI InsertBefore_wf InsertBefore_data InsertAfter_wf InsertAfter_data Remove_wf
      Remove_data Remove_next)

definition ex_list :: "nat ll_root" where
  "ex_list = ILibLinkedList_AddTailEx 3 30 (ILibLinkedList_AddTailEx 2 20
     (ILibLinkedList_AddHead 1 10 ILibLinkedList_Create))"

lemma ex_list_wf: "ll_wf ex_list [1, 2, 3]"
  by (auto simp: ex_list_def ll_wf_def ILibLinkedList_AddTailEx_def ILibLinkedList_AddHead_def
      ILibLinkedList_Create_def Let_def upd_opt_def hupd_def split: if_splits)

theorem linked_list_updates_refine_witness:
  "ll_wf (fst (ILibLinkedList_Remove (Some 2) ex_list)) [1, 3]
    \<and> snd (ILibLinkedList_Remove (Some 2) ex_list) = Some 3"
proof -
  have "ll_wf ex_list ([1] @ 2 # [3])" using ex_list_wf by simp
  moreover have "nodes ex_list 7 = None" using ll_wf_fresh [OF ex_list_wf, of 7] by simp
  ultimately show ?thesis using linked_list_updates_refine [of ex_list "[1]" 2 "[3]" 7] by simp
qed

text \<open>
  C40 (termination): \<open>ILibLinkedList_Remove_ByData\<close>, a loop that follows the pointers of the store
  while it removes nodes, returns on every list that represents the data \<open>ds\<close>; it returns the
  number of occurrences of \<open>d\<close>, and the list then represents \<open>ds\<close> without them.
\<close>

theorem linked_list_remove_by_data:
  assumes "ll_repr L ds"
  shows "\<exists>L'. ILibLinkedList_Remove_ByData d L = Some (L', count_list ds d)
    \<and> ll_repr L' (filter (\<lambda>x. x \<noteq> d) ds)"
  using assms by (rule Remove_ByData_repr)

theorem linked_list_remove_by_data_witness:
  "\<exists>L'. ILibLinkedList_Remove_ByData 20 ex_list = Some (L', 1) \<and> ll_repr L' [10, 30]"
proof -
  have "ll_data ex_list [1, 2, 3] = [10, 20, 30]"
    by (simp add: ex_list_def Data_AddTail Data_AddHead)
  then have "ll_repr ex_list [10, 20, 30]" by (rule ll_reprI [OF ex_list_wf])
  from linked_list_remove_by_data [OF this, of 20] show ?thesis by simp
qed

end
