(* ===== verification/Queues.thy ===== *)
theory Queues
  imports LinkedList
begin

text \<open>
  The queues and the stack of microstack/ILibParsers.c, and the interface \<open>fifo_queue\<close> they
  share with their clients: \<open>ILibQueue_*\<close> (a thin layer over the linked list, unbounded) and
  \<open>ILibCircularQueue_*\<close> (a ring of preallocated records, bounded) both keep the contract of a
  first-in-first-out queue, and the facts about whole runs are proved once in the locale.
\<close>

section \<open>The interface\<close>

text \<open>
  \<open>enq k x q\<close> stores \<open>x\<close>; \<open>k\<close> is what the operation takes from its environment (the address
  of a fresh node, nothing for the ring) and \<open>room q k\<close> says when it can succeed.
\<close>

fun feed :: "('k \<Rightarrow> 'a \<Rightarrow> 'q \<Rightarrow> 'q) \<Rightarrow> ('k \<times> 'a) list \<Rightarrow> 'q \<Rightarrow> 'q" where
  "feed enq [] q = q"
| "feed enq ((k, x) # kxs) q = feed enq kxs (enq k x q)"

fun feedable :: "('q \<Rightarrow> 'k \<Rightarrow> bool) \<Rightarrow> ('k \<Rightarrow> 'a \<Rightarrow> 'q \<Rightarrow> 'q) \<Rightarrow> ('k \<times> 'a) list \<Rightarrow> 'q \<Rightarrow> bool" where
  "feedable room enq [] q = True"
| "feedable room enq ((k, x) # kxs) q = (room q k \<and> feedable room enq kxs (enq k x q))"

fun drain :: "('q \<Rightarrow> 'q \<times> 'a option) \<Rightarrow> nat \<Rightarrow> 'q \<Rightarrow> 'a option list" where
  "drain deq 0 q = []"
| "drain deq (Suc n) q = (case deq q of (q', r) \<Rightarrow> r # drain deq n q')"

locale fifo_queue =
  fixes enq :: "'k \<Rightarrow> 'a \<Rightarrow> 'q \<Rightarrow> 'q"
    and deq :: "'q \<Rightarrow> 'q \<times> 'a option"
    and peek :: "'q \<Rightarrow> 'a option"
    and is_empty :: "'q \<Rightarrow> bool"
    and contents :: "'q \<Rightarrow> 'a list"
    and ok :: "'q \<Rightarrow> bool"
    and room :: "'q \<Rightarrow> 'k \<Rightarrow> bool"
  assumes enq_contents: "ok q \<Longrightarrow> room q k \<Longrightarrow> contents (enq k x q) = contents q @ [x]"
    and enq_ok: "ok q \<Longrightarrow> room q k \<Longrightarrow> ok (enq k x q)"
    and deq_contents: "ok q \<Longrightarrow> contents (fst (deq q)) = tl (contents q)"
    and deq_result: "ok q \<Longrightarrow> snd (deq q) = (if contents q = [] then None else Some (hd (contents q)))"
    and deq_ok: "ok q \<Longrightarrow> ok (fst (deq q))"
    and peek_result: "ok q \<Longrightarrow> peek q = (if contents q = [] then None else Some (hd (contents q)))"
    and is_empty_iff: "ok q \<Longrightarrow> is_empty q \<longleftrightarrow> contents q = []"
begin

lemma feed_contents:
  "ok q \<Longrightarrow> feedable room enq kxs q \<Longrightarrow>
     ok (feed enq kxs q) \<and> contents (feed enq kxs q) = contents q @ map snd kxs"
proof (induction kxs arbitrary: q)
  case (Cons kx kxs)
  obtain k x where kx: "kx = (k, x)" by (cases kx)
  with Cons.prems Cons.IH [of "enq k x q"] show ?case by (simp add: enq_contents enq_ok)
qed simp

lemma drain_contents:
  "ok q \<Longrightarrow> drain deq (length (contents q) + n) q = map Some (contents q) @ replicate n None"
proof (induction "length (contents q)" arbitrary: q)
  case 0
  then show ?case
  proof (induction n arbitrary: q)
    case (Suc n)
    then show ?case
      using deq_contents [of q] deq_result [of q] deq_ok [of q] by (simp add: case_prod_unfold)
  qed simp
next
  case (Suc m)
  then obtain x xs where q: "contents q = x # xs" by (cases "contents q") auto
  have "drain deq (m + n) (fst (deq q)) = map Some xs @ replicate n None"
    using Suc.hyps(1) [of "fst (deq q)"] Suc.hyps(2) Suc.prems q deq_contents [of q] deq_ok [of q]
    by simp
  then show ?case using Suc.hyps(2) [symmetric] Suc.prems q deq_result [of q] by (simp add: case_prod_unfold)
qed

text \<open>What is put in comes out, in the same order, and nothing else.\<close>

lemma fifo_order:
  assumes "ok q" "contents q = []" "feedable room enq kxs q"
  shows "drain deq (length kxs + n) (feed enq kxs q) = map (Some \<circ> snd) kxs @ replicate n None"
  using feed_contents [OF assms(1,3)] drain_contents [of "feed enq kxs q" n] assms(2) by simp

lemma peek_deq: "ok q \<Longrightarrow> peek q = snd (deq q)"
  by (simp add: peek_result deq_result)

end

text \<open>
  A bounded queue: it has room exactly while it holds fewer elements than its capacity, and
  enqueueing on a full queue changes nothing.  A run of operations is compared with the same
  run on a plain list.
\<close>

datatype 'a qop = Enq 'a | Deq

fun bounded_spec :: "nat \<Rightarrow> 'a qop list \<Rightarrow> 'a list \<Rightarrow> 'a option list \<times> 'a list" where
  "bounded_spec cap [] xs = ([], xs)"
| "bounded_spec cap (Enq x # ops) xs = bounded_spec cap ops (if length xs < cap then xs @ [x] else xs)"
| "bounded_spec cap (Deq # ops) xs =
     (case bounded_spec cap ops (tl xs) of (out, ys) \<Rightarrow> ((if xs = [] then None else Some (hd xs)) # out, ys))"

fun qrun :: "('a \<Rightarrow> 'q \<Rightarrow> 'q) \<Rightarrow> ('q \<Rightarrow> 'q \<times> 'a option) \<Rightarrow> 'a qop list \<Rightarrow> 'q \<Rightarrow> 'a option list \<times> 'q" where
  "qrun enq deq [] q = ([], q)"
| "qrun enq deq (Enq x # ops) q = qrun enq deq ops (enq x q)"
| "qrun enq deq (Deq # ops) q =
     (case deq q of (q', r) \<Rightarrow> (case qrun enq deq ops q' of (out, q'') \<Rightarrow> (r # out, q'')))"

locale bounded_queue = fifo_queue +
  fixes capacity :: "'q \<Rightarrow> nat"
  assumes room_capacity: "ok q \<Longrightarrow> room q k \<longleftrightarrow> length (contents q) < capacity q"
    and enq_full: "ok q \<Longrightarrow> \<not> room q k \<Longrightarrow> enq k x q = q"
    and capacity_enq: "ok q \<Longrightarrow> capacity (enq k x q) = capacity q"
    and capacity_deq: "ok q \<Longrightarrow> capacity (fst (deq q)) = capacity q"
begin

lemma bounded_run:
  assumes "ok q" "capacity q = cap"
  shows "fst (qrun (enq k) deq ops q) = fst (bounded_spec cap ops (contents q))
    \<and> contents (snd (qrun (enq k) deq ops q)) = snd (bounded_spec cap ops (contents q))
    \<and> ok (snd (qrun (enq k) deq ops q))"
  using assms
proof (induction ops arbitrary: q)
  case Nil
  then show ?case by simp
next
  case (Cons op ops)
  show ?case
  proof (cases op)
    case (Enq x)
    have "ok (enq k x q)" "capacity (enq k x q) = cap"
      and "contents (enq k x q) = (if length (contents q) < cap then contents q @ [x] else contents q)"
      using Cons.prems enq_ok enq_full enq_contents capacity_enq room_capacity [of q k]
      by (cases "room q k"; simp)+
    with Cons.IH Enq show ?thesis by simp
  next
    case Deq
    with Cons.IH [of "fst (deq q)"] Cons.prems show ?thesis
      by (simp add: deq_contents deq_result deq_ok capacity_deq case_prod_unfold)
  qed
qed

end

section \<open>ILibQueue\<close>

type_synonym 'd queue = "'d ll_root"

definition ILibQueue_Create :: "'d queue" where
  "ILibQueue_Create = ILibLinkedList_Create"

definition ILibQueue_IsEmpty :: "'d queue \<Rightarrow> bool" where
  "ILibQueue_IsEmpty q = (ILibLinkedList_GetNode_Head q = None)"

definition ILibQueue_EnQueue :: "addr \<Rightarrow> 'd \<Rightarrow> 'd queue \<Rightarrow> 'd queue" where
  "ILibQueue_EnQueue p d q = ILibLinkedList_AddTailEx p d q"

definition ILibQueue_DeQueue :: "'d queue \<Rightarrow> 'd queue \<times> 'd option" where
  "ILibQueue_DeQueue q =
     (let node = ILibLinkedList_GetNode_Head q
      in if node \<noteq> None \<and> CanaryOK q node
         then (fst (ILibLinkedList_Remove node q), ILibLinkedList_GetDataFromNode node q)
         else (q, None))"

definition ILibQueue_PeekQueue :: "'d queue \<Rightarrow> 'd option" where
  "ILibQueue_PeekQueue q =
     (let node = ILibLinkedList_GetNode_Head q
      in if node \<noteq> None then ILibLinkedList_GetDataFromNode node q else None)"

definition ILibQueue_GetCount :: "'d queue \<Rightarrow> int" where
  "ILibQueue_GetCount q = ILibLinkedList_GetCount q"

definition ILibQueue_Destroy :: "'d queue \<Rightarrow> 'd queue option" where
  "ILibQueue_Destroy q = ILibLinkedList_Destroy q"

lemma queue_cases:
  assumes "ll_ok q"
  obtains "Head q = None" "ll_list q = []" "ll_wf q []"
  | a as where "Head q = Some a" "ll_wf q (a # as)" "ll_list q = Data (the (nodes q a)) # ll_data q as"
      "CanaryOK q (Some a)" "ILibLinkedList_GetDataFromNode (Some a) q = Some (Data (the (nodes q a)))"
proof (cases "ll_addrs q")
  case Nil
  then have "ll_wf q []" using assms by (simp add: ll_ok_def)
  moreover from this have "Head q = None" by (simp add: ll_wf_def)
  moreover have "ll_list q = []" using Nil by (simp add: ll_list_def)
  ultimately show ?thesis by (intro that(1))
next
  case (Cons a as)
  then have wf: "ll_wf q (a # as)" using assms by (simp add: ll_ok_def)
  then have "Head q = Some a" by (simp add: ll_wf_def)
  moreover have "CanaryOK q (Some a)" using ll_wf_live [OF wf, of a] by (simp add: CanaryOK_def)
  moreover have "ILibLinkedList_GetDataFromNode (Some a) q = Some (Data (the (nodes q a)))"
    using GetData_wf [of q "[]" a as] wf by simp
  moreover have "ll_list q = Data (the (nodes q a)) # ll_data q as" using Cons by (simp add: ll_list_def)
  ultimately show ?thesis using wf by (intro that(2))
qed

lemma DeQueue_repr:
  assumes "ll_ok q"
  shows "ll_ok (fst (ILibQueue_DeQueue q)) \<and> ll_list (fst (ILibQueue_DeQueue q)) = tl (ll_list q)
    \<and> snd (ILibQueue_DeQueue q) = (if ll_list q = [] then None else Some (hd (ll_list q)))"
  using assms
proof (cases rule: queue_cases)
  case 1
  with assms show ?thesis
    by (simp add: ILibQueue_DeQueue_def ILibLinkedList_GetNode_Head_def Let_def)
next
  case (2 a as)
  have "ll_repr (fst (ILibLinkedList_Remove (Some a) q)) (ll_data q as)"
    using Remove_wf [of q "[]" a as] Remove_data [of q "[]" a as] 2(2) by (auto intro: ll_reprI)
  with 2 show ?thesis
    by (simp add: ILibQueue_DeQueue_def ILibLinkedList_GetNode_Head_def Let_def ll_repr_iff)
qed

interpretation ilq: fifo_queue ILibQueue_EnQueue ILibQueue_DeQueue ILibQueue_PeekQueue
    ILibQueue_IsEmpty ll_list ll_ok "\<lambda>q p. nodes q p = None"
proof (unfold_locales, goal_cases)
  case (1 q k x)
  then show ?case
    using AddTail_repr [OF ll_ok_repr, of q k x] by (auto simp: ILibQueue_EnQueue_def ll_repr_iff)
next
  case (2 q k x)
  then show ?case
    using AddTail_repr [OF ll_ok_repr, of q k x] by (auto simp: ILibQueue_EnQueue_def ll_repr_iff)
next
  case (6 q)
  then show ?case
    by (cases rule: queue_cases)
       (simp_all add: ILibQueue_PeekQueue_def ILibLinkedList_GetNode_Head_def Let_def)
next
  case (7 q)
  then show ?case
    by (cases rule: queue_cases) (simp_all add: ILibQueue_IsEmpty_def ILibLinkedList_GetNode_Head_def)
qed (simp_all add: DeQueue_repr)

section \<open>ILibCircularQueue\<close>

text \<open>
  A ring of \<open>totalEntries + 1\<close> records; \<open>cq_next\<close> holds the \<open>next\<close> pointer of every record
  (as an index), \<open>cq_data\<close> its payload.  One record stays unused, which is how the code tells
  the full ring from the empty one.  \<open>EnQueue\<close> returns the record the caller writes to.
\<close>

record 'd circular_queue =
  cq_head :: nat
  cq_tail :: nat
  cq_next :: "nat list"
  cq_data :: "'d option list"

definition ILibCircularQueue_Create :: "nat \<Rightarrow> 'd circular_queue" where
  "ILibCircularQueue_Create totalEntries =
     (let totalEntries = totalEntries + 1
      in \<lparr>cq_head = 0, cq_tail = 0,
          cq_next = map (\<lambda>index. if index = totalEntries - 1 then 0 else index + 1) [0..<totalEntries],
          cq_data = replicate totalEntries None\<rparr>)"

definition ILibCircularQueue_EnQueue :: "'d circular_queue \<Rightarrow> 'd circular_queue \<times> nat option" where
  "ILibCircularQueue_EnQueue q =
     (let next = cq_next q ! cq_tail q
      in if next = cq_head q then (q, None) else (q\<lparr>cq_tail := next\<rparr>, Some (cq_tail q)))"

definition ILibCircularQueue_DeQueue :: "'d circular_queue \<Rightarrow> 'd circular_queue \<times> nat option" where
  "ILibCircularQueue_DeQueue q =
     (if cq_head q = cq_tail q then (q, None)
      else (q\<lparr>cq_head := cq_next q ! cq_head q\<rparr>, Some (cq_head q)))"

definition ILibCircularQueue_Peek :: "'d circular_queue \<Rightarrow> nat option" where
  "ILibCircularQueue_Peek q = (if cq_head q = cq_tail q then None else Some (cq_head q))"

definition ILibCircularQueue_IsEmpty :: "'d circular_queue \<Rightarrow> bool" where
  "ILibCircularQueue_IsEmpty q \<longleftrightarrow> cq_head q = cq_tail q"

text \<open>
  The queue as its clients use it: they write the payload through the pointer \<open>EnQueue\<close>
  returned, and read it through the pointer of \<open>DeQueue\<close> or \<open>Peek\<close>.
\<close>

definition cq_put :: "unit \<Rightarrow> 'd \<Rightarrow> 'd circular_queue \<Rightarrow> 'd circular_queue" where
  "cq_put k x q = (case ILibCircularQueue_EnQueue q of
       (q', None) \<Rightarrow> q'
     | (q', Some i) \<Rightarrow> q'\<lparr>cq_data := (cq_data q')[i := Some x]\<rparr>)"

definition cq_get :: "'d circular_queue \<Rightarrow> 'd circular_queue \<times> 'd option" where
  "cq_get q = (case ILibCircularQueue_DeQueue q of
       (q', None) \<Rightarrow> (q', None) | (q', Some i) \<Rightarrow> (q', cq_data q ! i))"

definition cq_first :: "'d circular_queue \<Rightarrow> 'd option" where
  "cq_first q = (case ILibCircularQueue_Peek q of None \<Rightarrow> None | Some i \<Rightarrow> cq_data q ! i)"

definition cq_used :: "'d circular_queue \<Rightarrow> nat" where
  "cq_used q = (cq_tail q + length (cq_data q) - cq_head q) mod length (cq_data q)"

definition cq_list :: "'d circular_queue \<Rightarrow> 'd list" where
  "cq_list q = map (\<lambda>k. the (cq_data q ! ((cq_head q + k) mod length (cq_data q)))) [0..<cq_used q]"

definition cq_ok :: "'d circular_queue \<Rightarrow> bool" where
  "cq_ok q \<longleftrightarrow> (let n = length (cq_data q) in
     0 < n \<and> cq_head q < n \<and> cq_tail q < n \<and> length (cq_next q) = n
     \<and> (\<forall>i < n. cq_next q ! i = Suc i mod n)
     \<and> (\<forall>k < cq_used q. cq_data q ! ((cq_head q + k) mod n) \<noteq> None))"

definition cq_room :: "'d circular_queue \<Rightarrow> unit \<Rightarrow> bool" where
  "cq_room q k \<longleftrightarrow> cq_used q + 1 < length (cq_data q)"

text \<open>Arithmetic of the ring.\<close>

lemma ring_used:
  assumes "h < n" "t < (n::nat)"
  shows "(t + n - h) mod n = (if h \<le> t then t - h else t + n - h)"
  using assms by (auto simp: mod_if)

lemma ring_next: "i < n \<Longrightarrow> Suc i mod n = (if Suc i = n then 0 else Suc i)" for n :: nat
  by auto

lemma Create_cq_ok: "cq_ok (ILibCircularQueue_Create n)" "cq_list (ILibCircularQueue_Create n) = []"
    "length (cq_data (ILibCircularQueue_Create n)) = n + 1"
  by (auto simp: cq_ok_def cq_list_def cq_used_def ILibCircularQueue_Create_def Let_def nth_append
      simp del: upt_Suc)

lemma cq_empty_iff: "cq_ok q \<Longrightarrow> cq_list q = [] \<longleftrightarrow> cq_head q = cq_tail q"
  by (auto simp: cq_list_def cq_used_def cq_ok_def Let_def ring_used split: if_splits)

lemma cq_room_iff:
  "cq_ok q \<Longrightarrow> cq_room q k \<longleftrightarrow> cq_next q ! cq_tail q \<noteq> cq_head q"
  by (auto simp: cq_room_def cq_used_def cq_ok_def Let_def ring_used ring_next split: if_splits)

lemma ring_index: "h < n \<Longrightarrow> k < n \<Longrightarrow> (h + k) mod n = (if h + k < n then h + k else h + k - n)" for n :: nat
  by (simp add: mod_if)

lemma cq_used_less: "cq_ok q \<Longrightarrow> cq_used q < length (cq_data q)"
  by (simp add: cq_ok_def cq_used_def Let_def)

lemma cq_tail_index: "cq_ok q \<Longrightarrow> (cq_head q + cq_used q) mod length (cq_data q) = cq_tail q"
  by (auto simp: cq_ok_def cq_used_def Let_def ring_used mod_if)

text \<open>The list the ring represents, by the fields \<open>EnQueue\<close> and \<open>DeQueue\<close> change.\<close>

lemma cq_put_room:
  assumes ok: "cq_ok q" and room: "cq_room q k"
  shows "cq_put k x q = q\<lparr>cq_tail := Suc (cq_tail q) mod length (cq_data q),
           cq_data := (cq_data q)[cq_tail q := Some x]\<rparr>"
proof -
  have "cq_next q ! cq_tail q = Suc (cq_tail q) mod length (cq_data q)"
    using ok by (simp add: cq_ok_def Let_def)
  with cq_room_iff [OF ok, of k] room show ?thesis
    by (simp add: cq_put_def ILibCircularQueue_EnQueue_def Let_def)
qed

lemma cq_put_full: "cq_ok q \<Longrightarrow> \<not> cq_room q k \<Longrightarrow> cq_put k x q = q"
  by (simp add: cq_room_iff cq_put_def ILibCircularQueue_EnQueue_def Let_def)

lemma cq_used_put:
  assumes "cq_ok q" "cq_room q k"
  shows "cq_used (cq_put k x q) = cq_used q + 1"
  using assms
  by (auto simp: cq_put_room) (auto simp: cq_used_def cq_ok_def cq_room_def Let_def mod_if split: if_splits)

lemma cq_put_data:
  assumes "cq_ok q" "cq_room q k" "i \<le> cq_used q"
  shows "cq_data (cq_put k x q) ! ((cq_head q + i) mod length (cq_data q))
    = (if i = cq_used q then Some x else cq_data q ! ((cq_head q + i) mod length (cq_data q)))"
proof -
  let ?n = "length (cq_data q)"
  have n: "cq_head q < ?n" "cq_tail q < ?n" "cq_used q < ?n"
    using assms(1) cq_used_less by (auto simp: cq_ok_def Let_def)
  have "(cq_head q + i) mod ?n = cq_tail q \<longleftrightarrow> i = cq_used q"
    using n assms(3) cq_tail_index [OF assms(1)] by (auto simp: ring_index split: if_splits)
  with n assms(1,2) show ?thesis by (auto simp: cq_put_room cq_tail_index)
qed

lemma cq_put_fields:
  assumes "cq_ok q" "cq_room q k"
  shows "cq_head (cq_put k x q) = cq_head q" "length (cq_data (cq_put k x q)) = length (cq_data q)"
    "cq_next (cq_put k x q) = cq_next q" "cq_tail (cq_put k x q) < length (cq_data q)"
  using assms by (simp_all add: cq_put_room) (simp add: cq_ok_def Let_def)

lemma cq_put_list:
  assumes "cq_ok q" "cq_room q k"
  shows "cq_list (cq_put k x q) = cq_list q @ [x]"
  using assms by (simp add: cq_list_def cq_used_put cq_put_fields cq_put_data)

lemma cq_put_ok:
  assumes "cq_ok q" "cq_room q k"
  shows "cq_ok (cq_put k x q)"
proof -
  have "\<forall>i < cq_used (cq_put k x q).
      cq_data (cq_put k x q) ! ((cq_head q + i) mod length (cq_data q)) \<noteq> None"
    using assms by (auto simp: cq_used_put cq_put_data cq_ok_def Let_def)
  with assms show ?thesis by (simp add: cq_ok_def Let_def cq_put_fields)
qed

lemma cq_get_simps:
  assumes "cq_ok q"
  shows "cq_list q = [] \<Longrightarrow> cq_get q = (q, None)"
    "cq_list q \<noteq> [] \<Longrightarrow> cq_get q = (q\<lparr>cq_head := Suc (cq_head q) mod length (cq_data q)\<rparr>, cq_data q ! cq_head q)"
  using assms cq_empty_iff [OF assms]
  by (simp_all add: cq_get_def ILibCircularQueue_DeQueue_def) (simp add: cq_ok_def Let_def)

lemma cq_used_get:
  assumes "cq_ok q" "cq_list q \<noteq> []"
  shows "cq_used (fst (cq_get q)) = cq_used q - 1" "0 < cq_used q"
proof -
  show "0 < cq_used q" using assms(2) by (auto simp: cq_list_def)
  show "cq_used (fst (cq_get q)) = cq_used q - 1"
    using assms cq_empty_iff [OF assms(1)]
    by (auto simp: cq_get_simps)
       (auto simp: cq_used_def cq_ok_def Let_def mod_if split: if_splits)
qed

lemma cq_get_index:
  assumes "cq_ok q"
  shows "(Suc (cq_head q) mod length (cq_data q) + i) mod length (cq_data q)
    = (cq_head q + Suc i) mod length (cq_data q)"
  by (simp add: mod_add_left_eq)

lemma cq_list_Cons:
  assumes "cq_ok q" "cq_list q \<noteq> []"
  shows "cq_list q = the (cq_data q ! cq_head q) # cq_list (fst (cq_get q))"
proof -
  let ?n = "length (cq_data q)"
  have h: "cq_head q < ?n" using assms by (simp add: cq_ok_def Let_def)
  have "[0..<cq_used q] = 0 # map Suc [0..<cq_used q - 1]"
    using cq_used_get(2) [OF assms] by (simp add: map_Suc_upt upt_conv_Cons)
  then show ?thesis
    using h assms cq_used_get(1) [OF assms] by (simp add: cq_list_def cq_get_simps cq_get_index)
qed

lemma cq_get_ok:
  assumes ok: "cq_ok q"
  shows "cq_ok (fst (cq_get q))"
proof (cases "cq_list q = []")
  case True
  with ok show ?thesis by (simp add: cq_get_simps)
next
  case False
  let ?n = "length (cq_data q)"
  have "cq_data q ! ((cq_head q + Suc i) mod ?n) \<noteq> None" if "i < cq_used q - 1" for i
  proof -
    have "Suc i < cq_used q" using that by simp
    with ok show ?thesis by (simp only: cq_ok_def Let_def) blast
  qed
  moreover have "Suc (cq_head q) mod ?n < ?n" using ok by (simp add: cq_ok_def Let_def)
  ultimately show ?thesis
    using ok cq_used_get(1) [OF ok False] False
    by (simp add: cq_get_simps) (simp add: cq_ok_def Let_def cq_get_index [OF ok])
qed

lemma cq_head_Some:
  assumes "cq_ok q" "cq_list q \<noteq> []"
  shows "cq_data q ! cq_head q = Some (hd (cq_list q))"
proof -
  have "cq_data q ! ((cq_head q + 0) mod length (cq_data q)) \<noteq> None"
    using assms cq_used_get(2) [OF assms] by (simp only: cq_ok_def Let_def) blast
  then show ?thesis using assms cq_list_Cons [OF assms] by (auto simp: cq_ok_def Let_def)
qed

interpretation cq: fifo_queue cq_put cq_get cq_first ILibCircularQueue_IsEmpty cq_list cq_ok cq_room
proof (unfold_locales, goal_cases)
  case (3 q)
  then show ?case using cq_list_Cons [of q] by (cases "cq_list q = []") (auto simp: cq_get_simps)
next
  case (4 q)
  then show ?case using cq_head_Some [of q] by (auto simp: cq_get_simps)
next
  case (6 q)
  then show ?case using cq_head_Some [of q] cq_empty_iff [of q]
    by (auto simp: cq_first_def ILibCircularQueue_Peek_def)
next
  case (7 q)
  then show ?case by (simp add: ILibCircularQueue_IsEmpty_def cq_empty_iff)
qed (simp_all add: cq_put_list cq_put_ok cq_get_ok)

section \<open>The stack\<close>

text \<open>
  A stack is the pointer to a chain of nodes, each allocated by a push and freed by its pop; no
  node is shared, so the chain is the list of its data pointers.  \<open>None\<close> is the \<open>NULL\<close> that
  \<open>Pop\<close> and \<open>Peek\<close> return on an empty stack.  \<open>ILibClearStack\<close> is a \<open>do .. while\<close> loop.
\<close>

type_synonym 'd stack = "'d list"

definition ILibCreateStack :: "'d stack" where
  "ILibCreateStack = []"

definition ILibPushStack :: "'d stack \<Rightarrow> 'd \<Rightarrow> 'd stack" where
  "ILibPushStack TheStack d = d # TheStack"

definition ILibPopStack :: "'d stack \<Rightarrow> 'd stack \<times> 'd option" where
  "ILibPopStack TheStack = (case TheStack of [] \<Rightarrow> ([], None) | d # rest \<Rightarrow> (rest, Some d))"

definition ILibPeekStack :: "'d stack \<Rightarrow> 'd option" where
  "ILibPeekStack TheStack = (case TheStack of [] \<Rightarrow> None | d # _ \<Rightarrow> Some d)"

function clear_stack_loop :: "'d stack \<Rightarrow> 'd stack" where
  "clear_stack_loop Temp =
     (let Temp' = fst (ILibPopStack Temp) in if Temp' \<noteq> [] then clear_stack_loop Temp' else Temp')"
  by pat_completeness auto
termination
  by (relation "measure length") (auto simp: ILibPopStack_def split: list.splits)

declare clear_stack_loop.simps [simp del]

definition ILibClearStack :: "'d stack \<Rightarrow> 'd stack" where
  "ILibClearStack TheStack = clear_stack_loop TheStack"

text \<open>Pushing a list and popping it again returns it reversed.\<close>

lemma push_all_pop_all:
  "drain ILibPopStack (length xs + n) (fold (\<lambda>x s. ILibPushStack s x) xs ILibCreateStack)
     = map Some (rev xs) @ replicate n None"
proof -
  have "drain ILibPopStack (length ys + n) ys = map Some ys @ replicate n None" for ys :: "'a list"
  proof (induction ys)
    case Nil
    then show ?case by (induction n) (simp_all add: ILibPopStack_def)
  qed (simp add: ILibPopStack_def)
  moreover have "fold (\<lambda>x s. ILibPushStack s x) xs ys = rev xs @ ys" for ys
    by (induction xs arbitrary: ys) (simp_all add: ILibPushStack_def)
  ultimately show ?thesis by (simp add: ILibCreateStack_def) (metis length_rev)
qed

lemma ClearStack_empty: "ILibClearStack s = []"
  unfolding ILibClearStack_def
proof (induction s rule: clear_stack_loop.induct)
  case (1 s)
  then show ?case by (subst clear_stack_loop.simps) (simp add: Let_def)
qed



interpretation cqb: bounded_queue cq_put cq_get cq_first ILibCircularQueue_IsEmpty cq_list cq_ok cq_room
    "\<lambda>q. length (cq_data q) - 1"
proof (unfold_locales, goal_cases)
  case (1 q k)
  then show ?case by (auto simp: cq_room_def cq_list_def)
next
  case (2 q k x)
  then show ?case by (rule cq_put_full)
next
  case (3 q k x)
  then show ?case by (cases "cq_room q k") (simp_all add: cq_put_fields cq_put_full)
next
  case (4 q)
  then show ?case by (cases "cq_list q = []") (simp_all add: cq_get_simps)
qed

lemma EnQueue_nodes: "nodes (ILibQueue_EnQueue p d q) a = None \<longleftrightarrow> nodes q a = None \<and> a \<noteq> p"
  by (auto simp: ILibQueue_EnQueue_def ILibLinkedList_AddTailEx_def Let_def upd_opt_def)

lemma feedable_distinct:
  "distinct (map fst kxs) \<Longrightarrow> \<forall>k \<in> fst ` set kxs. nodes q k = None \<Longrightarrow>
     feedable (\<lambda>q p. nodes q p = None) ILibQueue_EnQueue kxs q"
proof (induction kxs arbitrary: q)
  case (Cons kx kxs)
  obtain k x where kx: "kx = (k, x)" by (cases kx)
  with Cons.prems have "\<forall>j \<in> fst ` set kxs. nodes (ILibQueue_EnQueue k x q) j = None"
    by (auto simp: EnQueue_nodes)
  with Cons.IH Cons.prems kx show ?case by simp
qed simp

lemma queue_Create_ok: "ll_ok ILibQueue_Create" "ll_list ILibQueue_Create = []"
  using ll_reprI [OF Create_wf] by (auto simp: ILibQueue_Create_def ll_repr_iff)

section \<open>Properties\<close>

text \<open>
  \<open>ILibQueue\<close> over the linked list is a first-in-first-out queue: whatever
  sequence of data is enqueued (each in a node of its own), dequeuing returns exactly this
  sequence, in this order, and then \<open>NULL\<close> for ever.
\<close>

theorem queue_is_fifo:
  assumes "distinct (map fst kxs)"
  shows "drain ILibQueue_DeQueue (length kxs + n) (feed ILibQueue_EnQueue kxs ILibQueue_Create)
    = map (Some \<circ> snd) kxs @ replicate n None"
proof -
  have "feedable (\<lambda>q p. nodes q p = None) ILibQueue_EnQueue kxs ILibQueue_Create"
    using assms by (intro feedable_distinct)
      (auto simp: ILibQueue_Create_def ILibLinkedList_Create_def)
  with queue_Create_ok show ?thesis by (intro ilq.fifo_order)
qed

theorem queue_is_fifo_witness:
  "drain ILibQueue_DeQueue 3 (feed ILibQueue_EnQueue [(4, ''a''), (2, ''b'')] ILibQueue_Create)
    = [Some ''a'', Some ''b'', None]"
proof -
  have "distinct (map fst [(4::nat, ''a''), (2, ''b'')])" by simp
  from queue_is_fifo [OF this, of 1] show ?thesis by (simp add: numeral_3_eq_3)
qed

text \<open>
  For every sequence of enqueue and dequeue operations, the circular queue
  created for \<open>n\<close> entries behaves as a list bounded by \<open>n\<close> elements: same results of all dequeues,
  an enqueue on the full ring is refused, and nothing is overwritten however often the
  ring wraps around.
\<close>

theorem circular_queue_is_bounded_fifo:
  "fst (qrun (cq_put ()) cq_get ops (ILibCircularQueue_Create n)) = fst (bounded_spec n ops [])
   \<and> cq_list (snd (qrun (cq_put ()) cq_get ops (ILibCircularQueue_Create n))) = snd (bounded_spec n ops [])"
  using cqb.bounded_run [of "ILibCircularQueue_Create n" n "()" ops] by (simp add: Create_cq_ok)

end
