(* ===== verification/CStrings.thy ===== *)
theory CStrings
  imports Prelude
begin

text \<open>
  The string routines of microstack/ILibParsers.c: case conversion, trimming, the tokenizers
  \<open>ILibParseString\<close> and \<open>ILibParseStringAdv\<close>, and the \<open>ILibString_*\<close> searches.

  A \<open>char*\<close> argument is the list of bytes allocated from the pointer on; functions that
  return pointers into their argument return offsets.  A read outside the allocation is the
  result \<open>None\<close>.  A \<open>size_t\<close> length of \<open>(size_t)(-1)\<close> is \<open>NPOS\<close>.
\<close>

section \<open>C library\<close>

definition NPOS :: nat where
  "NPOS = SIZE_MOD - 1"

text \<open>\<open>sizeof(ILibScratchPad)\<close>.\<close>

definition SCRATCH_PAD :: nat where
  "SCRATCH_PAD = 4096"

fun strlen :: "byte list \<Rightarrow> nat option" where
  "strlen [] = None"
| "strlen (b # bs) = (if b = 0 then Some 0 else map_option Suc (strlen bs))"

definition strnlen_s :: "byte list \<Rightarrow> nat \<Rightarrow> nat option" where
  "strnlen_s source maxCount =
     do { n \<leftarrow> strlen source; Some (if n < maxCount then n else maxCount) }"

text \<open>\<open>memcmp(m + off, s, n) == 0\<close>; both regions must be allocated.\<close>

definition memeq :: "byte list \<Rightarrow> nat \<Rightarrow> byte list \<Rightarrow> nat \<Rightarrow> bool option" where
  "memeq m off s n =
     (if off + n \<le> length m \<and> n \<le> length s then Some (slice m off n = take n s) else None)"

definition to_lower :: "byte \<Rightarrow> byte" where
  "to_lower b = (if 65 \<le> b \<and> b \<le> 90 then b + 32 else b)"

definition to_upper :: "byte \<Rightarrow> byte" where
  "to_upper b = (if 97 \<le> b \<and> b \<le> 122 then b - 32 else b)"

text \<open>\<open>strncasecmp(a, b, n) == 0\<close> in the C locale: it stops at a difference or at a NUL.\<close>

fun strncaseeq :: "byte list \<Rightarrow> byte list \<Rightarrow> nat \<Rightarrow> bool option" where
  "strncaseeq a b 0 = Some True"
| "strncaseeq a b (Suc n) = do {
     x \<leftarrow> rd a 0; y \<leftarrow> rd b 0;
     if to_lower x \<noteq> to_lower y then Some False
     else if x = 0 then Some True
     else strncaseeq (tl a) (tl b) n }"

definition str_eq :: "int \<Rightarrow> byte list \<Rightarrow> nat \<Rightarrow> byte list \<Rightarrow> nat \<Rightarrow> bool option" where
  "str_eq caseSensitive m off s n =
     (if caseSensitive \<noteq> 0 then memeq m off s n else strncaseeq (drop off m) s n)"

text \<open>\<open>isspace\<close> in the C locale.\<close>

definition is_space :: "byte \<Rightarrow> bool" where
  "is_space c \<longleftrightarrow> c = 32 \<or> 9 \<le> c \<and> c \<le> 13"

text \<open>\<open>(int)n\<close> for a \<open>size_t\<close> \<open>n\<close>.\<close>

definition to_int32 :: "nat \<Rightarrow> int" where
  "to_int32 n = sint (of_nat n :: 32 word)"

lemma to_int32_small: "n \<le> INT32_MAX \<Longrightarrow> to_int32 n = int n"
  by (simp add: to_int32_def INT32_MAX_def signed_of_nat signed_take_bit_int_eq_self)

section \<open>Case conversion, trimming\<close>

fun ILibToLower :: "byte list \<Rightarrow> nat \<Rightarrow> byte list option" where
  "ILibToLower inp 0 = Some []"
| "ILibToLower inp (Suc n) = do {
     out \<leftarrow> ILibToLower inp n; c \<leftarrow> rd inp n;
     Some (out @ [if 65 \<le> c \<and> c \<le> 90 then c + 32 else c]) }"

fun ILibToUpper :: "byte list \<Rightarrow> nat \<Rightarrow> byte list option" where
  "ILibToUpper inp 0 = Some []"
| "ILibToUpper inp (Suc n) = do {
     out \<leftarrow> ILibToUpper inp n; c \<leftarrow> rd inp n;
     Some (out @ [if 97 \<le> c \<and> c \<le> 122 then c - 32 else c]) }"

definition ILibString_ToLower :: "byte list \<Rightarrow> nat \<Rightarrow> byte list option" where
  "ILibString_ToLower inString len = map_option (\<lambda>s. s @ [0]) (ILibToLower inString len)"

definition ILibString_ToUpper :: "byte list \<Rightarrow> nat \<Rightarrow> byte list option" where
  "ILibString_ToUpper inString len = map_option (\<lambda>s. s @ [0]) (ILibToUpper inString len)"

definition is_blank :: "byte \<Rightarrow> bool" where
  "is_blank b \<longleftrightarrow> b = 9 \<or> b = 32"

text \<open>
  \<open>ILibTrimString\<close>: the two loops; the pointer \<open>*theString\<close> is the offset \<open>p\<close>, the result is
  the new pointer and the new length.
\<close>

fun trim_front :: "byte list \<Rightarrow> nat \<Rightarrow> nat \<Rightarrow> (nat \<times> nat) option" where
  "trim_front mem p 0 = Some (p, 0)"
| "trim_front mem p (Suc len) = do {
     c \<leftarrow> rd mem p;
     if is_blank c then trim_front mem (p + 1) len else Some (p, Suc len) }"

fun trim_back :: "byte list \<Rightarrow> nat \<Rightarrow> nat \<Rightarrow> nat option" where
  "trim_back mem p 0 = Some 0"
| "trim_back mem p (Suc len) = do {
     c \<leftarrow> rd mem (p + len);
     if is_blank c then trim_back mem p len else Some (Suc len) }"

definition ILibTrimString :: "byte list \<Rightarrow> nat \<Rightarrow> nat \<Rightarrow> (nat \<times> nat) option" where
  "ILibTrimString mem p len = do {
     (p', len') \<leftarrow> trim_front mem p len;
     len'' \<leftarrow> trim_back mem p' len';
     Some (p', len'') }"

section \<open>Tokenizers\<close>

text \<open>The delimiter is given as the list of its \<open>DelimiterLength\<close> bytes.\<close>

fun delim_match :: "byte list \<Rightarrow> nat \<Rightarrow> byte list \<Rightarrow> bool option" where
  "delim_match mem off [] = Some True"
| "delim_match mem off (c # cs) = do {
     b \<leftarrow> rd mem off;
     if b \<noteq> c then Some False else delim_match mem (off + 1) cs }"

definition ILibIsDelimiter :: "byte list \<Rightarrow> nat \<Rightarrow> nat \<Rightarrow> byte list \<Rightarrow> bool option" where
  "ILibIsDelimiter mem off buffersize delim =
     (if length delim > buffersize then Some False else delim_match mem off delim)"

text \<open>
  The main loop of \<open>ILibParseString\<close> over the tokens \<open>(data, datalength)\<close> found so far.  \<open>i\<close> is
  relative to \<open>base\<close> and \<open>Token\<close> is absolute; \<open>TokenLength\<close> is an \<open>int\<close>, whose overflow is
  undefined.  With an empty delimiter the loop does not end: \<open>None\<close>.
\<close>

partial_function (option) parse_string_loop ::
  "byte list \<Rightarrow> nat \<Rightarrow> nat \<Rightarrow> byte list \<Rightarrow> nat \<Rightarrow> nat \<Rightarrow> nat \<Rightarrow> (nat \<times> nat) list \<Rightarrow> (nat \<times> nat) list option" where
  "parse_string_loop mem base len delim i Token TokenLength acc =
     (if i < len then do {
        d \<leftarrow> ILibIsDelimiter mem (base + i) len delim;
        if d then parse_string_loop mem base len delim (i + length delim)
                    (Token + TokenLength + length delim) 0 (acc @ [(Token, TokenLength)])
        else if TokenLength = INT32_MAX then None
        else parse_string_loop mem base len delim (i + 1) Token (TokenLength + 1) acc }
      else Some (acc @ [(Token, TokenLength)]))"

definition ILibParseString :: "byte list \<Rightarrow> nat \<Rightarrow> nat \<Rightarrow> byte list \<Rightarrow> (nat \<times> nat) list option" where
  "ILibParseString mem offset len delim =
     (if offset + len = 0 then None else do {
        lastc \<leftarrow> rd mem (offset + len - 1);
        let len = (if lastc = 0 then (len + SIZE_MOD - 1) mod SIZE_MOD else len);
        parse_string_loop mem offset len delim 0 offset 0 [] })"

text \<open>
  \<open>ILibParseStringAdv\<close> skips delimiters inside quotes.  \<open>StringDelimiter\<close> is set by the first
  quote character and never reset: from then on only that character toggles \<open>Ignore\<close>.
\<close>

definition adv_quote :: "byte \<Rightarrow> byte \<Rightarrow> bool \<Rightarrow> byte \<times> bool" where
  "adv_quote c StringDelimiter Ignore =
     (if StringDelimiter = 0
      then (if c = 34 then (34, True) else if c = 39 then (39, True) else (StringDelimiter, Ignore))
      else (if c = StringDelimiter then (StringDelimiter, \<not> Ignore) else (StringDelimiter, Ignore)))"

partial_function (option) parse_string_adv_loop ::
  "byte list \<Rightarrow> nat \<Rightarrow> nat \<Rightarrow> byte list \<Rightarrow> nat \<Rightarrow> nat \<Rightarrow> nat \<Rightarrow> byte \<Rightarrow> bool \<Rightarrow> (nat \<times> nat) list
     \<Rightarrow> (nat \<times> nat) list option" where
  "parse_string_adv_loop mem offset len delim i Token TokenLength sd ign acc =
     (if i < len + offset then do {
        c \<leftarrow> rd mem i;
        let sd' = fst (adv_quote c sd ign);
        let ign' = snd (adv_quote c sd ign);
        d \<leftarrow> (if ign' then Some False else ILibIsDelimiter mem i len delim);
        if d then parse_string_adv_loop mem offset len delim (i + length delim)
                    (Token + TokenLength + length delim) 0 sd' ign' (acc @ [(Token, TokenLength)])
        else parse_string_adv_loop mem offset len delim (i + 1) Token (TokenLength + 1) sd' ign' acc }
      else Some (acc @ [(Token, TokenLength)]))"

definition ILibParseStringAdv :: "byte list \<Rightarrow> nat \<Rightarrow> nat \<Rightarrow> byte list \<Rightarrow> (nat \<times> nat) list option" where
  "ILibParseStringAdv mem offset len delim =
     parse_string_adv_loop mem offset len delim offset offset 0 0 False []"

declare parse_string_loop.simps [code] parse_string_adv_loop.simps [code]

text \<open>
  \<open>ILibParseString_GetResultIndex\<close> walks \<open>index - 1\<close> links from the first token, so indices 0
  and 1 both name it.
\<close>

fun get_result_walk :: "nat \<Rightarrow> (nat \<times> nat) list \<Rightarrow> (nat \<times> nat) list" where
  "get_result_walk 0 r = r"
| "get_result_walk (Suc k) r = get_result_walk k (if r = [] then [] else tl r)"

definition ILibParseString_GetResultIndex :: "(nat \<times> nat) list \<Rightarrow> int \<Rightarrow> (nat \<times> nat) option" where
  "ILibParseString_GetResultIndex r index =
     (case get_result_walk (nat (index - 1)) r of [] \<Rightarrow> None | f # _ \<Rightarrow> Some f)"

section \<open>Searches\<close>

function first_ws_loop :: "byte list \<Rightarrow> nat \<Rightarrow> nat \<Rightarrow> int option" where
  "first_ws_loop mem len i =
     (if i < len then do {
        c \<leftarrow> rd mem i;
        if c = 13 \<or> c = 10 \<or> c = 9 \<or> c = 32
        then Some (if i > INT32_MAX then -1 else int i)
        else first_ws_loop mem len (i + 1) }
      else Some (-1))"
  by pat_completeness auto
termination
  by (relation "measure (\<lambda>(mem, len, i). len - i)") auto

definition ILibString_IndexOfFirstWhiteSpace :: "byte list \<Rightarrow> nat \<Rightarrow> int option" where
  "ILibString_IndexOfFirstWhiteSpace inString inStringLength = first_ws_loop inString inStringLength 0"

definition ILibString_StartsWithEx :: "byte list \<Rightarrow> nat \<Rightarrow> byte list \<Rightarrow> nat \<Rightarrow> int \<Rightarrow> bool option" where
  "ILibString_StartsWithEx inString inLen sw swLen caseSensitive =
     (if swLen \<le> inLen then str_eq caseSensitive inString 0 sw swLen else Some False)"

definition ILibString_StartsWith :: "byte list \<Rightarrow> nat \<Rightarrow> byte list \<Rightarrow> nat \<Rightarrow> bool option" where
  "ILibString_StartsWith inString inLen sw swLen = ILibString_StartsWithEx inString inLen sw swLen 1"

definition eff_len :: "bool \<Rightarrow> byte list \<Rightarrow> nat \<Rightarrow> nat option" where
  "eff_len zero_too s len =
     (if len = NPOS \<or> zero_too \<and> len = 0 then strnlen_s s SCRATCH_PAD else Some len)"

definition ILibString_EndsWithEx :: "byte list \<Rightarrow> nat \<Rightarrow> byte list \<Rightarrow> nat \<Rightarrow> int \<Rightarrow> bool option" where
  "ILibString_EndsWithEx inString inLen0 ew ewLen0 caseSensitive = do {
     inLen \<leftarrow> eff_len True inString inLen0;
     ewLen \<leftarrow> eff_len True ew ewLen0;
     if ewLen \<le> inLen then str_eq caseSensitive inString (inLen - ewLen) ew ewLen else Some False }"

definition ILibString_EndsWith :: "byte list \<Rightarrow> nat \<Rightarrow> byte list \<Rightarrow> nat \<Rightarrow> bool option" where
  "ILibString_EndsWith inString inLen ew ewLen = ILibString_EndsWithEx inString inLen ew ewLen 1"

function index_of_loop :: "byte list \<Rightarrow> byte list \<Rightarrow> nat \<Rightarrow> int \<Rightarrow> nat \<Rightarrow> nat \<Rightarrow> int option" where
  "index_of_loop mem pat searchLen cs index stop =
     (if index \<le> stop then do {
        e \<leftarrow> str_eq cs mem index pat searchLen;
        if e then Some (if index > INT32_MAX then -1 else int index)
        else index_of_loop mem pat searchLen cs (index + 1) stop }
      else Some (-1))"
  by pat_completeness auto
termination
  by (relation "measure (\<lambda>(mem, pat, n, cs, index, stop). Suc stop - index)") auto

declare first_ws_loop.simps [simp del] index_of_loop.simps [simp del]

definition ILibString_IndexOfEx :: "byte list \<Rightarrow> nat \<Rightarrow> byte list \<Rightarrow> nat \<Rightarrow> int \<Rightarrow> int option" where
  "ILibString_IndexOfEx inString inStringLength pat patLength caseSensitive = do {
     inLen \<leftarrow> eff_len False inString inStringLength;
     searchLen \<leftarrow> eff_len False pat patLength;
     if searchLen > inLen then Some (-1)
     else index_of_loop inString pat searchLen caseSensitive 0 (inLen - searchLen) }"

definition ILibString_IndexOf :: "byte list \<Rightarrow> nat \<Rightarrow> byte list \<Rightarrow> nat \<Rightarrow> int option" where
  "ILibString_IndexOf inString inLen pat patLen = ILibString_IndexOfEx inString inLen pat patLen 1"

fun last_index_loop :: "byte list \<Rightarrow> byte list \<Rightarrow> nat \<Rightarrow> int \<Rightarrow> nat \<Rightarrow> int option" where
  "last_index_loop mem pat searchLen cs 0 = do {
     e \<leftarrow> str_eq cs mem 0 pat searchLen; Some (if e then 0 else -1) }"
| "last_index_loop mem pat searchLen cs (Suc index) = do {
     e \<leftarrow> str_eq cs mem (Suc index) pat searchLen;
     if e then Some (if Suc index > INT32_MAX then -1 else int (Suc index))
     else last_index_loop mem pat searchLen cs index }"

definition ILibString_LastIndexOfEx :: "byte list \<Rightarrow> nat \<Rightarrow> byte list \<Rightarrow> nat \<Rightarrow> int \<Rightarrow> int option" where
  "ILibString_LastIndexOfEx inString inStringLength pat patLength caseSensitive = do {
     inLen \<leftarrow> eff_len True inString inStringLength;
     searchLen \<leftarrow> eff_len False pat patLength;
     if searchLen = 0 \<or> searchLen > inLen then Some (-1)
     else last_index_loop inString pat searchLen caseSensitive (inLen - searchLen) }"

definition ILibString_LastIndexOf :: "byte list \<Rightarrow> nat \<Rightarrow> byte list \<Rightarrow> nat \<Rightarrow> int option" where
  "ILibString_LastIndexOf inString inLen pat patLen = ILibString_LastIndexOfEx inString inLen pat patLen 1"


section \<open>Specifications\<close>

text \<open>Splitting a list at the occurrences of a delimiter, from the left; \<open>acc\<close> is the current token.\<close>

function split_on :: "'a list \<Rightarrow> 'a list \<Rightarrow> 'a list \<Rightarrow> 'a list list" where
  "split_on d acc [] = [acc]"
| "split_on d acc (c # cs) =
     (if d \<noteq> [] \<and> take (length d) (c # cs) = d
      then acc # split_on d [] (drop (length d) (c # cs))
      else split_on d (acc @ [c]) cs)"
  by pat_completeness auto
termination
  by (relation "measure (\<lambda>(d, acc, s). length s)") auto

fun join :: "'a list \<Rightarrow> 'a list list \<Rightarrow> 'a list" where
  "join d [] = []"
| "join d [t] = t"
| "join d (t # ts) = t @ d @ join d ts"

declare split_on.simps(2) [simp del]

lemma split_on_ne [simp]: "split_on d acc s \<noteq> []"
  by (induction d acc s rule: split_on.induct) (simp_all add: split_on.simps(2))

lemma join_Cons: "ts \<noteq> [] \<Longrightarrow> join d (t # ts) = t @ d @ join d ts"
  by (cases ts) simp_all

lemma join_split_on: "join d (split_on d acc s) = acc @ s"
proof (induction d acc s rule: split_on.induct)
  case (2 d acc c cs)
  show ?case
  proof (cases "d \<noteq> [] \<and> take (length d) (c # cs) = d")
    case True
    then have "d @ drop (length d) (c # cs) = c # cs" by (metis append_take_drop_id)
    with 2 True show ?thesis by (simp add: split_on.simps(2) join_Cons)
  next
    case False
    then have "split_on d acc (c # cs) = split_on d (acc @ [c]) cs"
      by (subst split_on.simps(2), subst if_not_P) simp_all
    with 2(2) [OF False] show ?thesis by simp
  qed
qed simp

lemma take_slice: "take n (slice xs off len) = slice xs off (min n len)"
  by (simp add: slice_def)

lemma drop_slice: "drop n (slice xs off len) = slice xs (off + n) (len - n)"
  by (simp add: slice_def drop_take add.commute)

lemma slice_snoc: "off + len < length xs \<Longrightarrow> slice xs off len @ [xs ! (off + len)] = slice xs off (len + 1)"
  using slice_append_slice [of xs off len "Suc 0"] slice_Cons [of "off + len" xs 0] by simp

section \<open>The tokenizers\<close>

lemma delim_match_in:
  "off + length d \<le> length mem \<Longrightarrow> delim_match mem off d = Some (slice mem off (length d) = d)"
proof (induction d arbitrary: off)
  case (Cons c d)
  then have "slice mem off (Suc (length d)) = mem ! off # slice mem (Suc off) (length d)"
    by (simp add: slice_Cons)
  with Cons show ?case by auto
qed simp

text \<open>No occurrence of the delimiter runs over the end of the parsed range.\<close>

definition no_straddle :: "byte list \<Rightarrow> nat \<Rightarrow> nat \<Rightarrow> byte list \<Rightarrow> bool" where
  "no_straddle mem base len d \<longleftrightarrow>
     (\<forall>i < len. len < i + length d \<longrightarrow> delim_match mem (base + i) d = Some False)"

lemma no_straddle_single: "length d \<le> 1 \<Longrightarrow> no_straddle mem base len d"
  by (simp add: no_straddle_def)

lemma IsDelimiter_spec:
  assumes "base + len \<le> length mem" "no_straddle mem base len d" "i < len"
  shows "ILibIsDelimiter mem (base + i) len d
    = Some (take (length d) (slice mem (base + i) (len - i)) = d)"
proof (cases "i + length d \<le> len")
  case True
  then have "min (length d) (len - i) = length d" by simp
  then show ?thesis using assms(1) True
    by (simp add: ILibIsDelimiter_def delim_match_in take_slice)
next
  case False
  then have "length (take (length d) (slice mem (base + i) (len - i))) < length d"
    using assms by simp
  then have "take (length d) (slice mem (base + i) (len - i)) \<noteq> d" by auto
  then show ?thesis
    using False assms(2,3) by (simp add: ILibIsDelimiter_def no_straddle_def)
qed

text \<open>Where the pieces of a text start, when it begins at \<open>p\<close>.\<close>

fun layout :: "'a list \<Rightarrow> nat \<Rightarrow> 'a list list \<Rightarrow> (nat \<times> nat) list" where
  "layout d p [] = []"
| "layout d p (t # ts) = (p, length t) # layout d (p + length t + length d) ts"

lemma length_layout [simp]: "length (layout d p ts) = length ts"
  by (induction d p ts rule: layout.induct) simp_all

lemma split_on_cut:
  "c \<notin> set t \<Longrightarrow> split_on (c # d) acc (t @ c # d @ s) = (acc @ t) # split_on (c # d) [] s"
proof (induction t arbitrary: acc)
  case Nil
  then show ?case by (simp add: split_on.simps(2))
next
  case (Cons x t)
  then show ?case by (auto simp: split_on.simps(2))
qed

lemma split_on_last: "c \<notin> set t \<Longrightarrow> split_on (c # d) acc t = [acc @ t]"
  by (induction t arbitrary: acc) (auto simp: split_on.simps(2))

lemma split_on_skip: "c \<notin> set t \<Longrightarrow> split_on (c # d) acc (t @ s) = split_on (c # d) (acc @ t) s"
  by (induction t arbitrary: acc) (auto simp: split_on.simps(2))

lemma split_on_join:
  "\<forall>t \<in> set ts. c \<notin> set t \<Longrightarrow> ts \<noteq> [] \<Longrightarrow> split_on (c # d) [] (join (c # d) ts) = ts"
proof (induction ts rule: induct_list012)
  case (2 x)
  then show ?case by (simp add: split_on_last)
next
  case (3 x y zs)
  then show ?case using split_on_cut [of c x d "[]" "join (c # d) (y # zs)"] by simp
qed simp

lemma parse_string_loop_spec:
  assumes "base + len \<le> length mem" "no_straddle mem base len d" "d \<noteq> []" "len \<le> INT32_MAX"
    and "i \<le> len" "Token + TokenLength = base + i" "TokenLength \<le> i"
  shows "\<exists>ts. parse_string_loop mem base len d i Token TokenLength acc = Some (acc @ ts)
    \<and> map (\<lambda>(p, l). slice mem p l) ts
        = split_on d (slice mem Token TokenLength) (slice mem (base + i) (len - i))
    \<and> (\<forall>(p, l) \<in> set ts. p + l \<le> base + len)
    \<and> ts = layout d Token (split_on d (slice mem Token TokenLength) (slice mem (base + i) (len - i)))"
  using assms(5-)
proof (induction "len - i" arbitrary: i Token TokenLength acc rule: less_induct)
  case less
  show ?case
  proof (cases "i < len")
    case False
    with less.prems assms(1) show ?thesis by (subst parse_string_loop.simps) simp
  next
    case True
    let ?s = "slice mem (base + i) (len - i)"
    obtain k where k: "len - i = Suc k" using True by (cases "len - i") auto
    have s: "?s = mem ! (base + i) # slice mem (Suc (base + i)) k"
      using True assms(1) k by (simp add: slice_Cons)
    note is_d = IsDelimiter_spec [OF assms(1,2) True]
    show ?thesis
    proof (cases "take (length d) ?s = d")
      case match: True
      have "length ?s = len - i" using assms(1) True by simp
      then have "length d = min (length ?s) (length d)" using arg_cong [OF match, of length] by simp
      then have le: "i + length d \<le> len" using True \<open>length ?s = len - i\<close> by (simp add: min_def split: if_splits)
      have "len - (i + length d) < len - i"
        using assms(3) True by (cases d) auto
      note IH = less.hyps [OF this le, of "Token + TokenLength + length d" 0]
      have "split_on d (slice mem Token TokenLength) ?s
          = slice mem Token TokenLength # split_on d [] (drop (length d) ?s)"
        using match assms(3) by (simp add: s split_on.simps(2))
      moreover have "drop (length d) ?s = slice mem (base + (i + length d)) (len - (i + length d))"
        by (simp add: drop_slice add.assoc)
      moreover have "parse_string_loop mem base len d i Token TokenLength acc
          = parse_string_loop mem base len d (i + length d) (Token + TokenLength + length d) 0
              (acc @ [(Token, TokenLength)])"
        using True is_d match by (subst parse_string_loop.simps) simp
      moreover obtain ts where "parse_string_loop mem base len d (i + length d)
            (Token + TokenLength + length d) 0 (acc @ [(Token, TokenLength)])
          = Some (acc @ (Token, TokenLength) # ts)"
        "map (\<lambda>(p, l). slice mem p l) ts
          = split_on d [] (slice mem (base + (i + length d)) (len - (i + length d)))"
        "\<forall>(p, l) \<in> set ts. p + l \<le> base + len"
        "ts = layout d (Token + TokenLength + length d) (split_on d [] (slice mem (base + (i + length d)) (len - (i + length d))))"
        using IH [of "acc @ [(Token, TokenLength)]"] less.prems by auto
      moreover have "Token + TokenLength \<le> length mem" using less.prems assms(1) by simp
      ultimately show ?thesis using less.prems by (intro exI [of _ "(Token, TokenLength) # ts"]) simp
    next
      case no_match: False
      have "len - (i + 1) < len - i" using True by simp
      note IH = less.hyps [OF this, of Token "TokenLength + 1" acc]
      have "split_on d (slice mem Token TokenLength) ?s
          = split_on d (slice mem Token TokenLength @ [mem ! (base + i)]) (slice mem (Suc (base + i)) k)"
        using no_match unfolding s by (subst split_on.simps(2), subst if_not_P) simp_all
      moreover have "slice mem Token TokenLength @ [mem ! (base + i)] = slice mem Token (TokenLength + 1)"
        using slice_snoc [of Token TokenLength mem] less.prems assms(1) True by simp
      moreover have "len - (i + 1) = k" using k by simp
      moreover have "TokenLength \<noteq> INT32_MAX" using less.prems True assms(4) by simp
      then have "parse_string_loop mem base len d i Token TokenLength acc
          = parse_string_loop mem base len d (i + 1) Token (TokenLength + 1) acc"
        using True is_d no_match by (subst parse_string_loop.simps) simp
      ultimately show ?thesis using IH less.prems True by simp
    qed
  qed
qed

lemma ParseString_spec:
  assumes "base + len \<le> length mem" "no_straddle mem base len d" "d \<noteq> []" "len \<le> INT32_MAX"
    and "0 < len" "mem ! (base + len - 1) \<noteq> 0"
  shows "\<exists>ts. ILibParseString mem base len d = Some ts
    \<and> map (\<lambda>(p, l). slice mem p l) ts = split_on d [] (slice mem base len)
    \<and> (\<forall>(p, l) \<in> set ts. p + l \<le> base + len)
    \<and> ts = layout d base (split_on d [] (slice mem base len))"
  using parse_string_loop_spec [OF assms(1-4), of 0 base 0 "[]"] assms
  by (auto simp: ILibParseString_def)

lemma rd_at: "drop p buf = c # r \<Longrightarrow> rd buf p = Some c"
  using rd_drop [of p buf 0] by simp

lemma parse_range:
  assumes "drop p mem = s @ rest" "s \<noteq> []" "last s \<noteq> 0" "length s \<le> INT32_MAX" "d \<noteq> []"
    and "no_straddle mem p (length s) d"
  shows "ILibParseString mem p (length s) d = Some (layout d p (split_on d [] s))"
proof -
  let ?n = "length s"
  have len: "p + ?n \<le> length mem"
    using arg_cong [OF assms(1), of length] assms(2) by (cases "p \<le> length mem") auto
  have sl: "slice mem p ?n = s" using assms(1) by (simp add: slice_def)
  have "mem ! (p + ?n - 1) = drop p mem ! (?n - 1)" using len assms(2) by (cases ?n) auto
  also have "\<dots> = last s" using assms(1,2) by (simp add: nth_append last_conv_nth)
  finally have "mem ! (p + ?n - 1) \<noteq> 0" using assms(3) by simp
  then show ?thesis
    using ParseString_spec [OF len assms(6,5,4)] assms(2) by (auto simp: sl)
qed

lemma parse_pieces:
  assumes "drop p mem = join (c # d) ts @ rest" "ts \<noteq> []" "\<forall>t \<in> set ts. c \<notin> set t"
    and "length (join (c # d) ts) \<le> INT32_MAX" "join (c # d) ts \<noteq> []" "last (join (c # d) ts) \<noteq> 0"
    and "no_straddle mem p (length (join (c # d) ts)) (c # d)"
  shows "ILibParseString mem p (length (join (c # d) ts)) (c # d) = Some (layout (c # d) p ts)"
  using parse_range [OF assms(1,5,6,4) _ assms(7)] split_on_join [OF assms(3,2)] by simp

lemma parse_string_adv_unquoted:
  assumes "base + len \<le> length mem" "34 \<notin> set (slice mem base len)" "39 \<notin> set (slice mem base len)"
    and "len \<le> INT32_MAX" "TokenLength \<le> i" "no_straddle mem base len d" "d \<noteq> []" "i \<le> len"
  shows "parse_string_adv_loop mem base len d (base + i) Token TokenLength 0 False acc
    = parse_string_loop mem base len d i Token TokenLength acc"
  using assms(5-)
proof (induction "len - i" arbitrary: i Token TokenLength acc rule: less_induct)
  case less
  show ?case
  proof (cases "i < len")
    case True
    then have "slice mem base len ! i \<in> set (slice mem base len)" using assms(1) by simp
    then have c: "mem ! (base + i) \<noteq> 34" "mem ! (base + i) \<noteq> 39"
      using assms True by (auto simp: slice_nth)
    have "rd mem (base + i) = Some (mem ! (base + i))" using assms(1) True by simp
    then have q: "adv_quote (mem ! (base + i)) 0 False = (0, False)" using c by (simp add: adv_quote_def)
    have len: "TokenLength \<noteq> INT32_MAX" using assms(4) less.prems True by simp
    have le: "i + length d \<le> len" if "ILibIsDelimiter mem (base + i) len d = Some True"
      using that less.prems True by (force simp: no_straddle_def ILibIsDelimiter_def split: if_splits)
    have IH1: "parse_string_adv_loop mem base len d (base + (i + 1)) Token (TokenLength + 1) 0 False acc
        = parse_string_loop mem base len d (i + 1) Token (TokenLength + 1) acc"
      using less.prems True by (intro less.hyps) auto
    have IH2: "parse_string_adv_loop mem base len d (base + (i + length d)) (Token + TokenLength + length d) 0 0 False
          (acc @ [(Token, TokenLength)])
        = parse_string_loop mem base len d (i + length d) (Token + TokenLength + length d) 0
          (acc @ [(Token, TokenLength)])"
      if "ILibIsDelimiter mem (base + i) len d = Some True"
      using le [OF that] less.prems True by (intro less.hyps) (auto simp: diff_less_mono2)
    obtain b where b: "ILibIsDelimiter mem (base + i) len d = Some b"
      using IsDelimiter_spec [OF assms(1) less.prems(2) True] by blast
    show ?thesis
    proof (cases b)
      case True
      then show ?thesis
        using \<open>i < len\<close> assms(1) q b IH2
        by (subst parse_string_loop.simps, subst parse_string_adv_loop.simps) (simp add: add.assoc)
    next
      case False
      then show ?thesis
        using \<open>i < len\<close> assms(1) q b IH1 len
        by (subst parse_string_loop.simps, subst parse_string_adv_loop.simps) (simp add: add.assoc)
    qed
  next
    case False
    then show ?thesis
      by (subst parse_string_loop.simps, subst parse_string_adv_loop.simps) simp
  qed
qed

section \<open>Trimming\<close>

lemma trim_front_spec:
  "p + len \<le> length mem \<Longrightarrow> \<exists>p' l'. trim_front mem p len = Some (p', l') \<and> p' + l' = p + len
     \<and> slice mem p' l' = dropWhile is_blank (slice mem p len)"
proof (induction len arbitrary: p)
  case (Suc len)
  then show ?case using Suc.IH [of "Suc p"] by (auto simp: slice_Cons)
qed simp

lemma trim_back_spec:
  "p + len \<le> length mem \<Longrightarrow> \<exists>l'. trim_back mem p len = Some l' \<and> l' \<le> len
     \<and> slice mem p l' = rev (dropWhile is_blank (rev (slice mem p len)))"
proof (induction len)
  case (Suc len)
  then have "slice mem p (Suc len) = slice mem p len @ [mem ! (p + len)]"
    using slice_snoc [of p len mem] by simp
  with Suc show ?case by (auto intro: le_SucI)
qed simp

section \<open>Searches\<close>

lemma memeq_in:
  "off + n \<le> length m \<Longrightarrow> n \<le> length s \<Longrightarrow> memeq m off s n = Some (slice m off n = take n s)"
  by (simp add: memeq_def)

definition occurs_at :: "byte list \<Rightarrow> byte list \<Rightarrow> nat \<Rightarrow> bool" where
  "occurs_at s pat i \<longleftrightarrow> i + length pat \<le> length s \<and> slice s i (length pat) = pat"

lemma index_of_loop_spec:
  assumes "stop + length pat \<le> length s" "stop \<le> INT32_MAX" "cs \<noteq> 0"
  shows "\<exists>r. index_of_loop s pat (length pat) cs i stop = Some r
     \<and> (r = -1 \<and> (\<forall>j. i \<le> j \<and> j \<le> stop \<longrightarrow> \<not> occurs_at s pat j)
        \<or> (\<exists>k. r = int k \<and> i \<le> k \<and> k \<le> stop \<and> occurs_at s pat k \<and> (\<forall>j. i \<le> j \<and> j < k \<longrightarrow> \<not> occurs_at s pat j)))"
proof (induction "Suc stop - i" arbitrary: i rule: less_induct)
  case less
  show ?case
  proof (cases "i \<le> stop")
    case True
    have eq: "str_eq cs s i pat (length pat) = Some (occurs_at s pat i)"
      using assms True by (simp add: str_eq_def memeq_in occurs_at_def)
    show ?thesis
    proof (cases "occurs_at s pat i")
      case occ: True
      then show ?thesis using True eq assms by (subst index_of_loop.simps) auto
    next
      case False
      have "index_of_loop s pat (length pat) cs i stop = index_of_loop s pat (length pat) cs (i + 1) stop"
        using True eq False by (subst index_of_loop.simps) simp
      moreover have "Suc stop - (i + 1) < Suc stop - i" using True by simp
      note less [OF this]
      moreover have "i \<le> j \<and> j < n \<longleftrightarrow> j = i \<and> i < n \<or> i + 1 \<le> j \<and> j < n" for j n by auto
      moreover have "i \<le> j \<and> j \<le> stop \<longleftrightarrow> j = i \<or> i + 1 \<le> j \<and> j \<le> stop" for j using True by auto
      ultimately show ?thesis using False by (smt (verit) Suc_eq_plus1 Suc_leD)
    qed
  next
    case False
    then have "\<forall>j. i \<le> j \<and> j \<le> stop \<longrightarrow> \<not> occurs_at s pat j" by auto
    with False show ?thesis by (subst index_of_loop.simps) simp
  qed
qed

lemma last_index_loop_spec:
  assumes "cs \<noteq> 0" "stop \<le> INT32_MAX" "stop + length pat \<le> length s"
  shows "\<exists>r. last_index_loop s pat (length pat) cs stop = Some r
     \<and> (r = -1 \<and> (\<forall>j. j \<le> stop \<longrightarrow> \<not> occurs_at s pat j)
        \<or> (\<exists>k. r = int k \<and> k \<le> stop \<and> occurs_at s pat k \<and> (\<forall>j. k < j \<and> j \<le> stop \<longrightarrow> \<not> occurs_at s pat j)))"
  using assms(2,3)
proof (induction stop)
  case 0
  then show ?case using assms(1) by (simp add: str_eq_def memeq_in occurs_at_def)
next
  case (Suc stop)
  have eq: "str_eq cs s (Suc stop) pat (length pat) = Some (occurs_at s pat (Suc stop))"
    using assms(1) Suc.prems by (simp add: str_eq_def memeq_in occurs_at_def)
  show ?case
  proof (cases "occurs_at s pat (Suc stop)")
    case True
    then show ?thesis using eq Suc.prems 
      by (intro exI [of _ "int (Suc stop)"] conjI disjI2 exI [of _ "Suc stop"]) auto
  next
    case False
    with eq have "last_index_loop s pat (length pat) cs (Suc stop) = last_index_loop s pat (length pat) cs stop"
      by simp
    moreover have "j \<le> Suc stop \<longleftrightarrow> j = Suc stop \<or> j \<le> stop" for j by auto
    moreover obtain r where "last_index_loop s pat (length pat) cs stop = Some r"
      "r = -1 \<and> (\<forall>j. j \<le> stop \<longrightarrow> \<not> occurs_at s pat j)
        \<or> (\<exists>k. r = int k \<and> k \<le> stop \<and> occurs_at s pat k \<and> (\<forall>j. k < j \<and> j \<le> stop \<longrightarrow> \<not> occurs_at s pat j))"
      using Suc by auto
    ultimately show ?thesis using False by (intro exI [of _ r]) (auto simp: le_Suc_eq)
  qed
qed

lemma IndexOfEx_not_NPOS:
  assumes "length s < NPOS" "length pat \<le> length s"
  shows "ILibString_IndexOfEx s (length s) pat (length pat) cs
    = index_of_loop s pat (length pat) cs 0 (length s - length pat)"
  using assms by (simp add: ILibString_IndexOfEx_def eff_len_def)

lemma Least_occurs:
  "occurs_at s pat k \<Longrightarrow> \<forall>j. 0 \<le> j \<and> j < k \<longrightarrow> \<not> occurs_at s pat j \<Longrightarrow> k = (LEAST i. occurs_at s pat i)"
  by (rule Least_equality [symmetric]) (auto simp: not_less [symmetric])

lemma Greatest_occurs:
  assumes "occurs_at s pat k" "\<forall>j. k < j \<and> j \<le> n \<longrightarrow> \<not> occurs_at s pat j"
    and "\<And>j. occurs_at s pat j \<Longrightarrow> j \<le> n"
  shows "k = (GREATEST i. occurs_at s pat i)"
  using assms by (intro Greatest_equality [symmetric]) (auto simp: not_less [symmetric])

lemma INT32_lt_NPOS: "n \<le> INT32_MAX \<Longrightarrow> n < NPOS"
  by (simp add: INT32_MAX_def NPOS_def SIZE_MOD_def)

text \<open>
  \<open>ILibTrimString\<close> returns the range of the input between its leading and its
  trailing blanks and tabs, without reading outside the string, for every string.
\<close>

theorem trim_string_correct:
  assumes "p + len \<le> length mem"
  shows "\<exists>p' l'. ILibTrimString mem p len = Some (p', l')
    \<and> p \<le> p' \<and> p' + l' \<le> p + len
    \<and> slice mem p' l' = rev (dropWhile is_blank (rev (dropWhile is_blank (slice mem p len))))"
proof -
  obtain p1 l1 where f: "trim_front mem p len = Some (p1, l1)" "p1 + l1 = p + len"
    "slice mem p1 l1 = dropWhile is_blank (slice mem p len)"
    using trim_front_spec [OF assms] by blast
  obtain l2 where "trim_back mem p1 l1 = Some l2" "l2 \<le> l1"
    "slice mem p1 l2 = rev (dropWhile is_blank (rev (slice mem p1 l1)))"
    using trim_back_spec [of p1 l1 mem] f(2) assms by auto
  moreover have "l1 \<le> len"
    using f assms length_dropWhile_le [of is_blank "slice mem p len"] by (metis length_slice)
  ultimately show ?thesis using f by (simp add: ILibTrimString_def)
qed

lemma trim_string_correct_witness:
  "\<exists>p' l'. ILibTrimString (str '' a b '') 0 5 = Some (p', l') \<and> 0 \<le> p' \<and> p' + l' \<le> 0 + 5
    \<and> slice (str '' a b '') p' l'
      = rev (dropWhile is_blank (rev (dropWhile is_blank (slice (str '' a b '') 0 5))))"
  by (rule trim_string_correct) simp

text \<open>
  The case-sensitive searches on strings of known length: \<open>ILibString_IndexOf\<close>
  returns the least index at which the pattern occurs, \<open>ILibString_LastIndexOf\<close> the greatest
  (for a non-empty pattern), both \<open>-1\<close> exactly when there is none, and neither reads outside
  the two strings.
\<close>

theorem string_index_of_correct:
  assumes "length s \<le> INT32_MAX" "pat \<noteq> []" "s \<noteq> []" "length pat < NPOS"
  shows "ILibString_IndexOf s (length s) pat (length pat)
      = Some (if \<exists>i. occurs_at s pat i then int (LEAST i. occurs_at s pat i) else -1)
    \<and> ILibString_LastIndexOf s (length s) pat (length pat)
      = Some (if \<exists>i. occurs_at s pat i then int (GREATEST i. occurs_at s pat i) else -1)"
proof (cases "length pat \<le> length s")
  case True
  have stop: "length s - length pat + length pat \<le> length s" "length s - length pat \<le> INT32_MAX"
    using True assms by auto
  have bnd: "j \<le> length s - length pat" if "occurs_at s pat j" for j
    using that by (auto simp: occurs_at_def)
  have "ILibString_IndexOf s (length s) pat (length pat)
      = index_of_loop s pat (length pat) 1 0 (length s - length pat)"
    using True INT32_lt_NPOS [OF assms(1)] by (simp add: ILibString_IndexOf_def IndexOfEx_not_NPOS)
  then have A: "ILibString_IndexOf s (length s) pat (length pat)
      = Some (if \<exists>i. occurs_at s pat i then int (LEAST i. occurs_at s pat i) else -1)"
    using index_of_loop_spec [OF stop, of 1 0] bnd by (auto intro!: Least_occurs)
  have "ILibString_LastIndexOf s (length s) pat (length pat)
      = last_index_loop s pat (length pat) 1 (length s - length pat)"
    using True INT32_lt_NPOS [OF assms(1)] assms(2,3)
    by (simp add: ILibString_LastIndexOf_def ILibString_LastIndexOfEx_def eff_len_def)
  then have "ILibString_LastIndexOf s (length s) pat (length pat)
      = Some (if \<exists>i. occurs_at s pat i then int (GREATEST i. occurs_at s pat i) else -1)"
    using last_index_loop_spec [of 1, OF _ stop(2,1)] bnd by (auto intro!: Greatest_occurs)
  with A show ?thesis by simp
next
  case False
  then have "\<not> (\<exists>i. occurs_at s pat i)" by (auto simp: occurs_at_def)
  moreover have "length s < NPOS" by (rule INT32_lt_NPOS [OF assms(1)])
  ultimately show ?thesis using False assms
    by (simp add: ILibString_IndexOf_def ILibString_IndexOfEx_def ILibString_LastIndexOf_def
        ILibString_LastIndexOfEx_def eff_len_def)
qed

lemma string_index_of_correct_witness:
  "ILibString_IndexOf (str ''abcabc'') 6 (str ''bc'') 2
      = Some (if \<exists>i. occurs_at (str ''abcabc'') (str ''bc'') i
          then int (LEAST i. occurs_at (str ''abcabc'') (str ''bc'') i) else -1)"
proof -
  have "length (str ''abcabc'') \<le> INT32_MAX" "str ''bc'' \<noteq> []" "str ''abcabc'' \<noteq> []"
    "length (str ''bc'') < NPOS"
    by (simp_all add: INT32_MAX_def NPOS_def SIZE_MOD_def)
  moreover have "length (str ''abcabc'') = 6" "length (str ''bc'') = 2" by simp_all
  ultimately show ?thesis using string_index_of_correct [of "str ''abcabc''" "str ''bc''"] by metis
qed

text \<open>
  \<open>ILibParseString\<close> on a range whose last byte is not NUL splits it at the
  occurrences of the delimiter, from the left: it returns, its tokens are the pieces of the
  specification \<open>split_on\<close>, and joining them with the delimiter gives the range back.  The
  condition \<open>no_straddle\<close> (no delimiter starts inside the range and ends outside) always holds
  for a delimiter of one byte; the code does not check it.
\<close>

theorem parse_string_splits:
  assumes "base + len \<le> length mem" "no_straddle mem base len d" "d \<noteq> []" "len \<le> INT32_MAX"
    and "0 < len" "mem ! (base + len - 1) \<noteq> 0"
  shows "\<exists>ts. ILibParseString mem base len d = Some ts
    \<and> map (\<lambda>(p, l). slice mem p l) ts = split_on d [] (slice mem base len)
    \<and> join d (map (\<lambda>(p, l). slice mem p l) ts) = slice mem base len"
  using ParseString_spec [OF assms] by (auto simp: join_split_on)

lemma parse_string_splits_witness:
  "\<exists>ts. ILibParseString (str ''a: b: c'') 0 7 (str '': '') = Some ts
    \<and> map (\<lambda>(p, l). slice (str ''a: b: c'') p l) ts
        = split_on (str '': '') [] (slice (str ''a: b: c'') 0 7)
    \<and> join (str '': '') (map (\<lambda>(p, l). slice (str ''a: b: c'') p l) ts) = slice (str ''a: b: c'') 0 7"
proof (rule parse_string_splits)
  show "no_straddle (str ''a: b: c'') 0 7 (str '': '')" by code_simp
qed (simp_all add: INT32_MAX_def)

text \<open>
  On a range without quote characters \<open>ILibParseStringAdv\<close> returns the
  same tokens as \<open>ILibParseString\<close>.
\<close>

theorem parse_string_adv_eq_parse_string:
  assumes "base + len \<le> length mem" "no_straddle mem base len d" "d \<noteq> []" "len \<le> INT32_MAX"
    and "0 < len" "mem ! (base + len - 1) \<noteq> 0"
    and "34 \<notin> set (slice mem base len)" "39 \<notin> set (slice mem base len)"
  shows "ILibParseStringAdv mem base len d = ILibParseString mem base len d"
  using parse_string_adv_unquoted [OF assms(1,7,8,4), of 0 0 d base "[]"] assms
  by (simp add: ILibParseStringAdv_def ILibParseString_def)

lemma parse_string_adv_eq_parse_string_witness:
  "ILibParseStringAdv (str ''a=1;b=2'') 0 7 (str '';'') = ILibParseString (str ''a=1;b=2'') 0 7 (str '';'')"
  by (rule parse_string_adv_eq_parse_string) (simp_all add: INT32_MAX_def no_straddle_single slice_def)

text \<open>
  Three behaviours of the tokenizers that their callers have to live with.  A
  delimiter that starts inside the range and ends in the bytes behind it is accepted (here the
  range \<open>ab:\<close> is followed by a blank): \<open>ILibIsDelimiter\<close> compares the delimiter with the whole
  length instead of what is left.  An empty string at the start of an allocation makes
  \<open>ILibParseString\<close> read the byte before it.  Once \<open>ILibParseStringAdv\<close> has seen one kind of
  quote, a delimiter inside the other kind splits.
\<close>

theorem tokenizer_boundary_behaviour:
  "ILibParseString (str ''ab: '') 0 3 (str '': '') = Some [(0, 2), (4, 0)]
   \<and> ILibParseString mem 0 0 d = None
   \<and> ILibParseStringAdv (str [CHR 0x27, CHR ''a'', CHR '','', CHR ''b'', CHR 0x27]) 0 5 (str '','')
     = Some [(0, 5)]
   \<and> ILibParseStringAdv (str [CHR 0x22, CHR 0x22, CHR 0x27, CHR ''a'', CHR '','', CHR ''b'', CHR 0x27]) 0 7 (str '','')
     = Some [(0, 4), (5, 2)]"
  by (simp add: ILibParseString_def ILibParseStringAdv_def parse_string_loop.simps
      parse_string_adv_loop.simps ILibIsDelimiter_def INT32_MAX_def adv_quote_def)

end
