(* ===== verification/StringBuffers.thy ===== *)
theory StringBuffers
  imports CStrings
begin

text \<open>
  The routines of microstack/ILibParsers.c that copy strings into buffers: the checked copies
  \<open>ILibMemory_Copy_s\<close>, \<open>ILibString_Copy_s\<close>, \<open>ILibString_n_Copy_s\<close>, \<open>ILibString_Cat_s\<close>, and the
  allocating \<open>ILibString_Copy\<close>, \<open>ILibString_Cat\<close> and \<open>ILibString_Replace\<close>.

  A destination is the list of the bytes allocated behind the pointer; \<open>destinationSize\<close> is what
  the caller claims about it.  A copy that does not fit in the claimed size ends the process
  with code 254 (\<open>Inl (Exit 254)\<close>); a copy outside the allocation is \<open>Inl UB\<close>.  The content of a
  fresh allocation is the function \<open>m0\<close> of the index, about which nothing is assumed.
\<close>

section \<open>Checked copies\<close>

definition overwrite :: "byte list \<Rightarrow> nat \<Rightarrow> byte list \<Rightarrow> byte list" where
  "overwrite dst off src = take off dst @ src @ drop (off + length src) dst"

definition ILibMemory_Copy_s :: "byte list \<Rightarrow> nat \<Rightarrow> nat \<Rightarrow> byte list \<Rightarrow> nat \<Rightarrow> failure + byte list" where
  "ILibMemory_Copy_s destination off destinationSize source sourceLength =
     (if destinationSize \<ge> sourceLength
      then (if off + sourceLength \<le> length destination \<and> sourceLength \<le> length source
            then Inr (overwrite destination off (take sourceLength source)) else Inl UB)
      else Inl (Exit 254))"

definition store :: "byte list \<Rightarrow> nat \<Rightarrow> byte \<Rightarrow> failure + byte list" where
  "store dst i b = (if i < length dst then Inr (dst[i := b]) else Inl UB)"

definition ILibString_Copy_s :: "byte list \<Rightarrow> nat \<Rightarrow> byte list \<Rightarrow> failure + byte list" where
  "ILibString_Copy_s destination destinationSize source =
     and_then (or_UB (strnlen_s source destinationSize)) (\<lambda>sourceLen.
     if sourceLen + 1 > destinationSize then Inl (Exit 254)
     else and_then (ILibMemory_Copy_s destination 0 destinationSize source sourceLen)
            (\<lambda>d. store d sourceLen 0))"

definition ILibString_n_Copy_s :: "byte list \<Rightarrow> nat \<Rightarrow> byte list \<Rightarrow> nat \<Rightarrow> failure + byte list" where
  "ILibString_n_Copy_s destination destinationSize source maxCount =
     and_then (or_UB (strnlen_s source (if maxCount = NPOS then sub64 destinationSize 1 else maxCount))) (\<lambda>count.
     if (count + 1) mod SIZE_MOD > destinationSize then Inl (Exit 254)
     else and_then (ILibMemory_Copy_s destination 0 destinationSize source count)
            (\<lambda>d. store d count 0))"

text \<open>The scan of \<open>ILibString_Cat_s\<close> for the terminator, over \<open>n\<close> more bytes from \<open>i\<close>.\<close>

fun cat_scan :: "byte list \<Rightarrow> nat \<Rightarrow> nat \<Rightarrow> nat \<Rightarrow> nat option" where
  "cat_scan dst x i 0 = Some x"
| "cat_scan dst x i (Suc n) = do { c \<leftarrow> rd dst i; if c = 0 then Some i else cat_scan dst x (i + 1) n }"

definition ILibString_Cat_s :: "byte list \<Rightarrow> nat \<Rightarrow> byte list \<Rightarrow> failure + byte list" where
  "ILibString_Cat_s destination destinationSize source =
     and_then (or_UB (strnlen_s source destinationSize)) (\<lambda>sourceLen.
     and_then (or_UB (cat_scan destination destinationSize 0 (sub64 destinationSize 1))) (\<lambda>x.
     if x + sourceLen + 1 > destinationSize then Inl (Exit 254)
     else and_then (ILibMemory_Copy_s destination x (destinationSize - x) source sourceLen)
            (\<lambda>d. store d (x + sourceLen) 0)))"

section \<open>Allocating copies\<close>

definition fresh_block :: "(nat \<Rightarrow> byte) \<Rightarrow> nat \<Rightarrow> byte list" where
  "fresh_block m0 n = map m0 [0 ..< n]"

definition ILibString_Copy :: "(nat \<Rightarrow> byte) \<Rightarrow> byte list \<Rightarrow> nat \<Rightarrow> failure + byte list" where
  "ILibString_Copy m0 inString len =
     and_then (or_UB (eff_len True inString len)) (\<lambda>len.
     and_then (ILibMemory_Copy_s (fresh_block m0 (len + 1)) 0 (len + 1) inString len)
       (\<lambda>r. store r len 0))"

definition ILibString_Cat :: "(nat \<Rightarrow> byte) \<Rightarrow> byte list \<Rightarrow> nat \<Rightarrow> byte list \<Rightarrow> nat \<Rightarrow> failure + byte list" where
  "ILibString_Cat m0 inString1 len1 inString2 len2 =
     and_then (or_UB (eff_len True inString1 len1)) (\<lambda>len1.
     and_then (or_UB (eff_len True inString2 len2)) (\<lambda>len2.
     and_then (ILibMemory_Copy_s (fresh_block m0 (len1 + len2 + 1)) 0 (len1 + len2 + 1) inString1 len1) (\<lambda>r.
     and_then (ILibMemory_Copy_s r len1 (len2 + 1) inString2 len2) (\<lambda>r.
     store r (len1 + len2) 0))))"

text \<open>
  The copying loop of \<open>ILibString_Replace\<close> over the tokens of \<open>ILibParseString\<close>, at the position
  \<open>pos\<close> (\<open>RetValLength\<close> in the code).
\<close>

fun replace_loop :: "byte list \<Rightarrow> byte list \<Rightarrow> nat \<Rightarrow> byte list \<Rightarrow> nat \<Rightarrow> (nat \<times> nat) list \<Rightarrow> failure + byte list" where
  "replace_loop mem w mallocSize ret pos [] = Inr ret"
| "replace_loop mem w mallocSize ret pos ((d, l) # ts) =
     and_then (ILibMemory_Copy_s ret pos (sub64 mallocSize pos) (drop d mem) l) (\<lambda>ret.
     if ts \<noteq> []
     then and_then (ILibMemory_Copy_s ret (pos + l) (sub64 mallocSize (pos + l)) w (length w)) (\<lambda>ret.
            replace_loop mem w mallocSize ret (pos + l + length w) ts)
     else replace_loop mem w mallocSize ret (pos + l) ts)"

definition ILibString_Replace ::
  "(nat \<Rightarrow> byte) \<Rightarrow> byte list \<Rightarrow> nat \<Rightarrow> byte list \<Rightarrow> byte list \<Rightarrow> failure + byte list" where
  "ILibString_Replace m0 inString inStringLength replaceThis replaceWithThis =
     and_then (or_UB (ILibParseString inString 0 inStringLength replaceThis)) (\<lambda>pr.
     let RetValLength =
           ((length pr - 1) * length replaceWithThis
            + sub64 inStringLength (((length pr - 1) * length replaceThis) mod SIZE_MOD)) mod SIZE_MOD;
         mallocSize = (RetValLength + 1) mod SIZE_MOD
     in and_then (store (fresh_block m0 mallocSize) RetValLength 0) (\<lambda>ret.
        replace_loop inString replaceWithThis mallocSize ret 0 pr))"


section \<open>Lemmas\<close>

lemma length_overwrite [simp]: "off + length src \<le> length dst \<Longrightarrow> length (overwrite dst off src) = length dst"
  by (simp add: overwrite_def)

lemma overwrite_Nil [simp]: "off \<le> length dst \<Longrightarrow> overwrite dst off [] = dst"
  by (simp add: overwrite_def)

lemma overwrite_overwrite:
  "off + length a \<le> length dst \<Longrightarrow>
   overwrite (overwrite dst off a) (off + length a) b = overwrite dst off (a @ b)"
  by (simp add: overwrite_def add.assoc add.commute add.left_commute)

lemma store_in: "i < length dst \<Longrightarrow> store dst i b = Inr (overwrite dst i [b])"
  by (simp add: store_def overwrite_def upd_conv_take_nth_drop)

lemma copy_in:
  "n \<le> sz \<Longrightarrow> off + n \<le> length dst \<Longrightarrow> n \<le> length src \<Longrightarrow>
   ILibMemory_Copy_s dst off sz src n = Inr (overwrite dst off (take n src))"
  by (simp add: ILibMemory_Copy_s_def)

lemma strlen_cstring [simp]: "0 \<notin> set s \<Longrightarrow> strlen (s @ 0 # r) = Some (length s)"
  by (induction s) auto

lemma strnlen_cstring [simp]: "0 \<notin> set s \<Longrightarrow> strnlen_s (s @ 0 # r) n = Some (min (length s) n)"
  by (simp add: strnlen_s_def)

lemma cat_scan_found:
  "0 \<notin> set s \<Longrightarrow> cat_scan (p @ s @ 0 # r) x (length p) n = Some (if length s < n then length p + length s else x)"
proof (induction s arbitrary: p n)
  case Nil
  then show ?case by (cases n) simp_all
next
  case (Cons c s)
  from Cons.prems Cons.IH [of "p @ [c]"] show ?case by (cases n) auto
qed

lemma length_fresh_block [simp]: "length (fresh_block m0 n) = n"
  by (simp add: fresh_block_def)

lemma length_join: "ts \<noteq> [] \<Longrightarrow> length (join d ts) = sum_list (map length ts) + (length ts - 1) * length d"
proof (induction d ts rule: join.induct)
  case (3 d t u ts)
  then show ?case by (simp add: algebra_simps)
qed simp_all

lemma replace_loop_spec:
  assumes "\<And>p l. (p, l) \<in> set ts \<Longrightarrow> p + l \<le> length mem"
    and "pos + length (join w (map (\<lambda>(p, l). slice mem p l) ts)) \<le> length ret" "length ret < SIZE_MOD"
  shows "replace_loop mem w (length ret) ret pos ts
    = Inr (overwrite ret pos (join w (map (\<lambda>(p, l). slice mem p l) ts)))"
  using assms
proof (induction ts arbitrary: ret pos)
  case (Cons t ts)
  obtain p l where t: "t = (p, l)" by (cases t)
  have pl: "p + l \<le> length mem" using Cons.prems(1) t by auto
  then have sl: "take l (drop p mem) = slice mem p l" "length (slice mem p l) = l"
    by (simp_all add: slice_def)
  have "pos + l \<le> length ret"
    using Cons.prems(2) sl by (cases "ts = []") (auto simp: t join_Cons)
  then have copy: "ILibMemory_Copy_s ret pos (sub64 (length ret) pos) (drop p mem) l
      = Inr (overwrite ret pos (slice mem p l))"
    using pl Cons.prems(3) sl by (subst copy_in) auto
  show ?case
  proof (cases "ts = []")
    case True
    then show ?thesis using copy by (simp add: t)
  next
    case False
    let ?J = "join w (map (\<lambda>(p, l). slice mem p l) ts)"
    have len: "pos + (l + (length w + length ?J)) \<le> length ret"
      using Cons.prems(2) False sl by (simp add: t join_Cons)
    have copy2: "ILibMemory_Copy_s (overwrite ret pos (slice mem p l)) (pos + l) (sub64 (length ret) (pos + l)) w (length w)
        = Inr (overwrite ret pos (slice mem p l @ w))"
      using len Cons.prems(3) sl overwrite_overwrite [of pos "slice mem p l" ret w]
      by (subst copy_in) auto
    have "replace_loop mem w (length (overwrite ret pos (slice mem p l @ w))) (overwrite ret pos (slice mem p l @ w)) (pos + l + length w) ts
        = Inr (overwrite (overwrite ret pos (slice mem p l @ w)) (pos + l + length w) ?J)"
      by (rule Cons.IH) (use Cons.prems len sl in auto)
    moreover have "overwrite (overwrite ret pos (slice mem p l @ w)) (pos + l + length w) ?J
        = overwrite ret pos (slice mem p l @ w @ ?J)"
      using overwrite_overwrite [of pos "slice mem p l @ w" ret ?J] len sl by (simp add: add.assoc)
    ultimately show ?thesis
      using False copy copy2 len sl by (simp add: t join_Cons)
  qed
qed simp

lemma Copy_s_cstring:
  assumes "0 \<notin> set t" "sz \<le> length dst" "sz < SIZE_MOD"
  shows "ILibString_Copy_s dst sz (t @ 0 # u)
    = (if length t < sz then Inr (t @ 0 # drop (length t + 1) dst) else Inl (Exit 254))"
  using assms
  by (auto simp: ILibString_Copy_s_def copy_in store_in overwrite_def)

lemma Cat_s_cstring:
  assumes "0 \<notin> set s" "0 \<notin> set t" "dst = s @ 0 # r" "sz \<le> length dst" "0 < sz" "sz < SIZE_MOD"
  shows "ILibString_Cat_s dst sz (t @ 0 # u)
    = (if length s + length t < sz \<and> length s + 1 < sz
       then Inr (s @ t @ 0 # drop (length s + length t + 1) dst) else Inl (Exit 254))"
proof -
  have scan: "cat_scan dst sz 0 (sub64 sz 1) = Some (if length s < sz - 1 then length s else sz)"
    using cat_scan_found [of s "[]" r sz "sz - 1"] assms by simp
  show ?thesis
  proof (cases "length s + length t < sz \<and> length s + 1 < sz")
    case True
    then have "ILibMemory_Copy_s dst (length s) (sz - length s) (t @ 0 # u) (length t) = Inr (overwrite dst (length s) t)"
      using assms by (subst copy_in) auto
    moreover have "store (overwrite dst (length s) t) (length s + length t) 0
        = Inr (s @ t @ 0 # drop (length s + length t + 1) dst)"
      using True assms overwrite_overwrite [of "length s" t dst "[0]"]
      by (subst store_in) (auto simp: overwrite_def)
    ultimately show ?thesis
      using True assms scan by (auto simp: ILibString_Cat_s_def min_def)
  next
    case False
    then show ?thesis using assms scan by (auto simp: ILibString_Cat_s_def min_def)
  qed
qed

text \<open>
  The bounded copies on C strings.  \<open>ILibString_Copy_s\<close> stores the whole source
  with its terminator and leaves the rest of the destination alone when the string fits in the
  claimed size, and \<open>ILibString_Cat_s\<close> appends it to the string in the destination when both
  fit and the destination is not already full; in every other case they end the process with
  code 254.  They never read or write outside the two buffers when the claimed size is at most
  the allocated one.
\<close>

theorem bounded_copies_correct:
  assumes "0 \<notin> set s" "0 \<notin> set t" "dst = s @ 0 # r" "sz \<le> length dst" "0 < sz" "sz < SIZE_MOD"
  shows "ILibString_Copy_s dst sz (t @ 0 # u)
      = (if length t < sz then Inr (t @ 0 # drop (length t + 1) dst) else Inl (Exit 254))
    \<and> ILibString_Cat_s dst sz (t @ 0 # u)
      = (if length s + length t < sz \<and> length s + 1 < sz
         then Inr (s @ t @ 0 # drop (length s + length t + 1) dst) else Inl (Exit 254))"
  using Copy_s_cstring [OF assms(2,4,6)] Cat_s_cstring [OF assms] by blast

lemma bounded_copies_correct_witness:
  "ILibString_Copy_s (str ''ab'' @ 0 # str ''....'') 7 (str ''cd'' @ 0 # [])
      = (if length (str ''cd'') < 7 then Inr (str ''cd'' @ 0 # drop (length (str ''cd'') + 1) (str ''ab'' @ 0 # str ''....''))
         else Inl (Exit 254))"
  by (rule conjunct1 [OF bounded_copies_correct [of "str ''ab''" _ _ "str ''....''"]]) (simp_all add: SIZE_MOD_def)

text \<open>
  \<open>ILibString_Replace\<close> returns the terminated string in which the non-overlapping
  occurrences of \<open>replaceThis\<close>, from the left, are replaced: the pieces between them joined with
  \<open>replaceWithThis\<close>.  The buffer it computes is exactly large enough, whatever the content
  of the fresh block.
\<close>

theorem string_replace_correct:
  assumes "len \<le> length s" "no_straddle s 0 len d" "d \<noteq> []" "len \<le> INT32_MAX"
    and "0 < len" "s ! (len - 1) \<noteq> 0"
    and "length (join w (split_on d [] (slice s 0 len))) + 1 < SIZE_MOD"
  shows "ILibString_Replace m0 s len d w = Inr (join w (split_on d [] (slice s 0 len)) @ [0])"
proof -
  obtain ts where ts: "ILibParseString s 0 len d = Some ts"
    "map (\<lambda>(p, l). slice s p l) ts = split_on d [] (slice s 0 len)"
    "\<forall>(p, l) \<in> set ts. p + l \<le> len"
    using ParseString_spec [of 0 len s d] assms by auto
  let ?P = "split_on d [] (slice s 0 len)"
  have n: "length ts = length ?P" using arg_cong [OF ts(2), of length] by simp
  have "length (join d ?P) = len" using join_split_on [of d "[]" "slice s 0 len"] assms(1) by simp
  then have len: "len = sum_list (map length ?P) + (length ?P - 1) * length d"
    using length_join [of ?P d] by simp
  have lw: "length (join w ?P) = sum_list (map length ?P) + (length ?P - 1) * length w"
    using length_join [of ?P w] by simp
  have "len < SIZE_MOD" using assms(4) by (simp add: INT32_MAX_def SIZE_MOD_def)
  then have "sub64 len (((length ts - 1) * length d) mod SIZE_MOD) = sum_list (map length ?P)"
    using len n by simp
  then have size: "((length ts - 1) * length w + sub64 len (((length ts - 1) * length d) mod SIZE_MOD)) mod SIZE_MOD
      = length (join w ?P)"
    using lw n assms(7) by (simp add: add.commute)
  let ?b = "overwrite (fresh_block m0 (length (join w ?P) + 1)) (length (join w ?P)) [0]"
  have "replace_loop s w (length ?b) ?b 0 ts = Inr (overwrite ?b 0 (join w ?P))"
  proof -
    have "p + l \<le> length s" if "(p, l) \<in> set ts" for p l
      using that ts(3) assms(1) by fastforce
    then show ?thesis using replace_loop_spec [of ts s 0 w ?b] ts(2) assms(7) by simp
  qed
  moreover have "overwrite ?b 0 (join w ?P) = join w ?P @ [0]"
    by (simp add: overwrite_def)
  ultimately show ?thesis
    using size assms(7) by (simp add: ILibString_Replace_def ts(1) Let_def store_in)
qed

lemma string_replace_correct_witness:
  "ILibString_Replace (\<lambda>_. 0) (str ''a+b+c'') 5 (str ''+'') (str '' %20'')
     = Inr (join (str '' %20'') (split_on (str ''+'') [] (slice (str ''a+b+c'') 0 5)) @ [0])"
  by (rule string_replace_correct)
     (simp_all add: no_straddle_single INT32_MAX_def SIZE_MOD_def slice_def split_on.simps(2))

text \<open>
  What \<open>ILibString_Replace\<close> does outside those conditions.  When the string is
  given with its terminator the result has one byte of the fresh block before its own
  terminator; when an occurrence straddles the end of the range the terminator is overwritten
  and the result is not a C string.
\<close>

theorem string_replace_boundary_behaviour:
  "ILibString_Replace m0 (str ''ab'' @ [0]) 3 (str '':'') (str ''-'') = Inr (str ''ab'' @ [m0 2, 0])
   \<and> ILibString_Replace m0 (str ''ab: '') 3 (str '': '') (str ''-'') = Inr (str ''ab-'')"
  by (simp add: ILibString_Replace_def ILibParseString_def parse_string_loop.simps ILibIsDelimiter_def
      INT32_MAX_def SIZE_MOD_def sub64_def Let_def store_def fresh_block_def ILibMemory_Copy_s_def
      overwrite_def upt_conv_Cons flip: numeral_2_eq_2)

end
