(* ===== verification/Base64.thy ===== *)
theory Base64
  imports StringBuffers
begin

text \<open>
  Base64 encoding and decoding of microstack/ILibParsers.c: \<open>ILibBase64Encode\<close>,
  \<open>ILibBase64Decode\<close>, their block functions and buffer sizes.

  The output argument \<open>unsigned char **output\<close> is the content of the caller's buffer, or \<open>None\<close>
  for a null pointer, in which case the function allocates one (of content \<open>m0\<close>).  Pointers
  into the input and the output are offsets; a write outside the output buffer is \<open>Inl UB\<close>.
\<close>

unbundle bit_operations_syntax

section \<open>Encoding\<close>

definition cb64 :: "byte list" where
  "cb64 = str ''ABCDEFGHIJKLMNOPQRSTUVWXYZabcdefghijklmnopqrstuvwxyz0123456789+/''"

definition cd64 :: "byte list" where
  "cd64 = str ''|$$$}rstuvwxyz{$$$$$$$>?@ABCDEFGHIJKLMNOPQRSTUVW$$$$$$XYZ['' @ [92]
          @ str '']^_'' @ [96] @ str ''abcdefghijklmnopq''"

definition ILibencodeblock :: "byte list \<Rightarrow> nat \<Rightarrow> nat \<Rightarrow> byte list option" where
  "ILibencodeblock mem off len = do {
     in0 \<leftarrow> rd mem off;
     in1 \<leftarrow> (if len > 1 then rd mem (off + 1) else Some 0);
     in2 \<leftarrow> (if len > 2 then rd mem (off + 2) else Some 0);
     Some [cb64 ! unat (drop_bit 2 in0),
           cb64 ! unat (push_bit 4 (in0 AND 0x03) OR (if len > 1 then drop_bit 4 (in1 AND 0xf0) else 0)),
           (if len > 1 then cb64 ! unat (push_bit 2 (in1 AND 0x0f)
                                          OR (if len > 2 then drop_bit 6 (in2 AND 0xc0) else 0)) else 61),
           (if len > 2 then cb64 ! unat (in2 AND 0x3f) else 61)] }"

definition ILibBase64EncodeLength :: "nat \<Rightarrow> nat" where
  "ILibBase64EncodeLength inputLen = ((inputLen * 4) mod SIZE_MOD) div 3 + 5"

definition put_bytes :: "byte list \<Rightarrow> nat \<Rightarrow> byte list \<Rightarrow> failure + byte list" where
  "put_bytes buf off bs = (if off + length bs \<le> length buf then Inr (overwrite buf off bs) else Inl UB)"

function base64_encode_loop :: "byte list \<Rightarrow> nat \<Rightarrow> nat \<Rightarrow> byte list \<Rightarrow> nat \<Rightarrow> failure + (byte list \<times> nat)" where
  "base64_encode_loop input inputlen i buf out =
     (if i + 3 \<le> inputlen
      then case ILibencodeblock input i 3 of None \<Rightarrow> Inl UB
           | Some b \<Rightarrow> (case put_bytes buf out b of Inl e \<Rightarrow> Inl e
              | Inr buf \<Rightarrow> base64_encode_loop input inputlen (i + 3) buf (out + 4))
      else and_then
        (if inputlen - i = 1 \<or> inputlen - i = 2
         then and_then (or_UB (ILibencodeblock input i (inputlen - i))) (\<lambda>b.
              and_then (put_bytes buf out b) (\<lambda>buf. Inr (buf, out + 4)))
         else Inr (buf, out))
        (\<lambda>(buf, out). and_then (put_bytes buf out [0]) (\<lambda>buf. Inr (buf, out))))"
  by pat_completeness auto
termination
  by (relation "measure (\<lambda>(input, inputlen, i, buf, out). inputlen - i)") auto

definition ILibBase64Encode ::
  "(nat \<Rightarrow> byte) \<Rightarrow> byte list option \<Rightarrow> nat \<Rightarrow> byte list option \<Rightarrow> failure + (byte list option \<times> nat)" where
  "ILibBase64Encode m0 input inputlen output =
     (if output = None \<and> inputlen * 4 > INT32_MAX then Inl UB else
      let buf = (case output of Some b \<Rightarrow> b | None \<Rightarrow> fresh_block m0 ((inputlen * 4) div 3 + 5)) in
      case input of
        None \<Rightarrow> Inr (None, 0)
      | Some input \<Rightarrow>
          if inputlen = 0 then Inr (None, 0)
          else and_then (base64_encode_loop input inputlen 0 buf 0) (\<lambda>(buf, out). Inr (Some buf, out)))"

section \<open>Decoding\<close>

definition ILibdecodeblock :: "byte list \<Rightarrow> byte list" where
  "ILibdecodeblock inp =
     [push_bit 2 (inp ! 0) OR drop_bit 4 (inp ! 1),
      push_bit 4 (inp ! 1) OR drop_bit 2 (inp ! 2),
      (push_bit 6 (inp ! 2) AND 0xc0) OR inp ! 3]"

definition ILibBase64DecodeLength :: "nat \<Rightarrow> nat" where
  "ILibBase64DecodeLength inputLen = ((inputLen * 3) mod SIZE_MOD) div 4 + 4"

text \<open>The value of a character plus one, 0 for noise.\<close>

definition decode_char :: "byte \<Rightarrow> byte" where
  "decode_char c =
     (let v = (if c < 43 \<or> c > 122 then 0 else cd64 ! unat (c - 43))
      in if v \<noteq> 0 then (if v = 36 then 0 else v - 61) else v)"

function next_value :: "byte list \<Rightarrow> nat \<Rightarrow> nat \<Rightarrow> byte \<Rightarrow> (nat \<times> byte) option" where
  "next_value input inputlen inptr v =
     (if inptr \<le> inputlen \<and> v = 0
      then case rd input inptr of None \<Rightarrow> None
           | Some c \<Rightarrow> next_value input inputlen (inptr + 1) (decode_char c)
      else Some (inptr, v))"
  by pat_completeness auto
termination
  by (relation "measure (\<lambda>(input, inputlen, inptr, v). Suc inputlen - inptr)") auto

text \<open>
  The loop that collects up to four values, from index \<open>4 - k\<close> on.  \<open>inp\<close> keeps what the previous
  group left in it.
\<close>

fun fill_group :: "nat \<Rightarrow> byte list \<Rightarrow> nat \<Rightarrow> nat \<Rightarrow> nat \<Rightarrow> byte list \<Rightarrow> (nat \<times> nat \<times> byte list) option" where
  "fill_group 0 input inputlen inptr len inp = Some (inptr, len, inp)"
| "fill_group (Suc k) input inputlen inptr len inp =
     (if inptr \<le> inputlen
      then do {
        (inptr, v) \<leftarrow> next_value input inputlen inptr 0;
        if inptr \<le> inputlen
        then fill_group k input inputlen inptr (len + 1) (if v \<noteq> 0 then inp[3 - k := v - 1] else inp)
        else fill_group k input inputlen inptr len (inp[3 - k := 0]) }
      else Some (inptr, len, inp))"

declare base64_encode_loop.simps [simp del] next_value.simps [simp del]

lemma next_value_mono: "next_value input n p v = Some (p', v') \<Longrightarrow> p \<le> p' \<and> (v = 0 \<and> p \<le> n \<longrightarrow> p < p')"
proof (induction input n p v rule: next_value.induct)
  case (1 input n p v)
  show ?case
  proof (cases "p \<le> n \<and> v = 0")
    case True
    then show ?thesis using 1 by (subst (asm) next_value.simps) (fastforce split: option.splits)
  next
    case False
    then show ?thesis using "1.prems" by (subst (asm) next_value.simps) auto
  qed
qed

lemma fill_group_mono: "fill_group k input n p l inp = Some (p', l', inp') \<Longrightarrow> p \<le> p'"
proof (induction k arbitrary: p l inp)
  case (Suc k)
  then show ?case
    by (fastforce dest: next_value_mono split: if_splits bind_splits)
qed simp

lemma fill_group_progress:
  "fill_group 4 input n p l inp = Some (p', l', inp') \<Longrightarrow> p \<le> n \<Longrightarrow> p < p'"
  by (fastforce simp: eval_nat_numeral dest: next_value_mono fill_group_mono split: if_splits bind_splits)

function base64_decode_loop ::
  "byte list \<Rightarrow> nat \<Rightarrow> nat \<Rightarrow> byte list \<Rightarrow> byte list \<Rightarrow> nat \<Rightarrow> failure + (byte list \<times> nat)" where
  "base64_decode_loop input inputlen inptr inp buf out =
     (if inptr \<le> inputlen
      then case fill_group 4 input inputlen inptr 0 inp of None \<Rightarrow> Inl UB
           | Some (inptr, len, inp) \<Rightarrow>
               if len \<noteq> 0
               then (case put_bytes buf out (ILibdecodeblock inp) of Inl e \<Rightarrow> Inl e
                     | Inr buf \<Rightarrow> base64_decode_loop input inputlen inptr inp buf (out + len - 1))
               else base64_decode_loop input inputlen inptr inp buf out
      else and_then (put_bytes buf out [0]) (\<lambda>buf. Inr (buf, out)))"
  by pat_completeness auto
termination
  by (relation "measure (\<lambda>(input, inputlen, inptr, inp, buf, out). Suc inputlen - inptr)")
     (auto dest!: fill_group_progress simp del: fill_group.simps intro!: diff_less_mono2)

declare base64_decode_loop.simps [simp del]

definition ILibBase64Decode ::
  "(nat \<Rightarrow> byte) \<Rightarrow> byte list option \<Rightarrow> nat \<Rightarrow> byte list option \<Rightarrow> failure + (byte list option \<times> nat)" where
  "ILibBase64Decode m0 input inputlen output =
     (case input of
        None \<Rightarrow> Inr (None, 0)
      | Some input \<Rightarrow>
          if inputlen = 0 then Inr (None, 0)
          else if output = None \<and> inputlen * 3 > INT32_MAX then Inl UB
          else let buf = (case output of Some b \<Rightarrow> b | None \<Rightarrow> fresh_block m0 ((inputlen * 3) div 4 + 4))
               in and_then (base64_decode_loop input inputlen 0 [0, 0, 0, 0] buf 0)
                    (\<lambda>(buf, out). Inr (Some buf, out)))"

definition ILibBase64DecodeEx ::
  "(nat \<Rightarrow> byte) \<Rightarrow> byte list option \<Rightarrow> nat \<Rightarrow> byte list \<Rightarrow> failure + (byte list option \<times> nat)" where
  "ILibBase64DecodeEx m0 input inputlen output = ILibBase64Decode m0 input inputlen (Some output)"


section \<open>The encoding as a function on lists\<close>

definition enc4 :: "byte \<Rightarrow> byte \<Rightarrow> byte \<Rightarrow> byte list" where
  "enc4 a b c = [drop_bit 2 a, push_bit 4 (a AND 3) OR drop_bit 4 (b AND 0xf0),
     push_bit 2 (b AND 0x0f) OR drop_bit 6 (c AND 0xc0), c AND 0x3f]"

definition sym :: "byte \<Rightarrow> byte" where
  "sym v = cb64 ! unat v"

fun b64 :: "byte list \<Rightarrow> byte list" where
  "b64 (a # b # c # r) = map sym (enc4 a b c) @ b64 r"
| "b64 [a, b] = map sym (take 3 (enc4 a b 0)) @ [61]"
| "b64 [a] = map sym (take 2 (enc4 a 0 0)) @ [61, 61]"
| "b64 [] = []"

lemma length_b64: "length (b64 bs) = 4 * ((length bs + 2) div 3)"
proof (induction bs rule: b64.induct)
  case (1 a b c r)
  have "(length (a # b # c # r) + 2) div 3 = (length r + 2) div 3 + 1" by simp
  with 1 show ?case by (simp add: enc4_def)
qed (simp_all add: enc4_def)

lemma encodeblock_3:
  "off + 3 \<le> length mem \<Longrightarrow>
   ILibencodeblock mem off 3 = Some (map sym (enc4 (mem ! off) (mem ! (off + 1)) (mem ! (off + 2))))"
  by (simp add: ILibencodeblock_def enc4_def sym_def)

lemma encodeblock_2:
  "off + 2 \<le> length mem \<Longrightarrow>
   ILibencodeblock mem off 2 = Some (map sym (take 3 (enc4 (mem ! off) (mem ! (off + 1)) 0)) @ [61])"
  by (simp add: ILibencodeblock_def enc4_def sym_def)

lemma encodeblock_1:
  "off < length mem \<Longrightarrow>
   ILibencodeblock mem off 1 = Some (map sym (take 2 (enc4 (mem ! off) 0 0)) @ [61, 61])"
  by (simp add: ILibencodeblock_def enc4_def sym_def)

lemma encode_loop_spec:
  assumes "inputlen \<le> length input" "i \<le> inputlen" "out + length (b64 (slice input i (inputlen - i))) < length buf"
  shows "base64_encode_loop input inputlen i buf out
    = Inr (overwrite buf out (b64 (slice input i (inputlen - i)) @ [0]),
           out + length (b64 (slice input i (inputlen - i))))"
  using assms
proof (induction "inputlen - i" arbitrary: i buf out rule: less_induct)
  case less
  consider "i + 3 \<le> inputlen" | "inputlen - i = 2" | "inputlen - i = 1" | "inputlen - i = 0" by linarith
  then show ?case
  proof cases
    case 1
    let ?e = "map sym (enc4 (input ! i) (input ! (i + 1)) (input ! (i + 2)))"
    let ?r = "b64 (slice input (i + 3) (inputlen - (i + 3)))"
    obtain k where k: "inputlen - i = Suc (Suc (Suc k))" "inputlen - (i + 3) = k"
      using 1 by (intro that [of "inputlen - (i + 3)"]) auto
    then have s: "slice input i (inputlen - i)
        = input ! i # input ! (i + 1) # input ! (i + 2) # slice input (i + 3) (inputlen - (i + 3))"
      using 1 less.prems(1) by (simp add: slice_Cons eval_nat_numeral)
    have l4: "length ?e = 4" by (simp add: enc4_def)
    have fits: "out + 4 + length ?r < length buf" using less.prems(3) l4 by (simp add: s)
    have "base64_encode_loop input inputlen i buf out
        = base64_encode_loop input inputlen (i + 3) (overwrite buf out ?e) (out + 4)"
      using 1 less.prems fits l4 encodeblock_3 [of i input]
      by (subst base64_encode_loop.simps) (simp add: put_bytes_def)
    also have "\<dots> = Inr (overwrite (overwrite buf out ?e) (out + 4) (?r @ [0]), out + 4 + length ?r)"
      using 1 less.prems fits l4 by (intro less.hyps) auto
    also have "overwrite (overwrite buf out ?e) (out + 4) (?r @ [0]) = overwrite buf out (?e @ ?r @ [0])"
      using overwrite_overwrite [of out ?e buf "?r @ [0]"] fits l4 by simp
    finally show ?thesis using l4 by (simp add: s)
  next
    case 2
    then have s: "slice input i (inputlen - i) = [input ! i, input ! (i + 1)]"
      using less.prems(1) by (simp add: slice_Cons eval_nat_numeral)
    let ?e = "map sym (take 3 (enc4 (input ! i) (input ! (i + 1)) 0)) @ [61]"
    have l4: "length ?e = 4" by (simp add: enc4_def)
    have b: "b64 (slice input i (inputlen - i)) = ?e" unfolding s by simp
    have "\<not> i + 3 \<le> inputlen" "i + 2 \<le> length input" using 2 less.prems(1) by simp_all
    moreover have "out + 5 \<le> length buf" using less.prems(3) unfolding b l4 by simp
    ultimately show ?thesis unfolding b
      using 2 l4 encodeblock_2 [of i input] overwrite_overwrite [of out ?e buf "[0]"]
      by (subst base64_encode_loop.simps) (simp add: put_bytes_def)
  next
    case 3
    then have s: "slice input i (inputlen - i) = [input ! i]"
      using less.prems(1) by (simp add: slice_Cons)
    let ?e = "map sym (take 2 (enc4 (input ! i) 0 0)) @ [61, 61]"
    have l4: "length ?e = 4" by (simp add: enc4_def)
    have b: "b64 (slice input i (inputlen - i)) = ?e" unfolding s by simp
    have "\<not> i + 3 \<le> inputlen" "i < length input" using 3 less.prems(1) by simp_all
    moreover have "out + 5 \<le> length buf" using less.prems(3) unfolding b l4 by simp
    ultimately show ?thesis unfolding b
      using 3 l4 encodeblock_1 [of i input] overwrite_overwrite [of out ?e buf "[0]"]
      by (subst base64_encode_loop.simps) (simp add: put_bytes_def)
  next
    case 4
    then show ?thesis using less.prems
      by (subst base64_encode_loop.simps) (simp add: put_bytes_def)
  qed
qed

section \<open>Decoding inverts it\<close>

lemma less_8: "n < 8 \<Longrightarrow> n = 0 \<or> n = 1 \<or> n = 2 \<or> n = 3 \<or> n = 4 \<or> n = 5 \<or> n = 6 \<or> n = (7::nat)"
  by arith

lemma byte_bits_eqI:
  fixes x y :: byte
  assumes "bit x 0 = bit y 0" "bit x 1 = bit y 1" "bit x 2 = bit y 2" "bit x 3 = bit y 3"
    "bit x 4 = bit y 4" "bit x 5 = bit y 5" "bit x 6 = bit y 6" "bit x 7 = bit y 7"
  shows "x = y"
  using assms by (intro bit_word_eqI) (use less_8 in auto)

lemma small_byte: "x AND 63 = x \<Longrightarrow> unat (x :: byte) < 64"
proof -
  assume "x AND 63 = x"
  then have "unat x = unat (take_bit 6 x)" by (simp add: take_bit_eq_mask mask_eq_exp_minus_1)
  also have "\<dots> < 64" by (simp add: take_bit_eq_mod unat_mod_distrib)
  finally show ?thesis .
qed

lemma bit_byte_le: "bit (a :: byte) n \<Longrightarrow> n < 8"
  using bit_imp_le_length by fastforce

lemma bit_byte_beyond [simp]: "\<not> bit (a :: byte) 8" "\<not> bit (a :: byte) 9"
  by (auto dest: bit_byte_le)

lemma enc4_small: "v \<in> set (enc4 a b c) \<Longrightarrow> unat v < 64"
  by (rule small_byte, rule byte_bits_eqI) (auto simp: enc4_def bit_simps dest: bit_byte_le)

lemma decode_enc4: "ILibdecodeblock (enc4 a b c) = [a, b, c]"
  unfolding ILibdecodeblock_def enc4_def list.inject
  apply (simp del: push_bit_of_0, intro conjI; (rule byte_bits_eqI; auto simp: bit_simps))
  done

lemma decode_char_table: "list_all (\<lambda>n. decode_char (cb64 ! n) = of_nat n + 1) [0 ..< 64]"
  by (simp add: upt_rec [of _ "numeral _"] decode_char_def cb64_def cd64_def)

lemma sym_char: "unat v < 64 \<Longrightarrow> decode_char (sym v) = v + 1"
  using decode_char_table by (auto simp: list_all_iff sym_def)

lemma succ_ne_0: "unat v < 64 \<Longrightarrow> (v :: byte) + 1 \<noteq> 0"
proof
  assume "unat v < 64"
  then have "unat (v + 1) = unat v + 1" by (simp add: unat_word_ariths)
  moreover assume "v + 1 = 0"
  ultimately show False by simp
qed

lemma next_value_sym:
  "p \<le> n \<Longrightarrow> p < length input \<Longrightarrow> input ! p = sym v \<Longrightarrow> unat v < 64 \<Longrightarrow>
   next_value input n p 0 = Some (p + 1, v + 1)"
  by (subst next_value.simps, simp, subst next_value.simps) (simp add: sym_char succ_ne_0)

lemma next_value_last:
  "n < length input \<Longrightarrow> next_value input n n 0 = Some (n + 1, decode_char (input ! n))"
  by (subst next_value.simps, simp, subst next_value.simps) simp

lemma decode_char_pad [simp]: "decode_char 61 = 0"
  by (simp add: decode_char_def cd64_def)

lemma next_value_pad:
  "p < n \<Longrightarrow> n < length input \<Longrightarrow> input ! p = 61 \<Longrightarrow> next_value input n p 0 = next_value input n (p + 1) 0"
  by (subst next_value.simps) simp

lemma fill_full:
  assumes "p + 4 \<le> n" "n < length input" "length inp = 4" "\<forall>j < 4. unat (w ! j) < 64" "length w = 4"
    and "slice input p 4 = map sym w"
  shows "fill_group 4 input n p 0 inp = Some (p + 4, 4, w)"
proof -
  obtain w0 w1 w2 w3 where w: "w = [w0, w1, w2, w3]" using assms(5) by (auto simp: numeral_eq_Suc length_Suc_conv)
  obtain i0 i1 i2 i3 where i: "inp = [i0, i1, i2, i3]" using assms(3) by (auto simp: numeral_eq_Suc length_Suc_conv)
  have v: "unat w0 < 64" "unat w1 < 64" "unat w2 < 64" "unat w3 < 64"
    using assms(4) [rule_format, of 0] assms(4) [rule_format, of 1] assms(4) [rule_format, of 2]
      assms(4) [rule_format, of 3] by (simp_all add: w)
  have c: "input ! p = sym w0" "input ! (p + 1) = sym w1" "input ! (p + 2) = sym w2" "input ! (p + 3) = sym w3"
    using assms(1,2,6) by (simp_all add: w slice_Cons numeral_eq_Suc)
  note nv = next_value_sym [of p n input w0] next_value_sym [of "p + 1" n input w1]
    next_value_sym [of "p + 2" n input w2] next_value_sym [of "p + 3" n input w3]
  show ?thesis
    using nv c v assms(1,2) succ_ne_0 [OF v(1)] succ_ne_0 [OF v(2)] succ_ne_0 [OF v(3)] succ_ne_0 [OF v(4)]
    by (simp add: w i numeral_eq_Suc)
qed

lemma decode_step:
  assumes "p \<le> n" "fill_group 4 input n p 0 inp = Some (p', len, inp')" "len \<noteq> 0" "out + 3 \<le> length buf"
  shows "base64_decode_loop input n p inp buf out
    = base64_decode_loop input n p' inp' (overwrite buf out (ILibdecodeblock inp')) (out + len - 1)"
  using assms by (subst base64_decode_loop.simps) (simp add: put_bytes_def ILibdecodeblock_def)

lemma decode_done:
  assumes "n < p" "out < length buf"
  shows "base64_decode_loop input n p inp buf out = Inr (overwrite buf out [0], out)"
  using assms by (subst base64_decode_loop.simps) (simp add: put_bytes_def)

lemma take_overwrite:
  "out + length bs \<le> length buf \<Longrightarrow> m \<le> length bs \<Longrightarrow> take (out + m) (overwrite buf out bs) = take out buf @ take m bs"
  by (simp add: overwrite_def)

lemma take_overwrite_0 [simp]: "out \<le> length buf \<Longrightarrow> take out (overwrite buf out bs) = take out buf"
  by (simp add: overwrite_def)

lemma fill_pad1:
  assumes "p + 4 = n" "n < length input" "length inp = 4" "slice input p 4 = map sym [w0, w1, w2] @ [61]"
    and "unat w0 < 64" "unat w1 < 64" "unat w2 < 64"
  shows "fill_group 4 input n p 0 inp = Some (n + 1, 3, [w0, w1, w2, 0])"
proof -
  obtain i0 i1 i2 i3 where i: "inp = [i0, i1, i2, i3]" using assms(3) by (auto simp: numeral_eq_Suc length_Suc_conv)
  have c: "input ! p = sym w0" "input ! (p + 1) = sym w1" "input ! (p + 2) = sym w2" "input ! (p + 3) = 61"
    using assms(1,2,4) by (auto simp: slice_Cons numeral_eq_Suc)
  note nv = next_value_sym [of p n input w0] next_value_sym [of "p + 1" n input w1]
    next_value_sym [of "p + 2" n input w2] next_value_pad [of "p + 3" n input] next_value_last [of n input]
  have n: "p + 3 + 1 = n" using assms(1) by simp
  show ?thesis
    using nv c assms(1,2,5-) succ_ne_0 [of w0] succ_ne_0 [of w1] succ_ne_0 [of w2] n
    by (simp add: i numeral_eq_Suc)
qed

lemma fill_pad2:
  assumes "p + 4 = n" "n < length input" "length inp = 4" "slice input p 4 = map sym [w0, w1] @ [61, 61]"
    and "unat w0 < 64" "unat w1 < 64"
  shows "fill_group 4 input n p 0 inp = Some (n + 1, 2, [w0, w1, 0, inp ! 3])"
proof -
  obtain i0 i1 i2 i3 where i: "inp = [i0, i1, i2, i3]" using assms(3) by (auto simp: numeral_eq_Suc length_Suc_conv)
  have c: "input ! p = sym w0" "input ! (p + 1) = sym w1" "input ! (p + 2) = 61" "input ! (p + 3) = 61"
    using assms(1,2,4) by (auto simp: slice_Cons numeral_eq_Suc)
  note nv = next_value_sym [of p n input w0] next_value_sym [of "p + 1" n input w1]
    next_value_pad [of "p + 2" n input] next_value_pad [of "p + 3" n input] next_value_last [of n input]
  have n: "p + 3 + 1 = n" "p + 2 + 1 = p + 3" using assms(1) by simp_all
  show ?thesis
    using nv c assms(1,2,5-) succ_ne_0 [of w0] succ_ne_0 [of w1] n
    by (simp add: i numeral_eq_Suc)
qed

lemma fill_end:
  assumes "n < length input" "length inp = 4"
  shows "fill_group 4 input n n 0 inp = Some (n + 1, 0, inp[0 := 0])"
  using next_value_last [OF assms(1)] by (simp add: numeral_eq_Suc)

lemma decodeblock_pad1: "take 2 (ILibdecodeblock (take 3 (enc4 a b 0) @ [v])) = [a, b]"
  using decode_enc4 [of a b 0] by (simp add: ILibdecodeblock_def enc4_def)

lemma decodeblock_pad2: "take 1 (ILibdecodeblock (take 2 (enc4 a 0 0) @ [u, v])) = [a]"
  using decode_enc4 [of a 0 0] by (simp add: ILibdecodeblock_def enc4_def)

lemma decode_loop_b64:
  assumes "slice input p (length (b64 bs)) = b64 bs" "p + length (b64 bs) = n" "n < length input"
    and "length inp = 4" "out + 3 * ((length bs + 2) div 3) < length buf"
  shows "\<exists>buf'. base64_decode_loop input n p inp buf out = Inr (buf', out + length bs)
    \<and> length buf' = length buf \<and> take (out + length bs + 1) buf' = take out buf @ bs @ [0]"
  using assms
proof (induction bs arbitrary: p inp buf out rule: b64.induct)
  case (1 a b c r)
  let ?w = "enc4 a b c"
  have l4: "length ?w = 4" by (simp add: enc4_def)
  have len: "length (b64 (a # b # c # r)) = 4 + length (b64 r)" by (simp add: l4)
  have "slice input p 4 @ slice input (p + 4) (length (b64 r)) = map sym ?w @ b64 r"
    using "1.prems"(1) unfolding len slice_append_slice by simp
  moreover have "length (slice input p 4) = 4" using "1.prems"(2,3) len by simp
  ultimately have s: "slice input p 4 = map sym ?w" "slice input (p + 4) (length (b64 r)) = b64 r"
    using l4 by (auto simp: append_eq_append_conv)
  have fill: "fill_group 4 input n p 0 inp = Some (p + 4, 4, ?w)"
    using "1.prems"(2-4) s(1) l4 enc4_small [of _ a b c]
    by (intro fill_full) (auto simp: len)
  have div: "(length (a # b # c # r) + 2) div 3 = (length r + 2) div 3 + 1" by simp
  let ?buf = "overwrite buf out [a, b, c]"
  have room: "out + 3 + 3 * ((length r + 2) div 3) < length buf" using "1.prems"(5) unfolding div by simp
  obtain buf' where "base64_decode_loop input n (p + 4) ?w ?buf (out + 3) = Inr (buf', out + 3 + length r)"
    "length buf' = length buf" "take (out + 3 + length r + 1) buf' = take (out + 3) ?buf @ r @ [0]"
    using "1.IH" [where p = "p + 4" and inp = ?w and buf = ?buf and out = "out + 3"] "1.prems"(2,3) s(2) l4 room by (auto simp: len)
  moreover have "base64_decode_loop input n p inp buf out = base64_decode_loop input n (p + 4) ?w ?buf (out + 3)"
    using decode_step [OF _ fill, of out buf] "1.prems"(2) room by (simp add: decode_enc4 add.commute)
  moreover have "take (out + 3) ?buf = take out buf @ [a, b, c]"
    using take_overwrite [of out "[a, b, c]" buf 3] room by simp
  moreover have "out + length (a # b # c # r) = out + 3 + length r" by simp
  ultimately show ?case by (simp only: append.assoc append.simps simp_thms ex_simps sum.inject prod.inject)
next
  case (2 a b)
  let ?w = "take 3 (enc4 a b 0) @ [0]"
  have fill: "fill_group 4 input n p 0 inp = Some (n + 1, 3, ?w)"
  proof -
    have l: "length (b64 [a, b]) = 4" by (simp add: enc4_def)
    have "slice input p 4 = map sym (take 3 (enc4 a b 0)) @ [61]" using "2.prems"(1) unfolding l by simp
    moreover have "p + 4 = n" using "2.prems"(2) unfolding l .
    ultimately show ?thesis
      using "2.prems"(3,4) fill_pad1 [of p n input inp] enc4_small [of _ a b 0] by (simp add: enc4_def)
  qed
  have room: "out + 3 < length buf" using "2.prems"(5) by simp
  have "base64_decode_loop input n p inp buf out
      = Inr (overwrite (overwrite buf out (ILibdecodeblock ?w)) (out + 2) [0], out + 2)"
    using decode_step [OF _ fill, of out buf] "2.prems"(2) room decode_done
    by (simp add: ILibdecodeblock_def)
  moreover have "take (out + 2 + 1) (overwrite (overwrite buf out (ILibdecodeblock ?w)) (out + 2) [0])
      = take out buf @ [a, b] @ [0]"
    using take_overwrite [of "out + 2" "[0]" "overwrite buf out (ILibdecodeblock ?w)" 1]
      take_overwrite [of out "ILibdecodeblock ?w" buf 2] room decodeblock_pad1 [of a b 0]
    by (simp add: ILibdecodeblock_def)
  ultimately show ?case using room by (simp add: ILibdecodeblock_def)
next
  case (3 a)
  let ?w = "take 2 (enc4 a 0 0) @ [0, inp ! 3]"
  have fill: "fill_group 4 input n p 0 inp = Some (n + 1, 2, ?w)"
  proof -
    have l: "length (b64 [a]) = 4" by (simp add: enc4_def)
    have "slice input p 4 = map sym (take 2 (enc4 a 0 0)) @ [61, 61]" using "3.prems"(1) unfolding l by simp
    moreover have "p + 4 = n" using "3.prems"(2) unfolding l .
    ultimately show ?thesis
      using "3.prems"(3,4) fill_pad2 [of p n input inp] enc4_small [of _ a 0 0] by (simp add: enc4_def)
  qed
  have room: "out + 3 < length buf" using "3.prems"(5) by simp
  have "base64_decode_loop input n p inp buf out
      = Inr (overwrite (overwrite buf out (ILibdecodeblock ?w)) (out + 1) [0], out + 1)"
    using decode_step [OF _ fill, of out buf] "3.prems"(2) room decode_done
    by (simp add: ILibdecodeblock_def)
  moreover have "take (out + 1 + 1) (overwrite (overwrite buf out (ILibdecodeblock ?w)) (out + 1) [0])
      = take out buf @ [a] @ [0]"
    using take_overwrite [of "out + 1" "[0]" "overwrite buf out (ILibdecodeblock ?w)" 1]
      take_overwrite [of out "ILibdecodeblock ?w" buf 1] room decodeblock_pad2 [of a 0 "inp ! 3"]
    by (simp add: ILibdecodeblock_def)
  ultimately show ?case using room by (simp add: ILibdecodeblock_def)
next
  case 4
  have "base64_decode_loop input n p inp buf out = base64_decode_loop input n (n + 1) (inp[0 := 0]) buf out"
    using 4 fill_end [of n input inp] by (subst base64_decode_loop.simps) simp
  then show ?case
    using 4 decode_done [of n "n + 1" out buf] take_overwrite [of out "[0]" buf 1] by simp
qed

lemma encode_fits: "length (b64 bs) < (length bs * 4) div 3 + 5"
  unfolding length_b64 by presburger

lemma decode_fits: "3 * ((length bs + 2) div 3) < (length (b64 bs) * 3) div 4 + 4"
  by (simp add: length_b64)

text \<open>
  \<open>ILibBase64Encode\<close> writes the Base64 text \<open>b64 input\<close> (groups of three bytes as
  four symbols, padded with \<open>=\<close> and zero bits) and a terminator into the block it allocates,
  returns its length, which is a multiple of four, and never writes outside the block; the
  same into a caller's buffer of \<open>ILibBase64EncodeLength\<close> bytes.
\<close>

theorem base64_encode_correct:
  assumes "inputlen \<le> length input" "0 < inputlen" "inputlen * 4 \<le> INT32_MAX"
    and "output = None \<or> (\<exists>b. output = Some b \<and> ILibBase64EncodeLength inputlen \<le> length b)"
  shows "\<exists>buf. ILibBase64Encode m0 (Some input) inputlen output
      = Inr (Some buf, length (b64 (take inputlen input)))
    \<and> take (length (b64 (take inputlen input)) + 1) buf = b64 (take inputlen input) @ [0]
    \<and> length (b64 (take inputlen input)) = 4 * ((inputlen + 2) div 3)"
proof -
  let ?b = "case output of Some b \<Rightarrow> b | None \<Rightarrow> fresh_block m0 ((inputlen * 4) div 3 + 5)"
  have s: "slice input 0 inputlen = take inputlen input" by (simp add: slice_def)
  have "inputlen * 4 < SIZE_MOD" using assms(3) by (simp add: INT32_MAX_def SIZE_MOD_def)
  moreover have "length (b64 (take inputlen input)) < inputlen * 4 div 3 + 5"
    using encode_fits [of "take inputlen input"] assms(1) by simp
  ultimately have "length (b64 (take inputlen input)) < length ?b"
    using assms(4) by (auto simp: ILibBase64EncodeLength_def)
  then show ?thesis
    using encode_loop_spec [OF assms(1), of 0 0 ?b] assms take_overwrite [of 0 "b64 (take inputlen input) @ [0]" ?b]
    by (simp add: ILibBase64Encode_def s length_b64 min_def)
qed

lemma base64_encode_correct_witness:
  "\<exists>buf. ILibBase64Encode (\<lambda>_. 0) (Some (str ''abc'')) 2 None = Inr (Some buf, length (b64 (take 2 (str ''abc''))))
    \<and> take (length (b64 (take 2 (str ''abc''))) + 1) buf = b64 (take 2 (str ''abc'')) @ [0]
    \<and> length (b64 (take 2 (str ''abc''))) = 4 * ((2 + 2) div 3)"
  by (rule base64_encode_correct) (simp_all add: INT32_MAX_def)

text \<open>
  Decoding what \<open>ILibBase64Encode\<close> produced (with its terminator, which the
  decoder reads) returns exactly the bytes that were encoded, for every input, and never writes
  outside the block \<open>ILibBase64Decode\<close> allocates nor a buffer of \<open>ILibBase64DecodeLength\<close> bytes.
\<close>

theorem base64_roundtrip:
  assumes "0 < length bs" "length bs * 12 \<le> INT32_MAX"
  shows "\<exists>enc out. ILibBase64Encode m0 (Some bs) (length bs) None = Inr (Some enc, out)
    \<and> (\<forall>output. output = None \<or> (\<exists>b. output = Some b \<and> ILibBase64DecodeLength out \<le> length b) \<longrightarrow>
        (\<exists>dec. ILibBase64Decode m1 (Some enc) out output = Inr (Some dec, length bs)
           \<and> take (length bs + 1) dec = bs @ [0]))"
proof -
  let ?e = "b64 bs"
  let ?b = "fresh_block m0 ((length bs * 4) div 3 + 5)"
  let ?enc = "overwrite ?b 0 (?e @ [0])"
  have "length ?e < length ?b" using encode_fits [of bs] by simp
  then have enc: "ILibBase64Encode m0 (Some bs) (length bs) None = Inr (Some ?enc, length ?e)"
    using assms encode_loop_spec [of "length bs" bs 0 0 ?b] by (simp add: ILibBase64Encode_def)
  have long: "length ?e * 3 \<le> INT32_MAX"
  proof -
    have "length ?e * 3 = 12 * ((length bs + 2) div 3)" by (simp add: length_b64)
    also have "\<dots> \<le> 12 * length bs" using assms(1) by auto
    finally show ?thesis using assms(2) by simp
  qed
  have lenc: "length ?e < length ?enc" using encode_fits [of bs] by simp
  have "take (length ?e + 1) ?enc = ?e @ [0]"
    using take_overwrite [of 0 "?e @ [0]" ?b "length ?e + 1"] encode_fits [of bs] by simp
  then have s: "slice ?enc 0 (length ?e) = ?e"
    by (simp add: slice_def) (metis append_take_drop_id butlast_snoc butlast_take diff_Suc_1 lenc Suc_leI)
  have "\<exists>dec. ILibBase64Decode m1 (Some ?enc) (length ?e) output = Inr (Some dec, length bs)
      \<and> take (length bs + 1) dec = bs @ [0]"
    if o: "output = None \<or> (\<exists>b. output = Some b \<and> ILibBase64DecodeLength (length ?e) \<le> length b)"
    for "output"
  proof -
    let ?o = "case output of Some b \<Rightarrow> b | None \<Rightarrow> fresh_block m1 ((length ?e * 3) div 4 + 4)"
    have "length ?e * 3 < SIZE_MOD" using long by (simp add: INT32_MAX_def SIZE_MOD_def)
    moreover have "0 < (length bs + 2) div 3" using assms(1) by (cases bs) auto
    ultimately have "3 * ((length bs + 2) div 3) < length ?o" "?e \<noteq> []"
      using o decode_fits [of bs] length_b64 [of bs] by (auto simp: ILibBase64DecodeLength_def)
    then show ?thesis
      using decode_loop_b64 [OF s, of "length ?e" "[0, 0, 0, 0]" 0 ?o] lenc long o assms(1)
      by (auto simp: ILibBase64Decode_def)
  qed
  with enc show ?thesis by blast
qed

lemma base64_roundtrip_witness:
  "\<exists>enc out. ILibBase64Encode (\<lambda>_. 0) (Some (str ''hi'')) (length (str ''hi'')) None = Inr (Some enc, out)
    \<and> (\<forall>output. output = None \<or> (\<exists>b. output = Some b \<and> ILibBase64DecodeLength out \<le> length b) \<longrightarrow>
        (\<exists>dec. ILibBase64Decode (\<lambda>_. 0) (Some enc) out output = Inr (Some dec, length (str ''hi''))
           \<and> take (length (str ''hi'') + 1) dec = str ''hi'' @ [0]))"
  by (rule base64_roundtrip) (simp_all add: INT32_MAX_def)

end
