(* ===== verification/Escapes.thy ===== *)
theory Escapes
  imports StringBuffers
begin

text \<open>
  XML and HTTP escaping of microstack/ILibParsers.c: \<open>ILibXmlEscapeLengthEx\<close>, \<open>ILibXmlEscapeEx\<close>,
  \<open>ILibInPlaceXmlUnEscapeEx\<close>, \<open>ILibHTTPEscapeLengthEx\<close>, \<open>ILibHTTPEscapeEx\<close> and
  \<open>ILibInPlaceHTTPUnEscapeEx\<close>.

  The unescaping functions work in place: the memory is one list, the pointers \<open>i\<close> (or
  \<open>dst_x\<close>) and \<open>j\<close> (or \<open>src_x\<close>) are offsets into it.  The \<open>int\<close> counters are natural numbers: they
  count bytes of a buffer, and the casts \<open>(int)dataLen\<close> are written out.
\<close>

definition put_bytes' :: "byte list \<Rightarrow> nat \<Rightarrow> byte list \<Rightarrow> failure + byte list" where
  "put_bytes' buf off bs = ILibMemory_Copy_s buf off (length bs) bs (length bs)"

section \<open>XML\<close>

definition xml_escape_char :: "byte \<Rightarrow> byte list" where
  "xml_escape_char c =
     (if c = 34 then str ''&quot;''
      else if c = 39 then str ''&apos;''
      else if c = 60 then str ''&lt;''
      else if c = 62 then str ''&gt;''
      else if c = 38 then str ''&amp;''
      else [c])"

function xml_escape_length_loop :: "byte list \<Rightarrow> nat \<Rightarrow> nat \<Rightarrow> nat \<Rightarrow> nat option" where
  "xml_escape_length_loop data dataLen i j =
     (case rd data i of None \<Rightarrow> None
      | Some c \<Rightarrow>
          if c \<noteq> 0 \<and> int i < to_int32 dataLen
          then xml_escape_length_loop data dataLen (i + 1)
                 (j + (if c = 34 then 6 else if c = 39 then 6 else if c = 60 then 4
                       else if c = 62 then 4 else if c = 38 then 5 else 1))
          else Some j)"
  by pat_completeness auto
termination
  by (relation "measure (\<lambda>(data, dataLen, i, j). length data - i)") (auto simp: rd_eq_Some)

definition ILibXmlEscapeLengthEx :: "byte list \<Rightarrow> nat \<Rightarrow> nat option" where
  "ILibXmlEscapeLengthEx data dataLen = xml_escape_length_loop data dataLen 0 0"

function xml_escape_loop :: "byte list \<Rightarrow> nat \<Rightarrow> byte list \<Rightarrow> nat \<Rightarrow> nat \<Rightarrow> failure + (byte list \<times> nat)" where
  "xml_escape_loop indata indataLen outdata out i =
     (if int i < to_int32 indataLen
      then case rd indata i of None \<Rightarrow> Inl UB
           | Some c \<Rightarrow>
               (case put_bytes' outdata out (xml_escape_char c) of Inl e \<Rightarrow> Inl e
                | Inr outdata \<Rightarrow>
                    xml_escape_loop indata indataLen outdata (out + length (xml_escape_char c)) (i + 1))
      else and_then (store outdata out 0) (\<lambda>outdata. Inr (outdata, out)))"
  by pat_completeness auto
termination
  by (relation "measure (\<lambda>(indata, indataLen, outdata, out, i). length indata - i)") (auto simp: rd_eq_Some)

definition ILibXmlEscapeEx :: "byte list \<Rightarrow> byte list \<Rightarrow> nat \<Rightarrow> failure + (byte list \<times> nat)" where
  "ILibXmlEscapeEx outdata indata indataLen = xml_escape_loop indata indataLen outdata 0 0"

text \<open>The entity at \<open>j\<close>: the character it stands for and its length, in the order of the code.\<close>

definition xml_entity_at :: "byte list \<Rightarrow> nat \<Rightarrow> (byte \<times> nat) option" where
  "xml_entity_at mem j = do {
     q \<leftarrow> delim_match mem j (str ''&quot;'');
     if q then Some (34, 6) else do {
     a \<leftarrow> delim_match mem j (str ''&apos;'');
     if a then Some (39, 6) else do {
     m \<leftarrow> delim_match mem j (str ''&amp;'');
     if m then Some (38, 5) else do {
     l \<leftarrow> delim_match mem j (str ''&lt;'');
     if l then Some (60, 4) else do {
     g \<leftarrow> delim_match mem j (str ''&gt;'');
     if g then Some (62, 4) else do {
     c \<leftarrow> rd mem j;
     Some (c, 1) } } } } } }"

lemma delim_match_pos: "delim_match mem j d = Some True \<Longrightarrow> d \<noteq> [] \<Longrightarrow> j < length mem"
  by (cases d) (auto simp: rd_eq_Some split: bind_splits)

lemma xml_entity_at_pos: "xml_entity_at mem j = Some (c, k) \<Longrightarrow> j < length mem \<and> 0 < k"
  by (auto simp: xml_entity_at_def rd_eq_Some dest!: delim_match_pos split: bind_splits if_splits)

function xml_unescape_loop :: "nat \<Rightarrow> byte list \<Rightarrow> nat \<Rightarrow> nat \<Rightarrow> failure + (byte list \<times> nat)" where
  "xml_unescape_loop stop mem i j =
     (if j < stop
      then case xml_entity_at mem j of None \<Rightarrow> Inl UB
           | Some (c, k) \<Rightarrow> xml_unescape_loop stop (mem[i := c]) (i + 1) (j + k)
      else and_then (store mem i 0) (\<lambda>mem. Inr (mem, i)))"
  by pat_completeness auto
termination
  by (relation "measure (\<lambda>(stop, mem, i, j). stop - j)")
     (auto dest!: xml_entity_at_pos intro!: diff_less_mono2)

definition ILibInPlaceXmlUnEscapeEx :: "byte list \<Rightarrow> nat \<Rightarrow> failure + (byte list \<times> nat)" where
  "ILibInPlaceXmlUnEscapeEx data dataLen = xml_unescape_loop dataLen data 0 0"

section \<open>HTTP\<close>

definition http_plain :: "byte \<Rightarrow> bool" where
  "http_plain c \<longleftrightarrow>
     (63 \<le> c \<and> c \<le> 90) \<or> (97 \<le> c \<and> c \<le> 122) \<or> (47 \<le> c \<and> c \<le> 57)
     \<or> c = 59 \<or> c = 47 \<or> c = 63 \<or> c = 58 \<or> c = 64 \<or> c = 61
     \<or> c = 43 \<or> c = 36 \<or> c = 45 \<or> c = 95 \<or> c = 46 \<or> c = 42"

text \<open>\<open>sprintf\<close> of \<open>%02X\<close>.\<close>

definition hex_digit :: "nat \<Rightarrow> byte" where
  "hex_digit d = (if d < 10 then 48 + of_nat d else 55 + of_nat d)"

definition hex2 :: "byte \<Rightarrow> byte list" where
  "hex2 c = [hex_digit (unat c div 16), hex_digit (unat c mod 16)]"

function http_escape_loop :: "byte list \<Rightarrow> nat \<Rightarrow> byte list \<Rightarrow> nat \<Rightarrow> nat \<Rightarrow> failure + (byte list \<times> nat)" where
  "http_escape_loop data dataLen outdata i x =
     (case rd data x of None \<Rightarrow> Inl UB
      | Some c \<Rightarrow>
          if c \<noteq> 0 \<and> int x < to_int32 dataLen
          then if http_plain c
               then (case store outdata i c of Inl e \<Rightarrow> Inl e
                     | Inr outdata \<Rightarrow> http_escape_loop data dataLen outdata (i + 1) (x + 1))
               else (case and_then (store outdata i 37) (\<lambda>o1.
                          and_then (store o1 (i + 1) (hex2 c ! 0)) (\<lambda>o2. store o2 (i + 2) (hex2 c ! 1)))
                     of Inl e \<Rightarrow> Inl e
                     | Inr outdata \<Rightarrow> http_escape_loop data dataLen outdata (i + 3) (x + 1))
          else and_then (store outdata i 0) (\<lambda>outdata. Inr (outdata, i + 1)))"
  by pat_completeness auto
termination
  by (relation "measure (\<lambda>(data, dataLen, outdata, i, x). length data - x)") (auto simp: rd_eq_Some)

definition ILibHTTPEscapeEx :: "byte list \<Rightarrow> byte list \<Rightarrow> nat \<Rightarrow> failure + (byte list \<times> nat)" where
  "ILibHTTPEscapeEx outdata data dataLen = http_escape_loop data dataLen outdata 0 0"

text \<open>The length loop compares the output position \<open>i\<close>, not \<open>x\<close>, with \<open>dataLen\<close>.\<close>

function http_escape_length_loop :: "byte list \<Rightarrow> nat \<Rightarrow> nat \<Rightarrow> nat \<Rightarrow> nat option" where
  "http_escape_length_loop data dataLen i x =
     (case rd data x of None \<Rightarrow> None
      | Some c \<Rightarrow>
          if c \<noteq> 0 \<and> int i < to_int32 dataLen
          then http_escape_length_loop data dataLen (if http_plain c then i + 1 else i + 3) (x + 1)
          else Some (i + 1))"
  by pat_completeness auto
termination
  by (relation "measure (\<lambda>(data, dataLen, i, x). length data - x)") (auto simp: rd_eq_Some)

definition ILibHTTPEscapeLengthEx :: "byte list \<Rightarrow> nat \<Rightarrow> nat option" where
  "ILibHTTPEscapeLengthEx data dataLen = http_escape_length_loop data dataLen 0 0"

text \<open>\<open>strtol(s, _, 16)\<close> of a short string (no overflow is possible).\<close>

definition hex_value :: "byte \<Rightarrow> int option" where
  "hex_value c =
     (if 48 \<le> c \<and> c \<le> 57 then Some (uint c - 48)
      else if 65 \<le> c \<and> c \<le> 70 then Some (uint c - 55)
      else if 97 \<le> c \<and> c \<le> 102 then Some (uint c - 87) else None)"

fun hex_digits :: "int \<Rightarrow> byte list \<Rightarrow> int" where
  "hex_digits v [] = v"
| "hex_digits v (c # cs) = (case hex_value c of None \<Rightarrow> v | Some d \<Rightarrow> hex_digits (16 * v + d) cs)"

fun hex_unprefix :: "byte list \<Rightarrow> byte list" where
  "hex_unprefix (a # b # c # s) =
     (if a = 48 \<and> (b = 120 \<or> b = 88) \<and> hex_value c \<noteq> None then c # s else a # b # c # s)"
| "hex_unprefix s = s"

definition strtol16 :: "byte list \<Rightarrow> int" where
  "strtol16 s =
     (case dropWhile is_space s of
        [] \<Rightarrow> 0
      | c # cs \<Rightarrow> if c = 45 then - hex_digits 0 (hex_unprefix cs)
                  else if c = 43 then hex_digits 0 (hex_unprefix cs)
                  else hex_digits 0 (hex_unprefix (c # cs)))"

function http_unescape_loop :: "nat \<Rightarrow> byte list \<Rightarrow> nat \<Rightarrow> nat \<Rightarrow> (byte list \<times> nat) option" where
  "http_unescape_loop len data src_x dst_x =
     (if src_x < len
      then case rd data src_x of None \<Rightarrow> None
           | Some c \<Rightarrow>
               if c = 37
               then (case (rd data (src_x + 1), rd data (src_x + 2)) of
                       (Some h0, Some h1) \<Rightarrow>
                         http_unescape_loop len (data[dst_x := word_of_int (strtol16 [h0, h1])])
                           (src_x + 3) (dst_x + 1)
                     | _ \<Rightarrow> None)
               else if src_x \<noteq> dst_x
               then http_unescape_loop len (data[dst_x := c]) (src_x + 1) (dst_x + 1)
               else http_unescape_loop len data (src_x + 1) (dst_x + 1)
      else Some (data, dst_x))"
  by pat_completeness auto
termination
  by (relation "measure (\<lambda>(len, data, src_x, dst_x). len - src_x)") auto

definition ILibInPlaceHTTPUnEscapeEx :: "byte list \<Rightarrow> nat \<Rightarrow> (byte list \<times> nat) option" where
  "ILibInPlaceHTTPUnEscapeEx data len = http_unescape_loop len data 0 0"

declare xml_escape_length_loop.simps [simp del] xml_escape_loop.simps [simp del]
  xml_unescape_loop.simps [simp del] http_escape_loop.simps [simp del]
  http_escape_length_loop.simps [simp del] http_unescape_loop.simps [simp del]


section \<open>Lemmas\<close>

lemma put_bytes'_in: "off + length bs \<le> length buf \<Longrightarrow> put_bytes' buf off bs = Inr (overwrite buf off bs)"
  by (simp add: put_bytes'_def copy_in)

definition xml_escaped :: "byte list \<Rightarrow> byte list" where
  "xml_escaped bs = concat (map xml_escape_char bs)"

lemma xml_escaped_simps [simp]:
  "xml_escaped [] = []" "xml_escaped (c # bs) = xml_escape_char c @ xml_escaped bs"
  by (simp_all add: xml_escaped_def)

lemma length_xml_escape_char:
  "length (xml_escape_char c) = (if c = 34 then 6 else if c = 39 then 6 else if c = 60 then 4
     else if c = 62 then 4 else if c = 38 then 5 else 1)"
  by (simp add: xml_escape_char_def)

lemma xml_escape_loop_spec:
  assumes "n \<le> INT32_MAX" "n \<le> length s" "i \<le> n" "out + length (xml_escaped (slice s i (n - i))) < length buf"
  shows "xml_escape_loop s n buf out i = Inr (overwrite buf out (xml_escaped (slice s i (n - i)) @ [0]),
     out + length (xml_escaped (slice s i (n - i))))"
  using assms(3,4)
proof (induction "n - i" arbitrary: i buf out)
  case 0
  then show ?case using to_int32_small [OF assms(1)]
    by (subst xml_escape_loop.simps) (simp add: store_in)
next
  case (Suc k)
  then have "i < n" by simp
  then have sl: "slice s i (n - i) = s ! i # slice s (i + 1) (n - (i + 1))"
    using assms(2) by (simp add: slice_step)
  let ?e = "xml_escape_char (s ! i)" and ?r = "xml_escaped (slice s (i + 1) (n - (i + 1)))"
  have room: "out + length ?e + length ?r < length buf" using Suc.prems(2) by (simp add: sl)
  have "xml_escape_loop s n buf out i = xml_escape_loop s n (overwrite buf out ?e) (out + length ?e) (i + 1)"
    using \<open>i < n\<close> assms(2) room to_int32_small [OF assms(1)]
    by (subst xml_escape_loop.simps) (simp add: put_bytes'_in)
  also have "\<dots> = Inr (overwrite (overwrite buf out ?e) (out + length ?e) (?r @ [0]), out + length ?e + length ?r)"
    using Suc.hyps(2) \<open>i < n\<close> room by (intro Suc.hyps(1)) auto
  also have "overwrite (overwrite buf out ?e) (out + length ?e) (?r @ [0]) = overwrite buf out (?e @ ?r @ [0])"
    using room by (subst overwrite_overwrite) auto
  finally show ?case by (simp add: sl)
qed

lemma xml_length_loop_spec:
  assumes "n \<le> INT32_MAX" "n < length s" "i \<le> n" "0 \<notin> set (slice s i (n - i))"
  shows "xml_escape_length_loop s n i j = Some (j + length (xml_escaped (slice s i (n - i))))"
  using assms(3,4)
proof (induction "n - i" arbitrary: i j)
  case 0
  then show ?case using to_int32_small [OF assms(1)] assms(2)
    by (subst xml_escape_length_loop.simps) simp
next
  case (Suc k)
  then have "i < n" by simp
  then have sl: "slice s i (n - i) = s ! i # slice s (i + 1) (n - (i + 1))"
    using assms(2) by (simp add: slice_step)
  have "xml_escape_length_loop s n i j = xml_escape_length_loop s n (i + 1) (j + length (xml_escape_char (s ! i)))"
    using \<open>i < n\<close> assms(2) to_int32_small [OF assms(1)] Suc.prems(2)
    by (subst xml_escape_length_loop.simps) (simp add: sl length_xml_escape_char)
  also have "\<dots> = Some (j + length (xml_escape_char (s ! i)) + length (xml_escaped (slice s (i + 1) (n - (i + 1)))))"
    using Suc.hyps(2) \<open>i < n\<close> Suc.prems(2) by (intro Suc.hyps(1)) (auto simp: sl)
  finally show ?case by (simp add: sl)
qed

lemma delim_match_drop: "delim_match mem (j + i) d = delim_match (drop j mem) i d"
proof (induction d arbitrary: i)
  case (Cons c d)
  from Cons [of "i + 1"] show ?case by (simp add: rd_drop add.assoc del: rd_Some rd_None cong: if_cong)
qed simp

text \<open>An entity is recognised where it stands, whatever follows it.\<close>

lemma xml_entity_at_drop: "xml_entity_at mem j = xml_entity_at (drop j mem) 0"
  using delim_match_drop [of mem j 0] rd_drop [of j mem 0]
  by (simp add: xml_entity_at_def del: rd_Some rd_None str_simps delim_match.simps
      cong: if_cong)

lemma xml_entity_at_escaped:
  assumes "drop j mem = xml_escape_char c @ s"
  shows "xml_entity_at mem j = Some (c, length (xml_escape_char c))"
proof -
  have "xml_entity_at (xml_escape_char c @ s) 0 = Some (c, length (xml_escape_char c))"
    by (simp add: xml_entity_at_def xml_escape_char_def)
  then show ?thesis by (subst xml_entity_at_drop) (simp add: assms)
qed

text \<open>The in-place loops: the bytes in front of \<open>i\<close> are the result so far, those from \<open>j\<close> on are unread.\<close>

lemma xml_unescape_loop_spec:
  assumes "drop j mem = xml_escaped bs @ 0 # r" "i \<le> j" "j + length (xml_escaped bs) = n"
  shows "\<exists>mem'. xml_unescape_loop n mem i j = Inr (mem', i + length bs) \<and> length mem' = length mem
    \<and> take (i + length bs + 1) mem' = take i mem @ bs @ [0]"
  using assms
proof (induction bs arbitrary: mem i j)
  case Nil
  then have "i < length mem" by (metis append_Nil drop_all leI le_trans list.distinct(1) xml_escaped_simps(1))
  then show ?case using Nil
    by (subst xml_unescape_loop.simps) (simp add: store_def take_Suc_conv_app_nth)
next
  case (Cons c bs)
  let ?k = "length (xml_escape_char c)"
  have k: "0 < ?k" by (simp add: length_xml_escape_char)
  have e: "xml_entity_at mem j = Some (c, ?k)" using Cons.prems(1) by (simp add: xml_entity_at_escaped)
  then have j: "j < length mem" using xml_entity_at_pos by blast
  have "drop (j + ?k) mem = xml_escaped bs @ 0 # r"
    using Cons.prems(1) by (metis add.commute append.assoc append_eq_conv_conj drop_drop xml_escaped_simps(2))
  moreover have "drop (j + ?k) (mem[i := c]) = drop (j + ?k) mem"
    using Cons.prems(2) k by (intro drop_update_cancel) (simp add: length_xml_escape_char)
  ultimately obtain mem' where m: "xml_unescape_loop n (mem[i := c]) (i + 1) (j + ?k) = Inr (mem', i + 1 + length bs)"
    "length mem' = length mem" "take (i + 1 + length bs + 1) mem' = take (i + 1) (mem[i := c]) @ bs @ [0]"
    using Cons.IH [of "j + ?k" "mem[i := c]" "i + 1"] Cons.prems(2,3) k by auto
  have "xml_unescape_loop n mem i j = xml_unescape_loop n (mem[i := c]) (i + 1) (j + ?k)"
  proof -
    have "j + (?k + length (xml_escaped bs)) = n" using Cons.prems(3) by simp
    with k have "j < n" by linarith
    with e show ?thesis by (subst xml_unescape_loop.simps) simp
  qed
  moreover have "take (i + 1) (mem[i := c]) = take i mem @ [c]"
    using j Cons.prems(2) by (simp add: take_Suc_conv_app_nth)
  ultimately show ?case using m by (intro exI [of _ mem']) simp
qed

lemma length_xml_escaped_ge: "length bs \<le> length (xml_escaped bs)"
  by (induction bs) (auto simp: length_xml_escape_char)

text \<open>
  \<open>ILibXmlEscapeEx\<close> writes the escaped text, in which no quote or angle bracket
  is left, with its terminator and returns its length, which on a text without NUL is what
  \<open>ILibXmlEscapeLengthEx\<close> announced; \<open>ILibInPlaceXmlUnEscapeEx\<close> turns it back into the text
  (NUL bytes included) in place.  A buffer one byte longer than the announced length suffices.
\<close>

theorem xml_escape_roundtrip:
  assumes "length s \<le> INT32_MAX" "length (xml_escaped s) < length buf"
  shows "\<exists>out. ILibXmlEscapeEx buf (s @ [0]) (length s) = Inr (out, length (xml_escaped s))
    \<and> take (length (xml_escaped s) + 1) out = xml_escaped s @ [0]
    \<and> (\<forall>c \<in> {34, 39, 60, 62}. c \<notin> set (xml_escaped s))
    \<and> (0 \<notin> set s \<longrightarrow> ILibXmlEscapeLengthEx (s @ [0]) (length s) = Some (length (xml_escaped s)))
    \<and> (\<exists>back. ILibInPlaceXmlUnEscapeEx out (length (xml_escaped s)) = Inr (back, length s)
         \<and> take (length s + 1) back = s @ [0])"
proof -
  let ?E = "xml_escaped s"
  let ?out = "overwrite buf 0 (?E @ [0])"
  have sl: "slice (s @ [0]) 0 (length s - 0) = s" by (simp add: slice_def)
  have esc: "ILibXmlEscapeEx buf (s @ [0]) (length s) = Inr (?out, length ?E)"
    using xml_escape_loop_spec [of "length s" "s @ [0]" 0 0 buf] assms sl by (simp add: ILibXmlEscapeEx_def)
  moreover have out: "?out = ?E @ 0 # drop (length ?E + 1) buf" by (simp add: overwrite_def)
  moreover have "\<forall>c \<in> {34, 39, 60, 62}. c \<notin> set ?E"
    by (auto simp: xml_escaped_def xml_escape_char_def split: if_splits)
  moreover have "ILibXmlEscapeLengthEx (s @ [0]) (length s) = Some (length ?E)" if "0 \<notin> set s"
    using xml_length_loop_spec [of "length s" "s @ [0]" 0 0] that assms sl by (simp add: ILibXmlEscapeLengthEx_def)
  moreover have "\<exists>back. ILibInPlaceXmlUnEscapeEx ?out (length ?E) = Inr (back, length s)
         \<and> take (length s + 1) back = s @ [0]"
    using xml_unescape_loop_spec [of 0 ?out s _ 0 "length ?E"] out by (auto simp: ILibInPlaceXmlUnEscapeEx_def)
  ultimately show ?thesis by simp
qed

lemma xml_escape_roundtrip_witness:
  "\<exists>out. ILibXmlEscapeEx (str ''...........'') (str ''a<b'' @ [0]) (length (str ''a<b'')) = Inr (out, length (xml_escaped (str ''a<b'')))
    \<and> take (length (xml_escaped (str ''a<b'')) + 1) out = xml_escaped (str ''a<b'') @ [0]
    \<and> (\<forall>c \<in> {34, 39, 60, 62}. c \<notin> set (xml_escaped (str ''a<b'')))
    \<and> (0 \<notin> set (str ''a<b'') \<longrightarrow>
        ILibXmlEscapeLengthEx (str ''a<b'' @ [0]) (length (str ''a<b'')) = Some (length (xml_escaped (str ''a<b''))))
    \<and> (\<exists>back. ILibInPlaceXmlUnEscapeEx out (length (xml_escaped (str ''a<b''))) = Inr (back, length (str ''a<b''))
         \<and> take (length (str ''a<b'') + 1) back = str ''a<b'' @ [0])"
  by (rule xml_escape_roundtrip) (simp_all add: INT32_MAX_def xml_escape_char_def)

section \<open>HTTP escaping\<close>

definition http_escape_char :: "byte \<Rightarrow> byte list" where
  "http_escape_char c = (if http_plain c then [c] else 37 # hex2 c)"

definition http_escaped :: "byte list \<Rightarrow> byte list" where
  "http_escaped bs = concat (map http_escape_char bs)"

lemma http_escaped_simps [simp]:
  "http_escaped [] = []" "http_escaped (c # bs) = http_escape_char c @ http_escaped bs"
  by (simp_all add: http_escaped_def)

lemma length_http_escape_char: "length (http_escape_char c) = (if http_plain c then 1 else 3)"
  by (simp add: http_escape_char_def hex2_def)

lemma hex_digit_table:
  "list_all (\<lambda>d. hex_value (hex_digit d) = Some (int d) \<and> \<not> is_space (hex_digit d)
     \<and> hex_digit d \<noteq> 45 \<and> hex_digit d \<noteq> 43) [0 ..< 16]"
  by (simp add: upt_rec [of _ "numeral _"] hex_digit_def hex_value_def is_space_def)

lemma hex_digit_facts:
  "d < 16 \<Longrightarrow> hex_value (hex_digit d) = Some (int d)"
  "d < 16 \<Longrightarrow> \<not> is_space (hex_digit d)"
  "d < 16 \<Longrightarrow> hex_digit d \<noteq> 45" "d < 16 \<Longrightarrow> hex_digit d \<noteq> 43"
  using hex_digit_table by (auto simp: list_all_iff)

lemma strtol16_hex2: "word_of_int (strtol16 (hex2 c)) = (c :: byte)"
proof -
  have "unat c < 256" by (rule unat_byte)
  then have d: "unat c div 16 < 16" "unat c mod 16 < 16" by auto
  have "strtol16 (hex2 c) = 16 * int (unat c div 16) + int (unat c mod 16)"
    using hex_digit_facts [OF d(1)] hex_digit_facts(1) [OF d(2)] by (simp add: strtol16_def hex2_def)
  also have "\<dots> = int (unat c)" by (metis div_mult_mod_eq mult.commute of_nat_add of_nat_mult of_nat_numeral)
  finally show ?thesis by simp
qed

lemma http_escape_loop_spec:
  assumes "n \<le> INT32_MAX" "n < length s" "x \<le> n" "0 \<notin> set (slice s x (n - x))"
    "i + length (http_escaped (slice s x (n - x))) < length buf"
  shows "http_escape_loop s n buf i x = Inr (overwrite buf i (http_escaped (slice s x (n - x)) @ [0]),
     i + length (http_escaped (slice s x (n - x))) + 1)"
  using assms(3-)
proof (induction "n - x" arbitrary: x buf i)
  case 0
  then show ?case using to_int32_small [OF assms(1)] assms(2)
    by (subst http_escape_loop.simps) (simp add: store_in)
next
  case (Suc k)
  then have "x < n" by simp
  then have sl: "slice s x (n - x) = s ! x # slice s (x + 1) (n - (x + 1))"
    using assms(2) by (simp add: slice_step)
  let ?e = "http_escape_char (s ! x)" and ?r = "http_escaped (slice s (x + 1) (n - (x + 1)))"
  have room: "i + length ?e + length ?r < length buf" using Suc.prems(3) by (simp add: sl)
  have three: "and_then (store buf i a) (\<lambda>o1. and_then (store o1 (i + 1) b) (\<lambda>o2. store o2 (i + 2) c))
      = Inr (overwrite buf i [a, b, c])" if "i + 3 \<le> length buf" for a b c
    using that overwrite_overwrite [of i "[a]" buf "[b]"] overwrite_overwrite [of i "[a, b]" buf "[c]"]
    by (simp add: store_in)
  have "http_escape_loop s n buf i x = http_escape_loop s n (overwrite buf i ?e) (i + length ?e) (x + 1)"
    using \<open>x < n\<close> assms(2) room to_int32_small [OF assms(1)] Suc.prems(2) three
    by (subst http_escape_loop.simps) (simp add: sl http_escape_char_def store_in hex2_def numeral_3_eq_3 split: if_splits)
  also have "\<dots> = Inr (overwrite (overwrite buf i ?e) (i + length ?e) (?r @ [0]), i + length ?e + length ?r + 1)"
    using Suc.hyps(2) \<open>x < n\<close> room Suc.prems(2) by (intro Suc.hyps(1)) (auto simp: sl)
  also have "overwrite (overwrite buf i ?e) (i + length ?e) (?r @ [0]) = overwrite buf i (?e @ ?r @ [0])"
    using room by (subst overwrite_overwrite) auto
  finally show ?case by (simp add: sl)
qed

lemma http_unescape_loop_spec:
  assumes "drop j mem = http_escaped bs @ r" "i \<le> j" "j + length (http_escaped bs) = n"
  shows "\<exists>mem'. http_unescape_loop n mem j i = Some (mem', i + length bs) \<and> length mem' = length mem
    \<and> take (i + length bs) mem' = take i mem @ bs"
  using assms
proof (induction bs arbitrary: mem i j)
  case Nil
  then show ?case by (subst http_unescape_loop.simps) simp
next
  case (Cons c bs)
  let ?k = "length (http_escape_char c)"
  have k: "0 < ?k" by (simp add: length_http_escape_char)
  have jn: "j < n" using Cons.prems(3) k by (simp add: length_http_escape_char split: if_splits)
  have d: "drop j mem = http_escape_char c @ http_escaped bs @ r" using Cons.prems(1) by simp
  have j: "j + ?k \<le> length mem" using arg_cong [OF d, of length] length_http_escape_char [of c] by (simp split: if_splits)
  have nth: "mem ! (j + m) = http_escape_char c ! m" if "m < ?k" for m
    using d that j by (metis add_leD1 nth_append nth_drop)
  have "drop (j + ?k) mem = http_escaped bs @ r"
    using d by (metis add.commute append_eq_conv_conj drop_drop)
  moreover have "drop (j + ?k) (mem[i := c]) = drop (j + ?k) mem"
    using Cons.prems(2) by (intro drop_update_cancel) (simp add: length_http_escape_char)
  ultimately obtain mem' where m: "http_unescape_loop n (mem[i := c]) (j + ?k) (i + 1) = Some (mem', i + 1 + length bs)"
    "length mem' = length mem" "take (i + 1 + length bs) mem' = take (i + 1) (mem[i := c]) @ bs"
    using Cons.IH [of "j + ?k" "mem[i := c]" "i + 1"] Cons.prems(2,3) k by auto
  have "http_unescape_loop n mem j i = http_unescape_loop n (mem[i := c]) (j + ?k) (i + 1)"
  proof (cases "http_plain c")
    case True
    then have "c \<noteq> 37" "?k = 1" "mem ! j = c" using nth [of 0] by (auto simp: http_plain_def http_escape_char_def)
    moreover have "mem[i := c] = mem" if "i = j" using that \<open>mem ! j = c\<close> by auto
    ultimately show ?thesis using jn j by (subst http_unescape_loop.simps) auto
  next
    case False
    then have "?k = 3" "mem ! j = 37" "mem ! (j + 1) = hex2 c ! 0" "mem ! (j + 2) = hex2 c ! 1"
      using nth [of 0] nth [of 1] nth [of 2] by (auto simp: http_escape_char_def hex2_def)
    moreover have "[hex2 c ! 0, hex2 c ! 1] = hex2 c" by (simp add: hex2_def)
    ultimately show ?thesis using jn j strtol16_hex2 [of c] by (subst http_unescape_loop.simps) simp
  qed
  moreover have "take (i + 1) (mem[i := c]) = take i mem @ [c]"
  proof -
    have "0 < ?k" by (rule k)
    with j Cons.prems(2) have "i < length mem" by linarith
    then show ?thesis by (simp add: take_Suc_conv_app_nth)
  qed
  ultimately show ?case using m by (intro exI [of _ mem']) simp
qed

text \<open>
  \<open>ILibHTTPEscapeEx\<close> writes the percent-encoded text, made of the characters it
  passes and of \<open>%\<close> and hexadecimal digits only, with its terminator, and returns the number of bytes written;
  \<open>ILibInPlaceHTTPUnEscapeEx\<close> of that text restores the original bytes in place, for every text
  without NUL.
\<close>

theorem http_escape_roundtrip:
  assumes "length s \<le> INT32_MAX" "0 \<notin> set s" "length (http_escaped s) < length buf"
  shows "\<exists>out. ILibHTTPEscapeEx buf (s @ [0]) (length s) = Inr (out, length (http_escaped s) + 1)
    \<and> take (length (http_escaped s) + 1) out = http_escaped s @ [0]
    \<and> (\<forall>c \<in> set (http_escaped s). http_plain c \<or> c = 37)
    \<and> (\<exists>back. ILibInPlaceHTTPUnEscapeEx out (length (http_escaped s)) = Some (back, length s)
         \<and> take (length s) back = s)"
proof -
  let ?E = "http_escaped s"
  let ?out = "overwrite buf 0 (?E @ [0])"
  have sl: "slice (s @ [0]) 0 (length s - 0) = s" by (simp add: slice_def)
  have esc: "ILibHTTPEscapeEx buf (s @ [0]) (length s) = Inr (?out, length ?E + 1)"
    using http_escape_loop_spec [of "length s" "s @ [0]" 0 0 buf] assms sl by (simp add: ILibHTTPEscapeEx_def)
  moreover have out: "?out = ?E @ 0 # drop (length ?E + 1) buf" by (simp add: overwrite_def)
  moreover have "http_plain c \<or> c = 37" if "c \<in> set ?E" for c
  proof -
    have plain: "http_plain (hex_digit d)" if "d < 16" for d
    proof -
      have "list_all (\<lambda>d. http_plain (hex_digit d)) [0 ..< 16]"
        by (simp add: upt_rec [of _ "numeral _"] hex_digit_def http_plain_def)
      with that show ?thesis by (simp add: list_all_iff)
    qed
    have "unat b div 16 < 16" for b :: byte using unat_byte [of b] by simp
    with that plain show ?thesis
      by (auto simp: http_escaped_def http_escape_char_def hex2_def split: if_splits)
  qed
  moreover have "\<exists>back. ILibInPlaceHTTPUnEscapeEx ?out (length ?E) = Some (back, length s) \<and> take (length s) back = s"
    using http_unescape_loop_spec [of 0 ?out s _ 0 "length ?E"] out by (auto simp: ILibInPlaceHTTPUnEscapeEx_def)
  ultimately show ?thesis by simp
qed

lemma http_escape_roundtrip_witness:
  "\<exists>out. ILibHTTPEscapeEx (str ''.........'') (str ''a b'' @ [0]) (length (str ''a b'')) = Inr (out, length (http_escaped (str ''a b'')) + 1)
    \<and> take (length (http_escaped (str ''a b'')) + 1) out = http_escaped (str ''a b'') @ [0]
    \<and> (\<forall>c \<in> set (http_escaped (str ''a b'')). http_plain c \<or> c = 37)
    \<and> (\<exists>back. ILibInPlaceHTTPUnEscapeEx out (length (http_escaped (str ''a b''))) = Some (back, length (str ''a b''))
         \<and> take (length (str ''a b'')) back = str ''a b'')"
  by (rule http_escape_roundtrip) (simp_all add: INT32_MAX_def http_escape_char_def http_plain_def hex2_def)

text \<open>
  \<open>ILibHTTPEscapeLengthEx\<close> can announce less than \<open>ILibHTTPEscapeEx\<close> writes, because its
  loop compares the output position with the input length.  Three blanks need ten bytes; it
  returns four, and the escape of them runs out of a buffer of that size.
\<close>

theorem http_escape_length_too_small:
  "ILibHTTPEscapeLengthEx (str ''   '' @ [0]) 3 = Some 4
   \<and> ILibHTTPEscapeEx [0, 0, 0, 0] (str ''   '' @ [0]) 3 = Inl UB
   \<and> length (http_escaped (str ''   '')) + 1 = 10"
  by (simp add: ILibHTTPEscapeLengthEx_def ILibHTTPEscapeEx_def http_escape_length_loop.simps
      http_escape_loop.simps http_plain_def http_escape_char_def hex2_def to_int32_def store_def)

end
