(* ===== verification/Dictionary.thy ===== *)
theory Dictionary
  imports Prelude
begin

text \<open>
  The contract of the three lookup structures of microstack/ILibParsers.c (the HashTree, the
  Hashtable and the SparseArray): a partial map from normalised keys to values, with
  operations that may fail (\<open>None\<close>) only outside the valid keys and states.
\<close>

section \<open>Association lists\<close>

lemma map_of_update_nth:
  "distinct (map f ns) \<Longrightarrow> j < length ns \<Longrightarrow> f n' = f (ns ! j) \<Longrightarrow>
   map_of (map (\<lambda>n. (f n, g n)) (ns[j := n'])) = (map_of (map (\<lambda>n. (f n, g n)) ns))(f n' \<mapsto> g n')"
proof (induction ns arbitrary: j)
  case (Cons n ns)
  show ?case
  proof (cases j)
    case (Suc i)
    with Cons.prems have "f n \<noteq> f n'" by auto
    with Cons Suc show ?thesis by (auto simp: fun_eq_iff)
  qed (use Cons in \<open>auto simp: fun_eq_iff\<close>)
qed simp

lemma map_of_remove_nth:
  "distinct (map f ns) \<Longrightarrow> j < length ns \<Longrightarrow>
   map_of (map (\<lambda>n. (f n, g n)) (take j ns @ drop (j + 1) ns))
     = (map_of (map (\<lambda>n. (f n, g n)) ns))(f (ns ! j) := None)"
proof (induction ns arbitrary: j)
  case (Cons n ns)
  show ?case
  proof (cases j)
    case 0
    have "map_of (map (\<lambda>n. (f n, g n)) ns) (f n) = None"
      using Cons.prems(1) by (simp add: map_of_eq_None_iff image_image)
    with 0 show ?thesis by (auto simp: fun_eq_iff)
  next
    case (Suc i)
    with Cons.prems have "f n \<noteq> f (ns ! i)" by auto
    with Cons Suc show ?thesis by (auto simp: fun_eq_iff)
  qed
qed simp

lemma map_update_same: "j < length ns \<Longrightarrow> f n' = f (ns ! j) \<Longrightarrow> map f (ns[j := n']) = map f ns"
  by (simp add: map_update list_update_same_conv)

section \<open>The interface\<close>

text \<open>
  A sequence of stores and deletions (\<open>Inl\<close> a pair to store, \<open>Inr\<close> a key to delete): run by the
  operations of a structure, and on a map.
\<close>

fun run_ops :: "('k \<Rightarrow> 'v \<Rightarrow> 's \<Rightarrow> 's option) \<Rightarrow> ('k \<Rightarrow> 's \<Rightarrow> 's option)
    \<Rightarrow> ('k \<times> 'v + 'k) list \<Rightarrow> 's \<Rightarrow> 's option" where
  "run_ops put del [] s = Some s"
| "run_ops put del (Inl (k, v) # cs) s = do { s' \<leftarrow> put k v s; run_ops put del cs s' }"
| "run_ops put del (Inr k # cs) s = do { s' \<leftarrow> del k s; run_ops put del cs s' }"

fun run_map :: "('k \<Rightarrow> 'n) \<Rightarrow> ('k \<times> 'v + 'k) list \<Rightarrow> ('n \<Rightarrow> 'v option) \<Rightarrow> ('n \<Rightarrow> 'v option)" where
  "run_map norm [] m = m"
| "run_map norm (Inl (k, v) # cs) m = run_map norm cs (m(norm k \<mapsto> v))"
| "run_map norm (Inr k # cs) m = run_map norm cs (m(norm k := None))"

locale dictionary =
  fixes invar :: "'s \<Rightarrow> bool" and absm :: "'s \<Rightarrow> 'n \<Rightarrow> 'v option"
    and valid :: "'k \<Rightarrow> bool" and okv :: "'v \<Rightarrow> bool" and norm :: "'k \<Rightarrow> 'n"
    and put :: "'k \<Rightarrow> 'v \<Rightarrow> 's \<Rightarrow> 's option" and del :: "'k \<Rightarrow> 's \<Rightarrow> 's option"
    and get :: "'k \<Rightarrow> 's \<Rightarrow> 'v option option"
  assumes put_spec: "invar s \<Longrightarrow> valid k \<Longrightarrow> okv v \<Longrightarrow>
      \<exists>s'. put k v s = Some s' \<and> invar s' \<and> absm s' = (absm s)(norm k \<mapsto> v)"
    and del_spec: "invar s \<Longrightarrow> valid k \<Longrightarrow>
      \<exists>s'. del k s = Some s' \<and> invar s' \<and> absm s' = (absm s)(norm k := None)"
    and get_spec: "invar s \<Longrightarrow> valid k \<Longrightarrow> get k s = Some (absm s (norm k))"
begin

lemma get_put:
  assumes "invar s" "valid k" "valid k'" "okv v"
  shows "\<exists>s'. put k v s = Some s' \<and> invar s'
    \<and> get k' s' = (if norm k' = norm k then Some (Some v) else get k' s)"
  using put_spec [OF assms(1,2,4)] get_spec assms by fastforce

lemma get_del:
  assumes "invar s" "valid k" "valid k'"
  shows "\<exists>s'. del k s = Some s' \<and> invar s'
    \<and> get k' s' = (if norm k' = norm k then Some None else get k' s)"
  using del_spec [OF assms(1,2)] get_spec assms by fastforce

lemma run_correct:
  "invar s \<Longrightarrow> \<forall>c \<in> set cs. case c of Inl (k, v) \<Rightarrow> valid k \<and> okv v | Inr k \<Rightarrow> valid k \<Longrightarrow>
   \<exists>s'. run_ops put del cs s = Some s' \<and> invar s' \<and> absm s' = run_map norm cs (absm s)"
proof (induction cs arbitrary: s)
  case (Cons c cs)
  show ?case
  proof (cases c)
    case (Inl kv)
    then show ?thesis using Cons put_spec [of s "fst kv" "snd kv"] by (cases kv) fastforce
  next
    case (Inr k)
    then show ?thesis using Cons del_spec [of s k] by fastforce
  qed
qed simp

end

end
