(* ===== verification/SparseArray.thy ===== *)
theory SparseArray
  imports LinkedList Dictionary
begin

text \<open>
  The SparseArray of microstack/ILibParsers.c: an array of buckets, each empty, holding one
  index/value pair directly, or holding a sorted linked list of pairs (its \<open>index\<close> is then -1
  and its \<open>ptr\<close> the list).  The lists are those of \<open>LinkedList\<close>, links and all; the pairs
  (\<open>ILibSparseArray_Node\<close>) they point to are the data of their nodes.

  A value is an address, 0 for \<open>NULL\<close>.  Using a value as a list, a list as a value, or a bucket
  outside the array is \<open>None\<close>.  The user memory behind the array is not modelled.
\<close>

section \<open>State\<close>

record 'p sa_node =
  index :: int
  ptr :: 'p

datatype sa_ptr = Value addr | ListP "addr sa_node ll_root"

definition is_NULL :: "sa_ptr \<Rightarrow> bool" where
  "is_NULL p = (case p of Value v \<Rightarrow> v = 0 | ListP _ \<Rightarrow> False)"

lemma is_NULL_simps [simp]: "is_NULL (Value v) \<longleftrightarrow> v = 0" "\<not> is_NULL (ListP L)"
  by (simp_all add: is_NULL_def)

record sa_root =
  bucketSize :: nat
  bucketizer :: "int \<Rightarrow> int"
  bucket :: "sa_ptr sa_node list"

text \<open>An address that no node of the list uses, in place of \<open>malloc\<close>.\<close>

definition fresh_node :: "'d ll_root \<Rightarrow> addr" where
  "fresh_node L = Suc (fold max (ll_addrs L) 0)"

definition empty_bucket :: "sa_ptr sa_node" where
  "empty_bucket = \<lparr>index = 0, ptr = Value 0\<rparr>"

definition ILibSparseArray_Create :: "nat \<Rightarrow> (int \<Rightarrow> int) \<Rightarrow> sa_root" where
  "ILibSparseArray_Create numberOfBuckets bz =
     \<lparr>bucketSize = numberOfBuckets, bucketizer = bz, bucket = replicate numberOfBuckets empty_bucket\<rparr>"

definition ILibSparseArray_CreateEx :: "sa_root \<Rightarrow> sa_root" where
  "ILibSparseArray_CreateEx source = ILibSparseArray_Create (bucketSize source) (bucketizer source)"

definition ILibSparseArray_Comparer :: "addr sa_node \<Rightarrow> addr sa_node \<Rightarrow> int" where
  "ILibSparseArray_Comparer obj1 obj2 =
     (if index obj1 = index obj2 then 0 else if index obj1 < index obj2 then -1 else 1)"

section \<open>Operations\<close>

definition bucket_no :: "sa_root \<Rightarrow> int \<Rightarrow> nat option" where
  "bucket_no root i =
     (if 0 \<le> bucketizer root i \<and> nat (bucketizer root i) < length (bucket root)
      then Some (nat (bucketizer root i)) else None)"

text \<open>The three cases of \<open>ILibSparseArray_Add\<close> on the bucket; the result is the bucket and \<open>retVal\<close>.\<close>

definition add_to_bucket :: "int \<Rightarrow> addr \<Rightarrow> sa_ptr sa_node \<Rightarrow> (sa_ptr sa_node \<times> sa_ptr) option" where
  "add_to_bucket i data b =
     (if index b = 0 \<and> is_NULL (ptr b) then Some (\<lparr>index = i, ptr = Value data\<rparr>, Value 0)
      else if index b < 0
      then (case ptr b of
              Value _ \<Rightarrow> None
            | ListP L \<Rightarrow> do {
                (L', old) \<leftarrow> ILibLinkedList_SortedInsert (fresh_node L) ILibSparseArray_Comparer
                               \<lparr>index = i, ptr = data\<rparr> L;
                Some (b\<lparr>ptr := ListP L'\<rparr>, case old of None \<Rightarrow> Value 0 | Some n \<Rightarrow> Value (ptr n)) })
      else if index b = i then Some (b\<lparr>ptr := Value data\<rparr>, ptr b)
      else (case ptr b of
              ListP _ \<Rightarrow> None
            | Value v \<Rightarrow>
                let L = ILibLinkedList_Create;
                    L = ILibLinkedList_AddHead (fresh_node L) \<lparr>index = index b, ptr = v\<rparr> L
                in do {
                  (L', _) \<leftarrow> ILibLinkedList_SortedInsert (fresh_node L) ILibSparseArray_Comparer
                               \<lparr>index = i, ptr = data\<rparr> L;
                  Some (\<lparr>index = -1, ptr = ListP L'\<rparr>, Value 0) }))"

definition ILibSparseArray_Add :: "int \<Rightarrow> addr \<Rightarrow> sa_root \<Rightarrow> (sa_root \<times> sa_ptr) option" where
  "ILibSparseArray_Add i data root = do {
     k \<leftarrow> bucket_no root i;
     (b, r) \<leftarrow> add_to_bucket i data (bucket root ! k);
     Some (root\<lparr>bucket := (bucket root)[k := b]\<rparr>, r) }"

definition get_from_bucket :: "int \<Rightarrow> bool \<Rightarrow> sa_ptr sa_node \<Rightarrow> (sa_ptr sa_node \<times> sa_ptr) option" where
  "get_from_bucket i remove b =
     (if index b = i then Some (if remove then empty_bucket else b, ptr b)
      else if index b < 0
      then (case ptr b of
              Value _ \<Rightarrow> None
            | ListP L \<Rightarrow> do {
                listNode \<leftarrow> ILibLinkedList_GetNode_Search (Some ILibSparseArray_Comparer)
                              \<lparr>index = i, ptr = 0\<rparr> L;
                let retVal = (case ILibLinkedList_GetDataFromNode listNode L of
                                None \<Rightarrow> Value 0 | Some n \<Rightarrow> Value (ptr n));
                if remove \<and> listNode \<noteq> None
                then (let L = fst (ILibLinkedList_Remove listNode L) in
                      if ILibLinkedList_GetCount L = 0
                      then do { _ \<leftarrow> ILibLinkedList_Destroy L; Some (empty_bucket, retVal) }
                      else Some (b\<lparr>ptr := ListP L\<rparr>, retVal))
                else Some (b, retVal) })
      else Some (b, Value 0))"

definition ILibSparseArray_GetEx :: "int \<Rightarrow> int \<Rightarrow> sa_root \<Rightarrow> (sa_root \<times> sa_ptr) option" where
  "ILibSparseArray_GetEx i remove root = do {
     k \<leftarrow> bucket_no root i;
     (b, r) \<leftarrow> get_from_bucket i (remove \<noteq> 0) (bucket root ! k);
     Some (root\<lparr>bucket := (bucket root)[k := b]\<rparr>, r) }"

definition ILibSparseArray_Get :: "int \<Rightarrow> sa_root \<Rightarrow> (sa_root \<times> sa_ptr) option" where
  "ILibSparseArray_Get i root = ILibSparseArray_GetEx i 0 root"

definition ILibSparseArray_Remove :: "int \<Rightarrow> sa_root \<Rightarrow> (sa_root \<times> sa_ptr) option" where
  "ILibSparseArray_Remove i root = ILibSparseArray_GetEx i 1 root"

text \<open>
  \<open>ILibSparseArray_ClearEx2\<close>: the callback is a function on the user state \<open>'u\<close>, \<open>None\<close> when it is
  \<open>NULL\<close>.  The loop over a list follows its links.
\<close>

partial_function (option) clear_list_loop ::
  "(int \<Rightarrow> addr \<Rightarrow> 'u \<Rightarrow> 'u) option \<Rightarrow> addr option \<Rightarrow> addr sa_node ll_root \<Rightarrow> 'u \<Rightarrow> 'u option" where
  "clear_list_loop onClear node L user =
     (case node of None \<Rightarrow> Some user
      | Some a \<Rightarrow> do {
          sn \<leftarrow> ILibLinkedList_GetDataFromNode (Some a) L;
          clear_list_loop onClear (ILibLinkedList_GetNextNode (Some a) L) L
            (case onClear of None \<Rightarrow> user | Some f \<Rightarrow> f (index sn) (ptr sn) user) })"

definition clear_bucket ::
  "(int \<Rightarrow> addr \<Rightarrow> 'u \<Rightarrow> 'u) option \<Rightarrow> bool \<Rightarrow> sa_ptr sa_node \<Rightarrow> 'u \<Rightarrow> (sa_ptr sa_node \<times> 'u) option" where
  "clear_bucket onClear delete b user =
     (if is_NULL (ptr b) then Some (b, user)
      else if index b < 0
      then (case ptr b of
              Value _ \<Rightarrow> None
            | ListP L \<Rightarrow> do {
                user \<leftarrow> clear_list_loop onClear (ILibLinkedList_GetNode_Head L) L user;
                if delete then do { _ \<leftarrow> ILibLinkedList_Destroy L; Some (empty_bucket, user) }
                else Some (b, user) })
      else (case ptr b of
              ListP _ \<Rightarrow> None
            | Value v \<Rightarrow> Some (if delete then empty_bucket else b,
                              case onClear of None \<Rightarrow> user | Some f \<Rightarrow> f (index b) v user)))"

fun clear_buckets ::
  "(int \<Rightarrow> addr \<Rightarrow> 'u \<Rightarrow> 'u) option \<Rightarrow> bool \<Rightarrow> sa_ptr sa_node list \<Rightarrow> 'u \<Rightarrow> (sa_ptr sa_node list \<times> 'u) option" where
  "clear_buckets onClear delete [] user = Some ([], user)"
| "clear_buckets onClear delete (b # bs) user = do {
     (b', user) \<leftarrow> clear_bucket onClear delete b user;
     (bs', user) \<leftarrow> clear_buckets onClear delete bs user;
     Some (b' # bs', user) }"

definition ILibSparseArray_ClearEx2 ::
  "(int \<Rightarrow> addr \<Rightarrow> 'u \<Rightarrow> 'u) option \<Rightarrow> int \<Rightarrow> 'u \<Rightarrow> sa_root \<Rightarrow> (sa_root \<times> 'u) option" where
  "ILibSparseArray_ClearEx2 onClear nonZeroWillDelete user root = do {
     (bs, user) \<leftarrow> clear_buckets onClear (nonZeroWillDelete \<noteq> 0) (bucket root) user;
     Some (root\<lparr>bucket := bs\<rparr>, user) }"

definition ILibSparseArray_ClearEx ::
  "(int \<Rightarrow> addr \<Rightarrow> 'u \<Rightarrow> 'u) option \<Rightarrow> 'u \<Rightarrow> sa_root \<Rightarrow> (sa_root \<times> 'u) option" where
  "ILibSparseArray_ClearEx onClear user root = ILibSparseArray_ClearEx2 onClear 1 user root"

definition ILibSparseArray_Enumerate ::
  "(int \<Rightarrow> addr \<Rightarrow> 'u \<Rightarrow> 'u) option \<Rightarrow> 'u \<Rightarrow> sa_root \<Rightarrow> (sa_root \<times> 'u) option" where
  "ILibSparseArray_Enumerate onEnumerate user root = ILibSparseArray_ClearEx2 onEnumerate 0 user root"

definition ILibSparseArray_Move_OnEnumerate :: "int \<Rightarrow> addr \<Rightarrow> sa_root option \<Rightarrow> sa_root option" where
  "ILibSparseArray_Move_OnEnumerate i v user = do { u \<leftarrow> user; map_option fst (ILibSparseArray_Add i v u) }"

definition ILibSparseArray_Move :: "sa_root \<Rightarrow> sa_root option" where
  "ILibSparseArray_Move sarray =
     (case ILibSparseArray_Enumerate (Some ILibSparseArray_Move_OnEnumerate)
             (Some (ILibSparseArray_CreateEx sarray)) sarray of
        None \<Rightarrow> None | Some (_, u) \<Rightarrow> u)"

text \<open>\<open>ILibSparseArray_DestroyEx\<close> clears, then frees the array: what is left is the user state.\<close>

definition ILibSparseArray_DestroyEx ::
  "(int \<Rightarrow> addr \<Rightarrow> 'u \<Rightarrow> 'u) option \<Rightarrow> 'u \<Rightarrow> sa_root \<Rightarrow> 'u option" where
  "ILibSparseArray_DestroyEx onDestroy user root =
     map_option snd (ILibSparseArray_ClearEx onDestroy user root)"

declare clear_list_loop.simps [code]


section \<open>Lists of pairs\<close>

lemma le_fold_max_init: "(m :: nat) \<le> fold max as m"
  by (induction as arbitrary: m) (auto intro: le_trans [OF max.cobounded2])

lemma le_fold_max: "a \<in> set as \<Longrightarrow> (a :: nat) \<le> fold max as m"
proof (induction as arbitrary: m)
  case (Cons b as)
  then show ?case using le_fold_max_init [of "max b m" as] by auto
qed simp

lemma fresh_node_fresh: "ll_ok L \<Longrightarrow> nodes L (fresh_node L) = None"
proof -
  assume "ll_ok L"
  then have dom: "dom (nodes L) = set (ll_addrs L)" by (simp add: ll_ok_def ll_wf_def)
  have "fresh_node L \<notin> set (ll_addrs L)" using le_fold_max [of _ "ll_addrs L" 0] by (force simp: fresh_node_def)
  with dom show ?thesis by auto
qed

definition pairs_map :: "addr sa_node list \<Rightarrow> int \<Rightarrow> addr option" where
  "pairs_map ds = map_of (map (\<lambda>n. (index n, ptr n)) ds)"

abbreviation desc :: "addr sa_node list \<Rightarrow> bool" where
  "desc ds \<equiv> sorted_wrt (\<lambda>a b. index b < index a) ds"

abbreviation "sa_sins d ds \<equiv> sins ILibSparseArray_Comparer ILibLinkedList_SortedInsert_DefaultChooser d None ds"

lemma set_sins: "set (fst (sa_sins d ds)) \<subseteq> insert d (set ds)"
  by (induction ds) (auto simp: ILibLinkedList_SortedInsert_DefaultChooser_def split: prod.splits)

lemma sins_ne: "fst (sa_sins d ds) \<noteq> []"
  by (cases ds) (auto simp: ILibLinkedList_SortedInsert_DefaultChooser_def split: prod.splits)

lemma comparer_simps:
  "ILibSparseArray_Comparer y d = 0 \<longleftrightarrow> index y = index d"
  "ILibSparseArray_Comparer y d < 0 \<longleftrightarrow> index y < index d"
  by (simp_all add: ILibSparseArray_Comparer_def)

lemma sins_desc: "desc ds \<Longrightarrow> desc (fst (sa_sins d ds))"
proof (induction ds)
  case (Cons y ys)
  consider "index y = index d" | "index y < index d" | "index y > index d" by linarith
  then show ?case
  proof cases
    case 3
    have "\<forall>x \<in> set (fst (sa_sins d ys)). index x < index y"
      using set_sins [of d ys] Cons.prems 3 by auto
    with 3 Cons show ?thesis by (simp add: comparer_simps case_prod_unfold)
  next
    case 2
    with Cons.prems show ?thesis
      by (auto simp: ILibLinkedList_SortedInsert_DefaultChooser_def comparer_simps)
  qed (use Cons.prems in \<open>auto simp: ILibLinkedList_SortedInsert_DefaultChooser_def comparer_simps\<close>)
qed (simp add: ILibLinkedList_SortedInsert_DefaultChooser_def)

lemma pairs_map_None: "pairs_map ds i = None \<longleftrightarrow> (\<forall>n \<in> set ds. index n \<noteq> i)"
  by (force simp: pairs_map_def map_of_eq_None_iff)

lemma pairs_map_simps [simp]:
  "pairs_map [] = Map.empty" "pairs_map (n # ds) = (pairs_map ds)(index n \<mapsto> ptr n)"
  by (simp_all add: pairs_map_def)

lemma sins_map:
  "desc ds \<Longrightarrow> pairs_map (fst (sa_sins d ds)) = (pairs_map ds)(index d \<mapsto> ptr d)
     \<and> map_option ptr (snd (sa_sins d ds)) = pairs_map ds (index d)"
proof (induction ds)
  case (Cons y ys)
  consider "index y = index d" | "index y < index d" | "index y > index d" by linarith
  then show ?case
  proof cases
    case 2
    then have "pairs_map ys (index d) = None" using Cons.prems by (auto simp: pairs_map_None)
    with 2 show ?thesis
      by (auto simp: ILibLinkedList_SortedInsert_DefaultChooser_def comparer_simps fun_eq_iff)
  next
    case 3
    with Cons show ?thesis by (auto simp: comparer_simps fun_eq_iff case_prod_unfold)
  qed (auto simp: ILibLinkedList_SortedInsert_DefaultChooser_def comparer_simps fun_eq_iff)
qed (simp add: ILibLinkedList_SortedInsert_DefaultChooser_def)

lemma pairs_map_remove:
  "desc (xs @ d # ys) \<Longrightarrow> pairs_map (xs @ ys) = (pairs_map (xs @ d # ys))(index d := None)"
proof -
  assume "desc (xs @ d # ys)"
  then have "pairs_map xs (index d) = None" "pairs_map ys (index d) = None"
    by (auto simp: pairs_map_None sorted_wrt_append)
  then show ?thesis by (auto simp: pairs_map_def fun_eq_iff map_add_def split: option.splits)
qed

text \<open>Searching a list for a pair and removing the node found.\<close>

lemma find_split: "find P as = Some a \<Longrightarrow> \<exists>xs ys. as = xs @ a # ys \<and> P a"
  by (auto simp: find_Some_iff) (metis id_take_nth_drop)

lemma search_repr:
  assumes "ll_ok L"
  shows "\<exists>r. ILibLinkedList_GetNode_Search (Some ILibSparseArray_Comparer) \<lparr>index = i, ptr = p\<rparr> L = Some r
    \<and> (case r of
         None \<Rightarrow> pairs_map (ll_list L) i = None
       | Some a \<Rightarrow> \<exists>xs d ys. ll_list L = xs @ d # ys \<and> index d = i
           \<and> ILibLinkedList_GetDataFromNode r L = Some d
           \<and> ll_repr (fst (ILibLinkedList_Remove r L)) (xs @ ys))"
proof -
  let ?m = "\<lambda>a. search_match (Some ILibSparseArray_Comparer) \<lparr>index = i, ptr = p\<rparr> (Data (the (nodes L a)))"
  have m: "?m a \<longleftrightarrow> index (Data (the (nodes L a))) = i" for a
    by (simp add: search_match_def ILibSparseArray_Comparer_def)
  have wf: "ll_wf L (ll_addrs L)" using assms by (simp add: ll_ok_def)
  have s: "ILibLinkedList_GetNode_Search (Some ILibSparseArray_Comparer) \<lparr>index = i, ptr = p\<rparr> L
      = Some (find ?m (ll_addrs L))" by (rule GetNode_Search_wf [OF wf])
  show ?thesis
  proof (cases "find ?m (ll_addrs L)")
    case None
    then have "pairs_map (ll_list L) i = None"
      by (auto simp: pairs_map_None ll_list_def ll_data_def find_None_iff m)
    with s None show ?thesis by auto
  next
    case (Some a)
    then obtain as bs where ab: "ll_addrs L = as @ a # bs" "index (Data (the (nodes L a))) = i"
      using find_split [OF Some] m by blast
    have wf': "ll_wf L (as @ a # bs)" using wf ab by simp
    have "ll_repr (fst (ILibLinkedList_Remove (Some a) L)) (ll_data L as @ ll_data L bs)"
      using Remove_wf [OF wf'] Remove_data [OF wf'] by (rule ll_reprI)
    moreover have "ILibLinkedList_GetDataFromNode (Some a) L = Some (Data (the (nodes L a)))"
      using GetData_wf [OF wf'] by simp
    ultimately show ?thesis using s Some ab by (auto simp: ll_list_def ll_data_def)
  qed
qed


section \<open>Buckets\<close>

definition bucket_map :: "sa_ptr sa_node \<Rightarrow> int \<Rightarrow> addr option" where
  "bucket_map b = (case ptr b of
     Value v \<Rightarrow> if v = 0 then Map.empty else [index b \<mapsto> v]
   | ListP L \<Rightarrow> pairs_map (ll_list L))"

text \<open>Bucket number \<open>k\<close> holds indices that the bucketizer maps to \<open>k\<close>, none of them negative.\<close>

definition bucket_ok :: "(int \<Rightarrow> int) \<Rightarrow> nat \<Rightarrow> sa_ptr sa_node \<Rightarrow> bool" where
  "bucket_ok bz k b \<longleftrightarrow> (case ptr b of
     Value v \<Rightarrow> (if v = 0 then index b = 0 else 0 \<le> index b \<and> bz (index b) = int k)
   | ListP L \<Rightarrow> index b = -1 \<and> ll_ok L \<and> ll_list L \<noteq> [] \<and> desc (ll_list L)
       \<and> (\<forall>n \<in> set (ll_list L). ptr n \<noteq> 0 \<and> 0 \<le> index n \<and> bz (index n) = int k))"

lemma bucket_ok_empty [simp]: "bucket_ok bz k empty_bucket" "bucket_map empty_bucket = Map.empty"
  by (simp_all add: bucket_ok_def bucket_map_def empty_bucket_def)

lemma bucket_map_dom: "bucket_ok bz k b \<Longrightarrow> bucket_map b i = Some v \<Longrightarrow> 0 \<le> i \<and> bz i = int k \<and> v \<noteq> 0"
  by (auto simp: bucket_ok_def bucket_map_def pairs_map_def split: sa_ptr.splits if_splits dest!: map_of_SomeD)

definition old_value :: "addr option \<Rightarrow> sa_ptr" where
  "old_value o' = Value (case o' of None \<Rightarrow> 0 | Some v \<Rightarrow> v)"

lemma sorted_insert_ok:
  assumes "ll_ok L" "desc (ll_list L)"
  shows "\<exists>L'. ILibLinkedList_SortedInsert (fresh_node L) ILibSparseArray_Comparer d L = Some (L', snd (sa_sins d (ll_list L)))
    \<and> ll_ok L' \<and> ll_list L' = fst (sa_sins d (ll_list L)) \<and> desc (ll_list L')"
  using SortedInsert_repr [OF ll_ok_repr [OF assms(1)] fresh_node_fresh [OF assms(1)] refl, of ILibSparseArray_Comparer d]
    sins_desc [OF assms(2)] by (auto simp: ll_repr_iff)

lemma add_to_bucket_ok:
  assumes "bucket_ok bz k b" "0 \<le> i" "bz i = int k" "v \<noteq> 0"
  shows "\<exists>b'. add_to_bucket i v b = Some (b', old_value (bucket_map b i)) \<and> bucket_ok bz k b'
    \<and> bucket_map b' = (bucket_map b)(i \<mapsto> v)"
proof (cases "ptr b")
  case (Value u)
  show ?thesis
  proof (cases "u = 0 \<or> index b = i")
    case True
    then show ?thesis using Value assms
      by (auto simp: add_to_bucket_def bucket_ok_def bucket_map_def old_value_def)
  next
    case False
    then have u: "u \<noteq> 0" "index b \<noteq> i" by auto
    let ?n = "\<lparr>index = index b, ptr = u\<rparr>" and ?d = "\<lparr>index = i, ptr = v\<rparr>"
    let ?L = "ILibLinkedList_AddHead (fresh_node (ILibLinkedList_Create :: addr sa_node ll_root)) ?n ILibLinkedList_Create"
    have "ll_repr (ILibLinkedList_Create :: addr sa_node ll_root) []"
      by (rule ll_reprI [of _ "[]"]) (auto simp: Create_wf ll_data_def)
    then have "ll_repr ?L [?n]" by (rule AddHead_repr) (simp add: ILibLinkedList_Create_def)
    then have L: "ll_ok ?L" "ll_list ?L = [?n]" by (simp_all add: ll_repr_iff)
    obtain L' where L': "ILibLinkedList_SortedInsert (fresh_node ?L) ILibSparseArray_Comparer ?d ?L
        = Some (L', snd (sa_sins ?d [?n]))" "ll_ok L'" "ll_list L' = fst (sa_sins ?d [?n])" "desc (ll_list L')"
      using sorted_insert_ok [OF L(1), of ?d] L(2) by auto
    have "add_to_bucket i v b = Some (\<lparr>index = -1, ptr = ListP L'\<rparr>, Value 0)"
      using Value u assms(1) L'(1) by (simp add: add_to_bucket_def bucket_ok_def Let_def)
    moreover have "bucket_ok bz k \<lparr>index = -1, ptr = ListP L'\<rparr>"
      using Value u assms L' set_sins [of ?d "[?n]"] sins_ne [of ?d "[?n]"]
      by (auto simp: bucket_ok_def split: if_splits)
    moreover have "bucket_map \<lparr>index = -1, ptr = ListP L'\<rparr> = (bucket_map b)(i \<mapsto> v)"
      using sins_map [of "[?n]" ?d] L'(3) Value u by (simp add: bucket_map_def)
    ultimately show ?thesis using Value u by (auto simp: bucket_map_def old_value_def)
  qed
next
  case (ListP L)
  let ?d = "\<lparr>index = i, ptr = v\<rparr>"
  have L: "index b = -1" "ll_ok L" "ll_list L \<noteq> []" "desc (ll_list L)"
    "\<forall>n \<in> set (ll_list L). ptr n \<noteq> 0 \<and> 0 \<le> index n \<and> bz (index n) = int k"
    using assms(1) ListP by (simp_all add: bucket_ok_def)
  obtain L' where L': "ILibLinkedList_SortedInsert (fresh_node L) ILibSparseArray_Comparer ?d L
      = Some (L', snd (sa_sins ?d (ll_list L)))" "ll_ok L'" "ll_list L' = fst (sa_sins ?d (ll_list L))" "desc (ll_list L')"
    using sorted_insert_ok [OF L(2,4), of ?d] by auto
  note m = sins_map [OF L(4), of ?d]
  have "add_to_bucket i v b = Some (b\<lparr>ptr := ListP L'\<rparr>, old_value (bucket_map b i))"
    using ListP L(1) L'(1) m by (auto simp: add_to_bucket_def bucket_map_def old_value_def split: option.splits)
  moreover have "bucket_ok bz k (b\<lparr>ptr := ListP L'\<rparr>)"
    using L L' set_sins [of ?d "ll_list L"] sins_ne [of ?d "ll_list L"] assms by (auto simp: bucket_ok_def)
  moreover have "bucket_map (b\<lparr>ptr := ListP L'\<rparr>) = (bucket_map b)(i \<mapsto> v)"
    using m L'(3) ListP by (simp add: bucket_map_def)
  ultimately show ?thesis by blast
qed

lemma get_from_bucket_ok:
  assumes "bucket_ok bz k b" "0 \<le> i" "bz i = int k"
  shows "\<exists>b'. get_from_bucket i remove b = Some (b', old_value (bucket_map b i)) \<and> bucket_ok bz k b'
    \<and> bucket_map b' = (if remove then (bucket_map b)(i := None) else bucket_map b) \<and> (\<not> remove \<longrightarrow> b' = b)"
proof (cases "ptr b")
  case (Value u)
  then show ?thesis using assms
    by (auto simp: get_from_bucket_def bucket_ok_def bucket_map_def old_value_def empty_bucket_def fun_eq_iff
        split: if_splits)
next
  case (ListP L)
  have L: "index b = -1" "ll_ok L" "ll_list L \<noteq> []" "desc (ll_list L)"
    "\<forall>n \<in> set (ll_list L). ptr n \<noteq> 0 \<and> 0 \<le> index n \<and> bz (index n) = int k"
    using assms(1) ListP by (simp_all add: bucket_ok_def)
  obtain r where r: "ILibLinkedList_GetNode_Search (Some ILibSparseArray_Comparer) \<lparr>index = i, ptr = 0\<rparr> L = Some r"
    "case r of None \<Rightarrow> pairs_map (ll_list L) i = None
       | Some a \<Rightarrow> \<exists>xs d ys. ll_list L = xs @ d # ys \<and> index d = i
           \<and> ILibLinkedList_GetDataFromNode r L = Some d
           \<and> ll_repr (fst (ILibLinkedList_Remove r L)) (xs @ ys)"
    using search_repr [OF L(2), of i 0] by blast
  show ?thesis
  proof (cases r)
    case None
    then show ?thesis using r ListP L(1) assms(1,2)
      by (auto simp: get_from_bucket_def bucket_map_def old_value_def ILibLinkedList_GetDataFromNode_def fun_eq_iff)
  next
    case (Some a)
    then obtain xs d ys where d: "ll_list L = xs @ d # ys" "index d = i"
      "ILibLinkedList_GetDataFromNode r L = Some d" "ll_repr (fst (ILibLinkedList_Remove r L)) (xs @ ys)"
      using r(2) by auto
    let ?L = "fst (ILibLinkedList_Remove r L)"
    have L': "ll_ok ?L" "ll_list ?L = xs @ ys" using d(4) by (simp_all add: ll_repr_iff)
    have des: "desc (xs @ d # ys)" using L(4) d(1) by simp
    have found: "pairs_map (ll_list L) i = Some (ptr d)"
    proof -
      have "pairs_map xs i = None" using des d(2) by (auto simp: pairs_map_None sorted_wrt_append)
      then show ?thesis using d(1,2) by (simp add: pairs_map_def map_add_def)
    qed
    have rem: "pairs_map (xs @ ys) = (pairs_map (ll_list L))(i := None)"
      using pairs_map_remove [OF des] d(1,2) by simp
    have cnt: "ILibLinkedList_GetCount ?L = int (length (xs @ ys))"
      using ll_ok_count [OF L'(1)] L'(2) by (simp add: ILibLinkedList_GetCount_def)
    obtain L0 where destroy: "ILibLinkedList_Destroy ?L = Some L0"
      using Destroy_wf L'(1) by (auto simp: ll_ok_def)
    have ok': "bucket_ok bz k (b\<lparr>ptr := ListP ?L\<rparr>)" if "xs @ ys \<noteq> []"
      using L d(1) des that L' by (auto simp: bucket_ok_def sorted_wrt_append)
    have map': "bucket_map (b\<lparr>ptr := ListP ?L\<rparr>) = (bucket_map b)(i := None)"
      using rem L'(2) ListP by (simp add: bucket_map_def)
    show ?thesis
    proof (cases "xs @ ys = []")
      case True
      then have "(bucket_map b)(i := None) = Map.empty" using rem ListP by (simp add: bucket_map_def)
      then show ?thesis
        using r(1) Some d(3) ListP L(1) assms(1,2) found cnt destroy True
        by (auto simp: get_from_bucket_def bucket_map_def old_value_def Let_def empty_bucket_def bucket_ok_def)
    next
      case False
      then have "ILibLinkedList_GetCount ?L \<noteq> 0" by (cases xs; cases ys) (simp_all add: cnt)
      then show ?thesis
        using r(1) Some d(3) ListP L(1) assms(1,2) found ok' map' False
        by (auto simp: get_from_bucket_def bucket_map_def old_value_def Let_def)
    qed
  qed
qed

section \<open>The array\<close>

definition sa_ok :: "(int \<Rightarrow> int) \<Rightarrow> nat \<Rightarrow> sa_root \<Rightarrow> bool" where
  "sa_ok bz n root \<longleftrightarrow> bucketizer root = bz \<and> bucketSize root = n \<and> length (bucket root) = n
     \<and> (\<forall>k < n. bucket_ok bz k (bucket root ! k))"

definition sa_index :: "(int \<Rightarrow> int) \<Rightarrow> nat \<Rightarrow> int \<Rightarrow> bool" where
  "sa_index bz n i \<longleftrightarrow> 0 \<le> i \<and> 0 \<le> bz i \<and> bz i < int n"

definition sa_map :: "sa_root \<Rightarrow> int \<Rightarrow> addr option" where
  "sa_map root i = (case bucket_no root i of None \<Rightarrow> None | Some k \<Rightarrow> bucket_map (bucket root ! k) i)"

lemma sa_index_no: "sa_ok bz n root \<Longrightarrow> sa_index bz n i \<Longrightarrow>
  \<exists>k < n. bucket_no root i = Some k \<and> bz i = int k"
  by (auto simp: sa_ok_def sa_index_def bucket_no_def intro!: exI [of _ "nat (bz i)"])

lemma sa_update:
  assumes "sa_ok bz n root" "k < n" "bucket_ok bz k b'" "bz i = int k" "0 \<le> i"
    and "bucket_map b' = (bucket_map (bucket root ! k))(i := v)"
  shows "sa_ok bz n (root\<lparr>bucket := (bucket root)[k := b']\<rparr>)"
    "sa_map (root\<lparr>bucket := (bucket root)[k := b']\<rparr>) = (sa_map root)(i := v)"
proof -
  show "sa_ok bz n (root\<lparr>bucket := (bucket root)[k := b']\<rparr>)"
    using assms(1-3) by (auto simp: sa_ok_def nth_list_update)
  have "bucketizer root = bz" "length (bucket root) = n" using assms(1) by (simp_all add: sa_ok_def)
  then show "sa_map (root\<lparr>bucket := (bucket root)[k := b']\<rparr>) = (sa_map root)(i := v)"
    using assms(2,4,6) by (auto simp: sa_map_def bucket_no_def fun_eq_iff nth_list_update)
qed

lemma Add_ok:
  assumes "sa_ok bz n root" "sa_index bz n i" "v \<noteq> 0"
  shows "\<exists>root'. ILibSparseArray_Add i v root = Some (root', old_value (sa_map root i)) \<and> sa_ok bz n root'
    \<and> sa_map root' = (sa_map root)(i \<mapsto> v)"
proof -
  obtain k where k: "k < n" "bucket_no root i = Some k" "bz i = int k" using sa_index_no [OF assms(1,2)] by blast
  have i: "0 \<le> i" using assms(2) by (simp add: sa_index_def)
  have bk: "bucket_ok bz k (bucket root ! k)" using assms(1) k(1) by (simp add: sa_ok_def)
  then obtain b' where "add_to_bucket i v (bucket root ! k) = Some (b', old_value (bucket_map (bucket root ! k) i))"
    "bucket_ok bz k b'" "bucket_map b' = (bucket_map (bucket root ! k))(i \<mapsto> v)"
    using add_to_bucket_ok [OF bk i k(3) assms(3)] by blast
  then show ?thesis using k i sa_update [OF assms(1) k(1)] by (simp add: ILibSparseArray_Add_def sa_map_def)
qed

lemma GetEx_ok:
  assumes "sa_ok bz n root" "sa_index bz n i"
  shows "\<exists>root'. ILibSparseArray_GetEx i remove root = Some (root', old_value (sa_map root i)) \<and> sa_ok bz n root'
    \<and> sa_map root' = (if remove \<noteq> 0 then (sa_map root)(i := None) else sa_map root)
    \<and> (remove = 0 \<longrightarrow> root' = root)"
proof -
  obtain k where k: "k < n" "bucket_no root i = Some k" "bz i = int k" using sa_index_no [OF assms(1,2)] by blast
  have i: "0 \<le> i" using assms(2) by (simp add: sa_index_def)
  have bk: "bucket_ok bz k (bucket root ! k)" using assms(1) k(1) by (simp add: sa_ok_def)
  then obtain b' where b: "get_from_bucket i (remove \<noteq> 0) (bucket root ! k) = Some (b', old_value (bucket_map (bucket root ! k) i))"
    "bucket_ok bz k b'" "bucket_map b' = (if remove \<noteq> 0 then (bucket_map (bucket root ! k))(i := None) else bucket_map (bucket root ! k))"
    "\<not> remove \<noteq> 0 \<longrightarrow> b' = bucket root ! k"
    using get_from_bucket_ok [OF bk i k(3), of "remove \<noteq> 0"] by blast
  show ?thesis
  proof (cases "remove = 0")
    case True
    then show ?thesis using b k assms(1) by (simp add: ILibSparseArray_GetEx_def sa_map_def)
  next
    case False
    then show ?thesis using b k i sa_update [OF assms(1) k(1) b(2) k(3) i, of None]
      by (simp add: ILibSparseArray_GetEx_def sa_map_def)
  qed
qed

lemma sa_Create_ok: "sa_ok bz n (ILibSparseArray_Create n bz)" "sa_map (ILibSparseArray_Create n bz) = Map.empty"
  by (auto simp: sa_ok_def sa_map_def ILibSparseArray_Create_def bucket_no_def fun_eq_iff)

definition value_of :: "sa_ptr \<Rightarrow> addr option" where
  "value_of p = (case p of Value v \<Rightarrow> (if v = 0 then None else Some v) | ListP _ \<Rightarrow> None)"

definition sa_put :: "int \<Rightarrow> addr \<Rightarrow> sa_root \<Rightarrow> sa_root option" where
  "sa_put i v root = map_option fst (ILibSparseArray_Add i v root)"

definition sa_del :: "int \<Rightarrow> sa_root \<Rightarrow> sa_root option" where
  "sa_del i root = map_option fst (ILibSparseArray_Remove i root)"

definition sa_get :: "int \<Rightarrow> sa_root \<Rightarrow> addr option option" where
  "sa_get i root = map_option (\<lambda>(_, r). value_of r) (ILibSparseArray_Get i root)"

lemma sa_map_nonzero: "sa_ok bz n root \<Longrightarrow> sa_map root i = Some v \<Longrightarrow> v \<noteq> 0"
  by (auto simp: sa_map_def bucket_no_def sa_ok_def split: if_splits dest!: bucket_map_dom)

lemma value_of_old: "sa_ok bz n root \<Longrightarrow> value_of (old_value (sa_map root i)) = sa_map root i"
  by (auto simp: value_of_def old_value_def dest: sa_map_nonzero split: option.splits)

interpretation sa: dictionary "sa_ok bz n" sa_map "sa_index bz n" "\<lambda>v. v \<noteq> 0" "\<lambda>i. i" sa_put sa_del sa_get for bz n
proof
  fix s k v assume "sa_ok bz n s" "sa_index bz n k" "v \<noteq> (0 :: addr)"
  from Add_ok [OF this] show "\<exists>s'. sa_put k v s = Some s' \<and> sa_ok bz n s' \<and> sa_map s' = (sa_map s)(k \<mapsto> v)"
    by (auto simp: sa_put_def)
next
  fix s k assume s: "sa_ok bz n s" "sa_index bz n k"
  from GetEx_ok [OF s, of 1] show "\<exists>s'. sa_del k s = Some s' \<and> sa_ok bz n s' \<and> sa_map s' = (sa_map s)(k := None)"
    by (auto simp: sa_del_def ILibSparseArray_Remove_def)
  from GetEx_ok [OF s, of 0] show "sa_get k s = Some (sa_map s k)"
    by (auto simp: sa_get_def ILibSparseArray_Get_def value_of_old [OF s(1)])
qed

section \<open>Enumeration\<close>

definition bucket_elems :: "sa_ptr sa_node \<Rightarrow> (int \<times> addr) list" where
  "bucket_elems b = (case ptr b of
     Value v \<Rightarrow> if v = 0 then [] else [(index b, v)]
   | ListP L \<Rightarrow> map (\<lambda>n. (index n, ptr n)) (ll_list L))"

definition sa_elems :: "sa_root \<Rightarrow> (int \<times> addr) list" where
  "sa_elems root = concat (map bucket_elems (bucket root))"

definition call :: "(int \<Rightarrow> addr \<Rightarrow> 'u \<Rightarrow> 'u) option \<Rightarrow> int \<times> addr \<Rightarrow> 'u \<Rightarrow> 'u" where
  "call f e u = (case f of None \<Rightarrow> u | Some g \<Rightarrow> g (fst e) (snd e) u)"

lemma clear_list_loop_ok:
  assumes "ll_wf L (xs @ ys)"
  shows "clear_list_loop f (hd_or ys None) L u
    = Some (fold (call f) (map (\<lambda>a. (index (Data (the (nodes L a))), ptr (Data (the (nodes L a))))) ys) u)"
  using assms
proof (induction ys arbitrary: xs u)
  case Nil
  then show ?case by (simp add: clear_list_loop.simps)
next
  case (Cons a ys)
  have one: "(case f of None \<Rightarrow> u | Some g \<Rightarrow> g i v u) = call f (i, v) u" for i v
    by (simp add: call_def split: option.split)
  from Cons.IH [of "xs @ [a]"] Cons.prems show ?case
    using GetNextNode_wf [OF Cons.prems] GetData_wf [OF Cons.prems]
    by (subst clear_list_loop.simps) (simp add: one)
qed

lemma clear_bucket_ok:
  assumes "bucket_ok bz k b"
  shows "clear_bucket f delete b u = Some (if delete then empty_bucket else b, fold (call f) (bucket_elems b) u)"
proof (cases "ptr b")
  case (Value v)
  then show ?thesis using assms
    by (auto simp: clear_bucket_def bucket_ok_def bucket_elems_def empty_bucket_def call_def
        split: if_splits option.splits intro: sa_node.equality)
next
  case (ListP L)
  then have L: "index b = -1" "ll_wf L (ll_addrs L)" using assms by (simp_all add: bucket_ok_def ll_ok_def)
  obtain L0 where "ILibLinkedList_Destroy L = Some L0" using Destroy_wf [OF L(2)] by blast
  moreover have "clear_list_loop f (ILibLinkedList_GetNode_Head L) L u
      = Some (fold (call f) (map (\<lambda>n. (index n, ptr n)) (ll_list L)) u)"
    using clear_list_loop_ok [of L "[]" "ll_addrs L" f u] L(2)
    by (simp add: ll_wf_Head ll_list_def ll_data_def comp_def)
  ultimately show ?thesis using ListP L(1) by (simp add: clear_bucket_def bucket_elems_def)
qed

lemma clear_buckets_ok:
  "\<forall>b \<in> set bs. \<exists>k. bucket_ok bz k b \<Longrightarrow>
   clear_buckets f delete bs u
     = Some (if delete then replicate (length bs) empty_bucket else bs, fold (call f) (concat (map bucket_elems bs)) u)"
proof (induction bs arbitrary: u)
  case (Cons b bs)
  then obtain k where "bucket_ok bz k b" by auto
  from clear_bucket_ok [OF this, of f delete u] Cons show ?case by simp
qed simp

lemma bucket_elems_map: "map_of (bucket_elems b) = bucket_map b"
  by (auto simp: bucket_elems_def bucket_map_def pairs_map_def split: sa_ptr.split)

lemma bucket_elems_distinct: "bucket_ok bz k b \<Longrightarrow> distinct (map fst (bucket_elems b))"
proof -
  have "desc ds \<Longrightarrow> distinct (map index ds)" for ds by (induction ds) auto
  then show "bucket_ok bz k b \<Longrightarrow> distinct (map fst (bucket_elems b))"
    by (auto simp: bucket_ok_def bucket_elems_def comp_def split: sa_ptr.splits)
qed

lemma bucket_elems_in: "bucket_ok bz k b \<Longrightarrow> (i, v) \<in> set (bucket_elems b) \<longleftrightarrow> bucket_map b i = Some v"
  using bucket_elems_distinct by (auto simp: bucket_elems_map [symmetric])

lemma sa_elems_in:
  assumes "sa_ok bz n root"
  shows "(i, v) \<in> set (sa_elems root) \<longleftrightarrow> sa_map root i = Some v"
proof
  have len: "length (bucket root) = n" and bz: "bucketizer root = bz"
    and ok: "\<And>k. k < n \<Longrightarrow> bucket_ok bz k (bucket root ! k)" using assms by (auto simp: sa_ok_def)
  {
    assume "(i, v) \<in> set (sa_elems root)"
    then obtain b where b: "b \<in> set (bucket root)" "(i, v) \<in> set (bucket_elems b)" by (auto simp: sa_elems_def)
    then obtain k where k: "k < n" "b = bucket root ! k" using len by (auto simp: in_set_conv_nth)
    with b(2) have k: "k < n" "(i, v) \<in> set (bucket_elems (bucket root ! k))" by simp_all
    then have "bucket_map (bucket root ! k) i = Some v" using bucket_elems_in [OF ok] by blast
    moreover from bucket_map_dom [OF ok [OF k(1)] this] have "bz i = int k" by simp
    ultimately show "sa_map root i = Some v" using k(1) len bz by (simp add: sa_map_def bucket_no_def)
  next
    assume "sa_map root i = Some v"
    then obtain k where "bucket_no root i = Some k" "bucket_map (bucket root ! k) i = Some v"
      by (auto simp: sa_map_def split: option.splits)
    moreover from this have "k < n" using len by (auto simp: bucket_no_def split: if_splits)
    ultimately have "(i, v) \<in> set (bucket_elems (bucket root ! k))" "bucket root ! k \<in> set (bucket root)"
      using bucket_elems_in [OF ok] len by auto
    then show "(i, v) \<in> set (sa_elems root)" by (auto simp: sa_elems_def)
  }
qed

lemma sa_elems_distinct:
  assumes "sa_ok bz n root"
  shows "distinct (map fst (sa_elems root))"
proof -
  have "distinct (map fst (concat (map bucket_elems bs)))"
    if "\<forall>j < length bs. bucket_ok bz (k + j) (bs ! j)" for k bs
    using that
  proof (induction bs arbitrary: k)
    case (Cons b bs)
    have b: "bucket_ok bz k b" using Cons.prems [rule_format, of 0] by simp
    have bs: "\<forall>j < length bs. bucket_ok bz (Suc k + j) (bs ! j)" using Cons.prems by auto
    have "i \<notin> fst ` set (bucket_elems c)" if i: "i \<in> fst ` set (bucket_elems b)" and c: "c \<in> set bs" for i c
    proof
      assume "i \<in> fst ` set (bucket_elems c)"
      then obtain v where v: "(i, v) \<in> set (bucket_elems c)" by auto
      obtain j where j: "j < length bs" "c = bs ! j" using c by (auto simp: in_set_conv_nth)
      obtain w where w: "(i, w) \<in> set (bucket_elems b)" using i by auto
      have okc: "bucket_ok bz (Suc k + j) c" using bs j by auto
      have "bz i = int (Suc k + j)"
        using bucket_map_dom [OF okc] bucket_elems_in [OF okc] v by blast
      moreover have "bz i = int k" using bucket_map_dom [OF b] bucket_elems_in [OF b] w by blast
      ultimately show False by simp
    qed
    then show ?case using Cons.IH [OF bs] bucket_elems_distinct [OF b] by fastforce
  qed simp
  from this [of "bucket root" 0] assms show ?thesis by (simp add: sa_ok_def sa_elems_def)
qed

lemma ClearEx2_ok:
  assumes "sa_ok bz n root"
  shows "ILibSparseArray_ClearEx2 f d u root
    = Some (if d \<noteq> 0 then ILibSparseArray_Create n bz else root, fold (call f) (sa_elems root) u)"
proof -
  have "\<forall>b \<in> set (bucket root). \<exists>k. bucket_ok bz k b" 
    using assms unfolding sa_ok_def by (metis in_set_conv_nth)
  from clear_buckets_ok [OF this, of f "d \<noteq> 0" u] assms show ?thesis
    by (auto simp: ILibSparseArray_ClearEx2_def ILibSparseArray_Create_def sa_ok_def sa_elems_def intro: sa_root.equality)
qed

lemma Move_fold:
  assumes "sa_ok bz n r" "\<forall>(i, v) \<in> set es. sa_index bz n i \<and> v \<noteq> 0" "distinct (map fst es)"
  shows "\<exists>r'. fold (call (Some ILibSparseArray_Move_OnEnumerate)) es (Some r) = Some r' \<and> sa_ok bz n r'
    \<and> sa_map r' = sa_map r ++ map_of es"
  using assms
proof (induction es arbitrary: r)
  case (Cons e es)
  obtain i v where e: "e = (i, v)" by (cases e)
  obtain r1 where r1: "ILibSparseArray_Add i v r = Some (r1, old_value (sa_map r i))" "sa_ok bz n r1"
    "sa_map r1 = (sa_map r)(i \<mapsto> v)" using Add_ok [OF Cons.prems(1), of i v] Cons.prems(2) e by auto
  have "map_of es i = None" using Cons.prems(3) e by (simp add: map_of_eq_None_iff)
  then have "(sa_map r)(i \<mapsto> v) ++ map_of es = sa_map r ++ map_of (e # es)"
    by (auto simp: e fun_eq_iff map_add_def split: option.split)
  with Cons.IH [OF r1(2)] Cons.prems(2,3) r1 show ?case
    by (auto simp: e call_def ILibSparseArray_Move_OnEnumerate_def simp del: fun_upd_apply)
qed simp

section \<open>Properties\<close>

definition sa_run :: "(int \<times> addr + int) list \<Rightarrow> sa_root \<Rightarrow> sa_root option" where
  "sa_run = run_ops sa_put sa_del"

text \<open>
  C38 (functional): the SparseArray is a map from indices to non-null values.  After any sequence
  of additions of non-null values and removals, at non-negative indices that the bucketizer maps into the
  array, on a new array, the next \<open>ILibSparseArray_Get\<close>, \<open>ILibSparseArray_Add\<close> and \<open>ILibSparseArray_Remove\<close>
  return the value the map holds (\<open>NULL\<close> if none), whatever indices share the bucket, and a \<open>Get\<close>
  changes nothing.
\<close>

theorem sparse_array_is_map:
  assumes "\<forall>c \<in> set cs. case c of Inl (i, v) \<Rightarrow> sa_index bz n i \<and> v \<noteq> 0 | Inr i \<Rightarrow> sa_index bz n i"
    and "sa_index bz n i" "w \<noteq> 0"
  shows "\<exists>r. sa_run cs (ILibSparseArray_Create n bz) = Some r
    \<and> (let old = old_value (run_map (\<lambda>i. i) cs Map.empty i) in
       ILibSparseArray_Get i r = Some (r, old)
       \<and> map_option snd (ILibSparseArray_Add i w r) = Some old
       \<and> map_option snd (ILibSparseArray_Remove i r) = Some old)"
proof -
  obtain r where r: "sa_run cs (ILibSparseArray_Create n bz) = Some r" "sa_ok bz n r"
    "sa_map r = run_map (\<lambda>i. i) cs Map.empty"
    using sa.run_correct [OF sa_Create_ok(1) assms(1)] by (auto simp: sa_run_def sa_Create_ok(2))
  show ?thesis
    using r Add_ok [OF r(2) assms(2,3)] GetEx_ok [OF r(2) assms(2), of 0] GetEx_ok [OF r(2) assms(2), of 1]
    by (auto simp: Let_def ILibSparseArray_Get_def ILibSparseArray_Remove_def)
qed

lemma sparse_array_is_map_witness:
  "\<exists>r. sa_run [Inl (1, 10), Inl (5, 20), Inr 1] (ILibSparseArray_Create 4 (\<lambda>i. i mod 4)) = Some r
    \<and> ILibSparseArray_Get 5 r = Some (r, Value 20)"
  using sparse_array_is_map [of "[Inl (1, 10), Inl (5, 20), Inr 1]" "\<lambda>i. i mod 4" 4 5 1]
  by (auto simp: sa_index_def old_value_def Let_def)

text \<open>
  Enumerating or clearing a well-formed array calls the callback exactly once for
  every index that is defined, with its value; clearing leaves the array that \<open>Create\<close> returns,
  enumerating leaves it as it was, and \<open>ILibSparseArray_Move\<close> returns an array with the same
  entries.
\<close>

theorem sparse_array_enumerates:
  assumes "sa_ok bz n root"
  shows "ILibSparseArray_ClearEx (Some f) u root
      = Some (ILibSparseArray_Create n bz, fold (\<lambda>(i, v). f i v) (sa_elems root) u)
    \<and> ILibSparseArray_Enumerate (Some f) u root = Some (root, fold (\<lambda>(i, v). f i v) (sa_elems root) u)
    \<and> distinct (map fst (sa_elems root)) \<and> map_of (sa_elems root) = sa_map root
    \<and> (\<exists>copy. ILibSparseArray_Move root = Some copy \<and> sa_ok bz n copy \<and> sa_map copy = sa_map root)"
proof -
  have f: "call (Some g) = (\<lambda>(i, v). g i v)" for g :: "int \<Rightarrow> addr \<Rightarrow> 'b \<Rightarrow> 'b"
    by (auto simp: call_def fun_eq_iff)
  note dist = sa_elems_distinct [OF assms]
  have map: "map_of (sa_elems root) = sa_map root"
  proof
    fix i
    show "map_of (sa_elems root) i = sa_map root i"
      using sa_elems_in [OF assms, of i] dist by (metis map_of_SomeD map_of_is_SomeI not_Some_eq)
  qed
  have "\<forall>(i, v) \<in> set (sa_elems root). sa_index bz n i \<and> v \<noteq> 0"
  proof (clarify)
    fix i v assume "(i, v) \<in> set (sa_elems root)"
    then have m: "sa_map root i = Some v" using sa_elems_in [OF assms] by blast
    then obtain k where k: "bucket_no root i = Some k" "bucket_map (bucket root ! k) i = Some v"
      by (auto simp: sa_map_def split: option.splits)
    then have "k < n" using assms by (auto simp: bucket_no_def sa_ok_def split: if_splits)
    with assms have "bucket_ok bz k (bucket root ! k)" by (simp add: sa_ok_def)
    from bucket_map_dom [OF this k(2)] \<open>k < n\<close> show "sa_index bz n i \<and> v \<noteq> 0" by (simp add: sa_index_def)
  qed
  from Move_fold [OF sa_Create_ok(1) this dist] obtain copy where
    "fold (call (Some ILibSparseArray_Move_OnEnumerate)) (sa_elems root) (Some (ILibSparseArray_Create n bz)) = Some copy"
    "sa_ok bz n copy" "sa_map copy = sa_map root" by (auto simp: sa_Create_ok(2) map)
  moreover have "ILibSparseArray_CreateEx root = ILibSparseArray_Create n bz"
    using assms by (simp add: ILibSparseArray_CreateEx_def sa_ok_def)
  ultimately show ?thesis
    using map dist
    by (simp add: ILibSparseArray_ClearEx_def ILibSparseArray_Enumerate_def ILibSparseArray_Move_def f
        ClearEx2_ok [OF assms])
qed

lemma sparse_array_enumerates_witness:
  "ILibSparseArray_ClearEx (Some (\<lambda>i v u. u + 1)) (0 :: nat) (ILibSparseArray_Create 4 (\<lambda>i. i mod 4))
     = Some (ILibSparseArray_Create 4 (\<lambda>i. i mod 4),
         fold (\<lambda>(i, v) u. u + 1) (sa_elems (ILibSparseArray_Create 4 (\<lambda>i. i mod 4))) 0)"
  by (rule conjunct1 [OF sparse_array_enumerates [OF sa_Create_ok(1)]])

text \<open>
  What the array does with negative indices, which its contract does not exclude.  The
  first value added at a negative index makes the next operation on the bucket use it as a list
  (\<open>None\<close>: undefined behaviour), and index -1 of a bucket with a list returns the list itself.
\<close>

theorem sparse_array_negative_index:
  "(case ILibSparseArray_Add (-3) 7 (ILibSparseArray_Create 1 (\<lambda>_. 0)) of
      Some (r, _) \<Rightarrow> (case ILibSparseArray_Add 2 8 r of None \<Rightarrow> True | Some _ \<Rightarrow> False) | None \<Rightarrow> False)
   \<and> (case ILibSparseArray_Add 1 7 (ILibSparseArray_Create 1 (\<lambda>_. 0)) of
        Some (r, _) \<Rightarrow> (case ILibSparseArray_Add 2 8 r of
           Some (r, _) \<Rightarrow> (case ILibSparseArray_Get (-1) r of Some (_, ListP _) \<Rightarrow> True | _ \<Rightarrow> False)
         | None \<Rightarrow> False)
      | None \<Rightarrow> False)"
  by code_simp

end
