(* ===== verification/Hashtable.thy ===== *)
theory Hashtable
  imports SparseArray
begin

text \<open>
  The Hashtable of microstack/ILibParsers.c (\<open>ILibHashtable_DefaultBucketizer\<close> to
  \<open>ILibHashtable_Remove\<close>): a SparseArray indexed by the hash of the two-part key (a pointer and a
  string), whose values point to chains of nodes with equal hash.

  The nodes are a store \<open>heap\<close> from addresses to \<open>ILibHashtable_Node\<close>; \<open>brk\<close> is the address of
  the next allocation.  The address 0 is \<open>NULL\<close>; an access through a null or dangling pointer is
  \<open>None\<close>.
\<close>

unbundle bit_operations_syntax

section \<open>Hash function and bucketizer\<close>

text \<open>The four bytes of \<open>ILibUnaligned_Write32\<close>, and the word \<open>ILibUnaligned_Read32\<close> reads, little endian.\<close>

definition write32 :: "u32 \<Rightarrow> byte list" where
  "write32 v = [ucast v, ucast (drop_bit 8 v), ucast (drop_bit 16 v), ucast (drop_bit 24 v)]"

definition read32 :: "byte list \<Rightarrow> u32" where
  "read32 t = ucast (t ! 0) OR push_bit 8 (ucast (t ! 1)) OR push_bit 16 (ucast (t ! 2))
     OR push_bit 24 (ucast (t ! 3))"

definition ILibHashtable_DefaultBucketizer :: "int \<Rightarrow> int" where
  "ILibHashtable_DefaultBucketizer v =
     (let tmp = write32 (word_of_int v) in uint (tmp ! 0 XOR tmp ! 1 XOR tmp ! 2 XOR tmp ! 3))"

definition key2_at :: "byte list \<Rightarrow> int \<Rightarrow> byte option" where
  "key2_at Key2 i = (if i < 0 then None else rd Key2 (nat i))"

definition ILibHashtable_DefaultHashFunc :: "addr \<Rightarrow> byte list option \<Rightarrow> int \<Rightarrow> int option" where
  "ILibHashtable_DefaultHashFunc Key1 Key2 Key2Len = do {
     let h = (if Key1 \<noteq> 0 then of_nat Key1 else 0 :: u32);
     h \<leftarrow> (case Key2 of None \<Rightarrow> Some h
           | Some k \<Rightarrow>
               if Key2Len < 5
               then do {
                 tmp \<leftarrow> those (map (\<lambda>i. key2_at k (int i)) [0 ..< nat Key2Len]);
                 Some (h XOR read32 (tmp @ replicate (4 - nat Key2Len) 0)) }
               else do {
                 tmp \<leftarrow> those (map (\<lambda>i. key2_at k (Key2Len - 1 - int i)) [0 ..< 4]);
                 let h = h XOR read32 tmp;
                 if Key2Len > 12
                 then do {
                   tmp \<leftarrow> those (map (\<lambda>i. key2_at k (int i + Key2Len div 2)) [0 ..< 4]);
                   Some (h XOR read32 tmp) }
                 else Some h });
     Some (uint (h AND 0x7FFFFFFF)) }"

section \<open>State\<close>

record ILibHashtable_Node =
  "next" :: addr
  prev :: addr
  Key1 :: addr
  Key2 :: "byte list option"
  Key2Len :: int
  NodeData :: addr

record ILibHashtable_Root =
  table :: sa_root
  hashFunc :: "addr \<Rightarrow> byte list option \<Rightarrow> int \<Rightarrow> int option"
  heap :: "addr \<rightharpoonup> ILibHashtable_Node"
  brk :: addr

datatype ILibHashtable_Flags = Flags_NONE | Flags_ADD | Flags_REMOVE

definition ILibHashtable_Create :: ILibHashtable_Root where
  "ILibHashtable_Create =
     \<lparr>table = ILibSparseArray_Create 256 ILibHashtable_DefaultBucketizer,
      hashFunc = ILibHashtable_DefaultHashFunc, heap = Map.empty, brk = 1\<rparr>"

definition ILibHashtable_ChangeHashFunc ::
  "(addr \<Rightarrow> byte list option \<Rightarrow> int \<Rightarrow> int option) \<Rightarrow> ILibHashtable_Root \<Rightarrow> ILibHashtable_Root" where
  "ILibHashtable_ChangeHashFunc f root = root\<lparr>hashFunc := f\<rparr>"

text \<open>The chains of the destroyed array are not freed.\<close>

definition ILibHashtable_ChangeBucketizer ::
  "nat \<Rightarrow> (int \<Rightarrow> int) \<Rightarrow> ILibHashtable_Root \<Rightarrow> ILibHashtable_Root" where
  "ILibHashtable_ChangeBucketizer bucketCount bz root =
     root\<lparr>table := ILibSparseArray_Create bucketCount bz\<rparr>"

definition ILibHashtable_CreateNode ::
  "addr \<Rightarrow> byte list option \<Rightarrow> int \<Rightarrow> addr \<Rightarrow> ILibHashtable_Root \<Rightarrow> (ILibHashtable_Root \<times> addr) option" where
  "ILibHashtable_CreateNode k1 k2 k2len d root = do {
     copy \<leftarrow> (if k2len > 0
              then (case k2 of None \<Rightarrow> None
                    | Some k \<Rightarrow> if nat k2len \<le> length k then Some (Some (take (nat k2len) k)) else None)
              else Some None);
     Some (root\<lparr>heap := (heap root)(brk root \<mapsto>
              \<lparr>next = 0, prev = 0, Key1 = k1, Key2 = copy, Key2Len = k2len, NodeData = d\<rparr>),
            brk := brk root + 1\<rparr>, brk root) }"

section \<open>Operations\<close>

text \<open>\<open>node->Key1 == Key1 && node->Key2Len == Key2Len && memcmp(node->Key2, Key2, Key2Len) == 0\<close>\<close>

definition node_is :: "ILibHashtable_Node \<Rightarrow> addr \<Rightarrow> byte list option \<Rightarrow> int \<Rightarrow> bool option" where
  "node_is n k1 k2 k2len =
     (if Key1 n = k1 \<and> Key2Len n = k2len
      then (if k2len = 0 then Some True
            else if k2len < 0 then None
            else (case (Key2 n, k2) of
                    (Some a, Some b) \<Rightarrow>
                      (if nat k2len \<le> length a \<and> nat k2len \<le> length b
                       then Some (take (nat k2len) a = take (nat k2len) b) else None)
                  | _ \<Rightarrow> None))
      else Some False)"

text \<open>The search along a chain; the result is \<open>node\<close> and \<open>prev\<close>.\<close>

partial_function (option) chain_loop ::
  "(addr \<rightharpoonup> ILibHashtable_Node) \<Rightarrow> addr \<Rightarrow> byte list option \<Rightarrow> int \<Rightarrow> addr \<Rightarrow> addr \<Rightarrow> (addr \<times> addr) option" where
  "chain_loop h k1 k2 k2len node prv =
     (if node = 0 then Some (0, prv)
      else do {
        n \<leftarrow> h node;
        m \<leftarrow> node_is n k1 k2 k2len;
        if m then Some (node, prv) else chain_loop h k1 k2 k2len (next n) node })"

declare chain_loop.simps [code]

definition store_node ::
  "addr \<Rightarrow> (ILibHashtable_Node \<Rightarrow> ILibHashtable_Node) \<Rightarrow> ILibHashtable_Root \<Rightarrow> ILibHashtable_Root option" where
  "store_node a f root = map_option (\<lambda>n. root\<lparr>heap := (heap root)(a \<mapsto> f n)\<rparr>) (heap root a)"

definition ILibHashtable_GetEx ::
  "ILibHashtable_Root \<Rightarrow> addr \<Rightarrow> byte list option \<Rightarrow> int \<Rightarrow> ILibHashtable_Flags \<Rightarrow> (ILibHashtable_Root \<times> addr) option" where
  "ILibHashtable_GetEx root k1 k2 k2len flags = do {
     hash \<leftarrow> hashFunc root k1 k2 k2len;
     (_, p) \<leftarrow> ILibSparseArray_Get hash (table root);
     first \<leftarrow> (case p of Value a \<Rightarrow> Some a | ListP _ \<Rightarrow> None);
     if first = 0
     then (if flags = Flags_ADD
           then do {
             (root, n) \<leftarrow> ILibHashtable_CreateNode k1 k2 k2len 0 root;
             (t, _) \<leftarrow> ILibSparseArray_Add hash n (table root);
             Some (root\<lparr>table := t\<rparr>, n) }
           else Some (root, 0))
     else do {
       (node, prv) \<leftarrow> chain_loop (heap root) k1 k2 k2len first 0;
       if node = 0
       then (if flags = Flags_ADD
             then do {
               (root, n) \<leftarrow> ILibHashtable_CreateNode k1 k2 k2len 0 root;
               root \<leftarrow> store_node prv (\<lambda>m. m\<lparr>next := n\<rparr>) root;
               root \<leftarrow> store_node n (\<lambda>m. m\<lparr>prev := prv\<rparr>) root;
               Some (root, n) }
             else Some (root, 0))
       else if flags = Flags_REMOVE
       then do {
         nd \<leftarrow> heap root node;
         if prev nd = 0
         then do {
           (t, _) \<leftarrow> ILibSparseArray_Remove hash (table root);
           Some (root\<lparr>table := t\<rparr>, node) }
         else do {
           root \<leftarrow> store_node (prev nd) (\<lambda>m. m\<lparr>next := next nd\<rparr>) root;
           root \<leftarrow> (if next nd \<noteq> 0 then store_node (next nd) (\<lambda>m. m\<lparr>prev := prev nd\<rparr>) root else Some root);
           Some (root, node) } }
       else Some (root, node) } }"

definition ILibHashtable_Put ::
  "ILibHashtable_Root \<Rightarrow> addr \<Rightarrow> byte list option \<Rightarrow> int \<Rightarrow> addr \<Rightarrow> (ILibHashtable_Root \<times> addr) option" where
  "ILibHashtable_Put root k1 k2 k2len d = do {
     (root, node) \<leftarrow> ILibHashtable_GetEx root k1 k2 k2len Flags_ADD;
     n \<leftarrow> heap root node;
     root \<leftarrow> store_node node (\<lambda>m. m\<lparr>NodeData := d\<rparr>) root;
     Some (root, NodeData n) }"

definition ILibHashtable_Get ::
  "ILibHashtable_Root \<Rightarrow> addr \<Rightarrow> byte list option \<Rightarrow> int \<Rightarrow> addr option" where
  "ILibHashtable_Get root k1 k2 k2len = do {
     (root, node) \<leftarrow> ILibHashtable_GetEx root k1 k2 k2len Flags_NONE;
     if node \<noteq> 0 then map_option NodeData (heap root node) else Some 0 }"

definition ILibHashtable_Remove ::
  "ILibHashtable_Root \<Rightarrow> addr \<Rightarrow> byte list option \<Rightarrow> int \<Rightarrow> (ILibHashtable_Root \<times> addr) option" where
  "ILibHashtable_Remove root k1 k2 k2len = do {
     (root, node) \<leftarrow> ILibHashtable_GetEx root k1 k2 k2len Flags_REMOVE;
     if node \<noteq> 0
     then do { n \<leftarrow> heap root node; Some (root\<lparr>heap := (heap root)(node := None)\<rparr>, NodeData n) }
     else Some (root, 0) }"

text \<open>
  Enumeration and clearing: the callbacks run along each chain the SparseArray visits.  The
  callback of the user is a function on its state.
\<close>

partial_function (option) enumerate_chain ::
  "bool \<Rightarrow> (addr \<Rightarrow> byte list option \<Rightarrow> int \<Rightarrow> addr \<Rightarrow> 'u \<Rightarrow> 'u) option \<Rightarrow> addr
     \<Rightarrow> (addr \<rightharpoonup> ILibHashtable_Node) \<Rightarrow> 'u \<Rightarrow> ((addr \<rightharpoonup> ILibHashtable_Node) \<times> 'u) option" where
  "enumerate_chain destroy f node h user =
     (if node = 0 then Some (h, user)
      else do {
        n \<leftarrow> h node;
        enumerate_chain destroy f (next n) (if destroy then h(node := None) else h)
          (case f of None \<Rightarrow> user | Some g \<Rightarrow> g (Key1 n) (Key2 n) (Key2Len n) (NodeData n) user) })"

declare enumerate_chain.simps [code]

definition ILibHashtable_Sink ::
  "bool \<Rightarrow> (addr \<Rightarrow> byte list option \<Rightarrow> int \<Rightarrow> addr \<Rightarrow> 'u \<Rightarrow> 'u) option
     \<Rightarrow> int \<Rightarrow> addr \<Rightarrow> ((addr \<rightharpoonup> ILibHashtable_Node) \<times> 'u) option \<Rightarrow> ((addr \<rightharpoonup> ILibHashtable_Node) \<times> 'u) option" where
  "ILibHashtable_Sink destroy f i v st = do { (h, u) \<leftarrow> st; enumerate_chain destroy f v h u }"

definition ILibHashtable_Enumerate ::
  "ILibHashtable_Root \<Rightarrow> (addr \<Rightarrow> byte list option \<Rightarrow> int \<Rightarrow> addr \<Rightarrow> 'u \<Rightarrow> 'u) option \<Rightarrow> 'u \<Rightarrow> 'u option" where
  "ILibHashtable_Enumerate root f user = do {
     (_, st) \<leftarrow> ILibSparseArray_Enumerate (Some (ILibHashtable_Sink False f)) (Some (heap root, user)) (table root);
     (_, u) \<leftarrow> st;
     Some u }"

definition ILibHashtable_ClearEx ::
  "ILibHashtable_Root \<Rightarrow> (addr \<Rightarrow> byte list option \<Rightarrow> int \<Rightarrow> addr \<Rightarrow> 'u \<Rightarrow> 'u) option \<Rightarrow> 'u
     \<Rightarrow> (ILibHashtable_Root \<times> 'u) option" where
  "ILibHashtable_ClearEx root f user = do {
     (t, st) \<leftarrow> ILibSparseArray_ClearEx (Some (ILibHashtable_Sink True f)) (Some (heap root, user)) (table root);
     (h, u) \<leftarrow> st;
     Some (root\<lparr>table := t, heap := h\<rparr>, u) }"

definition ILibHashtable_Clear :: "ILibHashtable_Root \<Rightarrow> ILibHashtable_Root option" where
  "ILibHashtable_Clear root =
     map_option (\<lambda>(t, _). root\<lparr>table := t\<rparr>) (ILibSparseArray_ClearEx None () (table root))"


section \<open>Properties\<close>

lemma uint_byte: "0 \<le> uint (b :: byte) \<and> uint b < 256"
proof -
  have "uint b < 2 ^ LENGTH(8)" by (rule uint_bounded)
  then show ?thesis by simp
qed

lemma and_31: "uint (w AND 0x7FFFFFFF :: u32) < 2 ^ 31"
proof -
  have "w AND 0x7FFFFFFF = take_bit 31 w" by (simp add: take_bit_eq_mask mask_eq_exp_minus_1)
  then show ?thesis using take_bit_int_less_exp [of 31 "uint w"] by (simp add: unsigned_take_bit_eq)
qed

lemma default_hash_range:
  assumes "ILibHashtable_DefaultHashFunc k1 k2 len = Some h"
  shows "h < 2 ^ 31" "sa_index ILibHashtable_DefaultBucketizer 256 h"
proof -
  obtain w where "h = uint (w AND 0x7FFFFFFF :: u32)"
    using assms unfolding ILibHashtable_DefaultHashFunc_def Let_def bind_eq_Some_conv
    by (elim exE conjE) (simp only: option.inject, blast)
  then show "h < 2 ^ 31" "sa_index ILibHashtable_DefaultBucketizer 256 h" using and_31 [of w] uint_byte
    by (simp_all add: sa_index_def ILibHashtable_DefaultBucketizer_def Let_def)
qed

text \<open>
  Every hash \<open>ILibHashtable_DefaultHashFunc\<close> computes is a non-negative \<open>int\<close> that
  \<open>ILibHashtable_DefaultBucketizer\<close> maps into the 256 buckets of a new table, so every access to
  its SparseArray meets the precondition of \<open>sparse_array_is_map\<close>.
\<close>

theorem hashtable_indices_valid:
  assumes "ILibHashtable_DefaultHashFunc k1 k2 len = Some h"
  shows "h < 2 ^ 31 \<and> sa_index ILibHashtable_DefaultBucketizer (bucketSize (table ILibHashtable_Create)) h"
  using default_hash_range [OF assms] by (simp add: ILibHashtable_Create_def ILibSparseArray_Create_def)

lemma hashtable_indices_valid_witness:
  "ILibHashtable_DefaultHashFunc 7 None 0 = Some 7
   \<and> sa_index ILibHashtable_DefaultBucketizer (bucketSize (table ILibHashtable_Create)) 7"
  using hashtable_indices_valid [of 7 None 0 7] by (simp add: ILibHashtable_DefaultHashFunc_def)

definition ex_table :: "ILibHashtable_Root option" where
  "ex_table = do {
     (t, _) \<leftarrow> ILibHashtable_Put ILibHashtable_Create 1 None 0 10;
     (t, _) \<leftarrow> ILibHashtable_Put t 0 (Some [1]) 1 20;
     Some t }"

text \<open>
  Removing the first node of a chain removes the chain.  A pointer key and a string
  key with the same hash are both stored and found; after the first is removed the second is no
  longer found, although nobody removed it.
\<close>

theorem hashtable_remove_loses_colliding:
  "do { t \<leftarrow> ex_table; ILibHashtable_Get t 1 None 0 } = Some 10
   \<and> do { t \<leftarrow> ex_table; ILibHashtable_Get t 0 (Some [1]) 1 } = Some 20
   \<and> do { t \<leftarrow> ex_table; (t, r) \<leftarrow> ILibHashtable_Remove t 1 None 0; Some r } = Some 10
   \<and> do { t \<leftarrow> ex_table; (t, r) \<leftarrow> ILibHashtable_Remove t 1 None 0; ILibHashtable_Get t 0 (Some [1]) 1 } = Some 0"
  by (intro conjI; code_simp)


section \<open>Keys\<close>

type_synonym hkey = "addr \<times> byte list"

definition hk_ok :: "addr \<times> byte list option \<times> int \<Rightarrow> bool" where
  "hk_ok k = (case k of (k1, k2, len) \<Rightarrow>
     0 \<le> len \<and> (case k2 of None \<Rightarrow> len = 0 | Some b \<Rightarrow> nat len \<le> length b))"

definition hk_norm :: "addr \<times> byte list option \<times> int \<Rightarrow> hkey" where
  "hk_norm k = (case k of (k1, k2, len) \<Rightarrow> (k1, case k2 of None \<Rightarrow> [] | Some b \<Rightarrow> take (nat len) b))"

definition hk_hash :: "hkey \<Rightarrow> int" where
  "hk_hash k = the (ILibHashtable_DefaultHashFunc (fst k) (Some (snd k)) (int (length (snd k))))"

lemma those_defined: "\<forall>x \<in> set xs. f x \<noteq> None \<Longrightarrow> \<exists>ys. those (map f xs) = Some ys"
  by (induction xs) auto

lemma key2_take: "i < len \<Longrightarrow> key2_at (take (nat len) b) i = key2_at b i"
  by (auto simp: key2_at_def rd_def)

lemma key2_defined: "0 \<le> i \<Longrightarrow> i < int (length b) \<Longrightarrow> key2_at b i \<noteq> None"
  by (auto simp: key2_at_def rd_def)

lemma hash_take:
  assumes "0 \<le> len"
  shows "ILibHashtable_DefaultHashFunc k1 (Some (take (nat len) b)) len = ILibHashtable_DefaultHashFunc k1 (Some b) len"
proof -
  have m1: "map (\<lambda>i. key2_at (take (nat len) b) (int i)) [0 ..< nat len] = map (\<lambda>i. key2_at b (int i)) [0 ..< nat len]"
    by (rule map_cong) (auto intro: key2_take)
  have m2: "map (\<lambda>i. key2_at (take (nat len) b) (len - 1 - int i)) [0 ..< 4] = map (\<lambda>i. key2_at b (len - 1 - int i)) [0 ..< 4]"
    by (rule map_cong) (auto intro!: key2_take)
  have m3: "map (\<lambda>i. key2_at (take (nat len) b) (int i + len div 2)) [0 ..< 4] = map (\<lambda>i. key2_at b (int i + len div 2)) [0 ..< 4]"
    if "12 < len"
  proof (rule map_cong [OF refl])
    fix i assume "i \<in> set [0 ..< 4]"
    then have "int i + len div 2 < len" using that by auto
    then show "key2_at (take (nat len) b) (int i + len div 2) = key2_at b (int i + len div 2)" by (rule key2_take)
  qed
  show ?thesis unfolding ILibHashtable_DefaultHashFunc_def Let_def option.case
    by (cases "len < 5"; cases "12 < len"; simp_all only: m1 m2 m3 if_True if_False)
qed

lemma hash_defined:
  "\<exists>h. ILibHashtable_DefaultHashFunc k1 (Some b) (int (length b)) = Some h"
proof -
  let ?l = "int (length b)"
  obtain t1 where t1: "those (map (\<lambda>i. key2_at b (int i)) [0 ..< nat ?l]) = Some t1"
    using those_defined [of "[0 ..< nat ?l]" "\<lambda>i. key2_at b (int i)"] key2_defined by auto
  show ?thesis
  proof (cases "?l < 5")
    case True
    then show ?thesis using t1 by (simp add: ILibHashtable_DefaultHashFunc_def Let_def)
  next
    case False
    obtain t2 where t2: "those (map (\<lambda>i. key2_at b (?l - 1 - int i)) [0 ..< 4]) = Some t2"
      using those_defined [of "[0 ..< 4]" "\<lambda>i. key2_at b (?l - 1 - int i)"] key2_defined [of _ b] False by auto
    show ?thesis
    proof (cases "12 < ?l")
      case True
      have "key2_at b (int i + ?l div 2) \<noteq> None" if "i < 4" for i
        using that True by (intro key2_defined) auto
      then obtain t3 where "those (map (\<lambda>i. key2_at b (int i + ?l div 2)) [0 ..< 4]) = Some t3"
        using those_defined [of "[0 ..< 4]" "\<lambda>i. key2_at b (int i + ?l div 2)"] by auto
      then show ?thesis using t2 True False unfolding ILibHashtable_DefaultHashFunc_def Let_def by simp
    next
      case len: False
      then show ?thesis using t2 False unfolding ILibHashtable_DefaultHashFunc_def Let_def by simp
    qed
  qed
qed

lemma hash_norm:
  assumes "hk_ok (k1, k2, len)"
  shows "ILibHashtable_DefaultHashFunc k1 k2 len = Some (hk_hash (hk_norm (k1, k2, len)))"
proof (cases k2)
  case None
  have "read32 (replicate 4 0) = 0" by (simp add: read32_def numeral_eq_Suc)
  then show ?thesis using None assms by (simp add: hk_ok_def hk_hash_def hk_norm_def ILibHashtable_DefaultHashFunc_def Let_def)
next
  case (Some b)
  let ?t = "take (nat len) b"
  have l: "int (length ?t) = len" "0 \<le> len" using Some assms by (simp_all add: hk_ok_def)
  obtain h where "ILibHashtable_DefaultHashFunc k1 (Some ?t) (int (length ?t)) = Some h" using hash_defined by blast
  then show ?thesis using l hash_take [OF l(2), of k1 b] Some by (simp add: hk_hash_def hk_norm_def)
qed

lemma hash_index: "sa_index ILibHashtable_DefaultBucketizer 256 (hk_hash k)"
proof -
  obtain h where h: "ILibHashtable_DefaultHashFunc (fst k) (Some (snd k)) (int (length (snd k))) = Some h"
    using hash_defined by blast
  show ?thesis using default_hash_range [OF h] h by (simp add: hk_hash_def)
qed

section \<open>Chains\<close>

text \<open>
  The entries of a chain: the address of each node, its key and its value.  \<open>hseg h p a cs q b\<close>: the
  nodes \<open>cs\<close> are linked from \<open>a\<close> to \<open>b\<close>, with \<open>p\<close> in front of the first and \<open>q\<close> the last.
\<close>

type_synonym hentry = "addr \<times> hkey \<times> addr"

definition hnode :: "addr \<Rightarrow> addr \<Rightarrow> hkey \<Rightarrow> addr \<Rightarrow> ILibHashtable_Node" where
  "hnode p nx k d = \<lparr>next = nx, prev = p, Key1 = fst k, Key2 = (if snd k = [] then None else Some (snd k)),
     Key2Len = int (length (snd k)), NodeData = d\<rparr>"

fun hseg :: "(addr \<rightharpoonup> ILibHashtable_Node) \<Rightarrow> addr \<Rightarrow> addr \<Rightarrow> hentry list \<Rightarrow> addr \<Rightarrow> addr \<Rightarrow> bool" where
  "hseg h p a [] q b \<longleftrightarrow> a = b \<and> p = q"
| "hseg h p a ((x, k, d) # cs) q b \<longleftrightarrow>
     a = x \<and> x \<noteq> 0 \<and> (\<exists>nx. h x = Some (hnode p nx k d) \<and> hseg h x nx cs q b)"

definition hkeys :: "hentry list \<Rightarrow> hkey list" where
  "hkeys cs = map (fst \<circ> snd) cs"

lemma hkeys_simps [simp]: "hkeys [] = []" "hkeys (e # cs) = fst (snd e) # hkeys cs" "hkeys (cs @ cs') = hkeys cs @ hkeys cs'"
  by (simp_all add: hkeys_def)

lemma hnode_inject [simp]:
  "hnode p nx k d = hnode p' nx' k' d' \<longleftrightarrow> p = p' \<and> nx = nx' \<and> k = k' \<and> d = d'"
  by (cases k; cases k') (auto simp: hnode_def split: if_splits)

lemma hseg_append: "hseg h p a (cs @ cs') q b \<longleftrightarrow> (\<exists>q' b'. hseg h p a cs q' b' \<and> hseg h q' b' cs' q b)"
  by (induction cs arbitrary: p a) (auto, blast+)

lemma hseg_frame: "x \<notin> fst ` set cs \<Longrightarrow> hseg (h(x := v)) p a cs q b = hseg h p a cs q b"
  by (induction cs arbitrary: p a) auto

lemma hnode_sel [simp]:
  "next (hnode p nx k d) = nx" "prev (hnode p nx k d) = p" "NodeData (hnode p nx k d) = d"
  "(hnode p nx k d)\<lparr>next := nx'\<rparr> = hnode p nx' k d" "(hnode p nx k d)\<lparr>prev := p'\<rparr> = hnode p' nx k d"
  "(hnode p nx k d)\<lparr>NodeData := d'\<rparr> = hnode p nx k d'"
  by (simp_all add: hnode_def)

lemma node_is_spec:
  assumes "hk_ok (k1, k2, len)"
  shows "node_is (hnode p nx k d) k1 k2 len = Some (k = hk_norm (k1, k2, len))"
  using assms by (cases k2; cases k) (auto simp: node_is_def hnode_def hk_ok_def hk_norm_def min_def split: if_splits)

lemma chain_loop_None:
  assumes "hk_ok (k1, k2, len)"
  shows "hseg h p a cs q 0 \<Longrightarrow> hk_norm (k1, k2, len) \<notin> set (hkeys cs) \<Longrightarrow> chain_loop h k1 k2 len a p = Some (0, q)"
proof (induction cs arbitrary: p a)
  case Nil
  then show ?case by (simp add: chain_loop.simps)
next
  case (Cons e cs)
  then show ?case by (cases e) (subst chain_loop.simps, auto simp: node_is_spec [OF assms])
qed

lemma chain_loop_Some:
  assumes "hk_ok (k1, k2, len)"
  shows "hseg h p a (cs @ (x, hk_norm (k1, k2, len), d) # cs') q 0 \<Longrightarrow> hk_norm (k1, k2, len) \<notin> set (hkeys cs) \<Longrightarrow>
    \<exists>q'. chain_loop h k1 k2 len a p = Some (x, q')"
proof (induction cs arbitrary: p a)
  case Nil
  then show ?case by (subst chain_loop.simps) (auto simp: node_is_spec [OF assms])
next
  case (Cons e cs)
  then show ?case by (cases e) (subst chain_loop.simps, auto simp: node_is_spec [OF assms])
qed

section \<open>The table\<close>

definition chead :: "hentry list \<Rightarrow> addr" where
  "chead cs = (case cs of [] \<Rightarrow> 0 | e # _ \<Rightarrow> fst e)"

text \<open>The chain \<open>cs\<close> of the hash \<open>i\<close> in the heap \<open>h\<close>.\<close>

definition chain_ok :: "(addr \<rightharpoonup> ILibHashtable_Node) \<Rightarrow> int \<Rightarrow> hentry list \<Rightarrow> bool" where
  "chain_ok h i cs \<longleftrightarrow> (\<exists>q. hseg h 0 (chead cs) cs q 0) \<and> (\<forall>e \<in> set cs. hk_hash (fst (snd e)) = i)
     \<and> distinct (hkeys cs) \<and> distinct (map fst cs)"

definition htab_repr :: "ILibHashtable_Root \<Rightarrow> (int \<Rightarrow> hentry list) \<Rightarrow> bool" where
  "htab_repr t C \<longleftrightarrow>
     sa_ok ILibHashtable_DefaultBucketizer 256 (table t) \<and> hashFunc t = ILibHashtable_DefaultHashFunc
     \<and> 0 < brk t \<and> (\<forall>a. heap t a \<noteq> None \<longrightarrow> a < brk t)
     \<and> (\<forall>i. chain_ok (heap t) i (C i) \<and> sa_map (table t) i = (if C i = [] then None else Some (chead (C i))))"

lemma chead_simps [simp]: "chead [] = 0" "chead (e # cs) = fst e"
  by (simp_all add: chead_def)

lemma chead_append: "cs \<noteq> [] \<Longrightarrow> chead (cs @ cs') = chead cs"
  by (cases cs) simp_all

lemma hseg_cong: "\<forall>x \<in> fst ` set cs. h' x = h x \<Longrightarrow> hseg h' p a cs q b = hseg h p a cs q b"
  by (induction cs arbitrary: p a) auto

lemma hseg_node: "hseg h p a cs q b \<Longrightarrow> (x, k, d) \<in> set cs \<Longrightarrow> x \<noteq> 0 \<and> (\<exists>p' nx. h x = Some (hnode p' nx k d))"
  by (induction cs arbitrary: p a) fastforce+

lemma hseg_head: "hseg h p a cs q b \<Longrightarrow> cs \<noteq> [] \<Longrightarrow> a = chead cs \<and> a \<noteq> 0"
  by (cases cs) auto

lemma hseg_last: "hseg h p a cs q b \<Longrightarrow> q = (if cs = [] then p else fst (last cs))"
  by (induction cs arbitrary: p a) auto

lemma chains_disjoint:
  assumes "chain_ok h i cs" "chain_ok h j ds" "i \<noteq> j"
  shows "fst ` set cs \<inter> fst ` set ds = {}"
proof -
  have False if "(x, k, d) \<in> set cs" "(x, k', d') \<in> set ds" for x k d k' d'
  proof -
    have "k = k'"
      using hseg_node [OF _ that(1)] hseg_node [OF _ that(2)] assms(1,2) by (fastforce simp: chain_ok_def)
    then show False using that assms by (fastforce simp: chain_ok_def)
  qed
  then show ?thesis by (fastforce simp: image_iff)
qed

lemma chain_ok_Nil [simp]: "chain_ok h i []"
  by (simp add: chain_ok_def)

lemma htab_reprD:
  assumes "htab_repr t C"
  shows "chain_ok (heap t) i (C i)" "sa_map (table t) i = (if C i = [] then None else Some (chead (C i)))"
    "sa_ok ILibHashtable_DefaultBucketizer 256 (table t)" "hashFunc t = ILibHashtable_DefaultHashFunc"
    "0 < brk t" "heap t a \<noteq> None \<Longrightarrow> a < brk t"
  using assms by (auto simp: htab_repr_def)

lemma repr_update:
  assumes "htab_repr t C" "chain_ok (heap t') i cs"
    and "sa_ok ILibHashtable_DefaultBucketizer 256 (table t')"
    and "sa_map (table t') = (sa_map (table t))(i := if cs = [] then None else Some (chead cs))"
    and "hashFunc t' = hashFunc t" "0 < brk t'" "\<forall>a. heap t' a \<noteq> None \<longrightarrow> a < brk t'"
    and "\<forall>a. heap t a \<noteq> None \<longrightarrow> a \<notin> fst ` set (C i) \<longrightarrow> heap t' a = heap t a"
  shows "htab_repr t' (C(i := cs))"
proof -
  have "chain_ok (heap t') j (C j)" if "j \<noteq> i" for j
  proof -
    have old: "chain_ok (heap t) j (C j)" "chain_ok (heap t) i (C i)" using assms(1) by (simp_all add: htab_repr_def)
    have "heap t' x = heap t x" if x: "x \<in> fst ` set (C j)" for x
    proof -
      have "x \<notin> fst ` set (C i)" using chains_disjoint [OF old \<open>j \<noteq> i\<close>] x by auto
      moreover have "heap t x \<noteq> None" using x old(1) hseg_node by (fastforce simp: chain_ok_def)
      ultimately show ?thesis using assms(8) by simp
    qed
    then have "hseg (heap t') p a (C j) q b = hseg (heap t) p a (C j) q b" for p a q b by (intro hseg_cong) auto
    then show ?thesis using old(1) by (simp add: chain_ok_def)
  qed
  then show ?thesis using assms by (auto simp: htab_repr_def)
qed

lemma store_data:
  assumes "htab_repr t C" "C i = cs @ (x, k, d) # cs'"
  shows "\<exists>t'. store_node x (\<lambda>m. m\<lparr>NodeData := d'\<rparr>) t = Some t' \<and> htab_repr t' (C(i := cs @ (x, k, d') # cs'))"
    "\<exists>n. heap t x = Some n \<and> NodeData n = d" "x \<noteq> 0"
proof -
  have ok: "chain_ok (heap t) i (cs @ (x, k, d) # cs')" using htab_reprD(1) [OF assms(1), of i] by (simp only: assms(2))
  then obtain q where q: "hseg (heap t) 0 (chead (C i)) (cs @ (x, k, d) # cs') q 0"
    unfolding assms(2) chain_ok_def by blast
  then obtain p' nx where n: "x \<noteq> 0" "heap t x = Some (hnode p' nx k d)" using hseg_node [OF q, of x k d] by auto
  then show "\<exists>n. heap t x = Some n \<and> NodeData n = d" "x \<noteq> 0" by auto
  let ?h = "(heap t)(x \<mapsto> hnode p' nx k d')"
  have fr: "x \<notin> fst ` set cs" "x \<notin> fst ` set cs'" using ok by (auto simp: chain_ok_def)
  have "hseg ?h 0 (chead (C i)) (cs @ (x, k, d') # cs') q 0"
    using q fr n(2) by (auto simp: hseg_append hseg_frame)
  moreover have "chead (C i) = chead (cs @ (x, k, d') # cs')" using assms(2) by (cases cs) auto
  ultimately have c: "chain_ok ?h i (cs @ (x, k, d') # cs')" using ok by (auto simp: chain_ok_def)
  have m: "sa_map (table t) i = Some (chead (cs @ (x, k, d') # cs'))"
    using htab_reprD(2) [OF assms(1), of i] \<open>chead (C i) = _\<close> assms(2) by simp
  have "htab_repr (t\<lparr>heap := ?h\<rparr>) (C(i := cs @ (x, k, d') # cs'))"
    using c m n(2) assms(2) htab_reprD(3-5) [OF assms(1)] htab_reprD(6) [OF assms(1)]
    by (intro repr_update [OF assms(1)]) (auto simp: fun_upd_idem)
  then show "\<exists>t'. store_node x (\<lambda>m. m\<lparr>NodeData := d'\<rparr>) t = Some t' \<and> htab_repr t' (C(i := cs @ (x, k, d') # cs'))"
    using n by (simp add: store_node_def)
qed


lemma create_node:
  assumes "hk_ok (k1, k2, len)"
  shows "ILibHashtable_CreateNode k1 k2 len d root =
    Some (root\<lparr>heap := (heap root)(brk root \<mapsto> hnode 0 0 (hk_norm (k1, k2, len)) d), brk := brk root + 1\<rparr>, brk root)"
  using assms by (cases k2) (auto simp: ILibHashtable_CreateNode_def hk_ok_def hk_norm_def hnode_def)

lemma get_first:
  assumes "htab_repr t C"
  shows "ILibSparseArray_Get (hk_hash k) (table t) = Some (table t, Value (chead (C (hk_hash k))))"
proof -
  have "ILibSparseArray_Get (hk_hash k) (table t) = Some (table t, old_value (sa_map (table t) (hk_hash k)))"
    using GetEx_ok [OF htab_reprD(3) [OF assms] hash_index [of k], of 0] by (auto simp: ILibSparseArray_Get_def)
  then show ?thesis using htab_reprD(2) [OF assms] by (auto simp: old_value_def)
qed

lemma chead_0: "chain_ok h i cs \<Longrightarrow> chead cs = 0 \<longleftrightarrow> cs = []"
  by (cases cs) (auto simp: chain_ok_def)

lemma GetEx_absent:
  assumes t: "htab_repr t C" and k: "hk_ok (k1, k2, len)"
    and absent: "hk_norm (k1, k2, len) \<notin> set (hkeys (C (hk_hash (hk_norm (k1, k2, len)))))"
  shows "flags \<noteq> Flags_ADD \<Longrightarrow> ILibHashtable_GetEx t k1 k2 len flags = Some (t, 0)"
    "\<exists>t'. ILibHashtable_GetEx t k1 k2 len Flags_ADD = Some (t', brk t)
      \<and> htab_repr t' (C(hk_hash (hk_norm (k1, k2, len)) := C (hk_hash (hk_norm (k1, k2, len))) @ [(brk t, hk_norm (k1, k2, len), 0)]))"
proof -
  let ?k = "hk_norm (k1, k2, len)"
  let ?i = "hk_hash ?k"
  note D = htab_reprD [OF t]
  have ch: "chain_ok (heap t) ?i (C ?i)" by (rule D(1))
  then obtain q where q: "hseg (heap t) 0 (chead (C ?i)) (C ?i) q 0" by (auto simp: chain_ok_def)
  have loop: "chain_loop (heap t) k1 k2 len (chead (C ?i)) 0 = Some (0, q)" by (rule chain_loop_None [OF k q absent])
  note h = D(4) hash_norm [OF k] get_first [OF t, of ?k] chead_0 [OF ch]
  show "ILibHashtable_GetEx t k1 k2 len flags = Some (t, 0)" if "flags \<noteq> Flags_ADD"
    using that h loop by (simp add: ILibHashtable_GetEx_def)
  let ?n = "brk t"
  have fresh: "heap t ?n = None" using D(6) by (metis less_irrefl)
  have new: "?n \<notin> fst ` set (C ?i)"
    using hseg_node [OF q] fresh by fastforce
  show "\<exists>t'. ILibHashtable_GetEx t k1 k2 len Flags_ADD = Some (t', ?n) \<and> htab_repr t' (C(?i := C ?i @ [(?n, ?k, 0)]))"
  proof (cases "C ?i = []")
    case True
    let ?t = "t\<lparr>heap := (heap t)(?n \<mapsto> hnode 0 0 ?k 0), brk := ?n + 1\<rparr>"
    obtain sa where sa: "ILibSparseArray_Add ?i ?n (table t) = Some (sa, old_value (sa_map (table t) ?i))"
      "sa_ok ILibHashtable_DefaultBucketizer 256 sa" "sa_map sa = (sa_map (table t))(?i \<mapsto> ?n)"
      using Add_ok [OF D(3) hash_index [of ?k], of ?n] D(5) by auto
    have "ILibHashtable_GetEx t k1 k2 len Flags_ADD = Some (?t\<lparr>table := sa\<rparr>, ?n)"
      using h True create_node [OF k, of 0 t] sa(1) by (simp add: ILibHashtable_GetEx_def)
    moreover have "htab_repr (?t\<lparr>table := sa\<rparr>) (C(?i := [(?n, ?k, 0)]))"
      using D(4,5) D(6) sa(2,3) fresh by (intro repr_update [OF t]) (auto simp: chain_ok_def intro: less_SucI)
    ultimately show ?thesis using True by simp
  next
    case False
    then have q_last: "q = fst (last (C ?i))" using hseg_last [OF q] by simp
    obtain cs x kx dx where cs: "C ?i = cs @ [(x, kx, dx)]" by (metis False rev_exhaust prod_cases3)
    have x: "q = x" using q_last cs by simp
    obtain p' where p': "hseg (heap t) 0 (chead (C ?i)) cs p' x" "x \<noteq> 0" "heap t x = Some (hnode p' 0 kx dx)"
      using q cs by (auto simp: hseg_append)
    have dist: "x \<notin> fst ` set cs" "?n \<notin> fst ` set cs" "x \<noteq> ?n" using ch cs new by (auto simp: chain_ok_def)
    let ?h = "(heap t)(?n \<mapsto> hnode x 0 ?k 0, x \<mapsto> hnode p' ?n kx dx)"
    let ?t = "t\<lparr>heap := ?h, brk := ?n + 1\<rparr>"
    have upd: "(heap t)(?n \<mapsto> hnode 0 0 ?k 0, x \<mapsto> hnode p' ?n kx dx, ?n \<mapsto> hnode x 0 ?k 0) = ?h"
      using dist(3) by (simp add: fun_upd_twist)
    have "ILibHashtable_GetEx t k1 k2 len Flags_ADD = Some (?t, ?n)"
      using h False loop create_node [OF k, of 0 t] p' x dist(3) upd by (simp add: ILibHashtable_GetEx_def store_node_def)
    moreover have "hseg ?h 0 (chead (C ?i)) (C ?i @ [(?n, ?k, 0)]) ?n 0"
      using p'(1,2) dist D(5) by (auto simp: cs hseg_append hseg_frame)
    then have "chain_ok ?h ?i (C ?i @ [(?n, ?k, 0)])"
      using ch new absent False by (auto simp: chain_ok_def chead_append)
    then have ok: "chain_ok (heap ?t) ?i (C ?i @ [(?n, ?k, 0)])" by simp
    have hd: "chead (C ?i @ [(?n, ?k, 0)]) = chead (C ?i)" by (rule chead_append [OF False])
    have m: "sa_map (table ?t) = (sa_map (table t))(?i := if C ?i @ [(?n, ?k, 0)] = [] then None
        else Some (chead (C ?i @ [(?n, ?k, 0)])))"
      using D(2) [of ?i] False unfolding hd by (simp add: fun_upd_idem)
    have fr: "\<forall>a. heap t a \<noteq> None \<longrightarrow> a \<notin> fst ` set (C ?i) \<longrightarrow> heap ?t a = heap t a"
      using fresh cs by auto
    have bound: "\<forall>a. heap ?t a \<noteq> None \<longrightarrow> a < brk ?t" using D(6) p'(3) by (auto intro: less_SucI)
    have "htab_repr ?t (C(?i := C ?i @ [(?n, ?k, 0)]))"
      by (rule repr_update [OF t ok _ m _ _ bound fr]) (simp_all add: D(3))
    ultimately show ?thesis by simp
  qed
qed


lemma GetEx_present:
  assumes t: "htab_repr t C" and k: "hk_ok (k1, k2, len)" and flags: "flags \<noteq> Flags_REMOVE"
    and C: "C (hk_hash (hk_norm (k1, k2, len))) = cs @ (x, hk_norm (k1, k2, len), d) # cs'"
  shows "ILibHashtable_GetEx t k1 k2 len flags = Some (t, x)"
proof -
  let ?k = "hk_norm (k1, k2, len)"
  let ?i = "hk_hash ?k"
  note D = htab_reprD [OF t]
  have ch: "chain_ok (heap t) ?i (C ?i)" by (rule D(1))
  then obtain q where q: "hseg (heap t) 0 (chead (C ?i)) (cs @ (x, ?k, d) # cs') q 0" unfolding C chain_ok_def by blast
  have "?k \<notin> set (hkeys cs)" using ch unfolding C by (simp add: chain_ok_def)
  then obtain q' where loop: "chain_loop (heap t) k1 k2 len (chead (C ?i)) 0 = Some (x, q')"
    using chain_loop_Some [OF k q] by blast
  have "x \<noteq> 0" using store_data(3) [of t C ?i, OF t C] .
  moreover have "chead (C ?i) \<noteq> 0" using chead_0 [OF ch] C by simp
  ultimately show ?thesis
    using D(4) hash_norm [OF k] get_first [OF t, of ?k] loop flags by (simp add: ILibHashtable_GetEx_def)
qed

lemma Remove_present:
  assumes t: "htab_repr t C" and k: "hk_ok (k1, k2, len)"
    and C: "C (hk_hash (hk_norm (k1, k2, len))) = cs @ (x, hk_norm (k1, k2, len), d) # cs'"
  shows "\<exists>t'. ILibHashtable_Remove t k1 k2 len = Some (t', d)
    \<and> htab_repr t' (C(hk_hash (hk_norm (k1, k2, len)) := if cs = [] then [] else cs @ cs'))"
proof -
  let ?k = "hk_norm (k1, k2, len)"
  let ?i = "hk_hash ?k"
  note D = htab_reprD [OF t]
  have ch: "chain_ok (heap t) ?i (cs @ (x, ?k, d) # cs')" using D(1) [of ?i] unfolding C .
  then obtain q where q: "hseg (heap t) 0 (chead (C ?i)) (cs @ (x, ?k, d) # cs') q 0" unfolding C chain_ok_def by blast
  have dist: "?k \<notin> set (hkeys cs)" "x \<notin> fst ` set cs" "x \<notin> fst ` set cs'" "fst ` set cs \<inter> fst ` set cs' = {}"
    "distinct (map fst cs)" "distinct (map fst cs')"
    using ch by (auto simp: chain_ok_def)
  obtain p nx where s: "hseg (heap t) 0 (chead (C ?i)) cs p x" "x \<noteq> 0" "heap t x = Some (hnode p nx ?k d)"
    "hseg (heap t) x nx cs' q 0"
    using q by (auto simp: hseg_append)
  obtain q' where loop: "chain_loop (heap t) k1 k2 len (chead (C ?i)) 0 = Some (x, q')"
    using chain_loop_Some [OF k q dist(1)] by blast
  have ne: "chead (C ?i) \<noteq> 0" using chead_0 [OF ch] C by simp
  note h = D(4) hash_norm [OF k] get_first [OF t, of ?k] ne loop s(2,3)
  have bound: "\<forall>a. heap t a \<noteq> None \<longrightarrow> a < brk t" using D(6) by blast
  show ?thesis
  proof (cases "cs = []")
    case True
    then have "p = 0" using s(1) by simp
    obtain sa v where sa: "ILibSparseArray_Remove ?i (table t) = Some (sa, v)"
      "sa_ok ILibHashtable_DefaultBucketizer 256 sa" "sa_map sa = (sa_map (table t))(?i := None)"
      using GetEx_ok [OF D(3) hash_index [of ?k], of 1] by (auto simp: ILibSparseArray_Remove_def)
    let ?t = "t\<lparr>table := sa, heap := (heap t)(x := None)\<rparr>"
    have "ILibHashtable_Remove t k1 k2 len = Some (?t, d)"
      using h \<open>p = 0\<close> sa(1) by (simp add: ILibHashtable_Remove_def ILibHashtable_GetEx_def)
    moreover have "htab_repr ?t (C(?i := []))"
      using sa(2,3) D(4,5) bound C by (intro repr_update [OF t]) auto
    ultimately show ?thesis using True by simp
  next
    case False
    then have p: "p = fst (last cs)" using hseg_last [OF s(1)] by simp
    obtain cs1 kx dx where cs: "cs = cs1 @ [(p, kx, dx)]"
      using False p by (metis append_butlast_last_id prod.collapse)
    obtain pp where pp: "hseg (heap t) 0 (chead (C ?i)) cs1 pp p" "p \<noteq> 0" "heap t p = Some (hnode pp x kx dx)"
      using s(1) cs by (auto simp: hseg_append)
    have px: "p \<noteq> x" "p \<notin> fst ` set cs1" "x \<notin> fst ` set cs1" "p \<notin> fst ` set cs'" using dist cs by auto
    have hd: "chead (cs @ cs') = chead (C ?i)" using False by (simp add: C chead_append)
    obtain h' where h': "ILibHashtable_Remove t k1 k2 len = Some (t\<lparr>heap := h'(x := None)\<rparr>, d)"
      "hseg (h'(x := None)) 0 (chead (C ?i)) (cs @ cs') (if cs' = [] then p else q) 0"
      "\<forall>a. a \<notin> fst ` set (cs @ cs') \<longrightarrow> h' a = heap t a"
      "\<forall>a. h' a \<noteq> None \<longrightarrow> heap t a \<noteq> None"
    proof (cases cs')
      case Nil
      let ?h = "(heap t)(p \<mapsto> hnode pp 0 kx dx)"
      show thesis
        using h pp px s(4) Nil cs
        by (intro that [of ?h]) (auto simp: ILibHashtable_Remove_def ILibHashtable_GetEx_def store_node_def
            hseg_append hseg_frame)
    next
      case (Cons e cs1')
      obtain y ky dy where e: "e = (y, ky, dy)" by (cases e)
      obtain ny where y: "nx = y" "y \<noteq> 0" "heap t y = Some (hnode x ny ky dy)" "hseg (heap t) y ny cs1' q 0"
        using s(4) Cons e by auto
      have yd: "y \<noteq> p" "y \<noteq> x" "y \<notin> fst ` set cs1" "y \<notin> fst ` set cs1'" "p \<notin> fst ` set cs1'" "x \<notin> fst ` set cs1'"
        using dist Cons e cs by auto
      let ?h = "(heap t)(p \<mapsto> hnode pp y kx dx, y \<mapsto> hnode p ny ky dy)"
      show thesis
        using h pp px y yd Cons cs e
        by (intro that [of ?h]) (auto simp: ILibHashtable_Remove_def ILibHashtable_GetEx_def store_node_def
            hseg_append hseg_frame)
    qed
    let ?t = "t\<lparr>heap := h'(x := None)\<rparr>"
    have m: "sa_map (table ?t) = (sa_map (table t))(?i := if cs @ cs' = [] then None else Some (chead (cs @ cs')))"
      using D(2) [of ?i] False C unfolding hd by (auto simp: fun_upd_idem)
    have ok: "chain_ok (heap ?t) ?i (cs @ cs')" using ch h'(2) by (auto simp: chain_ok_def hd)
    have b: "\<forall>a. heap ?t a \<noteq> None \<longrightarrow> a < brk ?t" using h'(4) bound by auto
    have fr: "\<forall>a. heap t a \<noteq> None \<longrightarrow> a \<notin> fst ` set (C ?i) \<longrightarrow> heap ?t a = heap t a"
      using h'(3) C by auto
    have "htab_repr ?t (C(?i := cs @ cs'))"
      by (rule repr_update [OF t ok _ m _ _ b fr]) (simp_all add: D)
    then show ?thesis using h'(1) False by simp
  qed
qed

end
