(* ===== verification/HashtableMap.thy ===== *)
theory HashtableMap
  imports Hashtable "HOL-Library.AList"
begin

text \<open>
  The Hashtable of microstack/ILibParsers.c as a data structure: its chained nodes refine
  association lists per hash; on keys without hash collisions it is a dictionary; enumeration
  visits every key once.
\<close>

section \<open>Refinement of the table\<close>

text \<open>
  The abstract table: for each hash the association list of the keys with that hash, in the order
  of the chain.  Removing the first key of a chain removes the chain.
\<close>

type_synonym hbuckets = "int \<Rightarrow> (hkey \<times> addr) list"

definition hrepr :: "ILibHashtable_Root \<Rightarrow> hbuckets \<Rightarrow> bool" where
  "hrepr t A \<longleftrightarrow> (\<exists>C. htab_repr t C \<and> A = (\<lambda>i. map snd (C i)))"

definition bget :: "hkey \<Rightarrow> hbuckets \<Rightarrow> addr" where
  "bget k A = (case map_of (A (hk_hash k)) k of None \<Rightarrow> 0 | Some d \<Rightarrow> d)"

definition bput :: "hkey \<Rightarrow> addr \<Rightarrow> hbuckets \<Rightarrow> hbuckets" where
  "bput k d A = A(hk_hash k := AList.update k d (A (hk_hash k)))"

definition bremove :: "hkey \<Rightarrow> hbuckets \<Rightarrow> hbuckets" where
  "bremove k A = A(hk_hash k := (case A (hk_hash k) of [] \<Rightarrow> []
     | (k', d) # es \<Rightarrow> if k' = k then [] else (k', d) # AList.delete k es))"

lemma update_append: "k \<notin> fst ` set xs \<Longrightarrow> AList.update k d (xs @ ys) = xs @ AList.update k d ys"
  by (induction xs) auto

lemma delete_append: "AList.delete k (xs @ ys) = AList.delete k xs @ AList.delete k ys"
  by (induction xs) auto

lemma map_snd_update: "(\<lambda>i. map snd ((C(j := cs)) i)) = (\<lambda>i. map snd (C i))(j := map snd cs)"
  by auto

lemma hkeys_fst: "set (hkeys cs) = fst ` set (map snd cs)"
  by (simp add: hkeys_def image_comp)

lemma hkeys_split:
  assumes "k \<in> set (hkeys cs)" "distinct (hkeys cs)"
  obtains cs1 x d cs2 where "cs = cs1 @ (x, k, d) # cs2" "k \<notin> fst ` set (map snd cs1)" "k \<notin> fst ` set (map snd cs2)"
proof -
  obtain x d where "(x, k, d) \<in> set cs" using assms(1) by (auto simp: hkeys_def)
  then obtain cs1 cs2 where s: "cs = cs1 @ (x, k, d) # cs2" by (auto dest: split_list)
  with assms(2) have "k \<notin> set (hkeys cs1)" "k \<notin> set (hkeys cs2)" by auto
  then show thesis unfolding hkeys_fst by (rule that [OF s])
qed

lemma hrepr_cases:
  assumes "hrepr t A"
  obtains C where "htab_repr t C" "A = (\<lambda>i. map snd (C i))" "\<And>i. distinct (hkeys (C i))"
  using assms htab_reprD(1) by (auto simp: hrepr_def chain_ok_def)

lemma hreprI: "htab_repr t C \<Longrightarrow> A = (\<lambda>i. map snd (C i)) \<Longrightarrow> hrepr t A"
  by (auto simp: hrepr_def)

lemma Create_hrepr: "hrepr ILibHashtable_Create (\<lambda>_. [])"
proof (rule hreprI)
  show "htab_repr ILibHashtable_Create (\<lambda>_. [])"
    using sa_Create_ok [where bz = ILibHashtable_DefaultBucketizer and n = 256] by (simp add: htab_repr_def ILibHashtable_Create_def)
qed simp

lemma Put_ok:
  assumes "hrepr t A" "hk_ok (k1, k2, len)" and "hk_norm (k1, k2, len) = k"
  shows "\<exists>t'. ILibHashtable_Put t k1 k2 len d = Some (t', bget k A) \<and> hrepr t' (bput k d A)"
proof -
  obtain C where C: "htab_repr t C" "A = (\<lambda>i. map snd (C i))" "distinct (hkeys (C (hk_hash k)))"
    using assms(1) by (metis hrepr_cases)
  let ?i = "hk_hash k"
  show ?thesis
  proof (cases "k \<in> set (hkeys (C ?i))")
    case True
    then obtain cs x d0 cs' where s: "C ?i = cs @ (x, k, d0) # cs'" "k \<notin> fst ` set (map snd cs)"
      using C(3) by (metis hkeys_split)
    have g: "ILibHashtable_GetEx t k1 k2 len Flags_ADD = Some (t, x)"
      using GetEx_present [OF C(1) assms(2), of Flags_ADD] s(1) assms(3) by simp
    obtain t' where t': "store_node x (\<lambda>m. m\<lparr>NodeData := d\<rparr>) t = Some t'"
      "htab_repr t' (C(?i := cs @ (x, k, d) # cs'))"
      using store_data(1) [of t C ?i, OF C(1) s(1)] by blast
    obtain n where n: "heap t x = Some n" "NodeData n = d0"
      using store_data(2) [of t C ?i, OF C(1) s(1)] by blast
    have "bget k A = d0" using s by (auto simp: bget_def C(2) map_add_def map_of_eq_None_iff [THEN iffD2] split: option.split)
    moreover have "bput k d A = (\<lambda>i. map snd ((C(?i := cs @ (x, k, d) # cs')) i))"
      using s by (simp only: bput_def map_snd_update C(2)) (simp add: update_append)
    ultimately show ?thesis using g t' n by (auto simp: ILibHashtable_Put_def intro: hreprI)
  next
    case False
    obtain t1 where t1: "ILibHashtable_GetEx t k1 k2 len Flags_ADD = Some (t1, brk t)"
      "htab_repr t1 (C(?i := C ?i @ [(brk t, k, 0)]))"
      using GetEx_absent(2) [OF C(1) assms(2)] False assms(3) by auto
    have s: "(C(?i := C ?i @ [(brk t, k, 0)])) ?i = C ?i @ (brk t, k, 0) # []" by simp
    obtain t' where t': "store_node (brk t) (\<lambda>m. m\<lparr>NodeData := d\<rparr>) t1 = Some t'"
      "htab_repr t' ((C(?i := C ?i @ [(brk t, k, 0)]))(?i := C ?i @ (brk t, k, d) # []))"
      using store_data(1) [of t1 _ ?i, OF t1(2) s] by blast
    obtain n where n: "heap t1 (brk t) = Some n" "NodeData n = 0"
      using store_data(2) [of t1 _ ?i, OF t1(2) s] by blast
    have f: "k \<notin> fst ` set (map snd (C ?i))" using False by (simp only: hkeys_fst not_False_eq_True)
    then have "bget k A = 0" by (auto simp: bget_def C(2) map_of_eq_None_iff [THEN iffD2])
    moreover have "bput k d A = (\<lambda>i. map snd (((C(?i := C ?i @ [(brk t, k, 0)]))(?i := C ?i @ (brk t, k, d) # [])) i))"
      using update_append [OF f, of d "[]"] by (simp only: bput_def map_snd_update C(2)) simp
    ultimately show ?thesis using t1 t' n by (auto simp: ILibHashtable_Put_def intro: hreprI)
  qed
qed

lemma Get_ok:
  assumes "hrepr t A" "hk_ok (k1, k2, len)" and "hk_norm (k1, k2, len) = k"
  shows "ILibHashtable_Get t k1 k2 len = Some (bget k A)"
proof -
  obtain C where C: "htab_repr t C" "A = (\<lambda>i. map snd (C i))" "distinct (hkeys (C (hk_hash k)))"
    using assms(1) by (metis hrepr_cases)
  let ?i = "hk_hash k"
  show ?thesis
  proof (cases "k \<in> set (hkeys (C ?i))")
    case True
    then obtain cs x d0 cs' where s: "C ?i = cs @ (x, k, d0) # cs'" "k \<notin> fst ` set (map snd cs)"
      using C(3) by (metis hkeys_split)
    have "ILibHashtable_GetEx t k1 k2 len Flags_NONE = Some (t, x)"
      using GetEx_present [OF C(1) assms(2), of Flags_NONE] s(1) assms(3) by simp
    moreover obtain n where "heap t x = Some n" "NodeData n = d0"
      using store_data(2) [of t C ?i, OF C(1) s(1)] by blast
    moreover have "bget k A = d0" using s by (auto simp: bget_def C(2) map_add_def map_of_eq_None_iff [THEN iffD2] split: option.split)
    ultimately show ?thesis using store_data(3) [of t C ?i, OF C(1) s(1)] by (simp add: ILibHashtable_Get_def)
  next
    case False
    have "k \<notin> fst ` set (map snd (C ?i))" using False by (simp only: hkeys_fst not_False_eq_True)
    then have "bget k A = 0" by (auto simp: bget_def C(2) map_of_eq_None_iff [THEN iffD2])
    then show ?thesis using GetEx_absent(1) [OF C(1) assms(2), of Flags_NONE] False assms(3)
      by (simp add: ILibHashtable_Get_def)
  qed
qed

lemma Remove_ok:
  assumes "hrepr t A" "hk_ok (k1, k2, len)" and "hk_norm (k1, k2, len) = k"
  shows "\<exists>t'. ILibHashtable_Remove t k1 k2 len = Some (t', bget k A) \<and> hrepr t' (bremove k A)"
proof -
  obtain C where C: "htab_repr t C" "A = (\<lambda>i. map snd (C i))" "distinct (hkeys (C (hk_hash k)))"
    using assms(1) by (metis hrepr_cases)
  let ?i = "hk_hash k"
  show ?thesis
  proof (cases "k \<in> set (hkeys (C ?i))")
    case True
    then obtain cs x d cs' where s: "C ?i = cs @ (x, k, d) # cs'" "k \<notin> fst ` set (map snd cs)" "k \<notin> fst ` set (map snd cs')"
      using C(3) by (metis hkeys_split)
    then obtain t' where "ILibHashtable_Remove t k1 k2 len = Some (t', d)"
      "htab_repr t' (C(?i := if cs = [] then [] else cs @ cs'))"
      using Remove_present [OF C(1) assms(2)] assms(3) by metis
    moreover have "bget k A = d" using s by (auto simp: bget_def C(2) map_add_def map_of_eq_None_iff [THEN iffD2] split: option.split)
    moreover have "bremove k A = (\<lambda>i. map snd ((C(?i := if cs = [] then [] else cs @ cs')) i))"
      using s by (cases cs) (auto simp: bremove_def map_snd_update C(2) delete_append delete_id image_image)
    ultimately show ?thesis by (auto intro: hreprI)
  next
    case False
    have f: "k \<notin> fst ` set (map snd (C ?i))" using False by (simp only: hkeys_fst not_False_eq_True)
    then have "bget k A = 0" "bremove k A = A"
      by (auto simp: bget_def bremove_def C(2) map_of_eq_None_iff [THEN iffD2] fun_eq_iff delete_id split: list.split)
    then show ?thesis using GetEx_absent(1) [OF C(1) assms(2), of Flags_REMOVE] False assms
      by (simp add: ILibHashtable_Remove_def)
  qed
qed


lemma hrepr_chain:
  assumes "hrepr t A"
  shows "(k, d) \<in> set (A i) \<Longrightarrow> hk_hash k = i" "distinct (map fst (A i))"
proof -
  obtain C where C: "htab_repr t C" "A = (\<lambda>i. map snd (C i))" "\<And>i. distinct (hkeys (C i))"
    using hrepr_cases [OF assms] by blast
  show "distinct (map fst (A i))" using C(3) [of i] by (simp add: C(2) hkeys_def comp_def)
  show "hk_hash k = i" if "(k, d) \<in> set (A i)"
    using that htab_reprD(1) [OF C(1), of i] by (auto simp: C(2) chain_ok_def)
qed

lemma bget_bput: "bget k' (bput k d A) = (if k' = k then d else bget k' A)"
  by (simp add: bget_def bput_def update_conv)

definition hmap :: "ILibHashtable_Root \<Rightarrow> hkey \<Rightarrow> addr option" where
  "hmap t k = (case ILibHashtable_Get t (fst k) (Some (snd k)) (int (length (snd k))) of
     None \<Rightarrow> None | Some d \<Rightarrow> if d = 0 then None else Some d)"

lemma hmap_repr: "hrepr t A \<Longrightarrow> hmap t k = (if bget k A = 0 then None else Some (bget k A))"
  using Get_ok [of t A "fst k" "Some (snd k)" "int (length (snd k))" k] by (simp add: hmap_def hk_ok_def hk_norm_def)

text \<open>Tables whose keys are of a set without hash collisions.\<close>

definition htab_inv :: "hkey set \<Rightarrow> ILibHashtable_Root \<Rightarrow> bool" where
  "htab_inv K t \<longleftrightarrow> inj_on hk_hash K \<and> (\<exists>A. hrepr t A \<and> (\<forall>i. fst ` set (A i) \<subseteq> K))"

definition hput :: "addr \<times> byte list option \<times> int \<Rightarrow> addr \<Rightarrow> ILibHashtable_Root \<Rightarrow> ILibHashtable_Root option" where
  "hput k v t = map_option fst (ILibHashtable_Put t (fst k) (fst (snd k)) (snd (snd k)) v)"

definition hdel :: "addr \<times> byte list option \<times> int \<Rightarrow> ILibHashtable_Root \<Rightarrow> ILibHashtable_Root option" where
  "hdel k t = map_option fst (ILibHashtable_Remove t (fst k) (fst (snd k)) (snd (snd k)))"

definition hget :: "addr \<times> byte list option \<times> int \<Rightarrow> ILibHashtable_Root \<Rightarrow> addr option option" where
  "hget k t = map_option (\<lambda>d. if d = 0 then None else Some d)
     (ILibHashtable_Get t (fst k) (fst (snd k)) (snd (snd k)))"

definition hk_in :: "hkey set \<Rightarrow> addr \<times> byte list option \<times> int \<Rightarrow> bool" where
  "hk_in K k \<longleftrightarrow> hk_ok k \<and> hk_norm k \<in> K"

lemma bucket_single:
  assumes "hrepr t A" "inj_on hk_hash K" "fst ` set (A (hk_hash k)) \<subseteq> K" "k \<in> K"
  shows "A (hk_hash k) = [] \<or> (\<exists>d. A (hk_hash k) = [(k, d)])"
proof -
  have eq: "e = k" if "(e, d) \<in> set (A (hk_hash k))" for e d
    using hrepr_chain(1) [OF assms(1) that] assms(2-4) that by (force dest: inj_onD)
  show ?thesis
  proof (cases "A (hk_hash k)")
    case (Cons e es)
    obtain d where e: "e = (k, d)" using eq Cons by (cases e) auto
    moreover have "es = []"
    proof (cases es)
      case (Cons e2 es')
      then have "fst e2 = k" using eq [of "fst e2" "snd e2"] \<open>A (hk_hash k) = e # es\<close> by simp
      then show ?thesis using hrepr_chain(2) [OF assms(1), of "hk_hash k"] \<open>A (hk_hash k) = e # es\<close> Cons e by simp
    qed simp
    ultimately show ?thesis using Cons by simp
  qed simp
qed

interpretation hd: dictionary "htab_inv K" hmap "hk_in K" "\<lambda>v. v \<noteq> 0" hk_norm hput hdel hget for K
proof
  fix t k and v :: addr assume t: "htab_inv K t" and k: "hk_in K k" and v: "v \<noteq> 0"
  obtain k1 k2 len where kk: "k = (k1, k2, len)" by (cases k)
  obtain A where A: "hrepr t A" "\<forall>i. fst ` set (A i) \<subseteq> K" "inj_on hk_hash K" using t by (auto simp: htab_inv_def)
  have ok: "hk_ok (k1, k2, len)" "hk_norm k \<in> K" using k by (auto simp: hk_in_def kk)
  obtain t' where t': "ILibHashtable_Put t k1 k2 len v = Some (t', bget (hk_norm k) A)" "hrepr t' (bput (hk_norm k) v A)"
    using Put_ok [OF A(1) ok(1)] kk by blast
  have "\<forall>i. fst ` set (bput (hk_norm k) v A i) \<subseteq> K" using A(2) ok(2) by (auto simp: bput_def dom_update)
  then have "htab_inv K t'" using t'(2) A(3) by (auto simp: htab_inv_def)
  moreover have "hmap t' = (hmap t)(hk_norm k \<mapsto> v)"
    using v by (auto simp: fun_eq_iff hmap_repr [OF t'(2)] hmap_repr [OF A(1)] bget_bput)
  ultimately show "\<exists>t'. hput k v t = Some t' \<and> htab_inv K t' \<and> hmap t' = (hmap t)(hk_norm k \<mapsto> v)"
    using t'(1) by (simp add: hput_def kk)
next
  fix t k assume t: "htab_inv K t" and k: "hk_in K k"
  obtain k1 k2 len where kk: "k = (k1, k2, len)" by (cases k)
  obtain A where A: "hrepr t A" "\<forall>i. fst ` set (A i) \<subseteq> K" "inj_on hk_hash K" using t by (auto simp: htab_inv_def)
  have ok: "hk_ok (k1, k2, len)" "hk_norm k \<in> K" using k by (auto simp: hk_in_def kk)
  show "hget k t = Some (hmap t (hk_norm k))"
    using Get_ok [OF A(1) ok(1)] by (simp add: hget_def kk hmap_repr [OF A(1)])
  obtain t' where t': "ILibHashtable_Remove t k1 k2 len = Some (t', bget (hk_norm k) A)" "hrepr t' (bremove (hk_norm k) A)"
    using Remove_ok [OF A(1) ok(1)] kk by blast
  have single: "A (hk_hash (hk_norm k)) = [] \<or> (\<exists>d. A (hk_hash (hk_norm k)) = [(hk_norm k, d)])"
    using A(2) by (intro bucket_single [OF A(1,3) _ ok(2)]) simp
  then have r: "bremove (hk_norm k) A = A(hk_hash (hk_norm k) := [])" by (auto simp: bremove_def)
  have "htab_inv K t'" unfolding htab_inv_def
    using t'(2) A(2,3) r by (intro conjI exI [of _ "bremove (hk_norm k) A"]) auto
  moreover have "bget j (bremove (hk_norm k) A) = (if j = hk_norm k then 0 else bget j A)" for j
    using single unfolding r by (auto simp: bget_def)
  then have "hmap t' = (hmap t)(hk_norm k := None)"
    by (auto simp: fun_eq_iff hmap_repr [OF t'(2)] hmap_repr [OF A(1)])
  ultimately show "\<exists>t'. hdel k t = Some t' \<and> htab_inv K t' \<and> hmap t' = (hmap t)(hk_norm k := None)"
    using t'(1) by (simp add: hdel_def kk)
qed

section \<open>Enumeration\<close>

definition hcall :: "(addr \<Rightarrow> byte list option \<Rightarrow> int \<Rightarrow> addr \<Rightarrow> 'u \<Rightarrow> 'u) option \<Rightarrow> hkey \<times> addr \<Rightarrow> 'u \<Rightarrow> 'u" where
  "hcall f e u = (case f of None \<Rightarrow> u | Some g \<Rightarrow>
     g (fst (fst e)) (if snd (fst e) = [] then None else Some (snd (fst e))) (int (length (snd (fst e)))) (snd e) u)"

definition drop_nodes :: "bool \<Rightarrow> addr set \<Rightarrow> (addr \<rightharpoonup> ILibHashtable_Node) \<Rightarrow> (addr \<rightharpoonup> ILibHashtable_Node)" where
  "drop_nodes destroy S h = (if destroy then h |` (- S) else h)"

lemma enumerate_chain_ok:
  "hseg h p a cs q 0 \<Longrightarrow> distinct (map fst cs) \<Longrightarrow>
   enumerate_chain destroy f a h u = Some (drop_nodes destroy (fst ` set cs) h, fold (hcall f) (map snd cs) u)"
proof (induction cs arbitrary: p a h u)
  case Nil
  then show ?case by (simp add: enumerate_chain.simps drop_nodes_def restrict_map_def)
next
  case (Cons e cs)
  obtain x k d where e: "e = (x, k, d)" by (cases e)
  obtain nx where n: "a = x" "x \<noteq> 0" "h x = Some (hnode p nx k d)" "hseg h x nx cs q 0" using Cons.prems e by auto
  let ?h = "if destroy then h(x := None) else h"
  let ?u = "case f of None \<Rightarrow> u | Some g \<Rightarrow> g (Key1 (hnode p nx k d)) (Key2 (hnode p nx k d)) (Key2Len (hnode p nx k d)) (NodeData (hnode p nx k d)) u"
  have "hseg ?h x nx cs q 0" using n(4) Cons.prems(2) e by (simp add: hseg_frame)
  then have IH: "enumerate_chain destroy f nx ?h ?u = Some (drop_nodes destroy (fst ` set cs) ?h, fold (hcall f) (map snd cs) ?u)"
    using Cons by simp
  have "drop_nodes destroy (fst ` set cs) ?h = drop_nodes destroy (fst ` set (e # cs)) h"
    by (auto simp: drop_nodes_def e fun_eq_iff restrict_map_def)
  moreover have "?u = hcall f (k, d) u" by (simp add: hcall_def hnode_def split: option.split)
  ultimately show ?case
    using IH n by (subst enumerate_chain.simps) (cases destroy; simp add: e)
qed

lemma sink_fold:
  "distinct (map fst es) \<Longrightarrow> \<forall>(i, v) \<in> set es. v = chead (C i) \<and> chain_ok h i (C i) \<Longrightarrow>
   \<exists>h'. fold (\<lambda>(i, v). ILibHashtable_Sink destroy f i v) es (Some (h, u))
     = Some (h', fold (hcall f) (concat (map (\<lambda>(i, _). map snd (C i)) es)) u)
     \<and> (\<forall>a. h' a \<noteq> None \<longrightarrow> h a \<noteq> None)"
proof (induction es arbitrary: h u)
  case (Cons e es)
  obtain i v where e: "e = (i, v)" by (cases e)
  have ok: "v = chead (C i)" "chain_ok h i (C i)" using Cons.prems(2) e by auto
  let ?h = "drop_nodes destroy (fst ` set (C i)) h"
  obtain q where "hseg h 0 v (C i) q 0" "distinct (map fst (C i))" using ok by (auto simp: chain_ok_def)
  from enumerate_chain_ok [OF this, of destroy f u]
  have s: "ILibHashtable_Sink destroy f i v (Some (h, u)) = Some (?h, fold (hcall f) (map snd (C i)) u)"
    by (simp add: ILibHashtable_Sink_def)
  have "chain_ok ?h j (C j)" if j: "(j, w) \<in> set es" for j w
  proof -
    have c: "chain_ok h j (C j)" "j \<noteq> i" using j Cons.prems e by force+
    have "?h x = h x" if "x \<in> fst ` set (C j)" for x
      using chains_disjoint [OF c(1) ok(2) c(2)] that by (auto simp: drop_nodes_def restrict_map_def)
    then have "hseg ?h 0 a (C j) q 0 = hseg h 0 a (C j) q 0" for a q by (intro hseg_cong) auto
    then show ?thesis using c(1) by (simp add: chain_ok_def)
  qed
  moreover have "\<forall>(j, w) \<in> set es. w = chead (C j)" using Cons.prems(2) by auto
  ultimately have "\<forall>(j, w) \<in> set es. w = chead (C j) \<and> chain_ok ?h j (C j)" by blast
  then obtain h' where h': "fold (\<lambda>(i, v). ILibHashtable_Sink destroy f i v) es (Some (?h, fold (hcall f) (map snd (C i)) u))
      = Some (h', fold (hcall f) (concat (map (\<lambda>(i, _). map snd (C i)) es)) (fold (hcall f) (map snd (C i)) u))"
    "\<forall>a. h' a \<noteq> None \<longrightarrow> ?h a \<noteq> None"
    using Cons.IH [of ?h "fold (hcall f) (map snd (C i)) u"] Cons.prems(1) by auto
  have "?h a \<noteq> None \<Longrightarrow> h a \<noteq> None" for a by (auto simp: drop_nodes_def restrict_map_def split: if_splits)
  with h'(2) have "\<forall>a. h' a \<noteq> None \<longrightarrow> h a \<noteq> None" by blast
  then show ?case using h'(1) s e by (intro exI [of _ h']) simp
qed simp

definition helems :: "hbuckets \<Rightarrow> ILibHashtable_Root \<Rightarrow> (hkey \<times> addr) list" where
  "helems A t = concat (map (\<lambda>(i, _). A i) (sa_elems (table t)))"

lemma sink_elems:
  assumes "hrepr t A"
  shows "\<exists>h'. fold (\<lambda>(i, v). ILibHashtable_Sink destroy f i v) (sa_elems (table t)) (Some (heap t, u))
     = Some (h', fold (hcall f) (helems A t) u) \<and> (\<forall>a. h' a \<noteq> None \<longrightarrow> heap t a \<noteq> None)"
proof -
  obtain C where C: "htab_repr t C" "A = (\<lambda>i. map snd (C i))" using assms by (auto simp: hrepr_def)
  note D = htab_reprD [OF C(1)]
  have "v = chead (C i) \<and> chain_ok (heap t) i (C i)" if "(i, v) \<in> set (sa_elems (table t))" for i v
    using that D(1) D(2) [of i] sa_elems_in [OF D(3), of i v] by (auto split: if_splits)
  then have "\<forall>(i, v) \<in> set (sa_elems (table t)). v = chead (C i) \<and> chain_ok (heap t) i (C i)" by blast
  from sink_fold [OF sa_elems_distinct [OF D(3)] this, of destroy f u] show ?thesis by (simp add: helems_def C(2))
qed

lemma helems_in:
  assumes "hrepr t A"
  shows "(k, d) \<in> set (helems A t) \<longleftrightarrow> (k, d) \<in> set (A (hk_hash k))"
proof -
  obtain C where C: "htab_repr t C" "A = (\<lambda>i. map snd (C i))" using assms by (auto simp: hrepr_def)
  note D = htab_reprD [OF C(1)]
  have "(\<exists>v. (i, v) \<in> set (sa_elems (table t))) \<longleftrightarrow> A i \<noteq> []" for i
    using D(2) [of i] sa_elems_in [OF D(3), of i] by (simp add: C(2))
  then show ?thesis using hrepr_chain(1) [OF assms, of k d] by (fastforce simp: helems_def)
qed

lemma helems_distinct:
  assumes "hrepr t A"
  shows "distinct (map fst (helems A t))"
proof -
  obtain C where C: "htab_repr t C" using assms by (auto simp: hrepr_def)
  have gen: "distinct (map fst (concat (map (\<lambda>(i, _). A i) es)))" if "distinct (map fst es)" for es :: "(int \<times> addr) list"
    using that
  proof (induction es)
    case (Cons e es)
    have "False" if k: "(k, d) \<in> set (A (fst e))" "(j, v) \<in> set es" "(k, d') \<in> set (A j)" for k d d' j v
    proof -
      have "j = fst e" using hrepr_chain(1) [OF assms] k(1,3) by blast
      moreover have "fst (j, v) \<in> fst ` set es" using k(2) by (rule imageI)
      ultimately show False using Cons.prems by simp
    qed
    then show ?case using Cons hrepr_chain(2) [OF assms, of "fst e"] by (cases e) (auto, blast)
  qed simp
  show ?thesis unfolding helems_def by (rule gen) (rule sa_elems_distinct [OF htab_reprD(3) [OF C]])
qed

lemma Clear_repr:
  assumes "hrepr t A"
  shows "\<exists>t'. ILibHashtable_ClearEx t f u = Some (t', fold (hcall f) (helems A t) u) \<and> hrepr t' (\<lambda>_. [])"
    "ILibHashtable_Enumerate t f u = Some (fold (hcall f) (helems A t) u)"
proof -
  obtain C where C: "htab_repr t C" using assms by (auto simp: hrepr_def)
  note D = htab_reprD [OF C]
  note sa = ClearEx2_ok [OF D(3)]
  have c: "call (Some g) = (\<lambda>(i, v). g i v)" for g :: "int \<Rightarrow> addr \<Rightarrow> 'b \<Rightarrow> 'b"
    by (auto simp: call_def fun_eq_iff)
  obtain h1 where h1: "fold (\<lambda>(i, v). ILibHashtable_Sink True f i v) (sa_elems (table t)) (Some (heap t, u))
      = Some (h1, fold (hcall f) (helems A t) u)" "\<forall>a. h1 a \<noteq> None \<longrightarrow> heap t a \<noteq> None"
    using sink_elems [OF assms, of True f u] by blast
  obtain h2 where h2: "fold (\<lambda>(i, v). ILibHashtable_Sink False f i v) (sa_elems (table t)) (Some (heap t, u))
      = Some (h2, fold (hcall f) (helems A t) u)"
    using sink_elems [OF assms, of False f u] by blast
  show "ILibHashtable_Enumerate t f u = Some (fold (hcall f) (helems A t) u)"
    using h2 by (simp add: ILibHashtable_Enumerate_def ILibSparseArray_Enumerate_def sa c)
  let ?t = "t\<lparr>table := ILibSparseArray_Create 256 ILibHashtable_DefaultBucketizer, heap := h1\<rparr>"
  have "htab_repr ?t (\<lambda>_. [])"
    using sa_Create_ok [where bz = ILibHashtable_DefaultBucketizer and n = 256] D(4-6) h1(2) by (simp add: htab_repr_def)
  then show "\<exists>t'. ILibHashtable_ClearEx t f u = Some (t', fold (hcall f) (helems A t) u) \<and> hrepr t' (\<lambda>_. [])"
    using h1(1) by (intro exI [of _ ?t]) (auto simp: ILibHashtable_ClearEx_def ILibSparseArray_ClearEx_def sa c intro: hreprI)
qed

text \<open>
  The nodes of the table refine association lists per hash: from a new
  table on, \<open>ILibHashtable_Put\<close>, \<open>ILibHashtable_Get\<close> and \<open>ILibHashtable_Remove\<close> never follow a dangling
  pointer, return the value stored under the key (\<open>NULL\<close> if none), and change the lists as \<open>bput\<close> and
  \<open>bremove\<close> do: a new key goes to the end of its chain, and removing the first key of a chain drops the chain.
\<close>

theorem hashtable_refines:
  "hrepr ILibHashtable_Create (\<lambda>_. [])
   \<and> (hrepr t A \<and> hk_ok (k1, k2, len) \<longrightarrow>
      (let k = hk_norm (k1, k2, len) in
        (\<exists>t'. ILibHashtable_Put t k1 k2 len d = Some (t', bget k A) \<and> hrepr t' (bput k d A))
        \<and> ILibHashtable_Get t k1 k2 len = Some (bget k A)
        \<and> (\<exists>t'. ILibHashtable_Remove t k1 k2 len = Some (t', bget k A) \<and> hrepr t' (bremove k A))))"
  using Create_hrepr Put_ok [of t A k1 k2 len] Get_ok [of t A k1 k2 len] Remove_ok [of t A k1 k2 len]
  by (simp add: Let_def)

lemma hashtable_refines_witness:
  "\<exists>t'. ILibHashtable_Put ILibHashtable_Create 0 (Some (str ''ab'')) 2 7 = Some (t', 0)
    \<and> hrepr t' (bput (0, str ''ab'') 7 (\<lambda>_. []))"
  using hashtable_refines [of ILibHashtable_Create "\<lambda>_. []" 0 "Some (str ''ab'')" 2 7]
  by (simp add: hk_ok_def hk_norm_def bget_def Create_hrepr Let_def)

text \<open>
  The table is a map on keys without hash collisions.  After any sequence of
  insertions of non-null values and removals, with keys of a set \<open>K\<close> on which the hash is injective,
  on a new table, \<open>ILibHashtable_Get\<close> returns what the map holds.
\<close>

theorem hashtable_is_map:
  assumes "inj_on hk_hash K"
    and "\<forall>c \<in> set cs. case c of Inl (k, v) \<Rightarrow> hk_in K k \<and> v \<noteq> 0 | Inr k \<Rightarrow> hk_in K k"
    and "hk_in K (k1, k2, len)"
  shows "\<exists>t. run_ops hput hdel cs ILibHashtable_Create = Some t
    \<and> ILibHashtable_Get t k1 k2 len
      = Some (case run_map hk_norm cs Map.empty (hk_norm (k1, k2, len)) of None \<Rightarrow> 0 | Some d \<Rightarrow> d)"
proof -
  have "htab_inv K ILibHashtable_Create" using Create_hrepr assms(1) by (auto simp: htab_inv_def)
  from hd.run_correct [OF this assms(2)] obtain t where t: "run_ops hput hdel cs ILibHashtable_Create = Some t"
    "htab_inv K t" "hmap t = run_map hk_norm cs (hmap ILibHashtable_Create)" by blast
  have "hmap ILibHashtable_Create = Map.empty" by (simp add: fun_eq_iff hmap_repr [OF Create_hrepr] bget_def)
  with hd.get_spec [OF t(2) assms(3)] t show ?thesis
    by (cases "run_map hk_norm cs Map.empty (hk_norm (k1, k2, len))") (auto simp: hget_def split: if_splits)
qed

lemma hashtable_is_map_witness:
  "\<exists>t. run_ops hput hdel [Inl ((1, None, 0), 10), Inl ((0, Some (str ''b''), 1), 20), Inr (1, None, 0)] ILibHashtable_Create = Some t
    \<and> ILibHashtable_Get t 0 (Some (str ''b'')) 1 = Some 20"
proof -
  have "hk_hash (1, []) \<noteq> hk_hash (0, str ''b'')" by code_simp
  then have "inj_on hk_hash {(1, []), (0, str ''b'')}" by (auto simp: inj_on_def)
  from hashtable_is_map [OF this, of "[Inl ((1, None, 0), 10), Inl ((0, Some (str ''b''), 1), 20), Inr (1, None, 0)]"
      0 "Some (str ''b'')" 1]
  show ?thesis by (simp add: hk_in_def hk_ok_def hk_norm_def)
qed

text \<open>
  \<open>ILibHashtable_Enumerate\<close> and \<open>ILibHashtable_ClearEx\<close> call the callback once for
  each stored key, with its value, and clearing leaves an empty table.
\<close>

theorem hashtable_enumerates:
  assumes "hrepr t A"
  shows "ILibHashtable_Enumerate t f u = Some (fold (hcall f) (helems A t) u)
    \<and> distinct (map fst (helems A t)) \<and> (\<forall>k. map_of (helems A t) k = map_of (A (hk_hash k)) k)
    \<and> (\<exists>t'. ILibHashtable_ClearEx t f u = Some (t', fold (hcall f) (helems A t) u)
        \<and> hrepr t' (\<lambda>_. []))"
proof (intro conjI allI)
  show "distinct (map fst (helems A t))" by (rule helems_distinct [OF assms])
  show "map_of (helems A t) k = map_of (A (hk_hash k)) k" for k
  proof -
    have "map_of (helems A t) k = Some d \<longleftrightarrow> map_of (A (hk_hash k)) k = Some d" for d
      using helems_in [OF assms] hrepr_chain(2) [OF assms] helems_distinct [OF assms] by simp
    then show ?thesis by (metis not_Some_eq)
  qed
  show "\<exists>t'. ILibHashtable_ClearEx t f u = Some (t', fold (hcall f) (helems A t) u) \<and> hrepr t' (\<lambda>_. [])"
    by (rule Clear_repr(1) [OF assms])
qed (rule Clear_repr(2) [OF assms])

lemma hashtable_enumerates_witness:
  "ILibHashtable_Enumerate ILibHashtable_Create (Some (\<lambda>_ _ _ d s. s + d)) 5 = Some 5"
proof -
  have "helems (\<lambda>_. []) ILibHashtable_Create = []" by (simp add: helems_def)
  then show ?thesis using conjunct1 [OF hashtable_enumerates [OF Create_hrepr, of "Some (\<lambda>_ _ _ d s. s + d)" 5]] by simp
qed

end
