(* ===== verification/HashTree.thy ===== *)
theory HashTree
  imports CStrings Dictionary
begin

text \<open>
  The HashTree of microstack/ILibParsers.c (\<open>ILibInitHashTreeEx\<close> to \<open>ILibDeleteEntry\<close> and its
  enumerator): a chain of nodes behind a sentinel node, searched by a 32-bit hash of the key and
  then by the key, in a case sensitive or a case insensitive mode.

  The chain is the list of its nodes in the order of their \<open>Next\<close> links; a node is named by its
  position in it, and unlinking a node is removing that position.  A \<open>void*\<close> value is an option (\<open>None\<close> for
  \<open>NULL\<close>) over the type \<open>'d\<close> of what the caller stores.  Trees in caller-provided memory (\<open>Reserved\<close>) are not modelled.  \<open>None\<close> is a read outside
  the key.
\<close>

unbundle bit_operations_syntax

section \<open>Hash values\<close>

text \<open>An \<open>int\<close> read from four bytes, little endian.\<close>

definition int_of_bytes :: "byte list \<Rightarrow> u32" where
  "int_of_bytes t = ucast (t ! 0) OR push_bit 8 (ucast (t ! 1)) OR push_bit 16 (ucast (t ! 2))
     OR push_bit 24 (ucast (t ! 3))"

text \<open>\<open>n\<close> bytes of the key from \<open>off\<close>: copied, or lowered by \<open>ILibToLower\<close>.\<close>

definition key_bytes :: "byte list \<Rightarrow> nat \<Rightarrow> nat \<Rightarrow> int \<Rightarrow> byte list option" where
  "key_bytes key off n caseInSensitiveText =
     (if caseInSensitiveText = 0
      then (if off + n \<le> length key then Some (slice key off n) else None)
      else ILibToLower (drop off key) n)"

definition ILibGetHashValueEx :: "byte list \<Rightarrow> nat \<Rightarrow> int \<Rightarrow> u32 option" where
  "ILibGetHashValueEx key keylength caseInSensitiveText =
     (if keylength \<le> 4
      then do {
        t \<leftarrow> key_bytes key 0 keylength caseInSensitiveText;
        Some (int_of_bytes (t @ replicate (4 - keylength) 0)) }
      else do {
        t \<leftarrow> key_bytes key 0 4 caseInSensitiveText;
        u \<leftarrow> key_bytes key (keylength - 4) 4 caseInSensitiveText;
        let h = int_of_bytes t XOR int_of_bytes u;
        if keylength \<ge> 10
        then do { w \<leftarrow> key_bytes key (keylength div 2) 4 caseInSensitiveText; Some (h XOR int_of_bytes w) }
        else Some h })"

definition ILibGetHashValue :: "byte list \<Rightarrow> nat \<Rightarrow> u32 option" where
  "ILibGetHashValue key keylength = ILibGetHashValueEx key keylength 0"

section \<open>The tree\<close>

record 'd HashNode =
  KeyHash :: u32
  KeyValue :: "byte list option"
  KeyLength :: nat
  Data :: "'d option"
  DataEx :: int

record 'd HashNode_Root =
  Root :: "'d HashNode list"
  CaseInSensitive :: int

definition ILibInitHashTreeEx :: "'d HashNode_Root" where
  "ILibInitHashTreeEx =
     \<lparr> Root = [\<lparr> KeyHash = 0, KeyValue = None, KeyLength = 0, Data = None, DataEx = 0 \<rparr>],
       CaseInSensitive = 0 \<rparr>"

definition ILibInitHashTree_CaseInSensitiveEx :: "'d HashNode_Root" where
  "ILibInitHashTree_CaseInSensitiveEx = ILibInitHashTreeEx\<lparr>CaseInSensitive := 1\<rparr>"

text \<open>The test of one node in \<open>ILibFindEntry\<close>.\<close>

definition node_matches :: "int \<Rightarrow> u32 \<Rightarrow> byte list \<Rightarrow> nat \<Rightarrow> 'd HashNode \<Rightarrow> bool option" where
  "node_matches ci HashValue key keylength current =
     (if KeyHash current = HashValue \<and> KeyLength current = keylength
      then (case KeyValue current of None \<Rightarrow> None
            | Some kv \<Rightarrow> if ci = 0 then memeq kv 0 key keylength else strncaseeq kv key keylength)
      else Some False)"

fun find_loop :: "int \<Rightarrow> u32 \<Rightarrow> byte list \<Rightarrow> nat \<Rightarrow> 'd HashNode list \<Rightarrow> nat \<Rightarrow> nat option option" where
  "find_loop ci HashValue key keylength [] i = Some None"
| "find_loop ci HashValue key keylength (current # rest) i = do {
     m \<leftarrow> node_matches ci HashValue key keylength current;
     if m then Some (Some i) else find_loop ci HashValue key keylength rest (i + 1) }"

definition new_node :: "u32 \<Rightarrow> byte list \<Rightarrow> nat \<Rightarrow> 'd HashNode" where
  "new_node HashValue key keylength =
     \<lparr> KeyHash = HashValue, KeyValue = Some (take keylength key @ [0]), KeyLength = keylength,
       Data = None, DataEx = 0 \<rparr>"

definition ILibFindEntry ::
  "'d HashNode_Root \<Rightarrow> byte list \<Rightarrow> nat \<Rightarrow> int \<Rightarrow> ('d HashNode_Root \<times> nat option) option" where
  "ILibFindEntry hashtree key keylength create =
     (if keylength = 0 \<or> keylength > INT32_MAX then Some (hashtree, None)
      else do {
        HashValue \<leftarrow> ILibGetHashValueEx key keylength (CaseInSensitive hashtree);
        found \<leftarrow> find_loop (CaseInSensitive hashtree) HashValue key keylength (Root hashtree) 0;
        (case found of
           Some i \<Rightarrow> Some (hashtree, Some i)
         | None \<Rightarrow>
             if create \<noteq> 0
             then (if keylength \<le> length key
                   then Some (hashtree\<lparr>Root := Root hashtree @ [new_node HashValue key keylength]\<rparr>,
                              Some (length (Root hashtree)))
                   else None)
             else Some (hashtree, None)) })"

definition ILibHasEntry :: "'d HashNode_Root \<Rightarrow> byte list \<Rightarrow> nat \<Rightarrow> int option" where
  "ILibHasEntry hashtree key keylength =
     map_option (\<lambda>(_, n). if n \<noteq> None then 1 else 0) (ILibFindEntry hashtree key keylength 0)"

definition ILibAddEntry :: "'d HashNode_Root \<Rightarrow> byte list \<Rightarrow> nat \<Rightarrow> 'd option \<Rightarrow> 'd HashNode_Root option" where
  "ILibAddEntry hashtree key keylength v =
     map_option (\<lambda>(t, n). case n of None \<Rightarrow> t
         | Some i \<Rightarrow> t\<lparr>Root := (Root t)[i := (Root t ! i)\<lparr>Data := v\<rparr>]\<rparr>)
       (ILibFindEntry hashtree key keylength 1)"

definition ILibAddEntryEx ::
  "'d HashNode_Root \<Rightarrow> byte list \<Rightarrow> nat \<Rightarrow> 'd option \<Rightarrow> int \<Rightarrow> 'd HashNode_Root option" where
  "ILibAddEntryEx hashtree key keylength v valueEx =
     map_option (\<lambda>(t, n). case n of None \<Rightarrow> t
         | Some i \<Rightarrow> t\<lparr>Root := (Root t)[i := (Root t ! i)\<lparr>Data := v, DataEx := valueEx\<rparr>]\<rparr>)
       (ILibFindEntry hashtree key keylength 1)"

definition ILibGetEntry :: "'d HashNode_Root \<Rightarrow> byte list \<Rightarrow> nat \<Rightarrow> 'd option option" where
  "ILibGetEntry hashtree key keylength =
     map_option (\<lambda>(t, n). case n of None \<Rightarrow> None | Some i \<Rightarrow> Data (Root t ! i))
       (ILibFindEntry hashtree key keylength 0)"

definition ILibGetEntryEx :: "'d HashNode_Root \<Rightarrow> byte list \<Rightarrow> nat \<Rightarrow> ('d option \<times> int) option" where
  "ILibGetEntryEx hashtree key keylength =
     map_option (\<lambda>(t, n). case n of None \<Rightarrow> (None, 0) | Some i \<Rightarrow> (Data (Root t ! i), DataEx (Root t ! i)))
       (ILibFindEntry hashtree key keylength 0)"

definition ILibDeleteEntry :: "'d HashNode_Root \<Rightarrow> byte list \<Rightarrow> int \<Rightarrow> 'd HashNode_Root option" where
  "ILibDeleteEntry hashtree key keylength =
     map_option (\<lambda>(t, n). case n of None \<Rightarrow> t
         | Some i \<Rightarrow> t\<lparr>Root := take i (Root t) @ drop (i + 1) (Root t)\<rparr>)
       (ILibFindEntry hashtree key (nat (keylength mod int SIZE_MOD)) 0)"

section \<open>The enumerator\<close>

text \<open>The node the enumerator is at, \<open>None\<close> after the last one.\<close>

type_synonym HashNodeEnumerator = "nat option"

definition ILibHashTree_GetEnumerator :: "'d HashNode_Root \<Rightarrow> HashNodeEnumerator" where
  "ILibHashTree_GetEnumerator tree = Some 0"

definition ILibHashTree_MoveNext :: "'d HashNode_Root \<Rightarrow> HashNodeEnumerator \<Rightarrow> HashNodeEnumerator \<times> int" where
  "ILibHashTree_MoveNext tree en =
     (case en of
        Some i \<Rightarrow> (let en = (if i + 1 < length (Root tree) then Some (i + 1) else None)
                   in (en, if en \<noteq> None then 0 else 1))
      | None \<Rightarrow> (None, 1))"

definition ILibHashTree_GetValue ::
  "'d HashNode_Root \<Rightarrow> HashNodeEnumerator \<Rightarrow> (byte list option \<times> nat \<times> 'd option) option" where
  "ILibHashTree_GetValue tree en =
     (case en of None \<Rightarrow> None
      | Some i \<Rightarrow> Some (KeyValue (Root tree ! i), KeyLength (Root tree ! i), Data (Root tree ! i)))"

definition ILibHashTree_GetValueEx ::
  "'d HashNode_Root \<Rightarrow> HashNodeEnumerator \<Rightarrow> (byte list option \<times> nat \<times> 'd option \<times> int) option" where
  "ILibHashTree_GetValueEx tree en =
     (case en of None \<Rightarrow> None
      | Some i \<Rightarrow> Some (KeyValue (Root tree ! i), KeyLength (Root tree ! i), Data (Root tree ! i),
                        DataEx (Root tree ! i)))"


section \<open>Keys\<close>

lemma ILibToLower_spec: "n \<le> length s \<Longrightarrow> ILibToLower s n = Some (map to_lower (take n s))"
  by (induction n) (simp_all add: take_Suc_conv_app_nth to_lower_def)

lemma strncaseeq_spec:
  "n \<le> length a \<Longrightarrow> n \<le> length b \<Longrightarrow> 0 \<notin> set (take n a) \<Longrightarrow>
   strncaseeq a b n = Some (map to_lower (take n a) = map to_lower (take n b))"
proof (induction a b n rule: strncaseeq.induct)
  case (2 a b n)
  obtain x a' y b' where "a = x # a'" "b = y # b'" using "2.prems" by (cases a; cases b) auto
  with 2 show ?case by simp
qed simp

text \<open>A key argument is the pair of the memory behind the pointer and the length.\<close>

definition ht_norm :: "int \<Rightarrow> byte list \<times> nat \<Rightarrow> byte list" where
  "ht_norm ci k = (if ci = 0 then take (snd k) (fst k) else map to_lower (take (snd k) (fst k)))"

definition ht_key :: "int \<Rightarrow> byte list \<times> nat \<Rightarrow> bool" where
  "ht_key ci k \<longleftrightarrow> 0 < snd k \<and> snd k \<le> INT32_MAX \<and> snd k \<le> length (fst k)
     \<and> (ci \<noteq> 0 \<longrightarrow> 0 \<notin> set (take (snd k) (fst k)))"

definition hash_of :: "byte list \<Rightarrow> u32" where
  "hash_of s = (if length s \<le> 4 then int_of_bytes (s @ replicate (4 - length s) 0)
     else let h = int_of_bytes (slice s 0 4) XOR int_of_bytes (slice s (length s - 4) 4)
          in if length s \<ge> 10 then h XOR int_of_bytes (slice s (length s div 2) 4) else h)"

lemma length_ht_norm [simp]: "ht_key ci k \<Longrightarrow> length (ht_norm ci k) = snd k"
  by (simp add: ht_key_def ht_norm_def)

lemma key_bytes_spec:
  assumes "len \<le> length key" "off + n \<le> len"
  shows "key_bytes key off n ci = Some (slice (ht_norm ci (key, len)) off n)"
proof -
  have m: "min n (len - off) = n" using assms(2) by simp
  have "take n (drop off (take len key)) = take n (drop off key)" using m by (simp add: drop_take)
  then show ?thesis
    using assms by (simp add: key_bytes_def ht_norm_def slice_def ILibToLower_spec drop_map take_map)
qed

lemma hash_spec:
  assumes "ht_key ci k"
  shows "ILibGetHashValueEx (fst k) (snd k) ci = Some (hash_of (ht_norm ci k))"
proof -
  obtain key len where k: "k = (key, len)" by (cases k)
  have l: "len \<le> length key" "length (ht_norm ci (key, len)) = len"
    using assms length_ht_norm [OF assms] by (simp_all add: k ht_key_def)
  note kb = key_bytes_spec [OF l(1), of _ _ ci]
  show ?thesis
  proof (cases "len \<le> 4")
    case True
    then show ?thesis using kb [of 0 len] l(2)
      by (simp add: k ILibGetHashValueEx_def hash_of_def) (simp add: slice_def)
  next
    case False
    then show ?thesis using kb [of 0 4] kb [of "len - 4" 4] kb [of "len div 2" 4] l(2)
      by (simp add: k ILibGetHashValueEx_def hash_of_def Let_def)
  qed
qed

section \<open>The invariant and the map a tree represents\<close>

definition node_key :: "int \<Rightarrow> 'd HashNode \<Rightarrow> byte list" where
  "node_key ci n = (case KeyValue n of None \<Rightarrow> [] | Some kv \<Rightarrow> ht_norm ci (kv, KeyLength n))"

definition node_ok :: "int \<Rightarrow> 'd HashNode \<Rightarrow> bool" where
  "node_ok ci n \<longleftrightarrow> (\<exists>kv. KeyValue n = Some kv \<and> ht_key ci (kv, KeyLength n)) \<and> KeyHash n = hash_of (node_key ci n)"

definition ht_ok :: "int \<Rightarrow> 'd HashNode_Root \<Rightarrow> bool" where
  "ht_ok ci t \<longleftrightarrow> CaseInSensitive t = ci
     \<and> (\<exists>s ns. Root t = s # ns \<and> KeyValue s = None \<and> KeyLength s = 0
          \<and> (\<forall>n \<in> set ns. node_ok ci n) \<and> distinct (map (node_key ci) ns))"

definition ht_entries :: "int \<Rightarrow> 'd HashNode_Root \<Rightarrow> (byte list \<times> ('d option \<times> int)) list" where
  "ht_entries ci t = map (\<lambda>n. (node_key ci n, (Data n, DataEx n))) (tl (Root t))"

definition ht_map :: "int \<Rightarrow> 'd HashNode_Root \<Rightarrow> byte list \<Rightarrow> ('d option \<times> int) option" where
  "ht_map ci t = map_of (ht_entries ci t)"

lemma node_matches_spec:
  assumes "node_ok ci n" "ht_key ci k"
  shows "node_matches ci (hash_of (ht_norm ci k)) (fst k) (snd k) n = Some (node_key ci n = ht_norm ci k)"
proof -
  obtain kv where kv: "KeyValue n = Some kv" "ht_key ci (kv, KeyLength n)" "KeyHash n = hash_of (node_key ci n)"
    using assms(1) by (auto simp: node_ok_def)
  have nk: "node_key ci n = ht_norm ci (kv, KeyLength n)" using kv(1) by (simp add: node_key_def)
  show ?thesis
  proof (cases "KeyLength n = snd k")
    case False
    then have "node_key ci n \<noteq> ht_norm ci k"
      using length_ht_norm [OF kv(2)] length_ht_norm [OF assms(2)] nk by auto
    with False show ?thesis by (simp add: node_matches_def)
  next
    case True
    then have cmp: "(if ci = 0 then memeq kv 0 (fst k) (snd k) else strncaseeq kv (fst k) (snd k))
        = Some (node_key ci n = ht_norm ci k)"
      using kv(2) assms(2) by (simp add: nk ht_key_def ht_norm_def memeq_in slice_def strncaseeq_spec)
    show ?thesis
    proof (cases "KeyHash n = hash_of (ht_norm ci k)")
      case hash: True
      then show ?thesis using True cmp kv(1) by (simp add: node_matches_def)
    next
      case False
      with kv(3) have "node_key ci n \<noteq> ht_norm ci k" by auto
      with False show ?thesis by (simp add: node_matches_def)
    qed
  qed
qed

text \<open>The position of a key in a list of nodes.\<close>

fun key_index :: "int \<Rightarrow> byte list \<Rightarrow> 'd HashNode list \<Rightarrow> nat option" where
  "key_index ci x [] = None"
| "key_index ci x (n # ns) = (if node_key ci n = x then Some 0 else map_option Suc (key_index ci x ns))"

lemma find_loop_spec:
  "\<forall>n \<in> set ns. node_ok ci n \<Longrightarrow> ht_key ci k \<Longrightarrow>
   find_loop ci (hash_of (ht_norm ci k)) (fst k) (snd k) ns i
     = Some (map_option (\<lambda>j. i + j) (key_index ci (ht_norm ci k) ns))"
  by (induction ns arbitrary: i) (auto simp: node_matches_spec option.map_comp comp_def intro!: option.map_cong)

lemma key_index_Some:
  "key_index ci x ns = Some j \<Longrightarrow> j < length ns \<and> node_key ci (ns ! j) = x"
  by (induction ns arbitrary: j) (auto split: if_splits)

lemma key_index_None: "key_index ci x ns = None \<longleftrightarrow> x \<notin> node_key ci ` set ns"
  by (induction ns) auto

lemma FindEntry_spec:
  assumes "ht_ok ci t" "ht_key ci k" "Root t = s # ns"
  shows "ILibFindEntry t (fst k) (snd k) create =
    (case key_index ci (ht_norm ci k) ns of
       Some j \<Rightarrow> Some (t, Some (Suc j))
     | None \<Rightarrow> if create \<noteq> 0
         then Some (t\<lparr>Root := Root t @ [new_node (hash_of (ht_norm ci k)) (fst k) (snd k)]\<rparr>, Some (length (Root t)))
         else Some (t, None))"
proof -
  have t: "CaseInSensitive t = ci" "KeyLength s = 0" "\<forall>n \<in> set ns. node_ok ci n"
    using assms(1,3) by (auto simp: ht_ok_def)
  have "node_matches ci h (fst k) (snd k) s = Some False" for h
    using t(2) assms(2) by (simp add: node_matches_def ht_key_def)
  then have "find_loop ci (hash_of (ht_norm ci k)) (fst k) (snd k) (Root t) 0
      = Some (map_option Suc (key_index ci (ht_norm ci k) ns))"
    using find_loop_spec [OF t(3) assms(2), of 1] by (simp add: assms(3))
  then show ?thesis
    using assms(2) t(1) hash_spec [OF assms(2)]
    by (auto simp: ILibFindEntry_def ht_key_def split: option.split)
qed

section \<open>The operations on the map\<close>

lemma ht_okE:
  assumes "ht_ok ci t"
  obtains s ns where "Root t = s # ns" "\<forall>n \<in> set ns. node_ok ci n" "distinct (map (node_key ci) ns)"
    "KeyValue s = None" "KeyLength s = 0" "CaseInSensitive t = ci"
  using assms by (auto simp: ht_ok_def)

lemma ht_map_Cons: "Root t = s # ns \<Longrightarrow>
  ht_map ci t = map_of (map (\<lambda>n. (node_key ci n, (Data n, DataEx n))) ns)"
  by (simp add: ht_map_def ht_entries_def)

lemma ht_map_index:
  assumes "Root t = s # ns" "distinct (map (node_key ci) ns)"
  shows "ht_map ci t x = (case key_index ci x ns of None \<Rightarrow> None | Some j \<Rightarrow> Some (Data (ns ! j), DataEx (ns ! j)))"
proof (cases "key_index ci x ns")
  case None
  then have "x \<notin> node_key ci ` set ns" by (simp add: key_index_None)
  with None show ?thesis by (simp add: ht_map_Cons [OF assms(1)] map_of_eq_None_iff image_image)
next
  case (Some j)
  from key_index_Some [OF this] Some assms(2) show ?thesis
    by (simp add: ht_map_Cons [OF assms(1)] map_of_eq_Some_iff comp_def) (metis (mono_tags) image_eqI nth_mem)
qed

lemma node_key_update [simp]:
  "node_key ci (n\<lparr>Data := v\<rparr>) = node_key ci n" "node_key ci (n\<lparr>DataEx := e\<rparr>) = node_key ci n"
  "node_ok ci (n\<lparr>Data := v\<rparr>) = node_ok ci n" "node_ok ci (n\<lparr>DataEx := e\<rparr>) = node_ok ci n"
  by (simp_all add: node_key_def node_ok_def split: option.split)

lemma node_key_new [simp]: "ht_key ci k \<Longrightarrow> node_key ci (new_node h (fst k) (snd k)) = ht_norm ci k"
  by (simp add: node_key_def new_node_def ht_norm_def ht_key_def)

lemma new_node_sel [simp]:
  "KeyValue (new_node h key n) = Some (take n key @ [0])" "KeyLength (new_node h key n) = n"
  "KeyHash (new_node h key n) = h" "Data (new_node h key n) = None" "DataEx (new_node h key n) = 0"
  by (simp_all add: new_node_def)

lemma node_ok_new: "ht_key ci k \<Longrightarrow> node_ok ci (new_node (hash_of (ht_norm ci k)) (fst k) (snd k))"
  by (simp add: node_ok_def) (auto simp: ht_key_def)

text \<open>Replacing the data of the found or created node, for any new data \<open>u\<close>.\<close>

lemma store_entry:
  assumes ok: "ht_ok ci t" and k: "ht_key ci k"
    and u: "\<And>n. KeyValue (u n) = KeyValue n \<and> KeyLength (u n) = KeyLength n \<and> KeyHash (u n) = KeyHash n"
  shows "\<exists>t' i. ILibFindEntry t (fst k) (snd k) 1 = Some (t', Some i)
    \<and> ht_ok ci (t'\<lparr>Root := (Root t')[i := u (Root t' ! i)]\<rparr>)
    \<and> ht_map ci (t'\<lparr>Root := (Root t')[i := u (Root t' ! i)]\<rparr>)
        = (ht_map ci t)(ht_norm ci k \<mapsto> (Data (u (Root t' ! i)), DataEx (u (Root t' ! i))))
    \<and> (Data (Root t' ! i), DataEx (Root t' ! i)) = (case ht_map ci t (ht_norm ci k) of None \<Rightarrow> (None, 0) | Some d \<Rightarrow> d)"
proof -
  obtain s ns where r: "Root t = s # ns" "\<forall>n \<in> set ns. node_ok ci n" "distinct (map (node_key ci) ns)"
    "KeyValue s = None" "KeyLength s = 0" "CaseInSensitive t = ci" using ok by (rule ht_okE)
  have nk: "node_key ci (u n) = node_key ci n" "node_ok ci (u n) = node_ok ci n" for n
    using u [of n] by (simp_all add: node_key_def node_ok_def split: option.split)
  note find = FindEntry_spec [OF ok k r(1), of 1] and ix = ht_map_index [OF r(1,3), of "ht_norm ci k"]
  show ?thesis
  proof (cases "key_index ci (ht_norm ci k) ns")
    case (Some j)
    note j = key_index_Some [OF Some]
    have map_eq: "map (node_key ci) (ns[j := u (ns ! j)]) = map (node_key ci) ns"
      using j nk by (simp add: map_update_same)
    have "\<forall>n \<in> set (ns[j := u (ns ! j)]). node_ok ci n"
      using r(2) nk j by (auto dest!: set_update_subset_insert [THEN subsetD])
    with map_eq have "ht_ok ci (t\<lparr>Root := s # ns[j := u (ns ! j)]\<rparr>)" using r by (simp add: ht_ok_def)
    moreover have "ht_map ci (t\<lparr>Root := s # ns[j := u (ns ! j)]\<rparr>)
        = (ht_map ci t)(ht_norm ci k \<mapsto> (Data (u (ns ! j)), DataEx (u (ns ! j))))"
      using map_of_update_nth [OF r(3), of j "u (ns ! j)" "\<lambda>n. (Data n, DataEx n)"] j nk r(1)
      by (simp add: ht_map_Cons)
    ultimately show ?thesis using find Some ix r(1) by simp
  next
    case None
    let ?n = "new_node (hash_of (ht_norm ci k)) (fst k) (snd k)"
    have "ht_norm ci k \<notin> node_key ci ` set ns" using None by (simp add: key_index_None)
    then have "ht_ok ci (t\<lparr>Root := s # ns @ [u ?n]\<rparr>)"
      using r nk node_ok_new [OF k] k by (auto simp: ht_ok_def)
    moreover have "ht_map ci (t\<lparr>Root := s # ns @ [u ?n]\<rparr>)
        = (ht_map ci t)(ht_norm ci k \<mapsto> (Data (u ?n), DataEx (u ?n)))"
    proof -
      have "map_of (map (\<lambda>n. (node_key ci n, (Data n, DataEx n))) ns) (ht_norm ci k) = None"
        using None by (simp add: key_index_None map_of_eq_None_iff image_image)
      then show ?thesis
        using k nk r(1) by (auto simp: ht_map_Cons map_add_def fun_eq_iff split: option.split)
    qed
    ultimately show ?thesis using find None ix r(1) by (simp add: new_node_def)
  qed
qed

lemma delete_entry:
  assumes ok: "ht_ok ci t" and k: "ht_key ci k"
  shows "\<exists>t'. ILibDeleteEntry t (fst k) (int (snd k)) = Some t' \<and> ht_ok ci t'
    \<and> ht_map ci t' = (ht_map ci t)(ht_norm ci k := None)"
proof -
  obtain s ns where r: "Root t = s # ns" "\<forall>n \<in> set ns. node_ok ci n" "distinct (map (node_key ci) ns)"
    "KeyValue s = None" "KeyLength s = 0" "CaseInSensitive t = ci" using ok by (rule ht_okE)
  note find = FindEntry_spec [OF ok k r(1), of 0] and ix = ht_map_index [OF r(1,3), of "ht_norm ci k"]
  have len: "nat (int (snd k) mod int SIZE_MOD) = snd k"
    using k by (simp add: ht_key_def INT32_MAX_def SIZE_MOD_def)
  show ?thesis
  proof (cases "key_index ci (ht_norm ci k) ns")
    case None
    then show ?thesis using find len ok ix by (auto simp: ILibDeleteEntry_def fun_eq_iff)
  next
    case (Some j)
    note j = key_index_Some [OF Some]
    let ?ns = "take j ns @ drop (j + 1) ns"
    have "distinct (map (node_key ci) ?ns)"
      using r(3) by (simp add: take_map [symmetric] drop_map [symmetric] distinct_take set_take_disj_set_drop_if_distinct)
    moreover have "\<forall>n \<in> set ?ns. node_ok ci n" using r(2) by (auto dest: in_set_takeD in_set_dropD)
    ultimately have "ht_ok ci (t\<lparr>Root := s # ?ns\<rparr>)" using r by (simp add: ht_ok_def)
    moreover have "ht_map ci (t\<lparr>Root := s # ?ns\<rparr>) = (ht_map ci t)(ht_norm ci k := None)"
      using map_of_remove_nth [OF r(3), of j "\<lambda>n. (Data n, DataEx n)"] j r(1) by (simp add: ht_map_Cons)
    ultimately show ?thesis using find len Some r(1) by (simp add: ILibDeleteEntry_def)
  qed
qed

section \<open>The tree is a dictionary\<close>

definition ht_get :: "byte list \<times> nat \<Rightarrow> 'd HashNode_Root \<Rightarrow> ('d option \<times> int) option option" where
  "ht_get k t = do {
     h \<leftarrow> ILibHasEntry t (fst k) (snd k);
     v \<leftarrow> ILibGetEntryEx t (fst k) (snd k);
     Some (if h = 0 then None else Some v) }"

lemma get_entry:
  assumes ok: "ht_ok ci t" and k: "ht_key ci k"
  shows "ILibHasEntry t (fst k) (snd k) = Some (if ht_map ci t (ht_norm ci k) = None then 0 else 1)"
    "ILibGetEntryEx t (fst k) (snd k) = Some (case ht_map ci t (ht_norm ci k) of None \<Rightarrow> (None, 0) | Some d \<Rightarrow> d)"
    "ILibGetEntry t (fst k) (snd k) = Some (case ht_map ci t (ht_norm ci k) of None \<Rightarrow> None | Some d \<Rightarrow> fst d)"
proof -
  obtain s ns where r: "Root t = s # ns" "distinct (map (node_key ci) ns)" using ok by (rule ht_okE)
  note f = FindEntry_spec [OF ok k r(1), of 0] ht_map_index [OF r, of "ht_norm ci k"]
  show "ILibHasEntry t (fst k) (snd k) = Some (if ht_map ci t (ht_norm ci k) = None then 0 else 1)"
    "ILibGetEntryEx t (fst k) (snd k) = Some (case ht_map ci t (ht_norm ci k) of None \<Rightarrow> (None, 0) | Some d \<Rightarrow> d)"
    "ILibGetEntry t (fst k) (snd k) = Some (case ht_map ci t (ht_norm ci k) of None \<Rightarrow> None | Some d \<Rightarrow> fst d)"
    using f r(1) by (auto simp: ILibHasEntry_def ILibGetEntryEx_def ILibGetEntry_def split: option.splits)
qed

lemma add_entry_ex:
  assumes "ht_ok ci t" "ht_key ci k"
  shows "\<exists>t'. ILibAddEntryEx t (fst k) (snd k) v e = Some t' \<and> ht_ok ci t'
    \<and> ht_map ci t' = (ht_map ci t)(ht_norm ci k \<mapsto> (v, e))"
  using store_entry [OF assms, of "\<lambda>n. n\<lparr>Data := v, DataEx := e\<rparr>"] by (auto simp: ILibAddEntryEx_def)

lemma add_entry:
  assumes "ht_ok ci t" "ht_key ci k"
  shows "\<exists>t'. ILibAddEntry t (fst k) (snd k) v = Some t' \<and> ht_ok ci t'
    \<and> ht_map ci t' = (ht_map ci t)(ht_norm ci k \<mapsto>
        (v, case ht_map ci t (ht_norm ci k) of None \<Rightarrow> 0 | Some d \<Rightarrow> snd d))"
proof -
  obtain t' i where t: "ILibFindEntry t (fst k) (snd k) 1 = Some (t', Some i)"
    "ht_ok ci (t'\<lparr>Root := (Root t')[i := (Root t' ! i)\<lparr>Data := v\<rparr>]\<rparr>)"
    "ht_map ci (t'\<lparr>Root := (Root t')[i := (Root t' ! i)\<lparr>Data := v\<rparr>]\<rparr>)
      = (ht_map ci t)(ht_norm ci k \<mapsto> (v, DataEx (Root t' ! i)))"
    "(Data (Root t' ! i), DataEx (Root t' ! i)) = (case ht_map ci t (ht_norm ci k) of None \<Rightarrow> (None, 0) | Some d \<Rightarrow> d)"
    using store_entry [OF assms, of "\<lambda>n. n\<lparr>Data := v\<rparr>"] by auto
  have "DataEx (Root t' ! i) = (case ht_map ci t (ht_norm ci k) of None \<Rightarrow> 0 | Some d \<Rightarrow> snd d)"
    using t(4) by (auto split: option.splits)
  with t(1-3) show ?thesis by (simp add: ILibAddEntry_def)
qed

interpretation ht: dictionary "ht_ok ci" "ht_map ci" "ht_key ci" "\<lambda>_. True" "ht_norm ci"
  "\<lambda>k v t. ILibAddEntryEx t (fst k) (snd k) (fst v) (snd v)"
  "\<lambda>k t. ILibDeleteEntry t (fst k) (int (snd k))" ht_get for ci
proof
  fix s :: "'b HashNode_Root" and k and v :: "'b option \<times> int"
  assume "ht_ok ci s" "ht_key ci k"
  then show "\<exists>s'. ILibAddEntryEx s (fst k) (snd k) (fst v) (snd v) = Some s' \<and> ht_ok ci s' \<and>
      ht_map ci s' = (ht_map ci s)(ht_norm ci k \<mapsto> v)"
    using add_entry_ex [of ci s k "fst v" "snd v"] by simp
next
  fix s k
  assume "ht_ok ci s" "ht_key ci k"
  then show "\<exists>s'. ILibDeleteEntry s (fst k) (int (snd k)) = Some s' \<and> ht_ok ci s' \<and>
      ht_map ci s' = (ht_map ci s)(ht_norm ci k := None)" "ht_get k s = Some (ht_map ci s (ht_norm ci k))"
    using delete_entry [of ci s k] get_entry [of ci s k]
    by (auto simp: ht_get_def split: option.split)
qed

lemma init_ok:
  "ht_ok 0 ILibInitHashTreeEx" "ht_map 0 ILibInitHashTreeEx = (\<lambda>_. None)"
  "ht_ok 1 ILibInitHashTree_CaseInSensitiveEx" "ht_map 1 ILibInitHashTree_CaseInSensitiveEx = (\<lambda>_. None)"
  by (auto simp: ht_ok_def ht_map_def ht_entries_def ILibInitHashTreeEx_def ILibInitHashTree_CaseInSensitiveEx_def)

definition ht_run :: "((byte list \<times> nat) \<times> ('d option \<times> int) + (byte list \<times> nat)) list \<Rightarrow> 'd HashNode_Root \<Rightarrow> 'd HashNode_Root option" where
  "ht_run = run_ops (\<lambda>k v t. ILibAddEntryEx t (fst k) (snd k) (fst v) (snd v))
     (\<lambda>k t. ILibDeleteEntry t (fst k) (int (snd k)))"

text \<open>
  C37 (functional): the HashTree is a map.  After any sequence of \<open>ILibAddEntryEx\<close> and
  \<open>ILibDeleteEntry\<close> calls with valid keys on a new tree (case sensitive for \<open>ci = 0\<close>, case
  insensitive for \<open>ci = 1\<close>) no call fails, and \<open>ILibHasEntry\<close>, \<open>ILibGetEntryEx\<close> and \<open>ILibGetEntry\<close> of every
  valid key return what the map obtained by the same updates holds under the (lower-cased, if
  \<open>ci = 1\<close>) key, \<open>NULL\<close> and 0 where it holds nothing: hash collisions have no influence.
\<close>

theorem hash_tree_is_map:
  assumes "ci = 0 \<and> t = ILibInitHashTreeEx \<or> ci = 1 \<and> t = ILibInitHashTree_CaseInSensitiveEx"
    and "\<forall>c \<in> set cs. case c of Inl (k, v) \<Rightarrow> ht_key ci k | Inr k \<Rightarrow> ht_key ci k" "ht_key ci k"
  shows "\<exists>t'. ht_run cs t = Some t' \<and> (let m = run_map (ht_norm ci) cs (\<lambda>_. None) (ht_norm ci k) in
      ILibHasEntry t' (fst k) (snd k) = Some (if m = None then 0 else 1)
      \<and> ILibGetEntryEx t' (fst k) (snd k) = Some (case m of None \<Rightarrow> (None, 0) | Some d \<Rightarrow> d)
      \<and> ILibGetEntry t' (fst k) (snd k) = Some (case m of None \<Rightarrow> None | Some d \<Rightarrow> fst d))"
proof -
  have "ht_ok ci t" "ht_map ci t = (\<lambda>_. None)" using assms(1) init_ok by auto
  then obtain t' where "ht_run cs t = Some t'" "ht_ok ci t'" "ht_map ci t' = run_map (ht_norm ci) cs (\<lambda>_. None)"
    using ht.run_correct [of ci t cs, unfolded simp_thms] assms(2) by (auto simp: ht_run_def)
  then show ?thesis using get_entry [OF _ assms(3), of t'] by (simp add: Let_def)
qed

lemma hash_tree_is_map_witness:
  "\<exists>t'. ht_run [Inl ((str ''Host'', 4), (Some (7 :: nat), 0))] ILibInitHashTree_CaseInSensitiveEx = Some t'
    \<and> ILibGetEntry t' (str ''HOST'') 4 = Some (Some 7)"
  using hash_tree_is_map [of 1 ILibInitHashTree_CaseInSensitiveEx "[Inl ((str ''Host'', 4), (Some (7 :: nat), 0))]" "(str ''HOST'', 4)"]
  by (auto simp: ht_key_def ht_norm_def INT32_MAX_def to_lower_def Let_def)

text \<open>
  \<open>ILibAddEntry\<close> stores the value and keeps the extended value that the entry
  already had (0 for a new entry); all other entries are unchanged.
\<close>

theorem add_entry_keeps_extended:
  assumes "ht_ok ci t" "ht_key ci k" "ht_key ci k'"
  shows "\<exists>t'. ILibAddEntry t (fst k) (snd k) v = Some t' \<and> ht_ok ci t'
    \<and> ILibGetEntryEx t' (fst k') (snd k') =
        (if ht_norm ci k' = ht_norm ci k
         then map_option (\<lambda>(_, e). (v, e)) (ILibGetEntryEx t (fst k) (snd k))
         else ILibGetEntryEx t (fst k') (snd k'))"
proof -
  obtain t' where "ILibAddEntry t (fst k) (snd k) v = Some t'" "ht_ok ci t'"
    "ht_map ci t' = (ht_map ci t)(ht_norm ci k \<mapsto>
        (v, case ht_map ci t (ht_norm ci k) of None \<Rightarrow> 0 | Some d \<Rightarrow> snd d))"
    using add_entry [OF assms(1,2)] by blast
  then show ?thesis
    using get_entry(2) [OF assms(1)] get_entry(2) [of ci t'] assms(2,3)
    by (auto split: option.splits prod.splits)
qed

lemma add_entry_keeps_extended_witness:
  "let t = ILibInitHashTreeEx :: nat HashNode_Root in
     \<exists>t'. ILibAddEntry t (str ''k'') 1 (Some 5) = Some t' \<and> ht_ok 0 t'
       \<and> ILibGetEntryEx t' (str ''k'') 1 = map_option (\<lambda>(_, e). (Some 5, e)) (ILibGetEntryEx t (str ''k'') 1)"
proof -
  have k: "ht_key 0 (str ''k'', 1)" by (simp add: ht_key_def INT32_MAX_def)
  show ?thesis
    using add_entry_keeps_extended [OF init_ok(1) k k, of "Some (5 :: nat)"]
    unfolding Let_def fst_conv snd_conv if_P [OF refl] .
qed

section \<open>Enumeration\<close>

fun move_n :: "nat \<Rightarrow> 'd HashNode_Root \<Rightarrow> HashNodeEnumerator" where
  "move_n 0 t = ILibHashTree_GetEnumerator t"
| "move_n (Suc n) t = fst (ILibHashTree_MoveNext t (move_n n t))"

lemma move_n: "n < length (Root t) \<Longrightarrow> move_n n t = Some n"
  by (induction n) (auto simp: ILibHashTree_GetEnumerator_def ILibHashTree_MoveNext_def)

text \<open>
  An enumerator of a well-formed tree visits every entry exactly once: call
  number \<open>i\<close> of \<open>ILibHashTree_MoveNext\<close> (from 0) returns 0 and moves to entry \<open>i\<close> of the chain, whose key and values
  \<open>ILibHashTree_GetValueEx\<close> reports, the keys visited are different, and the call after the
  last entry returns 1.
\<close>

theorem enumerator_visits_all:
  assumes "ht_ok ci t"
  shows "(\<forall>i < length (ht_entries ci t).
      snd (ILibHashTree_MoveNext t (move_n i t)) = 0
      \<and> (\<exists>kv len d e. ILibHashTree_GetValueEx t (move_n (Suc i) t) = Some (Some kv, len, d, e)
           \<and> ht_entries ci t ! i = (ht_norm ci (kv, len), (d, e))))
    \<and> snd (ILibHashTree_MoveNext t (move_n (length (ht_entries ci t)) t)) = 1
    \<and> distinct (map fst (ht_entries ci t)) \<and> set (map fst (ht_entries ci t)) = dom (ht_map ci t)"
proof -
  obtain s ns where r: "Root t = s # ns" "\<forall>n \<in> set ns. node_ok ci n" "distinct (map (node_key ci) ns)"
    using assms by (rule ht_okE)
  have e: "ht_entries ci t = map (\<lambda>n. (node_key ci n, (Data n, DataEx n))) ns" using r(1) by (simp add: ht_entries_def)
  have visit: "snd (ILibHashTree_MoveNext t (move_n i t)) = 0
      \<and> (\<exists>kv len d x. ILibHashTree_GetValueEx t (move_n (Suc i) t) = Some (Some kv, len, d, x)
           \<and> ht_entries ci t ! i = (ht_norm ci (kv, len), (d, x)))" if i: "i < length ns" for i
  proof -
    have "node_ok ci (ns ! i)" using r(2) i by simp
    then obtain kv where "KeyValue (ns ! i) = Some kv" by (auto simp: node_ok_def)
    moreover have "move_n i t = Some i" "move_n (Suc i) t = Some (Suc i)" using i r(1) by (simp_all add: move_n del: move_n.simps)
    ultimately show ?thesis using i r(1)
      by (simp add: ILibHashTree_MoveNext_def ILibHashTree_GetValueEx_def e node_key_def)
  qed
  have "move_n (length ns) t = Some (length ns)" using r(1) by (simp add: move_n)
  then have "snd (ILibHashTree_MoveNext t (move_n (length ns) t)) = 1"
    using r(1) by (simp add: ILibHashTree_MoveNext_def)
  moreover have "map fst (ht_entries ci t) = map (node_key ci) ns" by (simp add: e)
  moreover have "set (map fst (ht_entries ci t)) = dom (ht_map ci t)" by (simp add: ht_map_def dom_map_of_conv_image_fst)
  ultimately show ?thesis using visit r(3) e by (simp add: comp_def)
qed

lemma enumerator_visits_all_witness:
  "let t = ILibInitHashTreeEx :: nat HashNode_Root in
     snd (ILibHashTree_MoveNext t (move_n (length (ht_entries 0 t)) t)) = 1"
  unfolding Let_def using enumerator_visits_all [OF init_ok(1)] by blast

end
