(* ===== verification/Numbers.thy ===== *)
theory Numbers
  imports CStrings
begin

text \<open>
  The number parsing of microstack/ILibParsers.c: the family \<open>ILib_atoi_uint64_ex\<close>,
  \<open>ILib_atoi2_uint64\<close> with the macros of ILibParsers.h, \<open>ILibGetLong\<close> and \<open>ILibGetULong\<close>, on
  \<open>strtoull\<close>, \<open>strtol\<close> and \<open>strtoul\<close> of the C library in base 10 (\<open>long\<close> has 64 bits).

  \<open>errno\<close> is the flag \<open>erange\<close>: whether it is \<open>ERANGE\<close>.  The C library sets it on overflow and never
  clears it, and neither does this code.  \<open>None\<close> is a read outside the string.
\<close>

section \<open>C library\<close>

function skip_space :: "byte list \<Rightarrow> nat \<Rightarrow> nat option" where
  "skip_space s i =
     (case rd s i of None \<Rightarrow> None | Some c \<Rightarrow> if is_space c then skip_space s (i + 1) else Some i)"
  by pat_completeness auto
termination
  by (relation "measure (\<lambda>(s, i). length s - i)") (auto simp: rd_eq_Some)

definition is_digit :: "byte \<Rightarrow> bool" where
  "is_digit c \<longleftrightarrow> 48 \<le> c \<and> c \<le> 57"

text \<open>The value of the digits from \<open>i\<close> on, and the offset behind them.\<close>

function digits :: "byte list \<Rightarrow> nat \<Rightarrow> nat \<Rightarrow> (nat \<times> nat) option" where
  "digits s i v =
     (case rd s i of None \<Rightarrow> None
      | Some c \<Rightarrow> if is_digit c then digits s (i + 1) (10 * v + unat (c - 48)) else Some (v, i))"
  by pat_completeness auto
termination
  by (relation "measure (\<lambda>(s, i, v). length s - i)") (auto simp: rd_eq_Some)

declare skip_space.simps [simp del] digits.simps [simp del]

text \<open>The sign, the magnitude and the end of the number at the start of a string; the end is 0 if there is none.\<close>

definition scan_number :: "byte list \<Rightarrow> (bool \<times> nat \<times> nat) option" where
  "scan_number s = do {
     i \<leftarrow> skip_space s 0;
     c \<leftarrow> rd s i;
     let j = (if c = 45 \<or> c = 43 then i + 1 else i);
     (v, e) \<leftarrow> digits s j 0;
     Some (c = 45, v, if e = j then 0 else e) }"

definition ULLONG_MAX :: nat where
  "ULLONG_MAX = SIZE_MOD - 1"

text \<open>The result is the value, the end offset and whether \<open>errno\<close> was set to \<open>ERANGE\<close>.\<close>

definition strtoull :: "byte list \<Rightarrow> (nat \<times> nat \<times> bool) option" where
  "strtoull s = map_option (\<lambda>(neg, v, e).
     if v > ULLONG_MAX then (ULLONG_MAX, e, True)
     else ((if neg then (SIZE_MOD - v) mod SIZE_MOD else v), e, False)) (scan_number s)"

definition strtol :: "byte list \<Rightarrow> (int \<times> nat \<times> bool) option" where
  "strtol s = map_option (\<lambda>(neg, v, e).
     let x = (if neg then - int v else int v) in
     if x > 2 ^ 63 - 1 then (2 ^ 63 - 1, e, True)
     else if x < - (2 ^ 63) then (- (2 ^ 63), e, True) else (x, e, False)) (scan_number s)"

section \<open>The code\<close>

text \<open>The results are the returned code, \<open>*val\<close>, and \<open>errno\<close> afterwards; \<open>instrLen\<close> is not used.\<close>

definition ILib_atoi_uint64_ex :: "bool \<Rightarrow> byte list \<Rightarrow> nat \<Rightarrow> nat \<Rightarrow> (int \<times> nat \<times> bool) option" where
  "ILib_atoi_uint64_ex erange instr instrLen lim = do {
     (v, e, err) \<leftarrow> strtoull instr;
     let erange = (erange \<or> err);
     if erange \<or> e = 0 \<or> v > lim then Some (1, 0, erange) else Some (0, v, erange) }"

definition ILib_atoi_uint32_ex :: "bool \<Rightarrow> byte list \<Rightarrow> nat \<Rightarrow> nat \<Rightarrow> (int \<times> nat \<times> bool) option" where
  "ILib_atoi_uint32_ex erange instr instrLen lim =
     map_option (\<lambda>(r, v, e). (r, v mod 2 ^ 32, e)) (ILib_atoi_uint64_ex erange instr instrLen lim)"

definition ILib_atoi_uint16_ex :: "bool \<Rightarrow> byte list \<Rightarrow> nat \<Rightarrow> nat \<Rightarrow> (int \<times> nat \<times> bool) option" where
  "ILib_atoi_uint16_ex erange instr instrLen lim =
     map_option (\<lambda>(r, v, e). (r, v mod 2 ^ 16, e)) (ILib_atoi_uint64_ex erange instr instrLen lim)"

definition ILib_atoi2_uint64 :: "bool \<Rightarrow> byte list \<Rightarrow> nat \<Rightarrow> (nat \<times> bool) option" where
  "ILib_atoi2_uint64 erange instr instrLen =
     map_option (\<lambda>(r, v, e). (if r \<noteq> 0 then 0 else v, e))
       (ILib_atoi_uint64_ex erange instr instrLen (2 ^ 64 - 1))"

definition ILib_atoi2_uint32 :: "bool \<Rightarrow> byte list \<Rightarrow> nat \<Rightarrow> (nat \<times> bool) option" where
  "ILib_atoi2_uint32 erange instr instrLen =
     map_option (\<lambda>(r, v, e). (if r \<noteq> 0 then 0 else v, e))
       (ILib_atoi_uint32_ex erange instr instrLen (2 ^ 32 - 1))"

definition ILib_atoi2_uint16 :: "bool \<Rightarrow> byte list \<Rightarrow> nat \<Rightarrow> (nat \<times> bool) option" where
  "ILib_atoi2_uint16 erange instr instrLen =
     map_option (\<lambda>(r, v, e). (if r \<noteq> 0 then 0 else v, e))
       (ILib_atoi_uint16_ex erange instr instrLen (2 ^ 16 - 1))"

text \<open>The macros \<open>ILib_atoi2_int64\<close>, \<open>ILib_atoi2_int32\<close> and \<open>ILib_atoi2_int16\<close> parse twice.\<close>

definition atoi2_int ::
  "(bool \<Rightarrow> byte list \<Rightarrow> nat \<Rightarrow> (nat \<times> bool) option) \<Rightarrow> nat \<Rightarrow> bool \<Rightarrow> byte list \<Rightarrow> nat \<Rightarrow> (nat \<times> bool) option" where
  "atoi2_int parse lim erange instr instrLen = do {
     (v, erange) \<leftarrow> ILib_atoi2_uint64 erange instr instrLen;
     if v \<le> lim then parse erange instr instrLen else Some (0, erange) }"

definition ILib_atoi2_int64 :: "bool \<Rightarrow> byte list \<Rightarrow> nat \<Rightarrow> (nat \<times> bool) option" where
  "ILib_atoi2_int64 = atoi2_int ILib_atoi2_uint64 (2 ^ 63 - 1)"

definition ILib_atoi2_int32 :: "bool \<Rightarrow> byte list \<Rightarrow> nat \<Rightarrow> (nat \<times> bool) option" where
  "ILib_atoi2_int32 = atoi2_int ILib_atoi2_uint32 INT32_MAX"

definition ILib_atoi2_int16 :: "bool \<Rightarrow> byte list \<Rightarrow> nat \<Rightarrow> (nat \<times> bool) option" where
  "ILib_atoi2_int16 = atoi2_int ILib_atoi2_uint16 (2 ^ 15 - 1)"

text \<open>
  \<open>ILibGetLong\<close> and \<open>ILibGetULong\<close> copy the bytes into a terminated buffer first.  The results
  are the returned code, \<open>*NumericValue\<close> and \<open>errno\<close>.
\<close>

definition ILibGetLong :: "bool \<Rightarrow> byte list \<Rightarrow> nat \<Rightarrow> (int \<times> int \<times> bool) option" where
  "ILibGetLong erange TestValue TestValueLength =
     (if TestValueLength \<le> length TestValue then do {
        let TempBuffer = take TestValueLength TestValue @ [0];
        (v, e, err) \<leftarrow> strtol TempBuffer;
        c \<leftarrow> rd TempBuffer e;
        if c \<noteq> 0 then Some (-1, v, erange \<or> err)
        else if \<not> (erange \<or> err) then Some (0, v, erange \<or> err) else Some (-1, v, erange \<or> err) }
      else None)"

definition ILibGetULong :: "bool \<Rightarrow> byte list \<Rightarrow> nat \<Rightarrow> (int \<times> nat \<times> bool) option" where
  "ILibGetULong erange TestValue TestValueLength =
     (if TestValueLength \<le> length TestValue then do {
        let TempBuffer = take TestValueLength TestValue @ [0];
        (v, e, err) \<leftarrow> strtoull TempBuffer;
        c \<leftarrow> rd TempBuffer e;
        if c \<noteq> 0 then Some (-1, v, erange \<or> err)
        else if \<not> (erange \<or> err) then Some (0, v, erange \<or> err) else Some (-1, v, erange \<or> err) }
      else None)"

section \<open>Printing\<close>

text \<open>The decimal digits \<open>sprintf\<close> writes for \<open>%d\<close> or \<open>%u\<close>.\<close>

fun dec_string :: "nat \<Rightarrow> byte list" where
  "dec_string n = (if n < 10 then [48 + of_nat n] else dec_string (n div 10) @ [48 + of_nat (n mod 10)])"

declare dec_string.simps [simp del]

definition int_string :: "int \<Rightarrow> byte list" where
  "int_string i = (if i < 0 then 45 # dec_string (nat (- i)) else dec_string (nat i))"

section \<open>Lemmas\<close>

lemma digit_facts:
  assumes "d < 10"
  shows "is_digit (48 + of_nat d)" "unat (48 + of_nat d - 48 :: byte) = d"
    "\<not> is_space (48 + of_nat d)" "48 + of_nat d \<noteq> (45 :: byte)" "48 + of_nat d \<noteq> (43 :: byte)"
proof -
  have "d \<in> {0, 1, 2, 3, 4, 5, 6, 7, 8, 9}" using assms by auto
  then show "is_digit (48 + of_nat d)" "unat (48 + of_nat d - 48 :: byte) = d"
    "\<not> is_space (48 + of_nat d)" "48 + of_nat d \<noteq> (45 :: byte)" "48 + of_nat d \<noteq> (43 :: byte)"
    by (auto simp: is_digit_def is_space_def)
qed

lemma dec_string_ne [simp]: "dec_string n \<noteq> []"
  by (subst dec_string.simps) simp

lemma dec_string_set: "c \<in> set (dec_string n) \<Longrightarrow> \<exists>d < 10. c = 48 + of_nat d"
proof (induction n rule: dec_string.induct)
  case (1 n)
  show ?case
  proof (cases "n < 10")
    case True
    with "1.prems" show ?thesis by (subst (asm) dec_string.simps) auto
  next
    case False
    with "1.prems" have "c \<in> set (dec_string (n div 10)) \<or> c = 48 + of_nat (n mod 10)"
      by (subst (asm) dec_string.simps) auto
    then show ?thesis using "1.IH" [OF False] by (auto intro: exI [of _ "n mod 10"])
  qed
qed

lemma digits_append:
  "\<forall>c \<in> set t. is_digit c \<Longrightarrow> i = length p \<Longrightarrow> digits (p @ t @ r) i v
    = digits (p @ t @ r) (i + length t) (foldl (\<lambda>v c. 10 * v + unat (c - 48)) v t)"
proof (induction t arbitrary: p i v)
  case (Cons c t)
  have "digits (p @ (c # t) @ r) i v = digits ((p @ [c]) @ t @ r) (i + 1) (10 * v + unat (c - 48))"
    using Cons.prems by (subst digits.simps) simp
  also have "\<dots> = digits ((p @ [c]) @ t @ r) (i + 1 + length t)
      (foldl (\<lambda>v c. 10 * v + unat (c - 48)) (10 * v + unat (c - 48)) t)"
    using Cons.prems by (intro Cons.IH) auto
  finally show ?case by simp
qed simp

lemma foldl_dec_string: "foldl (\<lambda>v c. 10 * v + unat (c - 48)) 0 (dec_string n) = n"
proof (induction n rule: dec_string.induct)
  case (1 n)
  show ?case
  proof (cases "n < 10")
    case True
    then show ?thesis using digit_facts(2) [of n] by (subst dec_string.simps) simp
  next
    case False
    then show ?thesis using 1 [OF False] digit_facts(2) [of "n mod 10"]
      by (subst dec_string.simps) simp
  qed
qed

lemma scan_dec_string:
  "scan_number (dec_string n @ [0]) = Some (False, n, length (dec_string n))"
proof -
  obtain c t where ct: "dec_string n = c # t" by (cases "dec_string n") auto
  then obtain d where d: "d < 10" "c = 48 + of_nat d" using dec_string_set [of c n] by auto
  have "skip_space (dec_string n @ [0]) 0 = Some 0" "c \<noteq> 45" "c \<noteq> 43"
    using digit_facts [OF d(1)] d(2) ct by (simp_all add: skip_space.simps)
  moreover have "\<forall>c \<in> set (dec_string n). is_digit c" using dec_string_set digit_facts(1) by blast
  then have "digits (dec_string n @ [0]) 0 0 = digits (dec_string n @ [0]) (length (dec_string n)) n"
    using digits_append [of "dec_string n" 0 "[]" "[0]" 0] by (simp add: foldl_dec_string)
  moreover have "digits (dec_string n @ [0]) (length (dec_string n)) n = Some (n, length (dec_string n))"
    by (subst digits.simps) (simp add: is_digit_def)
  ultimately show ?thesis by (simp add: scan_number_def Let_def ct)
qed

section \<open>Properties\<close>

text \<open>
  Parsing the decimal digits of \<open>n\<close> returns \<open>n\<close> exactly when \<open>n\<close> is at most the
  given maximum, provided no earlier call left \<open>ERANGE\<close> in \<open>errno\<close>; otherwise the call fails with value 0.
  \<open>ILibGetULong\<close> returns every 64-bit \<open>n\<close>.
\<close>

theorem atoi_roundtrip:
  assumes "lim \<le> ULLONG_MAX"
  shows "map_option (\<lambda>(r, v, _). (r, v)) (ILib_atoi_uint64_ex False (dec_string n @ [0]) len lim)
      = Some (if n \<le> lim then (0, n) else (1, 0))
    \<and> (n \<le> ULLONG_MAX \<longrightarrow> ILibGetULong False (dec_string n) (length (dec_string n)) = Some (0, n, False))"
  using assms by (auto simp: ILib_atoi_uint64_ex_def strtoull_def scan_dec_string Let_def ILibGetULong_def)

lemma atoi_roundtrip_witness:
  "map_option (\<lambda>(r, v, _). (r, v)) (ILib_atoi_uint64_ex False (dec_string 8080 @ [0]) 5 65535)
     = Some (if (8080 :: nat) \<le> 65535 then (0, 8080) else (1, 0))"
  by (rule conjunct1 [OF atoi_roundtrip]) (simp add: ULLONG_MAX_def SIZE_MOD_def)

text \<open>
  Once some call has set \<open>errno\<close> to \<open>ERANGE\<close>, every later call of the family fails with
  value 0, whatever its input: the code tests \<open>errno\<close> without clearing it.  A negative number is
  accepted as its 64-bit complement.
\<close>

theorem atoi_stale_errno:
  "map_option (\<lambda>(r, v, _). (r, v)) (ILib_atoi_uint64_ex True (dec_string n @ [0]) len lim) = Some (1, 0)
   \<and> ILib_atoi2_uint16 True (dec_string n @ [0]) len = Some (0, True)
   \<and> map_option fst (ILibGetULong True (dec_string n) (length (dec_string n))) = Some (-1)
   \<and> ILib_atoi_uint64_ex False (str ''-1'' @ [0]) 2 (2 ^ 64 - 1) = Some (0, 2 ^ 64 - 1, False)"
proof -
  have m1: "scan_number [45, 49, 0] = Some (True, 1, 2)"
    by (simp add: scan_number_def skip_space.simps is_space_def digits.simps is_digit_def Let_def)
  show ?thesis
    by (auto simp: ILib_atoi_uint64_ex_def strtoull_def scan_dec_string m1 Let_def ILibGetULong_def
        ILib_atoi2_uint16_def ILib_atoi_uint16_ex_def ULLONG_MAX_def SIZE_MOD_def case_prod_unfold)
qed

end
