(* ===== verification/HttpPacket.thy ===== *)
theory HttpPacket
  imports HashTree StringBuffers Numbers
begin

text \<open>
  HTTP packets of microstack/ILibParsers.c: the parser \<open>ILibParsePacketHeader\<close>, the serialiser
  \<open>ILibGetRawPacket\<close> with its text fragmentation, and the accessors of a \<open>packetheader\<close>.

  A string a packet points to is the list of its bytes (its length field is the length of the
  list, a null pointer is the empty list).  The parser works on the memory behind \<open>buffer\<close> and
  overwrites the byte behind each piece with a NUL; those bytes are never part of a piece, so
  the pieces are read off at the time they are found.  The chain \<open>FirstField\<close> to \<open>LastField\<close> is the list
  \<open>Fields\<close>.  Socket addresses and caller-provided memory are not modelled.
\<close>

section \<open>State\<close>

text \<open>What the header table points to: a header value, or the pointer of a \<open>Stash_Put\<close>.\<close>

datatype header_value = HText "byte list" | HStash addr

record packetheader_field_node =
  Field :: "byte list"
  FieldData :: "byte list"

record packetheader =
  Directive :: "byte list"
  DirectiveObj :: "byte list"
  StatusCode :: int
  StatusData :: "byte list"
  Version :: "byte list"
  Body :: "byte list"
  Fields :: "packetheader_field_node list"
  HeaderTable :: "header_value HashNode_Root"
  ClonedPacket :: int

definition MAX_HEADER_LENGTH :: nat where
  "MAX_HEADER_LENGTH = 800"

definition ILibCreateEmptyPacketEx :: packetheader where
  "ILibCreateEmptyPacketEx =
     \<lparr>Directive = [], DirectiveObj = [], StatusCode = -1, StatusData = [], Version = str ''1.0'', Body = [],
      Fields = [], HeaderTable = ILibInitHashTree_CaseInSensitiveEx, ClonedPacket = 0\<rparr>"

section \<open>Parser\<close>

text \<open>\<open>p[n] = 0\<close> on the memory of the buffer.\<close>

definition put0 :: "byte list \<Rightarrow> nat \<Rightarrow> byte list option" where
  "put0 buf i = (if i < length buf then Some (buf[i := 0]) else None)"

definition empty_header :: packetheader where
  "empty_header =
     \<lparr>Directive = [], DirectiveObj = [], StatusCode = 0, StatusData = [], Version = [], Body = [],
      Fields = [], HeaderTable = ILibInitHashTree_CaseInSensitiveEx, ClonedPacket = 0\<rparr>"

definition tok :: "byte list \<Rightarrow> nat \<times> nat \<Rightarrow> byte list" where
  "tok buf t = slice buf (fst t) (snd t)"

text \<open>The start line \<open>f\<close>; the packet is \<open>None\<close> when it is rejected.\<close>

definition parse_start_line ::
  "bool \<Rightarrow> byte list \<Rightarrow> nat \<times> nat \<Rightarrow> (byte list \<times> packetheader option \<times> bool) option" where
  "parse_start_line erange buf f = do {
     StartLine \<leftarrow> ILibParseString buf (fst f) (snd f) (str '' '');
     let first = hd StartLine;
     http \<leftarrow> memeq buf (fst first) (str ''HTTP'') 4;
     if http \<and> length StartLine > 1
     then do {
       p \<leftarrow> ILibParseString buf (fst first) (snd first) (str ''/'');
       let v = last p;
       noslash \<leftarrow> ILibString_StartsWith (drop (fst v) buf) (snd v) (str ''HTTP'') 4;
       let v = (if noslash then (fst v + 4, snd v - 4) else v);
       buf' \<leftarrow> put0 buf (fst v + snd v);
       (code, erange) \<leftarrow> ILib_atoi2_int32 erange (tok buf' (StartLine ! 1) @ [0]) 255;
       let sd = (if length StartLine > 2
                 then slice buf' (fst (StartLine ! 2)) (fst f + snd f - fst (StartLine ! 2)) else []);
       Some (buf', Some (empty_header\<lparr>Version := tok buf v, StatusCode := int code, StatusData := sd\<rparr>), erange) }
     else if length StartLine > 1
     then do {
       let dir = first;
       let obj = StartLine ! 1;
       p \<leftarrow> ILibParseString buf (fst (last StartLine)) (snd (last StartLine)) (str ''/'');
       let v = last p;
       buf1 \<leftarrow> put0 buf (fst v + snd v);
       buf2 \<leftarrow> put0 buf1 (fst dir + snd dir);
       buf3 \<leftarrow> put0 buf2 (fst obj + snd obj);
       Some (buf3, Some (empty_header\<lparr>Directive := tok buf dir, DirectiveObj := tok buf obj,
                           StatusCode := -1, Version := tok buf v\<rparr>), erange) }
     else Some (buf, None, erange) }"

text \<open>The position of the first colon in the \<open>n\<close> bytes from \<open>d + i\<close>, relative to \<open>d\<close>.\<close>

fun find_colon :: "byte list \<Rightarrow> nat \<Rightarrow> nat \<Rightarrow> nat \<Rightarrow> nat option option" where
  "find_colon buf d i 0 = Some None"
| "find_colon buf d i (Suc n) = do {
     c \<leftarrow> rd buf (d + i);
     if c = 58 then Some (Some i) else find_colon buf d (i + 1) n }"

text \<open>
  The loop over the header lines.  \<open>node\<close> tells whether the code's \<open>node\<close> is set; it is then the
  last field.
\<close>

fun parse_header_lines ::
  "bool \<Rightarrow> byte list \<Rightarrow> packetheader \<Rightarrow> (nat \<times> nat) list \<Rightarrow> (byte list \<times> packetheader) option" where
  "parse_header_lines node buf p [] = Some (buf, p)"
| "parse_header_lines node buf p ((d, l) # lines) =
     (if l = 0 then Some (buf, p)
      else do {
        c \<leftarrow> rd buf d;
        if node \<and> (c = 32 \<or> c = 9)
        then (let n = last (Fields p);
                  n' = n\<lparr>FieldData := FieldData n @ slice buf (d + 1) (l - 1)\<rparr>
              in parse_header_lines node buf (p\<lparr>Fields := butlast (Fields p) @ [n']\<rparr>) lines)
        else do {
          colon \<leftarrow> find_colon buf d 0 l;
          (case colon of
             None \<Rightarrow> parse_header_lines False buf p lines
           | Some i \<Rightarrow> do {
               (dp, dl) \<leftarrow> ILibTrimString buf (d + i + 1) (l - i - 1);
               buf1 \<leftarrow> put0 buf (d + i);
               buf2 \<leftarrow> put0 buf1 (dp + dl);
               let n = \<lparr>Field = slice buf d i, FieldData = slice buf dp dl\<rparr>;
               t \<leftarrow> (if dl \<le> INT32_MAX
                     then ILibAddEntryEx (HeaderTable p) (Field n @ [0]) i (Some (HText (FieldData n))) (int dl)
                     else Some (HeaderTable p));
               parse_header_lines True buf2 (p\<lparr>Fields := Fields p @ [n], HeaderTable := t\<rparr>) lines }) } })"

definition ILibParsePacketHeader ::
  "bool \<Rightarrow> byte list \<Rightarrow> nat \<Rightarrow> nat \<Rightarrow> (byte list \<times> packetheader option \<times> bool) option" where
  "ILibParsePacketHeader erange buffer offset len = do {
     lines \<leftarrow> ILibParseString buffer offset len [13, 10];
     (buf, p, erange) \<leftarrow> parse_start_line erange buffer (hd lines);
     (case p of
        None \<Rightarrow> Some (buf, None, erange)
      | Some p \<Rightarrow> do {
          (buf, p) \<leftarrow> parse_header_lines False buf p (tl lines);
          Some (buf, Some p, erange) }) }"

section \<open>Fragmentation\<close>

definition ILibFragmentTextLength :: "nat \<Rightarrow> nat \<Rightarrow> nat \<Rightarrow> nat" where
  "ILibFragmentTextLength textLength delimiterLength tokenLength =
     textLength + (if textLength div tokenLength = 1 then 0 else textLength div tokenLength) * delimiterLength"

text \<open>The loop of \<open>ILibFragmentText\<close>: \<open>i2\<close> bytes are left, \<open>i\<close> were written.\<close>

function fragment_loop ::
  "byte list \<Rightarrow> nat \<Rightarrow> byte list \<Rightarrow> nat \<Rightarrow> nat \<Rightarrow> byte list \<Rightarrow> nat \<Rightarrow> nat \<Rightarrow> failure + (byte list \<times> nat)" where
  "fragment_loop text textLength delimiter tokenLength allocSize buf i i2 =
     (if i2 = 0 \<or> tokenLength = 0 then Inr (buf, i)
      else
        case (if i2 \<noteq> textLength
              then ILibMemory_Copy_s buf i (sub64 allocSize i) delimiter (length delimiter)
              else Inr buf) of
          Inl e \<Rightarrow> Inl e
        | Inr buf \<Rightarrow>
            (let i = (if i2 \<noteq> textLength then i + length delimiter else i);
                 n = (if i2 > tokenLength then tokenLength else i2) in
             case ILibMemory_Copy_s buf i (sub64 allocSize i) (drop (textLength - i2) text) n of
               Inl e \<Rightarrow> Inl e
             | Inr buf \<Rightarrow> fragment_loop text textLength delimiter tokenLength allocSize buf (i + n) (i2 - n)))"
  by pat_completeness auto
termination
  by (relation "measure (\<lambda>(text, tl, d, k, a, buf, i, i2). i2)") (auto split: if_splits)

declare fragment_loop.simps [simp del]

text \<open>A token length of 0 is a division by zero.\<close>

definition ILibFragmentText ::
  "(nat \<Rightarrow> byte) \<Rightarrow> byte list \<Rightarrow> nat \<Rightarrow> byte list \<Rightarrow> nat \<Rightarrow> failure + (byte list \<times> nat)" where
  "ILibFragmentText m0 text textLength delimiter tokenLength =
     (if tokenLength = 0 then Inl UB
      else (let allocSize = ILibFragmentTextLength textLength (length delimiter) tokenLength
            in fragment_loop text textLength delimiter tokenLength allocSize (fresh_block m0 allocSize) 0 textLength))"

section \<open>Serialiser\<close>

text \<open>The entries a \<open>MoveNext\<close>/\<open>GetValueEx\<close> loop visits from the enumerator \<open>en\<close> on.\<close>

function enum_from ::
  "'d HashNode_Root \<Rightarrow> HashNodeEnumerator \<Rightarrow> (byte list option \<times> nat \<times> 'd option \<times> int) list" where
  "enum_from t en =
     (case ILibHashTree_MoveNext t en of (en', r) \<Rightarrow>
        if r = 0
        then (case ILibHashTree_GetValueEx t en' of None \<Rightarrow> [] | Some e \<Rightarrow> e # enum_from t en')
        else [])"
  by pat_completeness auto
termination
  by (relation "measure (\<lambda>(t, en). case en of None \<Rightarrow> 0 | Some i \<Rightarrow> length (Root t) - i)")
     (auto simp: ILibHashTree_MoveNext_def Let_def split: option.splits if_splits)

declare enum_from.simps [simp del]

text \<open>\<open>(size_t)\<close> of the \<open>int\<close> that the table stores as the length of the value.\<close>

definition to_size :: "int \<Rightarrow> nat" where
  "to_size i = nat (i mod int SIZE_MOD)"

definition header_size :: "byte list option \<times> nat \<times> header_value option \<times> int \<Rightarrow> nat" where
  "header_size e = (case e of (_, FieldLength, _, x) \<Rightarrow>
     let FieldDataLength = to_size x in
     if FieldDataLength = NPOS then 0
     else FieldLength + FieldDataLength + 4
          + (if FieldDataLength > MAX_HEADER_LENGTH
             then ILibFragmentTextLength FieldDataLength 3 MAX_HEADER_LENGTH else 0))"

type_synonym out = "byte list \<times> nat"

text \<open>\<open>memcpy_s(Buffer + i, BufferSize - i, data, n); i += n\<close>\<close>

definition wr :: "byte list \<Rightarrow> nat \<Rightarrow> out \<Rightarrow> failure + out" where
  "wr data n st = (case st of (buf, i) \<Rightarrow>
     and_then (ILibMemory_Copy_s buf i (sub64 (length buf) i) data n) (\<lambda>buf. Inr (buf, i + n)))"

text \<open>
  \<open>i += sprintf_s(Buffer + i, BufferSize - i, ...)\<close> for the printed text: the text is cut to
  the space, and the result is -1 if it did not fit.
\<close>

definition wr_printf :: "byte list \<Rightarrow> out \<Rightarrow> failure + out" where
  "wr_printf text st = (case st of (buf, i) \<Rightarrow>
     let space = sub64 (length buf) i in
     if space = 0 then Inr (buf, sub64 i 1)
     else let shown = take (space - 1) text @ [0] in
       and_then (ILibMemory_Copy_s buf i space shown (length shown)) (\<lambda>buf.
         Inr (buf, if length text < space then i + length text else sub64 i 1)))"

definition wr_header :: "(nat \<Rightarrow> byte) \<Rightarrow> byte list option \<times> nat \<times> header_value option \<times> int \<Rightarrow> out \<Rightarrow> failure + out" where
  "wr_header m0 e st = (case e of (key, FieldLength, v, x) \<Rightarrow>
     let FieldDataLength = to_size x in
     if FieldDataLength = NPOS then Inr st
     else (case (key, v) of
        (Some key, Some (HText d)) \<Rightarrow>
          and_then (wr key FieldLength st) (\<lambda>st.
          and_then (wr (str '': '') 2 st) (\<lambda>st.
          and_then
            (if ILibFragmentTextLength FieldDataLength 3 MAX_HEADER_LENGTH > FieldDataLength
             then and_then (ILibFragmentText m0 d FieldDataLength [13, 10, 32] MAX_HEADER_LENGTH)
                    (\<lambda>(temp, i2). wr temp i2 st)
             else wr d FieldDataLength st)
            (\<lambda>st. wr [13, 10] 2 st)))
      | _ \<Rightarrow> Inl UB))"

fun wr_headers :: "(nat \<Rightarrow> byte) \<Rightarrow> (byte list option \<times> nat \<times> header_value option \<times> int) list \<Rightarrow> out \<Rightarrow> failure + out" where
  "wr_headers m0 [] st = Inr st"
| "wr_headers m0 (e # es) st = and_then (wr_header m0 e st) (wr_headers m0 es)"

definition wr_start_line :: "packetheader \<Rightarrow> out \<Rightarrow> failure + out" where
  "wr_start_line packet st =
     (if StatusCode packet \<noteq> -1
      then and_then (wr (str ''HTTP/'') 5 st) (\<lambda>st.
           and_then (wr (Version packet) (length (Version packet)) st) (\<lambda>st.
           and_then (wr_printf (str '' '' @ int_string (StatusCode packet) @ str '' '') st) (\<lambda>st.
           and_then (wr (StatusData packet) (length (StatusData packet)) st) (\<lambda>st.
           wr [13, 10] 2 st))))
      else and_then (wr (Directive packet) (length (Directive packet)) st) (\<lambda>st.
           and_then (wr (str '' '') 1 st) (\<lambda>st.
           and_then (wr (DirectiveObj packet) (length (DirectiveObj packet)) st) (\<lambda>st.
           and_then (wr (str '' HTTP/'') 6 st) (\<lambda>st.
           and_then (wr (Version packet) (length (Version packet)) st) (\<lambda>st.
           wr [13, 10] 2 st))))))"

definition raw_size :: "packetheader \<Rightarrow> nat" where
  "raw_size packet =
     (if StatusCode packet \<noteq> -1
      then 12 + length (Version packet) + length (StatusData packet)
      else length (Directive packet) + length (DirectiveObj packet) + 12)
     + sum_list (map header_size (enum_from (HeaderTable packet) (ILibHashTree_GetEnumerator (HeaderTable packet))))
     + (3 + length (Body packet))"

definition ILibGetRawPacket :: "(nat \<Rightarrow> byte) \<Rightarrow> packetheader \<Rightarrow> failure + out" where
  "ILibGetRawPacket m0 packet =
     and_then (wr_start_line packet (fresh_block m0 (raw_size packet), 0)) (\<lambda>st.
     and_then (wr_headers m0
       (enum_from (HeaderTable packet) (ILibHashTree_GetEnumerator (HeaderTable packet))) st) (\<lambda>st.
     and_then (wr [13, 10] 2 st) (\<lambda>st.
     and_then (wr (Body packet) (length (Body packet)) st) (\<lambda>(buf, i).
     and_then (store buf i 0) (\<lambda>buf. Inr (buf, i))))))"

section \<open>Accessors\<close>

definition ILibSetVersion :: "packetheader \<Rightarrow> byte list \<Rightarrow> nat \<Rightarrow> packetheader option" where
  "ILibSetVersion packet v VersionLength =
     (if VersionLength \<le> length v then Some (packet\<lparr>Version := take VersionLength v\<rparr>) else None)"

definition len_or_strnlen :: "bool \<Rightarrow> byte list \<Rightarrow> nat \<Rightarrow> nat option" where
  "len_or_strnlen zero_too s n = (if n = NPOS \<or> zero_too \<and> n = 0 then strnlen_s s 255 else Some n)"

definition ILibSetStatusCode :: "packetheader \<Rightarrow> int \<Rightarrow> byte list \<Rightarrow> nat \<Rightarrow> packetheader option" where
  "ILibSetStatusCode packet code sd StatusDataLength = do {
     n \<leftarrow> len_or_strnlen False sd StatusDataLength;
     if n \<le> length sd then Some (packet\<lparr>StatusCode := code, StatusData := take n sd\<rparr>) else None }"

definition ILibSetDirective ::
  "packetheader \<Rightarrow> byte list \<Rightarrow> nat \<Rightarrow> byte list \<Rightarrow> nat \<Rightarrow> packetheader option" where
  "ILibSetDirective packet dir DirectiveLength obj DirectiveObjLength = do {
     n \<leftarrow> len_or_strnlen False dir DirectiveLength;
     m \<leftarrow> len_or_strnlen False obj DirectiveObjLength;
     if n \<le> length dir \<and> m \<le> length obj
     then Some (packet\<lparr>Directive := take n dir, DirectiveObj := take m obj\<rparr>) else None }"

definition ILibAddHeaderLine ::
  "packetheader \<Rightarrow> byte list \<Rightarrow> nat \<Rightarrow> byte list \<Rightarrow> nat \<Rightarrow> packetheader option" where
  "ILibAddHeaderLine packet FieldName FieldNameLength FieldDat FieldDataLength = do {
     n \<leftarrow> len_or_strnlen True FieldName FieldNameLength;
     m \<leftarrow> len_or_strnlen True FieldDat FieldDataLength;
     if n \<le> length FieldName \<and> m \<le> length FieldDat
     then do {
       let node = \<lparr>Field = take n FieldName, FieldData = take m FieldDat\<rparr>;
       t \<leftarrow> ILibAddEntryEx (HeaderTable packet) (Field node @ [0]) n (Some (HText (FieldData node)))
              (to_int32 m);
       Some (packet\<lparr>HeaderTable := t, Fields := Fields packet @ [node]\<rparr>) }
     else None }"

definition ILibDeleteHeaderLine :: "packetheader \<Rightarrow> byte list \<Rightarrow> int \<Rightarrow> packetheader option" where
  "ILibDeleteHeaderLine packet FieldName FieldNameLength =
     map_option (\<lambda>t. packet\<lparr>HeaderTable := t\<rparr>)
       (ILibDeleteEntry (HeaderTable packet) FieldName FieldNameLength)"

text \<open>
  \<open>ILibGetHeaderLineEx\<close> stores a NUL behind the value; behind a header value there is room for it,
  in front of a stashed object (whose length is -1) there is none.
\<close>

definition ILibGetHeaderLineEx :: "packetheader \<Rightarrow> byte list \<Rightarrow> int \<Rightarrow> (header_value option \<times> int) option" where
  "ILibGetHeaderLineEx packet FieldName FieldNameLength = do {
     (v, valLength) \<leftarrow> ILibGetEntryEx (HeaderTable packet) FieldName (to_size FieldNameLength);
     if valLength = 0 then Some (v, valLength)
     else (case v of
             Some (HText d) \<Rightarrow>
               if 0 \<le> valLength \<and> nat valLength \<le> length d
               then Some (Some (HText (take (nat valLength) d)), valLength) else None
           | _ \<Rightarrow> None) }"

text \<open>
  The scratch pad of \<open>ILibGetHeaderLineSP\<close> holds the rest of the chain, then the value.  The
  results are that rest and the value (\<open>None\<close> when no field matches).
\<close>

fun ILibGetHeaderLineSP_Next ::
  "packetheader_field_node list \<Rightarrow> byte list \<Rightarrow> int
     \<Rightarrow> failure + (packetheader_field_node list \<times> byte list) option" where
  "ILibGetHeaderLineSP_Next [] FieldName FieldNameLength = Inr None"
| "ILibGetHeaderLineSP_Next (header # rest) FieldName FieldNameLength =
     and_then (if to_size FieldNameLength = length (Field header)
               then or_UB (strncaseeq FieldName (Field header @ [0]) (length (Field header)))
               else Inr False) (\<lambda>m.
     if m
     then (if length (FieldData header) \<le> SCRATCH_PAD - 8
           then (if length (FieldData header) < SCRATCH_PAD - 8
                 then Inr (Some (rest, FieldData header)) else Inl UB)
           else Inl (Exit 254))
     else ILibGetHeaderLineSP_Next rest FieldName FieldNameLength)"

definition ILibGetHeaderLineSP ::
  "packetheader \<Rightarrow> byte list \<Rightarrow> int \<Rightarrow> failure + (packetheader_field_node list \<times> byte list) option" where
  "ILibGetHeaderLineSP packet FieldName FieldNameLength =
     ILibGetHeaderLineSP_Next (Fields packet) FieldName FieldNameLength"

definition stash_len :: "byte list \<Rightarrow> int \<Rightarrow> nat option" where
  "stash_len key keyLen = (if keyLen < 0 then strnlen_s key 255 else Some (nat keyLen))"

definition ILibHTTPPacket_Stash_Put :: "packetheader \<Rightarrow> byte list \<Rightarrow> int \<Rightarrow> addr \<Rightarrow> packetheader option" where
  "ILibHTTPPacket_Stash_Put packet key keyLen d = do {
     n \<leftarrow> stash_len key keyLen;
     t \<leftarrow> ILibAddEntryEx (HeaderTable packet) key n (Some (HStash d)) (-1);
     Some (packet\<lparr>HeaderTable := t\<rparr>) }"

definition ILibHTTPPacket_Stash_HasKey :: "packetheader \<Rightarrow> byte list \<Rightarrow> int \<Rightarrow> int option" where
  "ILibHTTPPacket_Stash_HasKey packet key keyLen = ILibHasEntry (HeaderTable packet) key (to_size keyLen)"

definition ILibHTTPPacket_Stash_Get :: "packetheader \<Rightarrow> byte list \<Rightarrow> int \<Rightarrow> header_value option option" where
  "ILibHTTPPacket_Stash_Get packet key keyLen = do {
     n \<leftarrow> stash_len key keyLen;
     ILibGetEntry (HeaderTable packet) key n }"

text \<open>The loop of \<open>ILibClonePacket\<close> over the fields: those still in the table are copied.\<close>

fun clone_fields ::
  "packetheader \<Rightarrow> packetheader_field_node list \<Rightarrow> packetheader \<Rightarrow> packetheader option" where
  "clone_fields packet [] r = Some r"
| "clone_fields packet (n # ns) r = do {
     h \<leftarrow> ILibHasEntry (HeaderTable packet) (Field n @ [0]) (length (Field n));
     r \<leftarrow> (if h \<noteq> 0
           then ILibAddHeaderLine r (Field n @ [0]) (length (Field n)) (FieldData n @ [0]) (length (FieldData n))
           else Some r);
     clone_fields packet ns r }"

definition ILibClonePacket :: "packetheader \<Rightarrow> packetheader option" where
  "ILibClonePacket packet = do {
     let r = ILibCreateEmptyPacketEx\<lparr>ClonedPacket := 1\<rparr>;
     r \<leftarrow> ILibSetDirective r (Directive packet) (length (Directive packet))
            (DirectiveObj packet) (length (DirectiveObj packet));
     r \<leftarrow> ILibSetStatusCode r (StatusCode packet) (StatusData packet) (length (StatusData packet));
     r \<leftarrow> ILibSetVersion r (Version packet) (length (Version packet));
     clone_fields packet (Fields packet) r }"


section \<open>Fragmentation\<close>

function chunks :: "nat \<Rightarrow> 'a list \<Rightarrow> 'a list list" where
  "chunks k s = (if k = 0 \<or> s = [] then [] else take k s # chunks k (drop k s))"
  by pat_completeness auto
termination by (relation "measure (\<lambda>(k, s). length s)") auto

declare chunks.simps [simp del]

lemma chunks_Nil [simp]: "chunks k [] = []"
  by (simp add: chunks.simps)

lemma chunks_step: "0 < k \<Longrightarrow> s \<noteq> [] \<Longrightarrow> chunks k s = take k s # chunks k (drop k s)"
  by (subst chunks.simps) simp

lemma concat_chunks: "0 < k \<Longrightarrow> concat (chunks k s) = s"
  by (induction k s rule: chunks.induct) (subst chunks.simps, simp)

lemma length_chunks: "0 < k \<Longrightarrow> length (chunks k s) \<le> length s div k + 1"
proof (induction k s rule: chunks.induct)
  case (1 k s)
  show ?case
  proof (cases "s = []")
    case False
    show ?thesis
    proof (cases "length s < k")
      case True
      with False 1(2) show ?thesis by (simp add: chunks_step)
    next
      case len: False
      then have "length s div k = (length s - k) div k + 1" using 1(2) by (simp add: le_div_geq)
      with 1 False show ?thesis by (simp add: chunks_step)
    qed
  qed simp
qed

lemma join_concat: "join d (c # cs) = c @ concat (map (\<lambda>x. d @ x) cs)"
  by (induction cs arbitrary: c) simp_all

lemma fragment_loop_rest:
  assumes "0 < k" "n \<le> length text" "i2 < n" "length buf < SIZE_MOD"
    and "i + length (concat (map (\<lambda>x. d @ x) (chunks k (slice text (n - i2) i2)))) \<le> length buf"
  shows "fragment_loop text n d k (length buf) buf i i2
    = Inr (overwrite buf i (concat (map (\<lambda>x. d @ x) (chunks k (slice text (n - i2) i2)))),
           i + length (concat (map (\<lambda>x. d @ x) (chunks k (slice text (n - i2) i2)))))"
  using assms(3-)
proof (induction i2 arbitrary: buf i rule: less_induct)
  case (less i2)
  show ?case
  proof (cases "i2 = 0")
    case True
    with less.prems show ?thesis by (simp add: fragment_loop.simps)
  next
    case False
    let ?s = "slice text (n - i2) i2"
    let ?m = "min k i2"
    let ?c = "take k ?s"
    have len_s: "length ?s = i2" using assms(2) less.prems(1) by simp
    then have s: "chunks k ?s = ?c # chunks k (drop k ?s)" using False assms(1) by (intro chunks_step) auto
    have c: "?c = take ?m (drop (n - i2) text)" "length ?c = ?m" using len_s by (simp_all add: slice_def)
    have drop: "drop k ?s = slice text (n - (i2 - ?m)) (i2 - ?m)"
      using less.prems(1) by (cases "k \<le> i2") (simp_all add: drop_slice)
    let ?r = "concat (map (\<lambda>x. d @ x) (chunks k (slice text (n - (i2 - ?m)) (i2 - ?m))))"
    have room: "i + length d + ?m + length ?r \<le> length buf"
      using less.prems(3) c(2) by (simp add: s drop)
    have copy1: "ILibMemory_Copy_s buf i (sub64 (length buf) i) d (length d) = Inr (overwrite buf i d)"
      using room less.prems(2) by (subst copy_in) auto
    have copy2: "ILibMemory_Copy_s (overwrite buf i d) (i + length d) (sub64 (length buf) (i + length d)) (drop (n - i2) text) ?m
        = Inr (overwrite buf i (d @ ?c))"
      using room less.prems assms(2) overwrite_overwrite [of i d buf ?c] c by (subst copy_in) auto
    have m: "(if k < i2 then k else i2) = ?m" by (simp add: min_def)
    have step: "fragment_loop text n d k (length buf) buf i i2
        = fragment_loop text n d k (length buf) (overwrite buf i (d @ ?c)) (i + length d + ?m) (i2 - ?m)"
      using False assms(1) less.prems(1) copy1 copy2
      by (subst fragment_loop.simps) (simp add: m Let_def)
    have "i2 - ?m < i2" "i2 - ?m < n" using False assms(1) less.prems(1) by auto
    then have "fragment_loop text n d k (length (overwrite buf i (d @ ?c))) (overwrite buf i (d @ ?c)) (i + length d + ?m) (i2 - ?m)
        = Inr (overwrite (overwrite buf i (d @ ?c)) (i + length d + ?m) ?r, i + length d + ?m + length ?r)"
      using room c(2) less.prems(2) by (intro less.IH) auto
    moreover have "overwrite (overwrite buf i (d @ ?c)) (i + length d + ?m) ?r = overwrite buf i (d @ ?c @ ?r)"
      using overwrite_overwrite [of i "d @ ?c" buf ?r] room c(2) by (simp add: add.assoc)
    ultimately show ?thesis using step room c(2) by (simp add: s drop add.assoc)
  qed
qed

lemma fragment_loop_all:
  assumes "0 < k" "n \<le> length text" "length buf < SIZE_MOD" "length (join d (chunks k (take n text))) \<le> length buf"
  shows "fragment_loop text n d k (length buf) buf 0 n
    = Inr (overwrite buf 0 (join d (chunks k (take n text))), length (join d (chunks k (take n text))))"
proof (cases "n = 0")
  case True
  then show ?thesis by (simp add: fragment_loop.simps)
next
  case False
  let ?m = "min k n"
  let ?c = "take k (take n text)"
  have s: "chunks k (take n text) = ?c # chunks k (drop k (take n text))"
    using False assms(1,2) by (intro chunks_step) auto
  have c: "?c = take ?m text" "length ?c = ?m" using assms(2) by simp_all
  have drop: "drop k (take n text) = slice text (n - (n - ?m)) (n - ?m)"
    by (cases "k \<le> n") (simp_all add: slice_def drop_take)
  let ?r = "concat (map (\<lambda>x. d @ x) (chunks k (slice text (n - (n - ?m)) (n - ?m))))"
  have J: "join d (chunks k (take n text)) = ?c @ ?r" by (simp only: s join_concat drop)
  have room: "?m + length ?r \<le> length buf" using assms(4) c(2) by (simp only: J length_append)
  have copy: "ILibMemory_Copy_s buf 0 (sub64 (length buf) 0) text ?m = Inr (overwrite buf 0 ?c)"
    using room assms(2,3) c by (subst copy_in) auto
  have m: "(if k < n then k else n) = ?m" by (simp add: min_def)
  have step: "fragment_loop text n d k (length buf) buf 0 n
      = fragment_loop text n d k (length buf) (overwrite buf 0 ?c) ?m (n - ?m)"
    using False assms(1) copy by (subst fragment_loop.simps) (simp add: m Let_def)
  have "fragment_loop text n d k (length (overwrite buf 0 ?c)) (overwrite buf 0 ?c) ?m (n - ?m)
      = Inr (overwrite (overwrite buf 0 ?c) ?m ?r, ?m + length ?r)"
    using room c(2) assms False by (intro fragment_loop_rest) auto
  moreover have "overwrite (overwrite buf 0 ?c) ?m ?r = overwrite buf 0 (?c @ ?r)"
    using overwrite_overwrite [of 0 ?c buf ?r] room c(2) by simp
  ultimately show ?thesis using step room c(2) by (simp add: J)
qed

lemma fragment_fits:
  assumes "0 < k" "n \<le> length text" "\<not> (k < n \<and> n < 2 * k)"
  shows "length (join d (chunks k (take n text))) \<le> ILibFragmentTextLength n (length d) k"
proof (cases "n \<le> k")
  case True
  then have "chunks k (take n text) = (if n = 0 then [] else [take n text])"
    using assms(1,2) chunks_step [OF assms(1), of "take n text"] by (cases "n = 0"; cases "text") auto
  then show ?thesis using assms(2) by (simp add: ILibFragmentTextLength_def)
next
  case False
  then have "2 * k \<le> n" using assms(3) by auto
  then have q: "n div k \<ge> 2" using assms(1) by (simp add: less_eq_div_iff_mult_less_eq mult.commute)
  have ne: "chunks k (take n text) \<noteq> []" using assms(1,2) False by (subst chunks_step) auto
  have "length (chunks k (take n text)) - 1 \<le> n div k" using length_chunks [OF assms(1), of "take n text"] assms(2) by simp
  moreover have "sum_list (map length (chunks k (take n text))) = n"
    using concat_chunks [OF assms(1), of "take n text"] assms(2) by (metis length_concat length_take min.absorb2)
  ultimately show ?thesis using q length_join [OF ne, of d] by (auto simp: ILibFragmentTextLength_def)
qed

lemma fragment_too_small:
  assumes "k < n" "n < 2 * k" "d \<noteq> []" "n \<le> length text" "n < SIZE_MOD"
  shows "ILibFragmentText m0 text n d k = Inl (Exit 254)"
proof -
  have "n div k = 1" using assms(1,2) by (simp add: div_nat_eqI)
  then have size: "ILibFragmentTextLength n (length d) k = n" by (simp add: ILibFragmentTextLength_def)
  let ?b = "fresh_block m0 n"
  have copy: "ILibMemory_Copy_s ?b 0 (sub64 n 0) text k = Inr (overwrite ?b 0 (take k text))"
    using assms by (subst copy_in) auto
  have l: "length (overwrite ?b 0 (take k text)) = n" using assms by simp
  show ?thesis
  proof (cases "length d \<le> n - k")
    case True
    have copy2: "ILibMemory_Copy_s (overwrite ?b 0 (take k text)) k (sub64 n k) d (length d)
        = Inr (overwrite (overwrite ?b 0 (take k text)) k d)"
      using assms True l by (subst copy_in) auto
    have "sub64 n (k + length d) < n - k" using True assms by (cases d) (auto simp: less_diff_conv)
    then show ?thesis using assms size copy copy2
      by (simp add: ILibFragmentText_def Let_def)
        (subst fragment_loop.simps, simp, subst fragment_loop.simps, simp add: ILibMemory_Copy_s_def)
  next
    case False
    then have "\<not> length d \<le> sub64 n k" using assms by simp
    then show ?thesis using assms size copy
      by (simp add: ILibFragmentText_def Let_def)
        (subst fragment_loop.simps, simp, subst fragment_loop.simps, simp add: ILibMemory_Copy_s_def)
  qed
qed

lemma fragment_text_fits:
  assumes "0 < k" "n \<le> length text" "\<not> (k < n \<and> n < 2 * k)" "ILibFragmentTextLength n (length d) k < SIZE_MOD"
  shows "\<exists>buf. ILibFragmentText m0 text n d k = Inr (buf, length (join d (chunks k (take n text))))
      \<and> take (length (join d (chunks k (take n text)))) buf = join d (chunks k (take n text))"
proof -
  let ?a = "ILibFragmentTextLength n (length d) k"
  let ?J = "join d (chunks k (take n text))"
  have fits: "length ?J \<le> ?a" by (rule fragment_fits [OF assms(1-3)])
  then have "ILibFragmentText m0 text n d k = Inr (overwrite (fresh_block m0 ?a) 0 ?J, length ?J)"
    using fragment_loop_all [OF assms(1,2), of "fresh_block m0 ?a" d] assms(1,4) by (simp add: ILibFragmentText_def Let_def)
  then show ?thesis using fits by (simp add: overwrite_def)
qed

text \<open>
  \<open>ILibFragmentText\<close> returns the text cut into pieces of \<open>tokenLength\<close> bytes
  (the last one may be shorter) with the delimiter between them, in the block it allocates,
  except when the text is longer than one piece and shorter than two: then
  \<open>ILibFragmentTextLength\<close> leaves no room for the delimiter and the process exits with code 254.
\<close>

theorem fragment_text_correct:
  assumes "0 < k" "n \<le> length text" "d \<noteq> []" "ILibFragmentTextLength n (length d) k < SIZE_MOD"
  shows "if k < n \<and> n < 2 * k then ILibFragmentText m0 text n d k = Inl (Exit 254)
    else \<exists>buf. ILibFragmentText m0 text n d k = Inr (buf, length (join d (chunks k (take n text))))
      \<and> take (length (join d (chunks k (take n text)))) buf = join d (chunks k (take n text))
      \<and> concat (chunks k (take n text)) = take n text"
proof (cases "k < n \<and> n < 2 * k")
  case True
  have "n < SIZE_MOD" using assms(4) by (simp add: ILibFragmentTextLength_def)
  with True show ?thesis using fragment_too_small [of k n d "text" m0] assms by simp
next
  case False
  then show ?thesis
    using fragment_text_fits [OF assms(1,2) False assms(4), of m0] concat_chunks [OF assms(1), of "take n text"] by auto
qed

lemma fragment_text_correct_witness:
  "if (2 :: nat) < 5 \<and> (5 :: nat) < 2 * 2 then ILibFragmentText (\<lambda>_. 0) (str ''abcde'') 5 (str ''-'') 2 = Inl (Exit 254)
    else \<exists>buf. ILibFragmentText (\<lambda>_. 0) (str ''abcde'') 5 (str ''-'') 2
        = Inr (buf, length (join (str ''-'') (chunks 2 (take 5 (str ''abcde'')))))
      \<and> take (length (join (str ''-'') (chunks 2 (take 5 (str ''abcde''))))) buf
          = join (str ''-'') (chunks 2 (take 5 (str ''abcde'')))
      \<and> concat (chunks 2 (take 5 (str ''abcde''))) = take 5 (str ''abcde'')"
  by (rule fragment_text_correct) (simp_all add: ILibFragmentTextLength_def SIZE_MOD_def)


section \<open>The serialised packet\<close>

definition header_text :: "byte list option \<times> nat \<times> header_value option \<times> int \<Rightarrow> byte list" where
  "header_text e = (case e of
     (Some key, n, Some (HText d), x) \<Rightarrow>
       if x = -1 then []
       else take n key @ str '': ''
            @ (if 2 * MAX_HEADER_LENGTH \<le> length d then join [13, 10, 32] (chunks MAX_HEADER_LENGTH d) else d)
            @ [13, 10]
   | _ \<Rightarrow> [])"

definition start_line :: "packetheader \<Rightarrow> byte list" where
  "start_line p =
     (if StatusCode p \<noteq> -1
      then str ''HTTP/'' @ Version p @ str '' '' @ int_string (StatusCode p) @ str '' '' @ StatusData p @ [13, 10]
      else Directive p @ str '' '' @ DirectiveObj p @ str '' HTTP/'' @ Version p @ [13, 10])"

definition header_entries :: "packetheader \<Rightarrow> (byte list option \<times> nat \<times> header_value option \<times> int) list" where
  "header_entries p = enum_from (HeaderTable p) (ILibHashTree_GetEnumerator (HeaderTable p))"

definition raw_text :: "packetheader \<Rightarrow> byte list" where
  "raw_text p = start_line p @ concat (map header_text (header_entries p)) @ [13, 10] @ Body p"

text \<open>An entry of the table: a header value with its length, or a stashed pointer with length -1.\<close>

definition entry_ok :: "byte list option \<times> nat \<times> header_value option \<times> int \<Rightarrow> bool" where
  "entry_ok e = (case e of
     (Some key, n, Some (HText d), x) \<Rightarrow> n \<le> length key \<and> x = int (length d) \<and> length d \<le> INT32_MAX
   | (_, _, _, x) \<Rightarrow> x = -1)"

text \<open>The buffer of \<open>L\<close> bytes starts with \<open>out\<close>, and the position is behind it.\<close>

definition has :: "nat \<Rightarrow> byte list \<Rightarrow> out \<Rightarrow> bool" where
  "has L out st \<longleftrightarrow> length (fst st) = L \<and> snd st = length out \<and> length out \<le> L \<and> take (length out) (fst st) = out"

lemma take_put:
  "length buf = L \<Longrightarrow> take (length out) buf = out \<Longrightarrow> length out + length d \<le> L \<Longrightarrow> m \<le> length d \<Longrightarrow>
   take (length out + m) (overwrite buf (length out) d) = out @ take m d"
  by (simp add: overwrite_def)

lemma wr_has:
  assumes "has L out st" "length out + n \<le> L" "n \<le> length d" "L < SIZE_MOD"
  shows "\<exists>st'. wr d n st = Inr st' \<and> has L (out @ take n d) st'"
proof -
  obtain buf where st: "st = (buf, length out)" "length buf = L" "take (length out) buf = out"
    using assms(1) by (cases st) (auto simp: has_def)
  have "ILibMemory_Copy_s buf (length out) (sub64 (length buf) (length out)) d n = Inr (overwrite buf (length out) (take n d))"
    using st(2) assms(2-4) by (subst copy_in) auto
  then show ?thesis using st assms take_put [OF st(2,3), of "take n d" n]
    by (auto simp: wr_def has_def)
qed

lemma wr_printf_has:
  assumes "has L out st" "length out + length s < L" "L < SIZE_MOD"
  shows "\<exists>st'. wr_printf s st = Inr st' \<and> has L (out @ s) st'"
proof -
  obtain buf where st: "st = (buf, length out)" "length buf = L" "take (length out) buf = out"
    using assms(1) by (cases st) (auto simp: has_def)
  have space: "sub64 (length buf) (length out) = L - length out" using st(2) assms(2,3) by simp
  have "ILibMemory_Copy_s buf (length out) (L - length out) (s @ [0]) (Suc (length s)) = Inr (overwrite buf (length out) (s @ [0]))"
    using st(2) assms(2) by (subst copy_in) auto
  then show ?thesis using st assms space take_put [OF st(2,3), of "s @ [0]" "length s"]
    by (auto simp: wr_printf_def has_def Let_def)
qed

lemma store_has:
  assumes "has L out st" "length out < L"
  shows "\<exists>buf. store (fst st) (snd st) 0 = Inr buf \<and> take (length out + 1) buf = out @ [0]"
proof -
  obtain buf where st: "st = (buf, length out)" "length buf = L" "take (length out) buf = out"
    using assms(1) by (cases st) (auto simp: has_def)
  then show ?thesis using assms(2) take_put [OF st(2,3), of "[0]" 1] by (simp add: store_in)
qed

lemma and_then_has:
  assumes "\<exists>st'. m = Inr st' \<and> has L a st'" "\<And>st'. has L a st' \<Longrightarrow> \<exists>st''. f st' = Inr st'' \<and> has L b st''"
  shows "\<exists>st''. and_then m f = Inr st'' \<and> has L b st''"
  using assms by (cases m) auto

lemma frag_size:
  "ILibFragmentTextLength n 3 MAX_HEADER_LENGTH > n \<longleftrightarrow> 2 * MAX_HEADER_LENGTH \<le> n"
proof -
  have "n div 800 < 2" if "n < 1600" using less_mult_imp_div_less [of n 2 800] that by simp
  moreover have "2 \<le> n div 800" if "1600 \<le> n" using div_le_mono [OF that, of 800] by simp
  ultimately have "n div 800 = 0 \<or> n div 800 = 1 \<longleftrightarrow> \<not> 1600 \<le> n" by linarith
  then show ?thesis by (auto simp: ILibFragmentTextLength_def MAX_HEADER_LENGTH_def)
qed

lemma to_size_len: "n \<le> INT32_MAX \<Longrightarrow> to_size (int n) = n" "to_size (-1) = NPOS"
  by (simp_all add: to_size_def INT32_MAX_def SIZE_MOD_def NPOS_def nat_mod_distrib)

lemma fold_separator: "length [13, 10, 32 :: byte] = 3"
  by simp

lemma frag_len:
  assumes "2 * MAX_HEADER_LENGTH \<le> length d"
  shows "length (join [13, 10, 32 :: byte] (chunks MAX_HEADER_LENGTH d)) \<le> ILibFragmentTextLength (length d) 3 MAX_HEADER_LENGTH"
proof -
  have "length (join [13, 10, 32 :: byte] (chunks MAX_HEADER_LENGTH (take (length d) d)))
      \<le> ILibFragmentTextLength (length d) (length [13, 10, 32 :: byte]) MAX_HEADER_LENGTH"
    using assms by (intro fragment_fits) (auto simp: MAX_HEADER_LENGTH_def)
  then show ?thesis by (simp only: fold_separator take_all order_refl)
qed

lemma folded_value:
  assumes "2 * MAX_HEADER_LENGTH \<le> length d" "length d \<le> INT32_MAX"
  shows "\<exists>temp. ILibFragmentText m0 d (length d) [13, 10, 32] MAX_HEADER_LENGTH
      = Inr (temp, length (join [13, 10, 32] (chunks MAX_HEADER_LENGTH d)))
    \<and> take (length (join [13, 10, 32] (chunks MAX_HEADER_LENGTH d))) temp = join [13, 10, 32] (chunks MAX_HEADER_LENGTH d)"
proof -
  have not: "\<not> (MAX_HEADER_LENGTH < length d \<and> length d < 2 * MAX_HEADER_LENGTH)" using assms(1) by simp
  have "ILibFragmentTextLength (length d) 3 MAX_HEADER_LENGTH < SIZE_MOD"
    using assms(2) le_trans [OF div_le_dividend assms(2), of 800]
    by (simp add: ILibFragmentTextLength_def MAX_HEADER_LENGTH_def INT32_MAX_def SIZE_MOD_def)
  then have size: "ILibFragmentTextLength (length d) (length [13, 10, 32 :: byte]) MAX_HEADER_LENGTH < SIZE_MOD"
    by (simp only: fold_separator)
  have pos: "0 < MAX_HEADER_LENGTH" by (simp add: MAX_HEADER_LENGTH_def)
  show ?thesis
    using fragment_text_fits [OF pos order_refl not size, of m0] by (simp only: take_all order_refl)
qed

lemma header_text_size:
  assumes "entry_ok e"
  shows "length (header_text e) \<le> header_size e"
proof (cases "snd (snd (snd e)) = -1")
  case True
  then have "header_text e = []" by (auto simp: header_text_def split: prod.splits option.splits header_value.splits)
  then show ?thesis by simp
next
  case False
  then obtain key n d x where e: "e = (Some key, n, Some (HText d), x)" "n \<le> length key" "x = int (length d)"
    "length d \<le> INT32_MAX"
    using assms(1) by (auto simp: entry_ok_def split: prod.splits option.splits header_value.splits)
  have sz: "to_size x = length d" "length d \<noteq> NPOS"
    using e to_size_len(1) by (auto simp: INT32_MAX_def NPOS_def SIZE_MOD_def)
  show ?thesis
  proof (cases "2 * MAX_HEADER_LENGTH \<le> length d")
    case True
    then have "MAX_HEADER_LENGTH < length d" by (simp add: MAX_HEADER_LENGTH_def)
    then show ?thesis using frag_len [OF True] True e False sz by (simp add: header_text_def header_size_def Let_def)
  next
    case no: False
    then show ?thesis using e False sz by (simp add: header_text_def header_size_def Let_def)
  qed
qed

lemma wr_header_has:
  assumes "entry_ok e" "has L out st" "length out + length (header_text e) \<le> L" "L < SIZE_MOD"
  shows "\<exists>st'. wr_header m0 e st = Inr st' \<and> has L (out @ header_text e) st'"
proof (cases "snd (snd (snd e)) = -1")
  case True
  then have "header_text e = []" by (auto simp: header_text_def split: prod.splits option.splits header_value.splits)
  then show ?thesis using True assms(2) to_size_len(2)
    by (cases e) (simp add: wr_header_def)
next
  case False
  then obtain key n d x where e: "e = (Some key, n, Some (HText d), x)" "n \<le> length key" "x = int (length d)"
    "length d \<le> INT32_MAX"
    using assms(1) by (auto simp: entry_ok_def split: prod.splits option.splits header_value.splits)
  let ?v = "if 2 * MAX_HEADER_LENGTH \<le> length d then join [13, 10, 32] (chunks MAX_HEADER_LENGTH d) else d"
  have ht: "header_text e = take n key @ str '': '' @ ?v @ [13, 10]" using e False by (simp add: header_text_def)
  have room: "length out + n + 2 + length ?v + 2 \<le> L" using assms(3) e(2) by (simp add: ht)
  have sz: "to_size x = length d" "to_size x \<noteq> NPOS"
    using e to_size_len(1) by (auto simp: INT32_MAX_def NPOS_def SIZE_MOD_def)
  have piece: "\<exists>st'. (if ILibFragmentTextLength (length d) 3 MAX_HEADER_LENGTH > length d
       then and_then (ILibFragmentText m0 d (length d) [13, 10, 32] MAX_HEADER_LENGTH) (\<lambda>(temp, i2). wr temp i2 s)
       else wr d (length d) s) = Inr st' \<and> has L (o1 @ ?v) st'"
    if s: "has L o1 s" "length o1 + length ?v \<le> L" for o1 s
  proof (cases "2 * MAX_HEADER_LENGTH \<le> length d")
    case True
    obtain temp where t: "ILibFragmentText m0 d (length d) [13, 10, 32] MAX_HEADER_LENGTH
        = Inr (temp, length ?v)" "take (length ?v) temp = ?v"
      using folded_value [OF True e(4), of m0] unfolding if_P [OF True] by blast
    have fits: "length ?v \<le> length temp" using arg_cong [OF t(2), of length] unfolding length_take by linarith
    obtain st' where "wr temp (length ?v) s = Inr st'" "has L (o1 @ ?v) st'"
      using wr_has [OF s(1,2) fits assms(4)] unfolding t(2) by blast
    then show ?thesis using True t(1) frag_size by auto
  next
    case False
    then show ?thesis using wr_has [OF s(1) _ _ assms(4), of "length d" d] s(2) frag_size by auto
  qed
  have "\<exists>st'. and_then (wr key n st) (\<lambda>st. and_then (wr (str '': '') 2 st) (\<lambda>st.
      and_then (if ILibFragmentTextLength (length d) 3 MAX_HEADER_LENGTH > length d
         then and_then (ILibFragmentText m0 d (length d) [13, 10, 32] MAX_HEADER_LENGTH) (\<lambda>(temp, i2). wr temp i2 st)
         else wr d (length d) st) (\<lambda>st. wr [13, 10] 2 st))) = Inr st'
     \<and> has L (((((out @ take n key) @ str '': '') @ ?v) @ [13, 10])) st'"
    apply (rule and_then_has [where a = "out @ take n key"])
    subgoal using wr_has [OF assms(2) _ e(2) assms(4)] room by simp
    apply (rule and_then_has [where a = "(out @ take n key) @ str '': ''"])
    subgoal premises p for s using wr_has [OF p _ _ assms(4), of 2 "str '': ''"] room e(2) by simp
    apply (rule and_then_has [where a = "((out @ take n key) @ str '': '') @ ?v"])
    subgoal premises p for s s' using piece [OF p(2)] room e(2) by simp
    subgoal premises p for s s' s'' using wr_has [OF p(3) _ _ assms(4), of 2 "[13, 10]"] room e(2) by simp
    done
  then show ?thesis unfolding ht unfolding e(1) using sz by (simp add: wr_header_def Let_def cong: if_cong)
qed

lemma wr_headers_has:
  "\<forall>e \<in> set es. entry_ok e \<Longrightarrow> has L out st \<Longrightarrow> length out + length (concat (map header_text es)) \<le> L \<Longrightarrow>
   L < SIZE_MOD \<Longrightarrow> \<exists>st'. wr_headers m0 es st = Inr st' \<and> has L (out @ concat (map header_text es)) st'"
proof (induction es arbitrary: out st)
  case (Cons e es)
  obtain s1 where "wr_header m0 e st = Inr s1" "has L (out @ header_text e) s1"
    using wr_header_has [of e L out st m0] Cons.prems by auto
  then show ?case using Cons.IH [of "out @ header_text e" s1] Cons.prems by auto
qed simp

lemma wr_start_line_has:
  assumes "has L [] st" "length (start_line p) < L" "L < SIZE_MOD"
  shows "\<exists>st'. wr_start_line p st = Inr st' \<and> has L (start_line p) st'"
proof (cases "StatusCode p \<noteq> -1")
  case True
  let ?n = "str '' '' @ int_string (StatusCode p) @ str '' ''"
  have l: "length (start_line p) = length (Version p) + length (int_string (StatusCode p)) + length (StatusData p) + 9"
    using True by (simp add: start_line_def)
  have "\<exists>st'. wr_start_line p st = Inr st' \<and> has L (((([] @ str ''HTTP/'') @ Version p) @ ?n) @ StatusData p @ [13, 10]) st'"
    unfolding wr_start_line_def if_P [OF True]
    apply (rule and_then_has [where a = "[] @ str ''HTTP/''"])
    subgoal using wr_has [OF assms(1) _ _ assms(3), of 5 "str ''HTTP/''"] assms(2) l by simp
    apply (rule and_then_has [where a = "([] @ str ''HTTP/'') @ Version p"])
    subgoal premises p for s using wr_has [OF p(1) _ _ assms(3), of "length (Version p)" "Version p"] assms(2) l by simp
    apply (rule and_then_has [where a = "(([] @ str ''HTTP/'') @ Version p) @ ?n"])
    subgoal premises p for s s' using wr_printf_has [OF p(2) _ assms(3), of ?n] assms(2) l by simp
    apply (rule and_then_has [where a = "((([] @ str ''HTTP/'') @ Version p) @ ?n) @ StatusData p"])
    subgoal premises p for s s' s'' using wr_has [OF p(3) _ _ assms(3), of "length (StatusData p)" "StatusData p"] assms(2) l by simp
    subgoal premises p for s s' s'' s3 using wr_has [OF p(4) _ _ assms(3), of 2 "[13, 10]"] assms(2) l by simp
    done
  then show ?thesis using True by (simp add: start_line_def)
next
  case False
  have l: "length (start_line p) = length (Directive p) + length (DirectiveObj p) + length (Version p) + 9"
    using False by (simp add: start_line_def)
  have "\<exists>st'. wr_start_line p st = Inr st' \<and> has L ((((([] @ Directive p) @ str '' '') @ DirectiveObj p) @ str '' HTTP/'') @ Version p @ [13, 10]) st'"
    unfolding wr_start_line_def if_not_P [OF False]
    apply (rule and_then_has [where a = "[] @ Directive p"])
    subgoal using wr_has [OF assms(1) _ _ assms(3), of "length (Directive p)" "Directive p"] assms(2) l by simp
    apply (rule and_then_has [where a = "([] @ Directive p) @ str '' ''"])
    subgoal premises p for s using wr_has [OF p(1) _ _ assms(3), of 1 "str '' ''"] assms(2) l by simp
    apply (rule and_then_has [where a = "(([] @ Directive p) @ str '' '') @ DirectiveObj p"])
    subgoal premises p for s s' using wr_has [OF p(2) _ _ assms(3), of "length (DirectiveObj p)" "DirectiveObj p"] assms(2) l by simp
    apply (rule and_then_has [where a = "((([] @ Directive p) @ str '' '') @ DirectiveObj p) @ str '' HTTP/''"])
    subgoal premises p for s s' s'' using wr_has [OF p(3) _ _ assms(3), of 6 "str '' HTTP/''"] assms(2) l by simp
    apply (rule and_then_has [where a = "(((([] @ Directive p) @ str '' '') @ DirectiveObj p) @ str '' HTTP/'') @ Version p"])
    subgoal premises p for s s' s'' s3 using wr_has [OF p(4) _ _ assms(3), of "length (Version p)" "Version p"] assms(2) l by simp
    subgoal premises p for s s' s'' s3 s4 using wr_has [OF p(5) _ _ assms(3), of 2 "[13, 10]"] assms(2) l by simp
    done
  then show ?thesis using False by (simp add: start_line_def)
qed

lemma raw_text_fits:
  assumes "\<forall>e \<in> set (header_entries p). entry_ok e"
    and "length (if StatusCode p \<noteq> -1 then int_string (StatusCode p) else Version p) \<le> 3"
  shows "length (raw_text p) < raw_size p"
proof -
  have "sum_list (map (\<lambda>e. length (header_text e)) es) \<le> sum_list (map header_size es)"
    if "\<forall>e \<in> set es. entry_ok e" for es
    using that by (induction es) (auto intro: add_mono header_text_size)
  then have "length (concat (map header_text (header_entries p))) \<le> sum_list (map header_size (header_entries p))"
    using assms(1) by (simp add: length_concat comp_def)
  then show ?thesis using assms(2) by (simp add: raw_text_def raw_size_def start_line_def header_entries_def split: if_splits)
qed

text \<open>
  \<open>ILibGetRawPacket\<close> returns the start line, one line for every entry of the header
  table that is not a stashed pointer (a value of 1600 bytes or more is folded every 800 bytes),
  an empty line and the body, with a NUL behind it, inside the buffer it sized beforehand,
  provided the status code is printed in at most three characters and the version of a request
  has at most three.
\<close>

theorem raw_packet_correct:
  assumes "\<forall>e \<in> set (header_entries p). entry_ok e" "raw_size p < SIZE_MOD"
    and "length (if StatusCode p \<noteq> -1 then int_string (StatusCode p) else Version p) \<le> 3"
  shows "\<exists>buf. ILibGetRawPacket m0 p = Inr (buf, length (raw_text p))
    \<and> length buf = raw_size p \<and> take (length (raw_text p) + 1) buf = raw_text p @ [0]"
proof -
  let ?L = "raw_size p"
  let ?H = "concat (map header_text (header_entries p))"
  have fits: "length (raw_text p) < ?L" by (rule raw_text_fits [OF assms(1,3)])
  then have l: "length (start_line p) + length ?H + 2 + length (Body p) < ?L" by (simp add: raw_text_def)
  have "has ?L [] (fresh_block m0 ?L, 0)" by (simp add: has_def)
  then obtain s1 where s1: "wr_start_line p (fresh_block m0 ?L, 0) = Inr s1" "has ?L (start_line p) s1"
    using wr_start_line_has [of ?L "(fresh_block m0 ?L, 0)" p] assms(2) l by auto
  obtain s2 where s2: "wr_headers m0 (header_entries p) s1 = Inr s2" "has ?L (start_line p @ ?H) s2"
    using wr_headers_has [OF assms(1) s1(2) _ assms(2), of m0] l by auto
  obtain s3 where s3: "wr [13, 10] 2 s2 = Inr s3" "has ?L ((start_line p @ ?H) @ [13, 10]) s3"
    using wr_has [OF s2(2) _ _ assms(2), of 2 "[13, 10]"] l by auto
  obtain s4 where s4: "wr (Body p) (length (Body p)) s3 = Inr s4" "has ?L (((start_line p @ ?H) @ [13, 10]) @ Body p) s4"
    using wr_has [OF s3(2) _ _ assms(2), of "length (Body p)" "Body p"] l by auto
  have r: "((start_line p @ ?H) @ [13, 10]) @ Body p = raw_text p" by (simp add: raw_text_def)
  have h4: "has ?L (raw_text p) s4" using s4(2) by (simp only: r)
  obtain buf where buf: "store (fst s4) (snd s4) 0 = Inr buf" "take (length (raw_text p) + 1) buf = raw_text p @ [0]"
    using store_has [OF h4 fits] by auto
  have "length buf = ?L" "snd s4 = length (raw_text p)"
    using h4 buf(1) by (auto simp: has_def store_def split: if_splits)
  then show ?thesis using s1(1) s2(1) s3(1) s4(1) buf
    by (cases s4) (auto simp: ILibGetRawPacket_def header_entries_def)
qed

text \<open>A request with one header line.\<close>

definition sample_request :: packetheader where
  "sample_request = ILibCreateEmptyPacketEx
     \<lparr>Directive := str ''GET'', DirectiveObj := str ''/x'', Body := str ''b'',
      HeaderTable := \<lparr>Root =
        [\<lparr>KeyHash = 0, KeyValue = None, KeyLength = 0, Data = None, DataEx = 0\<rparr>,
         \<lparr>KeyHash = 1953722216, KeyValue = Some (str ''Host'' @ [0]), KeyLength = 4, Data = Some (HText (str ''a'')), DataEx = 1\<rparr>],
        CaseInSensitive = 1\<rparr>\<rparr>"

lemma sample_entries:
  "header_entries sample_request = [(Some (str ''Host'' @ [0]), 4, Some (HText (str ''a'')), 1)]"
  by (simp add: header_entries_def sample_request_def enum_from.simps ILibHashTree_MoveNext_def
      ILibHashTree_GetEnumerator_def ILibHashTree_GetValueEx_def Let_def)

lemma sample_text:
  "raw_text sample_request = str ''GET /x HTTP/1.0'' @ [13, 10] @ str ''Host: a'' @ [13, 10, 13, 10] @ str ''b''"
  by (simp add: raw_text_def sample_entries header_text_def start_line_def MAX_HEADER_LENGTH_def)
    (simp add: sample_request_def ILibCreateEmptyPacketEx_def)

lemma raw_packet_correct_witness:
  "\<exists>buf. ILibGetRawPacket (\<lambda>_. 0) sample_request = Inr (buf, length (raw_text sample_request))
    \<and> length buf = raw_size sample_request
    \<and> take (length (raw_text sample_request) + 1) buf = raw_text sample_request @ [0]"
proof (rule raw_packet_correct)
  show "\<forall>e \<in> set (header_entries sample_request). entry_ok e"
    by (simp add: sample_entries entry_ok_def INT32_MAX_def)
  show "raw_size sample_request < SIZE_MOD"
    by (simp add: raw_size_def sample_entries [unfolded header_entries_def] header_size_def to_size_def NPOS_def SIZE_MOD_def
        MAX_HEADER_LENGTH_def) (simp add: sample_request_def ILibCreateEmptyPacketEx_def)
  show "length (if StatusCode sample_request \<noteq> -1 then int_string (StatusCode sample_request)
      else Version sample_request) \<le> 3"
    by (simp add: sample_request_def ILibCreateEmptyPacketEx_def)
qed


text \<open>
  The buffer of \<open>ILibGetRawPacket\<close> is sized for a version of three characters: for a
  request with a version of four characters (such as \<open>1.10\<close>) and no header line, the final NUL is
  stored behind the end of the allocated buffer.
\<close>

theorem raw_packet_long_version:
  assumes "StatusCode p = -1" "length (Version p) = 4" "header_entries p = []" "raw_size p < SIZE_MOD"
  shows "ILibGetRawPacket m0 p = Inl UB"
proof -
  let ?L = "raw_size p"
  have L: "?L = length (start_line p) + 2 + length (Body p)"
    using assms(1-3) by (simp add: raw_size_def start_line_def header_entries_def)
  have "has ?L [] (fresh_block m0 ?L, 0)" by (simp add: has_def)
  then obtain s1 where s1: "wr_start_line p (fresh_block m0 ?L, 0) = Inr s1" "has ?L (start_line p) s1"
    using wr_start_line_has [of ?L "(fresh_block m0 ?L, 0)" p] assms(4) L by auto
  obtain s3 where s3: "wr [13, 10] 2 s1 = Inr s3" "has ?L (start_line p @ [13, 10]) s3"
    using wr_has [OF s1(2) _ _ assms(4), of 2 "[13, 10]"] L by auto
  obtain s4 where s4: "wr (Body p) (length (Body p)) s3 = Inr s4" "has ?L ((start_line p @ [13, 10]) @ Body p) s4"
    using wr_has [OF s3(2) _ _ assms(4), of "length (Body p)" "Body p"] L by auto
  have "store (fst s4) (snd s4) 0 = Inl UB"
    using s4(2) L by (simp add: has_def store_def)
  then show ?thesis using s1(1) s3(1) s4(1) assms(3)
    by (cases s4) (auto simp: ILibGetRawPacket_def header_entries_def)
qed

lemma raw_packet_long_version_witness:
  "ILibGetRawPacket (\<lambda>_. 0) (empty_header\<lparr>Directive := str ''GET'', DirectiveObj := str ''/'', StatusCode := -1,
     Version := str ''1.10''\<rparr>) = Inl UB"
proof (rule raw_packet_long_version)
  show e: "header_entries (empty_header\<lparr>Directive := str ''GET'', DirectiveObj := str ''/'', StatusCode := -1,
     Version := str ''1.10''\<rparr>) = []"
    by (simp add: header_entries_def empty_header_def enum_from.simps ILibHashTree_MoveNext_def
      ILibHashTree_GetEnumerator_def ILibInitHashTree_CaseInSensitiveEx_def ILibInitHashTreeEx_def Let_def)
  show "raw_size (empty_header\<lparr>Directive := str ''GET'', DirectiveObj := str ''/'', StatusCode := -1,
     Version := str ''1.10''\<rparr>) < SIZE_MOD"
    by (simp only: raw_size_def e [unfolded header_entries_def]) (simp add: empty_header_def SIZE_MOD_def)
qed simp_all

section \<open>Header lines\<close>

lemma add_header_line:
  assumes "ht_ok 1 (HeaderTable p)" "ht_key 1 (f, n)" "0 < m" "m \<le> length d" "m \<le> INT32_MAX"
  shows "\<exists>p'. ILibAddHeaderLine p f n d m = Some p' \<and> ht_ok 1 (HeaderTable p')
    \<and> ht_map 1 (HeaderTable p') = (ht_map 1 (HeaderTable p))(ht_norm 1 (f, n) \<mapsto> (Some (HText (take m d)), int m))"
proof -
  have n: "0 < n" "n \<le> length f" "n \<le> INT32_MAX" using assms(2) by (auto simp: ht_key_def)
  have npos: "n \<noteq> NPOS" "m \<noteq> NPOS" using n(3) assms(5) by (auto simp: INT32_MAX_def NPOS_def SIZE_MOD_def)
  have k: "ht_key 1 (take n f @ [0], n)" "ht_norm 1 (take n f @ [0], n) = ht_norm 1 (f, n)"
    using assms(2) n by (auto simp: ht_key_def ht_norm_def min_def)
  obtain t where t: "ILibAddEntryEx (HeaderTable p) (take n f @ [0]) n (Some (HText (take m d))) (to_int32 m) = Some t"
    "ht_ok 1 t" "ht_map 1 t = (ht_map 1 (HeaderTable p))(ht_norm 1 (f, n) \<mapsto> (Some (HText (take m d)), int m))"
    using add_entry_ex [OF assms(1) k(1), of "Some (HText (take m d))" "to_int32 m"] k(2) to_int32_small [OF assms(5)] by auto
  then show ?thesis using n npos assms(3,4) by (simp add: ILibAddHeaderLine_def len_or_strnlen_def Let_def)
qed

lemma get_header_line:
  assumes "ht_ok 1 (HeaderTable p)" "ht_key 1 k"
  shows "ILibGetHeaderLineEx p (fst k) (int (snd k)) =
    (case ht_map 1 (HeaderTable p) (ht_norm 1 k) of
       None \<Rightarrow> Some (None, 0)
     | Some (v, x) \<Rightarrow>
         if x = 0 then Some (v, x)
         else (case v of
             Some (HText d) \<Rightarrow> if 0 \<le> x \<and> nat x \<le> length d then Some (Some (HText (take (nat x) d)), x) else None
           | _ \<Rightarrow> None))"
proof -
  have "to_size (int (snd k)) = snd k" using assms(2) by (intro to_size_len) (simp add: ht_key_def)
  then show ?thesis using get_entry(2) [OF assms]
    by (simp add: ILibGetHeaderLineEx_def split: option.split)
qed

text \<open>
  The header table of a packet is a map from header names, compared without case:
  after \<open>ILibAddHeaderLine\<close>, \<open>ILibGetHeaderLineEx\<close> finds the new value under every spelling of the
  name and what it found before under every other name, and after \<open>ILibDeleteHeaderLine\<close> nothing.
\<close>

theorem header_lines_form_a_map:
  assumes "ht_ok 1 (HeaderTable p)" "ht_key 1 (f, n)" "ht_key 1 k" "0 < m" "m \<le> length d" "m \<le> INT32_MAX"
  shows "\<exists>p' q. ILibAddHeaderLine p f n d m = Some p'
    \<and> ILibGetHeaderLineEx p' (fst k) (int (snd k))
        = (if map to_lower (take (snd k) (fst k)) = map to_lower (take n f)
           then Some (Some (HText (take m d)), int m)
           else ILibGetHeaderLineEx p (fst k) (int (snd k)))
    \<and> ILibDeleteHeaderLine p' (fst k) (int (snd k)) = Some q
    \<and> ILibGetHeaderLineEx q (fst k) (int (snd k)) = Some (None, 0)"
proof -
  obtain p' where p': "ILibAddHeaderLine p f n d m = Some p'" "ht_ok 1 (HeaderTable p')"
    "ht_map 1 (HeaderTable p') = (ht_map 1 (HeaderTable p))(ht_norm 1 (f, n) \<mapsto> (Some (HText (take m d)), int m))"
    using add_header_line [OF assms(1,2,4-6)] by auto
  obtain t where t: "ILibDeleteEntry (HeaderTable p') (fst k) (int (snd k)) = Some t" "ht_ok 1 t"
    "ht_map 1 t = (ht_map 1 (HeaderTable p'))(ht_norm 1 k := None)"
    using delete_entry [OF p'(2) assms(3)] by auto
  have "ILibGetHeaderLineEx (p'\<lparr>HeaderTable := t\<rparr>) (fst k) (int (snd k)) = Some (None, 0)"
    using get_header_line [of "p'\<lparr>HeaderTable := t\<rparr>" k] t assms(3) by simp
  moreover have "ILibGetHeaderLineEx p' (fst k) (int (snd k))
        = (if map to_lower (take (snd k) (fst k)) = map to_lower (take n f)
           then Some (Some (HText (take m d)), int m)
           else ILibGetHeaderLineEx p (fst k) (int (snd k)))"
    using get_header_line [OF p'(2) assms(3)] get_header_line [OF assms(1,3)] p'(3) assms(4,5)
    by (auto simp: ht_norm_def)
  ultimately show ?thesis using p'(1) t(1) by (auto simp: ILibDeleteHeaderLine_def)
qed

lemma header_lines_form_a_map_witness:
  "\<exists>p' q. ILibAddHeaderLine ILibCreateEmptyPacketEx (str ''Host'') 4 (str ''a.b'') 3 = Some p'
    \<and> ILibGetHeaderLineEx p' (str ''HOST'') 4 = Some (Some (HText (str ''a.b'')), 3)
    \<and> ILibDeleteHeaderLine p' (str ''HOST'') 4 = Some q
    \<and> ILibGetHeaderLineEx q (str ''HOST'') 4 = Some (None, 0)"
  using header_lines_form_a_map [of ILibCreateEmptyPacketEx "str ''Host''" 4 "(str ''HOST'', 4)" 3 "str ''a.b''"] init_ok
  by (simp add: ht_key_def INT32_MAX_def to_lower_def ILibCreateEmptyPacketEx_def)


section \<open>Parsing a request\<close>

definition field_line :: "byte list \<times> byte list \<Rightarrow> byte list" where
  "field_line fd = fst fd @ str '': '' @ snd fd"

definition request_lines ::
  "byte list \<Rightarrow> byte list \<Rightarrow> byte list \<Rightarrow> (byte list \<times> byte list) list \<Rightarrow> byte list list" where
  "request_lines dir obj ver hs =
     (dir @ str '' '' @ obj @ str '' HTTP/'' @ ver) # map field_line hs @ [[], []]"

text \<open>A header line that is sent as it is: the value is trimmed and there is no line break in it.\<close>

definition field_ok :: "byte list \<times> byte list \<Rightarrow> bool" where
  "field_ok fd = (case fd of (f, d) \<Rightarrow>
     f \<noteq> [] \<and> hd f \<noteq> 32 \<and> hd f \<noteq> 9 \<and> 58 \<notin> set f \<and> 13 \<notin> set f \<and> 0 \<notin> set f \<and> length f \<le> INT32_MAX
     \<and> 13 \<notin> set d \<and> length d \<le> INT32_MAX \<and> (d \<noteq> [] \<longrightarrow> \<not> is_blank (hd d) \<and> \<not> is_blank (last d)))"

definition field_map :: "(byte list \<times> byte list) list \<Rightarrow> byte list \<Rightarrow> (header_value option \<times> int) option" where
  "field_map hs = map_of (rev (map (\<lambda>(f, d). (map to_lower f, (Some (HText d), int (length d)))) hs))"

lemma find_colon_spec:
  "58 \<notin> set f \<Longrightarrow> drop (p + i) buf = f @ 58 # r \<Longrightarrow> length f < n \<Longrightarrow>
   find_colon buf p i n = Some (Some (i + length f))"
proof (induction f arbitrary: i n)
  case Nil
  have "rd buf (p + i) = Some 58" using Nil.prems(2) by (simp add: rd_at)
  then show ?case using Nil.prems(3) by (cases n) simp_all
next
  case (Cons x f)
  have "rd buf (p + i) = Some x" using Cons.prems(2) by (simp add: rd_at)
  moreover have "drop (p + (i + 1)) buf = f @ 58 # r" using arg_cong [OF Cons.prems(2), of "drop 1"] by simp
  ultimately show ?case using Cons.prems Cons.IH [of "i + 1" "n - 1"] by (cases n) auto
qed

lemma trim_value:
  assumes "slice buf p (Suc (length d)) = 32 # d" "p + Suc (length d) \<le> length buf"
    and "d \<noteq> [] \<longrightarrow> \<not> is_blank (hd d) \<and> \<not> is_blank (last d)"
  shows "ILibTrimString buf p (Suc (length d)) = Some (p + 1, length d)"
proof -
  have b: "is_blank 32" by (simp add: is_blank_def)
  obtain p' l' where f: "trim_front buf p (Suc (length d)) = Some (p', l')" "p' + l' = p + Suc (length d)"
    "slice buf p' l' = dropWhile is_blank (32 # d)"
    using trim_front_spec [OF assms(2)] assms(1) by auto
  have d: "dropWhile is_blank (32 # d) = d" using assms(3) b by (cases d) auto
  have "length (slice buf p' l') = l'" using f(2) assms(2) by simp
  then have l: "l' = length d" "p' = p + 1" using f d by auto
  obtain l2 where t: "trim_back buf p' l' = Some l2" "l2 \<le> l'" "slice buf p' l2 = rev (dropWhile is_blank (rev d))"
    using trim_back_spec [of p' l' buf] f d assms(2) by auto
  have "rev (dropWhile is_blank (rev d)) = d"
    using assms(3) by (cases d rule: rev_cases) auto
  moreover have "length (slice buf p' l2) = l2" using t(2) f(2) assms(2) by simp
  ultimately have "l2 = length d" using t(3) by simp
  then show ?thesis using f(1) t(1) l by (simp add: ILibTrimString_def)
qed

lemma field_entry:
  assumes "ht_ok 1 t" "field_ok (f, d)"
  shows "\<exists>t'. ILibAddEntryEx t (f @ [0]) (length f) (Some (HText d)) (int (length d)) = Some t' \<and> ht_ok 1 t'
    \<and> ht_map 1 t' = (ht_map 1 t)(map to_lower f \<mapsto> (Some (HText d), int (length d)))"
  using add_entry_ex [OF assms(1), of "(f @ [0], length f)" "Some (HText d)" "int (length d)"] assms(2)
  by (auto simp: field_ok_def ht_key_def ht_norm_def)

lemma field_map_Cons: "m ++ field_map ((f, d) # hs) = m(map to_lower f \<mapsto> (Some (HText d), int (length d))) ++ field_map hs"
  by (simp add: field_map_def)

lemma parse_header_lines_spec:
  assumes "\<forall>fd \<in> set hs. field_ok fd" "drop p buf = join [13, 10] (map field_line hs @ [[], []]) @ rest"
    and "ht_ok 1 (HeaderTable P)"
  shows "\<exists>buf' t. parse_header_lines node buf P (layout [13, 10] p (map field_line hs @ [[], []]))
      = Some (buf', P\<lparr>Fields := Fields P @ map (\<lambda>(f, d). \<lparr>Field = f, FieldData = d\<rparr>) hs, HeaderTable := t\<rparr>)
    \<and> ht_ok 1 t \<and> ht_map 1 t = ht_map 1 (HeaderTable P) ++ field_map hs"
  using assms
proof (induction hs arbitrary: p buf P node)
  case Nil
  then show ?case by (auto simp: field_map_def intro: exI [of _ "HeaderTable P"])
next
  case (Cons fd hs)
  obtain f d where fd: "fd = (f, d)" by (cases fd)
  have ok: "field_ok (f, d)" using Cons.prems(1) fd by simp
  let ?R = "join [13, 10] (map field_line hs @ [[], []]) @ rest"
  let ?l = "length f + 2 + length d"
  have b: "drop p buf = f @ 58 # 32 # d @ 13 # 10 # ?R"
    using Cons.prems(2) fd by (simp add: join_Cons field_line_def [of "(f, d)"])
  have len: "p + ?l + 2 \<le> length buf" using arg_cong [OF b, of length] by simp
  obtain c g where f: "f = c # g" "c \<noteq> 32" "c \<noteq> 9" using ok by (cases f) (auto simp: field_ok_def)
  have rd: "rd buf p = Some c" using b f by (simp add: rd_at)
  have colon: "find_colon buf p 0 ?l = Some (Some (length f))"
    using find_colon_spec [of f p 0 buf "32 # d @ 13 # 10 # ?R" ?l] b ok by (simp add: field_ok_def)
  have b2: "drop (p + length f + 1) buf = 32 # d @ 13 # 10 # ?R"
    using arg_cong [OF b, of "drop (length f + 1)"] by (simp add: add.commute)
  then have "slice buf (p + length f + 1) (Suc (length d)) = 32 # d" by (simp add: slice_def)
  then have trim: "ILibTrimString buf (p + length f + 1) (Suc (length d)) = Some (p + length f + 2, length d)"
    using trim_value [of buf "p + length f + 1" d] len ok by (simp add: field_ok_def)
  have f': "slice buf p (length f) = f" using b by (simp add: slice_def)
  have b3: "drop (p + length f + 2) buf = d @ 13 # 10 # ?R" using arg_cong [OF b2, of "drop 1"] by simp
  have d': "slice buf (p + length f + 2) (length d) = d" using b3 by (simp add: slice_def)
  obtain t where t: "ILibAddEntryEx (HeaderTable P) (f @ [0]) (length f) (Some (HText d)) (int (length d)) = Some t"
    "ht_ok 1 t" "ht_map 1 t = (ht_map 1 (HeaderTable P))(map to_lower f \<mapsto> (Some (HText d), int (length d)))"
    using field_entry [OF Cons.prems(3) ok] by auto
  let ?buf = "buf[p + length f := 0, p + length f + 2 + length d := 0]"
  let ?P = "P\<lparr>Fields := Fields P @ [\<lparr>Field = f, FieldData = d\<rparr>], HeaderTable := t\<rparr>"
  have next_buf: "drop (p + ?l + 2) ?buf = ?R"
    using arg_cong [OF b3, of "drop (length d + 2)"] by (simp add: add.commute add.left_commute)
  have step: "parse_header_lines node buf P ((p, ?l) # lines) = parse_header_lines True ?buf ?P lines" for lines
    using rd f(2,3) colon trim len t(1) f' d' ok by (simp add: put0_def field_ok_def Let_def)
  obtain buf' t' where IH: "parse_header_lines True ?buf ?P (layout [13, 10] (p + ?l + 2) (map field_line hs @ [[], []]))
      = Some (buf', ?P\<lparr>Fields := Fields ?P @ map (\<lambda>(f, d). \<lparr>Field = f, FieldData = d\<rparr>) hs, HeaderTable := t'\<rparr>)"
    "ht_ok 1 t'" "ht_map 1 t' = ht_map 1 (HeaderTable ?P) ++ field_map hs"
    using Cons.IH [OF _ next_buf, of ?P True] Cons.prems(1) t(2) by auto
  have "layout [13, 10] p (map field_line (fd # hs) @ [[], []])
      = (p, ?l) # layout [13, 10] (p + ?l + 2) (map field_line hs @ [[], []])"
    by (simp add: fd field_line_def [of "(f, d)"])
  then show ?case using IH t(3) step
    by (intro exI [of _ buf'] exI [of _ t']) (simp add: fd field_map_Cons del: parse_header_lines.simps)
qed

definition request_ok ::
  "byte list \<Rightarrow> byte list \<Rightarrow> byte list \<Rightarrow> (byte list \<times> byte list) list \<Rightarrow> bool" where
  "request_ok dir obj ver hs \<longleftrightarrow>
     13 \<notin> set dir \<and> 32 \<notin> set dir \<and> take 4 dir \<noteq> str ''HTTP'' \<and> 13 \<notin> set obj \<and> 32 \<notin> set obj
     \<and> ver \<noteq> [] \<and> 13 \<notin> set ver \<and> 32 \<notin> set ver \<and> 47 \<notin> set ver \<and> 0 \<notin> set ver \<and> (\<forall>fd \<in> set hs. field_ok fd)"

lemma not_http:
  assumes "take 4 dir \<noteq> str ''HTTP''"
  shows "take 4 (dir @ 32 # z) \<noteq> str ''HTTP''"
proof (cases "4 \<le> length dir")
  case False
  then have "32 \<in> set (take 4 (dir @ 32 # z))" by (cases "4 - length dir") auto
  moreover have "(32 :: byte) \<notin> set (str ''HTTP'')" by simp
  ultimately show ?thesis by metis
qed (use assms in simp)

lemma parse_start_line_spec:
  assumes "request_ok dir obj ver hs" "drop p buf = dir @ str '' '' @ obj @ str '' HTTP/'' @ ver @ 13 # rest"
    and "length dir + length obj + length ver + 7 = n" "n \<le> INT32_MAX"
  shows "\<exists>buf'. parse_start_line e buf (p, n)
      = Some (buf', Some (empty_header\<lparr>Directive := dir, DirectiveObj := obj, StatusCode := -1, Version := ver\<rparr>), e)
    \<and> drop (p + n + 1) buf' = rest"
proof -
  have ok: "32 \<notin> set dir" "32 \<notin> set obj" "32 \<notin> set ver" "47 \<notin> set ver" "0 \<notin> set ver" "ver \<noteq> []"
    "take 4 dir \<noteq> str ''HTTP''"
    using assms(1) by (auto simp: request_ok_def)
  have lv: "last ver \<noteq> 0" using ok(5,6) by (metis last_in_set)
  have len: "p + n + 1 \<le> length buf" using arg_cong [OF assms(2), of length] assms(3) by simp
  let ?ts = "[dir, obj, str ''HTTP/'' @ ver]"
  have j: "join [32] ?ts = dir @ str '' '' @ obj @ str '' HTTP/'' @ ver" by simp
  have lj: "length (join [32] ?ts) = n" using assms(3) by simp
  have p1: "ILibParseString buf p n [32] = Some (layout [32] p ?ts)"
    using parse_pieces [of p buf 32 "[]" ?ts "13 # rest"] assms(2,4) ok lv lj no_straddle_single [of "[32 :: byte]"] by auto
  let ?q = "p + length dir + 1 + length obj + 1"
  have b2: "drop ?q buf = join [47] [str ''HTTP'', ver] @ 13 # rest"
    using arg_cong [OF assms(2), of "drop (length dir + Suc (length obj + 1))"]
    by (simp add: add.commute add.left_commute)
  have p2: "ILibParseString buf ?q (length (str ''HTTP/'' @ ver)) [47] = Some (layout [47] ?q [str ''HTTP'', ver])"
    using parse_pieces [of ?q buf 47 "[]" "[str ''HTTP'', ver]" "13 # rest"] b2 ok lv assms(3,4)
      no_straddle_single [of "[47 :: byte]"] by simp
  have b1: "drop (p + length dir + 1) buf = obj @ str '' HTTP/'' @ ver @ 13 # rest"
    using arg_cong [OF assms(2), of "drop (length dir + 1)"] by (simp add: add.commute)
  have b3: "drop (?q + 5) buf = ver @ 13 # rest"
    using arg_cong [OF b2, of "drop 5"] by (simp add: add.commute)
  have tk: "slice buf p (length dir) = dir" "slice buf (p + length dir + 1) (length obj) = obj"
    "slice buf (Suc (Suc (Suc (Suc (Suc ?q))))) (length ver) = ver"
    using assms(2) b1 b3 by (simp_all add: slice_def eval_nat_numeral)
  have "memeq buf p (str ''HTTP'') 4 = Some (slice buf p 4 = str ''HTTP'')"
    using memeq_in [of p 4 buf "str ''HTTP''"] len assms(3) by simp
  moreover have "slice buf p 4 \<noteq> str ''HTTP''"
    using not_http [OF ok(7), of "obj @ str '' HTTP/'' @ ver @ 13 # rest"] assms(2) by (simp add: slice_def)
  ultimately have m: "memeq buf p (str ''HTTP'') 4 = Some False" by simp
  let ?buf = "buf[?q + 5 + length ver := 0, p + length dir := 0, p + length dir + 1 + length obj := 0]"
  have "drop (p + n + 1) ?buf = drop (p + n + 1) buf" using assms(3) by simp
  also have "\<dots> = rest"
    using arg_cong [OF b3, of "drop (length ver + 1)"] unfolding assms(3) [symmetric]
    by (simp add: add.assoc add.commute add.left_commute)
  finally show ?thesis
    using p1 p2 m tk len assms(3)
    by (simp add: parse_start_line_def tok_def put0_def Let_def add.commute add.left_commute)
qed

text \<open>The value of a header name in the list of lines: the last one counts, case is ignored.\<close>

definition header_value_of :: "(byte list \<times> byte list) list \<Rightarrow> byte list \<Rightarrow> byte list option" where
  "header_value_of hs f = map_of (rev (map (\<lambda>(f, d). (map to_lower f, d)) hs)) (map to_lower f)"

lemma field_map_value:
  "field_map hs (map to_lower f) = map_option (\<lambda>d. (Some (HText d), int (length d))) (header_value_of hs f)"
proof -
  have "map_of (map (\<lambda>(f, d). (map to_lower f, (Some (HText d), int (length d)))) xs) y
    = map_option (\<lambda>d. (Some (HText d), int (length d))) (map_of (map (\<lambda>(f, d). (map to_lower f, d)) xs) y)" for xs y
    by (induction xs) auto
  then show ?thesis by (simp add: field_map_def header_value_of_def rev_map)
qed

text \<open>
  C35 (roundtrip): \<open>ILibParsePacketHeader\<close> on the text of a request (start line, header lines, empty
  line), wherever it stands in a larger buffer, gives back the directive, its object, the version,
  every header line in order, and a header table in which \<open>ILibGetHeaderLineEx\<close> finds exactly the
  values of the lines, the last one counting when a name is repeated in whatever case.
\<close>

theorem parse_request_correct:
  assumes "request_ok dir obj ver hs" "length (join [13, 10] (request_lines dir obj ver hs)) \<le> INT32_MAX"
  shows "\<exists>buf p. ILibParsePacketHeader e (before @ join [13, 10] (request_lines dir obj ver hs) @ behind) (length before)
        (length (join [13, 10] (request_lines dir obj ver hs))) = Some (buf, Some p, e)
    \<and> Directive p = dir \<and> DirectiveObj p = obj \<and> Version p = ver \<and> StatusCode p = -1
    \<and> Fields p = map (\<lambda>(f, d). \<lparr>Field = f, FieldData = d\<rparr>) hs
    \<and> (\<forall>k. ht_key 1 k \<longrightarrow> ILibGetHeaderLineEx p (fst k) (int (snd k))
        = Some (case header_value_of hs (take (snd k) (fst k)) of
            None \<Rightarrow> (None, 0) | Some d \<Rightarrow> (Some (HText d), int (length d))))"
proof -
  let ?ls = "request_lines dir obj ver hs"
  let ?mem = "before @ join [13, 10] ?ls @ behind"
  let ?p = "length before"
  let ?sl = "dir @ str '' '' @ obj @ str '' HTTP/'' @ ver"
  let ?hls = "map field_line hs @ [[], []]"
  have fok: "\<forall>fd \<in> set hs. field_ok fd" using assms(1) by (simp add: request_ok_def)
  have no_cr: "\<forall>t \<in> set ?ls. 13 \<notin> set t"
    using assms(1) fok by (auto simp: request_lines_def request_ok_def field_line_def field_ok_def)
  have J: "join [13, 10] ?ls = ?sl @ [13, 10] @ join [13, 10] ?hls" by (simp add: request_lines_def join_Cons)
  have H: "\<exists>z. join [13, 10] ?hls = z @ [13, 10 :: byte]" for hs' :: "(byte list \<times> byte list) list"
    by (induction hs) (auto simp: join_Cons)
  then obtain z where z: "join [13, 10] ?ls = z @ [13, 10]" using J by auto
  have l: "last (join [13, 10] ?ls) \<noteq> 0" "join [13, 10] ?ls \<noteq> []" by (simp_all add: z)
  have "no_straddle ?mem ?p (length (join [13, 10] ?ls)) [13, 10]"
    unfolding no_straddle_def z
  proof (intro allI impI)
    fix i :: nat assume "i < length (z @ [13, 10 :: byte])" "length (z @ [13, 10 :: byte]) < i + length [13, 10 :: byte]"
    then have "i = length z + 1" by simp
    moreover have "drop (length before + (length z + 1)) (before @ (z @ [13, 10]) @ behind) = 10 # behind" by simp
    ultimately show "delim_match (before @ (z @ [13, 10]) @ behind) (length before + i) [13, 10] = Some False"
      using rd_at by fastforce
  qed
  then have p: "ILibParseString ?mem ?p (length (join [13, 10] ?ls)) [13, 10] = Some (layout [13, 10] ?p ?ls)"
    using parse_pieces [of ?p ?mem 13 "[10]" ?ls behind] no_cr assms(2) l by (auto simp: request_lines_def)
  let ?n = "length dir + length obj + length ver + 7"
  have "?n \<le> length (join [13, 10] ?ls)" unfolding J by simp
  then have n: "?n \<le> INT32_MAX" using assms(2) by simp
  have d: "drop ?p ?mem = dir @ str '' '' @ obj @ str '' HTTP/'' @ ver @ 13 # 10 # join [13, 10] ?hls @ behind"
    unfolding J by simp
  obtain buf1 where b1: "parse_start_line e ?mem (?p, ?n)
      = Some (buf1, Some (empty_header\<lparr>Directive := dir, DirectiveObj := obj, StatusCode := -1, Version := ver\<rparr>), e)"
    "drop (?p + ?n + 1) buf1 = 10 # join [13, 10] ?hls @ behind"
    using parse_start_line_spec [OF assms(1) d refl n] by auto
  let ?P = "empty_header\<lparr>Directive := dir, DirectiveObj := obj, StatusCode := -1, Version := ver\<rparr>"
  have b2: "drop (?p + ?n + 2) buf1 = join [13, 10] ?hls @ behind"
    using arg_cong [OF b1(2), of "drop 1"] by simp
  have P: "ht_ok 1 (HeaderTable ?P)" "ht_map 1 (HeaderTable ?P) = (\<lambda>_. None)" "Fields ?P = []"
    using init_ok by (simp_all add: empty_header_def)
  obtain buf2 t where b3: "parse_header_lines False buf1 ?P (layout [13, 10] (?p + ?n + 2) ?hls)
      = Some (buf2, ?P\<lparr>Fields := Fields ?P @ map (\<lambda>(f, d). \<lparr>Field = f, FieldData = d\<rparr>) hs, HeaderTable := t\<rparr>)"
    "ht_ok 1 t" "ht_map 1 t = field_map hs"
    using parse_header_lines_spec [OF fok b2 P(1), of False] P(2) by auto
  let ?Q = "?P\<lparr>Fields := Fields ?P @ map (\<lambda>(f, d). \<lparr>Field = f, FieldData = d\<rparr>) hs, HeaderTable := t\<rparr>"
  have "layout [13, 10] ?p ?ls = (?p, ?n) # layout [13, 10] (?p + ?n + 2) ?hls"
    by (simp add: request_lines_def eval_nat_numeral add.assoc)
  then have res: "ILibParsePacketHeader e ?mem ?p (length (join [13, 10] ?ls)) = Some (buf2, Some ?Q, e)"
    using p b1(1) b3(1) unfolding ILibParsePacketHeader_def by simp
  have get: "ILibGetHeaderLineEx ?Q (fst k) (int (snd k))
      = Some (case header_value_of hs (take (snd k) (fst k)) of
            None \<Rightarrow> (None, 0) | Some d \<Rightarrow> (Some (HText d), int (length d)))" if "ht_key 1 k" for k
    using get_header_line [of ?Q k] b3(2,3) that field_map_value [of hs "take (snd k) (fst k)"]
    by (auto simp: ht_norm_def split: option.splits)
  show ?thesis using res get P(3) by (intro exI conjI allI impI) auto
qed

lemma parse_request_correct_witness:
  "\<exists>buf p. ILibParsePacketHeader False
        (str ''..'' @ join [13, 10] (request_lines (str ''GET'') (str ''/x'') (str ''1.1'') [(str ''Host'', str ''a b''), (str ''E'', [])]) @ str ''body'')
        (length (str ''..''))
        (length (join [13, 10] (request_lines (str ''GET'') (str ''/x'') (str ''1.1'') [(str ''Host'', str ''a b''), (str ''E'', [])])))
      = Some (buf, Some p, False)
    \<and> Directive p = str ''GET'' \<and> DirectiveObj p = str ''/x'' \<and> Version p = str ''1.1'' \<and> StatusCode p = -1
    \<and> Fields p = map (\<lambda>(f, d). \<lparr>Field = f, FieldData = d\<rparr>) [(str ''Host'', str ''a b''), (str ''E'', [])]
    \<and> (\<forall>k. ht_key 1 k \<longrightarrow> ILibGetHeaderLineEx p (fst k) (int (snd k))
        = Some (case header_value_of [(str ''Host'', str ''a b''), (str ''E'', [])] (take (snd k) (fst k)) of
            None \<Rightarrow> (None, 0) | Some d \<Rightarrow> (Some (HText d), int (length d))))"
  by (rule parse_request_correct)
    (simp_all add: request_ok_def field_ok_def request_lines_def field_line_def is_blank_def INT32_MAX_def)

end
