(* ===== verification/Uri.thy ===== *)
theory Uri
  imports CStrings Numbers
begin

text \<open>
  URIs of microstack/ILibParsers.c: \<open>ILibParseUriEx\<close> and \<open>ILibUrl_GetHost\<close>.  The tokens are ranges of
  the memory of the URI, as in \<open>ILibParseString\<close>.  \<open>ILibParseUriEx\<close> is modelled for a null
  \<open>AddrStruct\<close>: the conversion to a socket address is left to the system.
\<close>

section \<open>Operations\<close>

datatype ILibParseUriResult = UNKNOWN_SCHEME | NO_TLS | TLS

definition uri_scheme :: "byte list \<Rightarrow> ILibParseUriResult" where
  "uri_scheme s =
     (if s = str ''ws'' \<or> s = str ''WS'' \<or> s = str ''http'' \<or> s = str ''HTTP'' then NO_TLS
      else if s = str ''wss'' \<or> s = str ''WSS'' \<or> s = str ''https'' \<or> s = str ''HTTPS'' then TLS
      else UNKNOWN_SCHEME)"

text \<open>\<open>*Path\<close>: what follows the first piece \<open>f\<close> of the part \<open>t\<close> behind the scheme, or \<open>/\<close>.\<close>

definition uri_path :: "byte list \<Rightarrow> nat \<times> nat \<Rightarrow> nat \<times> nat \<Rightarrow> byte list" where
  "uri_path URI t f =
     (if snd t - snd f = 0 then str ''/'' else slice URI (fst t + snd f) (snd t - snd f))"

text \<open>The port of the pieces \<open>ps\<close> between colons.\<close>

definition uri_port ::
  "bool \<Rightarrow> byte list \<Rightarrow> (nat \<times> nat) list \<Rightarrow> ILibParseUriResult \<Rightarrow> (nat \<times> bool) option" where
  "uri_port erange URI ps r =
     (let default_port = (if r = TLS then 443 else 80) in
      if length ps = 1 then Some (default_port, erange)
      else do {
        c \<leftarrow> rd URI (fst (last ps) + snd (last ps) - 1);
        if c = 93 then Some (default_port, erange)
        else ILib_atoi2_uint16 erange (slice URI (fst (last ps)) (snd (last ps)) @ [0]) (snd (last ps) + 1) })"

text \<open>
  The address: \<open>h\<close> is the piece in front of the path, \<open>f\<close> its piece in front of the first colon.
  When the closing bracket is missing, the index \<open>-1\<close> is a \<open>size_t\<close>, one byte is allocated and nothing
  is copied.
\<close>

definition uri_addr :: "byte list \<Rightarrow> nat \<times> nat \<Rightarrow> nat \<times> nat \<Rightarrow> byte list option option" where
  "uri_addr URI h f = do {
     c \<leftarrow> rd URI (fst f);
     if c = 91 then do {
       n \<leftarrow> ILibString_IndexOf (drop (fst h) URI) (snd h) (str '']'') 1;
       if n > 0 then Some (Some (slice URI (fst f) (nat n + 1)))
       else if n = 0 then Some None
       else Some (Some []) }
     else Some (Some (slice URI (fst f) (snd f))) }"

text \<open>The result, \<open>*Addr\<close>, \<open>*Port\<close>, \<open>*Path\<close> and \<open>errno\<close>.\<close>

definition ILibParseUriEx ::
  "bool \<Rightarrow> byte list \<Rightarrow> nat \<Rightarrow> (ILibParseUriResult \<times> byte list option \<times> nat \<times> byte list \<times> bool) option" where
  "ILibParseUriEx erange URI URILen = do {
     result \<leftarrow> ILibParseString URI 0 URILen (str ''://'');
     let s = hd result;
     let retVal = uri_scheme (slice URI (fst s) (snd s));
     let t = last result;
     result2 \<leftarrow> ILibParseString URI (fst t) (snd t) (str ''/'');
     let h = hd result2;
     result3 \<leftarrow> ILibParseString URI (fst h) (snd h) (str '':'');
     (lport, erange) \<leftarrow> uri_port erange URI result3 retVal;
     laddr \<leftarrow> uri_addr URI h (hd result3);
     Some (retVal, laddr, lport, uri_path URI t h, erange) }"

text \<open>\<open>ILibUrl_GetHost\<close> stores a NUL behind the host, in the URL itself; the result is the host.\<close>

definition ILibUrl_GetHost :: "byte list \<Rightarrow> int \<Rightarrow> (byte list \<times> byte list) option" where
  "ILibUrl_GetHost url urlLen = do {
     n \<leftarrow> (if 0 \<le> urlLen then Some (nat urlLen) else strnlen_s url SCRATCH_PAD);
     x \<leftarrow> ILibString_IndexOf url n (str ''://'') 3;
     let startX = (if x < 0 then 0 else nat x + 3);
     endX \<leftarrow> ILibString_IndexOf (drop startX url) (n - startX) (str ''/'') 1;
     let l = (if endX > 0 then nat endX else n - startX);
     if startX + l < length url
     then Some (slice url startX l, url[startX + l := 0]) else None }"


section \<open>Correctness\<close>

definition port_part :: "nat option \<Rightarrow> byte list" where
  "port_part port = (case port of None \<Rightarrow> [] | Some n \<Rightarrow> 58 # dec_string n)"

definition uri_text :: "byte list \<Rightarrow> byte list \<Rightarrow> nat option \<Rightarrow> byte list \<Rightarrow> byte list" where
  "uri_text scheme host port path = scheme @ str ''://'' @ host @ port_part port @ path"

definition uri_ok :: "byte list \<Rightarrow> byte list \<Rightarrow> nat option \<Rightarrow> byte list \<Rightarrow> bool" where
  "uri_ok scheme host port path \<longleftrightarrow>
     58 \<notin> set scheme \<and> host \<noteq> [] \<and> hd host \<noteq> 91 \<and> 58 \<notin> set host \<and> 47 \<notin> set host
     \<and> (\<forall>n. port = Some n \<longrightarrow> n < 2 ^ 16) \<and> (path = [] \<or> hd path = 47)
     \<and> (\<forall>i < length path. \<not> occurs_at path (str ''://'') i)
     \<and> 0 \<notin> set host \<and> 0 \<notin> set path"

lemma dec_string_chars: "c \<in> set (dec_string n) \<Longrightarrow> c \<noteq> 58 \<and> c \<noteq> 47 \<and> c \<noteq> 0 \<and> c \<noteq> 93"
proof -
  assume "c \<in> set (dec_string n)"
  then obtain d where d: "d < 10" "c = 48 + of_nat d" using dec_string_set by blast
  have "d \<in> {0, 1, 2, 3, 4, 5, 6, 7, 8, 9}" using d(1) by auto
  then show ?thesis using d(2) by auto
qed

lemma split_on_absent:
  "\<forall>i < length s. \<not> occurs_at s (c # d) i \<Longrightarrow> split_on (c # d) acc s = [acc @ s]"
proof (induction s arbitrary: acc)
  case (Cons x s)
  have "\<not> occurs_at s (c # d) i" if "i < length s" for i
    using Cons.prems [rule_format, of "Suc i"] that by (auto simp: occurs_at_def slice_def)
  moreover have "take (length (c # d)) (x # s) \<noteq> c # d" 
    using Cons.prems [rule_format, of 0] by (auto simp: occurs_at_def slice_def dest: arg_cong [where f = length])
  ultimately show ?case using Cons.IH [of "acc @ [x]"] by (simp add: split_on.simps(2))
qed simp

lemma host_no_scheme:
  assumes "uri_ok scheme host port path"
  shows "split_on (str ''://'') [] (host @ port_part port @ path) = [host @ port_part port @ path]"
proof -
  have h: "58 \<notin> set host" using assms by (simp add: uri_ok_def)
  have p: "split_on [58, 47, 47] acc path = [acc @ path]" for acc
    using assms split_on_absent [of path 58 "[47, 47]"] by (simp add: uri_ok_def)
  have *: "split_on [58, 47, 47] acc (58 # dec_string n @ path) = split_on [58, 47, 47] (acc @ [58]) (dec_string n @ path)" for n acc
    using dec_string_ne [of n] dec_string_chars [of "hd (dec_string n)" n]
    by (cases "dec_string n") (auto simp: split_on.simps(2))
  have n: "58 \<notin> set (dec_string n)" for n using dec_string_chars [of 58 n] by auto
  show ?thesis
  proof (cases port)
    case None
    then show ?thesis using p split_on_skip [OF h, of "[47, 47]" "[]" path] by (simp add: port_part_def)
  next
    case (Some k)
    then show ?thesis
      using p split_on_skip [OF h, of "[47, 47]" "[]" "58 # dec_string k @ path"] * [of host k]
        split_on_skip [OF n [of k], of "[47, 47]" "host @ [58]" path] by (simp add: port_part_def)
  qed
qed

lemma no_straddle_nul:
  assumes "0 \<notin> set d"
  shows "no_straddle (s @ 0 # r) 0 (length s) d"
proof -
  have "delim_match (s @ 0 # r) i d' = Some False" if "i \<le> length s" "length s < i + length d'" "0 \<notin> set d'" for i d'
    using that
  proof (induction d' arbitrary: i)
    case (Cons c d')
    show ?case
    proof (cases "i = length s")
      case True
      then show ?thesis using Cons.prems by (simp add: rd_def nth_append)
    next
      case False
      then have "i < length s" using Cons.prems by simp
      then show ?thesis using Cons.IH [of "i + 1"] Cons.prems by (simp add: rd_def)
    qed
  qed simp
  then show ?thesis using assms by (simp add: no_straddle_def)
qed



text \<open>
  The authority is taken from the last piece behind \<open>://\<close>, so a second \<open>://\<close> in the
  path or the query moves the host there.  A literal address without a closing bracket gives the
  empty address instead of none.
\<close>

theorem parse_uri_last_piece:
  "ILibParseUriEx False (str ''http://a/b?c=ws://d/e'' @ [0]) 21 = Some (NO_TLS, Some (str ''d''), 80, str ''/e'', False)
   \<and> ILibParseUriEx False (str ''http://[1/'' @ [0]) 10 = Some (NO_TLS, Some [], 80, str ''/'', False)"
  by (simp add: ILibParseUriEx_def uri_scheme_def uri_port_def uri_addr_def uri_path_def ILibParseString_def
      parse_string_loop.simps ILibIsDelimiter_def INT32_MAX_def rd_def Let_def slice_def ILibString_IndexOf_def
      ILibString_IndexOfEx_def eff_len_def NPOS_def SIZE_MOD_def index_of_loop.simps str_eq_def memeq_def)

end
