(* ===== verification/Crc32.thy ===== *)
theory Crc32
  imports Prelude
begin

text \<open>
  The CRC of microstack/ILibWebRTC.c (\<open>crc32c\<close>, \<open>crc32\<close> and their table), which the data store
  uses to mark the keys of compressed records: the table-driven loops of the code, and the
  bit-by-bit division they stand for.
\<close>

unbundle bit_operations_syntax

section \<open>The code\<close>

text \<open>\<open>crc_table[0]\<close> and \<open>crc_table[1]\<close>.\<close>

definition crc_table0 :: "u32 list" where
  "crc_table0 = [
    0x0, 0xF26B8303, 0xE13B70F7, 0x1350F3F4, 0xC79A971F, 0x35F1141C, 0x26A1E7E8, 0xD4CA64EB,
    0x8AD958CF, 0x78B2DBCC, 0x6BE22838, 0x9989AB3B, 0x4D43CFD0, 0xBF284CD3, 0xAC78BF27, 0x5E133C24,
    0x105EC76F, 0xE235446C, 0xF165B798, 0x30E349B, 0xD7C45070, 0x25AFD373, 0x36FF2087, 0xC494A384,
    0x9A879FA0, 0x68EC1CA3, 0x7BBCEF57, 0x89D76C54, 0x5D1D08BF, 0xAF768BBC, 0xBC267848, 0x4E4DFB4B,
    0x20BD8EDE, 0xD2D60DDD, 0xC186FE29, 0x33ED7D2A, 0xE72719C1, 0x154C9AC2, 0x61C6936, 0xF477EA35,
    0xAA64D611, 0x580F5512, 0x4B5FA6E6, 0xB93425E5, 0x6DFE410E, 0x9F95C20D, 0x8CC531F9, 0x7EAEB2FA,
    0x30E349B1, 0xC288CAB2, 0xD1D83946, 0x23B3BA45, 0xF779DEAE, 0x5125DAD, 0x1642AE59, 0xE4292D5A,
    0xBA3A117E, 0x4851927D, 0x5B016189, 0xA96AE28A, 0x7DA08661, 0x8FCB0562, 0x9C9BF696, 0x6EF07595,
    0x417B1DBC, 0xB3109EBF, 0xA0406D4B, 0x522BEE48, 0x86E18AA3, 0x748A09A0, 0x67DAFA54, 0x95B17957,
    0xCBA24573, 0x39C9C670, 0x2A993584, 0xD8F2B687, 0xC38D26C, 0xFE53516F, 0xED03A29B, 0x1F682198,
    0x5125DAD3, 0xA34E59D0, 0xB01EAA24, 0x42752927, 0x96BF4DCC, 0x64D4CECF, 0x77843D3B, 0x85EFBE38,
    0xDBFC821C, 0x2997011F, 0x3AC7F2EB, 0xC8AC71E8, 0x1C661503, 0xEE0D9600, 0xFD5D65F4, 0xF36E6F7,
    0x61C69362, 0x93AD1061, 0x80FDE395, 0x72966096, 0xA65C047D, 0x5437877E, 0x4767748A, 0xB50CF789,
    0xEB1FCBAD, 0x197448AE, 0xA24BB5A, 0xF84F3859, 0x2C855CB2, 0xDEEEDFB1, 0xCDBE2C45, 0x3FD5AF46,
    0x7198540D, 0x83F3D70E, 0x90A324FA, 0x62C8A7F9, 0xB602C312, 0x44694011, 0x5739B3E5, 0xA55230E6,
    0xFB410CC2, 0x92A8FC1, 0x1A7A7C35, 0xE811FF36, 0x3CDB9BDD, 0xCEB018DE, 0xDDE0EB2A, 0x2F8B6829,
    0x82F63B78, 0x709DB87B, 0x63CD4B8F, 0x91A6C88C, 0x456CAC67, 0xB7072F64, 0xA457DC90, 0x563C5F93,
    0x82F63B7, 0xFA44E0B4, 0xE9141340, 0x1B7F9043, 0xCFB5F4A8, 0x3DDE77AB, 0x2E8E845F, 0xDCE5075C,
    0x92A8FC17, 0x60C37F14, 0x73938CE0, 0x81F80FE3, 0x55326B08, 0xA759E80B, 0xB4091BFF, 0x466298FC,
    0x1871A4D8, 0xEA1A27DB, 0xF94AD42F, 0xB21572C, 0xDFEB33C7, 0x2D80B0C4, 0x3ED04330, 0xCCBBC033,
    0xA24BB5A6, 0x502036A5, 0x4370C551, 0xB11B4652, 0x65D122B9, 0x97BAA1BA, 0x84EA524E, 0x7681D14D,
    0x2892ED69, 0xDAF96E6A, 0xC9A99D9E, 0x3BC21E9D, 0xEF087A76, 0x1D63F975, 0xE330A81, 0xFC588982,
    0xB21572C9, 0x407EF1CA, 0x532E023E, 0xA145813D, 0x758FE5D6, 0x87E466D5, 0x94B49521, 0x66DF1622,
    0x38CC2A06, 0xCAA7A905, 0xD9F75AF1, 0x2B9CD9F2, 0xFF56BD19, 0xD3D3E1A, 0x1E6DCDEE, 0xEC064EED,
    0xC38D26C4, 0x31E6A5C7, 0x22B65633, 0xD0DDD530, 0x417B1DB, 0xF67C32D8, 0xE52CC12C, 0x1747422F,
    0x49547E0B, 0xBB3FFD08, 0xA86F0EFC, 0x5A048DFF, 0x8ECEE914, 0x7CA56A17, 0x6FF599E3, 0x9D9E1AE0,
    0xD3D3E1AB, 0x21B862A8, 0x32E8915C, 0xC083125F, 0x144976B4, 0xE622F5B7, 0xF5720643, 0x7198540,
    0x590AB964, 0xAB613A67, 0xB831C993, 0x4A5A4A90, 0x9E902E7B, 0x6CFBAD78, 0x7FAB5E8C, 0x8DC0DD8F,
    0xE330A81A, 0x115B2B19, 0x20BD8ED, 0xF0605BEE, 0x24AA3F05, 0xD6C1BC06, 0xC5914FF2, 0x37FACCF1,
    0x69E9F0D5, 0x9B8273D6, 0x88D28022, 0x7AB90321, 0xAE7367CA, 0x5C18E4C9, 0x4F48173D, 0xBD23943E,
    0xF36E6F75, 0x105EC76, 0x12551F82, 0xE03E9C81, 0x34F4F86A, 0xC69F7B69, 0xD5CF889D, 0x27A40B9E,
    0x79B737BA, 0x8BDCB4B9, 0x988C474D, 0x6AE7C44E, 0xBE2DA0A5, 0x4C4623A6, 0x5F16D052, 0xAD7D5351]"

definition crc_table1 :: "u32 list" where
  "crc_table1 = [
    0x0, 0x77073096, 0xEE0E612C, 0x990951BA, 0x76DC419, 0x706AF48F, 0xE963A535, 0x9E6495A3,
    0xEDB8832, 0x79DCB8A4, 0xE0D5E91E, 0x97D2D988, 0x9B64C2B, 0x7EB17CBD, 0xE7B82D07, 0x90BF1D91,
    0x1DB71064, 0x6AB020F2, 0xF3B97148, 0x84BE41DE, 0x1ADAD47D, 0x6DDDE4EB, 0xF4D4B551, 0x83D385C7,
    0x136C9856, 0x646BA8C0, 0xFD62F97A, 0x8A65C9EC, 0x14015C4F, 0x63066CD9, 0xFA0F3D63, 0x8D080DF5,
    0x3B6E20C8, 0x4C69105E, 0xD56041E4, 0xA2677172, 0x3C03E4D1, 0x4B04D447, 0xD20D85FD, 0xA50AB56B,
    0x35B5A8FA, 0x42B2986C, 0xDBBBC9D6, 0xACBCF940, 0x32D86CE3, 0x45DF5C75, 0xDCD60DCF, 0xABD13D59,
    0x26D930AC, 0x51DE003A, 0xC8D75180, 0xBFD06116, 0x21B4F4B5, 0x56B3C423, 0xCFBA9599, 0xB8BDA50F,
    0x2802B89E, 0x5F058808, 0xC60CD9B2, 0xB10BE924, 0x2F6F7C87, 0x58684C11, 0xC1611DAB, 0xB6662D3D,
    0x76DC4190, 0x1DB7106, 0x98D220BC, 0xEFD5102A, 0x71B18589, 0x6B6B51F, 0x9FBFE4A5, 0xE8B8D433,
    0x7807C9A2, 0xF00F934, 0x9609A88E, 0xE10E9818, 0x7F6A0DBB, 0x86D3D2D, 0x91646C97, 0xE6635C01,
    0x6B6B51F4, 0x1C6C6162, 0x856530D8, 0xF262004E, 0x6C0695ED, 0x1B01A57B, 0x8208F4C1, 0xF50FC457,
    0x65B0D9C6, 0x12B7E950, 0x8BBEB8EA, 0xFCB9887C, 0x62DD1DDF, 0x15DA2D49, 0x8CD37CF3, 0xFBD44C65,
    0x4DB26158, 0x3AB551CE, 0xA3BC0074, 0xD4BB30E2, 0x4ADFA541, 0x3DD895D7, 0xA4D1C46D, 0xD3D6F4FB,
    0x4369E96A, 0x346ED9FC, 0xAD678846, 0xDA60B8D0, 0x44042D73, 0x33031DE5, 0xAA0A4C5F, 0xDD0D7CC9,
    0x5005713C, 0x270241AA, 0xBE0B1010, 0xC90C2086, 0x5768B525, 0x206F85B3, 0xB966D409, 0xCE61E49F,
    0x5EDEF90E, 0x29D9C998, 0xB0D09822, 0xC7D7A8B4, 0x59B33D17, 0x2EB40D81, 0xB7BD5C3B, 0xC0BA6CAD,
    0xEDB88320, 0x9ABFB3B6, 0x3B6E20C, 0x74B1D29A, 0xEAD54739, 0x9DD277AF, 0x4DB2615, 0x73DC1683,
    0xE3630B12, 0x94643B84, 0xD6D6A3E, 0x7A6A5AA8, 0xE40ECF0B, 0x9309FF9D, 0xA00AE27, 0x7D079EB1,
    0xF00F9344, 0x8708A3D2, 0x1E01F268, 0x6906C2FE, 0xF762575D, 0x806567CB, 0x196C3671, 0x6E6B06E7,
    0xFED41B76, 0x89D32BE0, 0x10DA7A5A, 0x67DD4ACC, 0xF9B9DF6F, 0x8EBEEFF9, 0x17B7BE43, 0x60B08ED5,
    0xD6D6A3E8, 0xA1D1937E, 0x38D8C2C4, 0x4FDFF252, 0xD1BB67F1, 0xA6BC5767, 0x3FB506DD, 0x48B2364B,
    0xD80D2BDA, 0xAF0A1B4C, 0x36034AF6, 0x41047A60, 0xDF60EFC3, 0xA867DF55, 0x316E8EEF, 0x4669BE79,
    0xCB61B38C, 0xBC66831A, 0x256FD2A0, 0x5268E236, 0xCC0C7795, 0xBB0B4703, 0x220216B9, 0x5505262F,
    0xC5BA3BBE, 0xB2BD0B28, 0x2BB45A92, 0x5CB36A04, 0xC2D7FFA7, 0xB5D0CF31, 0x2CD99E8B, 0x5BDEAE1D,
    0x9B64C2B0, 0xEC63F226, 0x756AA39C, 0x26D930A, 0x9C0906A9, 0xEB0E363F, 0x72076785, 0x5005713,
    0x95BF4A82, 0xE2B87A14, 0x7BB12BAE, 0xCB61B38, 0x92D28E9B, 0xE5D5BE0D, 0x7CDCEFB7, 0xBDBDF21,
    0x86D3D2D4, 0xF1D4E242, 0x68DDB3F8, 0x1FDA836E, 0x81BE16CD, 0xF6B9265B, 0x6FB077E1, 0x18B74777,
    0x88085AE6, 0xFF0F6A70, 0x66063BCA, 0x11010B5C, 0x8F659EFF, 0xF862AE69, 0x616BFFD3, 0x166CCF45,
    0xA00AE278, 0xD70DD2EE, 0x4E048354, 0x3903B3C2, 0xA7672661, 0xD06016F7, 0x4969474D, 0x3E6E77DB,
    0xAED16A4A, 0xD9D65ADC, 0x40DF0B66, 0x37D83BF0, 0xA9BCAE53, 0xDEBB9EC5, 0x47B2CF7F, 0x30B5FFE9,
    0xBDBDF21C, 0xCABAC28A, 0x53B39330, 0x24B4A3A6, 0xBAD03605, 0xCDD70693, 0x54DE5729, 0x23D967BF,
    0xB3667A2E, 0xC4614AB8, 0x5D681B02, 0x2A6F2B94, 0xB40BBE37, 0xC30C8EA1, 0x5A05DF1B, 0x2D02EF8D]"

text \<open>\<open>DO1\<close> and \<open>EO1\<close>, on the crc and the rest of the buffer; \<open>None\<close> reads behind the buffer.\<close>

definition DO1 :: "u32 list \<Rightarrow> u32 \<times> byte list \<Rightarrow> (u32 \<times> byte list) option" where
  "DO1 table s = (case s of
     (crc, []) \<Rightarrow> None
   | (crc, b # buf) \<Rightarrow> Some (table ! unat ((crc XOR ucast b) AND 0xff) XOR drop_bit 8 crc, buf))"

definition DO8 :: "u32 list \<Rightarrow> u32 \<times> byte list \<Rightarrow> (u32 \<times> byte list) option" where
  "DO8 table s = do {
     s \<leftarrow> DO1 table s; s \<leftarrow> DO1 table s; s \<leftarrow> DO1 table s; s \<leftarrow> DO1 table s;
     s \<leftarrow> DO1 table s; s \<leftarrow> DO1 table s; s \<leftarrow> DO1 table s; DO1 table s }"

fun crc_rest :: "u32 list \<Rightarrow> nat \<Rightarrow> u32 \<times> byte list \<Rightarrow> u32 option" where
  "crc_rest table 0 s = Some (fst s)"
| "crc_rest table (Suc n) s = do { s \<leftarrow> DO1 table s; crc_rest table n s }"

fun crc_loop :: "u32 list \<Rightarrow> nat \<Rightarrow> u32 \<times> byte list \<Rightarrow> u32 option" where
  "crc_loop table n s =
     (if 8 \<le> n then do { s \<leftarrow> DO8 table s; crc_loop table (n - 8) s } else crc_rest table n s)"

declare crc_loop.simps [simp del]

definition crc32c_z :: "u32 \<Rightarrow> byte list option \<Rightarrow> nat \<Rightarrow> u32 option" where
  "crc32c_z crc buf n = (case buf of None \<Rightarrow> Some 0
     | Some b \<Rightarrow> map_option (\<lambda>c. c XOR 0xffffffff) (crc_loop crc_table0 n (crc XOR 0xffffffff, b)))"

definition crc32_z :: "u32 \<Rightarrow> byte list option \<Rightarrow> nat \<Rightarrow> u32 option" where
  "crc32_z crc buf n = (case buf of None \<Rightarrow> Some 0
     | Some b \<Rightarrow> map_option (\<lambda>c. c XOR 0xffffffff) (crc_loop crc_table1 n (crc XOR 0xffffffff, b)))"

definition crc32c :: "u32 \<Rightarrow> byte list option \<Rightarrow> nat \<Rightarrow> u32 option" where
  "crc32c = crc32c_z"

definition crc32 :: "u32 \<Rightarrow> byte list option \<Rightarrow> nat \<Rightarrow> u32 option" where
  "crc32 = crc32_z"

section \<open>Division bit by bit\<close>

definition crc_bit :: "u32 \<Rightarrow> u32 \<Rightarrow> u32" where
  "crc_bit poly c = (if bit c 0 then drop_bit 1 c XOR poly else drop_bit 1 c)"

definition crc_byte :: "u32 \<Rightarrow> byte \<Rightarrow> u32 \<Rightarrow> u32" where
  "crc_byte poly b c = (crc_bit poly ^^ 8) (c XOR ucast b)"

definition crc_ref :: "u32 \<Rightarrow> u32 \<Rightarrow> byte list \<Rightarrow> u32" where
  "crc_ref poly crc bs = fold (crc_byte poly) bs (crc XOR 0xffffffff) XOR 0xffffffff"

text \<open>The Castagnoli polynomial and that of Ethernet, reflected.\<close>

definition poly_c :: u32 where "poly_c = 0x82F63B78"
definition poly_e :: u32 where "poly_e = 0xEDB88320"

text \<open>The table of a polynomial holds the eight division steps of every byte.\<close>

definition table_of :: "u32 \<Rightarrow> u32 list \<Rightarrow> bool" where
  "table_of poly table \<longleftrightarrow> table = map (\<lambda>i. (crc_bit poly ^^ 8) (of_nat i)) [0 ..< 256]"



lemma upt_256: "[0 ..< 256] = map nat [0 .. 255]" by code_simp

lemma crc_bit_num:
  "crc_bit p 0 = 0" "crc_bit p 1 = p"
  "crc_bit p (numeral (Num.Bit0 n)) = drop_bit 1 (numeral (Num.Bit0 n))"
  "crc_bit p (numeral (Num.Bit1 n)) = drop_bit 1 (numeral (Num.Bit1 n)) XOR p"
  by (simp_all add: crc_bit_def)

lemma crc8: "(crc_bit p ^^ 8) x = crc_bit p (crc_bit p (crc_bit p (crc_bit p (crc_bit p (crc_bit p (crc_bit p (crc_bit p x)))))))"
  by (simp add: numeral_eq_Suc)


lemma table_c: "table_of poly_c crc_table0"
  unfolding table_of_def upt_256 crc_table0_def crc8 poly_c_def
  by (simp add: upto_rec_numeral upto_rec1 crc_bit_num)

lemma table_e: "table_of poly_e crc_table1"
  unfolding table_of_def upt_256 crc_table1_def crc8 poly_e_def
  by (simp add: upto_rec_numeral upto_rec1 crc_bit_num)

section \<open>The table-driven step\<close>

lemma crc_bit_xor: "crc_bit p (x XOR y) = crc_bit p x XOR crc_bit p y"
  by (rule bit_eqI) (auto simp: crc_bit_def bit_simps)

lemma crc_bits_xor: "(crc_bit p ^^ n) (x XOR y) = (crc_bit p ^^ n) x XOR (crc_bit p ^^ n) y"
  by (induction n) (simp_all add: crc_bit_xor)

lemma crc_bits_high: "\<forall>i < n. \<not> bit z i \<Longrightarrow> (crc_bit p ^^ n) z = drop_bit n z"
  by (induction n) (simp_all add: crc_bit_def bit_simps drop_bit_drop_bit)

lemma bit_255: "bit (255 :: u32) n \<longleftrightarrow> n < 8"
proof -
  have m: "(255 :: u32) = mask 8" by (simp add: mask_eq_exp_minus_1)
  show ?thesis unfolding m by (simp only: bit_mask_iff) auto
qed

lemma crc8_split: "(crc_bit p ^^ 8) x = (crc_bit p ^^ 8) (x AND 0xff) XOR drop_bit 8 x"
proof -
  have x: "x = (x AND 0xff) XOR (x AND NOT 0xff)" by (rule bit_eqI) (auto simp: bit_simps)
  have "\<not> bit (x AND NOT 0xff) i" if "i < 8" for i
    using that bit_255 [of i] by (simp only: bit_and_iff bit_not_iff) simp
  then have "(crc_bit p ^^ 8) (x AND NOT 0xff) = drop_bit 8 (x AND NOT 0xff)"
    by (intro crc_bits_high) blast
  moreover have "drop_bit 8 (x AND NOT 0xff) = drop_bit 8 x"
  proof (rule bit_eqI)
    fix n
    show "bit (drop_bit 8 (x AND NOT 0xff)) n \<longleftrightarrow> bit (drop_bit 8 x) n"
      using bit_255 [of "8 + n"] bit_imp_possible_bit [of x "8 + n"]
      by (simp only: bit_drop_bit_eq comp_apply bit_and_iff bit_not_iff) auto
  qed
  ultimately show ?thesis by (subst x, subst crc_bits_xor) simp
qed

lemma and_255: "unat (x AND 0xff :: u32) < 256"
proof -
  have "x AND 0xff = take_bit 8 x" by (simp add: take_bit_eq_mask mask_eq_exp_minus_1)
  then show ?thesis using take_bit_nat_less_exp [of 8 "unat x"] by (simp add: unsigned_take_bit_eq)
qed

lemma drop_byte: "drop_bit 8 (ucast (b :: byte) :: u32) = 0"
  by (rule bit_eqI) (auto simp: bit_simps dest: bit_imp_le_length)

lemma DO1_spec:
  assumes "table_of p table"
  shows "DO1 table (crc, b # bs) = Some (crc_byte p b crc, bs)"
proof -
  have "table ! unat ((crc XOR ucast b) AND 0xff) = (crc_bit p ^^ 8) ((crc XOR ucast b) AND 0xff)"
    using assms and_255 [of "crc XOR ucast b"] by (simp add: table_of_def)
  moreover have "drop_bit 8 (crc XOR ucast b) = drop_bit 8 crc" by (simp add: drop_byte)
  ultimately show ?thesis
    using crc8_split [of p "crc XOR ucast b"] by (simp add: DO1_def crc_byte_def)
qed

lemma crc_rest_spec:
  assumes "table_of p table"
  shows "crc_rest table n (crc, bs) = (if n \<le> length bs then Some (fold (crc_byte p) (take n bs) crc) else None)"
proof (induction n arbitrary: crc bs)
  case (Suc n)
  then show ?case using DO1_spec [OF assms] by (cases bs) (auto simp: DO1_def)
qed simp

lemma crc_rest_Suc: "crc_rest table (Suc n) = (\<lambda>s. Option.bind (DO1 table s) (crc_rest table n))"
  by (simp add: fun_eq_iff)

lemma crc_rest_8: "8 \<le> n \<Longrightarrow> crc_rest table n s = Option.bind (DO8 table s) (crc_rest table (n - 8))"
proof -
  assume "8 \<le> n"
  then obtain m where "n = 8 + m" using le_Suc_ex by blast
  then have m: "n = Suc (Suc (Suc (Suc (Suc (Suc (Suc (Suc m)))))))" by simp
  show ?thesis unfolding m by (simp add: DO8_def crc_rest_Suc)
qed

lemma crc_loop_rest: "crc_loop table n s = crc_rest table n s"
proof (induction table n s rule: crc_loop.induct)
  case (1 table n s)
  show ?case
  proof (cases "8 \<le> n")
    case True
    then show ?thesis using 1 by (subst crc_loop.simps) (auto simp: crc_rest_8 [OF True, of table s] intro: Option.bind_cong)
  qed (simp add: crc_loop.simps)
qed

lemma crc_loop_spec:
  "table_of p table \<Longrightarrow>
   crc_loop table n (crc, bs) = (if n \<le> length bs then Some (fold (crc_byte p) (take n bs) crc) else None)"
  by (simp add: crc_loop_rest crc_rest_spec)

lemma crc32c_ref:
  "crc32c crc (Some bs) n = (if n \<le> length bs then Some (crc_ref poly_c crc (take n bs)) else None)"
  by (simp add: crc32c_def crc32c_z_def crc_loop_spec [OF table_c] crc_ref_def)

lemma crc32_ref:
  "crc32 crc (Some bs) n = (if n \<le> length bs then Some (crc_ref poly_e crc (take n bs)) else None)"
  by (simp add: crc32_def crc32_z_def crc_loop_spec [OF table_e] crc_ref_def)

lemma crc_ref_append: "crc_ref p (crc_ref p crc as) bs = crc_ref p crc (as @ bs)"
  by (simp add: crc_ref_def xor.assoc)

section \<open>Detection of errors\<close>

text \<open>With a polynomial of full degree every step is injective in the crc and in the byte.\<close>

lemma crc_bit_inj:
  assumes "bit p 31" "crc_bit p c = crc_bit p d"
  shows "c = d"
proof -
  have "bit (crc_bit p x) 31 = bit x 0" for x
    using assms(1) by (auto simp: crc_bit_def bit_simps dest: bit_imp_le_length)
  then have low: "bit c 0 = bit d 0" using assms(2) by metis
  then have "drop_bit 1 c = drop_bit 1 d"
    using assms(2) by (auto simp: crc_bit_def split: if_splits) (metis xor.right_neutral xor.assoc xor_self_eq)+
  then have "bit c (Suc n) = bit d (Suc n)" for n
    by (metis bit_drop_bit_eq comp_apply plus_1_eq_Suc)
  with low have "bit c n = bit d n" for n by (cases n) auto
  then show ?thesis by (intro bit_eqI)
qed

lemma crc_bits_inj: "bit p 31 \<Longrightarrow> (crc_bit p ^^ n) c = (crc_bit p ^^ n) d \<Longrightarrow> c = d"
  by (induction n) (auto dest: crc_bit_inj)

lemma xor_back: "x XOR (x XOR y) = (y :: u32)"
  by (simp only: xor.assoc [symmetric] xor_self_eq xor.left_neutral)

lemma xor_cancel: "x XOR y = x XOR z \<Longrightarrow> y = (z :: u32)"
  by (metis xor_back)

lemma xor_cancel_right: "y XOR x = z XOR x \<Longrightarrow> y = (z :: u32)"
  by (rule xor_cancel [of x]) (simp only: xor.commute)

lemma crc_byte_inj:
  assumes "bit p 31"
  shows "crc_byte p b c = crc_byte p b d \<Longrightarrow> c = d" "crc_byte p a c = crc_byte p b c \<Longrightarrow> a = b"
proof -
  assume "crc_byte p b c = crc_byte p b d"
  then have "c XOR ucast b = d XOR ucast b" unfolding crc_byte_def by (rule crc_bits_inj [OF assms])
  then show "c = d" by (rule xor_cancel_right)
next
  assume "crc_byte p a c = crc_byte p b c"
  then have "c XOR ucast a = c XOR ucast b" unfolding crc_byte_def by (rule crc_bits_inj [OF assms])
  then have "ucast a = (ucast b :: u32)" by (rule xor_cancel)
  then have u: "bit (ucast a :: u32) n = bit (ucast b :: u32) n" for n by simp
  show "a = b"
  proof (rule bit_eqI)
    fix n assume "possible_bit TYPE(byte) n"
    then show "bit a n \<longleftrightarrow> bit b n" using u [of n] by (simp add: bit_ucast_iff)
  qed
qed

lemma crc_fold_inj: "bit p 31 \<Longrightarrow> fold (crc_byte p) bs c = fold (crc_byte p) bs d \<Longrightarrow> c = d"
  by (induction bs arbitrary: c d) (auto dest: crc_byte_inj)

text \<open>
  The table-driven \<open>crc32c\<close> and \<open>crc32\<close>, with their eightfold unrolled loop,
  compute the bit-by-bit division by the Castagnoli and the Ethernet polynomial, for every
  buffer and start value; a \<open>NULL\<close> buffer gives 0, and a longer length reads behind the buffer.
\<close>

theorem crc32_correct:
  "crc32c crc (Some bs) n = (if n \<le> length bs then Some (crc_ref poly_c crc (take n bs)) else None)
   \<and> crc32 crc (Some bs) n = (if n \<le> length bs then Some (crc_ref poly_e crc (take n bs)) else None)
   \<and> crc32c crc None n = Some 0 \<and> crc32 crc None n = Some 0"
  using crc32c_ref crc32_ref by (simp add: crc32c_def crc32_def crc32c_z_def crc32_z_def)

text \<open>
  \<open>crc32c\<close> can be computed piecewise, each call starting from the result of the
  previous one, and it distinguishes any two buffers that differ in one byte.
\<close>

theorem crc32c_detects:
  "crc32c crc (Some (as @ bs)) (length (as @ bs))
     = do { c \<leftarrow> crc32c crc (Some as) (length as); crc32c c (Some bs) (length bs) }
   \<and> (a \<noteq> b \<longrightarrow> crc32c crc (Some (as @ a # bs)) (length (as @ a # bs))
        \<noteq> crc32c crc (Some (as @ b # bs)) (length (as @ b # bs)))"
proof (intro conjI impI)
  show "crc32c crc (Some (as @ bs)) (length (as @ bs))
     = do { c \<leftarrow> crc32c crc (Some as) (length as); crc32c c (Some bs) (length bs) }"
    by (simp add: crc32c_ref crc_ref_append)
  assume "a \<noteq> b"
  have p: "bit poly_c 31" by (simp add: poly_c_def)
  show "crc32c crc (Some (as @ a # bs)) (length (as @ a # bs)) \<noteq> crc32c crc (Some (as @ b # bs)) (length (as @ b # bs))"
  proof
    let ?c = "fold (crc_byte poly_c) as (crc XOR 0xffffffff)"
    assume "crc32c crc (Some (as @ a # bs)) (length (as @ a # bs)) = crc32c crc (Some (as @ b # bs)) (length (as @ b # bs))"
    then have "fold (crc_byte poly_c) bs (crc_byte poly_c a ?c) XOR 0xffffffff
        = fold (crc_byte poly_c) bs (crc_byte poly_c b ?c) XOR 0xffffffff"
      by (simp add: crc32c_ref crc_ref_def)
    then have "crc_byte poly_c a ?c = crc_byte poly_c b ?c" by (rule crc_fold_inj [OF p, OF xor_cancel_right])
    then show False using crc_byte_inj(2) [OF p] \<open>a \<noteq> b\<close> by blast
  qed
qed

lemma crc32c_detects_witness:
  "crc32c 0 (Some (str ''ab'')) 2 \<noteq> crc32c 0 (Some (str ''ac'')) 2"
  using crc32c_detects [of 0 "str ''a''" "[]" 98 99] by (simp add: numeral_2_eq_2)

end
