(* ===== verification/HexCodec.thy ===== *)
theory HexCodec
  imports StringBuffers CStrings
begin

text \<open>
  Hexadecimal text: the writers \<open>util_tohex\<close>, \<open>util_tohex_lower\<close> and \<open>util_tohex2\<close> and the readers
  \<open>util_hexToint\<close> and \<open>util_hexToBuf\<close> of microstack/ILibCrypto.c, and \<open>ILibToHex\<close> of
  microstack/ILibParsers.c.
\<close>

unbundle bit_operations_syntax

section \<open>The code\<close>

definition utils_HexTable :: "byte list" where "utils_HexTable = str ''0123456789ABCDEF''"

definition utils_HexTable2 :: "byte list" where "utils_HexTable2 = str ''0123456789abcdef''"

definition ILibHexTable :: "byte list" where "ILibHexTable = str ''0123456789abcdef''"

text \<open>The loop of the writers: \<open>n\<close> bytes from \<open>data\<close> at \<open>i\<close> on, written to \<open>out\<close> at \<open>p\<close> on.\<close>

fun tohex_loop :: "byte list \<Rightarrow> byte list \<Rightarrow> nat \<Rightarrow> nat \<Rightarrow> byte list \<Rightarrow> nat \<Rightarrow> failure + byte list \<times> nat" where
  "tohex_loop tab data i 0 out p = Inr (out, p)"
| "tohex_loop tab data i (Suc n) out p =
     and_then (or_UB (rd data i)) (\<lambda>c.
     and_then (store out p (tab ! unat (drop_bit 4 c))) (\<lambda>out.
     and_then (store out (p + 1) (tab ! unat (c AND 0x0F))) (\<lambda>out.
     tohex_loop tab data (i + 1) n out (p + 2))))"

definition util_tohex :: "byte list option \<Rightarrow> nat \<Rightarrow> byte list \<Rightarrow> failure + byte list \<times> bool" where
  "util_tohex data len out = (case data of
     None \<Rightarrow> and_then (store out 0 0) (\<lambda>out. Inr (out, False))
   | Some d \<Rightarrow>
       if len = 0 then and_then (store out 0 0) (\<lambda>out. Inr (out, False))
       else and_then (tohex_loop utils_HexTable d 0 len out 0) (\<lambda>(out, p).
            and_then (store out p 0) (\<lambda>out. Inr (out, True))))"

definition util_tohex_lower :: "byte list option \<Rightarrow> nat \<Rightarrow> byte list \<Rightarrow> failure + byte list \<times> bool" where
  "util_tohex_lower data len out = (case data of
     None \<Rightarrow> and_then (store out 0 0) (\<lambda>out. Inr (out, False))
   | Some d \<Rightarrow>
       if len = 0 then and_then (store out 0 0) (\<lambda>out. Inr (out, False))
       else and_then (tohex_loop utils_HexTable2 d 0 len out 0) (\<lambda>(out, p).
            and_then (store out p 0) (\<lambda>out. Inr (out, True))))"

text \<open>\<open>len\<close> is an \<open>int\<close> here; a negative one writes the terminator only.\<close>

definition ILibToHex :: "byte list option \<Rightarrow> int \<Rightarrow> byte list \<Rightarrow> failure + byte list \<times> bool" where
  "ILibToHex data len out = (case data of
     None \<Rightarrow> and_then (store out 0 0) (\<lambda>out. Inr (out, False))
   | Some d \<Rightarrow>
       if len = 0 then and_then (store out 0 0) (\<lambda>out. Inr (out, False))
       else and_then (tohex_loop ILibHexTable d 0 (nat len) out 0) (\<lambda>(out, p).
            and_then (store out p 0) (\<lambda>out. Inr (out, True))))"

fun tohex2_loop :: "byte list \<Rightarrow> nat \<Rightarrow> nat \<Rightarrow> byte list \<Rightarrow> nat \<Rightarrow> failure + byte list \<times> nat" where
  "tohex2_loop data i 0 out p = Inr (out, p)"
| "tohex2_loop data i (Suc n) out p =
     and_then (or_UB (rd data i)) (\<lambda>c.
     and_then (store out p (utils_HexTable ! unat (drop_bit 4 c))) (\<lambda>out.
     and_then (store out (p + 1) (utils_HexTable ! unat (c AND 0x0F))) (\<lambda>out.
     if 0 < n
     then and_then (store out (p + 2) 58) (\<lambda>out. tohex2_loop data (i + 1) n out (p + 3))
     else tohex2_loop data (i + 1) n out (p + 2))))"

definition util_tohex2 :: "byte list option \<Rightarrow> nat \<Rightarrow> byte list \<Rightarrow> failure + byte list \<times> bool" where
  "util_tohex2 data len out = (case data of
     None \<Rightarrow> and_then (store out 0 0) (\<lambda>out. Inr (out, False))
   | Some d \<Rightarrow>
       if len = 0 then and_then (store out 0 0) (\<lambda>out. Inr (out, False))
       else and_then (tohex2_loop d 0 len out 0) (\<lambda>(out, p).
            and_then (store out p 0) (\<lambda>out. Inr (out, True))))"

text \<open>The loop over leading zeros reads a character before it tests the length.\<close>

fun hex_skip :: "byte list \<Rightarrow> nat \<Rightarrow> nat \<Rightarrow> (nat \<times> nat) option" where
  "hex_skip s p n = do {
     c \<leftarrow> rd s p;
     (case n of 0 \<Rightarrow> Some (p, 0)
      | Suc m \<Rightarrow> if c = 48 then hex_skip s (p + 1) m else Some (p, n)) }"

declare hex_skip.simps [simp del]

fun hexToint_loop :: "byte list \<Rightarrow> nat \<Rightarrow> nat \<Rightarrow> int \<Rightarrow> int option" where
  "hexToint_loop s p 0 res = Some res"
| "hexToint_loop s p (Suc n) res = do {
     c \<leftarrow> rd s p;
     hexToint_loop s (p + 1) n
       (if 48 \<le> c \<and> c \<le> 57 then res * 16 + (uint c - 48)
        else if 97 \<le> c \<and> c \<le> 102 then res * 16 + (uint c - 97 + 10)
        else if 65 \<le> c \<and> c \<le> 70 then res * 16 + (uint c - 65 + 10)
        else res) }"

declare hexToint_loop.simps(2) [simp del]

definition util_hexToint :: "byte list \<Rightarrow> nat \<Rightarrow> nat \<Rightarrow> int option" where
  "util_hexToint s p n = do { (p, n) \<leftarrow> hex_skip s p n; hexToint_loop s p n 0 }"

definition util_hexToBuf :: "byte list \<Rightarrow> nat \<Rightarrow> byte list option" where
  "util_hexToBuf s n = those (map (\<lambda>i. map_option word_of_int (util_hexToint s (i * 2) 2)) [0 ..< n div 2])"

section \<open>The text\<close>

definition hexs :: "byte list \<Rightarrow> byte \<Rightarrow> byte list" where
  "hexs tab c = [tab ! unat (drop_bit 4 c), tab ! unat (c AND 0x0F)]"

definition hex_text :: "byte list \<Rightarrow> byte list \<Rightarrow> byte list" where
  "hex_text tab bs = concat (map (hexs tab) bs)"

text \<open>The digits of both tables, as the readers see them.\<close>

definition hex_table :: "byte list \<Rightarrow> bool" where
  "hex_table tab \<longleftrightarrow> tab = utils_HexTable \<or> tab = utils_HexTable2"

lemma hexs_simps [simp]: "length (hexs tab c) = 2" "hex_text tab [] = []" "hex_text tab (c # bs) = hexs tab c @ hex_text tab bs"
  by (simp_all add: hexs_def hex_text_def)

lemma length_hex_text [simp]: "length (hex_text tab bs) = 2 * length bs"
  by (induction bs) simp_all

lemma store_two:
  "p + 2 \<le> length out \<Longrightarrow> and_then (store out p a) (\<lambda>out. and_then (store out (Suc p) b) f) = f (overwrite out p [a, b])"
  using overwrite_overwrite [of p "[a]" out "[b]"] by (simp add: store_in)

lemma slice_Suc: "i < length d \<Longrightarrow> slice d i (Suc n) = d ! i # slice d (Suc i) n"
  by (rule slice_Cons)

lemma tohex_loop_spec:
  "i + n \<le> length data \<Longrightarrow> p + 2 * n \<le> length out \<Longrightarrow>
   tohex_loop tab data i n out p = Inr (overwrite out p (hex_text tab (slice data i n)), p + 2 * n)"
proof (induction n arbitrary: i out p)
  case (Suc n)
  let ?h = "hexs tab (data ! i)"
  have "tohex_loop tab data i (Suc n) out p = tohex_loop tab data (i + 1) n (overwrite out p ?h) (p + 2)"
    using Suc.prems by (simp add: store_two hexs_def)
  also have "\<dots> = Inr (overwrite (overwrite out p ?h) (p + 2) (hex_text tab (slice data (i + 1) n)), p + 2 + 2 * n)"
    using Suc.prems by (intro Suc.IH) simp_all
  finally show ?case
    using Suc.prems overwrite_overwrite [of p ?h out "hex_text tab (slice data (i + 1) n)"] by (simp add: slice_Suc)
qed simp

lemma tohex2_loop_spec:
  "i + n \<le> length data \<Longrightarrow> p + 3 * n \<le> length out + 1 \<Longrightarrow> n = 0 \<longrightarrow> p \<le> length out \<Longrightarrow>
   tohex2_loop data i n out p
     = Inr (overwrite out p (join [58] (map (hexs utils_HexTable) (slice data i n))), p + (3 * n - 1))"
proof (induction n arbitrary: i out p)
  case (Suc n)
  let ?h = "hexs utils_HexTable (data ! i)"
  show ?case
  proof (cases n)
    case 0
    then show ?thesis using Suc.prems by (simp add: store_two hexs_def slice_Suc)
  next
    case (Suc m)
    have "overwrite (overwrite (overwrite out p [utils_HexTable ! unat (drop_bit 4 (data ! i))]) (p + 1)
        [utils_HexTable ! unat (data ! i AND 0x0F)]) (p + 2) [58] = overwrite out p (?h @ [58])"
      using Suc.prems \<open>n = Suc m\<close> overwrite_overwrite [of p ?h out "[58]"]
        overwrite_overwrite [of p "[utils_HexTable ! unat (drop_bit 4 (data ! i))]" out "[utils_HexTable ! unat (data ! i AND 0x0F)]"]
      by (simp add: hexs_def)
    moreover have "0 < n" using \<open>n = Suc m\<close> by simp
    ultimately have "tohex2_loop data i (Suc n) out p = tohex2_loop data (i + 1) n (overwrite out p (?h @ [58])) (p + 3)"
      using Suc.prems by (simp add: store_in)
    also have "tohex2_loop data (i + 1) n (overwrite out p (?h @ [58])) (p + 3)
        = Inr (overwrite (overwrite out p (?h @ [58])) (p + 3) (join [58] (map (hexs utils_HexTable) (slice data (i + 1) n))),
            p + 3 + (3 * n - 1))"
      using Suc.prems \<open>n = Suc m\<close> by (intro Suc.IH) simp_all
    finally show ?thesis
      using Suc.prems \<open>n = Suc m\<close>
        overwrite_overwrite [of p "?h @ [58]" out "join [58] (map (hexs utils_HexTable) (slice data (i + 1) n))"]
      by (simp add: slice_Suc)
  qed
qed simp

lemma digit_table:
  "hex_table tab \<Longrightarrow> list_all (\<lambda>d. (if 48 \<le> tab ! d \<and> tab ! d \<le> 57 then res * 16 + (uint (tab ! d) - 48)
        else if 97 \<le> tab ! d \<and> tab ! d \<le> 102 then res * 16 + (uint (tab ! d) - 97 + 10)
        else if 65 \<le> tab ! d \<and> tab ! d \<le> 70 then res * 16 + (uint (tab ! d) - 65 + 10)
        else res) = 16 * res + int d \<and> (tab ! d = 48 \<longleftrightarrow> d = 0)) [0 ..< 16]"
  unfolding hex_table_def
  by (erule disjE) (simp_all add: upt_rec [of _ "numeral _"] utils_HexTable_def utils_HexTable2_def)

lemma table_digit:
  assumes "hex_table tab" "d < 16"
  shows "rd s p = Some (tab ! d) \<Longrightarrow> hexToint_loop s p (Suc n) res = hexToint_loop s (Suc p) n (16 * res + int d)"
    "tab ! d = 48 \<longleftrightarrow> d = 0"
proof -
  note t = digit_table [OF assms(1), of res, unfolded list_all_iff, THEN bspec, of d]
  then show "tab ! d = 48 \<longleftrightarrow> d = 0" using assms(2) by simp
  assume "rd s p = Some (tab ! d)"
  then show "hexToint_loop s p (Suc n) res = hexToint_loop s (Suc p) n (16 * res + int d)"
    using t assms(2) by (simp only: hexToint_loop.simps Option.bind_lunit) simp
qed

lemma nibbles: "unat (drop_bit 4 c) < 16" "unat (c AND 0x0F) < 16"
    "16 * int (unat (drop_bit 4 c)) + int (unat (c AND 0x0F)) = uint (c :: byte)"
proof -
  have a: "c AND 0x0F = take_bit 4 c" by (simp add: take_bit_eq_mask mask_eq_exp_minus_1)
  have n: "unat (drop_bit 4 c) = unat c div 16" "unat (c AND 0x0F) = unat c mod 16"
    by (simp_all add: a unsigned_drop_bit_eq unsigned_take_bit_eq drop_bit_eq_div take_bit_eq_mod unat_div unat_mod)
  show "unat (drop_bit 4 c) < 16" "unat (c AND 0x0F) < 16" using unat_byte [of c] by (simp_all add: n)
  show "16 * int (unat (drop_bit 4 c)) + int (unat (c AND 0x0F)) = uint c"
    unfolding n by (simp add: zdiv_int zmod_int)
qed

lemma hex_skip_two:
  "rd s p = Some a \<Longrightarrow> rd s (Suc p) = Some b \<Longrightarrow> rd s (Suc (Suc p)) = Some e \<Longrightarrow>
   hex_skip s p (Suc (Suc 0)) = Some (if a \<noteq> 48 then (p, Suc (Suc 0)) else if b \<noteq> 48 then (Suc p, Suc 0) else (Suc (Suc p), 0))"
  by (simp add: hex_skip.simps [of s p] hex_skip.simps [of s "Suc p"] hex_skip.simps [of s "Suc (Suc p)"])

lemma hexToint_two:
  "hex_skip s p (Suc (Suc 0)) = Some (if h \<noteq> 0 then (p, Suc (Suc 0)) else if l \<noteq> 0 then (Suc p, Suc 0) else (Suc (Suc p), 0)) \<Longrightarrow>
   hexToint_loop s p (Suc (Suc 0)) 0 = Some u \<Longrightarrow> hexToint_loop s (Suc p) (Suc 0) 0 = Some (int l) \<Longrightarrow>
   16 * int h + int l = u \<Longrightarrow> util_hexToint s p (Suc (Suc 0)) = Some u"
  by (auto simp: util_hexToint_def)

lemma hexToint_spec:
  assumes "hex_table tab" "ys \<noteq> []"
  shows "util_hexToint (xs @ hexs tab c @ ys) (length xs) 2 = Some (uint c)"
proof -
  let ?h = "unat (drop_bit 4 c)" and ?l = "unat (c AND 0x0F)"
  let ?s = "xs @ tab ! ?h # tab ! ?l # ys"
  have s: "xs @ hexs tab c @ ys = ?s" by (simp add: hexs_def)
  note d = nibbles [of c]
  have r: "rd ?s (length xs) = Some (tab ! ?h)" "rd ?s (Suc (length xs)) = Some (tab ! ?l)"
    "rd ?s (Suc (Suc (length xs))) \<noteq> None"
    using assms(2) by (simp_all add: rd_def nth_append)
  obtain c2 where r3: "rd ?s (Suc (Suc (length xs))) = Some c2" using r(3) by blast
  have two: "hexToint_loop ?s (length xs) (Suc (Suc 0)) 0 = Some (uint c)"
    unfolding table_digit(1) [OF assms(1) d(1) r(1)] table_digit(1) [OF assms(1) d(2) r(2)] hexToint_loop.simps(1)
    using d(3) by simp
  have one: "hexToint_loop ?s (Suc (length xs)) (Suc 0) 0 = Some (int ?l)"
    unfolding table_digit(1) [OF assms(1) d(2) r(2)] hexToint_loop.simps(1) by simp
  have skip: "hex_skip ?s (length xs) (Suc (Suc 0)) = Some (if ?h \<noteq> 0 then (length xs, Suc (Suc 0))
      else if ?l \<noteq> 0 then (Suc (length xs), Suc 0) else (Suc (Suc (length xs)), 0))"
    by (simp only: hex_skip_two [OF r(1,2) r3] table_digit(2) [OF assms(1) d(1)] table_digit(2) [OF assms(1) d(2)])
  show ?thesis unfolding s numeral_2_eq_2 by (rule hexToint_two [OF skip two one d(3)])
qed

lemma those_all: "\<forall>x \<in> set xs. f x = Some (g x) \<Longrightarrow> those (map f xs) = Some (map g xs)"
  by (induction xs) auto

lemma hexToBuf_spec:
  assumes "hex_table tab" "ys \<noteq> []"
  shows "util_hexToBuf (hex_text tab bs @ ys) (2 * length bs) = Some bs"
proof -
  have "util_hexToint (hex_text tab bs @ ys) (i * 2) 2 = Some (uint (bs ! i))" if "i < length bs" for i
  proof -
    have "hex_text tab bs @ ys = hex_text tab (take i bs) @ hexs tab (bs ! i) @ (hex_text tab (drop (Suc i) bs) @ ys)"
      using id_take_nth_drop [OF that] by (metis append.assoc concat.simps(2) concat_append hex_text_def list.map(2) map_append)
    moreover have "length (hex_text tab (take i bs)) = i * 2" using that by simp
    ultimately show ?thesis using hexToint_spec [OF assms(1), of "hex_text tab (drop (Suc i) bs) @ ys" "hex_text tab (take i bs)"] assms(2)
      by (metis append_is_Nil_conv)
  qed
  then have "util_hexToBuf (hex_text tab bs @ ys) (2 * length bs) = Some (map (\<lambda>i. bs ! i) [0 ..< length bs])"
    unfolding util_hexToBuf_def by (subst those_all [where g = "\<lambda>i. bs ! i"]) auto
  then show ?thesis by (simp add: map_nth)
qed

lemma tohex_write:
  assumes "2 * length bs < length out"
  shows "and_then (tohex_loop tab bs 0 (length bs) out 0) (\<lambda>(out, p). and_then (store out p 0) (\<lambda>out. Inr (out, True)))
    = Inr (hex_text tab bs @ 0 # drop (2 * length bs + 1) out, True)"
proof -
  have "tohex_loop tab bs 0 (length bs) out 0 = Inr (overwrite out 0 (hex_text tab bs), 2 * length bs)"
    using tohex_loop_spec [of 0 "length bs" bs 0 out tab] assms by simp
  moreover have "store (overwrite out 0 (hex_text tab bs)) (2 * length bs) 0
      = Inr (overwrite out 0 (hex_text tab bs @ [0]))"
    using assms overwrite_overwrite [of 0 "hex_text tab bs" out "[0]"] by (simp add: store_in)
  ultimately show ?thesis by (simp add: overwrite_def)
qed

text \<open>
  \<open>util_tohex\<close>, \<open>util_tohex_lower\<close> and \<open>ILibToHex\<close> fill a buffer of more than
  \<open>2 * len\<close> bytes with the terminated text of \<open>len\<close> bytes, and \<open>util_hexToBuf\<close> reads the text of
  either case back; \<open>util_tohex2\<close> separates the bytes by colons, in \<open>3 * len\<close> bytes.
\<close>

theorem hex_roundtrip:
  assumes "bs \<noteq> []" "2 * length bs < length out" "3 * length bs \<le> length out'"
  shows "\<exists>t u v. util_tohex (Some bs) (length bs) out = Inr (t, True)
    \<and> util_tohex_lower (Some bs) (length bs) out = Inr (u, True)
    \<and> ILibToHex (Some bs) (int (length bs)) out = Inr (u, True)
    \<and> util_hexToBuf t (2 * length bs) = Some bs \<and> util_hexToBuf u (2 * length bs) = Some bs
    \<and> t ! (2 * length bs) = 0 \<and> u ! (2 * length bs) = 0
    \<and> util_tohex2 (Some bs) (length bs) out' = Inr (v, True)
    \<and> take (3 * length bs) v = join [58] (map (hexs utils_HexTable) bs) @ [0]"
proof -
  let ?t = "\<lambda>tab. hex_text tab bs @ 0 # drop (2 * length bs + 1) out"
  let ?j = "join [58] (map (hexs utils_HexTable) bs)"
  have j: "length ?j = 3 * length bs - 1" using assms(1)
    by (induction bs rule: induct_list012) simp_all
  have "tohex2_loop bs 0 (length bs) out' 0 = Inr (overwrite out' 0 ?j, 3 * length bs - 1)"
    using tohex2_loop_spec [of 0 "length bs" bs 0 out'] assms by simp
  moreover have "store (overwrite out' 0 ?j) (3 * length bs - 1) 0 = Inr (overwrite out' 0 (?j @ [0]))"
    using assms(1,3) j overwrite_overwrite [of 0 ?j out' "[0]"] by (cases bs) (simp_all add: store_in)
  ultimately have v: "util_tohex2 (Some bs) (length bs) out' = Inr (overwrite out' 0 (?j @ [0]), True)"
    using assms(1) by (simp add: util_tohex2_def)
  have "take (3 * length bs) (overwrite out' 0 (?j @ [0])) = ?j @ [0]"
    using j assms(1) by (cases bs) (simp_all add: overwrite_def)
  moreover have "util_hexToBuf (?t tab) (2 * length bs) = Some bs" if "hex_table tab" for tab
    using hexToBuf_spec [OF that, of "0 # drop (2 * length bs + 1) out"] by simp
  moreover have "util_tohex (Some bs) (length bs) out = Inr (?t utils_HexTable, True)"
    "util_tohex_lower (Some bs) (length bs) out = Inr (?t utils_HexTable2, True)"
    "ILibToHex (Some bs) (int (length bs)) out = Inr (?t ILibHexTable, True)"
    using tohex_write [OF assms(2)] assms(1)
    by (simp_all add: util_tohex_def util_tohex_lower_def ILibToHex_def)
  moreover have "ILibHexTable = utils_HexTable2" by (simp only: utils_HexTable2_def ILibHexTable_def)
  moreover have "?t tab ! (2 * length bs) = 0" for tab by (simp add: nth_append)
  ultimately show ?thesis using v
    by (intro exI [of _ "?t utils_HexTable"] exI [of _ "?t utils_HexTable2"] exI [of _ "overwrite out' 0 (?j @ [0])"] conjI)
       (simp_all only: hex_table_def simp_thms)
qed

lemma hex_roundtrip_witness:
  "\<exists>t. util_tohex (Some [202, 7]) (length [202 :: byte, 7]) (str ''.....'') = Inr (t, True)
    \<and> util_hexToBuf t (2 * length [202 :: byte, 7]) = Some [202, 7]"
proof -
  have "[202 :: byte, 7] \<noteq> []" "2 * length [202 :: byte, 7] < length (str ''.....'')"
    "3 * length [202 :: byte, 7] \<le> length (str ''......'')" by simp_all
  from hex_roundtrip [OF this] show ?thesis by blast
qed

end
