(* ===== verification/SimpleDataStore.thy ===== *)
theory SimpleDataStore
  imports HashtableMap Crc32 HexCodec Numbers
begin

text \<open>
  The key/value store of microstack/ILibSimpleDataStore.c: a file to which records are appended,
  an in-memory table from keys to the offsets of the values (an \<open>ILibHashtable\<close>), and a cache for
  stores without a writable file.

  The file is its content, the position of the stream, the space it may grow to and the bytes that wait in the buffer of
  the stream; the file system answers (can the temporary file be created, does \<open>rename\<close> succeed) are arguments.
  SHA-384 and zlib are arguments too.  Entries are a store from addresses, as their pointers are shared between the
  table and the code.  Callbacks are recorded as a list of events.
\<close>

unbundle bit_operations_syntax

section \<open>Streams\<close>

record FILE =
  bytes :: "byte list"
  fpos :: nat
  room :: nat
  writable :: bool
  pending :: "byte list"

text \<open>
  The buffer of a stream, of one block of the file system.  As in the GNU C library, \<open>fwrite\<close> passes whole blocks on to the file
  and keeps the rest in the buffer; what is in the buffer counts as written.  When the file has no room the blocks that do not fit,
  and what is buffered, are lost, and the count is short.  \<open>fflush\<close>, and every change of the position, passes the rest on; of this the file
  takes what fits, and the code ignores the results of these calls.
\<close>

definition BUFSIZ :: nat where
  "BUFSIZ = 4096"

definition fwrite :: "byte list \<Rightarrow> FILE \<Rightarrow> FILE \<times> nat" where
  "fwrite d f =
     (if \<not> writable f then (f, 0)
      else let text = pending f @ d; blocks = length text div BUFSIZ * BUFSIZ;
               w = take (room f - fpos f) (take blocks text);
               f' = f\<lparr>bytes := overwrite (bytes f) (fpos f) w, fpos := fpos f + length w\<rparr>
           in if length w = blocks then (f'\<lparr>pending := drop blocks text\<rparr>, length d)
              else (f'\<lparr>pending := []\<rparr>, length w - length (pending f)))"

definition fflush :: "FILE \<Rightarrow> FILE" where
  "fflush f =
     (if pending f = [] then f
      else let w = take (room f - fpos f) (pending f)
           in f\<lparr>bytes := overwrite (bytes f) (fpos f) w, fpos := fpos f + length w, pending := []\<rparr>)"

definition fread :: "nat \<Rightarrow> FILE \<Rightarrow> FILE \<times> byte list" where
  "fread n f = (let d = take n (drop (fpos f) (bytes f)) in (f\<lparr>fpos := fpos f + length d\<rparr>, d))"

definition fseek_set :: "nat \<Rightarrow> FILE \<Rightarrow> FILE" where
  "fseek_set p f = (fflush f)\<lparr>fpos := p\<rparr>"

definition fseek_end :: "FILE \<Rightarrow> FILE" where
  "fseek_end f = (let f = fflush f in f\<lparr>fpos := length (bytes f)\<rparr>)"

definition ILibSimpleDataStore_GetPosition :: "FILE \<Rightarrow> nat" where
  "ILibSimpleDataStore_GetPosition f = fpos f + length (pending f)"

definition ftruncate :: "nat \<Rightarrow> FILE \<Rightarrow> FILE" where
  "ftruncate n f = (if writable f then f\<lparr>bytes := take n (bytes f)\<rparr> else f)"

text \<open>An \<open>int\<close> in network order, and back.\<close>

definition htonl :: "int \<Rightarrow> byte list" where
  "htonl v = rev (write32 (word_of_int v))"

definition ntohl :: "byte list \<Rightarrow> int" where
  "ntohl b = sint (read32 (rev b))"

section \<open>State\<close>

record ILibSimpleDataStore_RecordHeader =
  nodeSize :: int
  keyLen :: int
  valueLength :: int
  hash :: "byte list"
  key :: "byte list"
  rec_valueOffset :: nat

record ILibSimpleDataStore_TableEntry =
  te_valueLength :: int
  valueHash :: "byte list"
  valueOffset :: nat

record ILibSimpleDataStore_CacheEntry =
  ce_valueHash :: "byte list"
  ce_value :: "byte list"

datatype sds_event = SizeWarning nat | WriteError | CorruptCopy "byte list"

record ILibSimpleDataStore_Root =
  dataFile :: "FILE option"
  filePath :: bool
  keyTable :: ILibHashtable_Root
  cacheTable :: "ILibHashtable_Root option"
  entries :: "addr \<rightharpoonup> ILibSimpleDataStore_TableEntry"
  cached :: "addr \<rightharpoonup> ILibSimpleDataStore_CacheEntry"
  next_free :: addr
  fileSize :: nat
  dirtySize :: nat
  minimumDirtySize :: nat
  warningSize :: nat
  warningSink :: bool
  store_error :: bool
  ErrorHandler :: bool
  events :: "sds_event list"

definition SHA384HASHSIZE :: nat where "SHA384HASHSIZE = 48"

definition header_len :: "nat \<Rightarrow> nat" where
  "header_len legacySize = (if legacySize = 32 then 64 else if legacySize = 64 then 72 else 60)"

section \<open>Records\<close>

definition record_header :: "nat \<Rightarrow> nat \<Rightarrow> byte list option \<Rightarrow> byte list" where
  "record_header klen vlen h =
     htonl (60 + int klen + int vlen) @ htonl (int klen) @ htonl (int vlen)
       @ (case h of Some h \<Rightarrow> take 48 h | None \<Rightarrow> replicate 48 0)"

text \<open>The key is the list of its \<open>keyLen\<close> bytes; \<open>value\<close> may be \<open>NULL\<close> with a length.\<close>

definition ILibSimpleDataStore_WriteRecord ::
  "FILE \<Rightarrow> byte list \<Rightarrow> byte list option \<Rightarrow> nat \<Rightarrow> byte list option \<Rightarrow> FILE \<times> nat" where
  "ILibSimpleDataStore_WriteRecord f k v valueLen h =
     (let f = fseek_end f;
          curlen = ILibSimpleDataStore_GetPosition f;
          (f, n1) = fwrite (record_header (length k) valueLen h) f;
          (f, n2) = fwrite k f;
          offset = ILibSimpleDataStore_GetPosition f;
          (f, n3) = (case v of Some v \<Rightarrow> fwrite (take valueLen v) f | None \<Rightarrow> (f, 0));
          f = fflush f
      in if n1 + n2 + n3 < 60 + length k + (if v \<noteq> None then valueLen else 0)
         then (ftruncate curlen f, 0)
         else (f, offset))"

text \<open>The value is read in pieces of at most 4096 bytes; the hash is that of all pieces.\<close>

function read_value :: "int \<Rightarrow> FILE \<Rightarrow> byte list \<Rightarrow> FILE \<times> byte list" where
  "read_value bytesLeft f acc =
     (if 0 < bytesLeft
      then (let (f', d) = fread (nat (if bytesLeft > 4096 then 4096 else bytesLeft)) f in
            if d = [] then (f', acc) else read_value (bytesLeft - int (length d)) f' (acc @ d))
      else (f, acc))"
  by pat_completeness auto
termination
  by (relation "measure (\<lambda>(n, f, acc). nat n)") (auto simp: fread_def Let_def)

declare read_value.simps [simp del]

text \<open>\<open>node->key\<close> ends with the CRC of the bytes before it.\<close>

definition crc_marked :: "byte list \<Rightarrow> bool" where
  "crc_marked k \<longleftrightarrow> 4 < length k
     \<and> crc32c 0 (Some k) (length k - 4) = Some (read32 (drop (length k - 4) k))"

text \<open>
  \<open>None\<close> is the overflow of \<open>scratchPad\<close> by the key of a record with a negative length.  The check
  for a compressed record takes the key from behind the 60 bytes of the current header format,
  also in the older formats with their longer headers.
\<close>

definition ILibSimpleDataStore_ReadNextRecord ::
  "(byte list \<Rightarrow> byte list) \<Rightarrow> nat \<Rightarrow> nat \<Rightarrow> FILE \<Rightarrow> (FILE \<times> ILibSimpleDataStore_RecordHeader option) option" where
  "ILibSimpleDataStore_ReadNextRecord sha fsize legacySize f =
     (let currentOffset = fpos f; n = header_len legacySize; back = (\<lambda>f. (fseek_set currentOffset f, None)) in
      if currentOffset = fsize then Some (f, None)
      else let (f, h) = fread n f in
      if length h < n then Some (back f)
      else let klen = ntohl (take 4 (drop 4 h)); vlen = ntohl (take 4 (drop 8 h));
               off = nat ((int (fpos f) + klen) mod int SIZE_MOD) in
      if klen > int (4096 - n - 8) then Some (back f)
      else if klen < 0
      then (if length (bytes f) - fpos f > 4096 - n - 8 then None
            else Some (back (fst (fread (length (bytes f)) f))))
      else let (f, k) = fread (nat klen) f in
      if length k \<noteq> nat klen then Some (back f)
      else let (f, d) = read_value vlen f [];
               node = \<lparr>nodeSize = ntohl (take 4 h), keyLen = klen, valueLength = vlen,
                 hash = take 48 (drop 12 h), key = k, rec_valueOffset = off\<rparr> in
      if 0 < vlen
      then (if hash node = sha d \<or> crc_marked (take (nat klen) (drop 60 (h @ k)))
            then Some (f, Some node) else Some (back f))
      else Some (f, Some node))"

section \<open>The table of keys\<close>

definition table_get :: "ILibHashtable_Root \<Rightarrow> byte list \<Rightarrow> addr option" where
  "table_get t k = ILibHashtable_Get t 0 (Some k) (int (length k))"

definition table_put :: "ILibHashtable_Root \<Rightarrow> byte list \<Rightarrow> addr \<Rightarrow> ILibHashtable_Root option" where
  "table_put t k a = map_option fst (ILibHashtable_Put t 0 (Some k) (int (length k)) a)"

definition table_remove :: "ILibHashtable_Root \<Rightarrow> byte list \<Rightarrow> (ILibHashtable_Root \<times> addr) option" where
  "table_remove t k = ILibHashtable_Remove t 0 (Some k) (int (length k))"

definition new_entry :: "ILibSimpleDataStore_Root \<Rightarrow> ILibSimpleDataStore_Root \<times> addr" where
  "new_entry r = (r\<lparr>next_free := next_free r + 1,
     entries := (entries r)(next_free r \<mapsto> \<lparr>te_valueLength = 0, valueHash = replicate 48 0, valueOffset = 0\<rparr>)\<rparr>,
     next_free r)"

definition ILibSimpleDataStore_TableClear_Sink ::
  "addr \<Rightarrow> byte list option \<Rightarrow> int \<Rightarrow> addr \<Rightarrow> (addr \<rightharpoonup> 'e) \<Rightarrow> (addr \<rightharpoonup> 'e)" where
  "ILibSimpleDataStore_TableClear_Sink k1 k2 k2len a es = es(a := None)"

definition clear_table :: "ILibSimpleDataStore_Root \<Rightarrow> ILibSimpleDataStore_Root option" where
  "clear_table r = do {
     (t, es) \<leftarrow> ILibHashtable_ClearEx (keyTable r) (Some ILibSimpleDataStore_TableClear_Sink) (entries r);
     Some (r\<lparr>keyTable := t, entries := es\<rparr>) }"


section \<open>Compression\<close>

text \<open>
  \<open>ILibInflate\<close> and \<open>ILibDeflate\<close> of microscript/ILibDuktape_CompressedStream.c.  The argument \<open>z\<close>
  is zlib: the pieces of at most 16384 bytes that its calls deliver for an input.  The results are the
  returned code, the output buffer, the length and the CRC of the output.
\<close>

fun z_loop :: "byte list list \<Rightarrow> nat \<Rightarrow> byte list option \<Rightarrow> nat \<Rightarrow> u32 \<Rightarrow> (int \<times> byte list option \<times> nat \<times> u32) option" where
  "z_loop [] len dst dlen rescrc = Some (0, dst, dlen, rescrc)"
| "z_loop (tmp # ps) len dst dlen rescrc =
     (if tmp = [] then z_loop ps len dst dlen rescrc
      else do {
        rescrc \<leftarrow> crc32 rescrc (Some tmp) (length tmp);
        (case dst of
           None \<Rightarrow> z_loop ps len None (dlen + length tmp) rescrc
         | Some b \<Rightarrow>
             if length tmp > len - dlen then Some (1, dst, dlen, rescrc)
             else if dlen + length tmp \<le> length b
             then z_loop ps len (Some (overwrite b dlen tmp)) (dlen + length tmp) rescrc
             else None) })"

definition ILibInflate ::
  "(byte list \<Rightarrow> byte list list) \<Rightarrow> byte list \<Rightarrow> byte list option \<Rightarrow> nat \<Rightarrow> u32 \<Rightarrow> (int \<times> byte list option \<times> nat) option" where
  "ILibInflate z buffer decompressed decompressedLen crc = do {
     (ret, dst, n, rescrc) \<leftarrow>
       z_loop (z buffer) decompressedLen decompressed (if decompressed = None then decompressedLen else 0) 0;
     Some (if crc \<noteq> 0 \<and> crc \<noteq> rescrc then 2 else ret, dst, n) }"

definition ILibDeflate ::
  "(byte list \<Rightarrow> byte list list) \<Rightarrow> byte list \<Rightarrow> byte list option \<Rightarrow> nat \<Rightarrow> (int \<times> byte list option \<times> nat \<times> u32) option" where
  "ILibDeflate z buffer compressed compressedLen =
     z_loop (z buffer) (if compressed = None then 0 else compressedLen) compressed 0 0"

section \<open>The cache\<close>

definition compressed_key :: "byte list \<Rightarrow> byte list option" where
  "compressed_key k = map_option (\<lambda>c. k @ write32 c) (crc32c 0 (Some k) (length k))"

text \<open>
  A value without its quotes, and the bytes of a hexadecimal one.  The conversion may look at the byte
  behind the value, whose content does not matter.
\<close>

definition cache_value :: "byte list \<Rightarrow> byte list option" where
  "cache_value v =
     (if 2 < length v
      then let v = (if hd v = 34 \<and> last v = 34 then butlast (tl v) else v) in
           (if 2 < length v \<and> take 2 v = str ''0x'' \<and> length v < 1024
            then util_hexToBuf (drop 2 v @ [0]) (length v - 2)
            else Some v)
      else Some v)"

definition ILibSimpleDataStore_CachedEx ::
  "(byte list \<Rightarrow> byte list) \<Rightarrow> ILibSimpleDataStore_Root \<Rightarrow> byte list \<Rightarrow> byte list \<Rightarrow> byte list option
     \<Rightarrow> ILibSimpleDataStore_Root option" where
  "ILibSimpleDataStore_CachedEx sha r k v vhash =
     (if length k > INT32_MAX \<or> length v > INT32_MAX then Some r
      else do {
        (k, v, h) \<leftarrow> (case vhash of
             Some vh \<Rightarrow> map_option (\<lambda>k. (k, v, take 48 vh)) (compressed_key k)
           | None \<Rightarrow> map_option (\<lambda>v. (k, v, sha v)) (cache_value v));
        let t = (case cacheTable r of None \<Rightarrow> ILibHashtable_Create | Some t \<Rightarrow> t);
        t \<leftarrow> table_put t k (next_free r);
        Some (r\<lparr>cacheTable := Some t, next_free := next_free r + 1,
               cached := (cached r)(next_free r \<mapsto> \<lparr>ce_valueHash = h, ce_value = v\<rparr>)\<rparr>) })"

section \<open>Compaction\<close>

text \<open>\<open>None\<close> also stands for the loop that does not end when the value cannot be read.\<close>

partial_function (option) copy_value ::
  "nat \<Rightarrow> int \<Rightarrow> nat \<Rightarrow> FILE \<Rightarrow> FILE \<Rightarrow> (FILE \<times> FILE \<times> bool) option" where
  "copy_value off bytesLeft totalBytesWritten src dst =
     (if 0 < bytesLeft
      then (let (src, d) = fread (nat (if bytesLeft > 4096 then 4096 else bytesLeft)) (fseek_set (off + totalBytesWritten) src);
                (dst, w) = fwrite d dst
            in if w \<noteq> length d then Some (src, dst, True)
               else copy_value off (bytesLeft - int (length d)) (totalBytesWritten + w) src dst)
      else Some (src, dst, False))"

declare copy_value.simps [code]

definition ILibSimpleDataStore_Compact_EnumerateSink ::
  "addr \<Rightarrow> byte list option \<Rightarrow> int \<Rightarrow> addr \<Rightarrow> (ILibSimpleDataStore_Root \<times> FILE) option
     \<Rightarrow> (ILibSimpleDataStore_Root \<times> FILE) option" where
  "ILibSimpleDataStore_Compact_EnumerateSink k1 k2 k2len a st = do {
     (r, compacted) \<leftarrow> st;
     e \<leftarrow> entries r a;
     if store_error r then Some (r, compacted)
     else
       let k = (case k2 of None \<Rightarrow> [] | Some k \<Rightarrow> take (nat k2len) k);
           k = (if 1 < length k \<and> last k = 0 then butlast k else k);
           (compacted, offset) =
             ILibSimpleDataStore_WriteRecord compacted k None (nat (te_valueLength e)) (Some (valueHash e))
       in if offset = 0 then Some (r\<lparr>store_error := True\<rparr>, compacted)
          else do {
            src \<leftarrow> dataFile r;
            (src, compacted, err) \<leftarrow> copy_value (valueOffset e) (te_valueLength e) 0 src compacted;
            let r = r\<lparr>dataFile := Some src, store_error := err\<rparr>;
            Some (if err then r else r\<lparr>entries := (entries r)(a \<mapsto> e\<lparr>valueOffset := offset\<rparr>)\<rparr>, compacted) } }"

text \<open>
  Closing a file passes on what its stream has buffered; the result of \<open>fclose\<close> is not looked at.  What the file system answers: the new temporary file (\<open>None\<close> if it cannot be created or locked),
  and whether \<open>rename\<close> and the reopening of the data file succeed.
\<close>

record fs_env =
  tmp_file :: "FILE option"
  rename_ok :: bool
  reopen_ok :: bool

definition ILibSimpleDataStore_Compact ::
  "fs_env \<Rightarrow> ILibSimpleDataStore_Root \<Rightarrow> (ILibSimpleDataStore_Root \<times> int) option" where
  "ILibSimpleDataStore_Compact env r =
     (if dirtySize r < minimumDirtySize r \<or> \<not> filePath r then Some (r, 1)
      else (case tmp_file env of None \<Rightarrow> Some (r, 1)
        | Some compacted \<Rightarrow> do {
            st \<leftarrow> ILibHashtable_Enumerate (keyTable r) (Some ILibSimpleDataStore_Compact_EnumerateSink)
                   (Some (r\<lparr>store_error := False\<rparr>, compacted));
            (r, compacted) \<leftarrow> st;
            if store_error r then Some (r, 0)
            else do {
              old \<leftarrow> dataFile r;
              let f = (if rename_ok env then fflush compacted else fflush old);
              Some (if reopen_ok env
                then (r\<lparr>dataFile := Some (fseek_set 0 f\<lparr>writable := True\<rparr>), fileSize := 0\<rparr>, if rename_ok env then 0 else 1)
                else (r\<lparr>dataFile := None\<rparr>, 1)) } }))"

section \<open>Loading\<close>

definition rebuild_record ::
  "nat \<Rightarrow> ILibSimpleDataStore_RecordHeader \<Rightarrow> ILibSimpleDataStore_Root \<Rightarrow> int \<Rightarrow> (ILibSimpleDataStore_Root \<times> int) option" where
  "rebuild_record legacySize node r cnt = do {
     a \<leftarrow> table_get (keyTable r) (key node);
     if 0 < valueLength node
     then do {
       (r, a, cnt) \<leftarrow>
         (if a = 0 then (let (r, a) = new_entry r in Some (r, a, cnt + 1))
          else do {
            e \<leftarrow> entries r a;
            Some (if legacySize = 0 then r\<lparr>dirtySize := dirtySize r + nat (te_valueLength e)\<rparr> else r, a, cnt) });
       t \<leftarrow> table_put (keyTable r) (key node) a;
       Some (r\<lparr>keyTable := t, entries := (entries r)(a \<mapsto>
               \<lparr>te_valueLength = valueLength node, valueHash = hash node, valueOffset = rec_valueOffset node\<rparr>)\<rparr>, cnt) }
     else if a \<noteq> 0
     then do {
       e \<leftarrow> entries r a;
       (t, _) \<leftarrow> table_remove (keyTable r) (key node);
       Some (r\<lparr>dirtySize := (if legacySize = 0 then dirtySize r + nat (te_valueLength e) else dirtySize r),
              keyTable := t, entries := (entries r)(a := None)\<rparr>, cnt - 1) }
     else Some (r, cnt) }"

partial_function (option) rebuild_loop ::
  "(byte list \<Rightarrow> byte list) \<Rightarrow> nat \<Rightarrow> ILibSimpleDataStore_Root \<Rightarrow> FILE \<Rightarrow> int
     \<Rightarrow> (ILibSimpleDataStore_Root \<times> FILE \<times> int) option" where
  "rebuild_loop sha legacySize r f cnt = do {
     x \<leftarrow> ILibSimpleDataStore_ReadNextRecord sha (fileSize r) legacySize f;
     (case x of
        (f, None) \<Rightarrow> Some (r, f, cnt)
      | (f, Some node) \<Rightarrow> do {
          (r, cnt) \<leftarrow> rebuild_record legacySize node r cnt;
          rebuild_loop sha legacySize r f cnt }) }"

declare rebuild_loop.simps [code]

definition ILibSimpleDataStore_RebuildKeyTable ::
  "(byte list \<Rightarrow> byte list) \<Rightarrow> fs_env \<Rightarrow> ILibSimpleDataStore_Root \<Rightarrow> ILibSimpleDataStore_Root option" where
  "ILibSimpleDataStore_RebuildKeyTable sha env r = do {
     r \<leftarrow> clear_table r;
     f \<leftarrow> dataFile r;
     let r = r\<lparr>fileSize := length (bytes f)\<rparr>;
     (r, f, cnt) \<leftarrow> rebuild_loop sha 0 r (fseek_set 0 f) 0;
     if cnt = 0
     then do {
       r \<leftarrow> clear_table r;
       let r = r\<lparr>fileSize := SIZE_MOD - 1\<rparr>;
       (r, f, cnt) \<leftarrow> rebuild_loop sha 32 r (fseek_set 0 f) 0;
       (r, f) \<leftarrow>
         (if cnt = 0
          then do {
            r \<leftarrow> clear_table r;
            (r, f, _) \<leftarrow> rebuild_loop sha 64 r (fseek_set 0 f) 0;
            Some (r, f) }
          else Some (r, f));
       (r, _) \<leftarrow> ILibSimpleDataStore_Compact env (r\<lparr>dataFile := Some f, fileSize := fpos f\<rparr>);
       Some r }
     else Some (if fpos f \<noteq> fileSize r
       then r\<lparr>dataFile := Some (ftruncate (fpos f) f), events := events r @ [CorruptCopy (bytes f)]\<rparr>
       else r\<lparr>dataFile := Some f\<rparr>) }"

definition empty_root :: ILibSimpleDataStore_Root where
  "empty_root = \<lparr>dataFile = None, filePath = False, keyTable = ILibHashtable_Create, cacheTable = None,
     entries = Map.empty, cached = Map.empty, next_free = 1, fileSize = 0, dirtySize = 0, minimumDirtySize = 0,
     warningSize = 0, warningSink = False, store_error = False, ErrorHandler = False, events = []\<rparr>"

text \<open>\<open>opened\<close> is the file that opening the path gives (\<open>None\<close> in the outer option for a \<open>NULL\<close> path).\<close>

definition ILibSimpleDataStore_CreateEx2 ::
  "(byte list \<Rightarrow> byte list) \<Rightarrow> fs_env \<Rightarrow> FILE option option \<Rightarrow> ILibSimpleDataStore_Root option option" where
  "ILibSimpleDataStore_CreateEx2 sha env opened = (case opened of
     None \<Rightarrow> Some (Some empty_root)
   | Some None \<Rightarrow> Some None
   | Some (Some f) \<Rightarrow> map_option Some
       (ILibSimpleDataStore_RebuildKeyTable sha env (empty_root\<lparr>dataFile := Some f, filePath := True\<rparr>)))"

definition ILibSimpleDataStore_ReOpenReadOnly ::
  "(byte list \<Rightarrow> byte list) \<Rightarrow> fs_env \<Rightarrow> ILibSimpleDataStore_Root \<Rightarrow> ILibSimpleDataStore_Root option" where
  "ILibSimpleDataStore_ReOpenReadOnly sha env r = do {
     f \<leftarrow> dataFile r;
     if reopen_ok env
     then ILibSimpleDataStore_RebuildKeyTable sha env (r\<lparr>dataFile := Some (fseek_set 0 f\<lparr>writable := False\<rparr>)\<rparr>)
     else Some (r\<lparr>dataFile := None\<rparr>) }"


section \<open>Operations\<close>

definition trim_key :: "byte list \<Rightarrow> byte list" where
  "trim_key k = (if 1 < length k \<and> last k = 0 then butlast k else k)"

definition report_error :: "ILibSimpleDataStore_Root \<Rightarrow> ILibSimpleDataStore_Root" where
  "report_error r = (if ErrorHandler r then r\<lparr>events := events r @ [WriteError]\<rparr> else r)"

text \<open>
  The first part of \<open>PutEx2\<close>: the key under which the value is stored and its hash.  A compressed
  value (\<open>vhash\<close> given) removes the plain entry of the key, whose memory is not freed.
\<close>

definition put_key ::
  "(byte list \<Rightarrow> byte list) \<Rightarrow> ILibSimpleDataStore_Root \<Rightarrow> byte list \<Rightarrow> byte list \<Rightarrow> byte list option
     \<Rightarrow> (ILibSimpleDataStore_Root \<times> byte list \<times> byte list) option" where
  "put_key sha r k v vhash = (case vhash of
     None \<Rightarrow> Some (r, k, sha v)
   | Some vh \<Rightarrow> do {
       f \<leftarrow> dataFile r;
       (t, a) \<leftarrow> table_remove (keyTable r) k;
       let f = (if a \<noteq> 0 then fst (ILibSimpleDataStore_WriteRecord f k None 0 None) else f);
       ck \<leftarrow> compressed_key k;
       Some (r\<lparr>keyTable := t, dataFile := Some f\<rparr>, ck, take 48 vh) })"

definition ILibSimpleDataStore_PutEx2 ::
  "(byte list \<Rightarrow> byte list) \<Rightarrow> fs_env \<Rightarrow> ILibSimpleDataStore_Root \<Rightarrow> byte list \<Rightarrow> byte list \<Rightarrow> byte list option
     \<Rightarrow> (ILibSimpleDataStore_Root \<times> int) option" where
  "ILibSimpleDataStore_PutEx2 sha env r origkey v vhash =
     (if length v > INT32_MAX \<or> length origkey > INT32_MAX then Some (r, 1)
      else if dataFile r = None
      then do { r \<leftarrow> ILibSimpleDataStore_CachedEx sha r origkey v vhash; Some (r, 0) }
      else do {
        (r, k, h) \<leftarrow> put_key sha r (trim_key origkey) v vhash;
        a \<leftarrow> table_get (keyTable r) k;
        same \<leftarrow> (if a = 0 then Some False else map_option (\<lambda>e. valueHash e = h) (entries r a));
        if same then Some (r, 0)
        else do {
          (r, a, allocated) \<leftarrow>
            (if a = 0 then (let (r, a) = new_entry r in Some (r, a, True))
             else do {
               e \<leftarrow> entries r a;
               Some (r\<lparr>dirtySize := dirtySize r + nat (te_valueLength e)\<rparr>, a, False) });
          f \<leftarrow> dataFile r;
          let (f, offset) = ILibSimpleDataStore_WriteRecord f k (Some v) (length v) (Some h);
          let r = r\<lparr>dataFile := Some f, fileSize := ILibSimpleDataStore_GetPosition f, entries := (entries r)(a \<mapsto>
                \<lparr>te_valueLength = int (length v), valueHash = h, valueOffset = offset\<rparr>)\<rparr>;
          if offset = 0
          then do {
            let r = (if allocated then r\<lparr>entries := (entries r)(a := None)\<rparr> else r);
            r \<leftarrow> ILibSimpleDataStore_CachedEx sha r origkey v vhash;
            r \<leftarrow> ILibSimpleDataStore_ReOpenReadOnly sha env r;
            Some (report_error r, 0) }
          else do {
            t \<leftarrow> table_put (keyTable r) k a;
            let r = r\<lparr>keyTable := t\<rparr>;
            Some (if 0 < warningSize r \<and> warningSize r < fileSize r \<and> warningSink r
                  then r\<lparr>events := events r @ [SizeWarning (fileSize r)]\<rparr> else r, 0) } } })"

definition ILibSimpleDataStore_PutCompressed ::
  "(byte list \<Rightarrow> byte list) \<Rightarrow> (byte list \<Rightarrow> byte list list) \<Rightarrow> fs_env \<Rightarrow> ILibSimpleDataStore_Root \<Rightarrow> byte list
     \<Rightarrow> byte list \<Rightarrow> (ILibSimpleDataStore_Root \<times> int) option" where
  "ILibSimpleDataStore_PutCompressed sha z env r k v =
     (if length k > INT32_MAX \<or> length v > INT32_MAX then Some (r, 1)
      else do {
        (ret, _, tmpLen, _) \<leftarrow> ILibDeflate z v None 0;
        if ret \<noteq> 0 then Some (r, 1)
        else do {
          (ret, tmp, tmpLen, _) \<leftarrow> ILibDeflate z v (Some (replicate tmpLen 0)) tmpLen;
          if ret \<noteq> 0 then Some (r, 1)
          else do {
            tmp \<leftarrow> tmp;
            (r, _) \<leftarrow> ILibSimpleDataStore_PutEx2 sha env r k (take tmpLen tmp) (Some (sha v));
            Some (r, 0) } } })"

text \<open>
  \<open>GetEx\<close>: the results are the store (the position of the stream moves), the returned length and
  the buffer (\<open>None\<close> is \<open>NULL\<close>).  First the cache, with the plain key and then the key of a compressed value.
\<close>

definition find_entry :: "ILibHashtable_Root \<Rightarrow> byte list \<Rightarrow> (addr \<times> bool) option" where
  "find_entry t k = do {
     a \<leftarrow> table_get t k;
     if a \<noteq> 0 then Some (a, False)
     else do { ck \<leftarrow> compressed_key k; a \<leftarrow> table_get t ck; Some (a, True) } }"

definition copy_out :: "byte list option \<Rightarrow> nat \<Rightarrow> byte list \<Rightarrow> byte list option option" where
  "copy_out buffer bufferLen v = (case buffer of None \<Rightarrow> None
     | Some b \<Rightarrow> if bufferLen \<le> length b
        then Some (Some (overwrite b 0 (v @ (if length v < bufferLen then [0] else [])))) else None)"

text \<open>The answer of the cache: \<open>None\<close> in the inner option when it has no value to return.\<close>

definition get_cached ::
  "(byte list \<Rightarrow> byte list list) \<Rightarrow> ILibSimpleDataStore_Root \<Rightarrow> byte list \<Rightarrow> byte list option \<Rightarrow> nat
     \<Rightarrow> (int \<times> byte list option) option option" where
  "get_cached z r k buffer bufferLen = (case cacheTable r of
     None \<Rightarrow> Some None
   | Some t \<Rightarrow> do {
       (a, compressed) \<leftarrow> find_entry t k;
       if a = 0 then Some None
       else do {
         c \<leftarrow> cached r a;
         (tmplen, buffer) \<leftarrow>
           (if compressed
            then do {
              (_, _, tmplen) \<leftarrow> ILibInflate z (ce_value c) None 0 0;
              if buffer \<noteq> None \<and> tmplen \<le> bufferLen
              then do { (_, b, n) \<leftarrow> ILibInflate z (ce_value c) buffer tmplen 0; Some (n, b) }
              else Some (tmplen, buffer) }
            else Some (0, buffer));
         if 0 < tmplen then Some (Some (int tmplen, buffer))
         else if buffer \<noteq> None \<and> length (ce_value c) \<le> bufferLen
         then do { b \<leftarrow> copy_out buffer bufferLen (ce_value c); Some (Some (int (length (ce_value c)), b)) }
         else Some (Some (if bufferLen = 0 then int (length (ce_value c)) else 0, buffer)) } })"

definition ILibSimpleDataStore_GetEx ::
  "(byte list \<Rightarrow> byte list) \<Rightarrow> (byte list \<Rightarrow> byte list list) \<Rightarrow> ILibSimpleDataStore_Root \<Rightarrow> byte list
     \<Rightarrow> byte list option \<Rightarrow> nat \<Rightarrow> (ILibSimpleDataStore_Root \<times> int \<times> byte list option) option" where
  "ILibSimpleDataStore_GetEx sha z r k buffer bufferLen =
     (if length k > INT32_MAX \<or> bufferLen > INT32_MAX then Some (r, 0, buffer)
      else do {
        let k = trim_key k;
        c \<leftarrow> get_cached z r k buffer bufferLen;
        (case c of Some (n, b) \<Rightarrow> Some (r, n, b)
         | None \<Rightarrow> do {
             (a, isCompressed) \<leftarrow> find_entry (keyTable r) k;
             if a = 0 then Some (r, 0, buffer)
             else do {
               e \<leftarrow> entries r a;
               let n = nat (te_valueLength e);
               if buffer \<noteq> None \<and> n \<le> bufferLen \<and> \<not> isCompressed
               then do {
                 f \<leftarrow> dataFile r;
                 let (f, d) = fread n (fseek_set (valueOffset e) f);
                 let r = r\<lparr>dataFile := Some f\<rparr>;
                 if d = [] then Some (r, 0, buffer)
                 else do {
                   b \<leftarrow> copy_out buffer (length d) d;
                   b \<leftarrow> b;
                   if sha (take n b) \<noteq> valueHash e then Some (r, 0, Some b)
                   else do {
                     b \<leftarrow> (if n < bufferLen then (if n < length b then Some (b[n := 0]) else None) else Some b);
                     Some (r, te_valueLength e, Some b) } } }
               else if isCompressed
               then do {
                 f \<leftarrow> dataFile r;
                 let (f, d) = fread n (fseek_set (valueOffset e) f);
                 let r = r\<lparr>dataFile := Some f\<rparr>;
                 if d = [] then Some (r, 0, buffer)
                 else do {
                   (ret, b, tmplen) \<leftarrow> ILibInflate z d buffer bufferLen 0;
                   if ret \<noteq> 0 then Some (r, 0, b)
                   else (case b of None \<Rightarrow> Some (r, int tmplen, None)
                     | Some out \<Rightarrow> Some (r, if sha (take tmplen out) = valueHash e then int tmplen else 0, b)) } }
               else Some (r, if bufferLen = 0 \<or> n \<le> bufferLen then te_valueLength e else 0, buffer) } }) })"

definition ILibSimpleDataStore_GetInt ::
  "(byte list \<Rightarrow> byte list) \<Rightarrow> (byte list \<Rightarrow> byte list list) \<Rightarrow> bool \<Rightarrow> byte list \<Rightarrow> ILibSimpleDataStore_Root
     \<Rightarrow> byte list \<Rightarrow> nat \<Rightarrow> (ILibSimpleDataStore_Root \<times> nat \<times> bool) option" where
  "ILibSimpleDataStore_GetInt sha z erange pad r k defaultValue = do {
     (r, n, b) \<leftarrow> ILibSimpleDataStore_GetEx sha z r k (Some pad) 4096;
     if n = 0 \<or> 4096 \<le> n then Some (r, defaultValue, erange)
     else do {
       b \<leftarrow> b;
       (v, erange) \<leftarrow> ILib_atoi2_int32 erange b 4096;
       Some (r, v, erange) } }"

definition ILibSimpleDataStore_GetHashEx :: "ILibSimpleDataStore_Root \<Rightarrow> byte list \<Rightarrow> byte list option option" where
  "ILibSimpleDataStore_GetHashEx r k =
     (if length k > INT32_MAX then Some None
      else do {
        c \<leftarrow> (case cacheTable r of None \<Rightarrow> Some 0 | Some t \<Rightarrow> map_option fst (find_entry t k));
        if c \<noteq> 0 then map_option (Some \<circ> ce_valueHash) (cached r c)
        else do {
          (a, _) \<leftarrow> find_entry (keyTable r) k;
          if a = 0 then Some None else map_option (Some \<circ> valueHash) (entries r a) } })"

definition ILibSimpleDataStore_DeleteEx ::
  "ILibSimpleDataStore_Root \<Rightarrow> byte list \<Rightarrow> (ILibSimpleDataStore_Root \<times> int) option" where
  "ILibSimpleDataStore_DeleteEx r k =
     (if length k > INT32_MAX then Some (r, 0)
      else do {
        (t, a) \<leftarrow> table_remove (keyTable r) k;
        (t, a, k) \<leftarrow>
          (if a \<noteq> 0 then Some (t, a, k)
           else do { ck \<leftarrow> compressed_key k; (t, a) \<leftarrow> table_remove t ck; Some (t, a, ck) });
        let r = r\<lparr>keyTable := t\<rparr>;
        if a = 0 then Some (r, 0)
        else do {
          f \<leftarrow> dataFile r;
          let (f, offset) = ILibSimpleDataStore_WriteRecord f k None 0 None;
          let r = r\<lparr>dataFile := Some f\<rparr>;
          let r = (if offset = 0 then report_error r else r);
          Some (r\<lparr>entries := (entries r)(a := None)\<rparr>, 1) } })"

text \<open>Enumeration: the callback gets the key without the mark of a compressed value.\<close>

definition ILibSimpleDataStore_EnumerateKeysSink ::
  "(byte list \<Rightarrow> 'u \<Rightarrow> 'u) \<Rightarrow> addr \<Rightarrow> byte list option \<Rightarrow> int \<Rightarrow> addr \<Rightarrow> 'u \<Rightarrow> 'u" where
  "ILibSimpleDataStore_EnumerateKeysSink handler k1 k2 k2len a user =
     (let k = (case k2 of None \<Rightarrow> [] | Some k \<Rightarrow> k) in
      handler (if crc_marked k then take (length k - 4) k else k) user)"

definition ILibSimpleDataStore_EnumerateKeys ::
  "ILibSimpleDataStore_Root \<Rightarrow> (byte list \<Rightarrow> 'u \<Rightarrow> 'u) option \<Rightarrow> 'u \<Rightarrow> 'u option" where
  "ILibSimpleDataStore_EnumerateKeys r handler user = (case handler of
     None \<Rightarrow> Some user
   | Some h \<Rightarrow> ILibHashtable_Enumerate (keyTable r) (Some (ILibSimpleDataStore_EnumerateKeysSink h)) user)"

definition ILibSimpleDataStore_Cached_GetValues_sink ::
  "(byte list \<Rightarrow> byte list list) \<Rightarrow> (addr \<rightharpoonup> ILibSimpleDataStore_CacheEntry) \<Rightarrow> (byte list \<Rightarrow> byte list \<Rightarrow> 'u \<Rightarrow> 'u)
     \<Rightarrow> addr \<Rightarrow> byte list option \<Rightarrow> int \<Rightarrow> addr \<Rightarrow> 'u option \<Rightarrow> 'u option" where
  "ILibSimpleDataStore_Cached_GetValues_sink z cs handler k1 k2 k2len a st = do {
     user \<leftarrow> st;
     c \<leftarrow> cs a;
     let k = (case k2 of None \<Rightarrow> [] | Some k \<Rightarrow> k);
     if crc_marked k
     then do {
       let k = take (length k - 4) k;
       (_, _, n) \<leftarrow> ILibInflate z (ce_value c) None 0 0;
       if 0 < n
       then do {
         (_, b, n) \<leftarrow> ILibInflate z (ce_value c) (Some (replicate n 0)) n 0;
         b \<leftarrow> b;
         Some (handler k (take n b) user) }
       else Some (handler k (ce_value c) user) }
     else Some (handler k (ce_value c) user) }"

definition ILibSimpleDataStore_Cached_GetValues ::
  "(byte list \<Rightarrow> byte list list) \<Rightarrow> ILibSimpleDataStore_Root \<Rightarrow> (byte list \<Rightarrow> byte list \<Rightarrow> 'u \<Rightarrow> 'u) option \<Rightarrow> 'u \<Rightarrow> 'u option" where
  "ILibSimpleDataStore_Cached_GetValues z r handler user = (case (cacheTable r, handler) of
     (Some t, Some h) \<Rightarrow> do {
       st \<leftarrow> ILibHashtable_Enumerate t (Some (ILibSimpleDataStore_Cached_GetValues_sink z (cached r) h)) (Some user);
       st }
   | _ \<Rightarrow> Some user)"

definition ILibSimpleDataStore_ConfigWriteErrorHandler :: "bool \<Rightarrow> ILibSimpleDataStore_Root \<Rightarrow> ILibSimpleDataStore_Root" where
  "ILibSimpleDataStore_ConfigWriteErrorHandler handler r = r\<lparr>ErrorHandler := handler\<rparr>"

definition ILibSimpleDataStore_ConfigSizeLimit :: "nat \<Rightarrow> bool \<Rightarrow> ILibSimpleDataStore_Root \<Rightarrow> ILibSimpleDataStore_Root" where
  "ILibSimpleDataStore_ConfigSizeLimit sizeLimit handler r =
     r\<lparr>warningSize := sizeLimit, warningSink := 0 < sizeLimit \<and> handler\<rparr>"

definition ILibSimpleDataStore_ConfigCompact :: "nat \<Rightarrow> ILibSimpleDataStore_Root \<Rightarrow> ILibSimpleDataStore_Root" where
  "ILibSimpleDataStore_ConfigCompact minimum r = r\<lparr>minimumDirtySize := minimum\<rparr>"

definition ILibSimpleDataStore_IsCacheOnly :: "ILibSimpleDataStore_Root \<Rightarrow> bool" where
  "ILibSimpleDataStore_IsCacheOnly r = (dataFile r = None)"

end
