(* ===== verification/DataStoreRecords.thy ===== *)
theory DataStoreRecords
  imports SimpleDataStore
begin

text \<open>
  Records of the data store: what \<open>ILibSimpleDataStore_WriteRecord\<close> appends, and that
  \<open>ILibSimpleDataStore_ReadNextRecord\<close> reads it back.
\<close>

section \<open>Network order\<close>

lemma length_htonl [simp]: "length (htonl v) = 4"
  by (simp add: htonl_def write32_def)

lemma read_write32 [simp]: "read32 (write32 w) = w"
proof (rule bit_eqI)
  fix n assume "possible_bit TYPE(u32) n"
  then have n: "n < 32" by simp
  consider "n < 8" | "8 \<le> n" "n < 16" | "16 \<le> n" "n < 24" | "24 \<le> n" "n < 32" using n by linarith
  then show "bit (read32 (write32 w)) n \<longleftrightarrow> bit w n"
    by cases (auto simp: read32_def write32_def bit_simps numeral_3_eq_3 dest: bit_imp_le_length)
qed

lemma ntohl_htonl [simp]:
  assumes "- (2 ^ 31) \<le> v" "v < 2 ^ 31"
  shows "ntohl (htonl v) = v"
proof -
  have "sint (word_of_int v :: u32) = signed_take_bit 31 v" using sint_sbintrunc' [where 'a = 32, of v] by simp
  then show ?thesis using assms by (simp add: ntohl_def htonl_def signed_take_bit_int_eq_self)
qed

section \<open>Streams\<close>

text \<open>The stream of \<open>f\<close> at the end of a file with the bytes \<open>b\<close>, with \<open>q\<close> in its buffer.\<close>

definition stream :: "FILE \<Rightarrow> byte list \<Rightarrow> byte list \<Rightarrow> FILE" where
  "stream f b q = f\<lparr>bytes := b, fpos := length b, pending := q\<rparr>"

lemma stream_sel [simp]:
  "bytes (stream f b q) = b" "fpos (stream f b q) = length b" "pending (stream f b q) = q" "room (stream f b q) = room f"
  "writable (stream f b q) = writable f" "stream (stream f b q) b' q' = stream f b' q'"
  by (simp_all add: stream_def)

lemma fflush_idle [simp]: "pending f = [] \<Longrightarrow> fflush f = f"
  by (simp add: fflush_def)

lemma fflush_stream: "fflush (stream f b q) = stream f (b @ take (room f - length b) q) []"
  by (simp add: fflush_def stream_def overwrite_def Let_def)

lemma fseek_idle: "pending f = [] \<Longrightarrow> fseek_set p f = f\<lparr>fpos := p\<rparr>" "pending f = [] \<Longrightarrow> fseek_end f = stream f (bytes f) []"
  by (simp_all add: fseek_set_def fseek_end_def stream_def Let_def)

lemma fseek_end_stream: "fseek_end (stream f b q) = stream f (b @ take (room f - length b) q) []"
  by (simp add: fseek_end_def fflush_stream Let_def)

abbreviation whole :: "nat \<Rightarrow> nat" where
  "whole n \<equiv> n div BUFSIZ * BUFSIZ"

lemma whole_le: "whole n \<le> n"
  by (rule div_times_less_eq_dividend)

lemma whole_rest: "n - whole n < BUFSIZ"
  by (simp add: minus_div_mult_eq_mod BUFSIZ_def)

lemma whole_add: "whole n + whole (n - whole n + m) = whole (n + m)"
proof -
  have "n + m = n div BUFSIZ * BUFSIZ + (n - whole n + m)" using whole_le [of n] by linarith
  then have "(n + m) div BUFSIZ = n div BUFSIZ + (n - whole n + m) div BUFSIZ"
    by (metis BUFSIZ_def div_mult_self3 zero_neq_numeral)
  then show ?thesis by (simp add: add_mult_distrib)
qed

text \<open>Writing at the end of the file: whole blocks reach it, or the count is short.\<close>

lemma fwrite_stream:
  assumes "writable f" "length b \<le> room f" "text = q @ d" "t = whole (length text)"
  shows "fwrite d (stream f b q) =
    (if length b + t \<le> room f then (stream f (b @ take t text) (drop t text), length d)
     else (stream f (b @ take (room f - length b) text) [], room f - length b - length q))"
proof -
  let ?w = "take (room f - length b) (take t text)"
  have t: "t \<le> length text" using whole_le assms(4) by simp
  have "fwrite d (stream f b q) =
    (if length ?w = t then (stream f (b @ ?w) (drop t text), length d) else (stream f (b @ ?w) [], length ?w - length q))"
    unfolding fwrite_def Let_def stream_sel assms(3) [symmetric] assms(4) [symmetric]
    using assms(1) by (auto simp: stream_def overwrite_def)
  then show ?thesis using t assms(2) by (auto simp: min_def)
qed

lemma fwrite_short:
  assumes "writable f" "length b \<le> room f" "length q < BUFSIZ"
  shows "\<exists>y q' n. fwrite d (stream f b q) = (stream f (b @ y) q', n) \<and> n \<le> length d \<and> length (b @ y) \<le> room f \<and> length q' < BUFSIZ
    \<and> (room f < length b + whole (length q + length d) \<longrightarrow> n < length d)"
proof -
  note w = fwrite_stream [OF assms(1,2) refl refl, of d q]
  have le: "whole (length q + length d) \<le> length q + length d" by (rule whole_le)
  show ?thesis
  proof (cases "length b + whole (length q + length d) \<le> room f")
    case True
    let ?t = "whole (length q + length d)"
    have "fwrite d (stream f b q) = (stream f (b @ take ?t (q @ d)) (drop ?t (q @ d)), length d)" using w True by simp
    moreover have "length (b @ take ?t (q @ d)) \<le> room f" "length (drop ?t (q @ d)) < BUFSIZ"
      using True le whole_rest [of "length q + length d"] by simp_all
    ultimately show ?thesis using True by (metis le_refl not_le)
  next
    case False
    have "whole (length q) = 0" using assms(3) by simp
    then have "d \<noteq> []" using False assms(2) by auto
    then have "0 < length d" "room f < length b + (length q + length d)" using False le by (simp, linarith)
    then have "room f - length b - length q < length d" by linarith
    moreover have "fwrite d (stream f b q) = (stream f (b @ take (room f - length b) (q @ d)) [], room f - length b - length q)"
      using w False by simp
    moreover have "length (b @ take (room f - length b) (q @ d)) \<le> room f" "length ([] :: byte list) < BUFSIZ"
      using assms(2) by (simp_all add: BUFSIZ_def)
    ultimately show ?thesis by (metis less_imp_le)
  qed
qed

lemma fread_slice: "fread n f = (f\<lparr>fpos := fpos f + length (slice (bytes f) (fpos f) n)\<rparr>, slice (bytes f) (fpos f) n)"
  by (simp add: fread_def slice_def Let_def)

lemma read_value_spec:
  "fpos f + nat n \<le> length (bytes f) \<Longrightarrow> 0 \<le> n \<Longrightarrow>
   read_value n f acc = (f\<lparr>fpos := fpos f + nat n\<rparr>, acc @ slice (bytes f) (fpos f) (nat n))"
proof (induction n f acc rule: read_value.induct)
  case (1 n f acc)
  show ?case
  proof (cases "0 < n")
    case True
    let ?m = "nat (if n > 4096 then 4096 else n)"
    let ?d = "slice (bytes f) (fpos f) ?m"
    have m: "0 < ?m" "?m \<le> nat n" "int ?m \<le> n" using True by auto
    then have l: "length ?d = ?m" using 1 by simp
    then have d: "?d \<noteq> []" using m by auto
    let ?f = "f\<lparr>fpos := fpos f + ?m\<rparr>"
    have r: "fread ?m f = (?f, ?d)" by (simp only: fread_slice l)
    have "read_value (n - int (length ?d)) ?f (acc @ ?d)
        = (?f\<lparr>fpos := fpos ?f + nat (n - int (length ?d))\<rparr>, (acc @ ?d) @ slice (bytes ?f) (fpos ?f) (nat (n - int (length ?d))))"
      using 1 True m r d l by (intro 1(1)) auto
    moreover have "nat n = ?m + nat (n - int ?m)" using m by simp
    then have "slice (bytes f) (fpos f) (nat n) = ?d @ slice (bytes f) (fpos f + ?m) (nat (n - int ?m))"
      by (metis slice_append_slice)
    ultimately show ?thesis using True r d l m by (subst read_value.simps) (simp add: Let_def)
  qed (use 1 in \<open>simp add: read_value.simps\<close>)
qed

section \<open>Writing\<close>

text \<open>A record: key, value and hash; an empty value deletes the key.\<close>

type_synonym srec = "byte list \<times> byte list \<times> byte list"

definition enc :: "srec \<Rightarrow> byte list" where
  "enc r = (case r of (k, v, h) \<Rightarrow> record_header (length k) (length v) (Some h) @ k @ v)"

definition rec_ok :: "(byte list \<Rightarrow> byte list) \<Rightarrow> srec \<Rightarrow> bool" where
  "rec_ok sha r \<longleftrightarrow> (case r of (k, v, h) \<Rightarrow>
     length h = 48 \<and> length k \<le> 4028 \<and> 60 + length k + length v < 2 ^ 31 \<and> (v = [] \<or> h = sha v \<or> crc_marked k))"

lemma length_record_header: "length h = 48 \<Longrightarrow> length (record_header n m (Some h)) = 60"
  by (simp add: record_header_def)

lemma record_header_None: "record_header n m None = record_header n m (Some (replicate 48 0))"
  by (simp add: record_header_def)

lemma length_enc: "rec_ok sha (k, v, h) \<Longrightarrow> length (enc (k, v, h)) = 60 + length k + length v"
  by (simp add: enc_def rec_ok_def length_record_header)

text \<open>The stream after the bytes \<open>x\<close> were written, when their blocks fit.\<close>

definition after :: "FILE \<Rightarrow> byte list \<Rightarrow> byte list \<Rightarrow> FILE" where
  "after f b x = stream f (b @ take (whole (length x)) x) (drop (whole (length x)) x)"

lemma fwrite_after:
  assumes "writable f" "length b + whole (length (x @ d)) \<le> room f"
  shows "fwrite d (after f b x) = (after f b (x @ d), length d)"
proof -
  let ?T = "whole (length x)" and ?t = "whole (length (drop (whole (length x)) x @ d))"
  have e: "?T + ?t = whole (length (x @ d))" using whole_add [of "length x" "length d"] by simp
  have T: "?T \<le> length x" by (rule whole_le)
  then have l: "length (b @ take ?T x) = length b + ?T" by simp
  have "fwrite d (after f b x) = (stream f ((b @ take ?T x) @ take ?t (drop ?T x @ d)) (drop ?t (drop ?T x @ d)), length d)"
    unfolding after_def using fwrite_stream [OF assms(1) _ refl refl, of "b @ take ?T x" d "drop ?T x"] assms(2) e l by simp
  moreover have cut: "drop ?T (x @ d) = drop ?T x @ d" "take ?T (x @ d) = take ?T x" using T by simp_all
  have "take (?T + ?t) (x @ d) = take ?T (x @ d) @ take ?t (drop ?T (x @ d))" by (rule take_add)
  moreover have "drop (?T + ?t) (x @ d) = drop ?t (drop ?T (x @ d))" by (simp only: drop_drop add.commute)
  ultimately show ?thesis unfolding after_def e [symmetric] cut by (simp only: append_assoc)
qed

lemma fwrite_after_short:
  assumes "writable f" "length b \<le> room f" "length b + whole (length x) \<le> room f" "room f < length b + whole (length (x @ d))"
    and "fwrite d (after f b x) = (g, n)"
  shows "n < length d"
proof -
  have T: "whole (length x) \<le> length x" by (rule whole_le)
  have "length (b @ take (whole (length x)) x) \<le> room f" "length (drop (whole (length x)) x) < BUFSIZ"
    using assms(3) T whole_rest [of "length x"] by simp_all
  from fwrite_short [OF assms(1) this, of d] show ?thesis
    using assms(4,5) whole_add [of "length x" "length d"] T by (auto simp: after_def)
qed

lemma after_Nil: "after f b [] = stream f b []"
  by (simp add: after_def)

lemma fflush_after: "length b \<le> room f \<Longrightarrow> length b + whole (length x) \<le> room f \<Longrightarrow> fflush (after f b x) = stream f (take (room f) (b @ x)) []"
proof -
  let ?T = "whole (length x)"
  assume "length b \<le> room f" "length b + ?T \<le> room f"
  moreover have "?T \<le> length x" by (rule whole_le)
  moreover have "take (room f - length b) x = take ?T x @ take (room f - length b - ?T) (drop ?T x)"
    using calculation(2) by (metis add_le_imp_le_diff le_add_diff_inverse take_add add.commute)
  ultimately show ?thesis by (simp add: after_def fflush_stream)
qed

lemma GetPosition_after: "ILibSimpleDataStore_GetPosition (after f b x) = length b + length x"
  using whole_le [of "length x"] by (simp add: ILibSimpleDataStore_GetPosition_def after_def)

text \<open>
  When there is room for the whole blocks of the record all of it counts as written, and the file takes what fits.
\<close>

lemma WriteRecord_blocks:
  assumes "writable f" "pending f = []" "length (bytes f) \<le> room f" "length h = 48" "v \<noteq> None \<longrightarrow> n = length (the v)"
    and x: "x = record_header (length k) n (Some h) @ k @ (case v of None \<Rightarrow> [] | Some v \<Rightarrow> v)"
    and "length (bytes f) + whole (length x) \<le> room f"
  shows "ILibSimpleDataStore_WriteRecord f k v n (Some h)
    = (stream f (take (room f) (bytes f @ x)) [], length (bytes f) + 60 + length k)"
proof -
  let ?b = "bytes f" and ?hd = "record_header (length k) n (Some h)"
  have l: "length ?hd = 60" by (rule length_record_header [OF assms(4)])
  have mono: "whole m \<le> whole (length x)" if "m \<le> length x" for m using div_le_mono [OF that, of BUFSIZ] by simp
  have lx: "length x = 60 + length k + (case v of None \<Rightarrow> 0 | Some v \<Rightarrow> length v)" using x l by (simp split: option.split)
  have "whole (length ([] @ ?hd)) \<le> whole (length x)" by (rule mono) (simp add: lx l)
  moreover have "whole (length (?hd @ k)) \<le> whole (length x)" by (rule mono) (simp add: lx l)
  ultimately have fits: "length ?b + whole (length ([] @ ?hd)) \<le> room f" "length ?b + whole (length (?hd @ k)) \<le> room f"
    using assms(7) by linarith+
  have 1: "fwrite ?hd (fseek_end f) = (after f ?b ?hd, 60)"
    using fwrite_after [OF assms(1) fits(1)] l by (simp add: after_Nil fseek_idle(2) [OF assms(2)])
  have 2: "fwrite k (after f ?b ?hd) = (after f ?b (?hd @ k), length k)"
    by (rule fwrite_after [OF assms(1) fits(2)])
  have p: "ILibSimpleDataStore_GetPosition (after f ?b (?hd @ k)) = length ?b + 60 + length k"
    "ILibSimpleDataStore_GetPosition (fseek_end f) = length ?b"
    using GetPosition_after [of f ?b "?hd @ k"] l by (simp_all add: fseek_idle(2) [OF assms(2)] ILibSimpleDataStore_GetPosition_def)
  note def = ILibSimpleDataStore_WriteRecord_def Let_def
  note fl = fflush_after [OF assms(3,7)]
  show ?thesis
  proof (cases v)
    case None
    then show ?thesis using 1 2 p x fl by (simp add: def)
  next
    case (Some w)
    then have 3: "fwrite w (after f ?b (?hd @ k)) = (after f ?b x, length w)"
      using fwrite_after [OF assms(1), of ?b "?hd @ k" w] assms(7) x by simp
    then show ?thesis using 1 2 p x fl Some assms(5) by (simp add: def)
  qed
qed

lemma WriteRecord_room:
  assumes "writable f" "pending f = []" "length h = 48"
    and "length (bytes f) + 60 + length k + (case v of None \<Rightarrow> 0 | Some v \<Rightarrow> length v) \<le> room f"
    and "v \<noteq> None \<longrightarrow> n = length (the v)"
  shows "ILibSimpleDataStore_WriteRecord f k v n (Some h)
    = (f\<lparr>bytes := bytes f @ record_header (length k) n (Some h) @ k @ (case v of None \<Rightarrow> [] | Some v \<Rightarrow> v),
         fpos := length (bytes f) + 60 + length k + (case v of None \<Rightarrow> 0 | Some v \<Rightarrow> length v)\<rparr>,
       length (bytes f) + 60 + length k)"
proof -
  let ?x = "record_header (length k) n (Some h) @ k @ (case v of None \<Rightarrow> [] | Some v \<Rightarrow> v)"
  have l: "length ?x = 60 + length k + (case v of None \<Rightarrow> 0 | Some v \<Rightarrow> length v)"
    by (simp add: length_record_header [OF assms(3)] split: option.split)
  then have "length (bytes f) + whole (length ?x) \<le> room f" using whole_le [of "length ?x"] assms(4) by linarith
  note w = WriteRecord_blocks [OF assms(1,2) _ assms(3,5) refl this]
  have "stream f b [] = f\<lparr>bytes := b, fpos := length b\<rparr>" for b using assms(2) by (cases f) (simp add: stream_def)
  then show ?thesis using w l assms(4) by simp
qed

lemma WriteRecord_enc:
  assumes "writable f" "pending f = []" "rec_ok sha (k, v, h)" "length (bytes f) + length (enc (k, v, h)) \<le> room f"
  shows "ILibSimpleDataStore_WriteRecord f k (Some v) (length v) (Some h)
    = (f\<lparr>bytes := bytes f @ enc (k, v, h), fpos := length (bytes f) + length (enc (k, v, h))\<rparr>,
       length (bytes f) + 60 + length k)"
proof -
  have e: "enc (k, v, h) = record_header (length k) (length v) (Some h) @ k @ v" by (simp add: enc_def)
  have h: "length h = 48" using assms(3) by (simp add: rec_ok_def)
  note l = length_enc [OF assms(3)]
  have room: "length (bytes f) + 60 + length k + (case Some v of None \<Rightarrow> 0 | Some v \<Rightarrow> length v) \<le> room f"
    using assms(4) unfolding l by simp
  have len: "length (bytes f) + (60 + length k + length v) = length (bytes f) + 60 + length k + length v" by simp
  have "ILibSimpleDataStore_WriteRecord f k (Some v) (length v) (Some h)
    = (f\<lparr>bytes := bytes f @ record_header (length k) (length v) (Some h) @ k @ v,
         fpos := length (bytes f) + 60 + length k + length v\<rparr>, length (bytes f) + 60 + length k)"
    using WriteRecord_room [OF assms(1,2) h room, of "length v"] by (simp only: option.case option.sel simp_thms)
  then show ?thesis unfolding l len unfolding e .
qed

lemma WriteRecord_tomb:
  assumes "writable f" "pending f = []" "length (bytes f) + 60 + length k \<le> room f"
  shows "ILibSimpleDataStore_WriteRecord f k None 0 None
    = (f\<lparr>bytes := bytes f @ enc (k, [], replicate 48 0), fpos := length (bytes f) + 60 + length k\<rparr>,
       length (bytes f) + 60 + length k)"
proof -
  have "ILibSimpleDataStore_WriteRecord f k None 0 None = ILibSimpleDataStore_WriteRecord f k None 0 (Some (replicate 48 0))"
    by (simp add: ILibSimpleDataStore_WriteRecord_def record_header_None)
  then show ?thesis using WriteRecord_room [of f "replicate 48 0" k None 0] assms by (simp add: enc_def)
qed

text \<open>Without room for its whole blocks, or on a read-only stream, the file keeps its content.\<close>

lemma WriteRecord_readonly:
  assumes "\<not> writable f" "pending f = []"
  shows "ILibSimpleDataStore_WriteRecord f k v n h = (fseek_end f, 0)"
proof -
  have "fwrite d (fseek_end f) = (fseek_end f, 0)" for d
    using assms by (simp add: fwrite_def fseek_idle)
  then show ?thesis using assms
    by (simp add: ILibSimpleDataStore_WriteRecord_def ftruncate_def fseek_idle Let_def split: option.split)
qed

lemma WriteRecord_steps:
  "fwrite (record_header (length k) n h) (fseek_end f) = (f1, n1) \<Longrightarrow> fwrite k f1 = (f2, n2) \<Longrightarrow>
   fwrite (take n v) f2 = (f3, n3) \<Longrightarrow>
   ILibSimpleDataStore_WriteRecord f k (Some v) n h
     = (if n1 + n2 + n3 < 60 + length k + n then (ftruncate (ILibSimpleDataStore_GetPosition (fseek_end f)) (fflush f3), 0)
        else (fflush f3, ILibSimpleDataStore_GetPosition f2))"
  by (simp add: ILibSimpleDataStore_WriteRecord_def Let_def)

lemma WriteRecord_full:
  assumes "writable f" "pending f = []" "length (bytes f) \<le> room f" "length h = 48"
    and "room f < length (bytes f) + whole (60 + length k + length v)"
  shows "\<exists>f'. ILibSimpleDataStore_WriteRecord f k (Some v) (length v) (Some h) = (f', 0)
    \<and> bytes f' = bytes f \<and> writable f' \<and> room f' = room f \<and> pending f' = []"
proof -
  let ?hd = "record_header (length k) (length v) (Some h)" and ?b = "bytes f"
  have l: "length ?hd = 60" by (rule length_record_header [OF assms(4)])
  obtain y1 q1 n1 where 1: "fwrite ?hd (stream f ?b []) = (stream f (?b @ y1) q1, n1)" "n1 \<le> 60" "length (?b @ y1) \<le> room f"
    "length q1 < BUFSIZ" using fwrite_short [OF assms(1,3), of "[]" ?hd] l by (auto simp: BUFSIZ_def)
  obtain y2 q2 n2 where 2: "fwrite k (stream f (?b @ y1) q1) = (stream f ((?b @ y1) @ y2) q2, n2)" "n2 \<le> length k"
    "length ((?b @ y1) @ y2) \<le> room f" "length q2 < BUFSIZ" using fwrite_short [OF assms(1) 1(3,4), of k] by blast
  obtain y3 q3 n3 where 3: "fwrite v (stream f ((?b @ y1) @ y2) q2) = (stream f (((?b @ y1) @ y2) @ y3) q3, n3)" "n3 \<le> length v"
    "length (((?b @ y1) @ y2) @ y3) \<le> room f" "length q3 < BUFSIZ" using fwrite_short [OF assms(1) 2(3,4), of v] by blast
  have short: "n1 + n2 + n3 < 60 + length k + length v"
  proof (rule ccontr)
    assume "\<not> n1 + n2 + n3 < 60 + length k + length v"
    then have n: "n1 = 60" "n2 = length k" "n3 = length v" using 1(2) 2(2) 3(2) by linarith+
    have b0: "length ?b + whole (length ([] :: byte list)) \<le> room f" using assms(3) by simp
    have w1: "length ?b + whole (length ([] @ ?hd)) \<le> room f"
      using fwrite_after_short [OF assms(1,3) b0, of ?hd] 1(1) n(1) l by (force simp: after_Nil)
    have a1: "stream f (?b @ y1) q1 = after f ?b ?hd" using fwrite_after [OF assms(1) w1] 1(1) by (simp add: after_Nil)
    have w2: "length ?b + whole (length (?hd @ k)) \<le> room f"
      using fwrite_after_short [OF assms(1,3), of ?hd k] w1 2(1) n(2) unfolding a1 by force
    have a2: "stream f ((?b @ y1) @ y2) q2 = after f ?b (?hd @ k)" using fwrite_after [OF assms(1) w2] 2(1) unfolding a1 by simp
    have "length ?b + whole (length ((?hd @ k) @ v)) \<le> room f"
      using fwrite_after_short [OF assms(1,3) w2, of v] 3(1) n(3) unfolding a2 by force
    then show False using assms(5) l by (simp add: add.assoc)
  qed
  have pos: "ILibSimpleDataStore_GetPosition (fseek_end f) = length ?b"
    by (simp add: fseek_idle(2) [OF assms(2)] ILibSimpleDataStore_GetPosition_def)
  have "ILibSimpleDataStore_WriteRecord f k (Some v) (length v) (Some h)
      = (ftruncate (length ?b) (fflush (stream f (((?b @ y1) @ y2) @ y3) q3)), 0)"
    using WriteRecord_steps [of k "length v" "Some h" f _ n1 _ n2 v] 1(1) 2(1) 3(1) short fseek_idle(2) [OF assms(2)] pos by simp
  then show ?thesis using assms(1) by (simp add: fflush_stream ftruncate_def)
qed

section \<open>Reading\<close>

definition rec_header :: "srec \<Rightarrow> nat \<Rightarrow> ILibSimpleDataStore_RecordHeader" where
  "rec_header r p = (case r of (k, v, h) \<Rightarrow>
     \<lparr>nodeSize = 60 + int (length k) + int (length v), keyLen = int (length k), valueLength = int (length v),
      hash = h, key = k, rec_valueOffset = p + 60 + length k\<rparr>)"

lemma slice_append2: "length a = n \<Longrightarrow> slice (a @ b @ c) n (length b) = b"
  by (simp add: slice_def)

lemma ReadNext_enc:
  assumes "rec_ok sha (k, v, h)" "bytes f = pre @ enc (k, v, h) @ post" "fpos f = length pre"
    and "length pre \<noteq> fsize" "length (bytes f) < SIZE_MOD"
  shows "ILibSimpleDataStore_ReadNextRecord sha fsize 0 f
    = Some (f\<lparr>fpos := length pre + length (enc (k, v, h))\<rparr>, Some (rec_header (k, v, h) (length pre)))"
proof -
  let ?hd = "record_header (length k) (length v) (Some h)"
  have ok: "length h = 48" "length k \<le> 4028" "60 + length k + length v < 2 ^ 31" "v = [] \<or> h = sha v \<or> crc_marked k"
    using assms(1) by (simp_all add: rec_ok_def)
  have l: "length ?hd = 60" by (rule length_record_header [OF ok(1)])
  have b: "bytes f = pre @ ?hd @ k @ v @ post" using assms(2) by (simp add: enc_def)
  have fields: "ntohl (take 4 ?hd) = 60 + int (length k) + int (length v)" "ntohl (take 4 (drop 4 ?hd)) = int (length k)"
    "ntohl (take 4 (drop 8 ?hd)) = int (length v)" "take 48 (drop 12 ?hd) = h"
    using ok(1-3) by (simp_all add: record_header_def)
  let ?f1 = "f\<lparr>fpos := length pre + 60\<rparr>"
  have s1: "slice (bytes f) (length pre) 60 = ?hd" using slice_append2 [of pre "length pre" ?hd "k @ v @ post"] l b by simp
  have 1: "fread 60 f = (?f1, ?hd)" unfolding fread_slice assms(3) s1 l by simp
  let ?f2 = "f\<lparr>fpos := length pre + 60 + length k\<rparr>"
  have s2: "slice (bytes f) (length pre + 60) (length k) = k"
    using slice_append2 [of "pre @ ?hd" "length pre + 60" k "v @ post"] l b by simp
  have 2: "fread (length k) ?f1 = (?f2, k)" unfolding fread_slice by (simp add: s2 add.assoc)
  let ?f3 = "f\<lparr>fpos := length pre + 60 + length k + length v\<rparr>"
  have s3: "slice (bytes f) (length pre + 60 + length k) (length v) = v"
    using slice_append2 [of "pre @ ?hd @ k" "length pre + 60 + length k" v post] l b by simp
  have 3: "read_value (int (length v)) ?f2 [] = (?f3, v)"
    using read_value_spec [of ?f2 "int (length v)" "[]"] b l s3 by simp
  have "(length pre + 60 + length k) mod SIZE_MOD = length pre + 60 + length k" using assms(5) b l by simp
  then have off: "nat ((int (length pre) + 60 + int (length k)) mod int SIZE_MOD) = length pre + 60 + length k"
    by (metis nat_int of_nat_add of_nat_numeral zmod_int)
  have m: "take (length k) (drop 60 (?hd @ k)) = k" using l by simp
  show ?thesis
    unfolding ILibSimpleDataStore_ReadNextRecord_def Let_def assms(3) header_len_def
    using assms(4) ok l
    by (auto simp: 1 2 3 fields off m rec_header_def length_enc [OF assms(1)] add.assoc [symmetric] cong: if_cong)
qed

lemma ReadNext_end:
  "fpos f = fsize \<Longrightarrow> ILibSimpleDataStore_ReadNextRecord sha fsize n f = Some (f, None)"
  by (simp add: ILibSimpleDataStore_ReadNextRecord_def Let_def)


text \<open>
  A record written by \<open>ILibSimpleDataStore_WriteRecord\<close> is appended behind the
  old content, the returned offset is that of the value, and \<open>ILibSimpleDataStore_ReadNextRecord\<close> at
  the old end of the file returns its key, lengths, hash and offset and stops behind it.  If the medium
  has no room for the blocks of the record that are passed on at once, 0 is returned and the file keeps its old content.
\<close>

theorem datastore_record_roundtrip:
  assumes "writable f" "pending f = []" "rec_ok sha (k, v, h)" "length (bytes f) \<le> room f"
    and "length (bytes f) + 60 + length k + length v < SIZE_MOD" "length (bytes f) \<noteq> fsize"
  shows "\<exists>f' off. ILibSimpleDataStore_WriteRecord f k (Some v) (length v) (Some h) = (f', off)
    \<and> (if length (bytes f) + 60 + length k + length v \<le> room f
       then slice (bytes f') off (length v) = v \<and> take (length (bytes f)) (bytes f') = bytes f
         \<and> ILibSimpleDataStore_ReadNextRecord sha fsize 0 (fseek_set (length (bytes f)) f')
             = Some (f', Some (rec_header (k, v, h) (length (bytes f))))
       else room f < length (bytes f) + whole (60 + length k + length v) \<longrightarrow> off = 0 \<and> bytes f' = bytes f)"
proof (cases "length (bytes f) + 60 + length k + length v \<le> room f")
  case True
  let ?e = "enc (k, v, h)"
  let ?f = "f\<lparr>bytes := bytes f @ ?e, fpos := length (bytes f) + length ?e\<rparr>"
  note l = length_enc [OF assms(3)]
  have w: "ILibSimpleDataStore_WriteRecord f k (Some v) (length v) (Some h) = (?f, length (bytes f) + 60 + length k)"
    using True l by (intro WriteRecord_enc [OF assms(1-3)]) simp
  have "ILibSimpleDataStore_ReadNextRecord sha fsize 0 (fseek_set (length (bytes f)) ?f)
      = Some ((fseek_set (length (bytes f)) ?f)\<lparr>fpos := length (bytes f) + length ?e\<rparr>, Some (rec_header (k, v, h) (length (bytes f))))"
    using assms(2,5,6) l by (intro ReadNext_enc [OF assms(3), where post = "[]"]) (simp_all add: fseek_idle)
  then have r: "ILibSimpleDataStore_ReadNextRecord sha fsize 0 (fseek_set (length (bytes f)) ?f)
      = Some (?f, Some (rec_header (k, v, h) (length (bytes f))))" using assms(2) by (simp add: fseek_idle)
  have "length h = 48" using assms(3) by (simp add: rec_ok_def)
  then have "length (bytes f @ record_header (length k) (length v) (Some h) @ k) = length (bytes f) + 60 + length k"
    by (simp add: length_record_header)
  from slice_append2 [OF this, of v "[]"] have "slice (bytes ?f) (length (bytes f) + 60 + length k) (length v) = v"
    by (simp add: enc_def)
  with w r True show ?thesis by (intro exI [of _ ?f] exI) simp
next
  case False
  have "length h = 48" using assms(3) by (simp add: rec_ok_def)
  with WriteRecord_full [OF assms(1,2,4) this, of k v] False show ?thesis
    by (cases "ILibSimpleDataStore_WriteRecord f k (Some v) (length v) (Some h)") (auto simp: add.assoc)
qed

lemma datastore_record_roundtrip_witness:
  "\<exists>f'. ILibSimpleDataStore_WriteRecord \<lparr>bytes = [], fpos = 0, room = 100, writable = True, pending = []\<rparr> (str ''k'') (Some (str ''v''))
      (length (str ''v'')) (Some (replicate 48 0)) = (f', 0 + 60 + 1)
    \<and> ILibSimpleDataStore_ReadNextRecord (\<lambda>_. replicate 48 0) 62 0 (fseek_set 0 f')
        = Some (f', Some (rec_header (str ''k'', str ''v'', replicate 48 0) 0))"
proof -
  let ?f = "\<lparr>bytes = [], fpos = 0, room = 100, writable = True, pending = []\<rparr>" and ?h = "replicate 48 0 :: byte list"
  have "rec_ok (\<lambda>_. ?h) (str ''k'', str ''v'', ?h)" by (simp add: rec_ok_def)
  from datastore_record_roundtrip [of ?f, OF _ _ this, of 62] obtain f' off where
    "ILibSimpleDataStore_WriteRecord ?f (str ''k'') (Some (str ''v'')) (length (str ''v'')) (Some ?h) = (f', off)"
    "ILibSimpleDataStore_ReadNextRecord (\<lambda>_. ?h) 62 0 (fseek_set 0 f')
        = Some (f', Some (rec_header (str ''k'', str ''v'', ?h) 0))"
    by (auto simp: SIZE_MOD_def)
  moreover have "snd (ILibSimpleDataStore_WriteRecord ?f (str ''k'') (Some (str ''v'')) (length (str ''v'')) (Some ?h)) = 0 + 60 + 1"
    using WriteRecord_room [of ?f ?h "str ''k''" "Some (str ''v'')" "length (str ''v'')"] by simp
  ultimately show ?thesis by auto
qed

end
