(* ===== verification/DataStoreMap.thy ===== *)
theory DataStoreMap
  imports DataStoreRecords
begin

text \<open>
  The data store as a map: the table of keys with its entries represents a map from keys to
  values stored in the file, and every operation acts on the map.
\<close>

section \<open>The table of keys\<close>

definition tab_ok :: "byte list set \<Rightarrow> ILibHashtable_Root \<Rightarrow> (byte list \<rightharpoonup> addr) \<Rightarrow> bool" where
  "tab_ok K t T \<longleftrightarrow> inj_on hk_hash ({0} \<times> K) \<and> (\<exists>A. hrepr t A
     \<and> (\<forall>i. \<forall>e \<in> set (A i). fst e \<in> {0} \<times> K \<and> snd e \<noteq> 0)
     \<and> (\<forall>k. T k = (if bget (0, k) A = 0 then None else Some (bget (0, k) A))))"

lemma hk_key [simp]: "hk_ok (0, Some k, int (length k))" "hk_norm (0, Some k, int (length k)) = (0, k)"
  by (simp_all add: hk_ok_def hk_norm_def)

lemma tab_cases:
  assumes "tab_ok K t T"
  obtains A where "hrepr t A" "inj_on hk_hash ({0} \<times> K)" "\<forall>i. \<forall>e \<in> set (A i). fst e \<in> {0} \<times> K \<and> snd e \<noteq> 0"
    "\<forall>k. T k = (if bget (0, k) A = 0 then None else Some (bget (0, k) A))"
  using assms unfolding tab_ok_def by blast

lemma bget_in: "bget k A \<noteq> 0 \<Longrightarrow> (k, bget k A) \<in> set (A (hk_hash k))"
  by (auto simp: bget_def split: option.splits dest: map_of_SomeD)

lemma tab_dom:
  assumes "tab_ok K t T" "T k = Some a"
  shows "k \<in> K" "a \<noteq> 0"
proof -
  obtain A where A: "hrepr t A" "inj_on hk_hash ({0} \<times> K)" "\<forall>i. \<forall>e \<in> set (A i). fst e \<in> {0} \<times> K \<and> snd e \<noteq> 0"
    "\<forall>k. T k = (if bget (0, k) A = 0 then None else Some (bget (0, k) A))" using assms(1) by (rule tab_cases)
  have "bget (0, k) A = a" "a \<noteq> 0" using A(4) [rule_format, of k] assms(2) by (auto split: if_splits)
  then show "k \<in> K" "a \<noteq> 0" using A(3) [rule_format] bget_in [of "(0, k)" A] by fastforce+
qed

lemma tab_get:
  assumes "tab_ok K t T"
  shows "table_get t k = Some (case T k of None \<Rightarrow> 0 | Some a \<Rightarrow> a)"
proof -
  obtain A where A': "hrepr t A" "inj_on hk_hash ({0} \<times> K)" "\<forall>i. \<forall>e \<in> set (A i). fst e \<in> {0} \<times> K \<and> snd e \<noteq> 0"
    "\<forall>k. T k = (if bget (0, k) A = 0 then None else Some (bget (0, k) A))"
    using assms by (rule tab_cases)
  then show ?thesis using Get_ok [OF A'(1) hk_key(1) hk_key(2)] by (simp add: table_get_def)
qed

lemma tab_put:
  assumes "tab_ok K t T" "k \<in> K" "a \<noteq> 0"
  shows "\<exists>t'. table_put t k a = Some t' \<and> tab_ok K t' (T(k \<mapsto> a))"
proof -
  obtain A where A: "hrepr t A" "inj_on hk_hash ({0} \<times> K)" "\<forall>i. \<forall>e \<in> set (A i). fst e \<in> {0} \<times> K \<and> snd e \<noteq> 0"
    "\<forall>k. T k = (if bget (0, k) A = 0 then None else Some (bget (0, k) A))" using assms(1) by (rule tab_cases)
  obtain t' where t': "ILibHashtable_Put t 0 (Some k) (int (length k)) a = Some (t', bget (0, k) A)" "hrepr t' (bput (0, k) a A)"
    using Put_ok [OF A(1) hk_key(1), of k "(0, k)"] by auto
  have "set (AList.update k0 a xs) \<subseteq> insert (k0, a) (set xs)" for k0 :: hkey and xs
    by (induction xs) auto
  then have "set (bput (0, k) a A i) \<subseteq> insert ((0, k), a) (set (A i))" for i
    by (cases "i = hk_hash (0, k)") (auto simp: bput_def)
  then have "fst e \<in> {0} \<times> K \<and> snd e \<noteq> 0" if "e \<in> set (bput (0, k) a A i)" for e i
    using that A(3) [rule_format, of e i] assms(2,3) by (metis (no_types, lifting) fst_conv insertE mem_Sigma_iff singletonI snd_conv subsetD)
  then have "tab_ok K t' (T(k \<mapsto> a))"
    unfolding tab_ok_def using A(2,4) t'(2) assms(3) by (intro conjI exI [of _ "bput (0, k) a A"]) (auto simp: bget_bput)
  then show ?thesis using t'(1) by (simp add: table_put_def)
qed

lemma bucket_le_1:
  assumes "hrepr t A" "inj_on hk_hash ({0} \<times> K)" "\<And>e. e \<in> set (A i) \<Longrightarrow> fst e \<in> {0} \<times> K"
  shows "A i = [] \<or> (\<exists>e. A i = [e])"
proof (cases "A i")
  case (Cons e es)
  have "es = []"
  proof (cases es)
    case c: (Cons e2 es')
    have "(fst e, snd e) \<in> set (A i)" "(fst e2, snd e2) \<in> set (A i)" using Cons c by simp_all
    then have "hk_hash (fst e) = i" "hk_hash (fst e2) = i" using hrepr_chain(1) [OF assms(1)] by blast+
    moreover have "fst e \<in> {0} \<times> K" "fst e2 \<in> {0} \<times> K" using assms(3) Cons c by auto
    ultimately have "fst e = fst e2" by (intro inj_onD [OF assms(2)]) simp_all
    then show ?thesis using hrepr_chain(2) [OF assms(1), of i] Cons c by simp
  qed simp
  then show ?thesis using Cons by simp
qed simp

lemma tab_remove:
  assumes "tab_ok K t T"
  shows "\<exists>t'. table_remove t k = Some (t', case T k of None \<Rightarrow> 0 | Some a \<Rightarrow> a) \<and> tab_ok K t' (T(k := None))"
proof -
  obtain A where A: "hrepr t A" "inj_on hk_hash ({0} \<times> K)" "\<forall>i. \<forall>e \<in> set (A i). fst e \<in> {0} \<times> K \<and> snd e \<noteq> 0"
    "\<forall>k. T k = (if bget (0, k) A = 0 then None else Some (bget (0, k) A))" using assms by (rule tab_cases)
  obtain t' where t': "ILibHashtable_Remove t 0 (Some k) (int (length k)) = Some (t', bget (0, k) A)" "hrepr t' (bremove (0, k) A)"
    using Remove_ok [OF A(1) hk_key(1), of k "(0, k)"] by auto
  have one: "A (hk_hash (0, k)) = [] \<or> (\<exists>e. A (hk_hash (0, k)) = [e])"
    by (rule bucket_le_1 [OF A(1,2)]) (use A(3) in blast)
  have b: "bget j (bremove (0, k) A) = (if j = (0, k) then 0 else bget j A)" for j
    using one by (auto simp: bget_def bremove_def split: list.split)
  have "set (bremove (0, k) A i) \<subseteq> set (A i)" for i
    using one by (auto simp: bremove_def split: list.split)
  then have "fst e \<in> {0} \<times> K \<and> snd e \<noteq> 0" if "e \<in> set (bremove (0, k) A i)" for e i using that A(3) by blast
  then have "tab_ok K t' (T(k := None))"
    unfolding tab_ok_def using A(2,4) t'(2) by (intro conjI exI [of _ "bremove (0, k) A"]) (auto simp: b)
  then show ?thesis using t'(1) A(4) [rule_format, of k] by (simp add: table_remove_def)
qed

lemma tab_create: "inj_on hk_hash ({0} \<times> K) \<Longrightarrow> tab_ok K ILibHashtable_Create Map.empty"
  unfolding tab_ok_def using Create_hrepr by (intro conjI exI [of _ "\<lambda>_. []"]) (auto simp: bget_def)

lemma tab_clear:
  assumes "tab_ok K t T"
  shows "\<exists>t' u'. ILibHashtable_ClearEx t f u = Some (t', u') \<and> tab_ok K t' Map.empty"
proof -
  obtain A where A: "hrepr t A" "inj_on hk_hash ({0} \<times> K)" "\<forall>i. \<forall>e \<in> set (A i). fst e \<in> {0} \<times> K \<and> snd e \<noteq> 0"
    "\<forall>k. T k = (if bget (0, k) A = 0 then None else Some (bget (0, k) A))" using assms by (rule tab_cases)
  obtain t' where t': "ILibHashtable_ClearEx t f u = Some (t', fold (hcall f) (helems A t) u)" "hrepr t' (\<lambda>_. [])"
    using Clear_repr(1) [OF A(1), of f u] by blast
  have "tab_ok K t' Map.empty"
    unfolding tab_ok_def using A(2) t'(2) by (intro conjI exI [of _ "\<lambda>_. []"]) (auto simp: bget_def)
  then show ?thesis using t'(1) by blast
qed

definition on_key :: "(addr \<Rightarrow> byte list option \<Rightarrow> int \<Rightarrow> addr \<Rightarrow> 'u \<Rightarrow> 'u) \<Rightarrow> byte list \<times> addr \<Rightarrow> 'u \<Rightarrow> 'u" where
  "on_key f e = f 0 (if fst e = [] then None else Some (fst e)) (int (length (fst e))) (snd e)"

lemma fold_on_key:
  "\<forall>e \<in> set es. fst (fst e) = 0 \<Longrightarrow>
   fold (hcall (Some f)) es u = fold (on_key f) (map (\<lambda>e. (snd (fst e), snd e)) es) u"
  by (induction es arbitrary: u) (simp_all add: hcall_def on_key_def)

lemma tab_enum:
  assumes "tab_ok K t T"
  obtains es where "distinct (map fst es)" "\<And>k a. (k, a) \<in> set es \<longleftrightarrow> T k = Some a"
    "\<And>f u. ILibHashtable_Enumerate t (Some f) u = Some (fold (on_key f) es u)"
proof -
  obtain A where A: "hrepr t A" "inj_on hk_hash ({0} \<times> K)" "\<forall>i. \<forall>e \<in> set (A i). fst e \<in> {0} \<times> K \<and> snd e \<noteq> 0"
    "\<forall>k. T k = (if bget (0, k) A = 0 then None else Some (bget (0, k) A))" using assms by (rule tab_cases)
  let ?es = "map (\<lambda>e. (snd (fst e), snd e)) (helems A t)"
  have z: "fst (fst e) = 0 \<and> snd e \<noteq> 0" if "e \<in> set (helems A t)" for e
    using that helems_in [OF A(1), of "fst e" "snd e"] A(3) by fastforce
  have "inj_on snd (fst ` set (helems A t))"
  proof (rule inj_onI)
    fix x y assume "x \<in> fst ` set (helems A t)" "y \<in> fst ` set (helems A t)" "snd x = snd y"
    moreover from this have "fst x = 0" "fst y = 0" using z by auto
    ultimately show "x = y" by (simp add: prod_eq_iff)
  qed
  then have "distinct (map snd (map fst (helems A t)))"
    using helems_distinct [OF A(1)] by (simp add: distinct_map comp_inj_on)
  then have d: "distinct (map fst ?es)" by (simp add: comp_def)
  have m: "(k, a) \<in> set ?es \<longleftrightarrow> T k = Some a" for k a
  proof
    assume "(k, a) \<in> set ?es"
    then obtain x where "((x, k), a) \<in> set (helems A t)" by auto
    then have e: "((0, k), a) \<in> set (helems A t)" "a \<noteq> 0" using z by fastforce+
    then have "map_of (A (hk_hash (0, k))) (0, k) = Some a"
      using helems_in [OF A(1)] hrepr_chain(2) [OF A(1)] by simp
    then show "T k = Some a" using A(4) [rule_format, of k] e(2) by (simp add: bget_def)
  next
    assume "T k = Some a"
    then have "bget (0, k) A = a" "a \<noteq> 0" using A(4) [rule_format, of k] by (auto split: if_splits)
    then have "((0, k), a) \<in> set (helems A t)" using bget_in [of "(0, k)" A] helems_in [OF A(1)] by auto
    then show "(k, a) \<in> set ?es" by force
  qed
  have "ILibHashtable_Enumerate t (Some f) u = Some (fold (on_key f) ?es u)" for f u
    using Clear_repr(2) [OF A(1), of "Some f" u] z by (subst fold_on_key [symmetric]) simp_all
  with d m show thesis by (rule that)
qed


section \<open>Entries\<close>

text \<open>The entry \<open>e\<close> locates the value and holds its hash.\<close>

definition entry_val :: "byte list \<Rightarrow> ILibSimpleDataStore_TableEntry \<Rightarrow> byte list \<times> byte list \<Rightarrow> bool" where
  "entry_val bs e vh \<longleftrightarrow> te_valueLength e = int (length (fst vh)) \<and> valueHash e = snd vh
     \<and> valueOffset e + length (fst vh) \<le> length bs \<and> slice bs (valueOffset e) (length (fst vh)) = fst vh"

text \<open>Table, entries and allocation represent the map \<open>M\<close> from keys to values and hashes.\<close>

definition keys_inv :: "byte list set \<Rightarrow> ILibHashtable_Root \<Rightarrow> (addr \<rightharpoonup> ILibSimpleDataStore_TableEntry) \<Rightarrow> addr
    \<Rightarrow> byte list \<Rightarrow> (byte list \<rightharpoonup> byte list \<times> byte list) \<Rightarrow> bool" where
  "keys_inv K t es n bs M \<longleftrightarrow> 0 < n \<and> (\<exists>T. tab_ok K t T \<and> inj_on T (dom T) \<and> dom T = dom M
     \<and> (\<forall>k a. T k = Some a \<longrightarrow> a < n \<and> (\<exists>e. es a = Some e \<and> entry_val bs e (the (M k)))))"

lemma keys_cases:
  assumes "keys_inv K t es n bs M"
  obtains T where "tab_ok K t T" "inj_on T (dom T)" "dom T = dom M" "0 < n"
    "\<forall>k a. T k = Some a \<longrightarrow> a < n \<and> (\<exists>e. es a = Some e \<and> entry_val bs e (the (M k)))"
  using assms unfolding keys_inv_def by blast

lemma entry_val_append: "entry_val bs e vh \<Longrightarrow> entry_val (bs @ x) e vh"
  by (auto simp: entry_val_def slice_def)

lemma keys_grow: "keys_inv K t es n bs M \<Longrightarrow> keys_inv K t es n (bs @ x) M"
  unfolding keys_inv_def using entry_val_append by metis

lemma keys_dom: "keys_inv K t es n bs M \<Longrightarrow> M k = Some vh \<Longrightarrow> k \<in> K"
  unfolding keys_inv_def using tab_dom(1) by (metis domD domI)

lemma keys_lookup:
  assumes "keys_inv K t es n bs M"
  shows "M k = None \<Longrightarrow> table_get t k = Some 0"
    "M k = Some vh \<Longrightarrow> \<exists>a e. table_get t k = Some a \<and> a \<noteq> 0 \<and> a < n \<and> es a = Some e \<and> entry_val bs e vh"
proof -
  obtain T where T: "tab_ok K t T" "inj_on T (dom T)" "dom T = dom M" "0 < n"
    "\<forall>k a. T k = Some a \<longrightarrow> a < n \<and> (\<exists>e. es a = Some e \<and> entry_val bs e (the (M k)))"
    using assms by (rule keys_cases)
  show "table_get t k = Some 0" if "M k = None"
  proof -
    have "T k = None" using that T(3) by (metis domIff)
    then show ?thesis using tab_get [OF T(1), of k] by simp
  qed
  assume M: "M k = Some vh"
  then obtain a where a: "T k = Some a" using T(3) by (metis domD domI)
  then show "\<exists>a e. table_get t k = Some a \<and> a \<noteq> 0 \<and> a < n \<and> es a = Some e \<and> entry_val bs e vh"
    using tab_get [OF T(1), of k] tab_dom(2) [OF T(1) a] T(5) M by fastforce
qed

lemma keys_new:
  assumes "keys_inv K t es n bs M" "M k = None" "k \<in> K" "entry_val bs e vh"
  shows "\<exists>t'. table_put t k n = Some t' \<and> keys_inv K t' (es(n \<mapsto> e)) (n + 1) bs (M(k \<mapsto> vh))"
proof -
  obtain T where T: "tab_ok K t T" "inj_on T (dom T)" "dom T = dom M" "0 < n"
    "\<forall>k a. T k = Some a \<longrightarrow> a < n \<and> (\<exists>e. es a = Some e \<and> entry_val bs e (the (M k)))"
    using assms(1) by (rule keys_cases)
  obtain t' where t': "table_put t k n = Some t'" "tab_ok K t' (T(k \<mapsto> n))"
    using tab_put [OF T(1) assms(3), of n] T(4) by auto
  have Tk: "T k = None" using T(3) assms(2) by (metis domIff)
  have "T y \<noteq> Some n" for y using T(5) by blast
  then have "inj_on (T(k \<mapsto> n)) (dom (T(k \<mapsto> n)))"
    using T(2) Tk by (auto simp: inj_on_def dom_def)
  moreover have "dom (T(k \<mapsto> n)) = dom (M(k \<mapsto> vh))" using T(3) by simp
  moreover have "\<forall>k' a. (T(k \<mapsto> n)) k' = Some a \<longrightarrow> a < n + 1
      \<and> (\<exists>e'. (es(n \<mapsto> e)) a = Some e' \<and> entry_val bs e' (the ((M(k \<mapsto> vh)) k')))"
    using T(5) assms(4) by (auto intro: less_SucI)
  ultimately have "keys_inv K t' (es(n \<mapsto> e)) (n + 1) bs (M(k \<mapsto> vh))"
    unfolding keys_inv_def using t'(2) by (intro conjI exI [of _ "T(k \<mapsto> n)"]) (blast | simp)+
  then show ?thesis using t'(1) by blast
qed

lemma keys_set:
  assumes "keys_inv K t es n bs M" "M k \<noteq> None" "table_get t k = Some a" "entry_val bs e vh"
  shows "\<exists>t'. table_put t k a = Some t' \<and> keys_inv K t' (es(a \<mapsto> e)) n bs (M(k \<mapsto> vh))"
proof -
  obtain T where T: "tab_ok K t T" "inj_on T (dom T)" "dom T = dom M" "0 < n"
    "\<forall>k a. T k = Some a \<longrightarrow> a < n \<and> (\<exists>e. es a = Some e \<and> entry_val bs e (the (M k)))"
    using assms(1) by (rule keys_cases)
  have "k \<in> dom T" using assms(2) T(3) by auto
  then have Tk: "T k = Some a" using tab_get [OF T(1), of k] assms(3) by auto
  obtain t' where t': "table_put t k a = Some t'" "tab_ok K t' (T(k \<mapsto> a))"
    using tab_put [OF T(1) tab_dom [OF T(1) Tk]] by auto
  have same: "T(k \<mapsto> a) = T" using Tk by (simp add: fun_upd_idem)
  have "a' < n \<and> (\<exists>e'. (es(a \<mapsto> e)) a' = Some e' \<and> entry_val bs e' (the ((M(k \<mapsto> vh)) k')))" if k': "T k' = Some a'" for k' a'
  proof (cases "k' = k")
    case False
    then have "a' \<noteq> a" using T(2) Tk k' by (metis domI inj_on_def)
    then show ?thesis using False k' T(5) by simp
  qed (use Tk k' T(5) assms(4) in simp)
  then have "keys_inv K t' (es(a \<mapsto> e)) n bs (M(k \<mapsto> vh))"
    unfolding keys_inv_def using T(2-4) t'(2) \<open>k \<in> dom T\<close> unfolding same
    by (intro conjI exI [of _ T]) auto
  then show ?thesis using t'(1) by blast
qed

lemma keys_del:
  assumes "keys_inv K t es n bs M"
  shows "\<exists>t' a. table_remove t k = Some (t', a) \<and> (a = 0 \<longleftrightarrow> M k = None)
    \<and> (a \<noteq> 0 \<longrightarrow> (\<exists>e. es a = Some e \<and> entry_val bs e (the (M k))))
    \<and> keys_inv K t' es n bs (M(k := None)) \<and> keys_inv K t' (es(a := None)) n bs (M(k := None))"
proof -
  obtain T where T: "tab_ok K t T" "inj_on T (dom T)" "dom T = dom M" "0 < n"
    "\<forall>k a. T k = Some a \<longrightarrow> a < n \<and> (\<exists>e. es a = Some e \<and> entry_val bs e (the (M k)))"
    using assms(1) by (rule keys_cases)
  let ?a = "case T k of None \<Rightarrow> 0 | Some a \<Rightarrow> a"
  obtain t' where t': "table_remove t k = Some (t', ?a)" "tab_ok K t' (T(k := None))"
    using tab_remove [OF T(1), of k] by blast
  have "T k = None \<longleftrightarrow> M k = None" using T(3) by (metis domIff)
  then have z: "?a = 0 \<longleftrightarrow> M k = None" using tab_dom(2) [OF T(1), of k] by (auto split: option.splits)
  have inj: "inj_on (T(k := None)) (dom (T(k := None)))" using T(2) by (auto simp: inj_on_def dom_def)
  have d: "dom (T(k := None)) = dom (M(k := None))" using T(3) by simp
  have ne: "a' \<noteq> ?a" if "T k' = Some a'" "k' \<noteq> k" for k' a'
    using that T(2) tab_dom(2) [OF T(1) that(1)] by (auto simp: inj_on_def dom_def split: option.splits)
  have "keys_inv K t' es n bs (M(k := None))"
    unfolding keys_inv_def using T(4,5) t'(2) inj d by (intro conjI exI [of _ "T(k := None)"]) auto
  moreover have "keys_inv K t' (es(?a := None)) n bs (M(k := None))"
    unfolding keys_inv_def using T(4,5) t'(2) inj d ne by (intro conjI exI [of _ "T(k := None)"]) auto
  moreover have "?a \<noteq> 0 \<longrightarrow> (\<exists>e. es ?a = Some e \<and> entry_val bs e (the (M k)))"
    using T(5) by (auto split: option.split)
  ultimately show ?thesis using t'(1) z by (intro exI [of _ t'] exI [of _ ?a] conjI)
qed

lemma keys_del_get:
  assumes "keys_inv K t es n bs M" "table_remove t k = Some (t', a')" "table_get t k = Some a"
  shows "a' = a"
proof -
  obtain T where "tab_ok K t T" using assms(1) by (rule keys_cases)
  then show ?thesis using tab_remove [of K t T k] tab_get [of K t T k] assms(2,3) by simp
qed

lemma keys_clear:
  assumes "tab_ok K t T" "0 < n"
  shows "\<exists>t' es'. ILibHashtable_ClearEx t f u = Some (t', es') \<and> keys_inv K t' es'' n bs Map.empty"
  using tab_clear [OF assms(1), of f u] assms(2) unfolding keys_inv_def by fastforce

end
