(* ===== verification/DataStoreOps.thy ===== *)
theory DataStoreOps
  imports DataStoreMap
begin

text \<open>
  The operations of the data store on plain (not compressed) values: \<open>PutEx2\<close>, \<open>GetEx\<close> and
  \<open>DeleteEx\<close> refine a map, and the file always is the log of the records written.
\<close>

section \<open>The log\<close>

fun apply_rec :: "srec \<Rightarrow> (byte list \<rightharpoonup> byte list \<times> byte list) \<Rightarrow> (byte list \<rightharpoonup> byte list \<times> byte list)" where
  "apply_rec (k, v, h) M = (if v = [] then M(k := None) else M(k \<mapsto> (v, h)))"

definition log_map :: "srec list \<Rightarrow> (byte list \<rightharpoonup> byte list \<times> byte list)" where
  "log_map recs = fold apply_rec recs Map.empty"

definition file_of :: "srec list \<Rightarrow> byte list" where
  "file_of recs = concat (map enc recs)"

lemma log_simps [simp]:
  "log_map [] = Map.empty" "log_map (recs @ [r]) = apply_rec r (log_map recs)"
  "file_of [] = []" "file_of (a @ b) = file_of a @ file_of b" "file_of (r # recs) = enc r @ file_of recs"
  by (simp_all add: log_map_def file_of_def)

lemma log_map_in: "log_map recs k = Some (v, h) \<Longrightarrow> v \<noteq> [] \<and> (k, v, h) \<in> set recs"
proof (induction recs rule: rev_induct)
  case (snoc r recs)
  then show ?case by (cases r) (auto split: if_splits)
qed simp

definition sds_ok :: "(byte list \<Rightarrow> byte list) \<Rightarrow> byte list set \<Rightarrow> nat \<Rightarrow> ILibSimpleDataStore_Root \<Rightarrow> srec list \<Rightarrow> bool" where
  "sds_ok sha K N r recs \<longleftrightarrow>
     (\<exists>f. dataFile r = Some f \<and> writable f \<and> length (bytes f) \<le> N \<and> room f = N \<and> N < SIZE_MOD \<and> bytes f = file_of recs
       \<and> pending f = [])
     \<and> (\<forall>e \<in> set recs. rec_ok sha e \<and> fst e \<in> K)
     \<and> keys_inv K (keyTable r) (entries r) (next_free r) (file_of recs) (log_map recs)
     \<and> cacheTable r = None \<and> filePath r \<and> minimumDirtySize r = 0"

lemma sds_cases:
  assumes "sds_ok sha K N r recs"
  obtains f where "dataFile r = Some f" "writable f" "length (bytes f) \<le> N" "room f = N" "N < SIZE_MOD" "bytes f = file_of recs"
    "\<forall>e \<in> set recs. rec_ok sha e \<and> fst e \<in> K"
    "keys_inv K (keyTable r) (entries r) (next_free r) (file_of recs) (log_map recs)"
    "cacheTable r = None \<and> filePath r \<and> minimumDirtySize r = 0" "pending f = []"
  using assms unfolding sds_ok_def by blast

text \<open>The file and the table of a store that may also have values in memory.\<close>

definition sds_core :: "(byte list \<Rightarrow> byte list) \<Rightarrow> byte list set \<Rightarrow> nat \<Rightarrow> ILibSimpleDataStore_Root \<Rightarrow> srec list \<Rightarrow> bool" where
  "sds_core sha K N r recs \<longleftrightarrow>
     (\<exists>f. dataFile r = Some f \<and> writable f \<and> length (bytes f) \<le> N \<and> room f = N \<and> N < SIZE_MOD \<and> bytes f = file_of recs
       \<and> pending f = [])
     \<and> (\<forall>e \<in> set recs. rec_ok sha e \<and> fst e \<in> K)
     \<and> keys_inv K (keyTable r) (entries r) (next_free r) (file_of recs) (log_map recs)"

lemma sds_ok_core:
  "sds_ok sha K N r recs \<longleftrightarrow> sds_core sha K N r recs \<and> cacheTable r = None \<and> filePath r \<and> minimumDirtySize r = 0"
  by (simp add: sds_ok_def sds_core_def)

lemma core_cases:
  assumes "sds_core sha K N r recs"
  obtains f where "dataFile r = Some f" "writable f" "length (bytes f) \<le> N" "room f = N" "N < SIZE_MOD" "bytes f = file_of recs"
    "\<forall>e \<in> set recs. rec_ok sha e \<and> fst e \<in> K"
    "keys_inv K (keyTable r) (entries r) (next_free r) (file_of recs) (log_map recs)" "pending f = []"
  using assms unfolding sds_core_def by blast

text \<open>Keys of plain values: trimmed, not marked as compressed, and of a length the loader accepts.\<close>

definition plain_keys :: "byte list set \<Rightarrow> bool" where
  "plain_keys K \<longleftrightarrow> (\<forall>k \<in> K. k \<noteq> [] \<and> length k \<le> 4028 \<and> trim_key k = k \<and> \<not> crc_marked k)"

lemma length_write32 [simp]: "length (write32 w) = 4"
  by (simp add: write32_def)

lemma compressed_marked: "\<exists>ck. compressed_key k = Some ck \<and> (k \<noteq> [] \<longrightarrow> crc_marked ck)"
  by (auto simp: compressed_key_def crc32c_ref crc_marked_def)

lemma slice_end: "slice (bs @ record_header n m (Some h) @ k @ v) (length bs + 60 + length k) (length v) = v"
  if "length h = 48"
  using slice_append2 [of "bs @ record_header n m (Some h) @ k" "length bs + 60 + length k" v "[]"] that
  by (simp add: length_record_header)

lemma new_entry_val:
  assumes "rec_ok sha (k, v, h)"
  shows "entry_val (bs @ enc (k, v, h))
    \<lparr>te_valueLength = int (length v), valueHash = h, valueOffset = length bs + 60 + length k\<rparr> (v, h)"
proof -
  have "length h = 48" using assms by (simp add: rec_ok_def)
  then show ?thesis using slice_end [of h bs "length k" "length v" k v]
    by (simp add: entry_val_def enc_def length_record_header)
qed

section \<open>Put\<close>

definition put_log :: "srec list \<Rightarrow> srec \<Rightarrow> srec list" where
  "put_log recs r = (case log_map recs (fst r) of
     Some (v, h) \<Rightarrow> if h = snd (snd r) then recs else recs @ [r] | None \<Rightarrow> recs @ [r])"

lemma put_log_map:
  assumes "v \<noteq> []" "\<forall>v'. log_map recs k = Some (v', h) \<longrightarrow> v' = v"
  shows "log_map (put_log recs (k, v, h)) = (log_map recs)(k \<mapsto> (v, h))"
  using assms by (auto simp: put_log_def fun_upd_idem split: option.splits prod.splits)

lemma Put_core:
  assumes s: "sds_core sha K N r recs" and k: "trim_key ok = k" "k \<in> K" and v: "v \<noteq> []"
    and ok: "rec_ok sha (k, v, sha v)" and len: "length ok \<le> INT32_MAX"
    and room: "length (file_of recs) + 60 + length k + length v \<le> N"
  shows "\<exists>r'. ILibSimpleDataStore_PutEx2 sha env r ok v None = Some (r', 0) \<and> sds_core sha K N r' (put_log recs (k, v, sha v))
    \<and> cacheTable r' = cacheTable r \<and> filePath r' = filePath r \<and> minimumDirtySize r' = minimumDirtySize r"
proof -
  obtain f where f: "dataFile r = Some f" "writable f" "length (bytes f) \<le> N" "room f = N" "N < SIZE_MOD" "bytes f = file_of recs"
    "\<forall>e \<in> set recs. rec_ok sha e \<and> fst e \<in> K"
    "keys_inv K (keyTable r) (entries r) (next_free r) (file_of recs) (log_map recs)"
    "pending f = []"
    using s by (rule core_cases)
  have lv: "\<not> length v > INT32_MAX" "\<not> length ok > INT32_MAX" using ok len by (auto simp: rec_ok_def INT32_MAX_def)
  let ?e = "enc (k, v, sha v)"
  let ?f = "f\<lparr>bytes := bytes f @ ?e, fpos := length (bytes f) + length ?e\<rparr>"
  let ?te = "\<lparr>te_valueLength = int (length v), valueHash = sha v, valueOffset = length (bytes f) + 60 + length k\<rparr>"
  have w: "ILibSimpleDataStore_WriteRecord f k (Some v) (length v) (Some (sha v)) = (?f, length (bytes f) + 60 + length k)"
    using room length_enc [OF ok] f(4,6) by (intro WriteRecord_enc [OF f(2,9) ok]) simp
  have val: "entry_val (file_of recs @ ?e) ?te (v, sha v)" using new_entry_val [OF ok, of "file_of recs"] f(6) by simp
  note grown = keys_grow [OF f(8), of ?e]
  note def = ILibSimpleDataStore_PutEx2_def put_key_def new_entry_def
  have fits: "length (bytes ?f) \<le> N" using room length_enc [OF ok] f(6) by simp
  show ?thesis
  proof (cases "log_map recs k")
    case None
    have g: "table_get (keyTable r) k = Some 0" by (rule keys_lookup(1) [OF f(8) None])
    obtain t' where t': "table_put (keyTable r) k (next_free r) = Some t'"
      "keys_inv K t' ((entries r)(next_free r \<mapsto> ?te)) (next_free r + 1) (file_of recs @ ?e) ((log_map recs)(k \<mapsto> (v, sha v)))"
      using keys_new [OF grown None k(2) val] by blast
    obtain r' where put: "ILibSimpleDataStore_PutEx2 sha env r ok v None = Some (r', 0)" "dataFile r' = Some ?f" "keyTable r' = t'"
        "entries r' = (entries r)(next_free r \<mapsto> ?te)" "next_free r' = next_free r + 1" "cacheTable r' = cacheTable r"
          "filePath r' = filePath r" "minimumDirtySize r' = minimumDirtySize r"
      using g w t'(1) lv f(1) k(1) by (atomize_elim) (simp add: def Let_def)
    have "put_log recs (k, v, sha v) = recs @ [(k, v, sha v)]" using None by (simp add: put_log_def)
    then show ?thesis using put t'(2) f fits ok k v by (auto simp: sds_core_def)
  next
    case (Some vh)
    obtain v' h' where vh: "vh = (v', h')" by (cases vh)
    obtain a e where a: "table_get (keyTable r) k = Some a" "a \<noteq> 0" "entries r a = Some e" "entry_val (file_of recs) e (v', h')"
      using keys_lookup(2) [OF f(8) Some] vh by blast
    have h: "valueHash e = h'" using a(4) by (simp add: entry_val_def)
    show ?thesis
    proof (cases "h' = sha v")
      case True
      have "ILibSimpleDataStore_PutEx2 sha env r ok v None = Some (r, 0)"
        using a(1-3) h True lv f(1) k(1) by (simp add: def Let_def)
      moreover have "put_log recs (k, v, sha v) = recs" using Some vh True by (simp add: put_log_def)
      ultimately show ?thesis using s by auto
    next
      case False
      obtain t' where t': "table_put (keyTable r) k a = Some t'"
        "keys_inv K t' ((entries r)(a \<mapsto> ?te)) (next_free r) (file_of recs @ ?e) ((log_map recs)(k \<mapsto> (v, sha v)))"
        using keys_set [OF grown _ a(1) val] Some by blast
      obtain r' where put: "ILibSimpleDataStore_PutEx2 sha env r ok v None = Some (r', 0)" "dataFile r' = Some ?f" "keyTable r' = t'"
          "entries r' = (entries r)(a \<mapsto> ?te)" "next_free r' = next_free r" "cacheTable r' = cacheTable r"
          "filePath r' = filePath r" "minimumDirtySize r' = minimumDirtySize r"
        using a(1-3) h False w t'(1) lv f(1) k(1) by (atomize_elim) (simp add: def Let_def)
      have "put_log recs (k, v, sha v) = recs @ [(k, v, sha v)]" using Some vh False by (simp add: put_log_def)
      then show ?thesis using put t'(2) f fits ok k v by (auto simp: sds_core_def)
    qed
  qed
qed

lemma Put_sds:
  assumes "sds_ok sha K N r recs" "trim_key ok = k" "k \<in> K" "v \<noteq> []" "rec_ok sha (k, v, sha v)" "length ok \<le> INT32_MAX"
    and "length (file_of recs) + 60 + length k + length v \<le> N"
  shows "\<exists>r'. ILibSimpleDataStore_PutEx2 sha env r ok v None = Some (r', 0) \<and> sds_ok sha K N r' (put_log recs (k, v, sha v))"
  using assms(1) Put_core [OF _ assms(2-7), of r env] by (auto simp: sds_ok_core)

section \<open>Delete\<close>

lemma no_compressed_entry:
  assumes "keys_inv K t es n bs M" "plain_keys K" "k \<noteq> []"
  obtains ck where "compressed_key k = Some ck" "M ck = None"
proof -
  obtain ck where ck: "compressed_key k = Some ck" "crc_marked ck" using compressed_marked [of k] assms(3) by blast
  have "M ck = None" using keys_dom [OF assms(1), of ck] assms(2) ck(2) unfolding plain_keys_def by (metis option.exhaust)
  then show thesis using that ck(1) by blast
qed

lemma rec_ok_tomb: "rec_ok sha (k, v, h) \<Longrightarrow> rec_ok sha (k, [], replicate 48 0)"
  by (simp add: rec_ok_def)

lemma Delete_present:
  assumes s: "sds_ok sha K N r recs" and k: "log_map recs k = Some vh"
    and room: "length (file_of recs) + 60 + length k \<le> N"
  shows "\<exists>r'. ILibSimpleDataStore_DeleteEx r k = Some (r', 1) \<and> sds_ok sha K N r' (recs @ [(k, [], replicate 48 0)])"
proof -
  obtain f where f: "dataFile r = Some f" "writable f" "length (bytes f) \<le> N" "room f = N" "N < SIZE_MOD" "bytes f = file_of recs"
    "\<forall>e \<in> set recs. rec_ok sha e \<and> fst e \<in> K"
    "keys_inv K (keyTable r) (entries r) (next_free r) (file_of recs) (log_map recs)"
    "cacheTable r = None \<and> filePath r \<and> minimumDirtySize r = 0" "pending f = []"
    using s by (rule sds_cases)
  obtain v h where "(k, v, h) \<in> set recs" using log_map_in k by (cases vh) blast
  with f(7) have ok: "rec_ok sha (k, [], replicate 48 0)" "k \<in> K" "\<not> length k > INT32_MAX"
    using rec_ok_tomb by (force simp: rec_ok_def INT32_MAX_def)+
  let ?e = "enc (k, [], replicate 48 0)"
  let ?f = "f\<lparr>bytes := bytes f @ ?e, fpos := length (bytes f) + 60 + length k\<rparr>"
  have w: "ILibSimpleDataStore_WriteRecord f k None 0 None = (?f, length (bytes f) + 60 + length k)"
    using room f(4,6) by (intro WriteRecord_tomb [OF f(2,10)]) simp
  obtain t' a where t': "table_remove (keyTable r) k = Some (t', a)" "a \<noteq> 0"
    "keys_inv K t' ((entries r)(a := None)) (next_free r) (file_of recs @ ?e) ((log_map recs)(k := None))"
    using keys_del [OF f(8), of k] k keys_grow by (metis option.distinct(1))
  obtain r' where "ILibSimpleDataStore_DeleteEx r k = Some (r', 1)" "dataFile r' = Some ?f" "keyTable r' = t'"
      "entries r' = (entries r)(a := None)" "next_free r' = next_free r" "cacheTable r' = cacheTable r"
          "filePath r' = filePath r" "minimumDirtySize r' = minimumDirtySize r"
    using t'(1,2) w f(1) ok(3) by atomize_elim (simp add: ILibSimpleDataStore_DeleteEx_def report_error_def Let_def)
  then show ?thesis using t'(3) f room length_enc [OF ok(1)] ok by (auto simp: sds_ok_def)
qed

lemma Delete_absent:
  assumes s: "sds_ok sha K N r recs" and k: "log_map recs k = None" "plain_keys K" "k \<noteq> []" "length k \<le> INT32_MAX"
  shows "\<exists>r'. ILibSimpleDataStore_DeleteEx r k = Some (r', 0) \<and> sds_ok sha K N r' recs"
proof -
  obtain f where f: "dataFile r = Some f" "writable f" "length (bytes f) \<le> N" "room f = N" "N < SIZE_MOD" "bytes f = file_of recs"
    "\<forall>e \<in> set recs. rec_ok sha e \<and> fst e \<in> K"
    "keys_inv K (keyTable r) (entries r) (next_free r) (file_of recs) (log_map recs)"
    "cacheTable r = None \<and> filePath r \<and> minimumDirtySize r = 0" "pending f = []"
    using s by (rule sds_cases)
  obtain ck where ck: "compressed_key k = Some ck" "log_map recs ck = None"
    using no_compressed_entry [OF f(8) k(2,3)] by blast
  obtain t1 where t1: "table_remove (keyTable r) k = Some (t1, 0)"
    "keys_inv K t1 (entries r) (next_free r) (file_of recs) (log_map recs)"
    using keys_del [OF f(8), of k] k(1) by (metis fun_upd_triv)
  obtain t2 where t2: "table_remove t1 ck = Some (t2, 0)"
    "keys_inv K t2 (entries r) (next_free r) (file_of recs) (log_map recs)"
    using keys_del [OF t1(2), of ck] ck(2) by (metis fun_upd_triv)
  have "ILibSimpleDataStore_DeleteEx r k = Some (r\<lparr>keyTable := t2\<rparr>, 0)"
    using t1(1) t2(1) ck(1) k(4) by (simp add: ILibSimpleDataStore_DeleteEx_def Let_def)
  then show ?thesis using f t2(2) by (auto simp: sds_ok_def)
qed

section \<open>Get\<close>

text \<open>What reading needs: the entries locate the values in the file, and the cache has no answer.\<close>

definition sds_view :: "(byte list \<Rightarrow> byte list) \<Rightarrow> byte list set \<Rightarrow> ILibSimpleDataStore_Root \<Rightarrow> srec list \<Rightarrow> bool" where
  "sds_view sha K r recs \<longleftrightarrow> (\<exists>f. dataFile r = Some f \<and> bytes f = file_of recs \<and> pending f = [])
     \<and> (\<forall>e \<in> set recs. rec_ok sha e \<and> fst e \<in> K)
     \<and> keys_inv K (keyTable r) (entries r) (next_free r) (file_of recs) (log_map recs)"

lemma sds_view: "sds_ok sha K N r recs \<Longrightarrow> sds_view sha K r recs"
  by (auto simp: sds_ok_def sds_view_def)

lemma get_cached_None: "cacheTable r = None \<Longrightarrow> get_cached z r k buf n = Some None"
  by (simp add: get_cached_def)

lemma Get_present:
  assumes s: "sds_view sha K r recs" and c: "get_cached z r k (Some buf) (length buf) = Some None"
    and k: "trim_key ok = k" "length ok \<le> INT32_MAX" "log_map recs k = Some (v, h)"
    and plain: "plain_keys K" and buf: "length buf \<le> INT32_MAX"
  shows "\<exists>r' b. ILibSimpleDataStore_GetEx sha z r ok (Some buf) (length buf)
      = Some (r', if length v \<le> length buf then int (length v) else if buf = [] then int (length v) else 0, Some b)
    \<and> (length v \<le> length buf \<longrightarrow> b = v @ (if length v < length buf then 0 # drop (length v + 1) buf else []))"
proof -
  obtain f where f: "dataFile r = Some f" "bytes f = file_of recs" "\<forall>e \<in> set recs. rec_ok sha e \<and> fst e \<in> K"
    "keys_inv K (keyTable r) (entries r) (next_free r) (file_of recs) (log_map recs)" "pending f = []"
    using s by (auto simp: sds_view_def)
  have "v \<noteq> []" "(k, v, h) \<in> set recs" using log_map_in [OF k(3)] by auto
  with f(3) plain have v: "v \<noteq> []" "sha v = h" by (fastforce simp: rec_ok_def plain_keys_def)+
  obtain a e where a: "table_get (keyTable r) k = Some a" "a \<noteq> 0" "entries r a = Some e" "entry_val (file_of recs) e (v, h)"
    using keys_lookup(2) [OF f(4) k(3)] by blast
  have e: "te_valueLength e = int (length v)" "valueHash e = h" "slice (bytes f) (valueOffset e) (length v) = v"
    using a(4) f(2) by (auto simp: entry_val_def)
  have fe: "find_entry (keyTable r) k = Some (a, False)" using a by (simp add: find_entry_def)
  let ?f = "f\<lparr>fpos := valueOffset e + length v\<rparr>"
  have rd: "fread (length v) (fseek_set (valueOffset e) f) = (?f, v)"
    unfolding fread_slice fseek_idle(1) [OF f(5)] using e(3) by simp
  note def = ILibSimpleDataStore_GetEx_def k(1) Let_def
  show ?thesis
  proof (cases "length v \<le> length buf")
    case True
    let ?b = "overwrite buf 0 v"
    have b: "take (length v) ?b = v" "length ?b = length buf" using True by (simp_all add: overwrite_def)
    have co: "copy_out (Some buf) (length v) v = Some (Some ?b)" using True by (simp add: copy_out_def)
    let ?b' = "if length v < length buf then ?b[length v := 0] else ?b"
    have "ILibSimpleDataStore_GetEx sha z r ok (Some buf) (length buf) = Some (r\<lparr>dataFile := Some ?f\<rparr>, int (length v), Some ?b')"
      using True c fe a(2,3) e rd co b v k(2) buf f(1) by (simp add: def)
    moreover have "?b' = v @ (if length v < length buf then 0 # drop (length v + 1) buf else [])"
    proof (cases "length v < length buf")
      case lt: True
      then obtain x xs where "drop (length v) buf = x # xs" by (metis Cons_nth_drop_Suc)
      moreover from this have "drop (length v + 1) buf = xs" by (metis Suc_eq_plus1 drop_Suc drop_tl list.sel(3))
      ultimately show ?thesis using lt by (simp add: overwrite_def list_update_append)
    qed (use True in \<open>simp add: overwrite_def\<close>)
    ultimately show ?thesis using True by (intro exI [of _ "r\<lparr>dataFile := Some ?f\<rparr>"] exI [of _ ?b']) simp
  next
    case False
    have "ILibSimpleDataStore_GetEx sha z r ok (Some buf) (length buf)
        = Some (r, if buf = [] then int (length v) else 0, Some buf)"
      using False c fe a(2,3) e k(2) buf v by (simp add: def)
    then show ?thesis using False by auto
  qed
qed

lemma Get_absent:
  assumes s: "sds_view sha K r recs" and c: "get_cached z r k buf n = Some None" and k: "trim_key ok = k" "length ok \<le> INT32_MAX" "log_map recs k = None" "k \<noteq> []"
    and plain: "plain_keys K" and buf: "n \<le> INT32_MAX"
  shows "ILibSimpleDataStore_GetEx sha z r ok buf n = Some (r, 0, buf)"
proof -
  have f: "keys_inv K (keyTable r) (entries r) (next_free r) (file_of recs) (log_map recs)"
    using s by (auto simp: sds_view_def)
  obtain ck where ck: "compressed_key k = Some ck" "log_map recs ck = None"
    using no_compressed_entry [OF f plain k(4)] by blast
  have "find_entry (keyTable r) k = Some (0, True)"
    using keys_lookup(1) [OF f k(3)] keys_lookup(1) [OF f ck(2)] ck(1) by (simp add: find_entry_def)
  then show ?thesis using c k(1,2) buf by (simp add: ILibSimpleDataStore_GetEx_def Let_def)
qed


text \<open>Reading never fails: without a value for the compressed form of the key, there is an answer, whatever the size of the buffer.\<close>

lemma Get_total:
  assumes s: "sds_core sha K N r recs" and c: "get_cached z r k buf n = Some None" and k: "trim_key k = k" "length k \<le> INT32_MAX" "n \<le> INT32_MAX"
    and ck: "\<And>ck. compressed_key k = Some ck \<Longrightarrow> log_map recs ck = None" and buf: "\<And>b. buf = Some b \<Longrightarrow> length b = n"
  shows "\<exists>r' m b'. ILibSimpleDataStore_GetEx sha z r k buf n = Some (r', m, b') \<and> (b' = None \<longleftrightarrow> buf = None) \<and> sds_core sha K N r' recs
    \<and> cacheTable r' = cacheTable r"
proof -
  obtain f where f: "dataFile r = Some f" "writable f" "length (bytes f) \<le> N" "room f = N" "N < SIZE_MOD" "bytes f = file_of recs"
    "\<forall>e \<in> set recs. rec_ok sha e \<and> fst e \<in> K"
    "keys_inv K (keyTable r) (entries r) (next_free r) (file_of recs) (log_map recs)" "pending f = []"
    using s by (rule core_cases)
  note def = ILibSimpleDataStore_GetEx_def k(1) Let_def
  show ?thesis
  proof (cases "log_map recs k")
    case None
    obtain ck where "compressed_key k = Some ck" using compressed_marked by blast
    then have "find_entry (keyTable r) k = Some (0, True)"
      using keys_lookup(1) [OF f(8) None] keys_lookup(1) [OF f(8) ck] by (simp add: find_entry_def)
    then show ?thesis using c k s by (simp add: def)
  next
    case (Some vh)
    obtain v h where vh: "vh = (v, h)" by (cases vh)
    have v: "v \<noteq> []" using log_map_in Some vh by blast
    obtain a e where a: "table_get (keyTable r) k = Some a" "a \<noteq> 0" "entries r a = Some e" "entry_val (file_of recs) e (v, h)"
      using keys_lookup(2) [OF f(8) Some] vh by blast
    have e: "te_valueLength e = int (length v)" "slice (bytes f) (valueOffset e) (length v) = v" using a(4) f(6) by (auto simp: entry_val_def)
    have fe: "find_entry (keyTable r) k = Some (a, False)" using a by (simp add: find_entry_def)
    let ?f = "f\<lparr>fpos := valueOffset e + length v\<rparr>"
    have rd: "fread (length v) (fseek_set (valueOffset e) f) = (?f, v)"
      unfolding fread_slice fseek_idle(1) [OF f(9)] using e(2) by simp
    show ?thesis
    proof (cases "buf = None \<or> \<not> length v \<le> n")
      case True
      then show ?thesis using c fe a(2,3) e(1) k s by (auto simp: def)
    next
      case False
      then obtain b where b: "buf = Some b" "length b = n" "length v \<le> n" using buf by auto
      have co: "copy_out (Some b) (length v) v = Some (Some (overwrite b 0 v))" "length (overwrite b 0 v) = n"
        using b by (simp_all add: copy_out_def overwrite_def)
      have "\<exists>m b'. ILibSimpleDataStore_GetEx sha z r k buf n = Some (r\<lparr>dataFile := Some ?f\<rparr>, m, Some b')"
        using c a(2) v b(3) k f(1) by (auto simp: def fe a(3) e(1) rd b(1) co)
      moreover have "sds_core sha K N (r\<lparr>dataFile := Some ?f\<rparr>) recs" using f by (simp add: sds_core_def)
      ultimately show ?thesis using b(1) by auto
    qed
  qed
qed

section \<open>Sequences of operations\<close>

definition sput :: "(byte list \<Rightarrow> byte list) \<Rightarrow> fs_env \<Rightarrow> byte list \<Rightarrow> byte list \<Rightarrow> ILibSimpleDataStore_Root \<Rightarrow> ILibSimpleDataStore_Root option" where
  "sput sha env k v r = map_option fst (ILibSimpleDataStore_PutEx2 sha env r k v None)"

definition sdel :: "byte list \<Rightarrow> ILibSimpleDataStore_Root \<Rightarrow> ILibSimpleDataStore_Root option" where
  "sdel k r = map_option fst (ILibSimpleDataStore_DeleteEx r k)"

fun op_size :: "byte list \<times> byte list + byte list \<Rightarrow> nat" where
  "op_size (Inl (k, v)) = 60 + length k + length v"
| "op_size (Inr k) = 60 + length k"

definition op_ok :: "byte list set \<Rightarrow> byte list set \<Rightarrow> byte list \<times> byte list + byte list \<Rightarrow> bool" where
  "op_ok K V c \<longleftrightarrow> (case c of
     Inl (k, v) \<Rightarrow> k \<in> K \<and> v \<in> V \<and> v \<noteq> [] \<and> 60 + length k + length v < 2 ^ 31 | Inr k \<Rightarrow> k \<in> K)"

text \<open>The values of the log are of \<open>V\<close>, so that the hash tells them apart.\<close>

definition vals_in :: "(byte list \<Rightarrow> byte list) \<Rightarrow> byte list set \<Rightarrow> srec list \<Rightarrow> bool" where
  "vals_in sha V recs \<longleftrightarrow> (\<forall>k v h. log_map recs k = Some (v, h) \<longrightarrow> v \<in> V \<and> h = sha v)"

lemma run_sds:
  assumes plain: "plain_keys K" and sha: "\<forall>v. length (sha v) = 48" "inj_on sha V"
  shows "\<forall>c \<in> set cs. op_ok K V c \<Longrightarrow> sds_ok sha K N r recs \<Longrightarrow> vals_in sha V recs \<Longrightarrow>
    length (file_of recs) + sum_list (map op_size cs) \<le> N \<Longrightarrow>
    \<exists>r' recs'. run_ops (sput sha env) sdel cs r = Some r' \<and> sds_ok sha K N r' recs' \<and> vals_in sha V recs'
      \<and> length (file_of recs') \<le> length (file_of recs) + sum_list (map op_size cs)
      \<and> (\<lambda>k. map_option fst (log_map recs' k)) = run_map (\<lambda>k. k) cs (\<lambda>k. map_option fst (log_map recs k))"
proof (induction cs arbitrary: r recs)
  case Nil
  then show ?case by auto
next
  case (Cons c cs)
  show ?case
  proof (cases c)
    case (Inl kv)
    obtain k v where kv: "kv = (k, v)" by (cases kv)
    have c: "k \<in> K" "v \<in> V" "v \<noteq> []" "60 + length k + length v < 2 ^ 31"
      using Cons.prems(1) by (auto simp: Inl kv op_ok_def)
    have k: "trim_key k = k" "length k \<le> 4028" "length k \<le> INT32_MAX" using c(1) plain by (auto simp: plain_keys_def INT32_MAX_def)
    have ok: "rec_ok sha (k, v, sha v)" using sha(1) k(2) c(4) by (simp add: rec_ok_def)
    let ?recs = "put_log recs (k, v, sha v)"
    obtain r1 where r1: "ILibSimpleDataStore_PutEx2 sha env r k v None = Some (r1, 0)" "sds_ok sha K N r1 ?recs"
      using Put_sds [OF Cons.prems(2) k(1) c(1,3) ok k(3)] Cons.prems(4) by (auto simp: Inl kv)
    have "\<forall>v'. log_map recs k = Some (v', sha v) \<longrightarrow> v' = v"
      using Cons.prems(3) c(2) sha(2) unfolding vals_in_def by (metis inj_onD)
    then have m: "log_map ?recs = (log_map recs)(k \<mapsto> (v, sha v))" by (rule put_log_map [OF c(3)])
    have vals: "vals_in sha V ?recs" using Cons.prems(3) c(2) by (simp add: vals_in_def m)
    have "length (file_of ?recs) \<le> length (file_of recs) + (60 + length k + length v)"
      using length_enc [OF ok] by (auto simp: put_log_def split: option.split)
    then have l: "length (file_of ?recs) + sum_list (map op_size cs) \<le> length (file_of recs) + sum_list (map op_size (c # cs))"
      by (simp add: Inl kv)
    then have "length (file_of ?recs) + sum_list (map op_size cs) \<le> N" using Cons.prems(4) by linarith
    from Cons.IH [OF _ r1(2) vals this] Cons.prems(1) obtain r' recs' where
      "run_ops (sput sha env) sdel cs r1 = Some r'" "sds_ok sha K N r' recs'" "vals_in sha V recs'"
      and l': "length (file_of recs') \<le> length (file_of ?recs) + sum_list (map op_size cs)" and
      "(\<lambda>k. map_option fst (log_map recs' k)) = run_map (\<lambda>k. k) cs (\<lambda>k. map_option fst (log_map ?recs k))" by auto
    moreover have "(\<lambda>k'. map_option fst (log_map ?recs k')) = (\<lambda>k'. map_option fst (log_map recs k'))(k \<mapsto> v)"
      by (simp add: m fun_eq_iff)
    moreover have "sput sha env k v r = Some r1" using r1(1) by (simp add: sput_def)
    moreover have "length (file_of recs') \<le> length (file_of recs) + sum_list (map op_size (c # cs))" using l l' by linarith
    ultimately show ?thesis unfolding Inl kv by (intro exI [of _ r'] exI [of _ recs']) simp
  next
    case (Inr k)
    have c: "k \<in> K" using Cons.prems(1) by (auto simp: Inr op_ok_def)
    have k: "k \<noteq> []" "length k \<le> INT32_MAX" using c plain by (auto simp: plain_keys_def INT32_MAX_def)
    obtain r1 n recs1 where r1: "ILibSimpleDataStore_DeleteEx r k = Some (r1, n)" "sds_ok sha K N r1 recs1"
      "log_map recs1 = (log_map recs)(k := None)" "length (file_of recs1) \<le> length (file_of recs) + (60 + length k)"
    proof (cases "log_map recs k")
      case None
      with Delete_absent [OF Cons.prems(2) None plain k] show thesis by (auto intro!: that simp: fun_upd_idem)
    next
      case (Some vh)
      have "length (file_of recs) + 60 + length k \<le> N" using Cons.prems(4) by (simp add: Inr)
      from Delete_present [OF Cons.prems(2) Some this] obtain r1 where
        "ILibSimpleDataStore_DeleteEx r k = Some (r1, 1)" "sds_ok sha K N r1 (recs @ [(k, [], replicate 48 0)])" by blast
      then show thesis by (intro that) (auto simp: enc_def length_record_header)
    qed
    have vals: "vals_in sha V recs1" using Cons.prems(3) by (simp add: vals_in_def r1(3))
    have l: "length (file_of recs1) + sum_list (map op_size cs) \<le> length (file_of recs) + sum_list (map op_size (c # cs))"
      using r1(4) by (simp add: Inr)
    then have "length (file_of recs1) + sum_list (map op_size cs) \<le> N" using Cons.prems(4) by linarith
    from Cons.IH [OF _ r1(2) vals this] Cons.prems(1) obtain r' recs' where
      "run_ops (sput sha env) sdel cs r1 = Some r'" "sds_ok sha K N r' recs'" "vals_in sha V recs'"
      and l': "length (file_of recs') \<le> length (file_of recs1) + sum_list (map op_size cs)" and
      "(\<lambda>k. map_option fst (log_map recs' k)) = run_map (\<lambda>k. k) cs (\<lambda>k. map_option fst (log_map recs1 k))" by auto
    moreover have "(\<lambda>k'. map_option fst (log_map recs1 k')) = (\<lambda>k'. map_option fst (log_map recs k'))(k := None)"
      by (simp add: r1(3) fun_eq_iff)
    moreover have "sdel k r = Some r1" using r1(1) by (simp add: sdel_def)
    moreover have "length (file_of recs') \<le> length (file_of recs) + sum_list (map op_size (c # cs))" using l l' by linarith
    ultimately show ?thesis unfolding Inr by (intro exI [of _ r'] exI [of _ recs']) simp
  qed
qed

section \<open>Opening a new file\<close>

definition fresh_file :: "nat \<Rightarrow> FILE" where
  "fresh_file N = \<lparr>bytes = [], fpos = 0, room = N, writable = True, pending = []\<rparr>"

definition good_env :: "nat \<Rightarrow> fs_env" where
  "good_env N = \<lparr>tmp_file = Some (fresh_file N), rename_ok = True, reopen_ok = True\<rparr>"

lemma rebuild_loop_end:
  assumes "ILibSimpleDataStore_ReadNextRecord sha (fileSize r) legacy f = Some (f', None)"
  shows "rebuild_loop sha legacy r f n = Some (r, f', n)"
  using assms by (subst rebuild_loop.simps) simp

lemma keys_empty:
  assumes "inj_on hk_hash ({0} \<times> K)"
  shows "keys_inv K ILibHashtable_Create es 1 bs Map.empty"
  unfolding keys_inv_def using tab_create [OF assms] by (intro conjI exI [of _ Map.empty]) auto

lemma clear_empty:
  assumes "tab_ok K (keyTable r) T"
  obtains t es where "clear_table r = Some (r\<lparr>keyTable := t, entries := es\<rparr>)" "tab_ok K t Map.empty"
  using tab_clear [OF assms, of "Some ILibSimpleDataStore_TableClear_Sink" "entries r"]
  by (auto simp: clear_table_def)

lemma clear_keys:
  assumes "tab_ok K (keyTable r) T" "0 < next_free r"
  obtains t es where "clear_table r = Some (r\<lparr>keyTable := t, entries := es\<rparr>)" "tab_ok K t Map.empty"
    "keys_inv K t es (next_free r) bs Map.empty"
proof -
  obtain t es where "clear_table r = Some (r\<lparr>keyTable := t, entries := es\<rparr>)" "tab_ok K t Map.empty"
    by (rule clear_empty [OF assms(1)])
  then show thesis using assms(2) by (intro that) (auto simp: keys_inv_def)
qed

lemma ReadNext_short:
  assumes "length (bytes f) < fpos f + header_len n" "fpos f \<noteq> fsize" "pending f = []"
  shows "ILibSimpleDataStore_ReadNextRecord sha fsize n f = Some (f, None)"
proof -
  have "0 < header_len n" by (simp add: header_len_def)
  then have "length (bytes f) - fpos f < header_len n" using assms(1) by linarith
  then show ?thesis using assms(2,3) by (simp add: ILibSimpleDataStore_ReadNextRecord_def Let_def fread_def fseek_idle)
qed

text \<open>Compaction of a store without keys writes an empty file.\<close>

lemma Compact_empty:
  assumes "tab_ok K (keyTable r) Map.empty" "dirtySize r = 0" "minimumDirtySize r = 0" "filePath r" "dataFile r = Some f"
  shows "ILibSimpleDataStore_Compact (good_env N) r
    = Some (r\<lparr>store_error := False, dataFile := Some (fresh_file N), fileSize := 0\<rparr>, 0)"
proof -
  obtain es where es: "\<And>k a. (k, a) \<in> set es \<longleftrightarrow> Map.empty k = Some a"
    "\<And>f u. ILibHashtable_Enumerate (keyTable r) (Some f) u = Some (fold (on_key f) es (u :: (ILibSimpleDataStore_Root \<times> FILE) option))"
    by (rule tab_enum [OF assms(1)]) blast
  have "x \<notin> set es" for x using es(1) [of "fst x" "snd x"] by simp
  then have "es = []" by (metis list.set_intros(1) neq_Nil_conv)
  then have "ILibHashtable_Enumerate (keyTable r) (Some g) u = Some u"
    for g and u :: "(ILibSimpleDataStore_Root \<times> FILE) option" using es(2) by simp
  then show ?thesis using assms
    by (simp add: ILibSimpleDataStore_Compact_def good_env_def fseek_set_def fresh_file_def)
qed

lemma rebuild_short:
  assumes "length (bytes f) < fpos f + header_len n" "fpos f \<noteq> fileSize r" "pending f = []"
  shows "rebuild_loop sha n r f c = Some (r, f, c)"
  using ReadNext_short [OF assms] by (rule rebuild_loop_end)

text \<open>Opening an empty file: no format has records, and the compaction writes an empty file.\<close>

lemma Create_empty:
  assumes K: "inj_on hk_hash ({0} \<times> K)" and N: "N < SIZE_MOD"
  shows "\<exists>r. ILibSimpleDataStore_CreateEx2 sha (good_env N) (Some (Some (fresh_file N))) = Some (Some r)
    \<and> sds_ok sha K N r []"
proof -
  let ?f = "fresh_file N"
  have f: "bytes ?f = []" "fpos ?f = 0" "fseek_set 0 ?f = ?f" "pending ?f = []" by (simp_all add: fresh_file_def fseek_set_def)
  let ?r = "empty_root\<lparr>dataFile := Some ?f, filePath := True\<rparr>"
  have t0: "tab_ok K (keyTable ?r) Map.empty" using tab_create [OF K] by (simp add: empty_root_def)
  obtain r1 where r1: "clear_table ?r = Some r1" "tab_ok K (keyTable r1) Map.empty" "\<exists>t es. r1 = ?r\<lparr>keyTable := t, entries := es\<rparr>"
    by (rule clear_empty [OF t0]) auto
  let ?r1 = "r1\<lparr>fileSize := 0\<rparr>"
  obtain r2 where r2: "clear_table ?r1 = Some r2" "tab_ok K (keyTable r2) Map.empty" "\<exists>t es. r2 = ?r1\<lparr>keyTable := t, entries := es\<rparr>"
    by (rule clear_empty [of K ?r1]) (use r1(2) in auto)
  let ?r2 = "r2\<lparr>fileSize := SIZE_MOD - 1\<rparr>"
  obtain r3 where r3: "clear_table ?r2 = Some r3" "tab_ok K (keyTable r3) Map.empty" "\<exists>t es. r3 = ?r2\<lparr>keyTable := t, entries := es\<rparr>"
    by (rule clear_empty [of K ?r2]) (use r2(2) in auto)
  let ?r3 = "r3\<lparr>dataFile := Some ?f, fileSize := 0\<rparr>"
  have eq: "dataFile r1 = Some ?f" "dirtySize r3 = 0" "minimumDirtySize r3 = 0" "filePath r3" "next_free r3 = 1"
    "cacheTable r3 = None" "fileSize r3 = SIZE_MOD - 1"
    using r1(3) r2(3) r3(3) by (auto simp: empty_root_def)
  have l: "rebuild_loop sha 0 ?r1 ?f 0 = Some (?r1, ?f, 0)"
    by (rule rebuild_loop_end) (simp add: ReadNext_end f)
  have l2: "rebuild_loop sha 32 ?r2 ?f 0 = Some (?r2, ?f, 0)" "rebuild_loop sha 64 r3 ?f 0 = Some (r3, ?f, 0)"
    by (rule rebuild_short; simp add: f header_len_def SIZE_MOD_def eq)+
  have "ILibSimpleDataStore_Compact (good_env N) ?r3
      = Some (?r3\<lparr>store_error := False, dataFile := Some ?f, fileSize := 0\<rparr>, 0)"
    using r3(2) eq by (intro Compact_empty [of K]) simp_all
  then have "ILibSimpleDataStore_RebuildKeyTable sha (good_env N) ?r
      = Some (?r3\<lparr>store_error := False, dataFile := Some ?f, fileSize := 0\<rparr>)"
    using r1(1) r2(1) r3(1) l l2 eq(1) f by (simp add: ILibSimpleDataStore_RebuildKeyTable_def Let_def)
  moreover have "sds_ok sha K N (?r3\<lparr>store_error := False, dataFile := Some ?f, fileSize := 0\<rparr>) []"
    using r3(2) eq N unfolding sds_ok_def keys_inv_def by (simp add: fresh_file_def)
  ultimately show ?thesis by (simp add: ILibSimpleDataStore_CreateEx2_def)
qed

end
