(* ===== verification/DataStoreReload.thy ===== *)
theory DataStoreReload
  imports DataStoreOps
begin

text \<open>
  Loading a data store: \<open>ILibSimpleDataStore_RebuildKeyTable\<close> on the log of records restores the
  map the log stands for, and cuts off what follows the last whole record.
\<close>

section \<open>One record\<close>

lemma finite_log_map [simp]: "finite (dom (log_map recs))"
proof (induction recs rule: rev_induct)
  case (snoc e recs)
  then show ?case by (cases e) auto
qed simp

abbreviation live :: "srec list \<Rightarrow> int" where
  "live recs \<equiv> int (card (dom (log_map recs)))"

lemma live_snoc:
  "live (recs @ [(k, v, h)]) = live recs + (if v = [] then (if log_map recs k = None then 0 else - 1)
     else (if log_map recs k = None then 1 else 0))"
proof (cases "log_map recs k")
  case None
  then have "k \<notin> dom (log_map recs)" by auto
  then show ?thesis using None by simp
next
  case (Some vh)
  then have "k \<in> dom (log_map recs)" by auto
  then have "insert k (dom (log_map recs)) = dom (log_map recs)" "0 < card (dom (log_map recs))"
    by (auto simp: card_gt_0_iff)
  then show ?thesis using Some \<open>k \<in> dom (log_map recs)\<close> by (simp add: card_Diff_singleton of_nat_diff)
qed

text \<open>Loading changes the table, the entries and the counters only.\<close>

definition reloaded :: "ILibSimpleDataStore_Root \<Rightarrow> ILibSimpleDataStore_Root \<Rightarrow> bool" where
  "reloaded r r' \<longleftrightarrow> dataFile r' = dataFile r \<and> filePath r' = filePath r \<and> cacheTable r' = cacheTable r
     \<and> cached r' = cached r \<and> fileSize r' = fileSize r \<and> minimumDirtySize r' = minimumDirtySize r
     \<and> warningSize r' = warningSize r \<and> warningSink r' = warningSink r \<and> store_error r' = store_error r
     \<and> ErrorHandler r' = ErrorHandler r \<and> events r' = events r"

lemma reloaded_refl [simp]: "reloaded r r"
  by (simp add: reloaded_def)

lemma reloaded_trans: "reloaded r r' \<Longrightarrow> reloaded r' r'' \<Longrightarrow> reloaded r r''"
  by (simp add: reloaded_def)

lemma rebuild_record_log:
  assumes inv: "keys_inv K (keyTable r) (entries r) (next_free r) (file_of recs) (log_map recs)"
    and e: "rec_ok sha (k, v, h)" "k \<in> K"
  shows "\<exists>r'. rebuild_record 0 (rec_header (k, v, h) (length (file_of recs))) r (live recs)
      = Some (r', live (recs @ [(k, v, h)])) \<and> reloaded r r'
    \<and> keys_inv K (keyTable r') (entries r') (next_free r') (file_of (recs @ [(k, v, h)])) (log_map (recs @ [(k, v, h)]))"
proof -
  let ?e = "enc (k, v, h)" and ?p = "length (file_of recs)"
  let ?te = "\<lparr>te_valueLength = int (length v), valueHash = h, valueOffset = ?p + 60 + length k\<rparr>"
  note grown = keys_grow [OF inv, of ?e]
  have val: "entry_val (file_of recs @ ?e) ?te (v, h)" by (rule new_entry_val [OF e(1)])
  note def = rebuild_record_def rec_header_def new_entry_def reloaded_def Let_def
  show ?thesis
  proof (cases "log_map recs k")
    case None
    have g: "table_get (keyTable r) k = Some 0" by (rule keys_lookup(1) [OF inv None])
    show ?thesis
    proof (cases "v = []")
      case True
      then show ?thesis unfolding live_snoc using g None grown by (simp add: def fun_upd_idem)
    next
      case False
      obtain t' where t': "table_put (keyTable r) k (next_free r) = Some t'"
        "keys_inv K t' ((entries r)(next_free r \<mapsto> ?te)) (next_free r + 1) (file_of recs @ ?e) ((log_map recs)(k \<mapsto> (v, h)))"
        using keys_new [OF grown None e(2) val] by blast
      then show ?thesis unfolding live_snoc using g None False by (simp add: def)
    qed
  next
    case (Some vh)
    obtain a en where a: "table_get (keyTable r) k = Some a" "a \<noteq> 0" "entries r a = Some en"
      using keys_lookup(2) [OF inv Some] by blast
    show ?thesis
    proof (cases "v = []")
      case True
      obtain t' a' where t': "table_remove (keyTable r) k = Some (t', a')"
        "keys_inv K t' ((entries r)(a' := None)) (next_free r) (file_of recs @ ?e) ((log_map recs)(k := None))"
        using keys_del [OF grown, of k] by blast
      have "a' = a" by (rule keys_del_get [OF inv t'(1) a(1)])
      then show ?thesis unfolding live_snoc using t' a True Some by (simp add: def)
    next
      case False
      obtain t' where t': "table_put (keyTable r) k a = Some t'"
        "keys_inv K t' ((entries r)(a \<mapsto> ?te)) (next_free r) (file_of recs @ ?e) ((log_map recs)(k \<mapsto> (v, h)))"
        using keys_set [OF grown _ a(1) val] Some by blast
      then show ?thesis unfolding live_snoc using a False Some by (simp add: def)
    qed
  qed
qed

section \<open>The log\<close>

lemma rebuild_loop_step:
  assumes "ILibSimpleDataStore_ReadNextRecord sha (fileSize r) n f = Some (f', Some node)"
    and "rebuild_record n node r c = Some (r', c')"
  shows "rebuild_loop sha n r f c = rebuild_loop sha n r' f' c'"
  using assms by (subst rebuild_loop.simps) simp

lemma rebuild_log:
  "bytes f = file_of done @ file_of todo @ post \<Longrightarrow> fpos f = length (file_of done) \<Longrightarrow> length (bytes f) < SIZE_MOD \<Longrightarrow>
   fileSize r = length (bytes f) \<Longrightarrow> \<forall>e \<in> set todo. rec_ok sha e \<and> fst e \<in> K \<Longrightarrow>
   keys_inv K (keyTable r) (entries r) (next_free r) (file_of done) (log_map done) \<Longrightarrow>
   \<exists>r'. rebuild_loop sha 0 r f (live done)
       = rebuild_loop sha 0 r' (f\<lparr>fpos := length (file_of (done @ todo))\<rparr>) (live (done @ todo))
     \<and> reloaded r r'
     \<and> keys_inv K (keyTable r') (entries r') (next_free r') (file_of (done @ todo)) (log_map (done @ todo))"
proof (induction todo arbitrary: "done" r f)
  case Nil
  then have f: "f\<lparr>fpos := length (file_of done)\<rparr> = f" by simp
  show ?case using Nil.prems(6) by (intro exI [of _ r]) (simp add: f)
next
  case (Cons e todo)
  obtain k v h where e: "e = (k, v, h)" by (cases e)
  have ok: "rec_ok sha (k, v, h)" "k \<in> K" using Cons.prems(5) by (auto simp: e)
  let ?d = "done @ [e]"
  let ?f = "f\<lparr>fpos := length (file_of done) + length (enc e)\<rparr>"
  have "length (file_of done) \<noteq> fileSize r"
    using Cons.prems(1,4) length_enc [OF ok(1)] by (simp add: e)
  then have 1: "ILibSimpleDataStore_ReadNextRecord sha (fileSize r) 0 f
      = Some (?f, Some (rec_header (k, v, h) (length (file_of done))))"
    using ReadNext_enc [OF ok(1), of f "file_of done" "file_of todo @ post"] Cons.prems(1-3) e by simp
  obtain r1 where 2: "rebuild_record 0 (rec_header (k, v, h) (length (file_of done))) r (live done) = Some (r1, live ?d)"
    and r1: "reloaded r r1" "keys_inv K (keyTable r1) (entries r1) (next_free r1) (file_of ?d) (log_map ?d)"
    using rebuild_record_log [OF Cons.prems(6) ok] unfolding e by blast
  have "\<exists>r'. rebuild_loop sha 0 r1 ?f (live ?d)
       = rebuild_loop sha 0 r' (?f\<lparr>fpos := length (file_of (?d @ todo))\<rparr>) (live (?d @ todo)) \<and> reloaded r1 r'
     \<and> keys_inv K (keyTable r') (entries r') (next_free r') (file_of (?d @ todo)) (log_map (?d @ todo))"
    using Cons.prems r1 by (intro Cons.IH) (simp_all add: reloaded_def)
  then show ?case using rebuild_loop_step [OF 1 2] reloaded_trans [OF r1(1)] by auto
qed

section \<open>The whole file\<close>

text \<open>
  What may follow the log: nothing, or the beginning of a record whose writing was cut off.  A
  partial value is recognised by its hash, so no shorter value may have the hash of the whole one.
\<close>

definition torn :: "(byte list \<Rightarrow> byte list) \<Rightarrow> byte list \<Rightarrow> bool" where
  "torn sha post \<longleftrightarrow> (\<exists>k v h n. rec_ok sha (k, v, h) \<and> \<not> crc_marked k \<and> post = take n (enc (k, v, h))
     \<and> n < length (enc (k, v, h)) \<and> (\<forall>m < length v. sha (take m v) \<noteq> h))"

lemma take_rest: "take m xs @ drop (length (take m xs)) xs = xs"
  by (cases "m \<le> length xs") (simp_all add: min_def)

lemma read_value_rest:
  "length (bytes f) \<le> fpos f + nat n \<Longrightarrow> fpos f \<le> length (bytes f) \<Longrightarrow> 
   read_value n f acc = (f\<lparr>fpos := length (bytes f)\<rparr>, acc @ drop (fpos f) (bytes f))"
proof (induction n f acc rule: read_value.induct)
  case (1 n f acc)
  let ?m = "nat (if n > 4096 then 4096 else n)"
  obtain f' d where r: "fread ?m f = (f', d)" by fastforce
  have f': "f' = f\<lparr>fpos := fpos f + length d\<rparr>" "d = take ?m (drop (fpos f) (bytes f))"
    using r by (auto simp: fread_def Let_def)
  show ?case
  proof (cases "0 < n \<and> d \<noteq> []")
    case True
    have "length d \<le> length (bytes f) - fpos f" using f'(2) by simp
    then have le: "fpos f + length d \<le> length (bytes f)" using "1.prems"(2) by simp
    have "read_value (n - int (length d)) f' (acc @ d)
        = (f'\<lparr>fpos := length (bytes f')\<rparr>, (acc @ d) @ drop (fpos f') (bytes f'))"
      using 1 True r f'(1) le by (intro 1(1)) auto
    moreover have "d @ drop (fpos f + length d) (bytes f) = drop (fpos f) (bytes f)"
      using take_rest [of ?m "drop (fpos f) (bytes f)"] unfolding f'(2) [symmetric] by (simp add: add.commute)
    ultimately show ?thesis using True r f'(1) by (subst read_value.simps) (simp add: Let_def)
  next
    case False
    then have "n \<le> 0 \<or> fpos f = length (bytes f)"
      using f'(2) "1.prems"(2) by (auto split: if_splits)
    then have e: "fpos f = length (bytes f)" using "1.prems" by auto
    then have d: "d = []" "f' = f" "f\<lparr>fpos := length (bytes f)\<rparr> = f" using f' by auto
    then show ?thesis using r e by (subst read_value.simps) simp
  qed
qed

lemma ReadNext_torn:
  assumes ok: "rec_ok sha (k, v, h)" "\<not> crc_marked k" "\<forall>m < length v. sha (take m v) \<noteq> h"
    and f: "bytes f = pre @ take n (enc (k, v, h))" "n < length (enc (k, v, h))" "fpos f = length pre" "fsize = length (bytes f)" "pending f = []"
  shows "ILibSimpleDataStore_ReadNextRecord sha fsize 0 f = Some (f, None)"
proof -
  let ?hd = "record_header (length k) (length v) (Some h)"
  have r: "length h = 48" "length k \<le> 4028" "60 + length k + length v < 2 ^ 31" using ok(1) by (simp_all add: rec_ok_def)
  have l: "length ?hd = 60" by (rule length_record_header [OF r(1)])
  have bk: "f\<lparr>fpos := length pre\<rparr> = f" using f(3) by simp
  consider "n = 0" | "0 < n" "n < 60" | "60 \<le> n" by linarith
  then show ?thesis
  proof cases
    case 1
    then show ?thesis using f by (intro ReadNext_end) simp
  next
    case 2
    then show ?thesis using f l by (intro ReadNext_short) (simp_all add: header_len_def enc_def)
  next
    case 3
    have b: "bytes f = pre @ ?hd @ take (n - 60) (k @ v)" using f(1) 3 l by (simp add: enc_def)
    have fields: "ntohl (take 4 ?hd) = 60 + int (length k) + int (length v)" "ntohl (take 4 (drop 4 ?hd)) = int (length k)"
      "ntohl (take 4 (drop 8 ?hd)) = int (length v)" "take 48 (drop 12 ?hd) = h"
      using r by (simp_all add: record_header_def)
    let ?f1 = "f\<lparr>fpos := length pre + 60\<rparr>"
    have "slice (bytes f) (length pre) 60 = ?hd"
      using slice_append2 [of pre "length pre" ?hd "take (n - 60) (k @ v)"] l b by simp
    then have 1: "fread 60 f = (?f1, ?hd)" unfolding fread_slice f(3) using l by simp
    let ?k = "take (n - 60) k" and ?f2 = "f\<lparr>fpos := length pre + 60 + length (take (n - 60) k)\<rparr>"
    have "slice (bytes f) (length pre + 60) (length k) = ?k"
      using b l by (cases "n - 60 < length k") (simp_all add: slice_def min_def)
    then have 2: "fread (length k) ?f1 = (?f2, ?k)" unfolding fread_slice by (simp add: add.assoc)
    have fs: "fsize \<noteq> length pre" using f(4) b l by simp
    show ?thesis
    proof (cases "n - 60 < length k")
      case True
      then show ?thesis
        unfolding ILibSimpleDataStore_ReadNextRecord_def Let_def f(3) header_len_def
        using fs r l by (simp add: 1 2 fields fseek_idle f(5) bk cong: if_cong)
    next
      case False
      let ?m = "n - 60 - length k"
      have m: "?m < length v" using f(2) length_enc [OF ok(1)] False 3 by simp
      then have len: "length (bytes f) = length pre + 60 + length k + ?m" using b l False by simp
      have k: "?k = k" using False by simp
      have "drop (length pre + 60 + length k) (bytes f) = take ?m v" using b l False by simp
      then have 3: "read_value (int (length v)) ?f2 [] = (f\<lparr>fpos := length (bytes f)\<rparr>, take ?m v)"
        using read_value_rest [of ?f2 "int (length v)" "[]"] m len k by simp
      have "take (length k) (drop 60 (?hd @ k)) = k" "h \<noteq> sha (take ?m v)" "v \<noteq> []" using l m ok(3) by auto
      then show ?thesis
        unfolding ILibSimpleDataStore_ReadNextRecord_def Let_def f(3) header_len_def
        using fs r l k m ok(2,3) by (simp add: 1 2 [unfolded k] 3 [unfolded k] fields fseek_idle f(5) bk cong: if_cong)
    qed
  qed
qed

text \<open>The table is rebuilt from the log, and the file cut behind it.\<close>

lemma Rebuild_log:
  assumes f: "dataFile r = Some f" "bytes f = file_of recs @ post" "post = [] \<or> torn sha post" "length (bytes f) < SIZE_MOD" "pending f = []"
    and recs: "\<forall>e \<in> set recs. rec_ok sha e \<and> fst e \<in> K" "log_map recs \<noteq> Map.empty"
    and r: "tab_ok K (keyTable r) T" "0 < next_free r"
  shows "\<exists>r'. ILibSimpleDataStore_RebuildKeyTable sha env r = Some r'
    \<and> keys_inv K (keyTable r') (entries r') (next_free r') (file_of recs) (log_map recs)
    \<and> (\<exists>f'. dataFile r' = Some f' \<and> bytes f' = (if writable f then file_of recs else bytes f)
         \<and> writable f' = writable f \<and> room f' = room f \<and> pending f' = [])
    \<and> cacheTable r' = cacheTable r \<and> cached r' = cached r \<and> ErrorHandler r' = ErrorHandler r
    \<and> filePath r' = filePath r \<and> minimumDirtySize r' = minimumDirtySize r
    \<and> events r' = events r @ (if post = [] then [] else [CorruptCopy (bytes f)])"
proof -
  obtain t es where c: "clear_table r = Some (r\<lparr>keyTable := t, entries := es\<rparr>)" "keys_inv K t es (next_free r) [] Map.empty"
    by (rule clear_keys [OF r, where bs = "[]"]) blast
  let ?r1 = "r\<lparr>keyTable := t, entries := es, fileSize := length (bytes f)\<rparr>" and ?f0 = "f\<lparr>fpos := 0\<rparr>"
  let ?f1 = "f\<lparr>fpos := length (file_of recs)\<rparr>"
  obtain r2 where r2: "rebuild_loop sha 0 ?r1 ?f0 0 = rebuild_loop sha 0 r2 ?f1 (live recs)" "reloaded ?r1 r2"
    "keys_inv K (keyTable r2) (entries r2) (next_free r2) (file_of recs) (log_map recs)"
    using rebuild_log [of ?f0 "[]" recs post ?r1 sha K] f(2,4) recs(1) c(2) by auto
  have "ILibSimpleDataStore_ReadNextRecord sha (fileSize r2) 0 ?f1 = Some (?f1, None)"
  proof (cases "post = []")
    case True
    then show ?thesis using r2(2) f(2) by (intro ReadNext_end) (simp add: reloaded_def)
  next
    case False
    then obtain k v h n where "rec_ok sha (k, v, h)" "\<not> crc_marked k" "post = take n (enc (k, v, h))"
      "n < length (enc (k, v, h))" "\<forall>m < length v. sha (take m v) \<noteq> h"
      using f(3) unfolding torn_def by blast
    then show ?thesis using r2(2) f(2,5) by (intro ReadNext_torn) (simp_all add: reloaded_def)
  qed
  then have "rebuild_loop sha 0 ?r1 ?f0 0 = Some (r2, ?f1, live recs)"
    unfolding r2(1) by (rule rebuild_loop_end)
  moreover have "live recs \<noteq> 0" using recs(2) by simp
  moreover have "fileSize r2 = length (bytes f)" "events r2 = events r" "cacheTable r2 = cacheTable r"
    "cached r2 = cached r" "ErrorHandler r2 = ErrorHandler r" "filePath r2 = filePath r" "minimumDirtySize r2 = minimumDirtySize r"
    using r2(2) by (simp_all add: reloaded_def)
  ultimately show ?thesis using c(1) f(1,2,5) r2(3)
    by (simp add: ILibSimpleDataStore_RebuildKeyTable_def Let_def fseek_idle ftruncate_def)
qed

lemma Create_log:
  assumes "bytes f = file_of recs @ post" "post = [] \<or> torn sha post" "length (bytes f) \<le> N" "N < SIZE_MOD"
    and "\<forall>e \<in> set recs. rec_ok sha e \<and> fst e \<in> K" "log_map recs \<noteq> Map.empty" "inj_on hk_hash ({0} \<times> K)"
    and "writable f" "room f = N" "pending f = []"
  shows "\<exists>r. ILibSimpleDataStore_CreateEx2 sha env (Some (Some f)) = Some (Some r) \<and> sds_ok sha K N r recs
    \<and> events r = (if post = [] then [] else [CorruptCopy (bytes f)])"
proof -
  let ?r = "empty_root\<lparr>dataFile := Some f, filePath := True\<rparr>"
  have "tab_ok K (keyTable ?r) Map.empty" using tab_create [OF assms(7)] by (simp add: empty_root_def)
  from Rebuild_log [OF _ assms(1,2) _ assms(10) assms(5,6) this, of env] assms(3,4) obtain r' f' where
    "ILibSimpleDataStore_RebuildKeyTable sha env ?r = Some r'"
    "keys_inv K (keyTable r') (entries r') (next_free r') (file_of recs) (log_map recs)"
    "dataFile r' = Some f'" "bytes f' = file_of recs" "writable f'" "room f' = room f" "pending f' = []" "cacheTable r' = None" "filePath r'" "minimumDirtySize r' = 0"
    "events r' = (if post = [] then [] else [CorruptCopy (bytes f)])"
    using assms(8) by (auto simp: empty_root_def)
  then show ?thesis using assms unfolding ILibSimpleDataStore_CreateEx2_def sds_ok_def by simp
qed

end
