(* ===== verification/DataStore.thy ===== *)
theory DataStore
  imports DataStoreReload
begin

text \<open>
  The properties of the data store as a whole: the store is a map, reopening the file gives
  the same map, and a record whose writing was cut off costs only itself.
\<close>

text \<open>The answer of \<open>GetEx\<close> with a buffer: the value and a NUL behind it if there is room.\<close>

definition answer :: "byte list option \<Rightarrow> byte list \<Rightarrow> int \<Rightarrow> byte list \<Rightarrow> bool" where
  "answer v buf n b \<longleftrightarrow> (case v of
     None \<Rightarrow> n = 0 \<and> b = buf
   | Some v \<Rightarrow>
       (if length v \<le> length buf
        then n = int (length v) \<and> b = v @ (if length v < length buf then 0 # drop (length v + 1) buf else [])
        else n = (if buf = [] then int (length v) else 0)))"

lemma Get_answer:
  assumes s: "sds_view sha K r recs" "get_cached z r k (Some buf) (length buf) = Some None" and k: "plain_keys K" "k \<in> K" and buf: "length buf \<le> INT32_MAX"
  shows "\<exists>r' n b. ILibSimpleDataStore_GetEx sha z r k (Some buf) (length buf) = Some (r', n, Some b)
    \<and> answer (map_option fst (log_map recs k)) buf n b"
proof -
  have k': "trim_key k = k" "length k \<le> INT32_MAX" "k \<noteq> []" using k by (auto simp: plain_keys_def INT32_MAX_def)
  show ?thesis
  proof (cases "log_map recs k")
    case None
    from Get_absent [OF s k'(1,2) None k'(3) k(1) buf] None show ?thesis by (simp add: answer_def)
  next
    case (Some vh)
    obtain v h where vh: "vh = (v, h)" by (cases vh)
    from Get_present [OF s k'(1,2) Some [unfolded vh] k(1) buf] obtain r' b where
      "ILibSimpleDataStore_GetEx sha z r k (Some buf) (length buf)
        = Some (r', if length v \<le> length buf then int (length v) else if buf = [] then int (length v) else 0, Some b)"
      "length v \<le> length buf \<longrightarrow> b = v @ (if length v < length buf then 0 # drop (length v + 1) buf else [])"
      by blast
    then show ?thesis using Some vh by (auto simp: answer_def)
  qed
qed

text \<open>What the data store asks of its keys, its hash and the operations.\<close>

definition store_env :: "(byte list \<Rightarrow> byte list) \<Rightarrow> byte list set \<Rightarrow> byte list set \<Rightarrow> bool" where
  "store_env sha K V \<longleftrightarrow> plain_keys K \<and> inj_on hk_hash ({0} \<times> K) \<and> (\<forall>v. length (sha v) = 48) \<and> inj_on sha V"

definition ops_fit :: "byte list set \<Rightarrow> byte list set \<Rightarrow> nat \<Rightarrow> (byte list \<times> byte list + byte list) list \<Rightarrow> bool" where
  "ops_fit K V N cs \<longleftrightarrow> (\<forall>c \<in> set cs. op_ok K V c) \<and> sum_list (map op_size cs) \<le> N \<and> N < SIZE_MOD"

lemma Create_run:
  assumes "store_env sha K V" "ops_fit K V N cs"
  obtains r r' recs where "ILibSimpleDataStore_CreateEx2 sha (good_env N) (Some (Some (fresh_file N))) = Some (Some r)"
    "run_ops (sput sha env) sdel cs r = Some r'" "sds_ok sha K N r' recs" "vals_in sha V recs"
    "\<forall>k. map_option fst (log_map recs k) = run_map (\<lambda>k. k) cs Map.empty k"
    "length (file_of recs) \<le> sum_list (map op_size cs)"
proof -
  have e: "plain_keys K" "inj_on hk_hash ({0} \<times> K)" "\<forall>v. length (sha v) = 48" "inj_on sha V"
    using assms(1) by (simp_all add: store_env_def)
  have cs: "\<forall>c \<in> set cs. op_ok K V c" "sum_list (map op_size cs) \<le> N" "N < SIZE_MOD"
    using assms(2) by (simp_all add: ops_fit_def)
  obtain r where r: "ILibSimpleDataStore_CreateEx2 sha (good_env N) (Some (Some (fresh_file N))) = Some (Some r)"
    "sds_ok sha K N r []" using Create_empty [OF e(2) cs(3)] by blast
  have "vals_in sha V []" by (simp add: vals_in_def)
  with run_sds [OF e(1,3,4) cs(1) r(2), of env] cs(2) obtain r' recs where
    "run_ops (sput sha env) sdel cs r = Some r'" "sds_ok sha K N r' recs" "vals_in sha V recs"
    "(\<lambda>k. map_option fst (log_map recs k)) = run_map (\<lambda>k. k) cs (\<lambda>k. map_option fst (log_map [] k))"
    "length (file_of recs) \<le> sum_list (map op_size cs)" by auto
  moreover from this(4) have "\<forall>k. map_option fst (log_map recs k) = run_map (\<lambda>k. k) cs Map.empty k"
    by (simp add: fun_eq_iff)
  ultimately show thesis using that r(1) by blast
qed


definition pad48 :: "byte list \<Rightarrow> byte list" where
  "pad48 v = take 48 (v @ replicate 48 0)"

lemma length_pad48 [simp]: "length (pad48 v) = 48"
  by (auto simp: pad48_def min_def)

lemma sample_env:
  "store_env pad48 {str ''a''} {str ''vw''}" "ops_fit {str ''a''} {str ''vw''} 200 [Inl (str ''a'', str ''vw'')]"
  by (simp_all add: store_env_def ops_fit_def plain_keys_def op_ok_def trim_key_def crc_marked_def SIZE_MOD_def)





section \<open>Write errors\<close>

definition after_write_error :: "(byte list \<Rightarrow> byte list) \<Rightarrow> fs_env \<Rightarrow> byte list \<Rightarrow> byte list
    \<Rightarrow> ILibSimpleDataStore_Root \<Rightarrow> (ILibSimpleDataStore_Root \<times> int) option" where
  "after_write_error sha env k v r = do {
     r \<leftarrow> ILibSimpleDataStore_CachedEx sha r k v None;
     r \<leftarrow> ILibSimpleDataStore_ReOpenReadOnly sha env r;
     Some (report_error r, 0) }"

text \<open>No room for the blocks that \<open>fwrite\<close> passes on.\<close>

lemma Put_full:
  assumes s: "sds_ok sha K N r recs" and k: "trim_key k = k" "length k \<le> INT32_MAX"
    and v: "length v \<le> INT32_MAX" "length (sha v) = 48" "\<forall>v'. log_map recs k \<noteq> Some (v', sha v)"
    and full: "N < length (file_of recs) + whole (60 + length k + length v)"
  shows "\<exists>r1 f1. ILibSimpleDataStore_PutEx2 sha env r k v None = after_write_error sha env k v r1
    \<and> dataFile r1 = Some f1 \<and> bytes f1 = file_of recs \<and> pending f1 = [] \<and> keyTable r1 = keyTable r \<and> next_free r \<le> next_free r1
    \<and> cacheTable r1 = None \<and> events r1 = events r \<and> ErrorHandler r1 = ErrorHandler r"
proof -
  obtain f where f: "dataFile r = Some f" "writable f" "length (bytes f) \<le> N" "room f = N" "bytes f = file_of recs"
    "keys_inv K (keyTable r) (entries r) (next_free r) (file_of recs) (log_map recs)"
    "cacheTable r = None \<and> filePath r \<and> minimumDirtySize r = 0" "pending f = []"
    using s by (rule sds_cases)
  obtain f1 where f1: "ILibSimpleDataStore_WriteRecord f k (Some v) (length v) (Some (sha v)) = (f1, 0)" "bytes f1 = bytes f" "pending f1 = []"
    using WriteRecord_full [OF f(2,8) _ v(2), of k v] f full by auto
  note def = ILibSimpleDataStore_PutEx2_def put_key_def new_entry_def after_write_error_def Let_def
  show ?thesis
  proof (cases "log_map recs k")
    case None
    have "table_get (keyTable r) k = Some 0" by (rule keys_lookup(1) [OF f(6) None])
    then show ?thesis using f1 f k v(1)
      by (intro exI [of _ "r\<lparr>next_free := next_free r + 1, dataFile := Some f1, fileSize := ILibSimpleDataStore_GetPosition f1,
            entries := (entries r)(next_free r := None)\<rparr>"]
          exI [of _ f1]) (simp add: def)
  next
    case (Some vh)
    then obtain a e where a: "table_get (keyTable r) k = Some a" "a \<noteq> 0" "entries r a = Some e" "entry_val (file_of recs) e vh"
      using keys_lookup(2) [OF f(6)] by blast
    have "valueHash e \<noteq> sha v" using a(4) v(3) Some by (cases vh) (auto simp: entry_val_def)
    then show ?thesis using f1 f k v(1) a
      by (intro exI [of _ "r\<lparr>dirtySize := dirtySize r + nat (te_valueLength e), dataFile := Some f1, fileSize := ILibSimpleDataStore_GetPosition f1,
            entries := (entries r)(a \<mapsto> \<lparr>te_valueLength = int (length v), valueHash = sha v, valueOffset = 0\<rparr>)\<rparr>"]
          exI [of _ f1]) (simp add: def)
  qed
qed

text \<open>The value goes to the cache, and the table is loaded again from the file, which is now read-only.\<close>

lemma after_write_error_view:
  assumes inv: "keys_inv K (keyTable r) es n (file_of recs) (log_map recs)" "log_map recs \<noteq> Map.empty" "inj_on hk_hash ({0} \<times> K)"
    and recs: "\<forall>e \<in> set recs. rec_ok sha e \<and> fst e \<in> K" "length (file_of recs) < SIZE_MOD"
    and k: "k \<in> K" "length k \<le> INT32_MAX" "length v \<le> INT32_MAX" "cache_value v = Some w" and env: "reopen_ok env"
    and r: "dataFile r = Some f" "bytes f = file_of recs" "pending f = []" "n \<le> next_free r" "cacheTable r = None"
  shows "\<exists>r2 t a. after_write_error sha env k v r = Some (r2, 0) \<and> sds_view sha K r2 recs
    \<and> map_option bytes (dataFile r2) = Some (file_of recs)
    \<and> cacheTable r2 = Some t \<and> tab_ok K t [k \<mapsto> a] \<and> cached r2 a = Some \<lparr>ce_valueHash = sha w, ce_value = w\<rparr>
    \<and> events r2 = events r @ (if ErrorHandler r then [WriteError] else [])"
proof -
  obtain T where T: "tab_ok K (keyTable r) T" "0 < n" using inv(1) by (rule keys_cases)
  have nf: "0 < next_free r" using T(2) r(4) by simp
  obtain t where t: "table_put ILibHashtable_Create k (next_free r) = Some t" "tab_ok K t [k \<mapsto> next_free r]"
    using tab_put [OF tab_create [OF inv(3)] k(1)] nf by blast
  let ?c = "(cached r)(next_free r \<mapsto> \<lparr>ce_valueHash = sha w, ce_value = w\<rparr>)"
  let ?f = "fseek_set 0 f\<lparr>writable := False\<rparr>"
  let ?r1 = "r\<lparr>cacheTable := Some t, next_free := next_free r + 1, cached := ?c\<rparr>"
  let ?r2 = "?r1\<lparr>dataFile := Some ?f\<rparr>"
  have 1: "ILibSimpleDataStore_CachedEx sha r k v None = Some ?r1"
    using k r(5) t(1) by (simp add: ILibSimpleDataStore_CachedEx_def Let_def)
  have "bytes ?f = file_of recs @ []" "length (bytes ?f) < SIZE_MOD" "pending ?f = []" "tab_ok K (keyTable ?r2) T" "0 < next_free ?r2"
    using r recs(2) T(1) by (simp_all add: fseek_idle)
  from Rebuild_log [OF _ this(1) _ this(2) this(3) recs(1) inv(2) this(4,5), of env] obtain r3 f3 where r3:
    "ILibSimpleDataStore_RebuildKeyTable sha env ?r2 = Some r3"
    "keys_inv K (keyTable r3) (entries r3) (next_free r3) (file_of recs) (log_map recs)"
    "dataFile r3 = Some f3" "bytes f3 = file_of recs" "pending f3 = []" "cacheTable r3 = Some t" "cached r3 = ?c" "ErrorHandler r3 = ErrorHandler r"
    "events r3 = events r"
    using r(2,3) by (auto simp: fseek_idle)
  have "after_write_error sha env k v r = Some (report_error r3, 0)"
    using 1 r3(1) r(1) env by (simp add: after_write_error_def ILibSimpleDataStore_ReOpenReadOnly_def)
  moreover have "sds_view sha K (report_error r3) recs"
    using r3 recs(1) by (simp add: sds_view_def report_error_def)
  ultimately show ?thesis using r3 t(2)
    by (intro exI [of _ "report_error r3"] exI [of _ t] exI [of _ "next_free r"]) (simp add: report_error_def)
qed

lemma get_cached_other:
  assumes "tab_ok K t [k \<mapsto> a]" "cacheTable r = Some t" "j \<noteq> k" "plain_keys K" "j \<in> K"
  shows "get_cached z r j buf n = Some None"
proof -
  have "j \<noteq> []" using assms(4,5) by (auto simp: plain_keys_def)
  then obtain ck where ck: "compressed_key j = Some ck" "crc_marked ck" using compressed_marked [of j] by blast
  have "k \<in> K" using tab_dom(1) [OF assms(1), of k a] by simp
  then have "ck \<noteq> k" using ck(2) assms(4) by (auto simp: plain_keys_def)
  then have "find_entry t j = Some (0, True)"
    using tab_get [OF assms(1), of j] tab_get [OF assms(1), of ck] ck(1) assms(3) by (simp add: find_entry_def)
  then show ?thesis using assms(2) by (simp add: get_cached_def)
qed

lemma Get_cached_answer:
  assumes "tab_ok K t [k \<mapsto> a]" "cacheTable r = Some t" "cached r a = Some c" "trim_key k = k" "length k \<le> INT32_MAX"
    and "length buf \<le> INT32_MAX"
  shows "\<exists>n b. ILibSimpleDataStore_GetEx sha z r k (Some buf) (length buf) = Some (r, n, Some b)
    \<and> answer (Some (ce_value c)) buf n b"
proof -
  have "a \<noteq> 0" using tab_dom(2) [OF assms(1), of k a] by simp
  then have fe: "find_entry t k = Some (a, False)" using tab_get [OF assms(1), of k] by (simp add: find_entry_def)
  let ?v = "ce_value c"
  show ?thesis
  proof (cases "length ?v \<le> length buf")
    case True
    let ?w = "?v @ (if length ?v < length buf then [0] else [])"
    have "get_cached z r k (Some buf) (length buf) = Some (Some (int (length ?v), Some (overwrite buf 0 ?w)))"
      using True fe assms(2,3) \<open>a \<noteq> 0\<close> by (simp add: get_cached_def copy_out_def)
    then have "ILibSimpleDataStore_GetEx sha z r k (Some buf) (length buf) = Some (r, int (length ?v), Some (overwrite buf 0 ?w))"
      using assms(4-6) by (simp add: ILibSimpleDataStore_GetEx_def Let_def)
    then show ?thesis using True by (auto simp: answer_def overwrite_def)
  next
    case False
    have "get_cached z r k (Some buf) (length buf) = Some (Some (if buf = [] then int (length ?v) else 0, Some buf))"
      using False fe assms(2,3) \<open>a \<noteq> 0\<close> by (simp add: get_cached_def)
    then have "ILibSimpleDataStore_GetEx sha z r k (Some buf) (length buf) = Some (r, if buf = [] then int (length ?v) else 0, Some buf)"
      using assms(4-6) by (simp add: ILibSimpleDataStore_GetEx_def Let_def)
    then show ?thesis using False by (auto simp: answer_def)
  qed
qed

text \<open>
  Room for those blocks but not for the rest: the record counts as written, and the file gets its beginning.
\<close>

lemma Put_lost:
  assumes s: "sds_ok sha K N r recs" and k: "k \<in> K" "trim_key k = k" "length k \<le> INT32_MAX"
    and v: "length v \<le> INT32_MAX" "length (sha v) = 48" "\<forall>v'. log_map recs k \<noteq> Some (v', sha v)"
    and fits: "length (file_of recs) + whole (60 + length k + length v) \<le> N"
  shows "\<exists>r2 f2 w. ILibSimpleDataStore_PutEx2 sha env r k v None = Some (r2, 0)
    \<and> dataFile r2 = Some f2 \<and> bytes f2 = take N (file_of recs @ enc (k, v, sha v)) \<and> pending f2 = [] \<and> writable f2 \<and> room f2 = N
    \<and> cacheTable r2 = None \<and> events r2 = events r @ w \<and> WriteError \<notin> set w"
proof -
  obtain f where f: "dataFile r = Some f" "writable f" "length (bytes f) \<le> N" "room f = N" "bytes f = file_of recs"
    "keys_inv K (keyTable r) (entries r) (next_free r) (file_of recs) (log_map recs)"
    "cacheTable r = None \<and> filePath r \<and> minimumDirtySize r = 0" "pending f = []"
    using s by (rule sds_cases)
  obtain T where T: "tab_ok K (keyTable r) T" "0 < next_free r" using f(6) by (rule keys_cases)
  let ?f = "stream f (take N (bytes f @ enc (k, v, sha v))) []" and ?x = "enc (k, v, sha v)"
  have x: "?x = record_header (length k) (length v) (Some (sha v)) @ k @ v" "length ?x = 60 + length k + length v"
    using v(2) by (simp_all add: enc_def length_record_header)
  have w: "ILibSimpleDataStore_WriteRecord f k (Some v) (length v) (Some (sha v)) = (?f, length (bytes f) + 60 + length k)"
    using WriteRecord_blocks [OF f(2,8) _ v(2), of "Some v" "length v" ?x k] f x fits by (simp add: add.assoc)
  note def = ILibSimpleDataStore_PutEx2_def put_key_def new_entry_def Let_def
  show ?thesis
  proof (cases "log_map recs k")
    case None
    have g: "table_get (keyTable r) k = Some 0" by (rule keys_lookup(1) [OF f(6) None])
    obtain t' where t': "table_put (keyTable r) k (next_free r) = Some t'" using tab_put [OF T(1) k(1)] T(2) by blast
    show ?thesis using f(1,2,4,5,7) w g t' k v(1) by (simp add: def)
  next
    case (Some vh)
    then obtain a e where a: "table_get (keyTable r) k = Some a" "a \<noteq> 0" "entries r a = Some e" "entry_val (file_of recs) e vh"
      using keys_lookup(2) [OF f(6)] by blast
    have h: "valueHash e \<noteq> sha v" using a(4) v(3) Some by (cases vh) (auto simp: entry_val_def)
    obtain t' where t': "table_put (keyTable r) k a = Some t'" using tab_put [OF T(1) k(1) a(2)] by blast
    show ?thesis using f(1,2,4,5,7) w a(1-3) h t' k v(1) by (simp add: def)
  qed
qed



end
