(* ===== verification/DataStoreCompact.thy ===== *)
theory DataStoreCompact
  imports DataStore
begin

text \<open>
  Compaction of the data store: \<open>ILibSimpleDataStore_Compact\<close> copies the live values to a new
  file, in the order of the hash table, and replaces the old file by it.
\<close>

section \<open>Copying a value\<close>

lemma copy_value_ok:
  "off + tot + n \<le> length (bytes src) \<Longrightarrow> pending src = [] \<Longrightarrow> writable c \<Longrightarrow> length (b @ q) + n \<le> room c \<Longrightarrow>
   \<exists>p b' q'. copy_value off (int n) tot src (stream c b q) = Some (src\<lparr>fpos := p\<rparr>, stream c b' q', False)
     \<and> b' @ q' = b @ q @ slice (bytes src) (off + tot) n"
proof (induction n arbitrary: tot src b q rule: less_induct)
  case (less n)
  show ?case
  proof (cases "n = 0")
    case True
    then show ?thesis
      by (intro exI [of _ "fpos src"] exI [of _ b] exI [of _ q]) (simp add: copy_value.simps slice_def)
  next
    case False
    define m where "m = nat (if int n > 4096 then 4096 else int n)"
    let ?d = "slice (bytes src) (off + tot) m" and ?src = "src\<lparr>fpos := off + tot + m\<rparr>"
    define t where "t = whole (length (q @ ?d))"
    let ?b = "b @ take t (q @ ?d)" and ?q = "drop t (q @ ?d)"
    have m: "0 < m" "m \<le> n" using False by (auto simp: m_def)
    have l: "length ?d = m" using less.prems(1) m by simp
    have r: "fread m (fseek_set (off + tot) src) = (?src, ?d)"
      using l by (simp add: fread_slice fseek_idle less.prems(2) del: length_slice)
    have "t \<le> length q + m" using whole_le [of "length (q @ ?d)"] l by (simp add: t_def)
    then have w: "fwrite ?d (stream c b q) = (stream c ?b ?q, m)"
      using fwrite_stream [OF less.prems(3) _ refl t_def, of b] less.prems(4) l m(2) by simp
    have "copy_value off (int n) tot src (stream c b q) = copy_value off (int n - int m) (tot + m) ?src (stream c ?b ?q)"
      unfolding copy_value.simps [of off "int n"] m_def [symmetric] using False by (simp only: r w l Let_def prod.case) simp
    also have "int n - int m = int (n - m)" using m(2) by simp
    finally have 1: "copy_value off (int n) tot src (stream c b q) = copy_value off (int (n - m)) (tot + m) ?src (stream c ?b ?q)" .
    have bq: "?b @ ?q = b @ q @ ?d" by (simp only: append_assoc append_take_drop_id)
    obtain p b' q' where 2: "copy_value off (int (n - m)) (tot + m) ?src (stream c ?b ?q) = Some (?src\<lparr>fpos := p\<rparr>, stream c b' q', False)"
      "b' @ q' = ?b @ ?q @ slice (bytes ?src) (off + (tot + m)) (n - m)"
      using less.IH [of "n - m" "tot + m" ?src ?b ?q] less.prems m l unfolding bq by auto
    have "slice (bytes src) (off + tot) n = ?d @ slice (bytes src) (off + (tot + m)) (n - m)"
      using slice_append_slice [of "bytes src" "off + tot" m "n - m"] m(2) by (simp add: add.assoc)
    moreover have "b' @ q' = (?b @ ?q) @ slice (bytes src) (off + (tot + m)) (n - m)" using 2(2) by simp
    ultimately have "b' @ q' = b @ q @ slice (bytes src) (off + tot) n" unfolding bq by simp
    then show ?thesis using 1 2(1) by (intro exI [of _ p] exI [of _ b'] exI [of _ q']) simp
  qed
qed

section \<open>Copying the live records\<close>

definition live_rec :: "(byte list \<rightharpoonup> byte list \<times> byte list) \<Rightarrow> byte list \<times> addr \<Rightarrow> srec" where
  "live_rec M e = (fst e, the (M (fst e)))"

text \<open>Compaction changes the entries, the position of the old file and the error flag only.\<close>

definition compacting :: "ILibSimpleDataStore_Root \<Rightarrow> ILibSimpleDataStore_Root \<Rightarrow> bool" where
  "compacting r r' \<longleftrightarrow> (\<exists>f f'. dataFile r = Some f \<and> dataFile r' = Some f' \<and> bytes f' = bytes f \<and> pending f' = pending f)
     \<and> keyTable r' = keyTable r \<and> next_free r' = next_free r \<and> cacheTable r' = cacheTable r
     \<and> events r' = events r \<and> filePath r' = filePath r \<and> minimumDirtySize r' = minimumDirtySize r
     \<and> \<not> store_error r'"

lemma compacting_trans: "compacting r r' \<Longrightarrow> compacting r' r'' \<Longrightarrow> compacting r r''"
  by (auto simp: compacting_def)

lemma WriteRecord_flushes:
  "ILibSimpleDataStore_WriteRecord (stream f b q) k v n h
     = ILibSimpleDataStore_WriteRecord (stream f (b @ take (room f - length b) q) []) k v n h"
  by (simp add: ILibSimpleDataStore_WriteRecord_def fseek_end_stream)

lemma compact_step:
  assumes k: "k \<noteq> []" "trim_key k = k" and ok: "rec_ok sha (live_rec M (k, a))"
    and e: "entries r a = Some e" "entry_val bs e (the (M k))"
    and r: "dataFile r = Some f" "bytes f = bs" "pending f = []" "\<not> store_error r"
    and c: "writable c" "b @ q = file_of done" "length (file_of done) + length (enc (live_rec M (k, a))) \<le> room c"
  shows "\<exists>r' e' b' q'. on_key ILibSimpleDataStore_Compact_EnumerateSink (k, a) (Some (r, stream c b q)) = Some (r', stream c b' q')
    \<and> b' @ q' = file_of (done @ [live_rec M (k, a)])
    \<and> compacting r r' \<and> entries r' = (entries r)(a \<mapsto> e')
    \<and> entry_val (file_of (done @ [live_rec M (k, a)])) e' (the (M k))"
proof -
  obtain v h where vh: "the (M k) = (v, h)" by (cases "the (M k)")
  have ok: "rec_ok sha (k, v, h)" and lr: "live_rec M (k, a) = (k, v, h)" using ok vh by (simp_all add: live_rec_def)
  note l = length_enc [OF ok]
  have h: "length h = 48" using ok by (simp add: rec_ok_def)
  let ?n = "length (file_of done)" and ?x = "record_header (length k) (length v) (Some h) @ k"
  have lx: "length ?x = 60 + length k" using h by (simp add: length_record_header)
  have ev: "te_valueLength e = int (length v)" "valueHash e = h" "valueOffset e + length v \<le> length bs"
    "slice bs (valueOffset e) (length v) = v" using e(2) vh by (simp_all add: entry_val_def)
  have room: "?n + 60 + length k + length v \<le> room c" using c(3) l lr by simp
  have "length b + length q \<le> room c" using c(2,3) by (metis add_leD1 length_append)
  then have fl: "b @ take (room c - length b) q = file_of done" using c(2) by simp
  have "length (file_of done) + whole (length ?x) \<le> room c" using whole_le [of "length ?x"] lx room by linarith
  then have "ILibSimpleDataStore_WriteRecord (stream c (file_of done) []) k None (length v) (Some h) = (stream c (file_of done @ ?x) [], ?n + 60 + length k)"
    using WriteRecord_blocks [of "stream c (file_of done) []" h None "length v" ?x k] c(1) h room lx by simp
  with WriteRecord_flushes [of c b q k None "length v" "Some h"]
  have w: "ILibSimpleDataStore_WriteRecord (stream c b q) k None (length v) (Some h) = (stream c (file_of done @ ?x) [], ?n + 60 + length k)"
    unfolding fl by (rule trans)
  obtain p b' q' where cp: "copy_value (valueOffset e) (int (length v)) 0 f (stream c (file_of done @ ?x) [])
      = Some (f\<lparr>fpos := p\<rparr>, stream c b' q', False)" "b' @ q' = (file_of done @ ?x) @ [] @ v"
    using copy_value_ok [of "valueOffset e" 0 "length v" f c "file_of done @ ?x" "[]"] ev r(2,3) c(1) room lx by auto
  have eqc: "b' @ q' = file_of (done @ [live_rec M (k, a)])" using cp(2) by (simp add: lr enc_def)
  let ?e = "e\<lparr>valueOffset := ?n + 60 + length k\<rparr>"
  have "e\<lparr>valueOffset := ?n + 60 + length k\<rparr>
      = \<lparr>te_valueLength = int (length v), valueHash = h, valueOffset = length (file_of done) + 60 + length k\<rparr>"
    using ev(1,2) by (cases e) simp
  then have val: "entry_val (file_of (done @ [live_rec M (k, a)])) ?e (the (M k))"
    using new_entry_val [OF ok, of "file_of done"] by (simp add: lr vh)
  let ?r = "r\<lparr>dataFile := Some (f\<lparr>fpos := p\<rparr>), store_error := False, entries := (entries r)(a \<mapsto> ?e)\<rparr>"
  have "(if 1 < length k \<and> last k = 0 then butlast k else k) = k" using k(2) by (simp add: trim_key_def)
  then have "on_key ILibSimpleDataStore_Compact_EnumerateSink (k, a) (Some (r, stream c b q)) = Some (?r, stream c b' q')"
    using k(1) e(1) r(1,4) w cp(1) ev(1,2)
    by (simp add: on_key_def ILibSimpleDataStore_Compact_EnumerateSink_def Let_def del: log_simps)
  moreover have "compacting r ?r" using r by (simp add: compacting_def)
  ultimately show ?thesis using eqc val
    by (intro exI [of _ ?r] exI [of _ ?e] exI [of _ b'] exI [of _ q']) simp
qed

definition live_entry :: "(byte list \<Rightarrow> byte list) \<Rightarrow> (byte list \<rightharpoonup> byte list \<times> byte list)
    \<Rightarrow> (addr \<rightharpoonup> ILibSimpleDataStore_TableEntry) \<Rightarrow> byte list \<Rightarrow> byte list \<times> addr \<Rightarrow> bool" where
  "live_entry sha M es bs x \<longleftrightarrow> fst x \<noteq> [] \<and> trim_key (fst x) = fst x \<and> rec_ok sha (live_rec M x)
     \<and> (\<exists>e. es (snd x) = Some e \<and> entry_val bs e (the (M (fst x))))"

lemma compact_fold:
  "\<forall>x \<in> set xs. live_entry sha M (entries r) bs x \<Longrightarrow> distinct (map snd xs) \<Longrightarrow>
   dataFile r = Some f \<Longrightarrow> bytes f = bs \<Longrightarrow> pending f = [] \<Longrightarrow> \<not> store_error r \<Longrightarrow> writable c \<Longrightarrow> b @ q = file_of done \<Longrightarrow>
   length (file_of (done @ map (live_rec M) xs)) \<le> room c \<Longrightarrow>
   \<exists>r' b' q'. fold (on_key ILibSimpleDataStore_Compact_EnumerateSink) xs (Some (r, stream c b q)) = Some (r', stream c b' q')
     \<and> b' @ q' = file_of (done @ map (live_rec M) xs)
     \<and> compacting r r' \<and> (\<forall>a. a \<notin> snd ` set xs \<longrightarrow> entries r' a = entries r a)
     \<and> (\<forall>x \<in> set xs. \<exists>e. entries r' (snd x) = Some e
          \<and> entry_val (file_of (done @ map (live_rec M) xs)) e (the (M (fst x))))"
proof (induction xs arbitrary: r f b q "done")
  case Nil
  then show ?case by (intro exI [of _ r] exI [of _ b] exI [of _ q]) (simp add: compacting_def)
next
  case (Cons x xs)
  obtain k a where x: "x = (k, a)" by (cases x)
  let ?d = "done @ [live_rec M (k, a)]"
  have live: "k \<noteq> []" "trim_key k = k" "rec_ok sha (live_rec M (k, a))"
    and "\<exists>e. entries r a = Some e \<and> entry_val bs e (the (M k))"
    using Cons.prems(1) by (simp_all add: live_entry_def x)
  then obtain e where e: "entries r a = Some e" "entry_val bs e (the (M k))" by blast
  have "length (file_of done) + length (enc (live_rec M (k, a))) \<le> room c" using Cons.prems(9) x by simp
  from compact_step [OF live e Cons.prems(3-8) this] obtain r1 e1 b1 q1 where
    step: "on_key ILibSimpleDataStore_Compact_EnumerateSink (k, a) (Some (r, stream c b q)) = Some (r1, stream c b1 q1)" "b1 @ q1 = file_of ?d"
    and r1: "compacting r r1" "entries r1 = (entries r)(a \<mapsto> e1)" "entry_val (file_of ?d) e1 (the (M k))"
    by blast
  obtain f1 where f1: "dataFile r1 = Some f1" "bytes f1 = bs" "pending f1 = []" "\<not> store_error r1"
    using r1(1) Cons.prems(3-5) by (auto simp: compacting_def)
  have "a \<notin> snd ` set xs" using Cons.prems(2) x by simp
  then have "\<forall>x \<in> set xs. snd x \<noteq> a" by (metis image_eqI)
  then have rest: "\<forall>x \<in> set xs. live_entry sha M (entries r1) bs x"
    using Cons.prems(1) r1(2) by (simp add: live_entry_def)
  have "distinct (map snd xs)" "length (file_of (?d @ map (live_rec M) xs)) \<le> room c"
    using Cons.prems(2,9) x by simp_all
  from Cons.IH [OF rest this(1) f1 Cons.prems(7) step(2) this(2)] obtain r' b' q' where
    r': "fold (on_key ILibSimpleDataStore_Compact_EnumerateSink) xs (Some (r1, stream c b1 q1)) = Some (r', stream c b' q')"
    "b' @ q' = file_of (?d @ map (live_rec M) xs)"
    "compacting r1 r'" "\<forall>a. a \<notin> snd ` set xs \<longrightarrow> entries r' a = entries r1 a"
    "\<forall>x \<in> set xs. \<exists>e. entries r' (snd x) = Some e \<and> entry_val (file_of (?d @ map (live_rec M) xs)) e (the (M (fst x)))"
    by blast
  have "entries r' a = Some e1" using r'(4) r1(2) \<open>a \<notin> snd ` set xs\<close> by simp
  moreover have "entry_val (file_of (?d @ map (live_rec M) xs)) e1 (the (M k))"
    using entry_val_append [OF r1(3)] by simp
  ultimately show ?case using step(1) r'(1,2,4,5) compacting_trans [OF r1(1) r'(3)] r1(2)
    by (intro exI [of _ r'] exI [of _ b'] exI [of _ q']) (simp add: x)
qed

section \<open>Compaction\<close>

lemma sum_list_subset:
  assumes "distinct xs" "set xs \<subseteq> set ys"
  shows "sum_list (map g xs) \<le> (sum_list (map g ys) :: nat)"
proof -
  have "sum_list (map g xs) = sum g (set xs)" using assms(1) by (simp add: sum_list_distinct_conv_sum_set)
  also have "\<dots> \<le> sum g (set ys)" using assms(2) by (intro sum_mono2) simp_all
  also have "\<dots> \<le> sum_list (map g ys)"
  proof (induction ys)
    case (Cons y ys)
    then show ?case by (cases "y \<in> set ys") (simp_all add: insert_absorb)
  qed simp
  finally show ?thesis .
qed

lemma length_file_of: "length (file_of recs) = sum_list (map (length \<circ> enc) recs)"
  by (induction recs) simp_all

lemma log_map_distinct: "distinct (map fst recs) \<Longrightarrow> \<forall>e \<in> set recs. fst (snd e) \<noteq> [] \<Longrightarrow> log_map recs = map_of recs"
proof (induction recs rule: rev_induct)
  case (snoc e recs)
  obtain k v h where e: "e = (k, v, h)" by (cases e)
  have "k \<notin> fst ` set recs" using snoc.prems(1) by (simp add: e)
  then have "map_of recs k = None" by (simp add: map_of_eq_None_iff)
  then show ?case using snoc by (auto simp: e map_add_def fun_eq_iff split: option.split)
qed simp

text \<open>The keys of the table, in the order of its enumeration, and their records.\<close>

lemma live_records:
  assumes inv: "keys_inv K t es n (file_of recs) (log_map recs)" and ok: "\<forall>e \<in> set recs. rec_ok sha e \<and> fst e \<in> K"
    and K: "plain_keys K"
  obtains xs where "distinct (map snd xs)" "distinct (map fst xs)"
    "\<And>g u. ILibHashtable_Enumerate t (Some g) u = Some (fold (on_key g) xs (u :: (ILibSimpleDataStore_Root \<times> FILE) option))"
    "\<forall>x \<in> set xs. live_entry sha (log_map recs) es (file_of recs) x"
    "\<forall>x \<in> set xs. live_rec (log_map recs) x \<in> set recs \<and> log_map recs (fst x) = Some (snd (live_rec (log_map recs) x))"
    "\<forall>k. log_map recs k \<noteq> None \<longrightarrow> (\<exists>a. (k, a) \<in> set xs)"
    "\<forall>es' bs. (\<forall>x \<in> set xs. \<exists>e. es' (snd x) = Some e \<and> entry_val bs e (the (log_map recs (fst x)))) \<longrightarrow>
       keys_inv K t es' n bs (log_map recs)"
proof -
  let ?M = "log_map recs"
  obtain T where T: "tab_ok K t T" "inj_on T (dom T)" "dom T = dom ?M" "0 < n"
    "\<forall>k a. T k = Some a \<longrightarrow> a < n \<and> (\<exists>e. es a = Some e \<and> entry_val (file_of recs) e (the (?M k)))"
    using inv by (rule keys_cases)
  obtain xs where xs: "distinct (map fst xs)" "\<And>k a. (k, a) \<in> set xs \<longleftrightarrow> T k = Some a"
    "\<And>g u. ILibHashtable_Enumerate t (Some g) u = Some (fold (on_key g) xs (u :: (ILibSimpleDataStore_Root \<times> FILE) option))"
    by (rule tab_enum [OF T(1)]) blast
  have Tx: "T (fst x) = Some (snd x)" if "x \<in> set xs" for x using that xs(2) [of "fst x" "snd x"] by simp
  have r: "live_rec ?M x \<in> set recs \<and> ?M (fst x) = Some (snd (live_rec ?M x))" if x: "x \<in> set xs" for x
  proof -
    have "fst x \<in> dom ?M" using Tx [OF x] T(3) by auto
    then obtain v h where "?M (fst x) = Some (v, h)" by auto
    then show ?thesis using log_map_in by (simp add: live_rec_def)
  qed
  have live: "live_entry sha ?M es (file_of recs) x" if x: "x \<in> set xs" for x
  proof -
    have "rec_ok sha (live_rec ?M x)" "fst x \<in> K" using r [OF x] ok by (auto simp: live_rec_def)
    then show ?thesis using T(5) K Tx [OF x] unfolding live_entry_def plain_keys_def by blast
  qed
  have "inj_on snd (set xs)"
  proof (rule inj_onI)
    fix x y assume xy: "x \<in> set xs" "y \<in> set xs" "snd x = snd y"
    then have "T (fst x) = T (fst y)" "fst x \<in> dom T" "fst y \<in> dom T"
      using Tx [OF xy(1)] Tx [OF xy(2)] by auto
    then have "fst x = fst y" by (rule inj_onD [OF T(2)])
    then show "x = y" using xy(3) by (simp add: prod_eq_iff)
  qed
  then have d: "distinct (map snd xs)" using xs(1) by (simp add: distinct_map)
  have m: "\<forall>k. ?M k \<noteq> None \<longrightarrow> (\<exists>a. (k, a) \<in> set xs)"
  proof (intro allI impI)
    fix k assume "?M k \<noteq> None"
    then have "k \<in> dom T" using T(3) by auto
    then show "\<exists>a. (k, a) \<in> set xs" using xs(2) by auto
  qed
  have i: "keys_inv K t es' n bs ?M"
    if "\<forall>x \<in> set xs. \<exists>e. es' (snd x) = Some e \<and> entry_val bs e (the (?M (fst x)))" for es' bs
  proof -
    have "\<forall>k a. T k = Some a \<longrightarrow> a < n \<and> (\<exists>e. es' a = Some e \<and> entry_val bs e (the (?M k)))"
      using T(5) that xs(2) by fastforce
    then show ?thesis unfolding keys_inv_def using T(1-4) by (intro conjI exI [of _ T])
  qed
  have "\<forall>es' bs. (\<forall>x \<in> set xs. \<exists>e. es' (snd x) = Some e \<and> entry_val bs e (the (?M (fst x)))) \<longrightarrow> keys_inv K t es' n bs ?M"
    by (intro allI impI i)
  with ballI [OF live] ballI [OF r] m show thesis by (rule that [OF d xs(1,3)])
qed

lemma log_map_live:
  assumes "distinct (map fst xs)" "\<forall>k. M k \<noteq> None \<longrightarrow> (\<exists>a. (k, a) \<in> set xs)"
    and "\<forall>x \<in> set xs. M (fst x) = Some (snd (live_rec M x)) \<and> fst (snd (live_rec M x)) \<noteq> []"
  shows "log_map (map (live_rec M) xs) = M" "distinct (map fst (map (live_rec M) xs))"
proof -
  let ?recs = "map (live_rec M) xs"
  have f: "map fst ?recs = map fst xs" by (simp add: live_rec_def comp_def)
  show d: "distinct (map fst ?recs)" unfolding f by (rule assms(1))
  have "log_map ?recs = map_of ?recs" using d by (rule log_map_distinct) (use assms(3) in auto)
  moreover have "map_of ?recs k = M k" for k
  proof (cases "M k")
    case None
    then have "k \<notin> set (map fst ?recs)" unfolding f using assms(3) by force
    then have "map_of ?recs k = None" by (simp add: map_of_eq_None_iff image_image)
    then show ?thesis using None by simp
  next
    case (Some vh)
    then obtain a where "(k, a) \<in> set xs" using assms(2) by blast
    moreover have "live_rec M (k, a) = (k, vh)" using Some by (simp add: live_rec_def)
    ultimately have "(k, vh) \<in> set ?recs" by (metis image_eqI list.set_map)
    then show ?thesis using d Some map_of_is_SomeI by metis
  qed
  ultimately show "log_map ?recs = M" by auto
qed

lemma Compact_sds:
  assumes s: "sds_ok sha K N r recs" and K: "plain_keys K"
  shows "\<exists>r' recs'. ILibSimpleDataStore_Compact (good_env N) r = Some (r', 0) \<and> sds_ok sha K N r' recs'
    \<and> log_map recs' = log_map recs \<and> distinct (map fst recs') \<and> set recs' \<subseteq> set recs
    \<and> (\<forall>e \<in> set recs'. fst (snd e) \<noteq> [])"
proof -
  obtain f where f: "dataFile r = Some f" "length (bytes f) \<le> N" "N < SIZE_MOD" "bytes f = file_of recs"
    "\<forall>e \<in> set recs. rec_ok sha e \<and> fst e \<in> K"
    "keys_inv K (keyTable r) (entries r) (next_free r) (file_of recs) (log_map recs)" "cacheTable r = None \<and> filePath r \<and> minimumDirtySize r = 0"
    "pending f = []"
    using s by (rule sds_cases)
  let ?M = "log_map recs"
  obtain xs where xs: "distinct (map snd xs)" "distinct (map fst xs)"
    "\<And>g u. ILibHashtable_Enumerate (keyTable r) (Some g) u = Some (fold (on_key g) xs (u :: (ILibSimpleDataStore_Root \<times> FILE) option))"
    "\<forall>x \<in> set xs. live_entry sha ?M (entries r) (file_of recs) x"
    "\<forall>x \<in> set xs. live_rec ?M x \<in> set recs \<and> ?M (fst x) = Some (snd (live_rec ?M x))"
    "\<forall>k. ?M k \<noteq> None \<longrightarrow> (\<exists>a. (k, a) \<in> set xs)"
    "\<forall>es' bs. (\<forall>x \<in> set xs. \<exists>e. es' (snd x) = Some e \<and> entry_val bs e (the (?M (fst x)))) \<longrightarrow>
       keys_inv K (keyTable r) es' (next_free r) bs ?M"
    by (rule live_records [OF f(6,5) K]) blast
  let ?recs = "map (live_rec ?M) xs"
  have ne: "\<forall>x \<in> set xs. ?M (fst x) = Some (snd (live_rec ?M x)) \<and> fst (snd (live_rec ?M x)) \<noteq> []"
    using xs(5) log_map_in by (metis prod.collapse)
  note M = log_map_live [OF xs(2,6) ne]
  have sub: "set ?recs \<subseteq> set recs" using xs(5) by auto
  have "distinct ?recs" using M(2) by (metis distinct_map)
  then have size: "length (file_of ?recs) \<le> length (file_of recs)"
    unfolding length_file_of using sub by (rule sum_list_subset)
  let ?r = "r\<lparr>store_error := False\<rparr>" and ?c = "fresh_file N\<lparr>bytes := file_of ?recs, fpos := length (file_of ?recs)\<rparr>"
  have c: "fresh_file N = stream (fresh_file N) [] []" "writable (fresh_file N)" "length (file_of ([] @ ?recs)) \<le> room (fresh_file N)"
    using size f(2,4) by (simp_all add: fresh_file_def stream_def)
  obtain r1 b' q' where r1: "fold (on_key ILibSimpleDataStore_Compact_EnumerateSink) xs (Some (?r, fresh_file N)) = Some (r1, stream (fresh_file N) b' q')"
    "b' @ q' = file_of ?recs" "compacting ?r r1"
    "\<forall>x \<in> set xs. \<exists>e. entries r1 (snd x) = Some e \<and> entry_val (file_of ?recs) e (the (?M (fst x)))"
    using compact_fold [of xs sha ?M ?r "file_of recs" f "fresh_file N" "[]" "[]" "[]"] xs(1,4) f(1,4,8) c by auto
  have "length b' + length q' \<le> N" using r1(2) size f(2,4) by (metis le_trans length_append)
  then have fl: "fflush (stream (fresh_file N) b' q') = ?c"
    using r1(2) by (simp add: fflush_stream) (simp add: stream_def fresh_file_def)
  let ?r' = "r1\<lparr>dataFile := Some (fseek_set 0 ?c\<lparr>writable := True\<rparr>), fileSize := 0\<rparr>"
  have r1': "keyTable r1 = keyTable r" "next_free r1 = next_free r" "cacheTable r1 = None" "\<not> store_error r1"
    "filePath r1" "minimumDirtySize r1 = 0"
    using r1(3) f(7) by (auto simp: compacting_def)
  obtain f1 where f1: "dataFile r1 = Some f1" using r1(3) by (auto simp: compacting_def)
  have comp: "ILibSimpleDataStore_Compact (good_env N) r = Some (?r', 0)"
    using f(7) r1' f1 r1(1) fl by (simp add: ILibSimpleDataStore_Compact_def good_env_def xs(3))
  have "\<forall>e \<in> set ?recs. rec_ok sha e \<and> fst e \<in> K" using sub f(5) by blast
  moreover have "keys_inv K (keyTable r) (entries r1) (next_free r) (file_of ?recs) (log_map ?recs)"
    unfolding M(1) using xs(7) r1(4) by blast
  ultimately have "sds_ok sha K N ?r' ?recs"
    using size f(2-4) r1' unfolding sds_ok_def by (simp add: fresh_file_def fseek_set_def)
  moreover have "\<forall>e \<in> set ?recs. fst (snd e) \<noteq> []" using ne by auto
  ultimately show ?thesis using comp M sub by blast
qed

text \<open>
  C33 (refinement): \<open>ILibSimpleDataStore_Compact\<close> keeps the map, for a store on keys and values as in \<open>datastore_is_map\<close> and a temporary file with
  as much room as the data file: the new file is the record of key, value and hash for each key that has a value, in some order
  and each once, and nothing else, so it is no longer than the old one.  Afterwards every key has its value, and, when there is a key with a value, also
  for a store that opens the new file.
\<close>

theorem datastore_compaction_keeps_map:
  assumes "store_env sha K V" "ops_fit K V N cs" "k \<in> K" "length buf \<le> INT32_MAX"
  shows "\<exists>r r' f r2 f2 recs. ILibSimpleDataStore_CreateEx2 sha (good_env N) (Some (Some (fresh_file N))) = Some (Some r)
    \<and> run_ops (sput sha env) sdel cs r = Some r' \<and> dataFile r' = Some f
    \<and> ILibSimpleDataStore_Compact (good_env N) r' = Some (r2, 0) \<and> dataFile r2 = Some f2
    \<and> bytes f2 = concat (map enc recs) \<and> distinct (map fst recs)
    \<and> set recs = {(k, v, sha v) |k v. run_map (\<lambda>k. k) cs Map.empty k = Some v}
    \<and> length (bytes f2) \<le> length (bytes f)
    \<and> (\<exists>r3 n b. ILibSimpleDataStore_GetEx sha z r2 k (Some buf) (length buf) = Some (r3, n, Some b)
        \<and> answer (run_map (\<lambda>k. k) cs Map.empty k) buf n b)
    \<and> (run_map (\<lambda>k. k) cs Map.empty \<noteq> Map.empty \<longrightarrow>
        (\<exists>r4 r5 n b. ILibSimpleDataStore_CreateEx2 sha env2 (Some (Some f2)) = Some (Some r4)
          \<and> ILibSimpleDataStore_GetEx sha z r4 k (Some buf) (length buf) = Some (r5, n, Some b)
          \<and> answer (run_map (\<lambda>k. k) cs Map.empty k) buf n b))"
proof -
  have e: "plain_keys K" "inj_on hk_hash ({0} \<times> K)" using assms(1) by (simp_all add: store_env_def)
  obtain r r' recs where r: "ILibSimpleDataStore_CreateEx2 sha (good_env N) (Some (Some (fresh_file N))) = Some (Some r)"
    "run_ops (sput sha env) sdel cs r = Some r'" "sds_ok sha K N r' recs" "vals_in sha V recs"
    "\<forall>k. map_option fst (log_map recs k) = run_map (\<lambda>k. k) cs Map.empty k"
    by (rule Create_run [OF assms(1,2)])
  obtain f where f: "dataFile r' = Some f" "bytes f = file_of recs"
    using r(3) by (rule sds_cases)
  obtain r2 recs2 where r2: "ILibSimpleDataStore_Compact (good_env N) r' = Some (r2, 0)" "sds_ok sha K N r2 recs2"
    "log_map recs2 = log_map recs" "distinct (map fst recs2)" "set recs2 \<subseteq> set recs" "\<forall>e \<in> set recs2. fst (snd e) \<noteq> []"
    using Compact_sds [OF r(3) e(1)] by blast
  obtain f2 where f2: "dataFile r2 = Some f2" "bytes f2 = file_of recs2" "length (bytes f2) \<le> N" "N < SIZE_MOD" "writable f2" "room f2 = N"
    "\<forall>e \<in> set recs2. rec_ok sha e \<and> fst e \<in> K" "pending f2 = []"
    using r2(2) by (rule sds_cases)
  let ?m = "run_map (\<lambda>k. k) cs Map.empty"
  have m: "map_of recs2 = log_map recs" using log_map_distinct [OF r2(4,6)] r2(3) by simp
  have "(k, v, h) \<in> set recs2 \<longleftrightarrow> ?m k = Some v \<and> h = sha v" for k v h
  proof -
    have "(k, v, h) \<in> set recs2 \<longleftrightarrow> log_map recs k = Some (v, h)" using map_of_eq_Some_iff [OF r2(4)] m by metis
    also have "\<dots> \<longleftrightarrow> ?m k = Some v \<and> h = sha v"
      using r(4) r(5) [rule_format, of k] unfolding vals_in_def by (cases "log_map recs k") force+
    finally show ?thesis .
  qed
  then have recs: "set recs2 = {(k, v, sha v) |k v. ?m k = Some v}" by auto
  have "distinct recs2" using r2(4) by (metis distinct_map)
  then have size: "length (bytes f2) \<le> length (bytes f)"
    unfolding f(2) f2(2) length_file_of using r2(5) by (rule sum_list_subset)
  have ans: "\<exists>r3 n b. ILibSimpleDataStore_GetEx sha z s k (Some buf) (length buf) = Some (r3, n, Some b) \<and> answer (?m k) buf n b"
    if "sds_ok sha K N s recs2" for s
    using Get_answer [OF sds_view [OF that] get_cached_None e(1) assms(3,4), of z] that r2(3) r(5)
    unfolding sds_ok_def by metis
  have "\<exists>r4. ILibSimpleDataStore_CreateEx2 sha env2 (Some (Some f2)) = Some (Some r4) \<and> sds_ok sha K N r4 recs2" if "?m \<noteq> Map.empty"
  proof -
    have "log_map recs2 \<noteq> Map.empty" using that r(5) r2(3) by (metis (no_types) map_option_is_None ext)
    then show ?thesis using Create_log [of f2 recs2 "[]" sha N K env2] f2 e(2) by auto
  qed
  with ans have "?m \<noteq> Map.empty \<longrightarrow> (\<exists>r4 r5 n b. ILibSimpleDataStore_CreateEx2 sha env2 (Some (Some f2)) = Some (Some r4)
      \<and> ILibSimpleDataStore_GetEx sha z r4 k (Some buf) (length buf) = Some (r5, n, Some b) \<and> answer (?m k) buf n b)"
    by blast
  moreover have "bytes f2 = concat (map enc recs2)" using f2(2) by (simp add: file_of_def)
  ultimately show ?thesis using r(1,2) f(1) r2(1,4) f2(1) recs size ans [OF r2(2)] by blast
qed

lemma datastore_compaction_keeps_map_witness:
  "\<exists>r r' r2 f2 r3. ILibSimpleDataStore_CreateEx2 pad48 (good_env 200) (Some (Some (fresh_file 200))) = Some (Some r)
    \<and> run_ops (sput pad48 (good_env 200)) sdel [Inl (str ''a'', str ''vw'')] r = Some r'
    \<and> ILibSimpleDataStore_Compact (good_env 200) r' = Some (r2, 0) \<and> dataFile r2 = Some f2
    \<and> bytes f2 = enc (str ''a'', str ''vw'', pad48 (str ''vw''))
    \<and> ILibSimpleDataStore_GetEx pad48 (\<lambda>_. []) r2 (str ''a'') (Some [7, 7]) (length [7, 7 :: byte]) = Some (r3, 2, Some (str ''vw''))"
proof -
  let ?m = "run_map (\<lambda>k. k) [Inl (str ''a'', str ''vw'')] Map.empty"
  from datastore_compaction_keeps_map [OF sample_env, of "str ''a''" "[7, 7]" "good_env 200" "\<lambda>_. []" "good_env 200"]
  obtain r r' r2 f2 r3 recs n b where w:
    "ILibSimpleDataStore_CreateEx2 pad48 (good_env 200) (Some (Some (fresh_file 200))) = Some (Some r)"
    "run_ops (sput pad48 (good_env 200)) sdel [Inl (str ''a'', str ''vw'')] r = Some r'"
    "ILibSimpleDataStore_Compact (good_env 200) r' = Some (r2, 0)" "dataFile r2 = Some f2"
    "ILibSimpleDataStore_GetEx pad48 (\<lambda>_. []) r2 (str ''a'') (Some [7, 7]) (length [7, 7 :: byte]) = Some (r3, n, Some b)"
    and a: "answer (?m (str ''a'')) [7, 7] n b"
    and recs: "bytes f2 = concat (map enc recs)" "distinct (map fst recs)" "set recs = {(k, v, pad48 v) |k v. ?m k = Some v}"
    by (auto simp: INT32_MAX_def)
  have "set recs = {(str ''a'', str ''vw'', pad48 (str ''vw''))}" using recs(3) by auto
  moreover have "distinct recs" using recs(2) by (metis distinct_map)
  ultimately have "recs = [(str ''a'', str ''vw'', pad48 (str ''vw''))]"
    by (cases recs; cases "tl recs") auto
  then have "bytes f2 = enc (str ''a'', str ''vw'', pad48 (str ''vw''))" using recs(1) by simp
  moreover have "n = 2 \<and> b = str ''vw''" using a by (simp add: answer_def)
  ultimately show ?thesis using w by blast
qed

end
