(* ===== verification/AgentCore.thy ===== *)
theory AgentCore
  imports DataStoreCompact
begin

text \<open>
  The control channel of the agent, from meshcore/agentcore.c: authentication with the server,
  the binary commands, the reassembly of messages that arrive in pieces, and the update of the
  agent's binary.

  The state is the part of \<open>MeshAgentHostContainer\<close> these functions use; \<open>masterDb\<close> is a data store.
  What the agent does to the outside (sending, starting and stopping scripts, writing the
  update file) is appended to \<open>actions\<close>, and the update file itself is a field.  OpenSSL, zlib, the
  JavaScript engine and the file system are the functions of \<open>agent_env\<close>.  Modelled are the POSIX
  branches, for a connection with TLS.  \<open>None\<close> is undefined behaviour or the exit of the process.
\<close>

unbundle bit_operations_syntax

section \<open>State and environment\<close>

datatype action =
    Send_binary "byte list"
  | Send_text "byte list"
  | Emit_Connected bool
  | Emit_Command "byte list"
  | Emit_idleTimeoutModeChanged
  | Pong_received
  | Core_stop
  | Core_start "byte list"
  | Set_uid "byte list"
  | Update_failed
  | Unzip_update
  | Stop_chain
  | Reconnect
  | Ping
  | Disconnect

record MeshAgentHostContainer =
  masterDb :: ILibSimpleDataStore_Root
  controlChannel :: bool
  controlChannelPartialBuffer :: "byte list option"
  controlChannelPartialBufferLen :: nat
  controlChannelPartialBufferSize :: nat
  controlChannelPartialOverflow :: bool
  localScript :: bool
  version :: nat
  capabilities :: nat
  hostname :: "byte list"
  batteryState :: nat
  meshId :: "byte list"
  performSelfUpdate :: nat
  disableUpdate :: bool
  forceUpdate :: bool
  fakeUpdate :: bool
  coreTimeout :: bool
  jsDebugPort :: nat
  agentHash :: "byte list"
  serverHash :: "byte list"
  serverNonce :: "byte list"
  agentNonce :: "byte list"
  serverAuthState :: u32
  controlChannel_idleTimeout_seconds :: nat
  controlChannel_idleTimeout_dataMode :: bool
  serverConnectionState :: nat
  data_pings :: nat
  pong_timer :: bool
  update_file :: "byte list option"
  errno_range :: bool
  actions :: "action list"

text \<open>
  The arguments of the model.  \<open>X509_digest\<close> is the SHA-384 of a certificate, \<open>X509_pubkey_digest\<close> and
  \<open>X509_pubkey_digest256\<close> the hashes of its key; \<open>RSA_verify\<close> checks a signature of a hash with the
  key of a certificate, \<open>RSA_sign\<close> signs with the agent's.  \<open>json_action\<close> is what \<open>JSON.parse\<close> finds
  under \<open>action\<close> (\<open>None\<close> if the text does not parse or has no such property).
\<close>

record 'c agent_env =
  SHA384 :: "byte list \<Rightarrow> byte list"
  X509_digest :: "'c \<Rightarrow> byte list"
  X509_pubkey_digest :: "'c \<Rightarrow> byte list"
  X509_pubkey_digest256 :: "'c \<Rightarrow> byte list"
  d2i_X509 :: "byte list \<Rightarrow> 'c option"
  RSA_verify :: "'c \<Rightarrow> byte list \<Rightarrow> byte list \<Rightarrow> bool"
  RSA_sign :: "byte list \<Rightarrow> byte list option"
  selfcert :: "byte list"
  inflate :: "byte list \<Rightarrow> byte list list"
  deflate :: "byte list \<Rightarrow> byte list list"
  fs :: fs_env
  disk_room :: nat
  json_action :: "byte list \<Rightarrow> byte list option"
  setuid_setting :: "byte list option"
  isVM :: bool
  isBatteryPowered :: bool
  isZip :: "byte list \<Rightarrow> bool"
  fake_binary :: "byte list"
  host_info :: "byte list option"
  MESH_AGENTID :: nat
  SOURCE_COMMIT_DATE :: "byte list"
  scratch :: "byte list"

definition MeshCommand_AuthRequest :: nat where "MeshCommand_AuthRequest = 1"
definition MeshCommand_AuthVerify :: nat where "MeshCommand_AuthVerify = 2"
definition MeshCommand_AuthInfo :: nat where "MeshCommand_AuthInfo = 3"
definition MeshCommand_AuthConfirm :: nat where "MeshCommand_AuthConfirm = 4"
definition MeshCommand_ServerId :: nat where "MeshCommand_ServerId = 5"
definition MeshCommand_CoreModule :: nat where "MeshCommand_CoreModule = 10"
definition MeshCommand_CoreModuleHash :: nat where "MeshCommand_CoreModuleHash = 11"
definition MeshCommand_AgentHash :: nat where "MeshCommand_AgentHash = 12"
definition MeshCommand_AgentUpdate :: nat where "MeshCommand_AgentUpdate = 13"
definition MeshCommand_AgentUpdateBlock :: nat where "MeshCommand_AgentUpdateBlock = 14"
definition MeshCommand_AgentTag :: nat where "MeshCommand_AgentTag = 15"
definition MeshCommand_CoreOk :: nat where "MeshCommand_CoreOk = 16"
definition MeshCommand_CompressedCoreModule :: nat where "MeshCommand_CompressedCoreModule = 20"
definition MeshCommand_AgentCommitDate :: nat where "MeshCommand_AgentCommitDate = 30"
definition MeshCommand_HostInfo :: nat where "MeshCommand_HostInfo = 31"

lemmas MeshCommands_Binary =
  MeshCommand_AuthRequest_def MeshCommand_AuthVerify_def MeshCommand_AuthInfo_def MeshCommand_AuthConfirm_def
  MeshCommand_ServerId_def MeshCommand_CoreModule_def MeshCommand_CoreModuleHash_def MeshCommand_AgentHash_def
  MeshCommand_AgentUpdate_def MeshCommand_AgentUpdateBlock_def MeshCommand_AgentTag_def MeshCommand_CoreOk_def
  MeshCommand_CompressedCoreModule_def MeshCommand_AgentCommitDate_def MeshCommand_HostInfo_def

text \<open>16 bit integers in network order.\<close>

definition htons :: "nat \<Rightarrow> byte list" where
  "htons n = [of_nat (n div 256), of_nat n]"

definition ntohs :: "byte list \<Rightarrow> nat option" where
  "ntohs b = do { hi \<leftarrow> rd b 0; lo \<leftarrow> rd b 1; Some (256 * unat hi + unat lo) }"

definition act :: "action \<Rightarrow> MeshAgentHostContainer \<Rightarrow> MeshAgentHostContainer" where
  "act x a = a\<lparr>actions := actions a @ [x]\<rparr>"

abbreviation send :: "byte list \<Rightarrow> MeshAgentHostContainer \<Rightarrow> MeshAgentHostContainer" where
  "send m \<equiv> act (Send_binary m)"

text \<open>The data store as the agent calls it; the result of a read is the value, \<open>None\<close> for the returned length 0.\<close>

definition db_get :: "'c agent_env \<Rightarrow> byte list \<Rightarrow> byte list option \<Rightarrow> nat \<Rightarrow> MeshAgentHostContainer
    \<Rightarrow> (MeshAgentHostContainer \<times> int \<times> byte list option) option" where
  "db_get env k buf n a = do {
     (db, len, b) \<leftarrow> ILibSimpleDataStore_GetEx (SHA384 env) (inflate env) (masterDb a) k buf n;
     Some (a\<lparr>masterDb := db\<rparr>, len, b) }"

definition db_put :: "'c agent_env \<Rightarrow> byte list \<Rightarrow> byte list \<Rightarrow> MeshAgentHostContainer \<Rightarrow> MeshAgentHostContainer option" where
  "db_put env k v a = do {
     (db, _) \<leftarrow> ILibSimpleDataStore_PutEx2 (SHA384 env) (fs env) (masterDb a) k v None;
     Some (a\<lparr>masterDb := db\<rparr>) }"

definition db_delete :: "byte list \<Rightarrow> MeshAgentHostContainer \<Rightarrow> MeshAgentHostContainer option" where
  "db_delete k a = do {
     (db, _) \<leftarrow> ILibSimpleDataStore_DeleteEx (masterDb a) k;
     Some (a\<lparr>masterDb := db\<rparr>) }"

section \<open>Authentication\<close>

definition MeshServer_ServerAuthenticated :: "'c agent_env \<Rightarrow> MeshAgentHostContainer \<Rightarrow> MeshAgentHostContainer option" where
  "MeshServer_ServerAuthenticated env a = do {
     (a, len, b) \<leftarrow> db_get env (str ''Tag'') (Some (replicate 65534 0)) 65534 a;
     b \<leftarrow> b;
     let a = send (htons MeshCommand_AgentTag @ take (nat len) b) a;
     Some (if serverAuthState a = 3 then act (Emit_Connected True) a else a) }"

definition auth_info :: "'c agent_env \<Rightarrow> MeshAgentHostContainer \<Rightarrow> byte list" where
  "auth_info env a =
     (let battery = (if batteryState a \<noteq> 3 \<and> batteryState a \<noteq> 0 then 2 else 1);
          platform = (if isVM env then 8 else if isBatteryPowered env then 2 else battery) in
      htons MeshCommand_AuthInfo @ htonl 1 @ htonl (int (MESH_AGENTID env)) @ htonl (int (version a)) @ htonl platform
      @ take 48 (meshId a @ replicate 48 0) @ htonl (int (capabilities a)) @ htons (length (hostname a)) @ hostname a)"

definition MeshServer_SendAgentInfo :: "'c agent_env \<Rightarrow> MeshAgentHostContainer \<Rightarrow> MeshAgentHostContainer option" where
  "MeshServer_SendAgentInfo env a = do {
     (a, len, _) \<leftarrow> db_get env (str ''agentName'') None 0 a;
     a \<leftarrow> (if 0 < len \<and> len < 255
       then do {
         (a, _, b) \<leftarrow> db_get env (str ''agentName'') (Some (replicate 255 0)) 255 a;
         b \<leftarrow> b;
         Some (act (Send_text (str ''{'' @ [34] @ str ''action'' @ [34] @ str '':'' @ [34] @ str ''agentName'' @ [34] @ str '','' @ [34]
           @ str ''value'' @ [34] @ str '':'' @ [34] @ takeWhile (\<lambda>c. c \<noteq> 0) b @ [34] @ str ''}'')) a) }
       else Some a);
     let a = send (auth_info env a) a;
     if serverAuthState a = 3 then MeshServer_ServerAuthenticated env a else Some a }"

text \<open>The request of the server: it must name the certificate of this TLS connection (or its key); the answer is signed.\<close>

definition auth_request :: "'c agent_env \<Rightarrow> 'c \<Rightarrow> byte list \<Rightarrow> MeshAgentHostContainer \<Rightarrow> MeshAgentHostContainer" where
  "auth_request env peer cmd a =
     (if length cmd \<noteq> 98 then a
      else let hash = slice cmd 2 48 in
      if X509_digest env peer \<noteq> hash \<and> X509_pubkey_digest env peer \<noteq> hash then a
      else let a = a\<lparr>serverNonce := slice cmd 50 48\<rparr> in
      (case RSA_sign env (SHA384 env (hash @ serverNonce a @ agentNonce a)) of
         None \<Rightarrow> a
       | Some sig \<Rightarrow> send (htons MeshCommand_AuthVerify @ htons (length (selfcert env)) @ selfcert env @ sig) a))"

text \<open>The answer of the server: its certificate must be the one of the agent's policy, and its signature that of this connection.\<close>

definition auth_digest :: "'c agent_env \<Rightarrow> 'c \<Rightarrow> MeshAgentHostContainer \<Rightarrow> byte list" where
  "auth_digest env peer a = SHA384 env (X509_digest env peer @ agentNonce a @ serverNonce a)"

definition auth_verify :: "'c agent_env \<Rightarrow> 'c \<Rightarrow> byte list \<Rightarrow> MeshAgentHostContainer \<Rightarrow> MeshAgentHostContainer option" where
  "auth_verify env peer cmd a =
     (if length cmd \<le> 8 then Some a
      else do {
        certLen \<leftarrow> ntohs (drop 2 cmd);
        if length cmd \<le> 4 + certLen then Some a
        else let signatureLen = (length cmd - (4 + certLen)) mod 65536;
                 signature = slice cmd (4 + certLen) signatureLen in
        (case d2i_X509 env (slice cmd 4 certLen) of
           None \<Rightarrow> Some a
         | Some cert \<Rightarrow>
             if X509_pubkey_digest env cert \<noteq> serverHash a
                \<and> X509_pubkey_digest256 env cert \<noteq> take 32 (serverHash a) then Some a
             else if RSA_verify env cert (auth_digest env peer a) signature
             then do {
               let a = a\<lparr>serverAuthState := serverAuthState a OR 1\<rparr>;
               a \<leftarrow> db_put env (str ''ServerTlsCertHash'') (X509_digest env peer) a;
               MeshServer_SendAgentInfo env a }
             else Some a) })"

definition auth_confirm :: "'c agent_env \<Rightarrow> MeshAgentHostContainer \<Rightarrow> MeshAgentHostContainer option" where
  "auth_confirm env a =
     (let a = a\<lparr>serverAuthState := serverAuthState a OR 2\<rparr> in
      if serverAuthState a = 3 then MeshServer_ServerAuthenticated env a else Some a)"

section \<open>Commands\<close>

text \<open>JSON and the commands from 1000 on go to the script.  A ping switches the idle timer to data mode.\<close>

definition command_to_script :: "'c agent_env \<Rightarrow> byte list \<Rightarrow> MeshAgentHostContainer \<Rightarrow> MeshAgentHostContainer" where
  "command_to_script env cmd a =
     (let a = (if hd cmd = 123
        then (if json_action env cmd = Some (str ''ping'')
          then (let a = (if \<not> controlChannel_idleTimeout_dataMode a then act Emit_idleTimeoutModeChanged a else a)
                in a\<lparr>controlChannel_idleTimeout_dataMode := True\<rparr>)
          else if json_action env cmd = Some (str ''pong'') \<and> 0 < data_pings a
          then act Pong_received (a\<lparr>data_pings := data_pings a - 1\<rparr>)
          else a)
        else a)
      in act (Emit_Command cmd) a)"

definition core_hash_reply :: "nat \<Rightarrow> byte list \<Rightarrow> MeshAgentHostContainer \<Rightarrow> MeshAgentHostContainer" where
  "core_hash_reply requestid h a = send (htons MeshCommand_CoreModuleHash @ htons requestid @ h) a"

text \<open>\<open>ScriptEngine_Restart\<close> runs the script behind the first four bytes; a module without one is undefined.\<close>

definition ScriptEngine_Restart :: "byte list \<Rightarrow> MeshAgentHostContainer \<Rightarrow> MeshAgentHostContainer option" where
  "ScriptEngine_Restart coremodule a =
     (if length coremodule \<le> 4 then None else Some (act (Core_start (drop 4 coremodule)) (act Core_stop a)))"

text \<open>The decompressed module; \<open>None\<close> in the inner option if it does not decompress.\<close>

definition decompress_core :: "'c agent_env \<Rightarrow> byte list \<Rightarrow> byte list option option" where
  "decompress_core env coremodule = do {
     (ret, _, n) \<leftarrow> ILibInflate (inflate env) coremodule None 0 0;
     if ret \<noteq> 0 then Some None
     else do {
       (ret, b, n) \<leftarrow> ILibInflate (inflate env) coremodule (Some (replicate n 0)) n 0;
       Some (if ret = 0 then map_option (take n) b else None) } }"

definition core_module :: "'c agent_env \<Rightarrow> nat \<Rightarrow> nat \<Rightarrow> byte list \<Rightarrow> MeshAgentHostContainer \<Rightarrow> MeshAgentHostContainer option" where
  "core_module env command requestid cmd a =
     (if localScript a then Some a
      else if length cmd > 52
      then let coreModuleHash = slice cmd 4 48 in do {
        hashref \<leftarrow> ILibSimpleDataStore_GetHashEx (masterDb a) (str ''CoreModule'');
        if hashref = Some coreModuleHash
        then Some (core_hash_reply requestid coreModuleHash a)
        else do {
          let a = a\<lparr>coreTimeout := False\<rparr>;
          coremodule \<leftarrow> (if command = MeshCommand_CompressedCoreModule then decompress_core env (drop 52 cmd)
                        else Some (Some (drop 52 cmd)));
          (case coremodule of
             None \<Rightarrow> Some a
           | Some coremodule \<Rightarrow> do {
               (db, _) \<leftarrow> ILibSimpleDataStore_PutCompressed (SHA384 env) (deflate env) (fs env) (masterDb a) (str ''CoreModule'') coremodule;
               let a = a\<lparr>masterDb := db\<rparr>;
               hashref \<leftarrow> ILibSimpleDataStore_GetHashEx (masterDb a) (str ''CoreModule'');
               hashref \<leftarrow> hashref;
               if hashref \<noteq> coreModuleHash
               then do {
                 a \<leftarrow> db_delete (str ''CoreModule'') a;
                 Some (core_hash_reply requestid [] (act Core_stop a)) }
               else do {
                 a \<leftarrow> ScriptEngine_Restart coremodule a;
                 (db, _) \<leftarrow> ILibSimpleDataStore_Compact (fs env) (masterDb a);
                 Some (core_hash_reply requestid hashref (a\<lparr>masterDb := db\<rparr>)) } }) } }
      else if length cmd = 4
      then do {
        a \<leftarrow> db_delete (str ''CoreModule'') a;
        Some (core_hash_reply requestid [] (act Core_stop a)) }
      else Some a)"

definition core_module_hash :: "nat \<Rightarrow> MeshAgentHostContainer \<Rightarrow> MeshAgentHostContainer option" where
  "core_module_hash requestid a = do {
     hashref \<leftarrow> ILibSimpleDataStore_GetHashEx (masterDb a) (str ''CoreModule'');
     Some (core_hash_reply requestid
       (if localScript a then replicate 48 0 else (case hashref of None \<Rightarrow> [] | Some h \<Rightarrow> h)) a) }"

definition debug_prefix :: "nat \<Rightarrow> byte list" where
  "debug_prefix port = str ''attachDebugger({ webport: '' @ dec_string port @ str '', wait: 1 }).then(function (prt) { console.log('' @ [39]
     @ str ''Point Browser for Debug to port: '' @ [39] @ str '' + prt); });'' @ [10]"

text \<open>With a debug port the prefix is copied over the first eight bytes of the stored module; a shorter module exits the process.\<close>

definition core_ok :: "'c agent_env \<Rightarrow> MeshAgentHostContainer \<Rightarrow> MeshAgentHostContainer option" where
  "core_ok env a = do {
     let a = (case setuid_setting env of None \<Rightarrow> a | Some uid \<Rightarrow> act (Set_uid uid) a);
     if \<not> coreTimeout a then Some a
     else do {
       let a = a\<lparr>coreTimeout := False\<rparr>;
       (a, len, _) \<leftarrow> db_get env (str ''CoreModule'') None 0 a;
       let n = nat len;
       if n \<le> 4 then Some a
       else if jsDebugPort a \<noteq> 0
       then do {
         let tmp = debug_prefix (jsDebugPort a);
         (a, _, b) \<leftarrow> db_get env (str ''CoreModule'') (Some (replicate (n + 4) 0)) (n + length tmp) a;
         b \<leftarrow> b;
         if length tmp > n - 4 then None
         else Some (act (Core_start (tmp @ drop 8 (take n b))) a) }
       else do {
         (a, _, b) \<leftarrow> db_get env (str ''CoreModule'') (Some (replicate n 0)) n a;
         b \<leftarrow> b;
         Some (act (Core_start (drop 4 b)) a) } } }"

section \<open>Update of the binary\<close>

definition agent_hash_reply :: "nat \<Rightarrow> MeshAgentHostContainer \<Rightarrow> MeshAgentHostContainer" where
  "agent_hash_reply requestid a = send (htons MeshCommand_AgentHash @ htons requestid @
     (if disableUpdate a then replicate 48 0 else if forceUpdate a then replicate 48 255 else take 48 (agentHash a))) a"

definition exeMeshPolicyGuid :: "byte list" where
  "exeMeshPolicyGuid = [0xB9, 0x96, 0x01, 0x58, 0x80, 0x54, 0x4A, 0x19, 0xB7, 0xF7, 0xE9, 0xBE, 0x44, 0x91, 0x4C, 0x19]"

text \<open>
  The hash of a binary covers the bytes before an embedded policy: its text, its length in four
  bytes, and the GUID.  \<open>pad\<close> is the old content of the scratch pad, which a file of less than 16 bytes
  does not overwrite.
\<close>

definition GenerateSHA384FileHash :: "(byte list \<Rightarrow> byte list) \<Rightarrow> byte list \<Rightarrow> byte list option \<Rightarrow> byte list option" where
  "GenerateSHA384FileHash sha pad file = (case file of
     None \<Rightarrow> None
   | Some f \<Rightarrow>
       let n = length f;
           endIndex =
             (if take 16 (overwrite pad 0 (if n < 16 then f else drop (n - 16) f)) = exeMeshPolicyGuid
              then (if n < 20 then int n - 4
                    else int n - 20 - ntohl (slice f (n - 20) 4))
              else int n) mod 2 ^ 32
       in Some (sha (if endIndex = 0 then f else take (nat endIndex) f)))"

definition MeshServer_selfupdate_continue :: "'c agent_env \<Rightarrow> MeshAgentHostContainer \<Rightarrow> MeshAgentHostContainer option" where
  "MeshServer_selfupdate_continue env a = do {
     (a, len, b) \<leftarrow> db_get env (str ''StartupType'') (Some (replicate 4096 0)) 4096 a;
     a \<leftarrow> (if 0 < len \<and> len < 4096
       then do {
         b \<leftarrow> b;
         (r, v, e) \<leftarrow> ILib_atoi_uint32_ex (errno_range a) b (nat len) INT32_MAX;
         Some (a\<lparr>performSelfUpdate := v, errno_range := e\<rparr>) }
       else Some a);
     Some (act Stop_chain (if performSelfUpdate a = 0 then a\<lparr>performSelfUpdate := 999\<rparr> else a)) }"

definition agent_update :: "'c agent_env \<Rightarrow> byte list \<Rightarrow> MeshAgentHostContainer \<Rightarrow> MeshAgentHostContainer option" where
  "agent_update env cmd a =
     (if disableUpdate a then Some a
      else if length cmd = 4 then Some (a\<lparr>update_file := None\<rparr>)
      else if length cmd = 52
      then (if GenerateSHA384FileHash (SHA384 env) (scratch env) (update_file a) = Some (slice cmd 4 48)
        then do {
          let a = (if fakeUpdate a then a\<lparr>update_file := Some (fake_binary env)\<rparr> else a);
          a \<leftarrow> (if fakeUpdate a \<or> forceUpdate a then db_put env (str ''disableUpdate'') (str ''1'') a else Some a);
          if isZip env (the (update_file a)) then Some (act Unzip_update a)
          else MeshServer_selfupdate_continue env a }
        else Some (a\<lparr>update_file := None\<rparr>))
      else Some a)"

text \<open>\<open>util_appendfile\<close>: \<open>fwrite\<close> of one block; what fits is written, and only a whole block that is not empty counts.\<close>

definition util_appendfile :: "'c agent_env \<Rightarrow> byte list \<Rightarrow> byte list option \<Rightarrow> byte list option \<times> bool" where
  "util_appendfile env d file =
     (let f = (case file of None \<Rightarrow> [] | Some f \<Rightarrow> f); w = take (disk_room env - length f) d
      in (Some (f @ w), d \<noteq> [] \<and> length w = length d))"

function append_retry :: "'c agent_env \<Rightarrow> byte list \<Rightarrow> byte list option \<Rightarrow> nat \<Rightarrow> byte list option \<times> nat" where
  "append_retry env d file retryCount =
     (let (file, ok) = util_appendfile env d file in
      if ok then (file, retryCount)
      else if retryCount + 1 < 4 then append_retry env d file (retryCount + 1)
      else (file, retryCount + 1))"
  by pat_completeness auto
termination by (relation "measure (\<lambda>(env, d, file, n). 4 - n)") auto

declare append_retry.simps [simp del]

definition agent_update_block :: "'c agent_env \<Rightarrow> nat \<Rightarrow> byte list \<Rightarrow> MeshAgentHostContainer \<Rightarrow> MeshAgentHostContainer" where
  "agent_update_block env requestid cmd a =
     (if disableUpdate a then a
      else let (file, retryCount) = append_retry env (drop 4 cmd) (update_file a) 0;
               a = a\<lparr>update_file := file\<rparr> in
      if retryCount < 4 then send (htons MeshCommand_AgentUpdateBlock @ htons requestid) a
      else act Update_failed a)"

section \<open>Dispatch\<close>

definition process_auth :: "'c agent_env \<Rightarrow> 'c \<Rightarrow> nat \<Rightarrow> byte list \<Rightarrow> MeshAgentHostContainer \<Rightarrow> MeshAgentHostContainer option" where
  "process_auth env peer command cmd a =
     (if command = MeshCommand_AuthRequest then Some (auth_request env peer cmd a)
      else if command = MeshCommand_AuthVerify then auth_verify env peer cmd a
      else if command = MeshCommand_AuthConfirm then auth_confirm env a
      else Some a)"

definition process_binary :: "'c agent_env \<Rightarrow> nat \<Rightarrow> nat \<Rightarrow> byte list \<Rightarrow> MeshAgentHostContainer \<Rightarrow> MeshAgentHostContainer option" where
  "process_binary env command requestid cmd a =
     (if command = MeshCommand_CompressedCoreModule \<or> command = MeshCommand_CoreModule then core_module env command requestid cmd a
      else if command = MeshCommand_CoreModuleHash then core_module_hash requestid a
      else if command = MeshCommand_CoreOk then core_ok env a
      else if command = MeshCommand_AgentHash then Some (agent_hash_reply requestid a)
      else if command = MeshCommand_AgentUpdate then agent_update env cmd a
      else if command = MeshCommand_AgentUpdateBlock then Some (agent_update_block env requestid cmd a)
      else Some a)"

definition MeshServer_ProcessCommand :: "'c agent_env \<Rightarrow> 'c \<Rightarrow> byte list \<Rightarrow> MeshAgentHostContainer \<Rightarrow> MeshAgentHostContainer option" where
  "MeshServer_ProcessCommand env peer cmd a = do {
     command \<leftarrow> ntohs cmd;
     if serverAuthState a \<noteq> 3 then process_auth env peer command cmd a
     else if command < 10 then Some a
     else if hd cmd = 123 \<or> 1000 \<le> command then Some (command_to_script env cmd a)
     else if length cmd < 4 then Some a
     else do { requestid \<leftarrow> ntohs (drop 2 cmd); process_binary env command requestid cmd a } }"

section \<open>Reassembly\<close>

definition MESH_SERVER_MAX_REASSEMBLED_MESSAGE_SIZE :: nat where
  "MESH_SERVER_MAX_REASSEMBLED_MESSAGE_SIZE = 67108864"

definition MeshServer_ControlChannel_ResetPartial :: "MeshAgentHostContainer \<Rightarrow> MeshAgentHostContainer" where
  "MeshServer_ControlChannel_ResetPartial a = a\<lparr>controlChannelPartialBuffer := None,
     controlChannelPartialBufferLen := 0, controlChannelPartialBufferSize := 0\<rparr>"

text \<open>The doubling of the allocation; it starts at a size that is not 0.\<close>

function grow_size :: "nat \<Rightarrow> nat \<Rightarrow> nat" where
  "grow_size newSize needed = (if newSize < needed \<and> 0 < newSize then grow_size (newSize * 2) needed else newSize)"
  by pat_completeness auto
termination by (relation "measure (\<lambda>(newSize, needed). needed - newSize)") auto

declare grow_size.simps [simp del]

text \<open>
  The buffer is the list of the \<open>controlChannelPartialBufferLen\<close> bytes in use.  The bounded copy exits the
  process if the bytes do not fit in the allocation (\<open>None\<close>).
\<close>

definition MeshServer_ControlChannel_AppendPartial ::
  "byte list \<Rightarrow> MeshAgentHostContainer \<Rightarrow> (MeshAgentHostContainer \<times> int) option" where
  "MeshServer_ControlChannel_AppendPartial data a =
     (if data = [] then Some (a, 0)
      else if length data > MESH_SERVER_MAX_REASSEMBLED_MESSAGE_SIZE - controlChannelPartialBufferLen a then Some (a, 1)
      else let needed = controlChannelPartialBufferLen a + length data;
               size = controlChannelPartialBufferSize a;
               a = (if needed > size
                 then a\<lparr>controlChannelPartialBufferSize :=
                        min MESH_SERVER_MAX_REASSEMBLED_MESSAGE_SIZE (grow_size (if size = 0 then 131072 else size) needed),
                      controlChannelPartialBuffer :=
                        Some (case controlChannelPartialBuffer a of None \<Rightarrow> [] | Some b \<Rightarrow> b)\<rparr>
                 else a)
           in (if length data > controlChannelPartialBufferSize a - controlChannelPartialBufferLen a then None
               else do {
                 b \<leftarrow> controlChannelPartialBuffer a;
                 Some (a\<lparr>controlChannelPartialBuffer := Some (b @ data), controlChannelPartialBufferLen := needed\<rparr>, 0) }))"

section \<open>Events of the control channel\<close>

datatype ILibWebClient_ReceiveStatus = MoreDataToBeReceived | Complete | Partial | LastPartial | Connection_Established

definition DEFAULT_IDLE_TIMEOUT :: nat where "DEFAULT_IDLE_TIMEOUT = 120"

definition idle_timeout :: "'c agent_env \<Rightarrow> MeshAgentHostContainer \<Rightarrow> MeshAgentHostContainer option" where
  "idle_timeout env a = do {
     (a, idleLen, _) \<leftarrow> db_get env (str ''controlChannelIdleTimeout'') None 0 a;
     if idleLen = 0 \<or> idleLen > 15 then Some (a\<lparr>controlChannel_idleTimeout_seconds := DEFAULT_IDLE_TIMEOUT\<rparr>)
     else do {
       (a, n, b) \<leftarrow> db_get env (str ''controlChannelIdleTimeout'') (Some (replicate 16 0)) 15 a;
       b \<leftarrow> b;
       (r, v, e) \<leftarrow> ILib_atoi_uint32_ex (errno_range a) (b[nat n := 0]) 16 INT32_MAX;
       Some (a\<lparr>controlChannel_idleTimeout_seconds := (if r \<noteq> 0 then DEFAULT_IDLE_TIMEOUT else v), errno_range := e\<rparr>) } }"

text \<open>
  A new connection: \<open>nonce\<close> is what the random number generator gives, \<open>sent\<close> whether sending the
  server id succeeds.  A server whose TLS certificate was verified before is taken as authenticated.
\<close>

definition connection_established :: "'c agent_env \<Rightarrow> 'c \<Rightarrow> byte list \<Rightarrow> bool \<Rightarrow> MeshAgentHostContainer \<Rightarrow> MeshAgentHostContainer option" where
  "connection_established env peer nonce sent a = do {
     let a = (MeshServer_ControlChannel_ResetPartial a)\<lparr>controlChannelPartialOverflow := False\<rparr>;
     a \<leftarrow> idle_timeout env a;
     let a = a\<lparr>controlChannel := True\<rparr>;
     let a = send (htons MeshCommand_AgentCommitDate @ SOURCE_COMMIT_DATE env @ [0]) a;
     let a = (case host_info env of None \<Rightarrow> a | Some info \<Rightarrow> send (htons MeshCommand_HostInfo @ info) a);
     let a = a\<lparr>serverAuthState := 0, serverConnectionState := 2\<rparr>;
     let a = send (htons MeshCommand_ServerId @ serverHash a) a;
     if \<not> sent then Some a
     else do {
       let hash = X509_digest env peer;
       (a, len, b) \<leftarrow> db_get env (str ''ServerTlsCertHash'') (Some (replicate 4096 0)) 4096 a;
       b \<leftarrow> b;
       let a = (if len = 48 \<and> take 48 b = hash
         then send (htons MeshCommand_AuthConfirm) (a\<lparr>serverAuthState := 1\<rparr>) else a);
       let a = a\<lparr>agentNonce := nonce\<rparr>;
       let a = send (htons MeshCommand_AuthRequest @ hash @ agentNonce a) a;
       if serverAuthState a = 1 then MeshServer_SendAgentInfo env a else Some a } }"

definition disconnected :: "MeshAgentHostContainer \<Rightarrow> MeshAgentHostContainer" where
  "disconnected a =
     (let a = (if serverAuthState a = 3 then act (Emit_Connected False) a else a);
          a = a\<lparr>serverAuthState := 0, controlChannel := False, serverConnectionState := 0\<rparr>
      in (MeshServer_ControlChannel_ResetPartial a)\<lparr>controlChannelPartialOverflow := False\<rparr>)"

definition receive_partial :: "'c agent_env \<Rightarrow> 'c \<Rightarrow> bool \<Rightarrow> byte list \<Rightarrow> MeshAgentHostContainer \<Rightarrow> MeshAgentHostContainer option" where
  "receive_partial env peer last_piece body a = do {
     (a, err) \<leftarrow> (if controlChannelPartialOverflow a then Some (a, 0) else MeshServer_ControlChannel_AppendPartial body a);
     let a = (if err \<noteq> 0 then (MeshServer_ControlChannel_ResetPartial a)\<lparr>controlChannelPartialOverflow := True\<rparr> else a);
     if \<not> last_piece then Some a
     else do {
       let message = controlChannelPartialBuffer a;
       let messageLen = controlChannelPartialBufferLen a;
       let a = a\<lparr>controlChannelPartialBuffer := None, controlChannelPartialBufferLen := 0,
                  controlChannelPartialBufferSize := 0, controlChannelPartialOverflow := False\<rparr>;
       (case message of
          None \<Rightarrow> Some a
        | Some m \<Rightarrow> if 2 \<le> messageLen then MeshServer_ProcessCommand env peer (take messageLen m) a else Some a) } }"

text \<open>\<open>header\<close> is the status code of the response, \<open>None\<close> for a \<open>NULL\<close> header.\<close>

definition MeshServer_OnResponse ::
  "'c agent_env \<Rightarrow> 'c \<Rightarrow> byte list \<Rightarrow> bool \<Rightarrow> nat option \<Rightarrow> ILibWebClient_ReceiveStatus \<Rightarrow> byte list
     \<Rightarrow> MeshAgentHostContainer \<Rightarrow> MeshAgentHostContainer option" where
  "MeshServer_OnResponse env peer nonce sent header recvStatus body a = do {
     a \<leftarrow> (case recvStatus of
         Connection_Established \<Rightarrow> connection_established env peer nonce sent a
       | Complete \<Rightarrow> Some (disconnected a)
       | MoreDataToBeReceived \<Rightarrow> do {
           code \<leftarrow> header;
           if code = 101 then MeshServer_ProcessCommand env peer body a else Some a }
       | _ \<Rightarrow> if header \<noteq> Some 101
              then Some ((MeshServer_ControlChannel_ResetPartial a)\<lparr>controlChannelPartialOverflow := False\<rparr>)
              else receive_partial env peer (recvStatus = LastPartial) body a);
     Some (if header = None then act Reconnect a else a) }"

text \<open>The idle timer: a ping with a timeout of five seconds, which only a pong removes.\<close>

definition MeshServer_ControlChannel_IdleTimeout :: "MeshAgentHostContainer \<Rightarrow> MeshAgentHostContainer" where
  "MeshServer_ControlChannel_IdleTimeout a = act Ping (a\<lparr>pong_timer := True\<rparr>)"

definition MeshServer_ControlChannel_PongSink :: "MeshAgentHostContainer \<Rightarrow> MeshAgentHostContainer" where
  "MeshServer_ControlChannel_PongSink a = a\<lparr>pong_timer := False\<rparr>"

definition MeshServer_ControlChannel_IdleTimeout_PongTimeout :: "MeshAgentHostContainer \<Rightarrow> MeshAgentHostContainer" where
  "MeshServer_ControlChannel_IdleTimeout_PongTimeout a =
     act Disconnect (a\<lparr>pong_timer := False, controlChannel := False\<rparr>)"

end
