(* ===== verification/AgentAuth.thy ===== *)
theory AgentAuth
  imports AgentCore
begin

text \<open>
  What the functions of the control channel (AgentCore) may change: who can become authenticated and how, what
  an unauthenticated peer can cause, and what the commands of an authenticated server leave alone.
\<close>

section \<open>What the functions change\<close>

text \<open>Actions that only an authenticated server may cause.\<close>

fun privileged :: "action \<Rightarrow> bool" where
  "privileged (Emit_Command m) = True"
| "privileged Emit_idleTimeoutModeChanged = True"
| "privileged Pong_received = True"
| "privileged Core_stop = True"
| "privileged (Core_start s) = True"
| "privileged (Set_uid u) = True"
| "privileged Update_failed = True"
| "privileged Unzip_update = True"
| "privileged Stop_chain = True"
| "privileged _ = False"

text \<open>
  \<open>harmless a a'\<close>: no privileged action, no change of the update file, of the hash of the server's key and of the pong timer.
  \<open>quiet\<close> functions also leave the state of authentication and of the reassembly as it is.
\<close>

definition harmless :: "MeshAgentHostContainer \<Rightarrow> MeshAgentHostContainer \<Rightarrow> bool" where
  "harmless a a' \<longleftrightarrow> (\<exists>xs. actions a' = actions a @ xs \<and> list_all (\<lambda>x. \<not> privileged x) xs)
     \<and> update_file a' = update_file a \<and> serverHash a' = serverHash a \<and> pong_timer a' = pong_timer a"

definition partial_state :: "MeshAgentHostContainer \<Rightarrow> byte list option \<times> nat \<times> nat \<times> bool" where
  "partial_state a = (controlChannelPartialBuffer a, controlChannelPartialBufferLen a,
     controlChannelPartialBufferSize a, controlChannelPartialOverflow a)"

definition same_auth :: "MeshAgentHostContainer \<Rightarrow> MeshAgentHostContainer \<Rightarrow> bool" where
  "same_auth a a' \<longleftrightarrow> serverAuthState a' = serverAuthState a \<and> serverNonce a' = serverNonce a \<and> agentNonce a' = agentNonce a"

definition quiet :: "MeshAgentHostContainer \<Rightarrow> MeshAgentHostContainer \<Rightarrow> bool" where
  "quiet a a' \<longleftrightarrow> harmless a a' \<and> same_auth a a' \<and> partial_state a' = partial_state a"

lemma harmless_refl [simp]: "harmless a a"
  by (simp add: harmless_def)

lemma harmless_trans: "harmless a b \<Longrightarrow> harmless b c \<Longrightarrow> harmless a c"
  by (auto simp: harmless_def)

lemma same_auth_refl [simp]: "same_auth a a"
  by (simp add: same_auth_def)

lemma quiet_refl [simp]: "quiet a a"
  by (simp add: quiet_def)

lemma quiet_trans: "quiet a b \<Longrightarrow> quiet b c \<Longrightarrow> quiet a c"
  by (auto simp: quiet_def same_auth_def intro: harmless_trans)

lemma act_simps [simp]:
  "serverAuthState (act x a) = serverAuthState a" "serverNonce (act x a) = serverNonce a"
  "agentNonce (act x a) = agentNonce a" "serverHash (act x a) = serverHash a"
  "update_file (act x a) = update_file a" "masterDb (act x a) = masterDb a"
  "controlChannelPartialBuffer (act x a) = controlChannelPartialBuffer a"
  "controlChannelPartialBufferLen (act x a) = controlChannelPartialBufferLen a"
  "controlChannelPartialBufferSize (act x a) = controlChannelPartialBufferSize a"
  "controlChannelPartialOverflow (act x a) = controlChannelPartialOverflow a"
  "pong_timer (act x a) = pong_timer a" "controlChannel (act x a) = controlChannel a"
  "disableUpdate (act x a) = disableUpdate a" "fakeUpdate (act x a) = fakeUpdate a" "forceUpdate (act x a) = forceUpdate a"
  by (simp_all add: act_def)

lemma partial_state_act [simp]: "partial_state (act x a) = partial_state a"
  by (simp add: partial_state_def)

lemma harmless_act [simp]: "\<not> privileged x \<Longrightarrow> harmless a b \<Longrightarrow> harmless a (act x b)"
  by (auto simp: harmless_def act_def)

lemma quiet_act [simp]: "\<not> privileged x \<Longrightarrow> quiet a b \<Longrightarrow> quiet a (act x b)"
  by (simp add: quiet_def same_auth_def)

named_theorems quiet_intros

lemma db_get_quiet [quiet_intros]: "db_get env k b n a = Some (a', len, b') \<Longrightarrow> quiet a0 a \<Longrightarrow> quiet a0 a'"
  by (auto simp: db_get_def harmless_def same_auth_def partial_state_def quiet_def split: Option.bind_splits prod.splits)

lemma db_put_quiet [quiet_intros]: "db_put env k v a = Some a' \<Longrightarrow> quiet a0 a \<Longrightarrow> quiet a0 a'"
  by (auto simp: db_put_def harmless_def same_auth_def partial_state_def quiet_def split: Option.bind_splits prod.splits)

lemma ServerAuthenticated_quiet [quiet_intros]:
  "MeshServer_ServerAuthenticated env a = Some a' \<Longrightarrow> quiet a0 a \<Longrightarrow> quiet a0 a'"
  unfolding MeshServer_ServerAuthenticated_def
  by (auto simp: Let_def split: Option.bind_splits if_splits) (meson quiet_act db_get_quiet privileged.simps)+

lemma SendAgentInfo_quiet [quiet_intros]:
  "MeshServer_SendAgentInfo env a = Some a' \<Longrightarrow> quiet a0 a \<Longrightarrow> quiet a0 a'"
  unfolding MeshServer_SendAgentInfo_def
  by (auto simp: Let_def split: Option.bind_splits if_splits simp del: str_simps)
    (meson quiet_act db_get_quiet ServerAuthenticated_quiet privileged.simps)+

section \<open>The proof of the server\<close>

text \<open>
  \<open>cmd\<close> is a message in which the server with the key the agent's policy names (\<open>sh\<close> is its hash) signs the hash of the TLS
  certificate of this connection, the nonce of the agent and a nonce of its own.
\<close>

definition server_proof :: "'c agent_env \<Rightarrow> byte list \<Rightarrow> 'c \<Rightarrow> byte list \<Rightarrow> byte list \<Rightarrow> byte list \<Rightarrow> bool" where
  "server_proof env sh peer nonce snonce cmd \<longleftrightarrow> ntohs cmd = Some MeshCommand_AuthVerify
     \<and> (\<exists>certLen cert. ntohs (drop 2 cmd) = Some certLen \<and> 4 + certLen < length cmd
          \<and> d2i_X509 env (slice cmd 4 certLen) = Some cert
          \<and> (X509_pubkey_digest env cert = sh \<or> X509_pubkey_digest256 env cert = take 32 sh)
          \<and> RSA_verify env cert (SHA384 env (X509_digest env peer @ nonce @ snonce))
              (slice cmd (4 + certLen) ((length cmd - (4 + certLen)) mod 65536)))"

lemma auth_request_spec:
  "harmless a (auth_request env peer cmd a) \<and> serverAuthState (auth_request env peer cmd a) = serverAuthState a
   \<and> agentNonce (auth_request env peer cmd a) = agentNonce a \<and> partial_state (auth_request env peer cmd a) = partial_state a"
  unfolding auth_request_def Let_def
  by (auto simp: harmless_def partial_state_def act_def split: option.split)

lemma auth_verify_spec:
  assumes "auth_verify env peer cmd a = Some a'" "ntohs cmd = Some MeshCommand_AuthVerify"
  shows "harmless a a' \<and> agentNonce a' = agentNonce a \<and> partial_state a' = partial_state a
    \<and> (serverAuthState a' = serverAuthState a
       \<or> serverAuthState a' = serverAuthState a OR 1
         \<and> server_proof env (serverHash a) peer (agentNonce a) (serverNonce a) cmd)"
proof (cases "a' = a")
  case False
  then obtain certLen cert a1 where c: "ntohs (drop 2 cmd) = Some certLen" "4 + certLen < length cmd"
    "d2i_X509 env (slice cmd 4 certLen) = Some cert"
    "X509_pubkey_digest env cert = serverHash a \<or> X509_pubkey_digest256 env cert = take 32 (serverHash a)"
    "RSA_verify env cert (auth_digest env peer a) (slice cmd (4 + certLen) ((length cmd - (4 + certLen)) mod 65536))"
    "db_put env (str ''ServerTlsCertHash'') (X509_digest env peer) (a\<lparr>serverAuthState := serverAuthState a OR 1\<rparr>) = Some a1"
    "MeshServer_SendAgentInfo env a1 = Some a'"
    using assms(1) unfolding auth_verify_def
    by (auto simp: Let_def not_le split: if_splits Option.bind_splits option.splits simp del: str_simps)
  have "quiet (a\<lparr>serverAuthState := serverAuthState a OR 1\<rparr>) a'"
    by (rule SendAgentInfo_quiet [OF c(7) db_put_quiet [OF c(6) quiet_refl]])
  moreover have "server_proof env (serverHash a) peer (agentNonce a) (serverNonce a) cmd"
    using c(1-5) assms(2) unfolding server_proof_def auth_digest_def by blast
  ultimately show ?thesis by (auto simp: quiet_def same_auth_def harmless_def partial_state_def)
qed simp

lemma auth_confirm_spec:
  assumes "auth_confirm env a = Some a'"
  shows "harmless a a' \<and> agentNonce a' = agentNonce a \<and> partial_state a' = partial_state a \<and> serverAuthState a' = serverAuthState a OR 2"
proof -
  let ?a = "a\<lparr>serverAuthState := serverAuthState a OR 2\<rparr>"
  have "quiet ?a a'" using assms ServerAuthenticated_quiet [OF _ quiet_refl, of env ?a]
    by (auto simp: auth_confirm_def Let_def split: if_splits)
  then show ?thesis by (auto simp: quiet_def same_auth_def harmless_def partial_state_def)
qed

lemma process_auth_spec:
  assumes "process_auth env peer command cmd a = Some a'" "ntohs cmd = Some command"
  shows "harmless a a' \<and> agentNonce a' = agentNonce a \<and> partial_state a' = partial_state a
    \<and> (serverAuthState a' = serverAuthState a
       \<or> serverAuthState a' = serverAuthState a OR 1
         \<and> (\<exists>snonce. server_proof env (serverHash a) peer (agentNonce a) snonce cmd)
       \<or> serverAuthState a' = serverAuthState a OR 2 \<and> command = MeshCommand_AuthConfirm)"
  using assms auth_request_spec [of a env peer cmd] auth_verify_spec [of env peer cmd a a'] auth_confirm_spec [of env a a']
  unfolding process_auth_def by (auto split: if_splits)

section \<open>Authenticated commands\<close>

text \<open>What a command of an authenticated server leaves as it is.\<close>

definition kept :: "MeshAgentHostContainer \<Rightarrow> (u32 \<times> byte list \<times> byte list \<times> byte list) \<times> byte list option \<times> nat \<times> nat \<times> bool" where
  "kept a = ((serverAuthState a, serverNonce a, agentNonce a, serverHash a), partial_state a)"

lemma kept_act [simp]: "kept (act x a) = kept a"
  by (simp add: kept_def)

lemma kept_core_hash_reply [simp]: "kept (core_hash_reply r h a) = kept a"
  by (simp add: core_hash_reply_def)

lemma kept_upd [simp]:
  "kept (b\<lparr>masterDb := db\<rparr>) = kept b" "kept (b\<lparr>coreTimeout := ct\<rparr>) = kept b"
  "kept (b\<lparr>update_file := u\<rparr>) = kept b" "kept (b\<lparr>performSelfUpdate := n\<rparr>) = kept b"
  "kept (b\<lparr>errno_range := e\<rparr>) = kept b" "kept (b\<lparr>data_pings := k\<rparr>) = kept b"
  "kept (b\<lparr>controlChannel_idleTimeout_dataMode := m\<rparr>) = kept b"
  by (simp_all add: kept_def partial_state_def)

lemma kept_db:
  "db_get env k b n a = Some (a', len, b') \<Longrightarrow> kept a' = kept a"
  "db_put env k v a = Some a' \<Longrightarrow> kept a' = kept a"
  "db_delete k a = Some a' \<Longrightarrow> kept a' = kept a"
  by (auto simp: db_get_def db_put_def db_delete_def split: Option.bind_splits prod.splits)

lemmas kept_splits = if_splits Option.bind_splits option.splits prod.splits

lemma kept_restart: "ScriptEngine_Restart m a = Some a' \<Longrightarrow> kept a' = kept a"
  by (auto simp: ScriptEngine_Restart_def split: if_splits)

lemma kept_core_module: "core_module env command r cmd a = Some a' \<Longrightarrow> kept a' = kept a"
  unfolding core_module_def
  by (auto simp: Let_def split: kept_splits dest!: kept_db kept_restart simp del: str_simps)

lemma kept_core_module_hash: "core_module_hash r a = Some a' \<Longrightarrow> kept a' = kept a"
  unfolding core_module_hash_def
  by (auto split: kept_splits simp del: str_simps)

lemma kept_core_ok: "core_ok env a = Some a' \<Longrightarrow> kept a' = kept a"
  unfolding core_ok_def
  by (auto simp: Let_def split: kept_splits dest!: kept_db simp del: str_simps)

lemma kept_selfupdate_continue: "MeshServer_selfupdate_continue env a = Some a' \<Longrightarrow> kept a' = kept a"
  unfolding MeshServer_selfupdate_continue_def
  by (auto simp: Let_def split: kept_splits dest!: kept_db simp del: str_simps)

lemma kept_agent_update: "agent_update env cmd a = Some a' \<Longrightarrow> kept a' = kept a"
  unfolding agent_update_def
  by (auto simp: Let_def split: kept_splits dest!: kept_db kept_selfupdate_continue simp del: str_simps)

lemma kept_agent_update_block [simp]: "kept (agent_update_block env r cmd a) = kept a"
  by (simp add: agent_update_block_def Let_def split: prod.split)

lemma kept_command_to_script [simp]: "kept (command_to_script env cmd a) = kept a"
  by (simp add: command_to_script_def Let_def)

lemma kept_process_binary: "process_binary env command r cmd a = Some a' \<Longrightarrow> kept a' = kept a"
  unfolding process_binary_def agent_hash_reply_def
  by (auto split: if_splits dest: kept_core_module kept_core_module_hash kept_core_ok kept_agent_update)

lemma ProcessCommand_authenticated:
  "MeshServer_ProcessCommand env peer cmd a = Some a' \<Longrightarrow> serverAuthState a = 3 \<Longrightarrow> kept a' = kept a"
  unfolding MeshServer_ProcessCommand_def
  by (auto split: if_splits Option.bind_splits dest: kept_process_binary)

lemma ProcessCommand_spec:
  assumes "MeshServer_ProcessCommand env peer cmd a = Some a'" "serverAuthState a \<noteq> 3"
  shows "harmless a a' \<and> agentNonce a' = agentNonce a \<and> partial_state a' = partial_state a
    \<and> (serverAuthState a' = serverAuthState a
       \<or> serverAuthState a' = serverAuthState a OR 1
         \<and> (\<exists>snonce. server_proof env (serverHash a) peer (agentNonce a) snonce cmd)
       \<or> serverAuthState a' = serverAuthState a OR 2 \<and> ntohs cmd = Some MeshCommand_AuthConfirm)"
  using assms process_auth_spec [of env peer _ cmd a a'] unfolding MeshServer_ProcessCommand_def
  by (auto split: Option.bind_splits)

lemma ProcessCommand_partial_state:
  "MeshServer_ProcessCommand env peer cmd a = Some a' \<Longrightarrow> partial_state a' = partial_state a \<and> serverHash a' = serverHash a"
  using ProcessCommand_authenticated [of env peer cmd a a'] ProcessCommand_spec [of env peer cmd a a']
  by (cases "serverAuthState a = 3") (auto simp: kept_def harmless_def)

section \<open>Connecting\<close>

text \<open>The data store holds the hash of this TLS certificate, as the agent reads it for a new connection.\<close>

definition stored_cert_matches :: "'c agent_env \<Rightarrow> 'c \<Rightarrow> MeshAgentHostContainer \<Rightarrow> bool" where
  "stored_cert_matches env peer a \<longleftrightarrow> (case idle_timeout env ((MeshServer_ControlChannel_ResetPartial a)\<lparr>controlChannelPartialOverflow := False\<rparr>) of
       None \<Rightarrow> False
     | Some a \<Rightarrow> (case ILibSimpleDataStore_GetEx (SHA384 env) (inflate env) (masterDb a) (str ''ServerTlsCertHash'') (Some (replicate 4096 0)) 4096 of
         Some (_, len, Some b) \<Rightarrow> len = 48 \<and> take 48 b = X509_digest env peer
       | _ \<Rightarrow> False))"

lemma idle_timeout_quiet: "idle_timeout env a = Some a' \<Longrightarrow> quiet a0 a \<Longrightarrow> quiet a0 a'"
  unfolding idle_timeout_def
  by (auto split: Option.bind_splits if_splits dest!: db_get_quiet [where ?a0.0 = a0] simp del: str_simps
    simp: quiet_def harmless_def same_auth_def partial_state_def)

lemma harmless_upd [simp]:
  "harmless a (b\<lparr>serverAuthState := s\<rparr>) = harmless a b" "harmless a (b\<lparr>agentNonce := n\<rparr>) = harmless a b"
  "harmless a (b\<lparr>serverConnectionState := c\<rparr>) = harmless a b" "harmless a (b\<lparr>controlChannel := cc\<rparr>) = harmless a b"
  by (simp_all add: harmless_def)

lemma partial_state_upd [simp]:
  "partial_state (b\<lparr>serverAuthState := s\<rparr>) = partial_state b" "partial_state (b\<lparr>agentNonce := n\<rparr>) = partial_state b"
  "partial_state (b\<lparr>serverConnectionState := c\<rparr>) = partial_state b" "partial_state (b\<lparr>controlChannel := cc\<rparr>) = partial_state b"
  by (simp_all add: partial_state_def)

lemma connect_spec:
  assumes "connection_established env peer nonce sent a = Some a'"
  shows "harmless a a' \<and> partial_state a' = (None, 0, 0, False) \<and> agentNonce a' = (if sent then nonce else agentNonce a)
    \<and> (serverAuthState a' = 0 \<or> serverAuthState a' = 1 \<and> sent \<and> stored_cert_matches env peer a)"
proof -
  let ?r = "(MeshServer_ControlChannel_ResetPartial a)\<lparr>controlChannelPartialOverflow := False\<rparr>"
  define info where "info = (\<lambda>a. case host_info env of None \<Rightarrow> a | Some i \<Rightarrow> send (htons MeshCommand_HostInfo @ i) a)"
  have info: "\<And>a0 b. quiet a0 b \<Longrightarrow> quiet a0 (info b)" "\<And>b. masterDb (info b) = masterDb b"
    by (auto simp: info_def split: option.split)
  obtain a1 where a1: "idle_timeout env ?r = Some a1"
    using assms by (auto simp: connection_established_def Let_def split: Option.bind_splits)
  have q1: "quiet ?r a1" by (rule idle_timeout_quiet [OF a1 quiet_refl])
  let ?b = "info (send (htons MeshCommand_AgentCommitDate @ SOURCE_COMMIT_DATE env @ [0]) (a1\<lparr>controlChannel := True\<rparr>))"
  let ?c = "send (htons MeshCommand_ServerId @ serverHash ?b) (?b\<lparr>serverAuthState := 0, serverConnectionState := 2\<rparr>)"
  have r: "harmless a ?r" "partial_state ?r = (None, 0, 0, False)" "agentNonce ?r = agentNonce a"
    by (simp_all add: MeshServer_ControlChannel_ResetPartial_def harmless_def partial_state_def)
  have "quiet ?r (a1\<lparr>controlChannel := True\<rparr>)" using q1 by (simp add: quiet_def same_auth_def)
  then have "quiet ?r ?b" by (simp add: info)
  then have c: "harmless a ?c" "partial_state ?c = (None, 0, 0, False)" "agentNonce ?c = agentNonce a"
    "serverAuthState ?c = 0" "masterDb ?c = masterDb a1"
    using r harmless_trans [OF r(1)] by (simp_all add: quiet_def same_auth_def info(2))
  show ?thesis
  proof (cases sent)
    case False
    then have "a' = ?c" using assms a1 unfolding connection_established_def info_def by (simp add: Let_def)
    then show ?thesis using c False by simp
  next
    case True
    obtain d len b where d: "db_get env (str ''ServerTlsCertHash'') (Some (replicate 4096 0)) 4096 ?c = Some (d, len, Some b)"
      using assms a1 True unfolding connection_established_def info_def by (auto simp: Let_def split: Option.bind_splits simp del: str_simps)
    let ?m = "len = 48 \<and> take 48 b = X509_digest env peer"
    let ?e = "(if ?m then send (htons MeshCommand_AuthConfirm) (d\<lparr>serverAuthState := 1\<rparr>) else d)\<lparr>agentNonce := nonce\<rparr>"
    let ?f = "send (htons MeshCommand_AuthRequest @ X509_digest env peer @ agentNonce ?e) ?e"
    have a': "(if serverAuthState ?f = 1 then MeshServer_SendAgentInfo env ?f else Some ?f) = Some a'"
      using assms a1 True d unfolding connection_established_def info_def by (simp add: Let_def cong: if_cong del: str_simps)
    have qd: "quiet ?c d" by (rule db_get_quiet [OF d quiet_refl])
    then have f: "harmless a ?f" "partial_state ?f = (None, 0, 0, False)" "agentNonce ?f = nonce" "serverAuthState ?f = (if ?m then 1 else 0)"
      using c(1,2,4) harmless_trans [OF c(1), of d] by (simp_all add: quiet_def same_auth_def)
    have "quiet ?f a'" using a' SendAgentInfo_quiet [OF _ quiet_refl, of env ?f a'] by (auto split: if_splits)
    moreover have "stored_cert_matches env peer a" if ?m
      using that d a1 c(5) by (auto simp: stored_cert_matches_def db_get_def split: Option.bind_splits prod.splits)
    ultimately show ?thesis using f True by (auto simp: quiet_def same_auth_def intro: harmless_trans split: if_splits)
  qed
qed

end
