(* ===== verification/AgentChannel.thy ===== *)
theory AgentChannel
  imports AgentAuth
begin

text \<open>
  The control channel as a state machine: the reassembly of messages that arrive in pieces, the events of
  the channel, the invariant of its reachable states, and what it takes to command the agent.
\<close>

unbundle bit_operations_syntax

section \<open>Reassembly\<close>

abbreviation MAX_MESSAGE :: nat where
  "MAX_MESSAGE \<equiv> MESH_SERVER_MAX_REASSEMBLED_MESSAGE_SIZE"

text \<open>The buffer holds the bytes \<open>p\<close> that arrived, and has room for them; after an overflow it is empty.\<close>

definition partial_ok :: "MeshAgentHostContainer \<Rightarrow> byte list \<Rightarrow> bool" where
  "partial_ok a p \<longleftrightarrow> controlChannelPartialBufferLen a = length p
     \<and> length p \<le> controlChannelPartialBufferSize a \<and> controlChannelPartialBufferSize a \<le> MAX_MESSAGE
     \<and> controlChannelPartialBuffer a = (if p = [] then None else Some p)
     \<and> (p = [] \<longrightarrow> controlChannelPartialBufferSize a = 0)"

lemma grow_size_ge: "0 < n \<Longrightarrow> needed \<le> grow_size n needed"
proof (induction n needed rule: grow_size.induct)
  case (1 n needed)
  then show ?case by (subst grow_size.simps) auto
qed

lemma AppendPartial_fits:
  assumes "partial_ok a p" "length p + length d \<le> MAX_MESSAGE"
  obtains b where "MeshServer_ControlChannel_AppendPartial d a = Some (b, 0)" "partial_ok b (p @ d)"
    "controlChannelPartialOverflow b = controlChannelPartialOverflow a"
    "\<exists>buf len size. b = a\<lparr>controlChannelPartialBuffer := buf, controlChannelPartialBufferLen := len, controlChannelPartialBufferSize := size\<rparr>"
proof (cases "d = []")
  case True
  have "a = a\<lparr>controlChannelPartialBuffer := controlChannelPartialBuffer a,
    controlChannelPartialBufferLen := controlChannelPartialBufferLen a, controlChannelPartialBufferSize := controlChannelPartialBufferSize a\<rparr>"
    by simp
  then have "\<exists>buf len size. a = a\<lparr>controlChannelPartialBuffer := buf, controlChannelPartialBufferLen := len,
    controlChannelPartialBufferSize := size\<rparr>" by blast
  then show thesis using that [of a] True assms by (auto simp: MeshServer_ControlChannel_AppendPartial_def)
next
  case False
  let ?n = "length p + length d" and ?s = "controlChannelPartialBufferSize a"
  let ?size = "if ?n > ?s then min MAX_MESSAGE (grow_size (if ?s = 0 then 131072 else ?s) ?n) else ?s"
  let ?b = "a\<lparr>controlChannelPartialBuffer := Some (p @ d), controlChannelPartialBufferLen := ?n, controlChannelPartialBufferSize := ?size\<rparr>"
  have sz: "?n \<le> ?size" "?size \<le> MAX_MESSAGE"
    using assms grow_size_ge [of "if ?s = 0 then 131072 else ?s" ?n] by (auto simp: partial_ok_def)
  have nf: "\<not> MAX_MESSAGE - length p < length d" using assms by simp
  have "MeshServer_ControlChannel_AppendPartial d a = Some (?b, 0)"
    using assms(1) False sz nf unfolding MeshServer_ControlChannel_AppendPartial_def partial_ok_def
    by (auto simp: Let_def split: if_splits)
  moreover have "partial_ok ?b (p @ d)" using False sz by (simp add: partial_ok_def)
  ultimately show thesis by (rule that) (simp, blast)
qed

lemma AppendPartial_overflow:
  assumes "partial_ok a p" "MAX_MESSAGE < length p + length d"
  shows "MeshServer_ControlChannel_AppendPartial d a = Some (a, 1)"
proof -
  have "length p \<le> MAX_MESSAGE" using assms(1) by (simp add: partial_ok_def)
  then have "d \<noteq> []" using assms(2) by auto
  then show ?thesis using assms unfolding MeshServer_ControlChannel_AppendPartial_def partial_ok_def by auto
qed

text \<open>The agent without a message in pieces, and the agent after the pieces of \<open>m\<close>: one that is too long is dropped.\<close>

definition reset :: "MeshAgentHostContainer \<Rightarrow> MeshAgentHostContainer" where
  "reset a = (MeshServer_ControlChannel_ResetPartial a)\<lparr>controlChannelPartialOverflow := False\<rparr>"

definition assembled :: "MeshAgentHostContainer \<Rightarrow> byte list \<Rightarrow> bool" where
  "assembled a m \<longleftrightarrow> partial_ok a (if length m \<le> MAX_MESSAGE then m else []) \<and> controlChannelPartialOverflow a = (MAX_MESSAGE < length m)"

lemma reset_upd [simp]:
  "reset (a\<lparr>controlChannelPartialBuffer := buf\<rparr>) = reset a" "reset (a\<lparr>controlChannelPartialBufferLen := len\<rparr>) = reset a"
  "reset (a\<lparr>controlChannelPartialBufferSize := sz\<rparr>) = reset a" "reset (a\<lparr>controlChannelPartialOverflow := ov\<rparr>) = reset a"
  "reset (MeshServer_ControlChannel_ResetPartial a) = reset a"
  by (simp_all add: reset_def MeshServer_ControlChannel_ResetPartial_def)

lemma reset_act [simp]: "reset (act x a) = act x (reset a)"
  by (simp add: reset_def MeshServer_ControlChannel_ResetPartial_def act_def)

lemma reset_fields [simp]:
  "serverAuthState (reset a) = serverAuthState a" "agentNonce (reset a) = agentNonce a" "serverHash (reset a) = serverHash a"
  "actions (reset a) = actions a" "update_file (reset a) = update_file a" "partial_state (reset a) = (None, 0, 0, False)"
  "serverNonce (reset a) = serverNonce a"
  by (simp_all add: reset_def MeshServer_ControlChannel_ResetPartial_def partial_state_def)

lemma reset_id: "partial_state a = (None, 0, 0, False) \<Longrightarrow> reset a = a"
  by (simp add: reset_def MeshServer_ControlChannel_ResetPartial_def partial_state_def)

lemma assembled_reset: "partial_state a = (None, 0, 0, False) \<Longrightarrow> assembled a []"
  by (simp add: assembled_def partial_ok_def partial_state_def)

lemma assembled_partial_state: "partial_state b = partial_state a \<Longrightarrow> assembled b m = assembled a m"
  by (simp add: assembled_def partial_ok_def partial_state_def)

lemma append_piece:
  assumes "assembled a m"
  obtains b err where "(if controlChannelPartialOverflow a then Some (a, 0) else MeshServer_ControlChannel_AppendPartial d a) = Some (b, err)"
    "assembled (if err \<noteq> 0 then (MeshServer_ControlChannel_ResetPartial b)\<lparr>controlChannelPartialOverflow := True\<rparr> else b) (m @ d)"
    "reset b = reset a"
proof (cases "MAX_MESSAGE < length m")
  case True
  then show thesis using assms that [of a 0] by (simp add: assembled_def)
next
  case False
  then have a: "partial_ok a m" "\<not> controlChannelPartialOverflow a" using assms by (auto simp: assembled_def)
  show thesis
  proof (cases "length m + length d \<le> MAX_MESSAGE")
    case True
    obtain b where "MeshServer_ControlChannel_AppendPartial d a = Some (b, 0)" "partial_ok b (m @ d)"
      "controlChannelPartialOverflow b = controlChannelPartialOverflow a" "reset b = reset a"
      using AppendPartial_fits [OF a(1) True] by (metis reset_upd(1,2,3))
    then show thesis using that [of b 0] a(2) True by (simp add: assembled_def)
  next
    case f: False
    then have "MeshServer_ControlChannel_AppendPartial d a = Some (a, 1)" using AppendPartial_overflow [OF a(1)] by simp
    then show thesis using that [of a 1] a(2) f
      by (simp add: assembled_def partial_ok_def MeshServer_ControlChannel_ResetPartial_def)
  qed
qed

lemma receive_piece:
  assumes "assembled a m"
  obtains b where "receive_partial env peer False d a = Some b" "assembled b (m @ d)" "reset b = reset a"
proof -
  obtain b err where b: "(if controlChannelPartialOverflow a then Some (a, 0) else MeshServer_ControlChannel_AppendPartial d a) = Some (b, err)"
    "assembled (if err \<noteq> 0 then (MeshServer_ControlChannel_ResetPartial b)\<lparr>controlChannelPartialOverflow := True\<rparr> else b) (m @ d)"
    "reset b = reset a"
    by (rule append_piece [OF assms])
  show thesis
    by (rule that [OF _ b(2)]) (simp_all add: receive_partial_def b(1,3) Let_def)
qed

lemma receive_last:
  assumes "assembled a m"
  shows "receive_partial env peer True d a =
    (if 2 \<le> length (m @ d) \<and> length (m @ d) \<le> MAX_MESSAGE then MeshServer_ProcessCommand env peer (m @ d) (reset a) else Some (reset a))"
proof -
  obtain b err where b: "(if controlChannelPartialOverflow a then Some (a, 0) else MeshServer_ControlChannel_AppendPartial d a) = Some (b, err)"
    "assembled (if err \<noteq> 0 then (MeshServer_ControlChannel_ResetPartial b)\<lparr>controlChannelPartialOverflow := True\<rparr> else b) (m @ d)"
    "reset b = reset a"
    by (rule append_piece [OF assms])
  define c where "c = (if err \<noteq> 0 then (MeshServer_ControlChannel_ResetPartial b)\<lparr>controlChannelPartialOverflow := True\<rparr> else b)"
  have c: "assembled c (m @ d)" "reset c = reset a" using b(2,3) by (simp_all add: c_def)
  have r: "c\<lparr>controlChannelPartialBuffer := None, controlChannelPartialBufferLen := 0,
      controlChannelPartialBufferSize := 0, controlChannelPartialOverflow := False\<rparr> = reset a"
    using c(2) by (simp add: reset_def MeshServer_ControlChannel_ResetPartial_def)
  have "receive_partial env peer True d a = (case controlChannelPartialBuffer c of None \<Rightarrow> Some (reset a)
    | Some x \<Rightarrow> if 2 \<le> controlChannelPartialBufferLen c
        then MeshServer_ProcessCommand env peer (take (controlChannelPartialBufferLen c) x) (reset a) else Some (reset a))"
  proof (cases "err = 0")
    case True
    then have "c = b" by (simp add: c_def)
    then show ?thesis using r True unfolding receive_partial_def b(1) by (simp add: Let_def cong: option.case_cong if_cong)
  next
    case False
    then have "c = (MeshServer_ControlChannel_ResetPartial b)\<lparr>controlChannelPartialOverflow := True\<rparr>" by (simp add: c_def)
    then show ?thesis using r False unfolding receive_partial_def b(1) by (simp add: Let_def cong: option.case_cong if_cong)
  qed
  then show ?thesis using c(1) by (auto simp: assembled_def partial_ok_def)
qed

section \<open>Messages in pieces\<close>

text \<open>The pieces of one message, as the WebSocket client delivers them.\<close>

fun receive_fragments ::
  "'c agent_env \<Rightarrow> 'c \<Rightarrow> byte list list \<Rightarrow> byte list \<Rightarrow> MeshAgentHostContainer \<Rightarrow> MeshAgentHostContainer option" where
  "receive_fragments env peer [] q a = MeshServer_OnResponse env peer [] False (Some 101) LastPartial q a"
| "receive_fragments env peer (p # ps) q a = do {
     a \<leftarrow> MeshServer_OnResponse env peer [] False (Some 101) Partial p a;
     receive_fragments env peer ps q a }"

lemma OnResponse_Partial: "MeshServer_OnResponse env peer n s (Some 101) Partial d a = receive_partial env peer False d a"
  "MeshServer_OnResponse env peer n s (Some 101) LastPartial d a = receive_partial env peer True d a"
  "MeshServer_OnResponse env peer n s (Some 101) MoreDataToBeReceived d a = MeshServer_ProcessCommand env peer d a"
  by (simp_all add: MeshServer_OnResponse_def)

lemma receive_fragments_assembled:
  "assembled a m \<Longrightarrow> receive_fragments env peer ps q a = (let m = m @ concat ps @ q in
     if 2 \<le> length m \<and> length m \<le> MAX_MESSAGE then MeshServer_ProcessCommand env peer m (reset a) else Some (reset a))"
proof (induction ps arbitrary: a m)
  case Nil
  then show ?case by (simp add: OnResponse_Partial receive_last Let_def)
next
  case (Cons p ps)
  obtain b where "receive_partial env peer False p a = Some b" "assembled b (m @ p)" "reset b = reset a"
    by (rule receive_piece [OF Cons.prems])
  then show ?case using Cons.IH [of b "m @ p"] by (simp add: OnResponse_Partial)
qed

section \<open>The state machine\<close>

text \<open>
  What happened on the connection: the TLS certificate of the peer, whether the data store held its hash,
  the messages that arrived and the pieces of the one that is not complete.
\<close>

record 'c conn =
  peer_cert :: 'c
  stored_cert :: bool
  msgs :: "byte list list"
  frag :: "byte list"

definition conn_receive :: "nat option \<Rightarrow> ILibWebClient_ReceiveStatus \<Rightarrow> byte list \<Rightarrow> 'c conn \<Rightarrow> 'c conn" where
  "conn_receive header status body g = (case status of
     MoreDataToBeReceived \<Rightarrow> if header = Some 101 then g\<lparr>msgs := msgs g @ [body]\<rparr> else g
   | Partial \<Rightarrow> g\<lparr>frag := (if header = Some 101 then frag g @ body else [])\<rparr>
   | LastPartial \<Rightarrow> if header = Some 101 then g\<lparr>msgs := msgs g @ [frag g @ body], frag := []\<rparr> else g\<lparr>frag := []\<rparr>
   | Complete \<Rightarrow> g\<lparr>msgs := [], frag := []\<rparr>
   | Connection_Established \<Rightarrow> g)"

text \<open>
  \<open>Background\<close> is all the agent does outside the control channel, of which the model keeps only that it
  leaves the state of authentication and reassembly alone.
\<close>

datatype 'c channel_event =
    Connect 'c "byte list" bool "nat option"
  | Receive "nat option" ILibWebClient_ReceiveStatus "byte list"
  | Idle
  | Pong
  | Pong_timeout
  | Background

inductive channel_step ::
  "'c agent_env \<Rightarrow> MeshAgentHostContainer \<times> 'c conn \<Rightarrow> 'c channel_event \<Rightarrow> MeshAgentHostContainer \<times> 'c conn \<Rightarrow> bool"
  for env where
  connect: "MeshServer_OnResponse env p nonce sent header Connection_Established [] a = Some a' \<Longrightarrow>
    channel_step env (a, g) (Connect p nonce sent header)
      (a', \<lparr>peer_cert = p, stored_cert = sent \<and> stored_cert_matches env p a, msgs = [], frag = []\<rparr>)"
| receive: "MeshServer_OnResponse env (peer_cert g) [] False header status body a = Some a' \<Longrightarrow> status \<noteq> Connection_Established \<Longrightarrow>
    channel_step env (a, g) (Receive header status body) (a', conn_receive header status body g)"
| idle: "channel_step env (a, g) Idle (MeshServer_ControlChannel_IdleTimeout a, g)"
| pong: "channel_step env (a, g) Pong (MeshServer_ControlChannel_PongSink a, g)"
| pong_timeout: "pong_timer a \<Longrightarrow> channel_step env (a, g) Pong_timeout (MeshServer_ControlChannel_IdleTimeout_PongTimeout a, g)"
| background: "kept a' = kept a \<Longrightarrow> channel_step env (a, g) Background (a', g)"

inductive channel_reachable :: "'c agent_env \<Rightarrow> MeshAgentHostContainer \<times> 'c conn \<Rightarrow> bool" for env where
  start: "serverAuthState a = 0 \<Longrightarrow> partial_state a = (None, 0, 0, False) \<Longrightarrow> frag g = [] \<Longrightarrow> channel_reachable env (a, g)"
| step: "channel_reachable env s \<Longrightarrow> channel_step env s e s' \<Longrightarrow> channel_reachable env s'"

inductive_cases channel_stepE: "channel_step env (a, g) e (a', g')"

text \<open>How the bits of \<open>serverAuthState\<close> were set.\<close>

definition proof_received :: "'c agent_env \<Rightarrow> MeshAgentHostContainer \<Rightarrow> 'c conn \<Rightarrow> bool" where
  "proof_received env a g \<longleftrightarrow> stored_cert g
     \<or> (\<exists>m \<in> set (msgs g). \<exists>snonce. server_proof env (serverHash a) (peer_cert g) (agentNonce a) snonce m)"

definition confirm_received :: "'c conn \<Rightarrow> bool" where
  "confirm_received g \<longleftrightarrow> (\<exists>m \<in> set (msgs g). ntohs m = Some MeshCommand_AuthConfirm)"

definition auth_inv :: "'c agent_env \<Rightarrow> MeshAgentHostContainer \<Rightarrow> 'c conn \<Rightarrow> bool" where
  "auth_inv env a g \<longleftrightarrow> serverAuthState a \<in> {0, 1, 2, 3}
     \<and> (serverAuthState a \<in> {1, 3} \<longrightarrow> proof_received env a g) \<and> (serverAuthState a \<in> {2, 3} \<longrightarrow> confirm_received g)"

lemma auth_inv_upd [simp]:
  "auth_inv env a (g\<lparr>frag := f\<rparr>) = auth_inv env a g"
  by (simp add: auth_inv_def proof_received_def confirm_received_def)

lemma auth_inv_same:
  "serverAuthState a' = serverAuthState a \<Longrightarrow> serverHash a' = serverHash a \<Longrightarrow> agentNonce a' = agentNonce a \<Longrightarrow>
    auth_inv env a' g = auth_inv env a g"
  by (simp add: auth_inv_def proof_received_def confirm_received_def)

lemma auth_inv_reset [simp]: "auth_inv env (reset a) g = auth_inv env a g"
  by (rule auth_inv_same) simp_all

lemma auth_inv_act [simp]: "auth_inv env (act x a) g = auth_inv env a g"
  by (rule auth_inv_same) simp_all

lemma received_more:
  assumes "serverHash a' = serverHash a" "agentNonce a' = agentNonce a"
  shows "proof_received env a g \<Longrightarrow> proof_received env a' (g\<lparr>msgs := msgs g @ [m]\<rparr>)"
    "confirm_received g \<Longrightarrow> confirm_received (g\<lparr>msgs := msgs g @ [m]\<rparr>)"
    "server_proof env (serverHash a) (peer_cert g) (agentNonce a) snonce m \<Longrightarrow> proof_received env a' (g\<lparr>msgs := msgs g @ [m]\<rparr>)"
    "ntohs m = Some MeshCommand_AuthConfirm \<Longrightarrow> confirm_received (g\<lparr>msgs := msgs g @ [m]\<rparr>)"
  using assms by (auto simp: proof_received_def confirm_received_def)

lemma auth_inv_message:
  assumes "MeshServer_ProcessCommand env (peer_cert g) m a = Some a'" "auth_inv env a g"
  shows "auth_inv env a' (g\<lparr>msgs := msgs g @ [m]\<rparr>)"
proof -
  have h: "serverHash a' = serverHash a" using ProcessCommand_partial_state [OF assms(1)] by simp
  have n: "agentNonce a' = agentNonce a"
    using ProcessCommand_authenticated [OF assms(1)] ProcessCommand_spec [OF assms(1)] by (auto simp: kept_def)
  note more = received_more [OF h n, where g = g and m = m]
  consider "serverAuthState a' = serverAuthState a"
    | snonce where "serverAuthState a' = serverAuthState a OR 1" "server_proof env (serverHash a) (peer_cert g) (agentNonce a) snonce m"
    | "serverAuthState a' = serverAuthState a OR 2" "ntohs m = Some MeshCommand_AuthConfirm"
    using ProcessCommand_authenticated [OF assms(1)] ProcessCommand_spec [OF assms(1)]
    by (cases "serverAuthState a = 3") (auto simp: kept_def)
  then show ?thesis
  proof cases
    case 1
    then show ?thesis using assms(2) more(1,2) by (simp add: auth_inv_def)
  next
    case 2
    have "proof_received env a' (g\<lparr>msgs := msgs g @ [m]\<rparr>)" by (rule more(3) [OF 2(2)])
    then show ?thesis using assms(2) more(2) 2(1) by (auto simp: auth_inv_def)
  next
    case 3
    have "confirm_received (g\<lparr>msgs := msgs g @ [m]\<rparr>)" by (rule more(4) [OF 3(2)])
    then show ?thesis using assms(2) more(1) 3(1) by (auto simp: auth_inv_def)
  qed
qed

lemma auth_inv_more: "auth_inv env a g \<Longrightarrow> auth_inv env a (g\<lparr>msgs := msgs g @ [m]\<rparr>)"
  using received_more(1,2) [OF refl refl, where g = g] by (auto simp: auth_inv_def)

definition channel_inv :: "'c agent_env \<Rightarrow> MeshAgentHostContainer \<times> 'c conn \<Rightarrow> bool" where
  "channel_inv env s \<longleftrightarrow> auth_inv env (fst s) (snd s) \<and> assembled (fst s) (frag (snd s))"

lemma act_inj [simp]: "act x a = act x b \<longleftrightarrow> a = b"
  by (cases a; cases b) (simp add: act_def)

lemma channel_inv_receive:
  assumes "MeshServer_OnResponse env (peer_cert g) [] False header status body a = Some a'" "status \<noteq> Connection_Established"
    and "auth_inv env a g" "assembled a (frag g)"
  shows "auth_inv env a' (conn_receive header status body g) \<and> assembled a' (frag (conn_receive header status body g))"
proof -
  obtain b where a': "a' = (if header = None then act Reconnect b else b)"
    using assms(1) by (auto simp: MeshServer_OnResponse_def split: Option.bind_splits)
  have "auth_inv env b (conn_receive header status body g) \<and> assembled b (frag (conn_receive header status body g))"
  proof (cases status)
    case MoreDataToBeReceived
    then obtain code where code: "header = Some code" using assms(1) by (auto simp: MeshServer_OnResponse_def split: Option.bind_splits)
    show ?thesis
    proof (cases "code = 101")
      case True
      then have p: "MeshServer_ProcessCommand env (peer_cert g) body a = Some b"
        using assms(1) a' code MoreDataToBeReceived by (simp add: OnResponse_Partial)
      show ?thesis using auth_inv_message [OF p assms(3)] assembled_partial_state [of b a] ProcessCommand_partial_state [OF p] assms(4) True code
          MoreDataToBeReceived by (simp add: conn_receive_def)
    next
      case False
      then have "b = a" using assms(1) a' code MoreDataToBeReceived by (simp add: MeshServer_OnResponse_def)
      then show ?thesis using assms(3,4) False code MoreDataToBeReceived by (simp add: conn_receive_def)
    qed
  next
    case Complete
    then have "b = disconnected a" using assms(1) a' by (auto simp: MeshServer_OnResponse_def split: if_splits)
    then have "serverAuthState b = 0" "partial_state b = (None, 0, 0, False)"
      by (simp_all add: disconnected_def Let_def partial_state_def MeshServer_ControlChannel_ResetPartial_def)
    then show ?thesis using Complete by (simp add: auth_inv_def conn_receive_def assembled_reset)
  next
    case Partial
    show ?thesis
    proof (cases "header = Some 101")
      case True
      then have b: "receive_partial env (peer_cert g) False body a = Some b"
        using assms(1) a' Partial by (simp add: OnResponse_Partial)
      obtain c where c: "receive_partial env (peer_cert g) False body a = Some c" "assembled c (frag g @ body)" "reset c = reset a"
        by (rule receive_piece [OF assms(4)])
      have "auth_inv env b g" using assms(3) c(1,3) b by (metis auth_inv_reset option.inject)
      then show ?thesis using b c True Partial by (simp add: conn_receive_def)
    next
      case False
      then have "b = reset a" using assms(1) a' Partial by (auto simp: MeshServer_OnResponse_def reset_def split: if_splits)
      then show ?thesis using False Partial assms(3) by (simp add: conn_receive_def assembled_reset)
    qed
  next
    case LastPartial
    show ?thesis
    proof (cases "header = Some 101")
      case True
      then have b: "receive_partial env (peer_cert g) True body a = Some b"
        using assms(1) a' LastPartial by (simp add: OnResponse_Partial)
      have "auth_inv env b (g\<lparr>msgs := msgs g @ [frag g @ body]\<rparr>) \<and> partial_state b = (None, 0, 0, False)"
      proof (cases "2 \<le> length (frag g @ body) \<and> length (frag g @ body) \<le> MAX_MESSAGE")
        case True
        then have p: "MeshServer_ProcessCommand env (peer_cert g) (frag g @ body) (reset a) = Some b"
          using b receive_last [OF assms(4), of env "peer_cert g" body] by simp
        show ?thesis using auth_inv_message [OF p] assms(3) ProcessCommand_partial_state [OF p] by simp
      next
        case False
        then have "b = reset a" using b receive_last [OF assms(4), of env "peer_cert g" body] by (simp split: if_splits)
        then show ?thesis using auth_inv_more assms(3) by simp
      qed
      then show ?thesis using True LastPartial by (simp add: conn_receive_def assembled_reset)
    next
      case False
      then have "b = reset a" using assms(1) a' LastPartial by (auto simp: MeshServer_OnResponse_def reset_def split: if_splits)
      then show ?thesis using False LastPartial assms(3) by (simp add: conn_receive_def assembled_reset)
    qed
  next
    case Connection_Established
    then show ?thesis using assms(2) by simp
  qed
  moreover have "auth_inv env a' h = auth_inv env b h" "assembled a' m = assembled b m" for h m
    using assembled_partial_state [of "act Reconnect b" b] by (simp_all add: a')
  ultimately show ?thesis by simp
qed

lemma channel_inv_connect:
  assumes "MeshServer_OnResponse env p nonce sent header Connection_Established [] a = Some a'"
  shows "auth_inv env a' \<lparr>peer_cert = p, stored_cert = sent \<and> stored_cert_matches env p a, msgs = [], frag = []\<rparr> \<and> assembled a' []"
proof -
  obtain b where b: "connection_established env p nonce sent a = Some b" "a' = (if header = None then act Reconnect b else b)"
    using assms by (auto simp: MeshServer_OnResponse_def split: Option.bind_splits)
  have "partial_state a' = (None, 0, 0, False)" "serverAuthState a' = 0 \<or> serverAuthState a' = 1 \<and> sent \<and> stored_cert_matches env p a"
    using connect_spec [OF b(1)] b(2) by auto
  then show ?thesis by (auto simp: auth_inv_def proof_received_def assembled_reset)
qed

lemma channel_inv_step:
  assumes "channel_step env s e s'" "channel_inv env s"
  shows "channel_inv env s'"
  using assms
proof cases
  case (background a' a g)
  then have "auth_inv env a' g = auth_inv env a g" by (intro auth_inv_same) (simp_all add: kept_def)
  then show ?thesis using background assms(2) assembled_partial_state [of a' a] by (simp add: channel_inv_def kept_def)
next
  case (receive g header status body a a')
  then show ?thesis using channel_inv_receive [OF receive(4,5)] assms(2) by (simp add: channel_inv_def)
next
  case (connect p nonce sent header a a' g)
  then show ?thesis using channel_inv_connect by (simp add: channel_inv_def)
next
  case (idle a g)
  have "auth_inv env (MeshServer_ControlChannel_IdleTimeout a) g = auth_inv env a g"
    by (rule auth_inv_same) (simp_all add: MeshServer_ControlChannel_IdleTimeout_def)
  moreover have "partial_state (MeshServer_ControlChannel_IdleTimeout a) = partial_state a"
    by (simp add: MeshServer_ControlChannel_IdleTimeout_def partial_state_def)
  ultimately show ?thesis using idle assms(2) assembled_partial_state [of "MeshServer_ControlChannel_IdleTimeout a" a] by (simp add: channel_inv_def)
next
  case (pong a g)
  have "auth_inv env (MeshServer_ControlChannel_PongSink a) g = auth_inv env a g"
    by (rule auth_inv_same) (simp_all add: MeshServer_ControlChannel_PongSink_def)
  moreover have "partial_state (MeshServer_ControlChannel_PongSink a) = partial_state a"
    by (simp add: MeshServer_ControlChannel_PongSink_def partial_state_def)
  ultimately show ?thesis using pong assms(2) assembled_partial_state [of "MeshServer_ControlChannel_PongSink a" a] by (simp add: channel_inv_def)
next
  case (pong_timeout a g)
  have "auth_inv env (MeshServer_ControlChannel_IdleTimeout_PongTimeout a) g = auth_inv env a g"
    by (rule auth_inv_same) (simp_all add: MeshServer_ControlChannel_IdleTimeout_PongTimeout_def)
  moreover have "partial_state (MeshServer_ControlChannel_IdleTimeout_PongTimeout a) = partial_state a"
    by (simp add: MeshServer_ControlChannel_IdleTimeout_PongTimeout_def partial_state_def)
  ultimately show ?thesis using pong_timeout assms(2) assembled_partial_state [of "MeshServer_ControlChannel_IdleTimeout_PongTimeout a" a] by (simp add: channel_inv_def)
qed

lemma channel_inv_reachable: "channel_reachable env s \<Longrightarrow> channel_inv env s"
proof (induction rule: channel_reachable.induct)
  case (start a g)
  then show ?case by (simp add: channel_inv_def auth_inv_def assembled_reset)
next
  case (step s e s')
  then show ?case by (rule_tac channel_inv_step)
qed

end
