(* ===== verification/AgentProps.thy ===== *)
theory AgentProps
  imports AgentChannel
begin

text \<open>
  Properties of the control channel: what it takes to command the agent, the bounds of the reassembly, the
  update of the binary, and the stale timer of a ping.
\<close>

unbundle bit_operations_syntax

section \<open>A store in memory\<close>

text \<open>Stores without a file and with at most one value, for examples.\<close>

definition mem_store :: "byte list option \<Rightarrow> ILibSimpleDataStore_Root \<Rightarrow> bool" where
  "mem_store k r \<longleftrightarrow> dataFile r = None \<and> keyTable r = ILibHashtable_Create \<and> 0 < next_free r
     \<and> (case k of None \<Rightarrow> cacheTable r = None | Some k \<Rightarrow> \<exists>t a. cacheTable r = Some t \<and> tab_ok {k} t [k \<mapsto> a])"

lemma find_entry_none:
  assumes "tab_ok K t T" "T j = None" "\<And>c. compressed_key j = Some c \<Longrightarrow> T c = None" "j \<noteq> []"
  shows "find_entry t j = Some (0, True)"
proof -
  obtain ck where "compressed_key j = Some ck" using compressed_marked [of j] by blast
  then show ?thesis using tab_get [OF assms(1), of j] tab_get [OF assms(1), of ck] assms(2,3) by (simp add: find_entry_def)
qed

lemma mem_get:
  assumes "mem_store k r" "j \<noteq> []" "trim_key j = j" "length j \<le> INT32_MAX" "n \<le> INT32_MAX"
    "\<And>x. k = Some x \<Longrightarrow> x \<noteq> j \<and> length x \<noteq> length j + 4"
  shows "ILibSimpleDataStore_GetEx sha z r j buf n = Some (r, 0, buf)"
proof -
  have e: "find_entry ILibHashtable_Create j = Some (0, True)"
    by (rule find_entry_none [OF tab_create [of "{}"]]) (simp_all add: assms(2))
  have "get_cached z r j buf n = Some None"
  proof (cases k)
    case None
    then show ?thesis using assms(1) by (simp add: mem_store_def get_cached_def)
  next
    case (Some x)
    then obtain t a where t: "cacheTable r = Some t" "tab_ok {x} t [x \<mapsto> a]" using assms(1) by (auto simp: mem_store_def)
    have "length c = length j + 4" if "compressed_key j = Some c" for c
      using that by (auto simp: compressed_key_def write32_def)
    then have "find_entry t j = Some (0, True)" using assms(2,6) Some
      by (intro find_entry_none [OF t(2)]) (auto simp: length_append)
    then show ?thesis using t by (simp add: get_cached_def)
  qed
  then show ?thesis using assms e by (simp add: ILibSimpleDataStore_GetEx_def mem_store_def Let_def)
qed

lemma mem_put:
  assumes "mem_store None r" "length k \<le> INT32_MAX" "length v \<le> INT32_MAX" "cache_value v = Some w"
  shows "\<exists>r'. ILibSimpleDataStore_PutEx2 sha e r k v None = Some (r', 0) \<and> mem_store (Some k) r'"
proof -
  obtain t where t: "table_put ILibHashtable_Create k (next_free r) = Some t" "tab_ok {k} t [k \<mapsto> next_free r]"
    using tab_put [OF tab_create [of "{k}"], of k "next_free r"] assms(1) by (auto simp: mem_store_def)
  then show ?thesis using assms
    by (auto simp: ILibSimpleDataStore_PutEx2_def ILibSimpleDataStore_CachedEx_def mem_store_def)
qed

lemma mem_db_get:
  assumes "mem_store k (masterDb a)" "j \<noteq> []" "trim_key j = j" "length j \<le> INT32_MAX" "n \<le> INT32_MAX"
    "\<And>x. k = Some x \<Longrightarrow> x \<noteq> j \<and> length x \<noteq> length j + 4"
  shows "db_get env j buf n a = Some (a, 0, buf)"
  by (simp add: db_get_def mem_get [OF assms])

section \<open>Authentication\<close>

lemma reachable_auth:
  "channel_reachable env (a, g) \<Longrightarrow> auth_inv env a g \<and> assembled a (frag g)"
  using channel_inv_reachable [of env "(a, g)"] by (simp add: channel_inv_def)

lemma harmless_privileged:
  assumes "harmless a a'"
  shows "update_file a' = update_file a \<and> (\<forall>x \<in> set (drop (length (actions a)) (actions a')). \<not> privileged x)"
  using assms by (auto simp: harmless_def list_all_iff)

lemma harmless_reset [simp]: "harmless a (reset b) = harmless a b" "harmless (reset a) b = harmless a b"
  by (simp_all add: harmless_def reset_def MeshServer_ControlChannel_ResetPartial_def)

lemma reset_reset [simp]: "reset (reset a) = reset a"
  by (rule reset_id) simp

lemma harmless_disconnected: "harmless a (disconnected a)"
  by (simp add: disconnected_def Let_def reset_def [symmetric])

lemma receive_harmless:
  assumes "MeshServer_OnResponse env (peer_cert g) n s header status body a = Some a'" "assembled a (frag g)" "serverAuthState a \<noteq> 3"
  shows "harmless a a'"
proof -
  obtain b where a': "a' = (if header = None then act Reconnect b else b)"
    and b: "(case status of
         Connection_Established \<Rightarrow> connection_established env (peer_cert g) n s a
       | Complete \<Rightarrow> Some (disconnected a)
       | MoreDataToBeReceived \<Rightarrow> Option.bind header (\<lambda>code. if code = 101 then MeshServer_ProcessCommand env (peer_cert g) body a else Some a)
       | _ \<Rightarrow> if header \<noteq> Some 101 then Some (reset a) else receive_partial env (peer_cert g) (status = LastPartial) body a) = Some b"
    using assms(1) unfolding MeshServer_OnResponse_def reset_def by (auto split: Option.bind_splits)
  have "harmless a b"
  proof (cases status)
    case Partial
    obtain c where "receive_partial env (peer_cert g) False body a = Some c" "reset c = reset a"
      using receive_piece [OF assms(2), of env "peer_cert g" body] by blast
    then have "reset b = reset a" using b Partial by (auto split: if_splits)
    then show ?thesis by (metis harmless_refl harmless_reset(1))
  next
    case LastPartial
    show ?thesis
    proof (cases "b = reset a")
      case False
      then have "MeshServer_ProcessCommand env (peer_cert g) (frag g @ body) (reset a) = Some b"
        using b LastPartial by (auto simp: receive_last [OF assms(2)] split: if_splits)
      from ProcessCommand_spec [OF this] show ?thesis using assms(3) by simp
    qed simp
  next
    case Connection_Established
    then show ?thesis using b connect_spec by fastforce
  next
    case Complete
    then show ?thesis using b harmless_disconnected by auto
  next
    case MoreDataToBeReceived
    then show ?thesis using b ProcessCommand_spec [of env "peer_cert g" body a b] assms(3) by (auto split: Option.bind_splits if_splits)
  qed
  then show ?thesis by (simp add: a')
qed

text \<open>C1 (safety): Only an authenticated server can command the agent.  In every run of the control channel, an event of the
  channel that starts or stops a script, gives the scripts a message, touches the update file or updates the agent
  happens on a connection on which the server sent a confirmation and either has the TLS certificate the agent stored for
  an earlier proof, or sent a signature, by the key that the agent's policy names, of the hash of this connection's TLS certificate and of
  the nonce the agent chose.\<close>

theorem commands_need_authentication:
  assumes "channel_reachable env (a, g)" "channel_step env (a, g) e (a', g')" "e \<noteq> Background"
    and "update_file a' \<noteq> update_file a \<or> (\<exists>x \<in> set (drop (length (actions a)) (actions a')). privileged x)"
  shows "(\<exists>m \<in> set (msgs g). ntohs m = Some MeshCommand_AuthConfirm)
    \<and> (stored_cert g \<or> (\<exists>m \<in> set (msgs g). \<exists>snonce. server_proof env (serverHash a) (peer_cert g) (agentNonce a) snonce m))"
proof -
  have inv: "auth_inv env a g" "assembled a (frag g)" using reachable_auth [OF assms(1)] by auto
  have "serverAuthState a = 3"
  proof (rule ccontr)
    assume 3: "serverAuthState a \<noteq> 3"
    from assms(2) have "update_file a' = update_file a \<and> (\<forall>x \<in> set (drop (length (actions a)) (actions a')). \<not> privileged x)"
    proof (rule channel_stepE)
      fix p nonce sent header
      assume "MeshServer_OnResponse env p nonce sent header Connection_Established [] a = Some a'"
      then show ?thesis using receive_harmless [of env "g\<lparr>peer_cert := p\<rparr>"] inv(2) 3 by (intro harmless_privileged) simp
    next
      fix header status body
      assume "MeshServer_OnResponse env (peer_cert g) [] False header status body a = Some a'"
      then show ?thesis by (rule harmless_privileged [OF receive_harmless [OF _ inv(2) 3]])
    qed (use assms(3) in \<open>simp_all add: act_def MeshServer_ControlChannel_IdleTimeout_def MeshServer_ControlChannel_PongSink_def
        MeshServer_ControlChannel_IdleTimeout_PongTimeout_def\<close>)
    then show False using assms(4) by blast
  qed
  then show ?thesis using inv(1) by (simp add: auth_inv_def proof_received_def confirm_received_def)
qed

section \<open>An honest server\<close>

abbreviation cert_key :: "byte list" where
  "cert_key \<equiv> str ''ServerTlsCertHash''"

lemma agent_get:
  assumes "mem_store k (masterDb a)" "k = None \<or> k = Some cert_key" "n \<le> 65536"
    "j = str ''agentName'' \<or> j = str ''Tag'' \<or> j = str ''controlChannelIdleTimeout'' \<or> k = None \<and> j = cert_key"
  shows "db_get env j buf n a = Some (a, 0, buf)"
  by (rule mem_db_get [OF assms(1)]) (use assms(2-4) in \<open>auto simp: trim_key_def INT32_MAX_def\<close>)

text \<open>
  What the handlers need of a store: it answers for the keys they read, and it takes the hash \<open>d\<close> of a certificate, which brings it
  from \<open>before\<close> to \<open>stored\<close>.
\<close>

locale agent_db =
  fixes env :: "'c agent_env" and d :: "byte list" and before stored :: "ILibSimpleDataStore_Root \<Rightarrow> bool"
  assumes get: "before r \<or> stored r \<Longrightarrow> j = str ''Tag'' \<or> j = str ''agentName'' \<Longrightarrow> n \<le> 65536 \<Longrightarrow> (\<And>b. buf = Some b \<Longrightarrow> length b = n)
      \<Longrightarrow> \<exists>r' m b'. ILibSimpleDataStore_GetEx (SHA384 env) (inflate env) r j buf n = Some (r', m, b') \<and> (b' = None \<longleftrightarrow> buf = None)
            \<and> (before r \<longrightarrow> before r') \<and> (stored r \<longrightarrow> stored r')"
    and put: "before r \<Longrightarrow> \<exists>r'. ILibSimpleDataStore_PutEx2 (SHA384 env) (fs env) r cert_key d None = Some (r', 0) \<and> stored r'"

fun process_messages :: "'c agent_env \<Rightarrow> 'c \<Rightarrow> byte list list \<Rightarrow> MeshAgentHostContainer \<Rightarrow> MeshAgentHostContainer option" where
  "process_messages env peer [] a = Some a"
| "process_messages env peer (m # ms) a = do {
     a \<leftarrow> MeshServer_ProcessCommand env peer m a;
     process_messages env peer ms a }"

lemma process_confirm:
  assumes "ntohs c = Some MeshCommand_AuthConfirm" "serverAuthState a \<noteq> 3"
  shows "MeshServer_ProcessCommand env peer c a = auth_confirm env a"
  using assms by (simp add: MeshServer_ProcessCommand_def process_auth_def MeshCommands_Binary)

lemma process_verify:
  assumes "server_proof env (serverHash a) peer (agentNonce a) (serverNonce a) v" "8 < length v" "serverAuthState a \<noteq> 3"
    and "db_put env cert_key (X509_digest env peer) (a\<lparr>serverAuthState := serverAuthState a OR 1\<rparr>) = Some b"
  shows "MeshServer_ProcessCommand env peer v a = MeshServer_SendAgentInfo env b"
proof -
  obtain certLen cert where c: "ntohs v = Some MeshCommand_AuthVerify" "ntohs (drop 2 v) = Some certLen" "4 + certLen < length v"
    "d2i_X509 env (slice v 4 certLen) = Some cert"
    "X509_pubkey_digest env cert = serverHash a \<or> X509_pubkey_digest256 env cert = take 32 (serverHash a)"
    "RSA_verify env cert (SHA384 env (X509_digest env peer @ agentNonce a @ serverNonce a))
              (slice v (4 + certLen) ((length v - (4 + certLen)) mod 65536))"
    using assms(1) unfolding server_proof_def by blast
  have "MeshServer_ProcessCommand env peer v a = auth_verify env peer v a"
    using c(1) assms(3) by (simp add: MeshServer_ProcessCommand_def process_auth_def MeshCommands_Binary)
  also have "\<dots> = MeshServer_SendAgentInfo env b"
    using c assms(2,4) by (auto simp: auth_verify_def auth_digest_def Let_def simp del: str_simps)
  finally show ?thesis .
qed

text \<open>More actions, with the state of the store and of authentication kept.\<close>

definition db_grows ::
  "(ILibSimpleDataStore_Root \<Rightarrow> bool) \<Rightarrow> (ILibSimpleDataStore_Root \<Rightarrow> bool) \<Rightarrow> MeshAgentHostContainer \<Rightarrow> MeshAgentHostContainer \<Rightarrow> bool" where
  "db_grows before stored a a' \<longleftrightarrow> (\<exists>xs. actions a' = actions a @ xs) \<and> serverAuthState a' = serverAuthState a
     \<and> (before (masterDb a) \<longrightarrow> before (masterDb a')) \<and> (stored (masterDb a) \<longrightarrow> stored (masterDb a'))"

context agent_db
begin

lemma grows_trans: "db_grows before stored a b \<Longrightarrow> db_grows before stored b c \<Longrightarrow> db_grows before stored a c"
  by (auto simp: db_grows_def)

lemma grows_act: "db_grows before stored a b \<Longrightarrow> db_grows before stored a (act x b)"
  by (auto simp: db_grows_def act_def)

lemma db_get_grows:
  assumes "before (masterDb a) \<or> stored (masterDb a)" "j = str ''Tag'' \<or> j = str ''agentName''" "n \<le> 65536" "\<And>b. buf = Some b \<Longrightarrow> length b = n"
  obtains a' m b' where "db_get env j buf n a = Some (a', m, b')" "b' = None \<longleftrightarrow> buf = None" "db_grows before stored a a'"
  using get [OF assms] that by (fastforce simp: db_get_def db_grows_def)

lemma ServerAuthenticated_grows:
  assumes "before (masterDb a) \<or> stored (masterDb a)" "serverAuthState a = 3"
  obtains b where "MeshServer_ServerAuthenticated env a = Some (act (Emit_Connected True) b)" "db_grows before stored a b"
proof -
  obtain a' m b' where g: "db_get env (str ''Tag'') (Some (replicate 65534 0)) 65534 a = Some (a', m, Some b')" "db_grows before stored a a'"
    by (rule db_get_grows [OF assms(1), of "str ''Tag''" 65534 "Some (replicate 65534 0)"]) auto
  then have "serverAuthState a' = 3" using assms(2) by (simp add: db_grows_def)
  then show thesis
    using g by (intro that [of "send (htons MeshCommand_AgentTag @ take (nat m) b') a'"])
      (simp_all add: MeshServer_ServerAuthenticated_def Let_def grows_act del: str_simps)
qed

lemma SendAgentInfo_grows:
  assumes "before (masterDb a) \<or> stored (masterDb a)"
  obtains b where "db_grows before stored a b"
    "MeshServer_SendAgentInfo env a = (if serverAuthState a = 3 then MeshServer_ServerAuthenticated env b else Some b)"
proof -
  obtain a1 m where g1: "db_get env (str ''agentName'') None 0 a = Some (a1, m, None)" "db_grows before stored a a1"
    by (rule db_get_grows [OF assms, of "str ''agentName''" 0 None]) auto
  have "before (masterDb a1) \<or> stored (masterDb a1)" using g1(2) assms by (auto simp: db_grows_def)
  then obtain a2 k b2 where g2: "db_get env (str ''agentName'') (Some (replicate 255 0)) 255 a1 = Some (a2, k, Some b2)" "db_grows before stored a1 a2"
    by (rule db_get_grows [of a1 "str ''agentName''" 255 "Some (replicate 255 0)"]) auto
  define a3 where "a3 = (if 0 < m \<and> m < 255 then act (Send_text (str ''{'' @ [34] @ str ''action'' @ [34] @ str '':'' @ [34] @ str ''agentName'' @ [34]
      @ str '','' @ [34] @ str ''value'' @ [34] @ str '':'' @ [34] @ takeWhile (\<lambda>c. c \<noteq> 0) b2 @ [34] @ str ''}'')) a2 else a1)"
  have g3: "db_grows before stored a (send (auth_info env a3) a3)"
    using grows_trans [OF g1(2) g2(2)] g1(2) by (auto simp: a3_def grows_act)
  have "serverAuthState a1 = serverAuthState a" "serverAuthState a2 = serverAuthState a" using g1(2) g2(2) by (simp_all add: db_grows_def)
  then have "MeshServer_SendAgentInfo env a = (if serverAuthState a = 3 then MeshServer_ServerAuthenticated env (send (auth_info env a3) a3)
      else Some (send (auth_info env a3) a3))"
    using g1(1) g2(1) by (simp add: MeshServer_SendAgentInfo_def Let_def a3_def del: str_simps)
  with g3 show thesis by (rule that)
qed

lemma authenticate:
  assumes "before (masterDb a)" "serverAuthState a = 0" "d = X509_digest env peer"
    and "server_proof env (serverHash a) peer (agentNonce a) (serverNonce a) v" "8 < length v" "ntohs c = Some MeshCommand_AuthConfirm"
    and "ms = [v, c] \<or> ms = [c, v]"
  shows "\<exists>a' xs. process_messages env peer ms a = Some a' \<and> serverAuthState a' = 3
    \<and> actions a' = actions a @ xs @ [Emit_Connected True] \<and> stored (masterDb a')"
proof -
  obtain db where db: "ILibSimpleDataStore_PutEx2 (SHA384 env) (fs env) (masterDb a) cert_key (X509_digest env peer) None = Some (db, 0)" "stored db"
    using put [OF assms(1)] assms(3) by blast
  have final: "\<exists>a' xs. MeshServer_ServerAuthenticated env b = Some a' \<and> serverAuthState a' = 3
      \<and> actions a' = actions a @ xs @ [Emit_Connected True] \<and> stored (masterDb a')"
    if b: "serverAuthState b = 3" "stored (masterDb b)" "actions b = actions a @ ys" for b ys
  proof -
    obtain e where "MeshServer_ServerAuthenticated env b = Some (act (Emit_Connected True) e)" "db_grows before stored b e"
      using ServerAuthenticated_grows [of b] b(1,2) by blast
    then show ?thesis using b by (auto simp: db_grows_def act_def)
  qed
  show ?thesis
  proof (cases "ms = [v, c]")
    case True
    let ?b = "a\<lparr>serverAuthState := 1, masterDb := db\<rparr>"
    obtain b where b: "db_grows before stored ?b b" "MeshServer_SendAgentInfo env ?b = Some b"
      using SendAgentInfo_grows [of ?b] db(2) by auto
    have p: "MeshServer_ProcessCommand env peer v a = Some b"
      using process_verify [OF assms(4,5), of ?b] assms(2) db(1) b(2) by (simp add: db_put_def del: str_simps)
    have q: "MeshServer_ProcessCommand env peer c b = MeshServer_ServerAuthenticated env (b\<lparr>serverAuthState := 3\<rparr>)"
      using process_confirm [OF assms(6), of b env peer] b(1) by (simp add: db_grows_def auth_confirm_def)
    obtain ys where "actions b = actions a @ ys" using b(1) by (auto simp: db_grows_def)
    then show ?thesis using final [of "b\<lparr>serverAuthState := 3\<rparr>" ys] b(1) db(2) p q True by (auto simp: db_grows_def)
  next
    case False
    let ?a = "a\<lparr>serverAuthState := 2\<rparr>" and ?c = "a\<lparr>serverAuthState := 3, masterDb := db\<rparr>"
    obtain b where b: "db_grows before stored ?c b" "MeshServer_SendAgentInfo env ?c = MeshServer_ServerAuthenticated env b"
      using SendAgentInfo_grows [of ?c] db(2) by auto
    have p: "MeshServer_ProcessCommand env peer c a = Some ?a"
      using process_confirm [OF assms(6), of a env peer] assms(2) by (simp add: auth_confirm_def)
    have q: "MeshServer_ProcessCommand env peer v ?a = MeshServer_ServerAuthenticated env b"
      using process_verify [of env ?a peer v ?c] assms(4,5) db(1) b(2) by (simp add: db_put_def del: str_simps)
    obtain ys where "actions b = actions a @ ys" using b(1) by (auto simp: db_grows_def)
    then show ?thesis using final [of b ys] b(1) db(2) p q False assms(7) by (auto simp: db_grows_def)
  qed
qed

end

interpretation mem_db: agent_db env d "\<lambda>r. mem_store None r \<and> length d \<le> INT32_MAX \<and> cache_value d \<noteq> None" "mem_store (Some cert_key)"
  for env :: "'c agent_env" and d
proof
  fix r j and n :: nat and buf :: "byte list option"
  assume "(mem_store None r \<and> length d \<le> INT32_MAX \<and> cache_value d \<noteq> None) \<or> mem_store (Some cert_key) r" "j = str ''Tag'' \<or> j = str ''agentName''"
    and "n \<le> 65536"
  then have "ILibSimpleDataStore_GetEx (SHA384 env) (inflate env) r j buf n = Some (r, 0, buf)"
    using mem_get [of None r j n] mem_get [of "Some cert_key" r j n] by (auto simp: trim_key_def INT32_MAX_def)
  then show "\<exists>r' m b'. ILibSimpleDataStore_GetEx (SHA384 env) (inflate env) r j buf n = Some (r', m, b') \<and> (b' = None \<longleftrightarrow> buf = None)
      \<and> (mem_store None r \<and> length d \<le> INT32_MAX \<and> cache_value d \<noteq> None \<longrightarrow> mem_store None r' \<and> length d \<le> INT32_MAX \<and> cache_value d \<noteq> None)
      \<and> (mem_store (Some cert_key) r \<longrightarrow> mem_store (Some cert_key) r')" by auto
next
  fix r assume r: "mem_store None r \<and> length d \<le> INT32_MAX \<and> cache_value d \<noteq> None"
  have "length cert_key \<le> INT32_MAX" by (simp add: INT32_MAX_def)
  with r show "\<exists>r'. ILibSimpleDataStore_PutEx2 (SHA384 env) (fs env) r cert_key d None = Some (r', 0) \<and> mem_store (Some cert_key) r'"
    using mem_put [of r cert_key d] by (auto simp del: str_simps)
qed

text \<open>
  The store of an agent: a file, and possibly values in memory, from the command line or for the proxy.  No two keys have the same hash, and the two values
  that the handlers read are not in memory and not compressed in the file.
\<close>

definition agent_store :: "(byte list \<Rightarrow> byte list) \<Rightarrow> nat \<Rightarrow> ILibSimpleDataStore_Root \<Rightarrow> srec list \<Rightarrow> bool" where
  "agent_store sha N r recs \<longleftrightarrow> (\<exists>K. sds_core sha K N r recs \<and> cert_key \<in> K)
     \<and> (\<forall>j \<in> {str ''Tag'', str ''agentName''}. (\<forall>ck. compressed_key j = Some ck \<longrightarrow> log_map recs ck = None)
          \<and> (\<forall>t. cacheTable r = Some t \<longrightarrow> find_entry t j = Some (0, True)))"

lemma agent_store_get:
  assumes "agent_store sha N r recs" "j = str ''Tag'' \<or> j = str ''agentName''" "n \<le> 65536" "\<And>b. buf = Some b \<Longrightarrow> length b = n"
  shows "\<exists>r' m b'. ILibSimpleDataStore_GetEx sha z r j buf n = Some (r', m, b') \<and> (b' = None \<longleftrightarrow> buf = None) \<and> agent_store sha N r' recs"
proof -
  obtain K where K: "sds_core sha K N r recs" "cert_key \<in> K" using assms(1) by (auto simp: agent_store_def)
  have c: "get_cached z r j buf n = Some None"
    using assms(1,2) by (auto simp: agent_store_def get_cached_def split: option.split simp del: str_simps)
  have j: "trim_key j = j" "length j \<le> INT32_MAX" "n \<le> INT32_MAX" using assms(2,3) by (auto simp: trim_key_def INT32_MAX_def)
  have ck: "log_map recs ck = None" if "compressed_key j = Some ck" for ck
    using assms(1,2) that by (auto simp: agent_store_def simp del: str_simps)
  obtain r' m b' where r': "ILibSimpleDataStore_GetEx sha z r j buf n = Some (r', m, b')" "b' = None \<longleftrightarrow> buf = None" "sds_core sha K N r' recs"
    "cacheTable r' = cacheTable r"
    using Get_total [OF K(1) c j ck assms(4)] by blast
  then have "agent_store sha N r' recs" using assms(1) K(2) by (auto simp: agent_store_def simp del: str_simps)
  with r' show ?thesis by blast
qed

lemma agent_store_put:
  assumes "agent_store sha N r recs" "d \<noteq> []" "rec_ok sha (cert_key, d, sha d)" "length (file_of recs) + 60 + length cert_key + length d \<le> N"
  shows "\<exists>r'. ILibSimpleDataStore_PutEx2 sha e r cert_key d None = Some (r', 0) \<and> agent_store sha N r' (put_log recs (cert_key, d, sha d))"
proof -
  obtain K where K: "sds_core sha K N r recs" "cert_key \<in> K" using assms(1) by (auto simp: agent_store_def)
  have c: "trim_key cert_key = cert_key" "length cert_key \<le> INT32_MAX" by (auto simp: trim_key_def INT32_MAX_def)
  obtain r' where r': "ILibSimpleDataStore_PutEx2 sha e r cert_key d None = Some (r', 0)" "sds_core sha K N r' (put_log recs (cert_key, d, sha d))"
    "cacheTable r' = cacheTable r"
    using Put_core [OF K(1) c(1) K(2) assms(2,3) c(2) assms(4)] by blast
  have len: "length cert_key = 17" "length (str ''Tag'') = 3" "length (str ''agentName'') = 9" by simp_all
  have "ck \<noteq> cert_key" if "compressed_key j = Some ck" "j \<in> {str ''Tag'', str ''agentName''}" for j ck
  proof
    assume "ck = cert_key"
    moreover have "length ck = length j + 4" using that(1) by (auto simp: compressed_key_def simp del: str_simps)
    ultimately show False using that(2) len by (auto simp del: str_simps)
  qed
  moreover have "log_map (put_log recs (cert_key, d, sha d)) ck = log_map recs ck" if "ck \<noteq> cert_key" for ck
    using that assms(2) by (auto simp: put_log_def split: option.split simp del: str_simps)
  ultimately have "agent_store sha N r' (put_log recs (cert_key, d, sha d))"
    using assms(1) r'(2,3) K(2) unfolding agent_store_def by metis
  with r'(1) show ?thesis by blast
qed

interpretation file_db: agent_db env d
  "\<lambda>r. agent_store (SHA384 env) N r recs \<and> d \<noteq> [] \<and> rec_ok (SHA384 env) (cert_key, d, SHA384 env d)
     \<and> length (file_of recs) + 60 + length cert_key + length d \<le> N"
  "\<lambda>r. agent_store (SHA384 env) N r (put_log recs (cert_key, d, SHA384 env d))"
  for env :: "'c agent_env" and d N recs
proof
  fix r j and n :: nat and buf :: "byte list option"
  let ?before = "\<lambda>r. agent_store (SHA384 env) N r recs \<and> d \<noteq> [] \<and> rec_ok (SHA384 env) (cert_key, d, SHA384 env d)
     \<and> length (file_of recs) + 60 + length cert_key + length d \<le> N"
  let ?recs = "put_log recs (cert_key, d, SHA384 env d)"
  assume r: "?before r \<or> agent_store (SHA384 env) N r ?recs"
    and j: "j = str ''Tag'' \<or> j = str ''agentName''" "n \<le> 65536" "\<And>b. buf = Some b \<Longrightarrow> length b = n"
  have A: "\<exists>r' m b'. ILibSimpleDataStore_GetEx (SHA384 env) (inflate env) r j buf n = Some (r', m, b') \<and> (b' = None \<longleftrightarrow> buf = None)
      \<and> agent_store (SHA384 env) N r' rs" if "agent_store (SHA384 env) N r rs" for rs
    by (rule agent_store_get [OF that j])
  then obtain r' m b' where G: "ILibSimpleDataStore_GetEx (SHA384 env) (inflate env) r j buf n = Some (r', m, b')" "b' = None \<longleftrightarrow> buf = None"
    using r by blast
  have "agent_store (SHA384 env) N r rs \<Longrightarrow> agent_store (SHA384 env) N r' rs" for rs using A [of rs] G(1) by auto
  with G show "\<exists>r' m b'. ILibSimpleDataStore_GetEx (SHA384 env) (inflate env) r j buf n = Some (r', m, b') \<and> (b' = None \<longleftrightarrow> buf = None)
      \<and> (?before r \<longrightarrow> ?before r') \<and> (agent_store (SHA384 env) N r ?recs \<longrightarrow> agent_store (SHA384 env) N r' ?recs)"
    by blast
next
  fix r assume "agent_store (SHA384 env) N r recs \<and> d \<noteq> [] \<and> rec_ok (SHA384 env) (cert_key, d, SHA384 env d)
     \<and> length (file_of recs) + 60 + length cert_key + length d \<le> N"
  then show "\<exists>r'. ILibSimpleDataStore_PutEx2 (SHA384 env) (fs env) r cert_key d None = Some (r', 0)
      \<and> agent_store (SHA384 env) N r' (put_log recs (cert_key, d, SHA384 env d))"
    using agent_store_put by blast
qed

lemma to_script:
  assumes "serverAuthState a = 3" "m \<noteq> []"
  shows "MeshServer_ProcessCommand env peer (123 # m) a = Some (command_to_script env (123 # m) a)"
  using assms by (cases m) (auto simp: MeshServer_ProcessCommand_def ntohs_def rd_def)

lemma command_to_script_emits: "\<exists>xs. actions (command_to_script env m a) = actions a @ xs @ [Emit_Command m]"
  by (auto simp: command_to_script_def act_def Let_def)

text \<open>
  C11 (liveness): A server that can sign gets to command the agent.  On a connection that is not authenticated, the
  confirmation and a message with the proof, in any order, make the agent store the certificate and send what it tells an authenticated server, and
  from then on every JSON message reaches the scripts.  The agent's store is a file that is open for writing, with room for one more record; no two keys in it have
  the same hash, the tag and the name of the agent are neither compressed nor given in memory, and no other certificate is stored that has the hash of this one.
\<close>

theorem server_can_authenticate:
  assumes "agent_store (SHA384 env) N (masterDb a) recs" "serverAuthState a = 0"
    and "length (X509_digest env peer) = 48" "length (SHA384 env (X509_digest env peer)) = 48" "length (file_of recs) + 60 + length cert_key + 48 \<le> N"
    and "\<forall>c. log_map recs cert_key = Some (c, SHA384 env (X509_digest env peer)) \<longrightarrow> c = X509_digest env peer"
    and "server_proof env (serverHash a) peer (agentNonce a) (serverNonce a) v" "8 < length v" "ntohs c = Some MeshCommand_AuthConfirm"
    and "ms = [v, c] \<or> ms = [c, v]"
  shows "\<exists>a' xs recs'. process_messages env peer ms a = Some a' \<and> serverAuthState a' = 3
    \<and> actions a' = actions a @ xs @ [Emit_Connected True]
    \<and> agent_store (SHA384 env) N (masterDb a') recs'
    \<and> log_map recs' = (log_map recs)(cert_key \<mapsto> (X509_digest env peer, SHA384 env (X509_digest env peer)))
    \<and> (\<forall>m. m \<noteq> [] \<longrightarrow> (\<exists>a'' ys. MeshServer_ProcessCommand env peer (123 # m) a' = Some a''
          \<and> serverAuthState a'' = 3 \<and> actions a'' = actions a' @ ys @ [Emit_Command (123 # m)]))"
proof -
  let ?d = "X509_digest env peer"
  let ?recs = "put_log recs (cert_key, ?d, SHA384 env ?d)"
  have d: "?d \<noteq> []" "rec_ok (SHA384 env) (cert_key, ?d, SHA384 env ?d)" using assms(3,4) by (auto simp: rec_ok_def)
  have scripts: "\<exists>a'' ys. MeshServer_ProcessCommand env peer (123 # m) a' = Some a'' \<and> serverAuthState a'' = 3
      \<and> actions a'' = actions a' @ ys @ [Emit_Command (123 # m)]" if "serverAuthState a' = 3" "m \<noteq> []" for a' m
    using to_script [OF that, of env peer] command_to_script_emits [of env "123 # m" a'] that(1)
      kept_command_to_script [of env "123 # m" a'] by (auto simp: kept_def)
  have "\<exists>a' xs. process_messages env peer ms a = Some a' \<and> serverAuthState a' = 3
    \<and> actions a' = actions a @ xs @ [Emit_Connected True] \<and> agent_store (SHA384 env) N (masterDb a') ?recs"
    by (rule file_db.authenticate [OF _ assms(2) HOL.refl assms(7-10)]) (use assms(1,3,5) d in \<open>simp del: str_simps\<close>)
  moreover have "log_map ?recs = (log_map recs)(cert_key \<mapsto> (?d, SHA384 env ?d))" by (rule put_log_map [OF d(1) assms(6)])
  ultimately show ?thesis using scripts by blast
qed

lemma connect_mem:
  assumes "mem_store None (masterDb a)"
  obtains a' where "connection_established env p n True a = Some a'" "serverAuthState a' = 0" "agentNonce a' = n"
    "masterDb a' = masterDb a" "serverHash a' = serverHash a"
proof -
  have i: "idle_timeout env b = Some (b\<lparr>controlChannel_idleTimeout_seconds := DEFAULT_IDLE_TIMEOUT\<rparr>)" if "mem_store None (masterDb b)" for b
    using that by (simp add: idle_timeout_def agent_get [of None] del: str_simps)
  show thesis
    using assms that by (cases "host_info env") (auto simp: connection_established_def i Let_def agent_get [of None] act_def
        MeshServer_ControlChannel_ResetPartial_def simp del: str_simps)
qed

lemma reachable_messages:
  "channel_reachable env (a, g) \<Longrightarrow> process_messages env (peer_cert g) ms a = Some a' \<Longrightarrow>
    channel_reachable env (a', g\<lparr>msgs := msgs g @ ms\<rparr>)"
proof (induction ms arbitrary: a g)
  case (Cons m ms)
  then obtain b where b: "MeshServer_ProcessCommand env (peer_cert g) m a = Some b" "process_messages env (peer_cert g) ms b = Some a'"
    by (auto split: Option.bind_splits)
  have "channel_step env (a, g) (Receive (Some 101) MoreDataToBeReceived m) (b, conn_receive (Some 101) MoreDataToBeReceived m g)"
    using b(1) by (intro channel_step.receive) (simp_all add: OnResponse_Partial)
  then have "channel_reachable env (b, g\<lparr>msgs := msgs g @ [m]\<rparr>)"
    using channel_reachable.step [OF Cons.prems(1)] by (simp add: conn_receive_def)
  then show ?case using Cons.IH b(2) by fastforce
qed simp

text \<open>An agent and an environment for examples.\<close>

definition sample_env :: "unit agent_env" where
  "sample_env = \<lparr>SHA384 = pad48, X509_digest = (\<lambda>_. replicate 48 1), X509_pubkey_digest = (\<lambda>_. replicate 48 2),
    X509_pubkey_digest256 = (\<lambda>_. replicate 32 3), d2i_X509 = (\<lambda>c. if c = [9] then Some () else None),
    RSA_verify = (\<lambda>_ h s. s = [8, 8, 8, 8]), RSA_sign = (\<lambda>_. None),
    selfcert = [], inflate = (\<lambda>d. [d]), deflate = (\<lambda>d. [d]), fs = good_env 0, disk_room = 100,
    json_action = (\<lambda>_. None), setuid_setting = None, isVM = False, isBatteryPowered = False, isZip = (\<lambda>_. True), fake_binary = [],
    host_info = None, MESH_AGENTID = 6, SOURCE_COMMIT_DATE = [], scratch = []\<rparr>"

definition sample_agent :: MeshAgentHostContainer where
  "sample_agent = \<lparr>masterDb = empty_root, controlChannel = False, controlChannelPartialBuffer = None, controlChannelPartialBufferLen = 0,
    controlChannelPartialBufferSize = 0, controlChannelPartialOverflow = False, localScript = False, version = 0, capabilities = 0,
    hostname = [], batteryState = 0, meshId = [], performSelfUpdate = 0, disableUpdate = False, forceUpdate = False, fakeUpdate = False,
    coreTimeout = False, jsDebugPort = 0, agentHash = [], serverHash = replicate 48 2, serverNonce = [], agentNonce = [],
    serverAuthState = 0, controlChannel_idleTimeout_seconds = 0, controlChannel_idleTimeout_dataMode = False, serverConnectionState = 0,
    data_pings = 0, pong_timer = False, update_file = None, errno_range = False, actions = []\<rparr>"

definition sample_proof :: "byte list" where "sample_proof = [0, 2, 0, 1, 9, 8, 8, 8, 8]"
definition sample_confirm :: "byte list" where "sample_confirm = [0, 4]"

lemma sample_facts:
  "mem_store None empty_root" "server_proof sample_env (replicate 48 2) () n sn sample_proof" "8 < length sample_proof"
  "ntohs sample_confirm = Some MeshCommand_AuthConfirm"
  "length (X509_digest sample_env ()) \<le> INT32_MAX" "cache_value (X509_digest sample_env ()) = Some (replicate 48 1)"
proof -
  have replicate_2: "replicate 2 (1 :: byte) = [1, 1]" by (simp add: eval_nat_numeral)
  show "mem_store None empty_root" by (simp add: mem_store_def empty_root_def)
  show "server_proof sample_env (replicate 48 2) () n sn sample_proof"
    unfolding server_proof_def sample_proof_def MeshCommand_AuthVerify_def
    by (intro conjI exI [of _ 1] exI [of _ "()"]) (simp_all add: ntohs_def rd_def slice_def sample_env_def)
  show "length (X509_digest sample_env ()) \<le> INT32_MAX" by (simp add: sample_env_def INT32_MAX_def)
  show "cache_value (X509_digest sample_env ()) = Some (replicate 48 1)"
    using replicate_2 by (simp add: sample_env_def cache_value_def)
qed (simp_all add: sample_proof_def sample_confirm_def ntohs_def rd_def MeshCommand_AuthConfirm_def)

text \<open>An agent with an empty file.\<close>

definition file_agent :: MeshAgentHostContainer where
  "file_agent = sample_agent\<lparr>masterDb := empty_root\<lparr>dataFile := Some (fresh_file 200)\<rparr>\<rparr>"

lemma file_agent: "agent_store pad48 200 (masterDb file_agent) []"
proof -
  have "keys_inv {cert_key} ILibHashtable_Create (entries empty_root) 1 [] Map.empty" by (rule keys_empty) simp
  then have "sds_core pad48 {cert_key} 200 (masterDb file_agent) []"
    by (simp add: sds_core_def file_agent_def empty_root_def fresh_file_def SIZE_MOD_def del: str_simps)
  moreover have "cacheTable (masterDb file_agent) = None" by (simp add: file_agent_def empty_root_def)
  ultimately show ?thesis by (auto simp: agent_store_def simp del: str_simps)
qed

lemma server_can_authenticate_witness:
  "\<exists>a a' recs. process_messages sample_env () [sample_confirm, sample_proof] file_agent = Some a \<and> serverAuthState a = 3
    \<and> agent_store pad48 200 (masterDb a) recs \<and> log_map recs = [cert_key \<mapsto> (replicate 48 1, replicate 48 1)]
    \<and> MeshServer_ProcessCommand sample_env () [123, 125] a = Some a' \<and> last (actions a') = Emit_Command [123, 125]"
proof -
  have e: "SHA384 sample_env = pad48" "X509_digest sample_env () = replicate 48 1" "pad48 (replicate 48 1) = replicate 48 1"
    by (simp_all add: sample_env_def pad48_def)
  have a: "serverAuthState file_agent = 0" "serverHash file_agent = replicate 48 2"
    by (simp_all add: file_agent_def sample_agent_def)
  have p: "server_proof sample_env (serverHash file_agent) () (agentNonce file_agent) (serverNonce file_agent) sample_proof"
    unfolding a(2) by (rule sample_facts)
  have "agent_store (SHA384 sample_env) 200 (masterDb file_agent) []" unfolding e by (rule file_agent)
  from server_can_authenticate [OF this a(1) _ _ _ _ p sample_facts(3,4), of "[sample_confirm, sample_proof]"]
  obtain b recs where b: "process_messages sample_env () [sample_confirm, sample_proof] file_agent = Some b" "serverAuthState b = 3"
    "agent_store pad48 200 (masterDb b) recs" "log_map recs = [cert_key \<mapsto> (replicate 48 1, replicate 48 1)]"
    "\<forall>m. m \<noteq> [] \<longrightarrow> (\<exists>a'' ys. MeshServer_ProcessCommand sample_env () (123 # m) b = Some a''
          \<and> serverAuthState a'' = 3 \<and> actions a'' = actions b @ ys @ [Emit_Command (123 # m)])"
    unfolding e by auto
  then obtain a' ys where "MeshServer_ProcessCommand sample_env () [123, 125] b = Some a'" "actions a' = actions b @ ys @ [Emit_Command [123, 125]]"
    using b(5) [rule_format, of "[125]"] by blast
  then show ?thesis using b(1-4) by auto
qed

lemma sample_run:
  obtains a g where "channel_reachable sample_env (a, g)" "serverAuthState a = 3" "msgs g = [sample_confirm, sample_proof]"
    "peer_cert g = ()" "frag g = []"
proof -
  obtain c where c: "connection_established sample_env () [7] True sample_agent = Some c" "serverAuthState c = 0"
    "masterDb c = empty_root" "serverHash c = replicate 48 2"
    using connect_mem [of sample_agent sample_env "()" "[7]"] sample_facts(1) by (auto simp: sample_agent_def)
  let ?g = "\<lparr>peer_cert = (), stored_cert = True \<and> stored_cert_matches sample_env () sample_agent, msgs = [], frag = []\<rparr>"
  have "channel_reachable sample_env (sample_agent, ?g)"
    by (rule channel_reachable.start) (simp_all add: sample_agent_def partial_state_def)
  moreover have "channel_step sample_env (sample_agent, ?g) (Connect () [7] True (Some 101)) (c, ?g)"
    by (rule channel_step.connect) (simp add: MeshServer_OnResponse_def c(1))
  ultimately have r: "channel_reachable sample_env (c, ?g)" by (rule channel_reachable.step)
  have p: "server_proof sample_env (serverHash c) () (agentNonce c) (serverNonce c) sample_proof" "mem_store None (masterDb c)"
    unfolding c(3,4) by (rule sample_facts)+
  have m: "mem_store None (masterDb c) \<and> length (X509_digest sample_env ()) \<le> INT32_MAX \<and> cache_value (X509_digest sample_env ()) \<noteq> None"
    using p(2) sample_facts(5,6) by simp
  from mem_db.authenticate [OF m c(2) HOL.refl p(1) sample_facts(3,4), of "[sample_confirm, sample_proof]"]
  obtain a where a: "process_messages sample_env () [sample_confirm, sample_proof] c = Some a" "serverAuthState a = 3" by blast
  show thesis
    by (rule that [of a "?g\<lparr>msgs := [sample_confirm, sample_proof]\<rparr>"]) (use reachable_messages [OF r] a in simp_all)
qed

lemma commands_need_authentication_witness:
  "\<exists>a a' g. channel_reachable sample_env (a, g) \<and> msgs g = [sample_confirm, sample_proof]
    \<and> channel_step sample_env (a, g) (Receive (Some 101) MoreDataToBeReceived [123, 125]) (a', g\<lparr>msgs := msgs g @ [[123, 125]]\<rparr>)
    \<and> last (actions a') = Emit_Command [123, 125]
    \<and> (stored_cert g \<or> (\<exists>m \<in> set (msgs g). \<exists>snonce. server_proof sample_env (serverHash a) () (agentNonce a) snonce m))"
proof -
  obtain a g where g: "channel_reachable sample_env (a, g)" "serverAuthState a = 3" "msgs g = [sample_confirm, sample_proof]" "peer_cert g = ()"
    by (rule sample_run)
  let ?b = "command_to_script sample_env [123, 125] a"
  obtain xs where xs: "actions ?b = actions a @ xs @ [Emit_Command [123, 125]]" using command_to_script_emits by blast
  have s: "channel_step sample_env (a, g) (Receive (Some 101) MoreDataToBeReceived [123, 125]) (?b, g\<lparr>msgs := msgs g @ [[123, 125]]\<rparr>)"
    using to_script [OF g(2), of "[125]" sample_env "()"] channel_step.receive [of sample_env g "Some 101" MoreDataToBeReceived "[123, 125]" a ?b]
    by (simp add: OnResponse_Partial conn_receive_def g(4))
  have "(\<exists>m \<in> set (msgs g). ntohs m = Some MeshCommand_AuthConfirm)
      \<and> (stored_cert g \<or> (\<exists>m \<in> set (msgs g). \<exists>n. server_proof sample_env (serverHash a) (peer_cert g) (agentNonce a) n m))"
    by (rule commands_need_authentication [OF g(1) s]) (simp_all add: xs)
  then show ?thesis using g s xs by (intro exI [of _ a] exI [of _ ?b] exI [of _ g]) simp
qed

section \<open>Invariants\<close>

text \<open>C5 (invariant): In every reachable state of the control channel \<open>serverAuthState\<close> is one of 0 to 3; its first bit is set
  only if the agent knows the TLS certificate of the server of this connection or got a proof from it, and its second bit only if
  the server sent a confirmation on this connection.  So closing the connection or opening a new one takes the rights away.\<close>

theorem authentication_state_invariant:
  assumes "channel_reachable env (a, g)"
  shows "serverAuthState a \<in> {0, 1, 2, 3}
    \<and> (serverAuthState a AND 1 = 1 \<longrightarrow> stored_cert g
         \<or> (\<exists>m \<in> set (msgs g). \<exists>snonce. server_proof env (serverHash a) (peer_cert g) (agentNonce a) snonce m))
    \<and> (serverAuthState a AND 2 = 2 \<longrightarrow> (\<exists>m \<in> set (msgs g). ntohs m = Some MeshCommand_AuthConfirm))"
proof -
  have "auth_inv env a g" using reachable_auth [OF assms] by simp
  then show ?thesis by (auto simp: auth_inv_def proof_received_def confirm_received_def)
qed

lemma authentication_state_invariant_witness:
  "\<exists>a g. channel_reachable sample_env (a, g) \<and> serverAuthState a AND 2 = 2 \<and> (\<exists>m \<in> set (msgs g). ntohs m = Some MeshCommand_AuthConfirm)"
proof -
  obtain a g where g: "channel_reachable sample_env (a, g)" "serverAuthState a = 3"
    by (rule sample_run)
  then show ?thesis using authentication_state_invariant [OF g(1)] by (intro exI [of _ a] exI [of _ g]) simp
qed

text \<open>C9 (bounds): In every reachable state the buffer for a message in pieces holds at most 64 MB, as many bytes as its length says,
  and not more than it has room for.  So \<open>MeshServer_ControlChannel_AppendPartial\<close> never exits the process on its
  bounded copy: it appends the bytes, or reports that the message is too long.\<close>

theorem reassembly_stays_in_bounds:
  assumes "channel_reachable env (a, g)"
  shows "controlChannelPartialBufferLen a \<le> controlChannelPartialBufferSize a
    \<and> controlChannelPartialBufferSize a \<le> MESH_SERVER_MAX_REASSEMBLED_MESSAGE_SIZE
    \<and> controlChannelPartialBufferLen a = (case controlChannelPartialBuffer a of None \<Rightarrow> 0 | Some b \<Rightarrow> length b)
    \<and> (\<exists>a'. MeshServer_ControlChannel_AppendPartial d a =
          Some (a', if controlChannelPartialBufferLen a + length d \<le> MESH_SERVER_MAX_REASSEMBLED_MESSAGE_SIZE then 0 else 1))"
proof -
  obtain p where p: "partial_ok a p" using reachable_auth [OF assms] by (auto simp: assembled_def)
  have "\<exists>a'. MeshServer_ControlChannel_AppendPartial d a = Some (a', if length p + length d \<le> MAX_MESSAGE then 0 else 1)"
  proof (cases "length p + length d \<le> MAX_MESSAGE")
    case True
    then show ?thesis using AppendPartial_fits [OF p] by auto
  next
    case False
    then show ?thesis using AppendPartial_overflow [OF p] by auto
  qed
  then show ?thesis using p by (auto simp: partial_ok_def)
qed

lemma reassembly_stays_in_bounds_witness:
  "\<exists>a g a'. channel_reachable sample_env (a, g) \<and> controlChannelPartialBuffer a = Some [1, 2, 3]
    \<and> 3 \<le> controlChannelPartialBufferSize a \<and> MeshServer_ControlChannel_AppendPartial [4] a = Some (a', 0)"
proof -
  obtain a g where g: "channel_reachable sample_env (a, g)" "frag g = []" by (rule sample_run)
  then have "assembled a []" using reachable_auth [of sample_env a g] by simp
  from receive_piece [OF this, of sample_env "peer_cert g" "[1, 2, 3]"]
  obtain b where b: "receive_partial sample_env (peer_cert g) False [1, 2, 3] a = Some b" "assembled b [1, 2, 3]" by auto
  let ?g = "conn_receive (Some 101) Partial [1, 2, 3] g"
  have "channel_step sample_env (a, g) (Receive (Some 101) Partial [1, 2, 3]) (b, ?g)"
    by (rule channel_step.receive) (use b(1) in \<open>simp_all add: OnResponse_Partial\<close>)
  then have r: "channel_reachable sample_env (b, ?g)" by (rule channel_reachable.step [OF g(1)])
  have "controlChannelPartialBuffer b = Some [1, 2, 3]" "controlChannelPartialBufferLen b = 3"
    using b(2) by (simp_all add: assembled_def partial_ok_def MESH_SERVER_MAX_REASSEMBLED_MESSAGE_SIZE_def)
  moreover have "3 \<le> controlChannelPartialBufferSize b"
    "\<exists>a'. MeshServer_ControlChannel_AppendPartial [4] b = Some (a', 0)"
    using reassembly_stays_in_bounds [OF r, of "[4]"] calculation by (auto simp: MESH_SERVER_MAX_REASSEMBLED_MESSAGE_SIZE_def)
  ultimately show ?thesis using r by blast
qed

text \<open>C8 (equivalence): A message that arrives in pieces is processed exactly as the same message in one piece, if it has
  at least two bytes and at most 64 MB in all; otherwise it is dropped.  In both cases nothing of it is left for the next message.\<close>

lemma fragments_as_one_message:
  assumes "partial_state a = (None, 0, 0, False)"
  shows "receive_fragments env peer ps q a = (let m = concat ps @ q in
    if 2 \<le> length m \<and> length m \<le> MESH_SERVER_MAX_REASSEMBLED_MESSAGE_SIZE
    then MeshServer_OnResponse env peer [] False (Some 101) MoreDataToBeReceived m a else Some a)"
  by (simp add: receive_fragments_assembled [OF assembled_reset [OF assms]] OnResponse_Partial reset_id [OF assms] Let_def)

lemma fragments_as_one_message_witness:
  "\<exists>a. receive_fragments sample_env () [[123], []] [7, 8] (sample_agent\<lparr>serverAuthState := 3\<rparr>) = Some a
    \<and> actions a = [Emit_Command [123, 7, 8]]"
proof -
  let ?a = "sample_agent\<lparr>serverAuthState := 3\<rparr>"
  have "partial_state ?a = (None, 0, 0, False)" by (simp add: sample_agent_def partial_state_def)
  from fragments_as_one_message [OF this, of sample_env "()" "[[123], []]" "[7, 8]"] show ?thesis
    using to_script [of ?a "[7, 8]" sample_env "()"]
    by (simp add: OnResponse_Partial MESH_SERVER_MAX_REASSEMBLED_MESSAGE_SIZE_def)
      (simp add: command_to_script_def sample_agent_def sample_env_def act_def)
qed

section \<open>The timer of a ping\<close>

text \<open>C21 (error): A ping that gets no pong outlives its connection.  The five seconds of \<open>MeshServer_ControlChannel_IdleTimeout\<close> go on
  after the connection closed and another one was opened; when they are over the agent
  disconnects the new connection, whose peer never got a ping.\<close>

theorem stale_pong_timeout:
  assumes "MeshServer_OnResponse env peer1 [] False header1 Complete [] (MeshServer_ControlChannel_IdleTimeout a) = Some a1"
    and "MeshServer_OnResponse env peer2 nonce sent header2 Connection_Established [] a1 = Some a2"
  shows "pong_timer a2 \<and> (\<forall>g. \<exists>a3. channel_step env (a2, g) Pong_timeout (a3, g)
    \<and> actions a3 = actions a2 @ [Disconnect] \<and> \<not> controlChannel a3)"
proof -
  have "pong_timer a1" using assms(1)
    by (auto simp: MeshServer_OnResponse_def MeshServer_ControlChannel_IdleTimeout_def disconnected_def Let_def
        MeshServer_ControlChannel_ResetPartial_def split: if_splits)
  moreover obtain b where "connection_established env peer2 nonce sent a1 = Some b" "a2 = (if header2 = None then act Reconnect b else b)"
    using assms(2) by (auto simp: MeshServer_OnResponse_def split: Option.bind_splits)
  ultimately have p: "pong_timer a2" using connect_spec [of env peer2 nonce sent a1 b] by (auto simp: harmless_def)
  show ?thesis
    using p channel_step.pong_timeout [OF p, of env]
    by (auto simp: MeshServer_ControlChannel_IdleTimeout_PongTimeout_def act_def intro!: exI)
qed

lemma stale_pong_timeout_witness:
  "\<exists>a1 a2. MeshServer_OnResponse sample_env () [] False (Some 101) Complete [] (MeshServer_ControlChannel_IdleTimeout sample_agent) = Some a1
    \<and> MeshServer_OnResponse sample_env () [7] True (Some 101) Connection_Established [] a1 = Some a2 \<and> pong_timer a2"
proof -
  let ?a = "disconnected (MeshServer_ControlChannel_IdleTimeout sample_agent)"
  have 1: "MeshServer_OnResponse sample_env () [] False (Some 101) Complete [] (MeshServer_ControlChannel_IdleTimeout sample_agent) = Some ?a"
    by (simp add: MeshServer_OnResponse_def)
  have "masterDb ?a = empty_root"
    by (simp add: disconnected_def Let_def MeshServer_ControlChannel_ResetPartial_def MeshServer_ControlChannel_IdleTimeout_def sample_agent_def)
  then obtain b where "connection_established sample_env () [7] True ?a = Some b"
    using connect_mem [of ?a sample_env "()" "[7]"] sample_facts(1) by auto
  then have 2: "MeshServer_OnResponse sample_env () [7] True (Some 101) Connection_Established [] ?a = Some b"
    by (simp add: MeshServer_OnResponse_def)
  show ?thesis using 1 2 stale_pong_timeout [OF 1 2] by blast
qed

end
