(* ===== verification/AgentUpdate.thy ===== *)
theory AgentUpdate
  imports AgentProps
begin

text \<open>
  The update of the agent's binary: which commands can start it, the transfer of the file in blocks, and the
  hash that leaves out the policy at the end of a binary.
\<close>

unbundle bit_operations_syntax

section \<open>The hash of a binary\<close>

text \<open>The hash of a binary is the SHA-384 of the program alone: a policy at its end, with its length in four bytes
  and the GUID behind it, is left out, so that the agent of every server has the hash of the program it was made from.\<close>

theorem hash_ignores_policy:
  assumes "exe \<noteq> []" "length exe < 2 ^ 32" "length msh < 2 ^ 31"
  shows "GenerateSHA384FileHash sha pad (Some (exe @ msh @ htonl (int (length msh)) @ exeMeshPolicyGuid)) = Some (sha exe)"
proof -
  let ?f = "exe @ msh @ htonl (int (length msh)) @ exeMeshPolicyGuid"
  have g: "length exeMeshPolicyGuid = 16" by (simp add: exeMeshPolicyGuid_def)
  have n: "length ?f = length exe + length msh + 20" by (simp add: g)
  have d: "drop (length ?f - 16) ?f = exeMeshPolicyGuid" "slice ?f (length ?f - 20) 4 = htonl (int (length msh))"
    using n g by (simp_all add: slice_def)
  have t: "take 16 (overwrite pad 0 exeMeshPolicyGuid) = exeMeshPolicyGuid" using g by (simp add: overwrite_def)
  have l: "ntohl (htonl (int (length msh))) = int (length msh)" using assms(3) by simp
  have "(int (length ?f) - 20 - int (length msh)) mod 2 ^ 32 = int (length exe)" using n assms(2) by simp
  then show ?thesis using n t assms(1)
    unfolding GenerateSHA384FileHash_def option.case Let_def d l
    by (simp add: d(1) d(2) l)
qed

lemma hash_ignores_policy_witness:
  "GenerateSHA384FileHash pad48 [] (Some ([7] @ [1, 2] @ htonl (int (length [1 :: byte, 2])) @ exeMeshPolicyGuid)) = Some (pad48 [7])"
  by (rule hash_ignores_policy) simp_all

lemma hash_plain:
  assumes "16 \<le> length f" "drop (length f - 16) f \<noteq> exeMeshPolicyGuid" "length f < 2 ^ 32"
  shows "GenerateSHA384FileHash sha pad (Some f) = Some (sha f)"
  using assms by (auto simp: GenerateSHA384FileHash_def Let_def overwrite_def)

section \<open>What starts an update\<close>

fun applies_update :: "action \<Rightarrow> bool" where
  "applies_update Unzip_update = True"
| "applies_update Stop_chain = True"
| "applies_update _ = False"

definition updates :: "MeshAgentHostContainer \<Rightarrow> action list" where
  "updates a = filter applies_update (actions a)"

lemma updates_act [simp]: "\<not> applies_update x \<Longrightarrow> updates (act x a) = updates a"
  by (simp add: updates_def act_def)

lemma updates_upd [simp]:
  "updates (b\<lparr>masterDb := db\<rparr>) = updates b" "updates (b\<lparr>coreTimeout := ct\<rparr>) = updates b"
  "updates (b\<lparr>update_file := u\<rparr>) = updates b" "updates (b\<lparr>data_pings := k\<rparr>) = updates b"
  "updates (b\<lparr>controlChannel_idleTimeout_dataMode := m\<rparr>) = updates b"
  by (simp_all add: updates_def)

lemma updates_db:
  "db_get env k b n a = Some (a', len, b') \<Longrightarrow> updates a' = updates a"
  "db_put env k v a = Some a' \<Longrightarrow> updates a' = updates a"
  "db_delete k a = Some a' \<Longrightarrow> updates a' = updates a"
  by (auto simp: db_get_def db_put_def db_delete_def split: Option.bind_splits prod.splits)

lemma updates_restart: "ScriptEngine_Restart m a = Some a' \<Longrightarrow> updates a' = updates a"
  by (auto simp: ScriptEngine_Restart_def split: if_splits)

lemma updates_core_module: "core_module env command r cmd a = Some a' \<Longrightarrow> updates a' = updates a"
  unfolding core_module_def core_hash_reply_def
  by (auto simp: Let_def split: kept_splits dest!: updates_db updates_restart simp del: str_simps)

lemma updates_core_module_hash: "core_module_hash r a = Some a' \<Longrightarrow> updates a' = updates a"
  unfolding core_module_hash_def core_hash_reply_def
  by (auto split: kept_splits simp del: str_simps)

lemma updates_core_ok: "core_ok env a = Some a' \<Longrightarrow> updates a' = updates a"
  unfolding core_ok_def
  by (auto simp: Let_def split: kept_splits dest!: updates_db simp del: str_simps)

lemma updates_agent_update_block [simp]: "updates (agent_update_block env r cmd a) = updates a"
  by (simp add: agent_update_block_def Let_def split: prod.split)

lemma updates_command_to_script [simp]: "updates (command_to_script env cmd a) = updates a"
  by (simp add: command_to_script_def Let_def)

lemma updates_agent_update:
  "agent_update env cmd a = Some a' \<Longrightarrow> updates a' \<noteq> updates a \<Longrightarrow> \<not> disableUpdate a \<and> length cmd = 52
    \<and> GenerateSHA384FileHash (SHA384 env) (scratch env) (update_file a) = Some (slice cmd 4 48)"
  by (auto simp: agent_update_def split: if_splits)

lemma updates_harmless:
  assumes "harmless a a'"
  shows "updates a' = updates a"
proof -
  have "\<not> applies_update x" if "\<not> privileged x" for x using that by (cases x) auto
  then have "filter applies_update xs = []" if "list_all (\<lambda>x. \<not> privileged x) xs" for xs
    using that by (auto simp: filter_empty_conv list_all_iff)
  then show ?thesis using assms by (auto simp: harmless_def updates_def)
qed

text \<open>C6 (safety): A command replaces the agent's binary only if updates are not disabled, the server is authenticated, the command is the
  \<open>MeshCommand_AgentUpdate\<close> that ends a transfer, and the hash in it is the hash of the file that arrived.\<close>

theorem update_needs_matching_hash:
  assumes "MeshServer_ProcessCommand env peer cmd a = Some a'"
    and "filter (\<lambda>x. x = Unzip_update \<or> x = Stop_chain) (actions a') \<noteq> filter (\<lambda>x. x = Unzip_update \<or> x = Stop_chain) (actions a)"
  shows "serverAuthState a = 3 \<and> \<not> disableUpdate a \<and> ntohs cmd = Some MeshCommand_AgentUpdate \<and> length cmd = 52
    \<and> GenerateSHA384FileHash (SHA384 env) (scratch env) (update_file a) = Some (slice cmd 4 48)"
proof -
  have "(\<lambda>x. x = Unzip_update \<or> x = Stop_chain) = applies_update"
  proof
    show "(x = Unzip_update \<or> x = Stop_chain) = applies_update x" for x by (cases x) auto
  qed
  then have u: "updates a' \<noteq> updates a" using assms(2) by (simp add: updates_def)
  have 3: "serverAuthState a = 3" using u updates_harmless ProcessCommand_spec [OF assms(1)] by blast
  have cmd: "process_binary env command r cmd a = Some a' \<Longrightarrow> command = MeshCommand_AgentUpdate \<and> \<not> disableUpdate a \<and> length cmd = 52
      \<and> GenerateSHA384FileHash (SHA384 env) (scratch env) (update_file a) = Some (slice cmd 4 48)" for command r
    using u unfolding process_binary_def agent_hash_reply_def
    by (auto split: if_splits dest: updates_core_module updates_core_module_hash updates_core_ok updates_agent_update)
  show ?thesis using assms(1) 3 u unfolding MeshServer_ProcessCommand_def
    by (auto split: if_splits Option.bind_splits dest: cmd)
qed

section \<open>The transfer of the file\<close>

lemma append_retry_fits:
  assumes "d \<noteq> []" "length f + length d \<le> disk_room env" "u = Some f \<or> u = None \<and> f = []"
  shows "append_retry env d u 0 = (Some (f @ d), 0)"
proof -
  have "util_appendfile env d u = (Some (f @ d), True)" using assms by (auto simp: util_appendfile_def Let_def)
  then show ?thesis by (subst append_retry.simps) simp
qed

text \<open>The commands of a transfer, with a request id of two bytes.\<close>

definition update_command :: "byte \<Rightarrow> byte \<Rightarrow> byte list \<Rightarrow> byte list" where
  "update_command x y h = [0, 13, x, y] @ h"

definition block_command :: "byte \<Rightarrow> byte \<Rightarrow> byte list \<Rightarrow> byte list" where
  "block_command x y d = [0, 14, x, y] @ d"

lemma process_update:
  assumes "serverAuthState a = 3"
  shows "MeshServer_ProcessCommand env peer (update_command x y h) a = agent_update env (update_command x y h) a"
    "MeshServer_ProcessCommand env peer (block_command x y d) a =
       Some (agent_update_block env (256 * unat x + unat y) (block_command x y d) a)"
  using assms by (simp_all add: MeshServer_ProcessCommand_def ntohs_def rd_def process_binary_def MeshCommands_Binary
    update_command_def block_command_def)

lemma htons_bytes: "htons (256 * unat x + unat y) = [x, y]"
proof -
  have y: "unat y < 256" using unsigned_less [of y] by simp
  have "(of_nat (256 * unat x + unat y) :: byte) = of_nat 256 * x + y" by simp
  also have "(of_nat 256 :: byte) = 0" by simp
  finally show ?thesis using y by (simp add: htons_def)
qed

lemma update_block:
  assumes "\<not> disableUpdate a" "d \<noteq> []" "length f + length d \<le> disk_room env" "update_file a = Some f \<or> update_file a = None \<and> f = []"
  shows "agent_update_block env (256 * unat x + unat y) (block_command x y d) a = send [0, 14, x, y] (a\<lparr>update_file := Some (f @ d)\<rparr>)"
proof -
  have "htons MeshCommand_AgentUpdateBlock = [0, 14]" by (simp add: htons_def MeshCommand_AgentUpdateBlock_def)
  then show ?thesis using assms append_retry_fits [OF assms(2-4)] by (simp add: agent_update_block_def block_command_def htons_bytes)
qed

lemma update_blocks:
  assumes "serverAuthState a = 3" "\<not> disableUpdate a" "\<forall>d \<in> set ds. d \<noteq> []" "length f + length (concat ds) \<le> disk_room env"
    and "update_file a = Some f \<or> update_file a = None \<and> f = []"
  shows "\<exists>u. process_messages env peer (map (block_command x y) ds) a
      = Some (a\<lparr>update_file := u, actions := actions a @ replicate (length ds) (Send_binary [0, 14, x, y])\<rparr>)
    \<and> (u = Some (f @ concat ds) \<or> ds = [] \<and> u = update_file a)"
  using assms
proof (induction ds arbitrary: a f)
  case Nil
  then show ?case by (intro exI [of _ "update_file a"]) simp
next
  case (Cons d ds)
  let ?a = "send [0, 14, x, y] (a\<lparr>update_file := Some (f @ d)\<rparr>)"
  have d: "d \<noteq> []" "length f + length d \<le> disk_room env" using Cons.prems(3,4) by auto
  have 1: "MeshServer_ProcessCommand env peer (block_command x y d) a = Some ?a"
    unfolding process_update(2) [OF Cons.prems(1)] update_block [OF Cons.prems(2) d Cons.prems(5)] ..
  have 2: "serverAuthState ?a = 3" "\<not> disableUpdate ?a" "\<forall>d \<in> set ds. d \<noteq> []" "length (f @ d) + length (concat ds) \<le> disk_room env"
    "update_file ?a = Some (f @ d) \<or> update_file ?a = None \<and> f @ d = []"
    using Cons.prems by simp_all
  obtain u where u: "process_messages env peer (map (block_command x y) ds) ?a
      = Some (?a\<lparr>update_file := u, actions := actions ?a @ replicate (length ds) (Send_binary [0, 14, x, y])\<rparr>)"
    "u = Some ((f @ d) @ concat ds) \<or> ds = [] \<and> u = update_file ?a"
    using Cons.IH [OF 2] by blast
  have "process_messages env peer (map (block_command x y) (d # ds)) a
      = process_messages env peer (map (block_command x y) ds) ?a"
    by (simp only: list.map process_messages.simps 1 Option.bind.simps)
  then show ?case using u by (intro exI [of _ u]) (auto simp: act_def)
qed

text \<open>C10 (functional): The transfer of a binary.  The command that starts it, the blocks, none empty and all with room on the disk, and the
  command that ends it with a hash: each block is answered, so that the server sends the next, the file is what the blocks are in their
  order, and at the end the file is installed if the hash is that of the file and deleted if it is not.\<close>

theorem update_transfer:
  assumes "serverAuthState a = 3" "\<not> disableUpdate a" "\<not> fakeUpdate a" "\<not> forceUpdate a"
    and "ds \<noteq> []" "\<forall>d \<in> set ds. d \<noteq> []" "length (concat ds) \<le> disk_room env" "length h = 48"
  shows "process_messages env peer ([update_command x y []] @ map (block_command x y) ds @ [update_command x y h]) a =
    (let a' = a\<lparr>update_file := Some (concat ds), actions := actions a @ replicate (length ds) (Send_binary [0, 14, x, y])\<rparr> in
     if GenerateSHA384FileHash (SHA384 env) (scratch env) (Some (concat ds)) \<noteq> Some h then Some (a'\<lparr>update_file := None\<rparr>)
     else if isZip env (concat ds) then Some (a'\<lparr>actions := actions a' @ [Unzip_update]\<rparr>)
     else MeshServer_selfupdate_continue env a')"
proof -
  let ?b = "a\<lparr>update_file := None\<rparr>"
  let ?c = "a\<lparr>update_file := Some (concat ds), actions := actions a @ replicate (length ds) (Send_binary [0, 14, x, y])\<rparr>"
  have app: "process_messages env peer (ms @ ns) a = Option.bind (process_messages env peer ms a) (process_messages env peer ns)" for ms ns a
    by (induction ms arbitrary: a) (auto split: Option.bind_splits)
  have one: "process_messages env peer [] = Some" by (rule ext) simp
  have 1: "process_messages env peer [update_command x y []] a = Some ?b"
    using process_update(1) [OF assms(1), of env peer x y "[]"] assms(2) by (simp add: agent_update_def update_command_def)
  have b: "serverAuthState ?b = 3" "\<not> disableUpdate ?b" "length ([] :: byte list) + length (concat ds) \<le> disk_room env"
    "update_file ?b = Some [] \<or> update_file ?b = None \<and> ([] :: byte list) = []" using assms by simp_all
  have 2: "process_messages env peer (map (block_command x y) ds) ?b = Some ?c"
    using update_blocks [OF b(1,2) assms(6) b(3,4), of peer x y] assms(5) by auto
  have "slice (update_command x y h) 4 48 = h" using assms(8) by (simp add: slice_def update_command_def)
  then have "agent_update env (update_command x y h) ?c =
    (if GenerateSHA384FileHash (SHA384 env) (scratch env) (Some (concat ds)) \<noteq> Some h then Some (?c\<lparr>update_file := None\<rparr>)
     else if isZip env (concat ds) then Some (act Unzip_update ?c) else MeshServer_selfupdate_continue env ?c)"
    using assms(2-4,8) by (simp add: agent_update_def update_command_def)
  moreover have "process_messages env peer [update_command x y h] ?c = agent_update env (update_command x y h) ?c"
    using process_update(1) [of ?c env peer x y h] assms(1) one by simp
  ultimately show ?thesis unfolding app 1 Let_def using 2 by (simp add: act_def)
qed

lemma update_transfer_witness:
  "process_messages sample_env () ([update_command 1 2 []] @ map (block_command 1 2) [[7], [8, 9]] @ [update_command 1 2 (pad48 [7, 8, 9])])
      (sample_agent\<lparr>serverAuthState := 3\<rparr>)
    = Some (sample_agent\<lparr>serverAuthState := 3, update_file := Some [7, 8, 9],
        actions := [Send_binary [0, 14, 1, 2], Send_binary [0, 14, 1, 2], Unzip_update]\<rparr>)"
proof -
  let ?a = "sample_agent\<lparr>serverAuthState := 3\<rparr>"
  have h: "serverAuthState ?a = 3" "\<not> disableUpdate ?a" "\<not> fakeUpdate ?a" "\<not> forceUpdate ?a" "[[7], [8, 9 :: byte]] \<noteq> []"
    "\<forall>d \<in> set [[7], [8, 9 :: byte]]. d \<noteq> []" "length (concat [[7], [8, 9 :: byte]]) \<le> disk_room sample_env"
    by (simp_all add: sample_agent_def sample_env_def)
  have g: "GenerateSHA384FileHash (SHA384 sample_env) (scratch sample_env) (Some [7, 8, 9]) = Some (pad48 [7, 8, 9])"
    by (simp add: sample_env_def GenerateSHA384FileHash_def overwrite_def exeMeshPolicyGuid_def)
  show ?thesis
    using update_transfer [OF h length_pad48, of "()" 1 2 "[7, 8, 9]"] g
    by (simp add: Let_def) (simp add: sample_agent_def sample_env_def)
qed

lemma update_needs_matching_hash_witness:
  "\<exists>a a'. MeshServer_ProcessCommand sample_env () (update_command 1 2 (pad48 [7])) a = Some a' \<and> actions a' = [Unzip_update]
    \<and> GenerateSHA384FileHash pad48 [] (update_file a) = Some (pad48 [7])"
proof -
  let ?a = "sample_agent\<lparr>serverAuthState := 3, update_file := Some [7]\<rparr>" and ?m = "update_command 1 2 (pad48 [7])"
  have g: "GenerateSHA384FileHash pad48 [] (Some [7]) = Some (pad48 [7])"
    by (simp add: GenerateSHA384FileHash_def overwrite_def exeMeshPolicyGuid_def)
  have s: "slice ?m 4 48 = pad48 [7]" "length ?m = 52" by (simp_all add: slice_def update_command_def)
  have m: "MeshServer_ProcessCommand sample_env () ?m ?a = Some (act Unzip_update ?a)"
    using process_update(1) [of ?a sample_env "()" 1 2 "pad48 [7]"] g s
    by (simp add: agent_update_def) (simp add: sample_agent_def sample_env_def)
  have x: "actions (act Unzip_update ?a) = [Unzip_update]" "actions ?a = []" by (simp_all add: act_def sample_agent_def)
  have "serverAuthState ?a = 3 \<and> \<not> disableUpdate ?a \<and> ntohs ?m = Some MeshCommand_AgentUpdate \<and> length ?m = 52
    \<and> GenerateSHA384FileHash (SHA384 sample_env) (scratch sample_env) (update_file ?a) = Some (slice ?m 4 48)"
    by (rule update_needs_matching_hash [OF m]) (simp add: x)
  then show ?thesis using m x g by (intro exI [of _ ?a] exI [of _ "act Unzip_update ?a"]) simp
qed

end
