(* ===== verification/AsyncStream.thy ===== *)
theory AsyncStream
  imports Prelude
begin

text \<open>
  The reader of a byte stream, from microstack/ILibAsyncSocket.c: the loop that offers the bytes of the socket to the
  callback of the connection until no more are consumed.  The callback is a parameter \<open>P\<close>: from the bytes on offer and the state of
  the connection to the new state, the events and the number of bytes consumed; \<open>None\<close> is undefined behaviour.  An
  event of \<open>closes\<close> ends the connection.

  The locale \<open>stream_reader\<close> is what a callback has to promise so that the cut of the stream into reads does not matter; the
  readers of both ends of a WebSocket are instances of it.
\<close>

section \<open>The loop\<close>

text \<open>
  The socket offers the bytes that were not consumed, until no more are consumed, or it is closed; the rest
  stays in its buffer.  A closed socket drops its bytes.  (More bytes consumed than offered would make the loop run forever: \<open>None\<close>.)
\<close>

function async_drain ::
  "(byte list \<Rightarrow> 's \<Rightarrow> ('s \<times> 'e list \<times> nat) option) \<Rightarrow> ('e \<Rightarrow> bool) \<Rightarrow> byte list \<Rightarrow> 's \<Rightarrow> ('s \<times> 'e list \<times> byte list \<times> bool) option" where
  "async_drain P closes buffer state =
     (if buffer = [] then Some (state, [], [], False)
      else case P buffer state of
        None \<Rightarrow> None
      | Some (state, es, iPointer) \<Rightarrow>
          if list_ex closes es then Some (state, es, [], True)
          else if iPointer = 0 then Some (state, es, buffer, False)
          else if length buffer < iPointer then None
          else do {
            (state, es', rest, closed) \<leftarrow> async_drain P closes (drop iPointer buffer) state;
            Some (state, es @ es', rest, closed) })"
  by pat_completeness auto
termination by (relation "measure (\<lambda>(P, closes, buffer, st). length buffer)") auto

declare async_drain.simps [simp del]

text \<open>The state of a connection: the callback's, the bytes not consumed, and whether it is closed.  A read of the socket appends bytes.\<close>

definition async_receive ::
  "(byte list \<Rightarrow> 's \<Rightarrow> ('s \<times> 'e list \<times> nat) option) \<Rightarrow> ('e \<Rightarrow> bool) \<Rightarrow> byte list \<Rightarrow> 's \<times> byte list \<times> bool
     \<Rightarrow> (('s \<times> byte list \<times> bool) \<times> 'e list) option" where
  "async_receive P closes d c = (case c of (state, buffer, closed) \<Rightarrow>
     if closed then Some (c, [])
     else do {
       (state, es, rest, closed) \<leftarrow> async_drain P closes (buffer @ d) state;
       Some ((state, rest, closed), es) })"

text \<open>Several reads.\<close>

fun async_receives ::
  "(byte list \<Rightarrow> 's \<Rightarrow> ('s \<times> 'e list \<times> nat) option) \<Rightarrow> ('e \<Rightarrow> bool) \<Rightarrow> byte list list \<Rightarrow> 's \<times> byte list \<times> bool
     \<Rightarrow> (('s \<times> byte list \<times> bool) \<times> 'e list) option" where
  "async_receives P closes [] c = Some (c, [])"
| "async_receives P closes (d # ds) c = do {
     (c, es) \<leftarrow> async_receive P closes d c;
     (c, es') \<leftarrow> async_receives P closes ds c;
     Some (c, es @ es') }"

lemma receives_Cons:
  "async_receive P closes d c = Some (c1, es1) \<Longrightarrow>
   async_receives P closes (d # ds) c = map_option (\<lambda>(c, es). (c, es1 @ es)) (async_receives P closes ds c1)"
  by (auto split: Option.bind_splits option.splits)

lemma drain_Nil [simp]: "async_drain P closes [] s = Some (s, [], [], False)"
  by (simp add: async_drain.simps)

lemma drain_closed: "async_drain P closes b s = Some (s', es, rest, True) \<Longrightarrow> rest = []"
proof (induction P closes b s arbitrary: es rule: async_drain.induct)
  case (1 P closes b s)
  show ?case using 1(2)
    by (subst (asm) async_drain.simps) (fastforce split: if_splits option.splits Option.bind_splits dest: 1(1))
qed

section \<open>Events before those of a result\<close>

definition prepend :: "'e list \<Rightarrow> ('s \<times> 'e list \<times> 'b \<times> bool) option \<Rightarrow> ('s \<times> 'e list \<times> 'b \<times> bool) option" where
  "prepend es r = (case r of None \<Rightarrow> None | Some (s, es', b, cl) \<Rightarrow> Some (s, es @ es', b, cl))"

lemma prepend_prepend: "prepend xs (prepend ys r) = prepend (xs @ ys) r"
  by (simp add: prepend_def split: option.split)

lemma prepend_Nil [simp]: "prepend [] r = r"
  by (simp add: prepend_def split: option.split)

lemma prepend_Some [simp]: "prepend es (Some (s, es', b, cl)) = Some (s, es @ es', b, cl)" "prepend es None = None"
  by (simp_all add: prepend_def)

lemma prepend_None [simp]: "prepend es r = None \<longleftrightarrow> r = None"
  by (auto simp: prepend_def split: option.split)

text \<open>One step of the loop that consumes bytes.\<close>

lemma drain_step:
  assumes "P b s = Some (s', es, n)" "\<not> list_ex closes es" "n \<noteq> 0" "n \<le> length b"
  shows "async_drain P closes b s = prepend es (async_drain P closes (drop n b) s')"
proof -
  have "b \<noteq> []" using assms(3,4) by auto
  then show ?thesis
    using assms by (subst async_drain.simps) (auto simp: prepend_def split: Option.bind_splits)
qed

section \<open>The cut into reads\<close>

text \<open>
  A callback that decides from the front of the bytes: more bytes behind change nothing once it consumed something or
  closed the connection, a failure may only turn into a close, and when it consumed nothing it did nothing.
\<close>

locale stream_reader =
  fixes P :: "byte list \<Rightarrow> 's \<Rightarrow> ('s \<times> 'e list \<times> nat) option"
    and closes :: "'e \<Rightarrow> bool"
  assumes more_bytes: "P b s = Some (s, [], 0)
      \<or> P (b @ c) s = P b s \<and> (\<forall>s' es n. P b s = Some (s', es, n) \<longrightarrow> n \<le> length b)
      \<or> (\<exists>s' es n. P (b @ c) s = Some (s', es, n) \<and> list_ex closes es \<and> (P b s = None \<or> (\<exists>n'. P b s = Some (s', es, n'))))"
    and waits: "P b s = Some (s', es, 0) \<Longrightarrow> \<not> list_ex closes es \<Longrightarrow> s' = s \<and> es = []"
begin

lemma drain_append:
  "async_drain P closes b s = Some (s', es, rest, closed) \<Longrightarrow>
   async_drain P closes (b @ c) s = (if closed then Some (s', es, [], True) else prepend es (async_drain P closes (rest @ c) s'))"
proof (induction "length b" arbitrary: b s es rule: less_induct)
  case less
  show ?case
  proof (cases "b = []")
    case True
    then show ?thesis using less.prems by simp
  next
    case ne: False
    then obtain s1 es1 n where x: "P b s = Some (s1, es1, n)"
      using less.prems by (subst (asm) async_drain.simps) (auto split: option.splits prod.splits)
    consider "list_ex closes es1" | "\<not> list_ex closes es1" "n = 0" | "\<not> list_ex closes es1" "n \<noteq> 0" by blast
    then show ?thesis
    proof cases
      case 1
      then obtain n' where "P (b @ c) s = Some (s1, es1, n')" using more_bytes [of b s c] x by auto
      then show ?thesis using ne x 1 less.prems by (simp add: async_drain.simps)
    next
      case 2
      then show ?thesis using ne x waits [of b s s1 es1] less.prems by (simp add: async_drain.simps)
    next
      case 3
      have a: "P (b @ c) s = Some (s1, es1, n)" "n \<le> length b" using more_bytes [of b s c] x 3 by auto
      have "async_drain P closes b s = prepend es1 (async_drain P closes (drop n b) s1)"
        by (rule drain_step [of P b s s1 es1 n closes, OF x 3 a(2)])
      then obtain es2 where d: "async_drain P closes (drop n b) s1 = Some (s', es2, rest, closed)" "es = es1 @ es2"
        using less.prems by (auto simp: prepend_def split: option.splits)
      have "length (drop n b) < length b" using ne 3(2) by simp
      note ih = less.hyps [OF this d(1)]
      have "async_drain P closes (b @ c) s = prepend es1 (async_drain P closes (drop n b @ c) s1)"
        using drain_step [of P "b @ c" s s1 es1 n closes, OF a(1) 3] a(2) by simp
      then show ?thesis using ih d(2) by (simp add: prepend_prepend)
    qed
  qed
qed

lemma drain_None:
  "async_drain P closes b s = None \<Longrightarrow>
   async_drain P closes (b @ c) s = None \<or> (\<exists>s' es. async_drain P closes (b @ c) s = Some (s', es, [], True))"
proof (induction "length b" arbitrary: b s rule: less_induct)
  case less
  then have ne: "b \<noteq> []" by auto
  show ?case
  proof (cases "P b s")
    case None
    then show ?thesis using more_bytes [of b s c] ne by (auto simp: async_drain.simps)
  next
    case (Some x)
    obtain s1 es1 n where x: "P b s = Some (s1, es1, n)" using Some by (cases x) auto
    have 3: "\<not> list_ex closes es1" "n \<noteq> 0"
      using less.prems ne x by (auto simp: async_drain.simps split: if_splits)
    have a: "P (b @ c) s = Some (s1, es1, n)" "n \<le> length b" using more_bytes [of b s c] x 3 by auto
    have "async_drain P closes (drop n b) s1 = None"
      using less.prems drain_step [of P b s s1 es1 n closes, OF x 3 a(2)] by simp
    moreover have "length (drop n b) < length b" using ne 3(2) by simp
    ultimately show ?thesis
      using less.hyps [of "drop n b" s1] drain_step [of P "b @ c" s s1 es1 n closes, OF a(1) 3] a(2) by auto
  qed
qed

lemma receive_append:
  "async_receive P closes d1 c = Some (c1, es1) \<Longrightarrow>
   async_receive P closes (d1 @ d2) c = map_option (\<lambda>(c, es). (c, es1 @ es)) (async_receive P closes d2 c1)"
proof (cases c)
  case (fields s b closed)
  assume r: "async_receive P closes d1 c = Some (c1, es1)"
  show ?thesis
  proof (cases closed)
    case True
    then show ?thesis using r by (auto simp: fields async_receive_def)
  next
    case False
    then obtain s' rest cl where d: "async_drain P closes (b @ d1) s = Some (s', es1, rest, cl)" "c1 = (s', rest, cl)"
      using r by (auto simp: fields async_receive_def split: Option.bind_splits)
    then show ?thesis
      using False drain_append [OF d(1), of d2] drain_closed [of P closes "b @ d1" s s' es1 rest]
      by (auto simp: fields async_receive_def prepend_def split: option.splits Option.bind_splits)
  qed
qed

lemma receive_None:
  "async_receive P closes d1 c = None \<Longrightarrow>
   async_receive P closes (d1 @ d2) c = None \<or> (\<exists>s' rest es. async_receive P closes (d1 @ d2) c = Some ((s', rest, True), es))"
  using drain_None [of "fst (snd c) @ d1" "fst c" d2]
  by (cases c) (auto simp: async_receive_def split: Option.bind_splits if_splits)

text \<open>What several reads do, one read does; and several reads do what one read does that leaves the connection open.\<close>

lemma receives_concat:
  "async_receives P closes (d # ds) c = Some r \<Longrightarrow> async_receive P closes (concat (d # ds)) c = Some r"
proof (induction ds arbitrary: c d r)
  case Nil
  then show ?case by (auto split: Option.bind_splits)
next
  case (Cons d2 ds)
  obtain c1 es1 where d: "async_receive P closes d c = Some (c1, es1)"
    using Cons.prems by (auto split: Option.bind_splits)
  obtain c2 es2 where ds: "async_receives P closes (d2 # ds) c1 = Some (c2, es2)" "r = (c2, es1 @ es2)"
    using Cons.prems unfolding receives_Cons [OF d] by (auto simp del: async_receives.simps)
  show ?case using receive_append [OF d, of "concat (d2 # ds)"] Cons.IH [OF ds(1)] ds(2) by simp
qed

lemma receives_open:
  "async_receive P closes (concat (d # ds)) c = Some ((s, rest, False), es) \<Longrightarrow>
   async_receives P closes (d # ds) c = Some ((s, rest, False), es)"
proof (induction ds arbitrary: c d es)
  case Nil
  then show ?case by simp
next
  case (Cons d2 ds)
  have r: "async_receive P closes (d @ concat (d2 # ds)) c = Some ((s, rest, False), es)" using Cons.prems by simp
  then obtain c1 es1 where d: "async_receive P closes d c = Some (c1, es1)"
    using receive_None [of d c "concat (d2 # ds)"] by (cases "async_receive P closes d c") auto
  obtain es2 where "async_receive P closes (concat (d2 # ds)) c1 = Some ((s, rest, False), es2)" "es = es1 @ es2"
    using receive_append [OF d, of "concat (d2 # ds)"] r by (cases "async_receive P closes (concat (d2 # ds)) c1") auto
  then show ?case unfolding receives_Cons [OF d] using Cons.IH [of d2 c1 es2] by (simp del: async_receives.simps)
qed

end

text \<open>A callback whose failures stay failures: reads do not matter at all.\<close>

locale strict_reader = stream_reader P closes
  for P :: "byte list \<Rightarrow> 's \<Rightarrow> ('s \<times> 'e list \<times> nat) option" and closes :: "'e \<Rightarrow> bool" +
  assumes fails: "P b s = None \<Longrightarrow> P (b @ c) s = None"
begin

lemma drain_fails: "async_drain P closes b s = None \<Longrightarrow> async_drain P closes (b @ c) s = None"
proof (induction "length b" arbitrary: b s rule: less_induct)
  case less
  then have ne: "b \<noteq> []" by auto
  show ?case
  proof (cases "P b s")
    case None
    then show ?thesis using fails [of b s c] ne by (simp add: async_drain.simps)
  next
    case (Some x)
    obtain s1 es1 n where x: "P b s = Some (s1, es1, n)" using Some by (cases x) auto
    have 3: "\<not> list_ex closes es1" "n \<noteq> 0"
      using less.prems ne x by (auto simp: async_drain.simps split: if_splits)
    have a: "P (b @ c) s = Some (s1, es1, n)" "n \<le> length b" using more_bytes [of b s c] x 3 by auto
    have "async_drain P closes (drop n b) s1 = None"
      using less.prems drain_step [of P b s s1 es1 n closes, OF x 3 a(2)] by simp
    moreover have "length (drop n b) < length b" using ne 3(2) by simp
    ultimately show ?thesis using less.hyps [of "drop n b" s1] drain_step [of P "b @ c" s s1 es1 n closes, OF a(1) 3] a(2) by simp
  qed
qed

lemma receives_eq: "async_receives P closes (d # ds) c = async_receive P closes (concat (d # ds)) c"
proof (induction ds arbitrary: c d)
  case Nil
  then show ?case by (auto split: Option.bind_splits)
next
  case (Cons d2 ds)
  show ?case
  proof (cases "async_receive P closes d c")
    case None
    then have "async_receive P closes (d @ concat (d2 # ds)) c = None"
      using drain_fails [of "fst (snd c) @ d" "fst c" "concat (d2 # ds)"]
      by (cases c) (auto simp: async_receive_def split: Option.bind_splits if_splits)
    then show ?thesis using None by simp
  next
    case (Some x)
    obtain c1 es1 where x: "async_receive P closes d c = Some (c1, es1)" using Some by (cases x) auto
    then show ?thesis
      unfolding receives_Cons [OF x] Cons.IH using receive_append [OF x, of "concat (d2 # ds)"] by simp
  qed
qed

end

end
