(* ===== verification/WebSocket.thy ===== *)
theory WebSocket
  imports AgentCore AsyncStream
begin

text \<open>
  WebSocket frames, from microstack/ILibWebClient.c: sending a buffer in masked frames, taking a frame
  from the bytes that arrived, the reassembly of fragmented messages up to the size the user of the client set, and
  the client as a reader of the stream of its socket (theory AsyncStream).

  \<open>int\<close> arithmetic is exact where the code stays below \<open>INT32_MAX\<close>; \<open>None\<close> is an overflow of it, which is undefined,
  or the exit of the process.  Calls to the user (\<open>OnResponse\<close>, the pong handler), disconnecting and writing to the socket are
  events, in their order.  The unmasked payload goes to the event; the code writes it over the received bytes, which are
  not read again.
\<close>

unbundle bit_operations_syntax

section \<open>Constants and headers\<close>

definition WEBSOCKET_FIN :: u16 where "WEBSOCKET_FIN = 0x8000"
definition WEBSOCKET_OPCODE :: u16 where "WEBSOCKET_OPCODE = 0x0F00"
definition WEBSOCKET_MASK :: u16 where "WEBSOCKET_MASK = 0x0080"
definition WEBSOCKET_PLEN :: u16 where "WEBSOCKET_PLEN = 0x007F"
definition WEBSOCKET_MAX_OUTPUT_FRAMESIZE :: nat where "WEBSOCKET_MAX_OUTPUT_FRAMESIZE = 4096"
definition WEBSOCKET_OPCODE_FRAMECONT :: nat where "WEBSOCKET_OPCODE_FRAMECONT = 0"
definition WEBSOCKET_OPCODE_TEXTFRAME :: nat where "WEBSOCKET_OPCODE_TEXTFRAME = 1"
definition WEBSOCKET_OPCODE_BINARYFRAME :: nat where "WEBSOCKET_OPCODE_BINARYFRAME = 2"
definition WEBSOCKET_OPCODE_CLOSE :: nat where "WEBSOCKET_OPCODE_CLOSE = 8"
definition WEBSOCKET_OPCODE_PING :: nat where "WEBSOCKET_OPCODE_PING = 9"
definition WEBSOCKET_OPCODE_PONG :: nat where "WEBSOCKET_OPCODE_PONG = 10"

lemmas WEBSOCKET_defs = WEBSOCKET_FIN_def WEBSOCKET_OPCODE_def WEBSOCKET_MASK_def WEBSOCKET_PLEN_def
lemmas WEBSOCKET_OPCODEs = WEBSOCKET_OPCODE_FRAMECONT_def WEBSOCKET_OPCODE_TEXTFRAME_def WEBSOCKET_OPCODE_BINARYFRAME_def
  WEBSOCKET_OPCODE_CLOSE_def WEBSOCKET_OPCODE_PING_def WEBSOCKET_OPCODE_PONG_def

text \<open>Words in network order.\<close>

definition htons16 :: "u16 \<Rightarrow> byte list" where
  "htons16 w = [ucast (drop_bit 8 w), ucast w]"

definition read16 :: "byte list \<Rightarrow> nat \<Rightarrow> u16 option" where
  "read16 b i = do { hi \<leftarrow> rd b i; lo \<leftarrow> rd b (i + 1); Some (push_bit 8 (ucast hi) OR ucast lo) }"

text \<open>The value of bytes in network order, and the \<open>n\<close> bytes of a value.\<close>

fun be_val :: "byte list \<Rightarrow> nat" where
  "be_val [] = 0"
| "be_val (b # bs) = 256 ^ length bs * unat b + be_val bs"

fun be_bytes :: "nat \<Rightarrow> nat \<Rightarrow> byte list" where
  "be_bytes 0 v = []"
| "be_bytes (Suc n) v = of_nat (v div 256 ^ n) # be_bytes n v"

definition ILibNTOHLL :: "byte list \<Rightarrow> nat" where
  "ILibNTOHLL v = be_val (take 4 v) * 2 ^ 32 + be_val (drop 4 v)"

definition ILibHTONLL :: "nat \<Rightarrow> byte list" where
  "ILibHTONLL v = be_bytes 4 (v div 2 ^ 32) @ be_bytes 4 (v mod 2 ^ 32)"

definition ILibWebServer_WebSocket_CreateHeader :: "u16 \<Rightarrow> nat \<Rightarrow> nat \<Rightarrow> byte list" where
  "ILibWebServer_WebSocket_CreateHeader FLAGS OPCODE payloadLength =
     (let header1 = push_bit 8 (of_nat OPCODE) OR FLAGS in
      if payloadLength < 126 then htons16 (header1 OR of_nat payloadLength)
      else if payloadLength \<le> 0xFFFF then htons16 (header1 OR 126) @ htons16 (of_nat payloadLength)
      else htons16 (header1 OR 127) @ ILibHTONLL payloadLength)"

section \<open>State\<close>

datatype ws_event =
    OnResponse ILibWebClient_ReceiveStatus "byte list"
  | SendPong
  | PongReceived
  | WsDisconnect

text \<open>
  \<open>WebSocketFragmentBuffer\<close> is the list of its \<open>WebSocketFragmentIndex\<close> bytes in use.  \<open>pingRespond\<close>: there is no ping handler, or
  it asks for an answer; \<open>pongHandler\<close>: there is one.
\<close>

record ILibWebClient_WebSocketState =
  WebSocketFragmentFlag :: bool
  WebSocketDataFrameType :: nat
  WebSocketFragmentBuffer :: "byte list"
  WebSocketFragmentIndex :: nat
  WebSocketFragmentBufferSize :: nat
  WebSocketFragmentMaxBufferSize :: nat
  WebSocketCouldNotAutoReassemble :: bool
  pingRespond :: bool
  pongHandler :: bool

definition ILibWebClient_WebSocket_GetState :: "nat \<Rightarrow> ILibWebClient_WebSocketState" where
  "ILibWebClient_WebSocket_GetState WebSocketMaxBuffer = \<lparr>WebSocketFragmentFlag = False, WebSocketDataFrameType = 0,
     WebSocketFragmentBuffer = [], WebSocketFragmentIndex = 0, WebSocketFragmentBufferSize = 4096,
     WebSocketFragmentMaxBufferSize = WebSocketMaxBuffer, WebSocketCouldNotAutoReassemble = False,
     pingRespond = True, pongHandler = False\<rparr>"

definition ILibWebClient_WebSocket_SetPingPongHandler ::
  "bool \<Rightarrow> bool \<Rightarrow> ILibWebClient_WebSocketState \<Rightarrow> ILibWebClient_WebSocketState" where
  "ILibWebClient_WebSocket_SetPingPongHandler ping pong st = st\<lparr>pingRespond := ping, pongHandler := pong\<rparr>"

section \<open>Sending\<close>

definition xor_key :: "byte list \<Rightarrow> nat \<Rightarrow> byte \<Rightarrow> byte" where
  "xor_key k x b = b XOR k ! (x mod 4)"

text \<open>The payload is masked four bytes at a time, then the rest byte by byte.\<close>

definition mask_payload :: "byte list \<Rightarrow> byte list \<Rightarrow> byte list" where
  "mask_payload maskKey buffer =
     (let n = length buffer div 4 in
      concat (map (\<lambda>x. write32 (read32 (slice buffer (4 * x) 4) XOR read32 maskKey)) [0..<n])
      @ map (\<lambda>x. xor_key maskKey x (buffer ! x)) [4 * n..<length buffer])"

text \<open>
  One frame per 4096 bytes; all but the last are marked as incomplete.  \<open>keys i\<close> is the mask of the \<open>i\<close>-th frame, from the
  random number generator.  The results are the state and what is written to the socket.
\<close>

definition ws_frame :: "bool \<Rightarrow> nat \<Rightarrow> byte list \<Rightarrow> byte list \<Rightarrow> bool \<Rightarrow> bool \<times> byte list" where
  "ws_frame complete bufferType maskKey buffer fragmentFlag =
     (\<not> complete,
      ILibWebServer_WebSocket_CreateHeader (WEBSOCKET_MASK OR (if complete then WEBSOCKET_FIN else 0))
        (if fragmentFlag then WEBSOCKET_OPCODE_FRAMECONT else bufferType) (length buffer)
      @ maskKey @ mask_payload maskKey buffer)"

function ws_send_loop :: "(nat \<Rightarrow> byte list) \<Rightarrow> nat \<Rightarrow> bool \<Rightarrow> nat \<Rightarrow> byte list \<Rightarrow> bool \<Rightarrow> bool \<times> byte list" where
  "ws_send_loop keys bufferType complete i buffer fragmentFlag =
     (if buffer = [] then (fragmentFlag, [])
      else let rest = drop WEBSOCKET_MAX_OUTPUT_FRAMESIZE buffer;
               (fl, w) = ws_frame (rest = [] \<and> complete) bufferType (keys i) (take WEBSOCKET_MAX_OUTPUT_FRAMESIZE buffer) fragmentFlag;
               (fl, ws) = ws_send_loop keys bufferType complete (i + 1) rest fl
           in (fl, w @ ws))"
  by pat_completeness auto
termination
  by (relation "measure (\<lambda>(keys, t, c, i, buffer, fl). length buffer)") (auto simp: WEBSOCKET_MAX_OUTPUT_FRAMESIZE_def)

declare ws_send_loop.simps [simp del]

definition ILibWebClient_WebSocket_Send ::
  "(nat \<Rightarrow> byte list) \<Rightarrow> nat \<Rightarrow> byte list \<Rightarrow> bool \<Rightarrow> ILibWebClient_WebSocketState \<Rightarrow> ILibWebClient_WebSocketState \<times> byte list" where
  "ILibWebClient_WebSocket_Send keys bufferType buffer complete st =
     (let (fl, w) = (if buffer = [] \<and> (bufferType = WEBSOCKET_OPCODE_PING \<or> bufferType = WEBSOCKET_OPCODE_PONG)
        then ws_frame complete bufferType (keys 0) [] (WebSocketFragmentFlag st)
        else ws_send_loop keys bufferType complete 0 buffer (WebSocketFragmentFlag st))
      in (st\<lparr>WebSocketFragmentFlag := fl\<rparr>, w))"

section \<open>Receiving\<close>

text \<open>The buffer for fragments starts with 4096 bytes, so its size is not 0.\<close>

function grow_fragment :: "nat \<Rightarrow> nat \<Rightarrow> nat \<Rightarrow> nat" where
  "grow_fragment newSize needed maxSize =
     (if newSize < needed \<and> newSize < maxSize \<and> 0 < newSize
      then grow_fragment (if newSize > maxSize div 2 then maxSize else newSize * 2) needed maxSize
      else newSize)"
  by pat_completeness auto
termination by (relation "measure (\<lambda>(newSize, needed, maxSize). maxSize - newSize)") auto

declare grow_fragment.simps [simp del]

definition final_status :: "bool \<Rightarrow> ILibWebClient_ReceiveStatus" where
  "final_status FIN = (if FIN then LastPartial else Partial)"

text \<open>The data of one frame with an opcode below 8.\<close>

definition ws_data ::
  "bool \<Rightarrow> nat \<Rightarrow> byte list \<Rightarrow> ILibWebClient_WebSocketState \<Rightarrow> (ILibWebClient_WebSocketState \<times> ws_event list) option" where
  "ws_data FIN OPCODE d st =
     (if WebSocketFragmentMaxBufferSize st = 0
      then Some (st\<lparr>WebSocketDataFrameType := OPCODE\<rparr>, [OnResponse (final_status FIN) d])
      else let st = (if OPCODE \<noteq> 0 then st\<lparr>WebSocketDataFrameType := OPCODE\<rparr> else st);
               needed = WebSocketFragmentIndex st + length d in
      if FIN \<and> WebSocketFragmentIndex st = 0 \<and> \<not> WebSocketCouldNotAutoReassemble st
      then Some (st, [OnResponse MoreDataToBeReceived d])
      else let st = (if needed > WebSocketFragmentBufferSize st
                 then st\<lparr>WebSocketFragmentBufferSize :=
                   grow_fragment (WebSocketFragmentBufferSize st) needed (WebSocketFragmentMaxBufferSize st)\<rparr> else st);
               full = needed > WebSocketFragmentBufferSize st;
               flush = (if full \<and> 0 < WebSocketFragmentIndex st
                 then [OnResponse Partial (WebSocketFragmentBuffer st)] else []);
               st = (if full then st\<lparr>WebSocketCouldNotAutoReassemble := True,
                   WebSocketFragmentBuffer := [], WebSocketFragmentIndex := 0\<rparr> else st) in
      if length d > WebSocketFragmentBufferSize st
      then Some (if FIN then st\<lparr>WebSocketCouldNotAutoReassemble := False, WebSocketFragmentBuffer := [], WebSocketFragmentIndex := 0\<rparr> else st,
                 flush @ [OnResponse (final_status FIN) d])
      else if length d > WebSocketFragmentBufferSize st - WebSocketFragmentIndex st then None
      else let st = st\<lparr>WebSocketFragmentBuffer := WebSocketFragmentBuffer st @ d,
                   WebSocketFragmentIndex := WebSocketFragmentIndex st + length d\<rparr> in
      if FIN
      then Some (st\<lparr>WebSocketCouldNotAutoReassemble := False, WebSocketFragmentBuffer := [], WebSocketFragmentIndex := 0\<rparr>,
             flush @ [OnResponse (if WebSocketCouldNotAutoReassemble st then LastPartial else MoreDataToBeReceived)
                        (WebSocketFragmentBuffer st)])
      else Some (st, flush))"

definition ws_control :: "nat \<Rightarrow> ILibWebClient_WebSocketState \<Rightarrow> ws_event list" where
  "ws_control OPCODE st =
     (if OPCODE = WEBSOCKET_OPCODE_CLOSE then [WsDisconnect]
      else if OPCODE = WEBSOCKET_OPCODE_PING then (if pingRespond st then [SendPong] else [])
      else if OPCODE = WEBSOCKET_OPCODE_PONG then (if pongHandler st then [PongReceived] else [])
      else [])"

text \<open>
  The length of the payload and the position behind it in the header: \<open>Inl\<close> is the result of the function when more bytes are needed
  (\<open>False\<close>) or the length is too large (\<open>True\<close>: disconnect).
\<close>

definition ws_plen :: "byte list \<Rightarrow> nat \<Rightarrow> nat \<Rightarrow> u16 \<Rightarrow> (bool + nat \<times> nat) option" where
  "ws_plen buffer offset len hdr =
     (let plen = unat (hdr AND WEBSOCKET_PLEN); i = offset + 2 in
      if plen = 126
      then if len < 4 then Some (Inl False) else map_option (\<lambda>w. Inr (unat w, i + 2)) (read16 buffer (offset + 2))
      else if plen = 127
      then if len < 10 then Some (Inl False)
           else let v = ILibNTOHLL (slice buffer (offset + 2) 8) in
             Some (if v > INT32_MAX then Inl True else Inr (v, i + 8))
      else Some (Inr (plen, i)))"

text \<open>
  One frame from the bytes at \<open>offset\<close> of the \<open>len\<close> that arrived: \<open>Inl\<close> as above, otherwise whether it is the last of its message, its opcode, the
  payload without the mask, and the position behind it.
\<close>

definition ws_read_frame :: "byte list \<Rightarrow> nat \<Rightarrow> nat \<Rightarrow> (bool + bool \<times> nat \<times> byte list \<times> nat) option" where
  "ws_read_frame buffer offset len =
     (if len < 2 then Some (Inl False)
      else do {
        hdr \<leftarrow> read16 buffer offset;
        let FIN = (hdr AND WEBSOCKET_FIN \<noteq> 0);
        let OPCODE = unat (drop_bit 8 (hdr AND WEBSOCKET_OPCODE));
        let masked = (hdr AND WEBSOCKET_MASK \<noteq> 0);
        r \<leftarrow> ws_plen buffer offset len hdr;
        (case r of
           Inl disconnect \<Rightarrow> Some (Inl disconnect)
         | Inr (plen, i) \<Rightarrow>
             if i + plen > INT32_MAX \<or> i + plen + (if masked then 4 else 0) > INT32_MAX then None
             else if len < i + plen + (if masked then 4 else 0) then Some (Inl False)
             else let maskingKey = slice buffer i 4;
                      i = (if masked then i + 4 else i);
                      payload = slice buffer i plen;
                      d = (if masked then map (\<lambda>x. xor_key maskingKey x (payload ! x)) [0..<plen] else payload)
                  in Some (Inr (FIN, OPCODE, d, i + plen))) })"

definition ILibWebClient_ProcessWebSocketData ::
  "byte list \<Rightarrow> nat \<Rightarrow> nat \<Rightarrow> ILibWebClient_WebSocketState option
     \<Rightarrow> (ILibWebClient_WebSocketState option \<times> ws_event list \<times> nat) option" where
  "ILibWebClient_ProcessWebSocketData buffer offset len state = (case state of
     None \<Rightarrow> Some (None, [WsDisconnect], len)
   | Some st \<Rightarrow> do {
       r \<leftarrow> ws_read_frame buffer offset len;
       (case r of
          Inl disconnect \<Rightarrow> Some (if disconnect then (state, [WsDisconnect], len) else (state, [], offset))
        | Inr (FIN, OPCODE, d, behind) \<Rightarrow>
            if OPCODE < 8 then map_option (\<lambda>(st, es). (Some st, es, behind)) (ws_data FIN OPCODE d st)
            else Some (state, ws_control OPCODE st, behind)) })"

text \<open>
  The callback of the socket once the connection is a WebSocket, and the reads of the socket.  Disconnecting closes it.
\<close>

definition ILibWebClient_OnWebSocketData ::
  "byte list \<Rightarrow> ILibWebClient_WebSocketState option \<Rightarrow> (ILibWebClient_WebSocketState option \<times> ws_event list \<times> nat) option" where
  "ILibWebClient_OnWebSocketData buffer state = ILibWebClient_ProcessWebSocketData buffer 0 (length buffer) state"

definition ws_closes :: "ws_event \<Rightarrow> bool" where
  "ws_closes e \<longleftrightarrow> e = WsDisconnect"

lemma list_ex_closes [simp]: "list_ex ws_closes es \<longleftrightarrow> WsDisconnect \<in> set es"
  by (auto simp: ws_closes_def list_ex_iff)

abbreviation ws_drain ::
  "byte list \<Rightarrow> ILibWebClient_WebSocketState option \<Rightarrow> (ILibWebClient_WebSocketState option \<times> ws_event list \<times> byte list \<times> bool) option" where
  "ws_drain \<equiv> async_drain ILibWebClient_OnWebSocketData ws_closes"

type_synonym ws_conn = "ILibWebClient_WebSocketState option \<times> byte list \<times> bool"

abbreviation ws_receive :: "byte list \<Rightarrow> ws_conn \<Rightarrow> (ws_conn \<times> ws_event list) option" where
  "ws_receive \<equiv> async_receive ILibWebClient_OnWebSocketData ws_closes"

abbreviation ws_receives :: "byte list list \<Rightarrow> ws_conn \<Rightarrow> (ws_conn \<times> ws_event list) option" where
  "ws_receives \<equiv> async_receives ILibWebClient_OnWebSocketData ws_closes"

end
