(* ===== verification/WebServer.thy ===== *)
theory WebServer
  imports WebSocket
begin

text \<open>
  The WebSocket side of a session of the web server, from microstack/ILibWebServer.c: sending in frames without a mask, the close
  handshake, and taking a frame from the bytes that arrived, with the reassembly of fragmented messages.

  The reader of a frame is that of the client (\<open>ws_read_frame\<close>), whose code is the same.  What is written to the
  socket and the calls of the handler \<open>OnReceive\<close> of the session are events, in their order; the exit of the process
  (\<open>ILIBCRITICALEXIT\<close>, also that of a copy that does not fit) is the event \<open>ProcessExit\<close>, after which nothing happens.  \<open>None\<close> is an overflow of an \<open>int\<close>, or a read
  behind the bytes that arrived.
\<close>

unbundle bit_operations_syntax

section \<open>State\<close>

datatype ILibWebServer_DoneFlag =
    ILibWebServer_DoneFlag_NotDone | ILibWebServer_DoneFlag_Done
  | ILibWebServer_DoneFlag_Partial | ILibWebServer_DoneFlag_LastPartial

datatype session_event =
    OnReceive ILibWebServer_DoneFlag "byte list"
  | Written "byte list"
  | SessionDisconnected
  | ProcessExit nat

text \<open>
  The fields of the session that its WebSocket uses, without the prefix \<open>WebSocket\<close>.  \<open>SessionFragmentBuffer\<close> is the list of its
  \<open>SessionFragmentIndex\<close> bytes in use.  \<open>has_OnReceive\<close>: the user has set a handler.
\<close>

record ILibWebServer_Session_SystemData =
  SessionFragmentFlag :: bool
  SessionDataFrameType :: nat
  SessionFragmentBuffer :: "byte list"
  SessionFragmentIndex :: nat
  SessionFragmentBufferSize :: nat
  SessionFragmentMaxBufferSize :: nat
  SessionCouldNotAutoReassemble :: bool
  SessionCloseFrameSent :: bool
  has_OnReceive :: bool

text \<open>The buffer for fragments of a session that becomes a WebSocket; the maximum is not negative.\<close>

definition upgrade_buffer :: "nat \<Rightarrow> ILibWebServer_Session_SystemData \<Rightarrow> ILibWebServer_Session_SystemData" where
  "upgrade_buffer autoFragmentReassemblyMaxBufferSize s =
     (let s = s\<lparr>SessionFragmentMaxBufferSize := autoFragmentReassemblyMaxBufferSize\<rparr> in
      if SessionFragmentMaxBufferSize s > 0
      then s\<lparr>SessionFragmentBufferSize := (if SessionFragmentMaxBufferSize s < 4096 then SessionFragmentMaxBufferSize s else 4096)\<rparr>
      else s)"

section \<open>Sending\<close>

text \<open>One frame: the state and what is written to the socket.\<close>

definition session_frame :: "nat \<Rightarrow> byte list \<Rightarrow> bool \<Rightarrow> ILibWebServer_Session_SystemData \<Rightarrow> ILibWebServer_Session_SystemData \<times> byte list" where
  "session_frame bufferType buffer complete s =
     (s\<lparr>SessionFragmentFlag := \<not> complete\<rparr>,
      ILibWebServer_WebSocket_CreateHeader (if complete then WEBSOCKET_FIN else 0)
        (if SessionFragmentFlag s then WEBSOCKET_OPCODE_FRAMECONT else bufferType) (length buffer) @ buffer)"

text \<open>A buffer of more than 4096 bytes is sent in frames, all but the last marked as incomplete.\<close>

function session_send_loop :: "nat \<Rightarrow> byte list \<Rightarrow> bool \<Rightarrow> ILibWebServer_Session_SystemData \<Rightarrow> ILibWebServer_Session_SystemData \<times> byte list" where
  "session_send_loop bufferType buffer complete s =
     (if buffer = [] then (s, [])
      else let rest = drop WEBSOCKET_MAX_OUTPUT_FRAMESIZE buffer;
               (s, w) = session_frame bufferType (take WEBSOCKET_MAX_OUTPUT_FRAMESIZE buffer) (rest = [] \<and> complete) s;
               (s, ws) = session_send_loop bufferType rest complete s
           in (s, w @ ws))"
  by pat_completeness auto
termination
  by (relation "measure (\<lambda>(t, buffer, c, s). length buffer)") (auto simp: WEBSOCKET_MAX_OUTPUT_FRAMESIZE_def)

declare session_send_loop.simps [simp del]

definition ILibWebServer_WebSocket_Send ::
  "nat \<Rightarrow> byte list \<Rightarrow> bool \<Rightarrow> ILibWebServer_Session_SystemData \<Rightarrow> ILibWebServer_Session_SystemData \<times> byte list" where
  "ILibWebServer_WebSocket_Send bufferType buffer complete s =
     (if length buffer > WEBSOCKET_MAX_OUTPUT_FRAMESIZE then session_send_loop bufferType buffer complete s
      else session_frame bufferType buffer complete s)"

text \<open>Closing: the close frame with the code 1000, once.\<close>

definition ILibWebServer_WebSocket_Close :: "ILibWebServer_Session_SystemData \<Rightarrow> ILibWebServer_Session_SystemData \<times> session_event list" where
  "ILibWebServer_WebSocket_Close s =
     (if SessionCloseFrameSent s then (s, [])
      else let (s, w) = ILibWebServer_WebSocket_Send WEBSOCKET_OPCODE_CLOSE (htons16 1000) True (s\<lparr>SessionCloseFrameSent := True\<rparr>)
           in (s, [Written w]))"

section \<open>Receiving\<close>

text \<open>
  The place for a frame in the buffer: when the bytes do not fit strictly, a buffer of the maximal size is handed to the user, and a smaller
  one grows to twice its size, at most the maximum.
\<close>

definition make_room ::
  "nat \<Rightarrow> ILibWebServer_Session_SystemData \<Rightarrow> (ILibWebServer_Session_SystemData \<times> session_event list) option" where
  "make_room plen s =
     (if SessionFragmentIndex s + plen > INT32_MAX then None
      else if SessionFragmentIndex s + plen < SessionFragmentBufferSize s then Some (s, [])
      else if SessionFragmentBufferSize s = SessionFragmentMaxBufferSize s
      then Some (s\<lparr>SessionCouldNotAutoReassemble := True, SessionFragmentBuffer := [], SessionFragmentIndex := 0\<rparr>,
             [OnReceive ILibWebServer_DoneFlag_Partial (SessionFragmentBuffer s)])
      else if SessionFragmentBufferSize s * 2 > INT32_MAX then None
      else Some (s\<lparr>SessionFragmentBufferSize :=
             (if SessionFragmentBufferSize s * 2 > SessionFragmentMaxBufferSize s then SessionFragmentMaxBufferSize s
              else SessionFragmentBufferSize s * 2)\<rparr>, []))"

text \<open>The data of one frame with an opcode below 8.\<close>

definition session_data ::
  "bool \<Rightarrow> nat \<Rightarrow> byte list \<Rightarrow> ILibWebServer_Session_SystemData \<Rightarrow> (ILibWebServer_Session_SystemData \<times> session_event list) option" where
  "session_data FIN OPCODE d s =
     (if SessionFragmentMaxBufferSize s = 0
      then Some (s\<lparr>SessionDataFrameType := OPCODE\<rparr>,
             [OnReceive (if FIN then ILibWebServer_DoneFlag_LastPartial else ILibWebServer_DoneFlag_Partial) d])
      else let s = (if OPCODE \<noteq> 0 then s\<lparr>SessionDataFrameType := OPCODE\<rparr> else s) in
      if FIN \<and> SessionFragmentIndex s = 0 \<and> \<not> SessionCouldNotAutoReassemble s
      then Some (s, [OnReceive ILibWebServer_DoneFlag_NotDone d])
      else do {
        (s, es) \<leftarrow> make_room (length d) s;
        if length d > SessionFragmentBufferSize s - SessionFragmentIndex s then Some (s, es @ [ProcessExit 254])
        else let s = s\<lparr>SessionFragmentBuffer := SessionFragmentBuffer s @ d, SessionFragmentIndex := SessionFragmentIndex s + length d\<rparr> in
        if FIN
        then Some (s\<lparr>SessionCouldNotAutoReassemble := False, SessionFragmentBuffer := [], SessionFragmentIndex := 0\<rparr>,
               es @ [OnReceive (if SessionCouldNotAutoReassemble s then ILibWebServer_DoneFlag_LastPartial
                                else ILibWebServer_DoneFlag_NotDone) (SessionFragmentBuffer s)])
        else Some (s, es) })"

text \<open>
  The control frames: a close is echoed, unless one was sent, with the first two bytes at the place of the payload when there is one, and the session
  is disconnected; a ping is answered by a pong without payload.  \<open>d\<close> is the payload and \<open>rest\<close> what arrived behind it.
\<close>

definition session_control ::
  "nat \<Rightarrow> byte list \<Rightarrow> byte list \<Rightarrow> ILibWebServer_Session_SystemData \<Rightarrow> (ILibWebServer_Session_SystemData \<times> session_event list) option" where
  "session_control OPCODE d rest s =
     (if OPCODE = WEBSOCKET_OPCODE_CLOSE
      then if SessionCloseFrameSent s then Some (s, [SessionDisconnected])
           else if d \<noteq> [] \<and> length (d @ rest) < 2 then None
           else let (s, w) = ILibWebServer_WebSocket_Send WEBSOCKET_OPCODE_CLOSE (if d = [] then [] else take 2 (d @ rest)) True
                      (s\<lparr>SessionCloseFrameSent := True\<rparr>)
                in Some (s, [Written w, SessionDisconnected])
      else if OPCODE = WEBSOCKET_OPCODE_PING
      then let (s, w) = ILibWebServer_WebSocket_Send WEBSOCKET_OPCODE_PONG [] True s in Some (s, [Written w])
      else Some (s, []))"

definition ILibWebServer_ProcessWebSocketData ::
  "byte list \<Rightarrow> nat \<Rightarrow> nat \<Rightarrow> ILibWebServer_Session_SystemData
     \<Rightarrow> (ILibWebServer_Session_SystemData \<times> session_event list \<times> nat) option" where
  "ILibWebServer_ProcessWebSocketData buffer offset len s = do {
     r \<leftarrow> ws_read_frame buffer offset len;
     (case r of
        Inl disconnect \<Rightarrow> Some (if disconnect then (s, [SessionDisconnected], len) else (s, [], offset))
      | Inr (FIN, OPCODE, d, behind) \<Rightarrow>
          if \<not> has_OnReceive s then Some (s, [], behind)
          else map_option (\<lambda>(s, es). (s, es, behind))
            (if OPCODE < 8 then session_data FIN OPCODE d s
             else session_control OPCODE d (slice buffer behind (len - behind)) s)) }"

text \<open>The callback of the socket once the session is a WebSocket, and the reads of the socket (theory AsyncStream).\<close>

definition ILibWebServer_OnReceive_WebSocket ::
  "byte list \<Rightarrow> ILibWebServer_Session_SystemData \<Rightarrow> (ILibWebServer_Session_SystemData \<times> session_event list \<times> nat) option" where
  "ILibWebServer_OnReceive_WebSocket buffer s = ILibWebServer_ProcessWebSocketData buffer 0 (length buffer) s"

fun session_closes :: "session_event \<Rightarrow> bool" where
  "session_closes SessionDisconnected = True"
| "session_closes (ProcessExit n) = True"
| "session_closes _ = False"

abbreviation session_drain ::
  "byte list \<Rightarrow> ILibWebServer_Session_SystemData \<Rightarrow> (ILibWebServer_Session_SystemData \<times> session_event list \<times> byte list \<times> bool) option" where
  "session_drain \<equiv> async_drain ILibWebServer_OnReceive_WebSocket session_closes"

abbreviation session_receives ::
  "byte list list \<Rightarrow> ILibWebServer_Session_SystemData \<times> byte list \<times> bool
     \<Rightarrow> ((ILibWebServer_Session_SystemData \<times> byte list \<times> bool) \<times> session_event list) option" where
  "session_receives \<equiv> async_receives ILibWebServer_OnReceive_WebSocket session_closes"

end
