(* ===== verification/WebSocketFrames.thy ===== *)
theory WebSocketFrames
  imports WebSocket
begin

text \<open>
  What a frame looks like to the receiver: the header, the mask, and the reading of one frame from the front of the bytes that arrived.
\<close>

unbundle bit_operations_syntax

section \<open>Header words\<close>

lemma masks: "WEBSOCKET_FIN = push_bit 15 1" "WEBSOCKET_OPCODE = push_bit 8 (mask 4)" "WEBSOCKET_MASK = push_bit 7 1"
  "WEBSOCKET_PLEN = mask 7"
  by (simp_all add: WEBSOCKET_defs mask_eq_exp_minus_1)

lemma bit_masks: "bit WEBSOCKET_FIN i \<longleftrightarrow> i = 15" "bit WEBSOCKET_MASK i \<longleftrightarrow> i = 7"
  "bit WEBSOCKET_OPCODE i \<longleftrightarrow> 8 \<le> i \<and> i < 12" "bit WEBSOCKET_PLEN i \<longleftrightarrow> i < 7"
  unfolding masks bit_push_bit_iff bit_1_iff bit_mask_iff by auto

definition flags :: "bool \<Rightarrow> bool \<Rightarrow> u16" where
  "flags m f = (if m then WEBSOCKET_MASK else 0) OR (if f then WEBSOCKET_FIN else 0)"

lemma bit_small: "n < 2 ^ k \<Longrightarrow> bit (of_nat n :: 'a :: len word) i \<Longrightarrow> i < k"
proof (rule ccontr)
  assume n: "n < 2 ^ k" "bit (of_nat n :: 'a word) i" "\<not> i < k"
  then have "bit n i" by (simp add: bit_simps)
  moreover have "\<not> bit n i"
    using n(1,3) by (metis bit_take_bit_iff linorder_not_le not_less take_bit_nat_eq_self)
  ultimately show False by simp
qed

lemma header_word:
  fixes m f :: bool
  assumes "op < 16" "l < 128"
  defines "w \<equiv> (push_bit 8 (of_nat op) OR flags m f) OR (of_nat l :: u16)"
  shows "(w AND WEBSOCKET_FIN \<noteq> 0) = f" "unat (drop_bit 8 (w AND WEBSOCKET_OPCODE)) = op"
    "(w AND WEBSOCKET_MASK \<noteq> 0) = m" "unat (w AND WEBSOCKET_PLEN) = l"
proof -
  have op: "bit (of_nat op :: u16) i \<Longrightarrow> i < 4" for i using assms(1) bit_small [of op 4] by simp
  have l: "bit (of_nat l :: u16) i \<Longrightarrow> i < 7" for i using assms(2) bit_small [of l 7] by simp
  have fl: "bit (flags m f) i \<longleftrightarrow> m \<and> i = 7 \<or> f \<and> i = 15" for i
    by (auto simp: flags_def bit_masks bit_or_iff)
  have w: "bit w i \<longleftrightarrow> i < 16 \<and> (8 \<le> i \<and> bit (of_nat op :: u16) (i - 8) \<or> m \<and> i = 7 \<or> f \<and> i = 15 \<or> bit (of_nat l :: u16) i)" for i
    using fl [of i] l [of i] by (auto simp: w_def bit_or_iff bit_push_bit_iff)
  have "w AND WEBSOCKET_FIN = (if f then WEBSOCKET_FIN else 0)"
    by (rule bit_eqI) (use op [of 7] l [of 15] l [of 7] op l in \<open>auto simp: bit_and_iff w bit_masks\<close>)
  then show "(w AND WEBSOCKET_FIN \<noteq> 0) = f" by (simp add: WEBSOCKET_defs)
  have "w AND WEBSOCKET_MASK = (if m then WEBSOCKET_MASK else 0)"
    by (rule bit_eqI) (use op [of 7] l [of 15] l [of 7] op l in \<open>auto simp: bit_and_iff w bit_masks\<close>)
  then show "(w AND WEBSOCKET_MASK \<noteq> 0) = m" by (simp add: WEBSOCKET_defs)
  have "w AND WEBSOCKET_PLEN = of_nat l"
    by (rule bit_eqI) (use op [of 7] l [of 15] l [of 7] op l in \<open>auto simp: bit_and_iff w bit_masks\<close>)
  then show "unat (w AND WEBSOCKET_PLEN) = l" using assms(2) by (simp add: unat_of_nat)
  have "drop_bit 8 (w AND WEBSOCKET_OPCODE) = of_nat op"
  proof (rule bit_eqI)
    show "bit (drop_bit 8 (w AND WEBSOCKET_OPCODE)) i = bit (of_nat op :: u16) i" for i
      using op [of i] l [of "8 + i"] by (auto simp: bit_and_iff bit_drop_bit_eq w bit_masks)
  qed
  then show "unat (drop_bit 8 (w AND WEBSOCKET_OPCODE)) = op" using assms(1) by (simp add: unat_of_nat)
qed

lemma read16_htons16: "read16 (htons16 w @ xs) 0 = Some w" "length xs = n \<Longrightarrow> read16 (xs @ htons16 w @ ys) n = Some w"
proof -
  have "push_bit 8 (ucast (ucast (drop_bit 8 w) :: byte)) OR ucast (ucast w :: byte) = w"
    by (rule bit_eqI) (auto simp: bit_simps dest: bit_imp_le_length)
  then show "read16 (htons16 w @ xs) 0 = Some w" "length xs = n \<Longrightarrow> read16 (xs @ htons16 w @ ys) n = Some w"
    by (auto simp: read16_def htons16_def rd_def nth_append)
qed

section \<open>Bytes in network order\<close>

lemma length_be_bytes [simp]: "length (be_bytes n v) = n"
  by (induction n) simp_all

lemma be_val_bytes: "be_val (be_bytes n v) = v mod 256 ^ n"
proof (induction n)
  case (Suc n)
  have "unat (of_nat (v div 256 ^ n) :: byte) = v div 256 ^ n mod 256" by (simp add: unat_of_nat)
  then have "be_val (be_bytes (Suc n) v) = 256 ^ n * (v div 256 ^ n mod 256) + v mod 256 ^ n" using Suc by simp
  also have "\<dots> = v mod (256 ^ n * 256)" by (simp add: mod_mult2_eq)
  finally show ?case by (simp add: mult.commute)
qed simp

lemma NTOHLL_HTONLL: "v < 2 ^ 64 \<Longrightarrow> ILibNTOHLL (ILibHTONLL v) = v"
  by (simp add: ILibNTOHLL_def ILibHTONLL_def be_val_bytes)

lemma length_HTONLL [simp]: "length (ILibHTONLL v) = 8"
  by (simp add: ILibHTONLL_def)

section \<open>Frames\<close>

text \<open>\<open>frame_bytes m f op d\<close>: a frame with a mask \<open>m\<close> (if any), the final bit, the opcode and the payload as it is sent.\<close>

definition frame_bytes :: "byte list option \<Rightarrow> bool \<Rightarrow> nat \<Rightarrow> byte list \<Rightarrow> byte list" where
  "frame_bytes k f op d = ILibWebServer_WebSocket_CreateHeader (flags (k \<noteq> None) f) op (length d)
     @ (case k of None \<Rightarrow> d | Some k \<Rightarrow> k @ mask_payload k d)"

definition header_length :: "nat \<Rightarrow> nat" where
  "header_length n = (if n < 126 then 2 else if n \<le> 0xFFFF then 4 else 10)"

lemma length_htons16 [simp]: "length (htons16 w) = 2"
  by (simp add: htons16_def)

lemma length_CreateHeader: "length (ILibWebServer_WebSocket_CreateHeader fl op n) = header_length n"
  by (simp add: ILibWebServer_WebSocket_CreateHeader_def header_length_def Let_def)

text \<open>What the receiver reads from a header: the word, and the length with the position of what follows.\<close>

lemma CreateHeader_read:
  assumes "op < 16" "n \<le> INT32_MAX"
  obtains w where "read16 (ILibWebServer_WebSocket_CreateHeader (flags m f) op n @ xs) 0 = Some w"
    "(w AND WEBSOCKET_FIN \<noteq> 0) = f" "unat (drop_bit 8 (w AND WEBSOCKET_OPCODE)) = op" "(w AND WEBSOCKET_MASK \<noteq> 0) = m"
    "\<And>len. header_length n \<le> len \<Longrightarrow>
       ws_plen (ILibWebServer_WebSocket_CreateHeader (flags m f) op n @ xs) 0 len w = Some (Inr (n, header_length n))"
proof -
  let ?h = "push_bit 8 (of_nat op) OR flags m f"
  consider "n < 126" | "126 \<le> n" "n \<le> 0xFFFF" | "0xFFFF < n" by linarith
  then show thesis
  proof cases
    case 1
    note w = header_word [OF assms(1), of n m f]
    show thesis
      by (rule that [of "?h OR of_nat n"])
        (use 1 w in \<open>simp_all add: ILibWebServer_WebSocket_CreateHeader_def Let_def read16_htons16 ws_plen_def header_length_def\<close>)
  next
    case 2
    note w = header_word [OF assms(1), of 126 m f]
    have "unat (of_nat n :: u16) = n" using 2 by (simp add: unat_of_nat)
    moreover have "read16 (htons16 (?h OR 126) @ htons16 (of_nat n) @ xs) (0 + 2) = Some (of_nat n)"
      by (rule read16_htons16(2)) simp
    ultimately show thesis
      by (intro that [of "?h OR 126"])
        (use 2 w in \<open>simp_all add: ILibWebServer_WebSocket_CreateHeader_def Let_def read16_htons16 ws_plen_def header_length_def\<close>)
  next
    case 3
    note w = header_word [OF assms(1), of 127 m f]
    have "slice (htons16 (?h OR 127) @ ILibHTONLL n @ xs) (0 + 2) 8 = ILibHTONLL n" by (simp add: slice_def)
    moreover have "ILibNTOHLL (ILibHTONLL n) = n" using assms(2) by (intro NTOHLL_HTONLL) (simp add: INT32_MAX_def)
    ultimately show thesis
      by (intro that [of "?h OR 127"])
        (use 3 w assms(2) in \<open>simp_all add: ILibWebServer_WebSocket_CreateHeader_def Let_def read16_htons16 ws_plen_def header_length_def\<close>)
  qed
qed

text \<open>The mask: four bytes at a time is byte by byte, and masking twice is nothing.\<close>

lemma write32_read32:
  assumes "length c = 4"
  shows "write32 (read32 c) = c"
proof -
  obtain c0 c1 c2 c3 where c: "c = [c0, c1, c2, c3]" using assms by (auto simp: numeral_eq_Suc length_Suc_conv)
  have n: "c ! 0 = c0" "c ! 1 = c1" "c ! 2 = c2" "c ! 3 = c3" by (simp_all add: c)
  let ?w = "ucast c0 OR push_bit 8 (ucast c1) OR push_bit 16 (ucast c2) OR push_bit 24 (ucast c3) :: u32"
  have b: "\<not> bit x i" if "8 \<le> i" for x :: byte and i using that bit_imp_le_length [of x i] by auto
  have "ucast ?w = c0"
    by (rule bit_word_eqI) (simp add: bit_simps)
  moreover have "ucast (drop_bit 8 ?w) = c1"
    by (rule bit_word_eqI) (simp add: bit_simps b)
  moreover have "ucast (drop_bit 16 ?w) = c2"
    by (rule bit_word_eqI) (simp add: bit_simps b)
  moreover have "ucast (drop_bit 24 ?w) = c3"
    by (rule bit_word_eqI) (simp add: bit_simps b)
  ultimately show ?thesis unfolding write32_def read32_def n by (simp add: c)
qed

lemma write32_xor: "write32 (x XOR y) = map2 (XOR) (write32 x) (write32 y)"
  by (simp add: write32_def unsigned_xor_eq drop_bit_xor)

lemma mask_block: "length k = 4 \<Longrightarrow> length b = 4 \<Longrightarrow> write32 (read32 b XOR read32 k) = map2 (XOR) b k"
  by (simp add: write32_xor write32_read32)

lemma mask_payload_bytes:
  assumes "length k = 4"
  shows "mask_payload k d = map (\<lambda>x. xor_key k x (d ! x)) [0..<length d]"
proof -
  have "concat (map (\<lambda>x. write32 (read32 (slice d (4 * x) 4) XOR read32 k)) [0..<n]) = map (\<lambda>x. xor_key k x (d ! x)) [0..<4 * n]"
    if "n \<le> length d div 4" for n
    using that
  proof (induction n)
    case (Suc n)
    then have n: "4 * n + 4 \<le> length d" by simp
    have "map2 (XOR) (slice d (4 * n) 4) k = map (\<lambda>x. xor_key k x (d ! x)) [4 * n..<4 * n + 4]"
      by (rule nth_equalityI) (use n assms in \<open>auto simp: xor_key_def slice_nth\<close>)
    then have "write32 (read32 (slice d (4 * n) 4) XOR read32 k) = map (\<lambda>x. xor_key k x (d ! x)) [4 * n..<4 * n + 4]"
      using mask_block [OF assms, of "slice d (4 * n) 4"] n by simp
    moreover have "[0..<4 * Suc n] = [0..<4 * n] @ [4 * n..<4 * n + 4]"
      using upt_add_eq_append [of 0 "4 * n" 4] by (simp add: add.commute)
    ultimately show ?case using Suc by simp
  qed simp
  then have "mask_payload k d = map (\<lambda>x. xor_key k x (d ! x)) ([0..<4 * (length d div 4)] @ [4 * (length d div 4)..<length d])"
    by (simp add: mask_payload_def Let_def)
  also have "[0..<4 * (length d div 4)] @ [4 * (length d div 4)..<length d] = [0..<length d]"
    using upt_add_eq_append [of 0 "4 * (length d div 4)" "length d - 4 * (length d div 4)"] by simp
  finally show ?thesis .
qed

lemma length_mask_payload [simp]: "length k = 4 \<Longrightarrow> length (mask_payload k d) = length d"
  by (simp add: mask_payload_bytes)

lemma unmask: "length k = 4 \<Longrightarrow> map (\<lambda>x. xor_key k x (mask_payload k d ! x)) [0..<length d] = d"
  by (rule nth_equalityI) (simp_all add: mask_payload_bytes xor_key_def xor.assoc)

definition key_ok :: "byte list option \<Rightarrow> bool" where
  "key_ok k \<longleftrightarrow> (case k of None \<Rightarrow> True | Some k \<Rightarrow> length k = 4)"

definition frame_length :: "byte list option \<Rightarrow> nat \<Rightarrow> nat" where
  "frame_length k n = header_length n + (if k = None then 0 else 4) + n"

lemma length_frame_bytes: "key_ok k \<Longrightarrow> length (frame_bytes k f op d) = frame_length k (length d)"
  by (auto simp: frame_bytes_def frame_length_def length_CreateHeader key_ok_def split: option.split)

text \<open>A whole frame at the front of the buffer is taken from it, whatever follows.\<close>

lemma read_frame_bytes:
  assumes "op < 16" "key_ok k" "frame_length k (length d) \<le> INT32_MAX"
  shows "ws_read_frame (frame_bytes k f op d @ rest) 0 (length (frame_bytes k f op d @ rest))
    = Some (Inr (f, op, d, frame_length k (length d)))"
proof -
  let ?n = "length d"
  define b where "b = (case k of None \<Rightarrow> d | Some k \<Rightarrow> k @ mask_payload k d)"
  define B where "B = ILibWebServer_WebSocket_CreateHeader (flags (k \<noteq> None) f) op ?n @ (b @ rest)"
  have B: "frame_bytes k f op d @ rest = B" by (simp add: frame_bytes_def B_def b_def)
  have n: "?n \<le> INT32_MAX" using assms(3) by (simp add: frame_length_def)
  obtain w where w: "read16 B 0 = Some w"
    "(w AND WEBSOCKET_FIN \<noteq> 0) = f" "unat (drop_bit 8 (w AND WEBSOCKET_OPCODE)) = op" "(w AND WEBSOCKET_MASK \<noteq> 0) = (k \<noteq> None)"
    "\<And>len. header_length ?n \<le> len \<Longrightarrow> ws_plen B 0 len w = Some (Inr (?n, header_length ?n))"
    unfolding B_def by (rule CreateHeader_read [OF assms(1) n, of "k \<noteq> None" f "b @ rest"]) blast
  have len: "length B = frame_length k ?n + length rest"
    using length_frame_bytes [OF assms(2), of f op d] B [symmetric] by simp
  have h2: "2 \<le> header_length ?n" by (simp add: header_length_def)
  have drop: "drop (header_length ?n) B = b @ rest"
    by (simp add: B_def length_CreateHeader)
  have w5: "ws_plen B 0 (length B) w = Some (Inr (?n, header_length ?n))" using w(5) len by (simp add: frame_length_def)
  show ?thesis
  proof (cases k)
    case None
    have "slice B (header_length ?n) ?n = d" using drop None by (simp add: slice_def b_def)
    then show ?thesis
      unfolding B ws_read_frame_def
      using w(1-4) w5 h2 len assms(3) None by (simp add: Let_def frame_length_def)
  next
    case (Some key)
    then have key: "length key = 4" using assms(2) by (simp add: key_ok_def)
    have "slice B (header_length ?n) 4 = key" using drop Some key by (simp add: slice_def b_def)
    moreover have "slice B (header_length ?n + 4) ?n = mask_payload key d"
    proof -
      have "drop (header_length ?n + 4) B = drop 4 (b @ rest)" using drop by (metis add.commute drop_drop)
      then show ?thesis using Some key by (simp add: slice_def b_def)
    qed
    ultimately have "map (\<lambda>x. xor_key (slice B (header_length ?n) 4) x (slice B (header_length ?n + 4) ?n ! x)) [0..<?n] = d"
      using unmask [OF key] by simp
    then show ?thesis
      unfolding B ws_read_frame_def
      using w(1-4) w5 h2 len assms(3) Some by (simp add: Let_def frame_length_def)
  qed
qed

lemma Process_frame:
  assumes "op < 16" "key_ok k" "frame_length k (length d) \<le> INT32_MAX"
  shows "ILibWebClient_ProcessWebSocketData (frame_bytes k f op d @ rest) 0 (length (frame_bytes k f op d @ rest)) (Some st) =
    (if op < 8 then map_option (\<lambda>(st, es). (Some st, es, frame_length k (length d))) (ws_data f op d st)
     else Some (Some st, ws_control op st, frame_length k (length d)))"
  unfolding ILibWebClient_ProcessWebSocketData_def option.case read_frame_bytes [OF assms] by simp

end
