(* ===== verification/WebSocketChunks.thy ===== *)
theory WebSocketChunks
  imports WebSocketFrames
begin

text \<open>
  The stream of bytes: a frame is read the same way whatever follows it, so the client is a \<open>strict_reader\<close> and its events do
  not depend on how the network cuts the bytes into reads.
\<close>

unbundle bit_operations_syntax

section \<open>Reading with more bytes behind\<close>

lemma read16_append: "i + 2 \<le> length b \<Longrightarrow> read16 (b @ c) i = read16 b i \<and> read16 b i \<noteq> None"
  by (simp add: read16_def rd_def nth_append)

lemma slice_append_in: "i + n \<le> length b \<Longrightarrow> slice (b @ c) i n = slice b i n"
  by (simp add: slice_def)

lemma ws_plen_append:
  assumes "ws_plen b 0 (length b) w = r" "r \<noteq> Some (Inl False)"
  shows "ws_plen (b @ c) 0 (length (b @ c)) w = r \<and> r \<noteq> None"
proof -
  have 4: "4 \<le> length b \<Longrightarrow> read16 (b @ c) (0 + 2) = read16 b (0 + 2) \<and> read16 b (0 + 2) \<noteq> None" using read16_append [of "0 + 2" b c] by simp
  have 10: "10 \<le> length b \<Longrightarrow> slice (b @ c) (0 + 2) 8 = slice b (0 + 2) 8" by (rule slice_append_in) simp
  show ?thesis using assms 4 10 by (auto simp: ws_plen_def Let_def split: if_splits)
qed

text \<open>More bytes behind: the reader waits for them, or reads the same frame.\<close>

lemma read_frame_append:
  "ws_read_frame b 0 (length b) = Some (Inl False)
   \<or> ws_read_frame (b @ c) 0 (length (b @ c)) = ws_read_frame b 0 (length b)
     \<and> (\<forall>f op d n. ws_read_frame b 0 (length b) = Some (Inr (f, op, d, n)) \<longrightarrow> n \<noteq> 0 \<and> n \<le> length b)"
proof (cases "length b < 2")
  case True
  then show ?thesis by (simp add: ws_read_frame_def)
next
  case False
  then obtain w where w: "read16 b 0 = Some w" "read16 (b @ c) 0 = Some w" using read16_append [of 0 b c] by auto
  show ?thesis
  proof (cases "ws_plen b 0 (length b) w = Some (Inl False)")
    case True
    then show ?thesis using False w by (simp add: ws_read_frame_def Let_def)
  next
    case f: False
    from ws_plen_append [OF HOL.refl f, of c] obtain x where x: "ws_plen b 0 (length b) w = Some x"
      "ws_plen (b @ c) 0 (length (b @ c)) w = Some x" by auto
    show ?thesis
    proof (cases x)
      case (Inl y)
      then show ?thesis using False w x by (simp add: ws_read_frame_def Let_def)
    next
      case (Inr y)
      obtain plen i where y: "y = (plen, i)" by (cases y)
      have i: "2 \<le> i" using x(1) Inr y by (auto simp: ws_plen_def Let_def split: if_splits)
      let ?m = "if w AND WEBSOCKET_MASK \<noteq> 0 then 4 else 0 :: nat"
      consider "i + plen > INT32_MAX \<or> i + plen + ?m > INT32_MAX"
        | "\<not> (i + plen > INT32_MAX \<or> i + plen + ?m > INT32_MAX)" "length b < i + plen + ?m"
        | "\<not> (i + plen > INT32_MAX \<or> i + plen + ?m > INT32_MAX)" "i + plen + ?m \<le> length b" by linarith
      then show ?thesis
      proof cases
        case 1
        then show ?thesis using False w x Inr y by (auto simp: ws_read_frame_def Let_def)
      next
        case 2
        then show ?thesis using False w x Inr y by (auto simp: ws_read_frame_def Let_def)
      next
        case 3
        then have sl: "slice (b @ c) i plen = slice b i plen"
          "w AND WEBSOCKET_MASK \<noteq> 0 \<Longrightarrow> slice (b @ c) i 4 = slice b i 4 \<and> slice (b @ c) (i + 4) plen = slice b (i + 4) plen"
          by (auto intro!: slice_append_in)
        have "ws_read_frame (b @ c) 0 (length (b @ c)) = ws_read_frame b 0 (length b)"
          using False w x Inr y 3 sl by (auto simp: ws_read_frame_def Let_def)
        moreover have "n \<noteq> 0 \<and> n \<le> length b" if "ws_read_frame b 0 (length b) = Some (Inr (f, op, d, n))" for f op d n
          using that False w x Inr y 3 i by (auto simp: ws_read_frame_def Let_def split: if_splits)
        ultimately show ?thesis by blast
      qed
    qed
  qed
qed

lemma data_no_disconnect: "ws_data f op d st = Some (st', es) \<Longrightarrow> WsDisconnect \<notin> set es"
  by (auto simp: ws_data_def Let_def split: if_splits)

section \<open>The client as a reader of a stream\<close>

interpretation client: strict_reader ILibWebClient_OnWebSocketData ws_closes
proof
  fix b c :: "byte list" and s s' :: "ILibWebClient_WebSocketState option" and es
  let ?r = "ws_read_frame b 0 (length b)"
  note defs = ILibWebClient_OnWebSocketData_def ILibWebClient_ProcessWebSocketData_def
  consider "s = None" | st where "s = Some st" "?r = Some (Inl False)"
    | st where "s = Some st" "ws_read_frame (b @ c) 0 (length (b @ c)) = ?r"
        "\<forall>f op d n. ?r = Some (Inr (f, op, d, n)) \<longrightarrow> n \<noteq> 0 \<and> n \<le> length b"
    using read_frame_append [of b c] by (cases s) auto
  note cs = this
  from cs show "ILibWebClient_OnWebSocketData b s = Some (s, [], 0)
      \<or> ILibWebClient_OnWebSocketData (b @ c) s = ILibWebClient_OnWebSocketData b s
        \<and> (\<forall>s' es n. ILibWebClient_OnWebSocketData b s = Some (s', es, n) \<longrightarrow> n \<le> length b)
      \<or> (\<exists>s' es n. ILibWebClient_OnWebSocketData (b @ c) s = Some (s', es, n) \<and> list_ex ws_closes es
        \<and> (ILibWebClient_OnWebSocketData b s = None \<or> (\<exists>n'. ILibWebClient_OnWebSocketData b s = Some (s', es, n'))))"
  proof cases
    case 3
    then show ?thesis
      by (cases ?r) (auto simp: defs split: sum.splits if_splits option.splits)
  qed (simp_all add: defs)
  show "s' = s \<and> es = []" if "ILibWebClient_OnWebSocketData b s = Some (s', es, 0)" "\<not> list_ex ws_closes es"
    using that read_frame_append [of b "[]"]
    by (auto simp: defs split: option.splits Option.bind_splits if_splits sum.splits)
  show "ILibWebClient_OnWebSocketData (b @ c) s = None" if "ILibWebClient_OnWebSocketData b s = None"
    using cs
  proof cases
    case 3
    then show ?thesis using that
      by (cases ?r) (auto simp: defs split: sum.splits if_splits)
  qed (use that in \<open>simp_all add: defs\<close>)
qed

end
