(* ===== verification/WebSocketMessages.thy ===== *)
theory WebSocketMessages
  imports WebSocketChunks
begin

text \<open>
  Messages of the WebSocket protocol as a peer sends them, and the locale \<open>message_reader\<close> of what the two ends of a connection do with them:
  a reader of the stream that keeps or hands out the data frames of a message, and answers pings between them, gives the user
  every message once and complete.
\<close>

section \<open>Messages in frames\<close>

text \<open>
  A message as a peer sends it: data frames, the first with the opcode and the last with the final bit, and pings between
  them.  Frames may be masked.
\<close>

datatype ws_item = Piece "byte list option" "byte list" | Ping_frame "byte list option" "byte list"

fun ws_encode :: "nat \<Rightarrow> ws_item list \<Rightarrow> byte list option \<Rightarrow> byte list \<Rightarrow> byte list" where
  "ws_encode op [] k d = frame_bytes k True op d"
| "ws_encode op (Piece j p # is) k d = frame_bytes j False op p @ ws_encode 0 is k d"
| "ws_encode op (Ping_frame j p # is) k d = frame_bytes j True WEBSOCKET_OPCODE_PING p @ ws_encode op is k d"

fun pieces :: "ws_item list \<Rightarrow> byte list list" where
  "pieces [] = []"
| "pieces (Piece k p # is) = p # pieces is"
| "pieces (Ping_frame k p # is) = pieces is"

definition frame_ok :: "byte list option \<Rightarrow> byte list \<Rightarrow> bool" where
  "frame_ok k d \<longleftrightarrow> key_ok k \<and> frame_length k (length d) \<le> INT32_MAX"

fun item_ok :: "ws_item \<Rightarrow> bool" where
  "item_ok (Piece k p) = frame_ok k p"
| "item_ok (Ping_frame k p) = frame_ok k p"

lemma frame_bytes_ne [simp]: "frame_bytes k f op d \<noteq> []"
proof -
  have "0 < length (frame_bytes k f op d)" by (simp add: frame_bytes_def length_CreateHeader header_length_def)
  then show ?thesis by blast
qed

lemma frame_length_pos: "frame_length k n \<noteq> 0"
  by (simp add: frame_length_def header_length_def)

section \<open>Readers of messages\<close>

text \<open>
  \<open>mid s p c\<close>: in the state \<open>s\<close> the bytes \<open>p\<close> of a message wait, and if \<open>c\<close>, parts of it were given to the user.  The user gets a message \<open>whole\<close>,
  or a \<open>part\<close> after the other and the \<open>end_part\<close>; messages of up to \<open>limit s\<close> bytes are given whole.  The reader takes frames of a
  message in several frames when they have \<open>fits\<close>.
\<close>

locale message_reader = stream_reader P closes
  for P :: "byte list \<Rightarrow> 's \<Rightarrow> ('s \<times> 'e list \<times> nat) option" and closes :: "'e \<Rightarrow> bool" +
  fixes mid :: "'s \<Rightarrow> byte list \<Rightarrow> bool \<Rightarrow> bool"
    and limit :: "'s \<Rightarrow> nat"
    and fits :: "byte list \<Rightarrow> bool"
    and part :: "byte list \<Rightarrow> 'e" and end_part :: "byte list \<Rightarrow> 'e" and whole :: "byte list \<Rightarrow> 'e"
    and is_data :: "'e \<Rightarrow> bool" and control :: "'e \<Rightarrow> bool"
  assumes data_frame: "mid s p c \<Longrightarrow> op < 8 \<Longrightarrow> frame_ok k d \<Longrightarrow> fits d \<Longrightarrow> \<exists>s' qs p' c'.
      (\<forall>rest. P (frame_bytes k False op d @ rest) s = Some (s', map part qs, frame_length k (length d)))
      \<and> mid s' p' c' \<and> limit s' = limit s \<and> concat qs @ p' = p @ d \<and> (\<not> c' \<longrightarrow> \<not> c \<and> qs = [])
      \<and> (length (p @ d) \<le> limit s \<longrightarrow> c' = c)"
    and last_frame: "mid s p c \<Longrightarrow> op < 8 \<Longrightarrow> frame_ok k d \<Longrightarrow> fits d \<or> p = [] \<and> \<not> c \<Longrightarrow> \<exists>s' qs q c'.
      (\<forall>rest. P (frame_bytes k True op d @ rest) s
         = Some (s', map part qs @ [(if c' then end_part else whole) q], frame_length k (length d)))
      \<and> mid s' [] False \<and> limit s' = limit s \<and> concat qs @ q = p @ d \<and> (\<not> c' \<longrightarrow> \<not> c \<and> qs = [])
      \<and> (length (p @ d) \<le> limit s \<or> p = [] \<longrightarrow> c' = c)"
    and ping_frame: "mid s p c \<Longrightarrow> frame_ok k d \<Longrightarrow> \<exists>s' es.
      (\<forall>rest. P (frame_bytes k True WEBSOCKET_OPCODE_PING d @ rest) s = Some (s', es, frame_length k (length d)))
      \<and> mid s' p c \<and> limit s' = limit s \<and> list_all control es"
    and controls: "control e \<Longrightarrow> \<not> closes e \<and> \<not> is_data e"
    and data: "is_data (part d)" "is_data (end_part d)" "is_data (whole d)" "is_data e \<Longrightarrow> \<not> closes e"
begin

text \<open>The message \<open>concat qs @ q\<close> as the user gets it.\<close>

definition delivery :: "bool \<Rightarrow> byte list list \<Rightarrow> byte list \<Rightarrow> 'e list" where
  "delivery c qs q = map part qs @ [(if c then end_part else whole) q]"

lemma filter_parts [simp]: "filter is_data (map part qs) = map part qs" "filter is_data (delivery c qs q) = delivery c qs q"
  by (simp_all add: delivery_def data filter_id_conv)

lemma filter_control [simp]: "list_all control es \<Longrightarrow> filter is_data es = []"
  using controls by (auto simp: filter_empty_conv list_all_iff)

text \<open>Nothing of it ends the connection, so that the loop goes on behind the frame.\<close>

lemma drain_frame:
  assumes "\<forall>rest. P (frame_bytes k f op d @ rest) s = Some (s', es, frame_length k (length d))"
    "list_all (\<lambda>e. control e \<or> is_data e) es" "frame_ok k d"
  shows "async_drain P closes (frame_bytes k f op d @ rest) s = prepend es (async_drain P closes rest s')"
proof -
  have "\<not> list_ex closes es" using assms(2) controls data(4) by (auto simp: list_ex_iff list_all_iff)
  then show ?thesis
    using drain_step [of P "frame_bytes k f op d @ rest" s s' es "frame_length k (length d)" closes] assms(1,3)
      frame_length_pos [of k "length d"] length_frame_bytes [of k f op d] by (simp add: frame_ok_def)
qed

lemma drain_message:
  assumes "mid s p c" "op < 8" "list_all item_ok is" "frame_ok k d" "list_all fits (pieces is)"
    "fits d \<or> p = [] \<and> \<not> c \<and> pieces is = []"
  shows "\<exists>s' es qs q c'. async_drain P closes (ws_encode op is k d @ rest) s = prepend es (async_drain P closes rest s')
    \<and> mid s' [] False \<and> limit s' = limit s \<and> list_all (\<lambda>e. control e \<or> is_data e) es
    \<and> filter is_data es = delivery c' qs q \<and> concat qs @ q = p @ concat (pieces is) @ d
    \<and> (\<not> c' \<longrightarrow> \<not> c \<and> qs = [])
    \<and> (length (p @ concat (pieces is) @ d) \<le> limit s \<or> p = [] \<and> pieces is = [] \<longrightarrow> c' = c)"
  using assms
proof (induction "is" arbitrary: s p c op)
  case Nil
  have "fits d \<or> p = [] \<and> \<not> c" using Nil.prems(6) by auto
  then obtain s' qs q c' where s: "\<forall>rest. P (frame_bytes k True op d @ rest) s = Some (s', delivery c' qs q, frame_length k (length d))"
    "mid s' [] False" "limit s' = limit s" "concat qs @ q = p @ d" "\<not> c' \<longrightarrow> \<not> c \<and> qs = []"
    "length (p @ d) \<le> limit s \<or> p = [] \<longrightarrow> c' = c"
    using last_frame [OF Nil.prems(1,2,4)] unfolding delivery_def by blast
  have l: "list_all (\<lambda>e. control e \<or> is_data e) (delivery c' qs q)" by (auto simp: delivery_def list_all_iff data)
  show ?case using drain_frame [OF s(1) l Nil.prems(4)] s l
    by (intro exI [of _ s'] exI [of _ "delivery c' qs q"] exI [of _ qs] exI [of _ q] exI [of _ c']) auto
next
  case (Cons i "is")
  show ?case
  proof (cases i)
    case (Ping_frame j x)
    have ok: "frame_ok j x" "list_all item_ok is" "list_all fits (pieces is)" "fits d \<or> p = [] \<and> \<not> c \<and> pieces is = []"
      using Cons.prems(3,5,6) Ping_frame by auto
    obtain s1 es1 where 1: "\<forall>rest. P (frame_bytes j True WEBSOCKET_OPCODE_PING x @ rest) s = Some (s1, es1, frame_length j (length x))"
      "mid s1 p c" "limit s1 = limit s" "list_all control es1"
      using ping_frame [OF Cons.prems(1) ok(1)] by blast
    obtain s' es qs q c' where s: "async_drain P closes (ws_encode op is k d @ rest) s1 = prepend es (async_drain P closes rest s')"
      "mid s' [] False" "limit s' = limit s1" "list_all (\<lambda>e. control e \<or> is_data e) es"
      "filter is_data es = delivery c' qs q" "concat qs @ q = p @ concat (pieces is) @ d" "\<not> c' \<longrightarrow> \<not> c \<and> qs = []"
      "length (p @ concat (pieces is) @ d) \<le> limit s1 \<or> p = [] \<and> pieces is = [] \<longrightarrow> c' = c"
      using Cons.IH [OF 1(2) Cons.prems(2) ok(2) Cons.prems(4) ok(3,4)] by blast
    have l: "list_all (\<lambda>e. control e \<or> is_data e) es1" using 1(4) by (auto simp: list_all_iff)
    have "async_drain P closes (ws_encode op (i # is) k d @ rest) s = prepend (es1 @ es) (async_drain P closes rest s')"
      using drain_frame [OF 1(1) l ok(1), of "ws_encode op is k d @ rest"] s(1) Ping_frame by (simp add: prepend_prepend)
    then show ?thesis using s(2-8) 1(3,4) l Ping_frame
      by (intro exI [of _ s'] exI [of _ "es1 @ es"] exI [of _ qs] exI [of _ q] exI [of _ c']) auto
  next
    case (Piece j x)
    have ok: "frame_ok j x" "list_all item_ok is" "fits x" "list_all fits (pieces is)" "fits d" using Cons.prems(3,5,6) Piece by auto
    have zero: "(0 :: nat) < 8" by simp
    obtain s1 qs1 p1 c1 where 1: "\<forall>rest. P (frame_bytes j False op x @ rest) s = Some (s1, map part qs1, frame_length j (length x))"
      "mid s1 p1 c1" "limit s1 = limit s" "concat qs1 @ p1 = p @ x" "\<not> c1 \<longrightarrow> \<not> c \<and> qs1 = []"
      "length (p @ x) \<le> limit s \<longrightarrow> c1 = c"
      using data_frame [OF Cons.prems(1,2) ok(1,3)] by blast
    have "fits d \<or> p1 = [] \<and> \<not> c1 \<and> pieces is = []" using ok(5) by simp
    then obtain s' es qs q c' where s: "async_drain P closes (ws_encode 0 is k d @ rest) s1 = prepend es (async_drain P closes rest s')"
      "mid s' [] False" "limit s' = limit s1" "list_all (\<lambda>e. control e \<or> is_data e) es"
      "filter is_data es = delivery c' qs q" "concat qs @ q = p1 @ concat (pieces is) @ d" "\<not> c' \<longrightarrow> \<not> c1 \<and> qs = []"
      "length (p1 @ concat (pieces is) @ d) \<le> limit s1 \<or> p1 = [] \<and> pieces is = [] \<longrightarrow> c' = c1"
      using Cons.IH [OF 1(2) zero ok(2) Cons.prems(4) ok(4)] by blast
    let ?es = "map part qs1 @ es"
    have l: "list_all (\<lambda>e. control e \<or> is_data e) (map part qs1)" by (simp add: list_all_iff data)
    have "async_drain P closes (ws_encode op (i # is) k d @ rest) s = prepend ?es (async_drain P closes rest s')"
      using drain_frame [OF 1(1) l ok(1), of "ws_encode 0 is k d @ rest"] s(1) Piece by (simp add: prepend_prepend)
    moreover have "filter is_data ?es = delivery c' (qs1 @ qs) q" using s(5) by (simp add: delivery_def)
    moreover have "concat (qs1 @ qs) @ q = p @ concat (pieces (i # is)) @ d"
      using s(6) 1(4) Piece by (simp flip: append_assoc) (simp)
    moreover have "\<not> c' \<longrightarrow> \<not> c \<and> qs1 @ qs = []" using s(7) 1(5) by blast
    moreover have "length (p @ concat (pieces (i # is)) @ d) \<le> limit s \<or> p = [] \<and> pieces (i # is) = [] \<longrightarrow> c' = c"
    proof -
      have "length p1 \<le> length p + length x" using arg_cong [OF 1(4), of length] by simp
      then show ?thesis using s(8) 1(3,6) Piece by auto
    qed
    ultimately show ?thesis using s(2-4) 1(3) l
      by (intro exI [of _ s'] exI [of _ ?es] exI [of _ "qs1 @ qs"] exI [of _ q] exI [of _ c']) simp
  qed
qed

lemma message_read:
  assumes "mid s [] False" "op < 8" "list_all item_ok is" "frame_ok k d" "list_all fits (pieces is)" "fits d \<or> pieces is = []"
    "concat (b # bs) = ws_encode op is k d"
  shows "\<exists>s' es qs q c'. async_receives P closes (b # bs) (s, [], False) = Some ((s', [], False), es)
    \<and> mid s' [] False \<and> limit s' = limit s \<and> list_all (\<lambda>e. control e \<or> is_data e) es
    \<and> filter is_data es = delivery c' qs q \<and> concat qs @ q = concat (pieces is) @ d \<and> (\<not> c' \<longrightarrow> qs = [])
    \<and> (length (concat (pieces is) @ d) \<le> limit s \<or> pieces is = [] \<longrightarrow> \<not> c')"
proof -
  have f: "fits d \<or> [] = [] \<and> \<not> False \<and> pieces is = []" using assms(6) by simp
  obtain s' es qs q c' where s: "async_drain P closes (ws_encode op is k d @ []) s = prepend es (async_drain P closes [] s')"
    "mid s' [] False" "limit s' = limit s" "list_all (\<lambda>e. control e \<or> is_data e) es" "filter is_data es = delivery c' qs q"
    "concat qs @ q = [] @ concat (pieces is) @ d" "\<not> c' \<longrightarrow> \<not> False \<and> qs = []"
    "length ([] @ concat (pieces is) @ d) \<le> limit s \<or> [] = [] \<and> pieces is = [] \<longrightarrow> c' = False"
    using drain_message [OF assms(1-5) f, of "[]"] by blast
  have "async_receive P closes (concat (b # bs)) (s, [], False) = Some ((s', [], False), es)"
    using s(1) unfolding assms(7) by (simp add: async_receive_def)
  then have "async_receives P closes (b # bs) (s, [], False) = Some ((s', [], False), es)" by (rule receives_open)
  moreover have "concat qs @ q = concat (pieces is) @ d" "\<not> c' \<longrightarrow> qs = []"
    "length (concat (pieces is) @ d) \<le> limit s \<or> pieces is = [] \<longrightarrow> \<not> c'"
    using s(6-8) by simp_all
  ultimately show ?thesis using s(2-5) by blast
qed

end

end
