(* ===== verification/WebSocketProps.thy ===== *)
theory WebSocketProps
  imports WebSocketMessages AgentProps
begin

text \<open>
  Properties of the WebSocket client: the cut of the stream into reads does not matter, a message in frames arrives
  whole, what is sent can be read, and how messages reach the control channel of the agent.
\<close>

unbundle bit_operations_syntax

section \<open>Reads of the socket\<close>

text \<open>C12 (equivalence): What the WebSocket client does does not depend on how the network cuts the bytes into reads: any sequence of reads
  has the same events, in the same order, and ends in the same state as one read of all the bytes.\<close>

theorem reads_do_not_matter: "ws_receives (d # ds) c = ws_receive (concat (d # ds)) c"
  by (rule client.receives_eq)

section \<open>Reassembly of fragments\<close>

lemma grow_fragment_spec:
  "0 < s \<Longrightarrow> s \<le> grow_fragment s needed M \<and> grow_fragment s needed M \<le> max s M
     \<and> (needed \<le> grow_fragment s needed M \<or> M \<le> grow_fragment s needed M)"
proof (induction s needed M rule: grow_fragment.induct)
  case (1 s needed M)
  show ?case
  proof (cases "s < needed \<and> s < M")
    case True
    let ?n = "if s > M div 2 then M else s * 2"
    have n: "0 < ?n" "s \<le> ?n" "?n \<le> M" using True 1(2) by auto
    have "grow_fragment s needed M = grow_fragment ?n needed M" using True 1(2) by (subst grow_fragment.simps) simp
    then show ?thesis using 1(1) [OF _ n(1)] True 1(2) n by (auto simp: max_def)
  next
    case False
    then have "grow_fragment s needed M = s" by (subst grow_fragment.simps) auto
    then show ?thesis using False by auto
  qed
qed

text \<open>The state between two frames: \<open>p\<close> waits in the buffer, \<open>c\<close> says that pieces were given to the user.\<close>

definition ws_mid :: "ILibWebClient_WebSocketState \<Rightarrow> byte list \<Rightarrow> bool \<Rightarrow> bool" where
  "ws_mid st p c \<longleftrightarrow> 0 < WebSocketFragmentMaxBufferSize st \<and> WebSocketFragmentBuffer st = p
     \<and> WebSocketFragmentIndex st = length p \<and> length p \<le> WebSocketFragmentBufferSize st
     \<and> 0 < WebSocketFragmentBufferSize st \<and> WebSocketCouldNotAutoReassemble st = c"

definition flushed :: "byte list \<Rightarrow> byte list list" where
  "flushed p = (if p = [] then [] else [p])"

lemma concat_flushed [simp]: "concat (flushed p) = p"
  by (simp add: flushed_def)

text \<open>The size of the buffer after it grew, if it had to, and whether it is still too small.\<close>

definition new_size :: "ILibWebClient_WebSocketState \<Rightarrow> nat \<Rightarrow> nat" where
  "new_size st needed = (if needed > WebSocketFragmentBufferSize st
     then grow_fragment (WebSocketFragmentBufferSize st) needed (WebSocketFragmentMaxBufferSize st) else WebSocketFragmentBufferSize st)"

lemma new_size:
  assumes "ws_mid st p c"
  shows "0 < new_size st n" "length p \<le> new_size st n" "n \<le> WebSocketFragmentMaxBufferSize st \<Longrightarrow> n \<le> new_size st n"
  using assms grow_fragment_spec [of "WebSocketFragmentBufferSize st" n "WebSocketFragmentMaxBufferSize st"]
  by (auto simp: ws_mid_def new_size_def)

text \<open>The state with the new buffer.\<close>

definition ws_next :: "nat \<Rightarrow> nat \<Rightarrow> byte list \<Rightarrow> bool \<Rightarrow> ILibWebClient_WebSocketState \<Rightarrow> ILibWebClient_WebSocketState" where
  "ws_next op n p c st = (if op \<noteq> 0 then st\<lparr>WebSocketDataFrameType := op\<rparr> else st)
      \<lparr>WebSocketFragmentBufferSize := new_size st n, WebSocketFragmentBuffer := p,
       WebSocketFragmentIndex := length p, WebSocketCouldNotAutoReassemble := c\<rparr>"

lemma ws_next:
  "ws_mid st q b \<Longrightarrow> length p \<le> new_size st n \<Longrightarrow> ws_mid (ws_next op n p c st) p c"
  "WebSocketFragmentMaxBufferSize (ws_next op n p c st) = WebSocketFragmentMaxBufferSize st"
  "pingRespond (ws_next op n p c st) = pingRespond st"
  using new_size(1) by (auto simp: ws_next_def ws_mid_def)

lemma ws_data_fits:
  assumes "ws_mid st p c" "\<not> (f \<and> p = [] \<and> \<not> c)" "length (p @ d) \<le> new_size st (length (p @ d))"
  shows "ws_data f op d st = Some (ws_next op (length (p @ d)) (if f then [] else p @ d) (\<not> f \<and> c) st,
      if f then [OnResponse (if c then LastPartial else MoreDataToBeReceived) (p @ d)] else [])"
  using assms unfolding ws_data_def ws_mid_def new_size_def ws_next_def
  by (cases f; cases "op = 0"; cases c) (auto simp: Let_def)

lemma ws_data_full:
  assumes "ws_mid st p c" "\<not> (f \<and> p = [] \<and> \<not> c)" "\<not> length (p @ d) \<le> new_size st (length (p @ d))"
  shows "ws_data f op d st = (let big = length d > new_size st (length (p @ d)) in
     Some (ws_next op (length (p @ d)) (if f \<or> big then [] else d) (\<not> f) st,
      map (OnResponse Partial) (flushed p) @ (if f then [OnResponse LastPartial d] else if big then [OnResponse Partial d] else [])))"
proof -
  have "WebSocketFragmentBufferSize st < length (p @ d)" using assms(3) by (auto simp: new_size_def split: if_splits)
  then show ?thesis
    using assms unfolding ws_data_def ws_mid_def new_size_def ws_next_def
    by (cases f; cases "op = 0") (auto simp: Let_def flushed_def final_status_def)
qed

text \<open>A frame that is not the last of its message.\<close>

lemma ws_data_piece:
  assumes "ws_mid st p c"
  obtains st' qs p' c' where "ws_data False op d st = Some (st', map (OnResponse Partial) qs)" "ws_mid st' p' c'"
    "concat qs @ p' = p @ d" "\<not> c' \<longrightarrow> \<not> c \<and> qs = []"
    "length (p @ d) \<le> WebSocketFragmentMaxBufferSize st \<longrightarrow> c' = c"
    "WebSocketFragmentMaxBufferSize st' = WebSocketFragmentMaxBufferSize st" "pingRespond st' = pingRespond st"
proof (cases "length (p @ d) \<le> new_size st (length (p @ d))")
  case True
  have "ws_data False op d st = Some (ws_next op (length (p @ d)) (p @ d) c st, map (OnResponse Partial) [])"
    using ws_data_fits [OF assms _ True, of False op] by simp
  then show thesis by (rule that [where c' = c]) (use ws_next assms True in auto)
next
  case False
  let ?big = "length d > new_size st (length (p @ d))"
  have "ws_data False op d st = Some (ws_next op (length (p @ d)) (if ?big then [] else d) True st,
      map (OnResponse Partial) (flushed p @ (if ?big then [d] else [])))"
    using ws_data_full [OF assms _ False, of False op] by (simp add: Let_def)
  then show thesis
    by (rule that [where c' = True and p' = "if ?big then [] else d" and qs = "flushed p @ (if ?big then [d] else [])"]) (use ws_next assms False new_size(3) [OF assms, of "length (p @ d)"] in auto)
qed

text \<open>The last frame of a message.\<close>

lemma ws_data_last:
  assumes "ws_mid st p c"
  obtains st' qs q c' where "ws_data True op d st = Some (st', map (OnResponse Partial) qs @ [OnResponse (if c' then LastPartial else MoreDataToBeReceived) q])"
    "ws_mid st' [] False" "concat qs @ q = p @ d" "\<not> c' \<longrightarrow> \<not> c \<and> qs = []"
    "length (p @ d) \<le> WebSocketFragmentMaxBufferSize st \<or> p = [] \<longrightarrow> c' = c"
    "WebSocketFragmentMaxBufferSize st' = WebSocketFragmentMaxBufferSize st" "pingRespond st' = pingRespond st"
proof (cases "p = [] \<and> \<not> c")
  case True
  let ?st = "if op \<noteq> 0 then st\<lparr>WebSocketDataFrameType := op\<rparr> else st"
  have "ws_data True op d st = Some (?st, map (OnResponse Partial) [] @ [OnResponse (if False then LastPartial else MoreDataToBeReceived) d])"
    using True assms by (simp add: ws_data_def ws_mid_def)
  then show thesis by (rule that [where c' = False]) (use True assms in \<open>auto simp: ws_mid_def\<close>)
next
  case n: False
  show thesis
  proof (cases "length (p @ d) \<le> new_size st (length (p @ d))")
    case True
    have "ws_data True op d st = Some (ws_next op (length (p @ d)) [] False st,
        map (OnResponse Partial) [] @ [OnResponse (if c then LastPartial else MoreDataToBeReceived) (p @ d)])"
      using ws_data_fits [OF assms _ True, of True op] n by simp
    then show thesis by (rule that [where c' = c]) (use ws_next assms True in auto)
  next
    case False
    have "ws_data True op d st = Some (ws_next op (length (p @ d)) [] False st,
        map (OnResponse Partial) (flushed p) @ [OnResponse (if True then LastPartial else MoreDataToBeReceived) d])"
      using ws_data_full [OF assms _ False, of True op] n by (simp add: Let_def)
    then show thesis
      by (rule that [where c' = True]) (use ws_next assms n False new_size(3) [OF assms, of "length (p @ d)"] in auto)
  qed
qed

section \<open>Messages in frames\<close>

fun data_event :: "ws_event \<Rightarrow> bool" where
  "data_event (OnResponse s d) = True"
| "data_event _ = False"

fun client_mid :: "ILibWebClient_WebSocketState option \<Rightarrow> byte list \<Rightarrow> bool \<Rightarrow> bool" where
  "client_mid (Some st) p c = ws_mid st p c"
| "client_mid None p c = False"

fun client_limit :: "ILibWebClient_WebSocketState option \<Rightarrow> nat" where
  "client_limit (Some st) = WebSocketFragmentMaxBufferSize st"
| "client_limit None = 0"

lemma client_mid: "client_mid s p c \<Longrightarrow> \<exists>st. s = Some st \<and> ws_mid st p c"
  by (cases s) auto

lemma OnWebSocketData_frame:
  "op < 16 \<Longrightarrow> frame_ok k d \<Longrightarrow> ILibWebClient_OnWebSocketData (frame_bytes k f op d @ rest) (Some st) =
    (if op < 8 then map_option (\<lambda>(st, es). (Some st, es, frame_length k (length d))) (ws_data f op d st)
     else Some (Some st, ws_control op st, frame_length k (length d)))"
  unfolding ILibWebClient_OnWebSocketData_def frame_ok_def by (rule Process_frame) auto

interpretation client: message_reader ILibWebClient_OnWebSocketData ws_closes client_mid client_limit "\<lambda>d. True"
  "OnResponse Partial" "OnResponse LastPartial" "OnResponse MoreDataToBeReceived" data_event "\<lambda>e. e = SendPong"
proof
  fix s p c op and k :: "byte list option" and d :: "byte list"
  assume mid: "client_mid s p c"
  obtain st where st: "s = Some st" "ws_mid st p c" using client_mid [OF mid] by blast
  show "\<exists>s' qs p' c'. (\<forall>rest. ILibWebClient_OnWebSocketData (frame_bytes k False op d @ rest) s
        = Some (s', map (OnResponse Partial) qs, frame_length k (length d)))
      \<and> client_mid s' p' c' \<and> client_limit s' = client_limit s \<and> concat qs @ p' = p @ d \<and> (\<not> c' \<longrightarrow> \<not> c \<and> qs = [])
      \<and> (length (p @ d) \<le> client_limit s \<longrightarrow> c' = c)"
    if "op < 8" "frame_ok k d"
  proof (rule ws_data_piece [OF st(2), of op d])
    fix st' qs p' c'
    assume "ws_data False op d st = Some (st', map (OnResponse Partial) qs)" "ws_mid st' p' c'" "concat qs @ p' = p @ d"
      "\<not> c' \<longrightarrow> \<not> c \<and> qs = []" "length (p @ d) \<le> WebSocketFragmentMaxBufferSize st \<longrightarrow> c' = c"
      "WebSocketFragmentMaxBufferSize st' = WebSocketFragmentMaxBufferSize st"
    then show ?thesis using that
      by (intro exI [of _ "Some st'"] exI [of _ qs] exI [of _ p'] exI [of _ c']) (simp add: st(1) OnWebSocketData_frame)
  qed
  show "\<exists>s' qs q c'. (\<forall>rest. ILibWebClient_OnWebSocketData (frame_bytes k True op d @ rest) s
        = Some (s', map (OnResponse Partial) qs @ [(if c' then OnResponse LastPartial else OnResponse MoreDataToBeReceived) q],
            frame_length k (length d)))
      \<and> client_mid s' [] False \<and> client_limit s' = client_limit s \<and> concat qs @ q = p @ d \<and> (\<not> c' \<longrightarrow> \<not> c \<and> qs = [])
      \<and> (length (p @ d) \<le> client_limit s \<or> p = [] \<longrightarrow> c' = c)"
    if "op < 8" "frame_ok k d"
  proof (rule ws_data_last [OF st(2), of op d])
    fix st' qs q c'
    assume "ws_data True op d st = Some (st', map (OnResponse Partial) qs @ [OnResponse (if c' then LastPartial else MoreDataToBeReceived) q])"
      "ws_mid st' [] False" "concat qs @ q = p @ d" "\<not> c' \<longrightarrow> \<not> c \<and> qs = []"
      "length (p @ d) \<le> WebSocketFragmentMaxBufferSize st \<or> p = [] \<longrightarrow> c' = c"
      "WebSocketFragmentMaxBufferSize st' = WebSocketFragmentMaxBufferSize st"
    then show ?thesis using that
      by (intro exI [of _ "Some st'"] exI [of _ qs] exI [of _ q] exI [of _ c']) (simp add: st(1) OnWebSocketData_frame)
  qed
  show "\<exists>s' es. (\<forall>rest. ILibWebClient_OnWebSocketData (frame_bytes k True WEBSOCKET_OPCODE_PING d @ rest) s
        = Some (s', es, frame_length k (length d)))
      \<and> client_mid s' p c \<and> client_limit s' = client_limit s \<and> list_all (\<lambda>e. e = SendPong) es"
    if "frame_ok k d"
    using that st
    by (intro exI [of _ s] exI [of _ "if pingRespond st then [SendPong] else []"])
      (simp add: OnWebSocketData_frame WEBSOCKET_OPCODEs ws_control_def)
qed (auto simp: ws_closes_def)

text \<open>The message is delivered: whole, or in pieces of which the last is marked.\<close>

lemma delivery_client:
  "client.delivery c qs q = map (OnResponse Partial) qs @ [OnResponse (if c then LastPartial else MoreDataToBeReceived) q]"
  by (simp add: client.delivery_def)

lemma receive_message:
  assumes "ws_mid st [] False" "op < 8" "list_all item_ok is" "frame_ok k d" "concat (b # bs) = ws_encode op is k d"
  shows "\<exists>st' es qs q c'. ws_receives (b # bs) (Some st, [], False) = Some ((Some st', [], False), es)
    \<and> ws_mid st' [] False \<and> WebSocketFragmentMaxBufferSize st' = WebSocketFragmentMaxBufferSize st
    \<and> set es \<subseteq> {SendPong} \<union> Collect data_event
    \<and> filter data_event es = client.delivery c' qs q \<and> concat qs @ q = concat (pieces is) @ d \<and> (\<not> c' \<longrightarrow> qs = [])
    \<and> (length (concat (pieces is) @ d) \<le> WebSocketFragmentMaxBufferSize st \<or> pieces is = [] \<longrightarrow> \<not> c')"
proof -
  have m: "client_mid (Some st) [] False" "list_all (\<lambda>d. True) (pieces is)" using assms(1) by (simp_all add: list_all_iff)
  obtain s' es qs q c' where s: "ws_receives (b # bs) (Some st, [], False) = Some ((s', [], False), es)"
    "client_mid s' [] False" "client_limit s' = client_limit (Some st)" "list_all (\<lambda>e. e = SendPong \<or> data_event e) es"
    "filter data_event es = client.delivery c' qs q" "concat qs @ q = concat (pieces is) @ d" "\<not> c' \<longrightarrow> qs = []"
    "length (concat (pieces is) @ d) \<le> client_limit (Some st) \<or> pieces is = [] \<longrightarrow> \<not> c'"
    using client.message_read [OF m(1) assms(2-4) m(2) _ assms(5)] by blast
  obtain st' where st': "s' = Some st'" "ws_mid st' [] False" using client_mid [OF s(2)] by blast
  have "set es \<subseteq> {SendPong} \<union> Collect data_event" using s(4) by (auto simp: list_all_iff)
  then show ?thesis using s(1,3,5-8) st' by auto
qed

text \<open>A message that arrives in data frames, masked or not, with pings between them and however the bytes are cut into
  reads, is given to the user once and complete: in one piece if it is not longer than the size the user set or came in one frame, and
  otherwise in pieces whose concatenation it is, the last one marked.  Afterwards nothing of it is left.\<close>

theorem message_in_frames_arrives:
  assumes "ws_mid st [] False" "op < 8" "list_all item_ok is" "frame_ok k d" "concat (b # bs) = ws_encode op is k d"
  shows "\<exists>st' es. ws_receives (b # bs) (Some st, [], False) = Some ((Some st', [], False), es) \<and> ws_mid st' [] False
    \<and> (let m = concat (pieces is) @ d in
       filter data_event es = [OnResponse MoreDataToBeReceived m]
       \<or> WebSocketFragmentMaxBufferSize st < length m \<and> pieces is \<noteq> []
         \<and> (\<exists>qs q. filter data_event es = map (OnResponse Partial) qs @ [OnResponse LastPartial q] \<and> concat qs @ q = m))"
proof -
  obtain st' es qs q c' where s: "ws_receives (b # bs) (Some st, [], False) = Some ((Some st', [], False), es)" "ws_mid st' [] False"
    "filter data_event es = client.delivery c' qs q" "concat qs @ q = concat (pieces is) @ d" "\<not> c' \<longrightarrow> qs = []"
    "length (concat (pieces is) @ d) \<le> WebSocketFragmentMaxBufferSize st \<or> pieces is = [] \<longrightarrow> \<not> c'"
    using receive_message [OF assms] by blast
  then show ?thesis by (cases c') (auto simp: delivery_client)
qed

text \<open>A message in two frames with a ping between them.\<close>

definition sample_items :: "ws_item list" where
  "sample_items = [Piece None [123], Ping_frame None []]"

lemma sample_stream:
  "ws_mid (ILibWebClient_WebSocket_GetState 65535) [] False" "list_all item_ok sample_items" "frame_ok None [125]"
  "concat [[0x02, 0x01, 123, 0x89], [], [0x00, 0x80, 0x01, 125]] = ws_encode 2 sample_items None [125]"
  by (simp_all add: ws_mid_def ILibWebClient_WebSocket_GetState_def sample_items_def frame_ok_def key_ok_def frame_length_def
      header_length_def INT32_MAX_def frame_bytes_def flags_def ILibWebServer_WebSocket_CreateHeader_def htons16_def Let_def
      WEBSOCKET_defs WEBSOCKET_OPCODEs)

lemma message_in_frames_arrives_witness:
  "\<exists>st' es. ws_receives [[0x02, 0x01, 123, 0x89], [], [0x00, 0x80, 0x01, 125]] (Some (ILibWebClient_WebSocket_GetState 65535), [], False)
      = Some ((Some st', [], False), es) \<and> filter data_event es = [OnResponse MoreDataToBeReceived [123, 125]]"
proof -
  obtain st' es where "ws_receives [[0x02, 0x01, 123, 0x89], [], [0x00, 0x80, 0x01, 125]] (Some (ILibWebClient_WebSocket_GetState 65535), [], False)
      = Some ((Some st', [], False), es)"
    "let m = concat (pieces sample_items) @ [125] in filter data_event es = [OnResponse MoreDataToBeReceived m]
       \<or> WebSocketFragmentMaxBufferSize (ILibWebClient_WebSocket_GetState 65535) < length m \<and> pieces sample_items \<noteq> []
         \<and> (\<exists>qs q. filter data_event es = map (OnResponse Partial) qs @ [OnResponse LastPartial q] \<and> concat qs @ q = m)"
    using message_in_frames_arrives [OF sample_stream(1) _ sample_stream(2-4)] by auto
  then show ?thesis by (auto simp: sample_items_def ILibWebClient_WebSocket_GetState_def)
qed

section \<open>What is sent can be read\<close>

text \<open>The frames of a buffer that is sent.\<close>

function sent_items :: "(nat \<Rightarrow> byte list) \<Rightarrow> nat \<Rightarrow> byte list \<Rightarrow> ws_item list \<times> byte list option \<times> byte list" where
  "sent_items keys i buffer =
     (if length buffer \<le> WEBSOCKET_MAX_OUTPUT_FRAMESIZE then ([], Some (keys i), buffer)
      else let (is, k, d) = sent_items keys (i + 1) (drop WEBSOCKET_MAX_OUTPUT_FRAMESIZE buffer)
           in (Piece (Some (keys i)) (take WEBSOCKET_MAX_OUTPUT_FRAMESIZE buffer) # is, k, d))"
  by pat_completeness auto
termination by (relation "measure (\<lambda>(keys, i, buffer). length buffer)") (auto simp: WEBSOCKET_MAX_OUTPUT_FRAMESIZE_def)

declare sent_items.simps [simp del]

lemma ws_frame_bytes:
  "ws_frame c op k d fl = (\<not> c, frame_bytes (Some k) c (if fl then 0 else op) d)"
  by (simp add: ws_frame_def frame_bytes_def flags_def WEBSOCKET_OPCODE_FRAMECONT_def)

lemma sent_frames:
  assumes keys: "\<And>i. length (keys i) = 4"
  shows "buffer \<noteq> [] \<Longrightarrow> sent_items keys i buffer = (is, k, d) \<Longrightarrow>
      ws_send_loop keys op True i buffer fl = (False, ws_encode (if fl then 0 else op) is k d)
    \<and> list_all item_ok is \<and> frame_ok k d \<and> concat (pieces is) @ d = buffer"
proof (induction "length buffer" arbitrary: i buffer "is" fl rule: less_induct)
  case less
  let ?N = WEBSOCKET_MAX_OUTPUT_FRAMESIZE
  have ok: "frame_ok (Some (keys j)) x" if "length x \<le> ?N" for j x
    using that keys by (simp add: frame_ok_def key_ok_def frame_length_def header_length_def INT32_MAX_def WEBSOCKET_MAX_OUTPUT_FRAMESIZE_def)
  have nil: "ws_send_loop keys op True j [] f = (f, [])" for j f by (simp add: ws_send_loop.simps)
  show ?case
  proof (cases "length buffer \<le> ?N")
    case True
    then have "is = []" "k = Some (keys i)" "d = buffer" using less.prems(2) by (simp_all add: sent_items.simps)
    moreover have "ws_send_loop keys op True i buffer fl = (False, frame_bytes (Some (keys i)) True (if fl then 0 else op) buffer)"
      using True less.prems(1) by (subst ws_send_loop.simps) (simp add: ws_frame_bytes nil)
    ultimately show ?thesis using ok [OF True] by simp
  next
    case False
    let ?rest = "drop ?N buffer"
    obtain is' where is': "sent_items keys (i + 1) ?rest = (is', k, d)" "is = Piece (Some (keys i)) (take ?N buffer) # is'"
      using less.prems(2) False by (subst (asm) sent_items.simps) (auto split: prod.splits)
    have r: "?rest \<noteq> []" "length ?rest < length buffer" using False by (simp_all add: WEBSOCKET_MAX_OUTPUT_FRAMESIZE_def)
    have ih: "ws_send_loop keys op True (i + 1) ?rest True = (False, ws_encode 0 is' k d)"
      "list_all item_ok is'" "frame_ok k d" "concat (pieces is') @ d = ?rest"
      using less.hyps [OF r(2,1) is'(1), of True] by simp_all
    have "ws_send_loop keys op True i buffer fl =
        (False, frame_bytes (Some (keys i)) False (if fl then 0 else op) (take ?N buffer) @ ws_encode 0 is' k d)"
      using less.prems(1) r(1) ih(1) by (subst ws_send_loop.simps) (simp add: ws_frame_bytes)
    moreover have "frame_ok (Some (keys i)) (take ?N buffer)" by (rule ok) simp
    ultimately show ?thesis using ih(2-4) is'(2) by simp
  qed
qed

text \<open>What \<open>ILibWebClient_WebSocket_Send\<close> writes for a buffer that is not empty, whatever the mask keys, a receiver reads as that
  buffer, once and complete, in one piece when the receiver reassembles messages of its length.\<close>

theorem websocket_roundtrip:
  assumes "\<forall>i. length (keys i) = 4" "buffer \<noteq> []" "op < 8" "\<not> WebSocketFragmentFlag sender"
    and "ws_mid st [] False" "length buffer \<le> WebSocketFragmentMaxBufferSize st"
    and "ILibWebClient_WebSocket_Send keys op buffer True sender = (sender', w)" "concat (b # bs) = w"
  shows "sender' = sender \<and> (\<exists>st' es. ws_receives (b # bs) (Some st, [], False) = Some ((Some st', [], False), es)
    \<and> ws_mid st' [] False \<and> filter data_event es = [OnResponse MoreDataToBeReceived buffer])"
proof -
  obtain "is" k d where i: "sent_items keys 0 buffer = (is, k, d)" by (cases "sent_items keys 0 buffer") auto
  have f: "ws_send_loop keys op True 0 buffer False = (False, ws_encode op is k d)" "list_all item_ok is" "frame_ok k d"
    "concat (pieces is) @ d = buffer"
    using sent_frames [of keys buffer 0 "is" k d op False] assms(1,2) i by auto
  have w: "sender' = sender" "concat (b # bs) = ws_encode op is k d"
    using assms(2,4,7,8) f(1) by (auto simp: ILibWebClient_WebSocket_Send_def)
  show ?thesis using receive_message [OF assms(5,3) f(2,3) w(2)] f(4) assms(6) w(1) by (auto simp: delivery_client)
qed

lemma websocket_roundtrip_witness:
  "\<exists>st' es. ws_receives [snd (ILibWebClient_WebSocket_Send (\<lambda>i. [1, 2, 3, of_nat i]) 1 (replicate 5000 7) True (ILibWebClient_WebSocket_GetState 0))]
      (Some (ILibWebClient_WebSocket_GetState 65535), [], False) = Some ((Some st', [], False), es)
    \<and> filter data_event es = [OnResponse MoreDataToBeReceived (replicate 5000 7)]"
proof -
  let ?s = "ILibWebClient_WebSocket_GetState 0" and ?k = "\<lambda>i. [1, 2, 3, of_nat i] :: byte list"
  obtain s' w where w: "ILibWebClient_WebSocket_Send ?k 1 (replicate 5000 7) True ?s = (s', w)"
    by (cases "ILibWebClient_WebSocket_Send ?k 1 (replicate 5000 7) True ?s") auto
  have "\<forall>i. length (?k i) = 4" "replicate 5000 7 \<noteq> ([] :: byte list)" "(1 :: nat) < 8" "\<not> WebSocketFragmentFlag ?s"
    by (simp_all add: ILibWebClient_WebSocket_GetState_def)
  moreover have "length (replicate 5000 (7 :: byte)) \<le> WebSocketFragmentMaxBufferSize (ILibWebClient_WebSocket_GetState 65535)"
    "concat [w] = w" by (simp_all add: ILibWebClient_WebSocket_GetState_def)
  ultimately show ?thesis using websocket_roundtrip [OF _ _ _ _ sample_stream(1) _ w, of w "[]"] w by auto
qed

section \<open>The control channel over WebSocket\<close>

text \<open>The events of the client, as the agent gets them.\<close>

fun channel_events :: "'c agent_env \<Rightarrow> 'c \<Rightarrow> ws_event list \<Rightarrow> MeshAgentHostContainer \<Rightarrow> MeshAgentHostContainer option" where
  "channel_events env peer [] a = Some a"
| "channel_events env peer (OnResponse s d # es) a =
     Option.bind (MeshServer_OnResponse env peer [] False (Some 101) s d a) (channel_events env peer es)"
| "channel_events env peer (SendPong # es) a = channel_events env peer es a"
| "channel_events env peer (PongReceived # es) a = channel_events env peer es (MeshServer_ControlChannel_PongSink a)"
| "channel_events env peer (WsDisconnect # es) a = MeshServer_OnResponse env peer [] False (Some 101) Complete [] a"

lemma channel_events_data:
  "set es \<subseteq> {SendPong} \<union> Collect data_event \<Longrightarrow> channel_events env peer es a = channel_events env peer (filter data_event es) a"
proof (induction es arbitrary: a)
  case (Cons e es)
  then show ?case by (cases e) (auto split: Option.bind_splits)
qed simp

lemma channel_events_pieces:
  "channel_events env peer (map (OnResponse Partial) qs @ [OnResponse LastPartial q]) a = receive_fragments env peer qs q a"
proof (induction qs arbitrary: a)
  case Nil
  have "channel_events env peer [] = Some" by (rule ext) simp
  then show ?case by simp
next
  case (Cons p qs)
  then have "channel_events env peer (map (OnResponse Partial) qs @ [OnResponse LastPartial q]) = receive_fragments env peer qs q"
    by (rule_tac ext)
  then show ?case by simp
qed

text \<open>C7 (functional): From the bytes of the network to the agent.  A message of 2 bytes to 64 MB that the server sends in data frames, with
  pings between them, however it is fragmented and however the bytes are cut into reads, is processed by the agent exactly as
  \<open>MeshServer_ProcessCommand\<close> does for the whole message.\<close>

theorem server_message_reaches_agent:
  assumes "ws_mid st [] False" "partial_state a = (None, 0, 0, False)"
    and "op < 8" "list_all item_ok is" "frame_ok k d" "concat (b # bs) = ws_encode op is k d"
    and "m = concat (pieces is) @ d" "2 \<le> length m" "length m \<le> MESH_SERVER_MAX_REASSEMBLED_MESSAGE_SIZE"
  shows "\<exists>st' es. ws_receives (b # bs) (Some st, [], False) = Some ((Some st', [], False), es) \<and> ws_mid st' [] False
    \<and> channel_events env peer es a = MeshServer_ProcessCommand env peer m a"
proof -
  obtain st' es qs q c' where s: "ws_receives (b # bs) (Some st, [], False) = Some ((Some st', [], False), es)" "ws_mid st' [] False"
    "set es \<subseteq> {SendPong} \<union> Collect data_event" "filter data_event es = client.delivery c' qs q" "concat qs @ q = m" "\<not> c' \<longrightarrow> qs = []"
    using receive_message [OF assms(1,3-6)] assms(7) by blast
  have "channel_events env peer es a = MeshServer_ProcessCommand env peer m a"
  proof (cases c')
    case True
    then show ?thesis
      using channel_events_data [OF s(3), of env peer a] s(4,5) assms(8,9)
        receive_fragments_assembled [OF assembled_reset [OF assms(2)], of env peer qs q]
      by (simp add: delivery_client channel_events_pieces reset_id [OF assms(2)] Let_def)
  next
    case False
    have "channel_events env peer [] = Some" by (rule ext) simp
    then show ?thesis
      using False channel_events_data [OF s(3), of env peer a] s(4-6) by (simp add: delivery_client OnResponse_Partial)
  qed
  then show ?thesis using s(1,2) by blast
qed

lemma server_message_reaches_agent_witness:
  "\<exists>st' es a. ws_receives [[0x02, 0x01, 123, 0x89], [], [0x00, 0x80, 0x01, 125]] (Some (ILibWebClient_WebSocket_GetState 65535), [], False)
      = Some ((Some st', [], False), es)
    \<and> channel_events sample_env () es (sample_agent\<lparr>serverAuthState := 3\<rparr>) = Some a \<and> actions a = [Emit_Command [123, 125]]"
proof -
  let ?a = "sample_agent\<lparr>serverAuthState := 3\<rparr>"
  have a: "partial_state ?a = (None, 0, 0, False)" by (simp add: sample_agent_def partial_state_def)
  have m: "[123, 125] = concat (pieces sample_items) @ [125]" "2 \<le> length [123, 125 :: byte]"
    "length [123, 125 :: byte] \<le> MESH_SERVER_MAX_REASSEMBLED_MESSAGE_SIZE"
    by (simp_all add: sample_items_def MESH_SERVER_MAX_REASSEMBLED_MESSAGE_SIZE_def)
  have "MeshServer_ProcessCommand sample_env () [123, 125] ?a = Some (command_to_script sample_env [123, 125] ?a)"
    using to_script [of ?a "[125]" sample_env "()"] by simp
  moreover have "actions (command_to_script sample_env [123, 125] ?a) = [Emit_Command [123, 125]]"
    by (simp add: command_to_script_def sample_agent_def sample_env_def act_def)
  ultimately show ?thesis
    using server_message_reaches_agent [OF sample_stream(1) a _ sample_stream(2-4) m, of sample_env "()"] by auto
qed

section \<open>Lengths\<close>

text \<open>C20 (error): A frame of almost 2 GB.  \<open>ILibWebClient_ProcessWebSocketData\<close> refuses lengths that do not fit in an \<open>int\<close>, but not those that
  do not fit any more when the length of the header is added: the ten bytes of such a header make it overflow an \<open>int\<close>, which is undefined.\<close>

theorem frame_length_overflow:
  assumes "INT32_MAX - 10 < n" "n \<le> INT32_MAX" "op < 16"
  shows "ILibWebClient_ProcessWebSocketData (ILibWebServer_WebSocket_CreateHeader WEBSOCKET_FIN op n) 0 10 (Some st) = None"
proof -
  have n: "0xFFFF < n" "header_length n = 10" using assms(1) by (simp_all add: INT32_MAX_def header_length_def)
  have fl: "flags False True = WEBSOCKET_FIN" by (simp add: flags_def)
  obtain w where w: "read16 (ILibWebServer_WebSocket_CreateHeader (flags False True) op n @ []) 0 = Some w"
    "(w AND WEBSOCKET_MASK \<noteq> 0) = False"
    "\<And>len. header_length n \<le> len \<Longrightarrow>
       ws_plen (ILibWebServer_WebSocket_CreateHeader (flags False True) op n @ []) 0 len w = Some (Inr (n, header_length n))"
    by (rule CreateHeader_read [OF assms(3,2), of False True "[]"]) blast
  show ?thesis unfolding ILibWebClient_ProcessWebSocketData_def option.case ws_read_frame_def
    using w(1,2) w(3) [of 10] n assms(1) by (simp add: fl Let_def)
qed

lemma frame_length_overflow_witness:
  "ILibWebClient_ProcessWebSocketData (ILibWebServer_WebSocket_CreateHeader WEBSOCKET_FIN 2 2147483647) 0 10
     (Some (ILibWebClient_WebSocket_GetState 65535)) = None"
  by (rule frame_length_overflow) (simp_all add: INT32_MAX_def)

end
