(* ===== verification/WebServerProps.thy ===== *)
theory WebServerProps
  imports WebServer WebSocketProps
begin

text \<open>
  Properties of the WebSocket of a session: it is a \<open>message_reader\<close> for the frames it can take, the messages of the client of this
  program arrive and those it sends arrive at that client, and what goes wrong with larger frames and with control frames.
\<close>

unbundle bit_operations_syntax

section \<open>The session as a reader of a stream\<close>

lemma OnReceive_frame:
  "op < 16 \<Longrightarrow> frame_ok k d \<Longrightarrow> has_OnReceive s \<Longrightarrow>
   ILibWebServer_OnReceive_WebSocket (frame_bytes k f op d @ rest) s =
     map_option (\<lambda>(s, es). (s, es, frame_length k (length d)))
       (if op < 8 then session_data f op d s else session_control op d rest s)"
  using read_frame_bytes [of op k d f rest] length_frame_bytes [of k f op d]
  by (simp add: ILibWebServer_OnReceive_WebSocket_def ILibWebServer_ProcessWebSocketData_def frame_ok_def slice_def)

text \<open>More bytes behind a close frame: at least two bytes were there, or the read behind the payload is repaired.\<close>

lemma control_append:
  "session_control op d (rest @ c) s = session_control op d rest s
   \<or> session_control op d rest s = None \<and> (\<forall>s' es. session_control op d (rest @ c) s = Some (s', es) \<longrightarrow> list_ex session_closes es)"
proof (cases "op = WEBSOCKET_OPCODE_CLOSE \<and> \<not> SessionCloseFrameSent s \<and> d \<noteq> [] \<and> length (d @ rest) < 2")
  case True
  then show ?thesis by (auto simp: session_control_def split: prod.splits if_splits)
next
  case False
  then have "take 2 (d @ rest @ c) = take 2 (d @ rest)" if "op = WEBSOCKET_OPCODE_CLOSE" "\<not> SessionCloseFrameSent s" "d \<noteq> []"
    using that by (cases d; cases rest; cases "tl d") auto
  then show ?thesis using False by (auto simp: session_control_def)
qed

lemma frame_append:
  "n \<le> length b \<Longrightarrow> slice (b @ c) n (length (b @ c) - n) = slice b n (length b - n) @ c"
  by (simp add: slice_def)

interpretation server: stream_reader ILibWebServer_OnReceive_WebSocket session_closes
proof
  fix b c :: "byte list" and s s' :: ILibWebServer_Session_SystemData and es
  let ?r = "ws_read_frame b 0 (length b)"
  note defs = ILibWebServer_OnReceive_WebSocket_def ILibWebServer_ProcessWebSocketData_def
  show "ILibWebServer_OnReceive_WebSocket b s = Some (s, [], 0)
      \<or> ILibWebServer_OnReceive_WebSocket (b @ c) s = ILibWebServer_OnReceive_WebSocket b s
        \<and> (\<forall>s' es n. ILibWebServer_OnReceive_WebSocket b s = Some (s', es, n) \<longrightarrow> n \<le> length b)
      \<or> (\<exists>s' es n. ILibWebServer_OnReceive_WebSocket (b @ c) s = Some (s', es, n) \<and> list_ex session_closes es
        \<and> (ILibWebServer_OnReceive_WebSocket b s = None \<or> (\<exists>n'. ILibWebServer_OnReceive_WebSocket b s = Some (s', es, n'))))"
  proof (cases "?r = Some (Inl False)")
    case True
    then show ?thesis by (simp add: defs)
  next
    case False
    then have a: "ws_read_frame (b @ c) 0 (length (b @ c)) = ?r"
      "\<And>f op d n. ?r = Some (Inr (f, op, d, n)) \<Longrightarrow> n \<noteq> 0 \<and> n \<le> length b"
      using read_frame_append [of b c] by auto
    show ?thesis
    proof (cases ?r)
      case None
      then show ?thesis using a(1) by (simp add: defs)
    next
      case (Some x)
      show ?thesis
      proof (cases x)
        case (Inl y)
        then show ?thesis using a(1) Some by (cases y) (simp_all add: defs)
      next
        case (Inr y)
        obtain f op d n where y: "y = (f, op, d, n)" by (cases y)
        have n: "n \<le> length b" using a(2) Some Inr y by simp
        show ?thesis
          using control_append [of op d "slice b n (length b - n)" c s] a(1) Some Inr y n frame_append [OF n, of c]
          by (auto simp: defs)
      qed
    qed
  qed
  show "s' = s \<and> es = []" if "ILibWebServer_OnReceive_WebSocket b s = Some (s', es, 0)" "\<not> list_ex session_closes es"
    using that read_frame_append [of b "[]"]
    by (auto simp: defs split: option.splits Option.bind_splits if_splits sum.splits)
qed

section \<open>Reassembly of fragments\<close>

text \<open>
  The state between two frames, \<open>p\<close> waiting in the buffer and \<open>c\<close> when pieces were given to the user.  The buffer grows only once for a
  frame, and only to its double, so that frames of messages in several frames are safe up to a size \<open>U\<close> of which the size of
  the buffer and its maximum are multiples by powers of two.  No fragmented message is being sent.
\<close>

definition session_mid :: "nat \<Rightarrow> ILibWebServer_Session_SystemData \<Rightarrow> byte list \<Rightarrow> bool \<Rightarrow> bool" where
  "session_mid U s p c \<longleftrightarrow> has_OnReceive s \<and> \<not> SessionFragmentFlag s
     \<and> 0 < U \<and> (\<exists>i j. i \<le> j \<and> SessionFragmentBufferSize s = U * 2 ^ i \<and> SessionFragmentMaxBufferSize s = U * 2 ^ j)
     \<and> SessionFragmentMaxBufferSize s + U \<le> INT32_MAX
     \<and> SessionFragmentBuffer s = p \<and> SessionFragmentIndex s = length p \<and> length p \<le> SessionFragmentBufferSize s
     \<and> SessionCouldNotAutoReassemble s = c"

lemma session_mid_size:
  assumes "session_mid U s p c"
  shows "U \<le> SessionFragmentBufferSize s" "SessionFragmentBufferSize s \<le> SessionFragmentMaxBufferSize s"
    "SessionFragmentBufferSize s \<noteq> SessionFragmentMaxBufferSize s \<Longrightarrow> SessionFragmentBufferSize s * 2 \<le> SessionFragmentMaxBufferSize s"
proof -
  obtain i j where ij: "i \<le> j" "SessionFragmentBufferSize s = U * 2 ^ i" "SessionFragmentMaxBufferSize s = U * 2 ^ j"
    using assms by (auto simp: session_mid_def)
  show "U \<le> SessionFragmentBufferSize s" using ij(2) by simp
  show "SessionFragmentBufferSize s \<le> SessionFragmentMaxBufferSize s" using ij by (simp add: power_increasing)
  assume "SessionFragmentBufferSize s \<noteq> SessionFragmentMaxBufferSize s"
  then have "Suc i \<le> j" using ij by (cases "i = j") auto
  then have "(2 :: nat) ^ Suc i \<le> 2 ^ j" by (rule power_increasing) simp
  then show "SessionFragmentBufferSize s * 2 \<le> SessionFragmentMaxBufferSize s" using ij by simp
qed

text \<open>Changes that keep the state between two frames.\<close>

lemma session_mid_type: "session_mid U s p c \<Longrightarrow> session_mid U (s\<lparr>SessionDataFrameType := op\<rparr>) p c"
  by (simp add: session_mid_def)

lemma session_mid_buffer:
  "session_mid U s p c \<Longrightarrow> length p' \<le> SessionFragmentBufferSize s \<Longrightarrow>
   session_mid U (s\<lparr>SessionCouldNotAutoReassemble := c', SessionFragmentBuffer := p', SessionFragmentIndex := length p'\<rparr>) p' c'"
  by (simp add: session_mid_def)

lemma session_mid_grow:
  assumes "session_mid U s p c" "SessionFragmentBufferSize s \<noteq> SessionFragmentMaxBufferSize s"
  shows "session_mid U (s\<lparr>SessionFragmentBufferSize := SessionFragmentBufferSize s * 2\<rparr>) p c"
proof -
  obtain i j where ij: "i \<le> j" "SessionFragmentBufferSize s = U * 2 ^ i" "SessionFragmentMaxBufferSize s = U * 2 ^ j"
    using assms(1) by (auto simp: session_mid_def)
  then have "Suc i \<le> j" using assms(2) by (cases "i = j") auto
  then have "\<exists>i j. i \<le> j \<and> SessionFragmentBufferSize s * 2 = U * 2 ^ i \<and> SessionFragmentMaxBufferSize s = U * 2 ^ j"
    using ij by (intro exI [of _ "Suc i"] exI [of _ j]) simp
  then show ?thesis using assms(1) by (simp add: session_mid_def)
qed

lemma make_room_fits:
  assumes "session_mid U s p c" "n \<le> U"
  obtains s' ps p' c' where "make_room n s = Some (s', map (OnReceive ILibWebServer_DoneFlag_Partial) ps)" "session_mid U s' p' c'"
    "length p' + n \<le> SessionFragmentBufferSize s'" "concat ps @ p' = p" "\<not> c' \<longrightarrow> \<not> c \<and> ps = []"
    "length p + n < SessionFragmentMaxBufferSize s \<longrightarrow> c' = c" "SessionFragmentMaxBufferSize s' = SessionFragmentMaxBufferSize s"
proof -
  note sz = session_mid_size [OF assms(1)]
  have p: "SessionFragmentBuffer s = p" "SessionFragmentIndex s = length p" "length p \<le> SessionFragmentBufferSize s"
    "SessionFragmentMaxBufferSize s + U \<le> INT32_MAX" using assms(1) by (auto simp: session_mid_def)
  have le: "\<not> length p + n > INT32_MAX" using p(3,4) sz(2) assms(2) by linarith
  consider "length p + n < SessionFragmentBufferSize s"
    | "\<not> length p + n < SessionFragmentBufferSize s" "SessionFragmentBufferSize s = SessionFragmentMaxBufferSize s"
    | "\<not> length p + n < SessionFragmentBufferSize s" "SessionFragmentBufferSize s \<noteq> SessionFragmentMaxBufferSize s" by blast
  then show thesis
  proof cases
    case 1
    then have "make_room n s = Some (s, map (OnReceive ILibWebServer_DoneFlag_Partial) [])" using le p by (simp add: make_room_def)
    then show thesis using that [of s "[]" p c] assms(1) 1 by simp
  next
    case 2
    let ?s = "s\<lparr>SessionCouldNotAutoReassemble := True, SessionFragmentBuffer := [], SessionFragmentIndex := length ([] :: byte list)\<rparr>"
    have "make_room n s = Some (?s, map (OnReceive ILibWebServer_DoneFlag_Partial) [p])" using le p 2 by (simp add: make_room_def)
    moreover have "session_mid U ?s [] True" by (rule session_mid_buffer [OF assms(1)]) simp
    ultimately show thesis using that [of ?s "[p]" "[]" True] 2 sz(1) assms(2) by simp
  next
    case 3
    let ?s = "s\<lparr>SessionFragmentBufferSize := SessionFragmentBufferSize s * 2\<rparr>"
    have "\<not> SessionFragmentBufferSize s * 2 > INT32_MAX" "\<not> SessionFragmentBufferSize s * 2 > SessionFragmentMaxBufferSize s"
      using sz(3) [OF 3(2)] p(4) by linarith+
    then have "make_room n s = Some (?s, map (OnReceive ILibWebServer_DoneFlag_Partial) [])" using le p 3 by (simp add: make_room_def)
    then show thesis using that [of ?s "[]" p c] session_mid_grow [OF assms(1) 3(2)] p(3) sz(1) assms(2) by simp
  qed
qed

text \<open>A frame in the buffer, and the frames of a message.\<close>

lemma session_mid_max: "session_mid U s p c \<Longrightarrow> SessionFragmentMaxBufferSize s \<noteq> 0"
  by (auto simp: session_mid_def)

lemma session_data_stored:
  assumes "session_mid U s p c" "length d \<le> U" "\<not> (f \<and> p = [] \<and> \<not> c)"
  obtains s' ps p' c' where
    "session_data f op d s = Some (if f then s'\<lparr>SessionCouldNotAutoReassemble := False, SessionFragmentBuffer := [], SessionFragmentIndex := 0\<rparr>
         else s', map (OnReceive ILibWebServer_DoneFlag_Partial) ps
       @ (if f then [OnReceive (if c' then ILibWebServer_DoneFlag_LastPartial else ILibWebServer_DoneFlag_NotDone) p'] else []))"
    "session_mid U s' p' c'" "concat ps @ p' = p @ d" "\<not> c' \<longrightarrow> \<not> c \<and> ps = []"
    "length (p @ d) < SessionFragmentMaxBufferSize s \<longrightarrow> c' = c" "SessionFragmentMaxBufferSize s' = SessionFragmentMaxBufferSize s"
proof -
  let ?s = "if op \<noteq> 0 then s\<lparr>SessionDataFrameType := op\<rparr> else s"
  have mid: "session_mid U ?s p c" using assms(1) session_mid_type by simp
  obtain s1 ps p1 c' where r: "make_room (length d) ?s = Some (s1, map (OnReceive ILibWebServer_DoneFlag_Partial) ps)"
    "session_mid U s1 p1 c'" "length p1 + length d \<le> SessionFragmentBufferSize s1" "concat ps @ p1 = p" "\<not> c' \<longrightarrow> \<not> c \<and> ps = []"
    "length p + length d < SessionFragmentMaxBufferSize ?s \<longrightarrow> c' = c" "SessionFragmentMaxBufferSize s1 = SessionFragmentMaxBufferSize ?s"
    by (rule make_room_fits [OF mid assms(2)])
  let ?s1 = "s1\<lparr>SessionFragmentBuffer := p1 @ d, SessionFragmentIndex := length p1 + length d\<rparr>"
  have f: "SessionFragmentIndex s1 = length p1" "SessionFragmentBuffer s1 = p1" "SessionCouldNotAutoReassemble s1 = c'"
    using r(2) by (simp_all add: session_mid_def)
  have g: "SessionFragmentIndex s = length p" "SessionCouldNotAutoReassemble s = c" using assms(1) by (simp_all add: session_mid_def)
  have "session_data f op d s = Some (if f then ?s1\<lparr>SessionCouldNotAutoReassemble := False, SessionFragmentBuffer := [], SessionFragmentIndex := 0\<rparr>
         else ?s1, map (OnReceive ILibWebServer_DoneFlag_Partial) ps
       @ (if f then [OnReceive (if c' then ILibWebServer_DoneFlag_LastPartial else ILibWebServer_DoneFlag_NotDone) (p1 @ d)] else []))"
    using assms(3) session_mid_max [OF assms(1)] r(1,3) f g
    by (cases f; cases "op = 0") (auto simp: session_data_def Let_def)
  moreover have "session_mid U ?s1 (p1 @ d) c'" using r(2,3) by (simp add: session_mid_def)
  ultimately show thesis using that [of ?s1 ps c' "p1 @ d"] r(4-7) by auto
qed

lemma session_mid_reset:
  "session_mid U s p c \<Longrightarrow>
   session_mid U (s\<lparr>SessionCouldNotAutoReassemble := False, SessionFragmentBuffer := [], SessionFragmentIndex := 0\<rparr>) [] False"
  by (simp add: session_mid_def)

lemma session_data_last:
  assumes "session_mid U s p c" "length d \<le> U \<or> p = [] \<and> \<not> c"
  obtains s' qs q c' where "session_data True op d s = Some (s', map (OnReceive ILibWebServer_DoneFlag_Partial) qs
      @ [OnReceive (if c' then ILibWebServer_DoneFlag_LastPartial else ILibWebServer_DoneFlag_NotDone) q])"
    "session_mid U s' [] False" "concat qs @ q = p @ d" "\<not> c' \<longrightarrow> \<not> c \<and> qs = []"
    "length (p @ d) < SessionFragmentMaxBufferSize s \<or> p = [] \<longrightarrow> c' = c" "SessionFragmentMaxBufferSize s' = SessionFragmentMaxBufferSize s"
proof (cases "p = [] \<and> \<not> c")
  case True
  let ?s = "if op \<noteq> 0 then s\<lparr>SessionDataFrameType := op\<rparr> else s"
  have "session_mid U ?s p c" using assms(1) session_mid_type by simp
  then show thesis
    using that [of ?s "[]" False d] True session_mid_max [OF assms(1)] assms(1)
    by (simp add: session_data_def session_mid_def)
next
  case False
  then have d: "length d \<le> U" and n: "\<not> (True \<and> p = [] \<and> \<not> c)" using assms(2) by auto
  show thesis
  proof (rule session_data_stored [OF assms(1) d n, of op])
    fix s' ps p' c'
    assume s: "session_data True op d s = Some (if True then s'\<lparr>SessionCouldNotAutoReassemble := False, SessionFragmentBuffer := [], SessionFragmentIndex := 0\<rparr>
         else s', map (OnReceive ILibWebServer_DoneFlag_Partial) ps
       @ (if True then [OnReceive (if c' then ILibWebServer_DoneFlag_LastPartial else ILibWebServer_DoneFlag_NotDone) p'] else []))"
      "session_mid U s' p' c'" "concat ps @ p' = p @ d" "\<not> c' \<longrightarrow> \<not> c \<and> ps = []"
      "length (p @ d) < SessionFragmentMaxBufferSize s \<longrightarrow> c' = c" "SessionFragmentMaxBufferSize s' = SessionFragmentMaxBufferSize s"
    have "p = [] \<longrightarrow> c' = c" using False s(4) by auto
    then show thesis
      using that [of "s'\<lparr>SessionCouldNotAutoReassemble := False, SessionFragmentBuffer := [], SessionFragmentIndex := 0\<rparr>" ps c' p']
        s session_mid_reset [OF s(2)] by auto
  qed
qed

lemma session_ping:
  "\<not> SessionFragmentFlag s \<Longrightarrow>
   session_control WEBSOCKET_OPCODE_PING d rest s = Some (s, [Written (frame_bytes None True WEBSOCKET_OPCODE_PONG [])])"
  by (cases s) (simp add: session_control_def ILibWebServer_WebSocket_Send_def session_frame_def frame_bytes_def flags_def WEBSOCKET_OPCODEs
      WEBSOCKET_MAX_OUTPUT_FRAMESIZE_def)

section \<open>The session as a reader of messages\<close>

fun received_event :: "session_event \<Rightarrow> bool" where
  "received_event (OnReceive done_flag d) = True"
| "received_event _ = False"

fun written_event :: "session_event \<Rightarrow> bool" where
  "written_event (Written w) = True"
| "written_event _ = False"

interpretation server: message_reader ILibWebServer_OnReceive_WebSocket session_closes "session_mid U"
  "\<lambda>s. SessionFragmentMaxBufferSize s - 1" "\<lambda>d. length d \<le> U" "OnReceive ILibWebServer_DoneFlag_Partial"
  "OnReceive ILibWebServer_DoneFlag_LastPartial" "OnReceive ILibWebServer_DoneFlag_NotDone" received_event written_event
  for U :: nat
proof
  fix s p c op and k :: "byte list option" and d :: "byte list"
  assume mid: "session_mid U s p c"
  have h: "has_OnReceive s" "\<not> SessionFragmentFlag s" using mid by (simp_all add: session_mid_def)
  have m: "0 < SessionFragmentMaxBufferSize s" using session_mid_max [OF mid] by simp
  show "\<exists>s' qs p' c'. (\<forall>rest. ILibWebServer_OnReceive_WebSocket (frame_bytes k False op d @ rest) s
        = Some (s', map (OnReceive ILibWebServer_DoneFlag_Partial) qs, frame_length k (length d)))
      \<and> session_mid U s' p' c' \<and> SessionFragmentMaxBufferSize s' - 1 = SessionFragmentMaxBufferSize s - 1
      \<and> concat qs @ p' = p @ d \<and> (\<not> c' \<longrightarrow> \<not> c \<and> qs = [])
      \<and> (length (p @ d) \<le> SessionFragmentMaxBufferSize s - 1 \<longrightarrow> c' = c)"
    if "op < 8" "frame_ok k d" "length d \<le> U"
  proof (rule session_data_stored [OF mid that(3), of False op])
    fix s' ps p' c'
    assume s: "session_data False op d s = Some (if False then s'\<lparr>SessionCouldNotAutoReassemble := False, SessionFragmentBuffer := [], SessionFragmentIndex := 0\<rparr>
         else s', map (OnReceive ILibWebServer_DoneFlag_Partial) ps
       @ (if False then [OnReceive (if c' then ILibWebServer_DoneFlag_LastPartial else ILibWebServer_DoneFlag_NotDone) p'] else []))"
      "session_mid U s' p' c'" "concat ps @ p' = p @ d" "\<not> c' \<longrightarrow> \<not> c \<and> ps = []"
      "length (p @ d) < SessionFragmentMaxBufferSize s \<longrightarrow> c' = c" "SessionFragmentMaxBufferSize s' = SessionFragmentMaxBufferSize s"
    then show ?thesis using that m
      by (intro exI [of _ s'] exI [of _ ps] exI [of _ p'] exI [of _ c']) (auto simp: OnReceive_frame h)
  qed simp
  show "\<exists>s' qs q c'. (\<forall>rest. ILibWebServer_OnReceive_WebSocket (frame_bytes k True op d @ rest) s
        = Some (s', map (OnReceive ILibWebServer_DoneFlag_Partial) qs
            @ [(if c' then OnReceive ILibWebServer_DoneFlag_LastPartial else OnReceive ILibWebServer_DoneFlag_NotDone) q],
            frame_length k (length d)))
      \<and> session_mid U s' [] False \<and> SessionFragmentMaxBufferSize s' - 1 = SessionFragmentMaxBufferSize s - 1
      \<and> concat qs @ q = p @ d \<and> (\<not> c' \<longrightarrow> \<not> c \<and> qs = [])
      \<and> (length (p @ d) \<le> SessionFragmentMaxBufferSize s - 1 \<or> p = [] \<longrightarrow> c' = c)"
    if "op < 8" "frame_ok k d" "length d \<le> U \<or> p = [] \<and> \<not> c"
  proof (rule session_data_last [OF mid that(3), of op])
    fix s' qs q c'
    assume "session_data True op d s = Some (s', map (OnReceive ILibWebServer_DoneFlag_Partial) qs
        @ [OnReceive (if c' then ILibWebServer_DoneFlag_LastPartial else ILibWebServer_DoneFlag_NotDone) q])"
      "session_mid U s' [] False" "concat qs @ q = p @ d" "\<not> c' \<longrightarrow> \<not> c \<and> qs = []"
      "length (p @ d) < SessionFragmentMaxBufferSize s \<or> p = [] \<longrightarrow> c' = c" "SessionFragmentMaxBufferSize s' = SessionFragmentMaxBufferSize s"
    then show ?thesis using that m
      by (intro exI [of _ s'] exI [of _ qs] exI [of _ q] exI [of _ c']) (auto simp: OnReceive_frame h)
  qed
  show "\<exists>s' es. (\<forall>rest. ILibWebServer_OnReceive_WebSocket (frame_bytes k True WEBSOCKET_OPCODE_PING d @ rest) s
        = Some (s', es, frame_length k (length d)))
      \<and> session_mid U s' p c \<and> SessionFragmentMaxBufferSize s' - 1 = SessionFragmentMaxBufferSize s - 1 \<and> list_all written_event es"
    if "frame_ok k d"
    using that mid session_ping [OF h(2)]
    by (intro exI [of _ s] exI [of _ "[Written (frame_bytes None True WEBSOCKET_OPCODE_PONG [])]"])
      (simp add: OnReceive_frame h(1) WEBSOCKET_OPCODEs)
next
  show "\<not> session_closes e \<and> \<not> received_event e" if "written_event e" for e using that by (cases e) simp_all
  show "\<not> session_closes e" if "received_event e" for e using that by (cases e) simp_all
qed simp_all

section \<open>From the client to the session\<close>

lemma sent_pieces:
  "sent_items keys i buffer = (is, k, d) \<Longrightarrow>
   list_all (\<lambda>x. length x \<le> WEBSOCKET_MAX_OUTPUT_FRAMESIZE) (pieces is) \<and> length d \<le> WEBSOCKET_MAX_OUTPUT_FRAMESIZE"
proof (induction keys i buffer arbitrary: "is" rule: sent_items.induct)
  case (1 keys i buffer)
  then show ?case
    by (subst (asm) (2) sent_items.simps) (auto split: if_splits prod.splits)
qed

lemma list_all_le: "list_all (\<lambda>x. length x \<le> m) xs \<Longrightarrow> m \<le> n \<Longrightarrow> list_all (\<lambda>x. length x \<le> n) xs"
  by (auto simp: list_all_iff)

text \<open>C13 (roundtrip): What \<open>ILibWebClient_WebSocket_Send\<close> writes for a buffer that is not empty, however the network cuts it into reads, a
  session of the web server gives its handler as that buffer, once and complete: in one piece if it is shorter than the maximum the
  user set, otherwise in pieces of which the last is marked or, when it came in one frame, still in one piece.  The buffers of the session are to be at least 4096 bytes, and its maximum
  that size times a power of two.\<close>

theorem client_reaches_session:
  assumes "\<forall>i. length (keys i) = 4" "buffer \<noteq> []" "op < 8" "\<not> WebSocketFragmentFlag sender"
    and "session_mid U s [] False" "WEBSOCKET_MAX_OUTPUT_FRAMESIZE \<le> U"
    and "ILibWebClient_WebSocket_Send keys op buffer True sender = (sender', w)" "concat (b # bs) = w"
  shows "\<exists>s' es. session_receives (b # bs) (s, [], False) = Some ((s', [], False), es) \<and> session_mid U s' [] False
    \<and> (filter received_event es = [OnReceive ILibWebServer_DoneFlag_NotDone buffer]
       \<or> SessionFragmentMaxBufferSize s \<le> length buffer
         \<and> (\<exists>qs q. filter received_event es = map (OnReceive ILibWebServer_DoneFlag_Partial) qs @ [OnReceive ILibWebServer_DoneFlag_LastPartial q]
              \<and> concat qs @ q = buffer))"
proof -
  obtain "is" k d where i: "sent_items keys 0 buffer = (is, k, d)" by (cases "sent_items keys 0 buffer") auto
  have f: "ws_send_loop keys op True 0 buffer False = (False, ws_encode op is k d)" "list_all item_ok is" "frame_ok k d"
    "concat (pieces is) @ d = buffer"
    using sent_frames [of keys buffer 0 "is" k d op False] assms(1,2) i by auto
  have w: "concat (b # bs) = ws_encode op is k d"
    using assms(2,4,7,8) f(1) by (auto simp: ILibWebClient_WebSocket_Send_def)
  have l: "list_all (\<lambda>x. length x \<le> U) (pieces is)" "length d \<le> U \<or> pieces is = []"
    using sent_pieces [OF i] assms(6) list_all_le by auto
  obtain s' es qs q c' where s: "session_receives (b # bs) (s, [], False) = Some ((s', [], False), es)" "session_mid U s' [] False"
    "filter received_event es = server.delivery c' qs q" "concat qs @ q = concat (pieces is) @ d" "\<not> c' \<longrightarrow> qs = []"
    "length (concat (pieces is) @ d) \<le> SessionFragmentMaxBufferSize s - 1 \<or> pieces is = [] \<longrightarrow> \<not> c'"
    using server.message_read [OF assms(5,3) f(2,3) l w] by blast
  have "SessionFragmentMaxBufferSize s \<le> length buffer" if c'
  proof -
    have "\<not> length buffer \<le> SessionFragmentMaxBufferSize s - 1" using s(6) f(4) that by auto
    then show ?thesis by linarith
  qed
  then show ?thesis using s(1-5) f(4) by (cases c') (auto simp: server.delivery_def)
qed

text \<open>A session as \<open>ILibWebServer_UpgradeWebSocket\<close> leaves it for the viewer of the log, with at most 8192 bytes.\<close>

definition sample_session :: ILibWebServer_Session_SystemData where
  "sample_session = upgrade_buffer 8192 \<lparr>SessionFragmentFlag = False, SessionDataFrameType = 0, SessionFragmentBuffer = [],
     SessionFragmentIndex = 0, SessionFragmentBufferSize = 0, SessionFragmentMaxBufferSize = 0,
     SessionCouldNotAutoReassemble = False, SessionCloseFrameSent = False, has_OnReceive = True\<rparr>"

lemma sample_session: "session_mid 4096 sample_session [] False" "SessionFragmentMaxBufferSize sample_session = 8192"
  "SessionFragmentBufferSize sample_session = 4096" "\<not> SessionFragmentFlag sample_session"
proof -
  have "\<exists>i j. i \<le> j \<and> (4096 :: nat) = 4096 * 2 ^ i \<and> (8192 :: nat) = 4096 * 2 ^ j"
    by (rule exI [of _ 0], rule exI [of _ 1]) simp
  then show "session_mid 4096 sample_session [] False"
    by (simp add: session_mid_def sample_session_def upgrade_buffer_def Let_def INT32_MAX_def)
qed (simp_all add: sample_session_def upgrade_buffer_def Let_def)

lemma client_reaches_session_witness:
  "\<exists>s' es. session_receives [snd (ILibWebClient_WebSocket_Send (\<lambda>i. [1, 2, 3, of_nat i]) 1 (replicate 5000 7) True (ILibWebClient_WebSocket_GetState 0))]
      (sample_session, [], False) = Some ((s', [], False), es)
    \<and> filter received_event es = [OnReceive ILibWebServer_DoneFlag_NotDone (replicate 5000 7)]"
proof -
  let ?s = "ILibWebClient_WebSocket_GetState 0" and ?k = "\<lambda>i. [1, 2, 3, of_nat i] :: byte list"
  obtain s' w where w: "ILibWebClient_WebSocket_Send ?k 1 (replicate 5000 7) True ?s = (s', w)"
    by (cases "ILibWebClient_WebSocket_Send ?k 1 (replicate 5000 7) True ?s") auto
  have "\<forall>i. length (?k i) = 4" "replicate 5000 7 \<noteq> ([] :: byte list)" "(1 :: nat) < 8" "\<not> WebSocketFragmentFlag ?s"
    by (simp_all add: ILibWebClient_WebSocket_GetState_def)
  moreover have "WEBSOCKET_MAX_OUTPUT_FRAMESIZE \<le> 4096" "concat [w] = w" by (simp_all add: WEBSOCKET_MAX_OUTPUT_FRAMESIZE_def)
  ultimately show ?thesis
    using client_reaches_session [OF _ _ _ _ sample_session(1) _ w, of w "[]"] w sample_session(2) by auto
qed

section \<open>From the session to the client\<close>

text \<open>The frames of a buffer that is sent.\<close>

function session_items :: "byte list \<Rightarrow> ws_item list \<times> byte list" where
  "session_items buffer =
     (if length buffer \<le> WEBSOCKET_MAX_OUTPUT_FRAMESIZE then ([], buffer)
      else let (is, d) = session_items (drop WEBSOCKET_MAX_OUTPUT_FRAMESIZE buffer)
           in (Piece None (take WEBSOCKET_MAX_OUTPUT_FRAMESIZE buffer) # is, d))"
  by pat_completeness auto
termination by (relation "measure length") (auto simp: WEBSOCKET_MAX_OUTPUT_FRAMESIZE_def)

declare session_items.simps [simp del]

lemma session_frame_bytes:
  "session_frame op d c s = (s\<lparr>SessionFragmentFlag := \<not> c\<rparr>, frame_bytes None c (if SessionFragmentFlag s then 0 else op) d)"
  by (simp add: session_frame_def frame_bytes_def flags_def WEBSOCKET_OPCODE_FRAMECONT_def)

lemma session_frames:
  "buffer \<noteq> [] \<Longrightarrow> session_items buffer = (is, d) \<Longrightarrow>
      session_send_loop op buffer True s = (s\<lparr>SessionFragmentFlag := False\<rparr>, ws_encode (if SessionFragmentFlag s then 0 else op) is None d)
    \<and> list_all item_ok is \<and> frame_ok None d \<and> concat (pieces is) @ d = buffer"
proof (induction "length buffer" arbitrary: buffer "is" s rule: less_induct)
  case less
  let ?N = WEBSOCKET_MAX_OUTPUT_FRAMESIZE
  have ok: "frame_ok None x" if "length x \<le> ?N" for x
    using that by (simp add: frame_ok_def key_ok_def frame_length_def header_length_def INT32_MAX_def WEBSOCKET_MAX_OUTPUT_FRAMESIZE_def)
  have nil: "session_send_loop op [] True s = (s, [])" for s by (simp add: session_send_loop.simps)
  show ?case
  proof (cases "length buffer \<le> ?N")
    case True
    then have "is = []" "d = buffer" using less.prems(2) by (simp_all add: session_items.simps)
    moreover have "session_send_loop op buffer True s
        = (s\<lparr>SessionFragmentFlag := False\<rparr>, frame_bytes None True (if SessionFragmentFlag s then 0 else op) buffer)"
      using True less.prems(1) by (subst session_send_loop.simps) (simp add: session_frame_bytes nil)
    ultimately show ?thesis using ok [OF True] by simp
  next
    case False
    let ?rest = "drop ?N buffer"
    obtain is' where is': "session_items ?rest = (is', d)" "is = Piece None (take ?N buffer) # is'"
      using less.prems(2) False by (subst (asm) session_items.simps) (auto split: prod.splits)
    have r: "?rest \<noteq> []" "length ?rest < length buffer" using False by (simp_all add: WEBSOCKET_MAX_OUTPUT_FRAMESIZE_def)
    note ih = less.hyps [OF r(2,1) is'(1), of "s\<lparr>SessionFragmentFlag := True\<rparr>"]
    have "session_send_loop op buffer True s = (s\<lparr>SessionFragmentFlag := False\<rparr>,
        frame_bytes None False (if SessionFragmentFlag s then 0 else op) (take ?N buffer) @ ws_encode 0 is' None d)"
      using less.prems(1) r(1) ih by (subst session_send_loop.simps) (simp add: session_frame_bytes)
    moreover have "frame_ok None (take ?N buffer)" by (rule ok) simp
    ultimately show ?thesis using ih is'(2) by simp
  qed
qed

lemma session_send:
  assumes "\<not> SessionFragmentFlag s"
  obtains "is" d where "ILibWebServer_WebSocket_Send op buffer True s = (s, ws_encode op is None d)"
    "list_all item_ok is" "frame_ok None d" "concat (pieces is) @ d = buffer"
proof -
  have s: "s\<lparr>SessionFragmentFlag := False\<rparr> = s" using assms by (cases s) simp
  show thesis
  proof (cases "length buffer > WEBSOCKET_MAX_OUTPUT_FRAMESIZE")
    case True
    obtain "is" d where i: "session_items buffer = (is, d)" by (cases "session_items buffer") auto
    have "buffer \<noteq> []" using True by auto
    then show thesis using session_frames [OF _ i, of op s] True assms s
      by (intro that [of "is" d]) (auto simp: ILibWebServer_WebSocket_Send_def)
  next
    case False
    then have "frame_ok None buffer"
      by (simp add: frame_ok_def key_ok_def frame_length_def header_length_def INT32_MAX_def WEBSOCKET_MAX_OUTPUT_FRAMESIZE_def)
    then show thesis using False assms s
      by (intro that [of "[]" buffer]) (simp_all add: ILibWebServer_WebSocket_Send_def session_frame_bytes)
  qed
qed

text \<open>C14 (roundtrip): What \<open>ILibWebServer_WebSocket_Send\<close> writes for a buffer, also an empty one, a client that reassembles messages of that
  length reads as that buffer, once and complete, however the network cuts it into reads.\<close>

theorem session_reaches_client:
  assumes "\<not> SessionFragmentFlag s" "op < 8" "ws_mid st [] False" "length buffer \<le> WebSocketFragmentMaxBufferSize st"
    and "ILibWebServer_WebSocket_Send op buffer True s = (s', w)" "concat (b # bs) = w"
  shows "s' = s \<and> (\<exists>st' es. ws_receives (b # bs) (Some st, [], False) = Some ((Some st', [], False), es)
    \<and> ws_mid st' [] False \<and> filter data_event es = [OnResponse MoreDataToBeReceived buffer])"
proof -
  obtain "is" d where f: "ILibWebServer_WebSocket_Send op buffer True s = (s, ws_encode op is None d)"
    "list_all item_ok is" "frame_ok None d" "concat (pieces is) @ d = buffer"
    by (rule session_send [OF assms(1)])
  have "s' = s" and w: "concat (b # bs) = ws_encode op is None d" using f(1) assms(5,6) by simp_all
  then show ?thesis using receive_message [OF assms(3,2) f(2,3) w] f(4) assms(4) by (auto simp: delivery_client)
qed

lemma session_reaches_client_witness:
  "\<exists>st' es. ws_receives [snd (ILibWebServer_WebSocket_Send 1 (replicate 5000 7) True sample_session)]
      (Some (ILibWebClient_WebSocket_GetState 65535), [], False) = Some ((Some st', [], False), es)
    \<and> filter data_event es = [OnResponse MoreDataToBeReceived (replicate 5000 7)]"
proof -
  obtain s' w where w: "ILibWebServer_WebSocket_Send 1 (replicate 5000 7) True sample_session = (s', w)"
    by (cases "ILibWebServer_WebSocket_Send 1 (replicate 5000 7) True sample_session") auto
  have "length (replicate 5000 (7 :: byte)) \<le> WebSocketFragmentMaxBufferSize (ILibWebClient_WebSocket_GetState 65535)"
    "(1 :: nat) < 8" "concat [w] = w" by (simp_all add: ILibWebClient_WebSocket_GetState_def)
  then show ?thesis using session_reaches_client [OF sample_session(4) _ sample_stream(1) _ w, of w "[]"] w by auto
qed

section \<open>Frames that are too large\<close>

text \<open>The room for one more frame, after the buffer was handed to the user or doubled.\<close>

definition frame_room :: "ILibWebServer_Session_SystemData \<Rightarrow> nat" where
  "frame_room s = (if SessionFragmentBufferSize s = SessionFragmentMaxBufferSize s then SessionFragmentMaxBufferSize s
     else SessionFragmentBufferSize s * 2 - SessionFragmentIndex s)"

lemma session_data_exits:
  assumes "session_mid U s p c" "\<not> (f \<and> p = [] \<and> \<not> c)" "frame_room s < length d" "length p + length d \<le> INT32_MAX"
  shows "\<exists>s' es. session_data f op d s = Some (s', es @ [ProcessExit 254])"
proof -
  let ?s = "if op \<noteq> 0 then s\<lparr>SessionDataFrameType := op\<rparr> else s"
  note mid = session_mid_size [OF assms(1)] session_mid_max [OF assms(1)]
  have p: "SessionFragmentBuffer s = p" "SessionFragmentIndex s = length p" "length p \<le> SessionFragmentBufferSize s"
    "SessionCouldNotAutoReassemble s = c" "SessionFragmentMaxBufferSize s + U \<le> INT32_MAX" using assms(1) by (auto simp: session_mid_def)
  have le: "SessionFragmentBufferSize s \<le> length p + length d"
    using assms(3) p(2) by (auto simp: frame_room_def split: if_splits)
  have "\<exists>s' es. make_room (length d) ?s = Some (s', es) \<and> SessionFragmentBufferSize s' - SessionFragmentIndex s' < length d"
  proof (cases "SessionFragmentBufferSize s = SessionFragmentMaxBufferSize s")
    case True
    then show ?thesis using assms(3,4) le p by (auto simp: make_room_def frame_room_def)
  next
    case False
    then show ?thesis using assms(3,4) le p mid by (auto simp: make_room_def frame_room_def)
  qed
  then show ?thesis using assms(2) p mid(4) by (cases "op = 0") (auto simp: session_data_def Let_def)
qed

text \<open>C15 (error): A frame can end the process.  A frame of a message in several frames that does not fit after the buffer grew, once and at most to
  twice its size, is copied all the same; the copy checks its bounds and exits with code 254.  Whoever may send to
  the session can so stop the program with one frame.\<close>

theorem large_fragment_exits:
  assumes "session_mid U s p c" "\<not> (f \<and> p = [] \<and> \<not> c)" "frame_room s < length d" "length p + length d \<le> INT32_MAX"
    and "op < 8" "frame_ok k d"
  shows "\<exists>s' es. session_receives [frame_bytes k f op d @ rest] (s, [], False) = Some ((s', [], True), es @ [ProcessExit 254])"
proof -
  obtain s' es where s: "session_data f op d s = Some (s', es @ [ProcessExit 254])" using session_data_exits [OF assms(1-4)] by blast
  have "has_OnReceive s" using assms(1) by (simp add: session_mid_def)
  then have "ILibWebServer_OnReceive_WebSocket (frame_bytes k f op d @ rest) s = Some (s', es @ [ProcessExit 254], frame_length k (length d))"
    using OnReceive_frame [of op k d s f rest] assms(5,6) s by simp
  then have "session_drain (frame_bytes k f op d @ rest) s = Some (s', es @ [ProcessExit 254], [], True)"
    by (subst async_drain.simps) simp
  then show ?thesis by (simp add: async_receive_def)
qed

text \<open>A session with at most 8192 bytes and a first frame of 8193.\<close>

lemma large_fragment_exits_witness:
  "\<exists>s' es. session_receives [frame_bytes None False 1 (replicate 8193 0) @ []] (sample_session, [], False) = Some ((s', [], True), es @ [ProcessExit 254])"
proof -
  have "SessionFragmentIndex sample_session = 0" using sample_session(1) by (simp add: session_mid_def)
  then have "\<not> (False \<and> [] = [] \<and> \<not> False)" "frame_room sample_session < length (replicate 8193 (0 :: byte))"
    "length [] + length (replicate 8193 (0 :: byte)) \<le> INT32_MAX" "(1 :: nat) < 8" "frame_ok None (replicate 8193 0)"
    using sample_session(2,3)
    by (simp_all add: frame_room_def INT32_MAX_def frame_ok_def key_ok_def frame_length_def header_length_def)
  then show ?thesis by (rule large_fragment_exits [OF sample_session(1)])
qed

section \<open>Control frames between data frames\<close>

text \<open>While a message is sent in several frames, the answer to a ping is its end: the final frame of a continuation, without payload.\<close>

lemma ping_while_sending:
  "SessionFragmentFlag s \<Longrightarrow>
   session_control WEBSOCKET_OPCODE_PING d rest s = Some (s\<lparr>SessionFragmentFlag := False\<rparr>, [Written (frame_bytes None True 0 [])])"
  by (simp add: session_control_def ILibWebServer_WebSocket_Send_def session_frame_bytes WEBSOCKET_OPCODEs)

lemma frame_ok_small: "length d \<le> WEBSOCKET_MAX_OUTPUT_FRAMESIZE \<Longrightarrow> frame_ok None d"
  by (simp add: frame_ok_def key_ok_def frame_length_def header_length_def INT32_MAX_def WEBSOCKET_MAX_OUTPUT_FRAMESIZE_def)

text \<open>C16 (error): A ping cuts a message in two.  The session sends the first part of a message as a fragment, the client pings, and the session sends
  the last part.  The pong is written with \<open>ILibWebServer_WebSocket_Send\<close>, which takes it for the end of the message, so that the client
  reads two messages, and no pong.\<close>

theorem ping_cuts_message:
  assumes "\<not> SessionFragmentFlag s" "op < 8" "length d1 \<le> WEBSOCKET_MAX_OUTPUT_FRAMESIZE" "length d2 \<le> WEBSOCKET_MAX_OUTPUT_FRAMESIZE"
    and "ILibWebServer_WebSocket_Send op d1 False s = (s1, w1)"
    and "session_control WEBSOCKET_OPCODE_PING d rest s1 = Some (s2, [Written w2])"
    and "ILibWebServer_WebSocket_Send op d2 True s2 = (s3, w3)"
    and "ws_mid st [] False" "length d1 \<le> WebSocketFragmentMaxBufferSize st"
  shows "\<exists>st' es. ws_receives [w1 @ w2, w3] (Some st, [], False) = Some ((Some st', [], False), es) \<and> PongReceived \<notin> set es
    \<and> filter data_event es = [OnResponse MoreDataToBeReceived d1, OnResponse MoreDataToBeReceived d2]"
proof -
  have w: "s1 = s\<lparr>SessionFragmentFlag := True\<rparr>" "w1 = frame_bytes None False op d1"
    using assms(1,3,5) by (simp_all add: ILibWebServer_WebSocket_Send_def session_frame_bytes)
  have w2: "s2 = s1\<lparr>SessionFragmentFlag := False\<rparr>" "w2 = frame_bytes None True 0 []"
    using assms(6) ping_while_sending [of s1 d rest] w(1) by simp_all
  have w3: "w3 = frame_bytes None True op d2"
    using assms(4,7) w2(1) by (simp add: ILibWebServer_WebSocket_Send_def session_frame_bytes)
  have 1: "concat [w1 @ w2] = ws_encode op [Piece None d1] None []" "list_all item_ok [Piece None d1]"
    "frame_ok None []" using w(2) w2(2) frame_ok_small [OF assms(3)] frame_ok_small [of "[]"] by simp_all
  obtain st1 es1 where r1: "ws_receives [w1 @ w2] (Some st, [], False) = Some ((Some st1, [], False), es1)" "ws_mid st1 [] False"
    "set es1 \<subseteq> {SendPong} \<union> Collect data_event" "filter data_event es1 = [OnResponse MoreDataToBeReceived d1]"
    using receive_message [OF assms(8,2) 1(2,3,1)] assms(9) by (auto simp: delivery_client)
  have 2: "concat [w3] = ws_encode op [] None d2" "list_all item_ok []" "frame_ok None d2"
    using w3 frame_ok_small [OF assms(4)] by simp_all
  obtain st2 es2 where r2: "ws_receives [w3] (Some st1, [], False) = Some ((Some st2, [], False), es2)"
    "set es2 \<subseteq> {SendPong} \<union> Collect data_event" "filter data_event es2 = [OnResponse MoreDataToBeReceived d2]"
    using receive_message [OF r1(2) assms(2) 2(2,3,1)] by (auto simp: delivery_client)
  have "ws_receives [w1 @ w2, w3] (Some st, [], False) = Some ((Some st2, [], False), es1 @ es2)"
    using r1(1) r2(1) by (auto split: Option.bind_splits)
  moreover have "PongReceived \<notin> set (es1 @ es2)" using r1(3) r2(2) by auto
  ultimately show ?thesis using r1(4) r2(3) by auto
qed

lemma ping_cuts_message_witness:
  "\<exists>st' es. ws_receives [frame_bytes None False 1 [65] @ frame_bytes None True 0 [], frame_bytes None True 1 [66]]
      (Some (ILibWebClient_WebSocket_GetState 65535), [], False) = Some ((Some st', [], False), es)
    \<and> filter data_event es = [OnResponse MoreDataToBeReceived [65], OnResponse MoreDataToBeReceived [66]]"
proof -
  let ?s = "sample_session\<lparr>SessionFragmentFlag := True\<rparr>"
  have 1: "ILibWebServer_WebSocket_Send 1 [65] False sample_session = (?s, frame_bytes None False 1 [65])"
    using sample_session(4) by (simp add: ILibWebServer_WebSocket_Send_def session_frame_bytes WEBSOCKET_MAX_OUTPUT_FRAMESIZE_def)
  have 2: "session_control WEBSOCKET_OPCODE_PING [] [] ?s = Some (?s\<lparr>SessionFragmentFlag := False\<rparr>, [Written (frame_bytes None True 0 [])])"
    by (rule ping_while_sending) simp
  have 3: "ILibWebServer_WebSocket_Send 1 [66] True (?s\<lparr>SessionFragmentFlag := False\<rparr>)
      = (?s\<lparr>SessionFragmentFlag := False\<rparr>, frame_bytes None True 1 [66])"
    by (simp add: ILibWebServer_WebSocket_Send_def session_frame_bytes WEBSOCKET_MAX_OUTPUT_FRAMESIZE_def)
  have l: "length [65 :: byte] \<le> WEBSOCKET_MAX_OUTPUT_FRAMESIZE" "length [66 :: byte] \<le> WEBSOCKET_MAX_OUTPUT_FRAMESIZE"
    "length [65 :: byte] \<le> WebSocketFragmentMaxBufferSize (ILibWebClient_WebSocket_GetState 65535)"
    by (simp_all add: WEBSOCKET_MAX_OUTPUT_FRAMESIZE_def ILibWebClient_WebSocket_GetState_def)
  show ?thesis
    using ping_cuts_message [OF sample_session(4) _ l(1,2) 1 2 3 sample_stream(1) l(3)] by auto
qed

end
