(* ===== verification/LifeTime.thy ===== *)
theory LifeTime
  imports CStrings
begin

text \<open>
  The timers of microstack/ILibParsers.c (\<open>ILibLifeTime_*\<close>).  A module keeps its timers in a linked list, ordered by
  the time at which they expire; the chain calls \<open>ILibLifeTime_Check\<close> before it sleeps, which fires the timers that are due and
  says how long the chain may sleep.

  The three linked lists are modelled by their contents.  A callback is what it does to the timers: \<open>cb\<close> gives, for
  the timer that fires and the state at that moment, the calls that are made meanwhile, with the times the clock shows.  Callbacks
  run while \<open>ILibLifeTime_Check\<close> works through its list of due timers and may cancel some of them.  A destroy handler is an
  event; it is assumed not to call the timer functions.

  Left out: the file and line kept for diagnostics, the locks, and uses of a module after it was destroyed.
\<close>

section \<open>State\<close>

text \<open>The clock on POSIX systems, from the seconds and nanoseconds of the monotonic clock.\<close>

definition ILibGetUptime :: "nat \<Rightarrow> nat \<Rightarrow> int" where
  "ILibGetUptime tv_sec tv_nsec = int tv_sec * 1000 + (int tv_nsec div 1000) mod 1000"

text \<open>\<open>token\<close> is the address of the timer, by which it is known; tokens are given out in order.\<close>

record LifeTimeMonitorData =
  token :: nat
  ExpirationTick :: int
  timer_data :: addr
  CallbackPtr :: nat
  DestroyPtr :: "nat option"
  metadata :: "byte list option"

text \<open>
  \<open>Dropped\<close> marks a timer taken out of the lists to be freed: its destroy handler is called, if it has one.  \<open>DestroyNow\<close> is
  the call of the handler when there is no module.
\<close>

datatype lt_event =
    Fired LifeTimeMonitorData
  | Dropped LifeTimeMonitorData
  | UnBlockChain
  | DestroyNow nat addr

record ILibLifeTime =
  NextTriggerTick :: int
  CurrentTriggeredMetaData :: "byte list option"
  DeleteList :: "addr list"
  ObjectList :: "LifeTimeMonitorData list"
  ActiveList :: "LifeTimeMonitorData list option"
  nextToken :: nat
  trace :: "lt_event list"

definition ILibCreateLifeTime :: ILibLifeTime where
  "ILibCreateLifeTime = \<lparr>NextTriggerTick = 0, CurrentTriggeredMetaData = None, DeleteList = [], ObjectList = [],
     ActiveList = None, nextToken = 0, trace = []\<rparr>"

definition event :: "lt_event \<Rightarrow> ILibLifeTime \<Rightarrow> ILibLifeTime" where
  "event e L = L\<lparr>trace := trace L @ [e]\<rparr>"

section \<open>Operations\<close>

definition ILibLifeTime_Count :: "ILibLifeTime \<Rightarrow> nat" where
  "ILibLifeTime_Count L = length (ObjectList L)"

definition ILibLifeTime_GetExpiration :: "addr \<Rightarrow> ILibLifeTime \<Rightarrow> int" where
  "ILibLifeTime_GetExpiration d L =
     (case find (\<lambda>t. timer_data t = d) (ObjectList L) of None \<Rightarrow> -1 | Some t \<Rightarrow> ExpirationTick t)"

definition ILibChain_GetMinimumTimer :: "int \<Rightarrow> ILibLifeTime \<Rightarrow> int" where
  "ILibChain_GetMinimumTimer current L =
     (case ObjectList L of [] \<Rightarrow> -1 | t # _ \<Rightarrow> signed_take_bit 31 (ExpirationTick t - current))"

definition ILibLifeTime_GetCurrentTriggeredMetadata :: "ILibLifeTime \<Rightarrow> byte list option" where
  "ILibLifeTime_GetCurrentTriggeredMetadata L = CurrentTriggeredMetaData L"

text \<open>
  Removing from another thread only notes the data, for the thread of the chain to remove.  The result is 1 when that is so.
\<close>

definition ILibLifeTime_Remove :: "bool \<Rightarrow> addr \<Rightarrow> ILibLifeTime \<Rightarrow> ILibLifeTime \<times> nat" where
  "ILibLifeTime_Remove on_chain d L =
     (if \<not> on_chain
      then (if \<exists>t \<in> set (ObjectList L). timer_data t = d
            then (event UnBlockChain (L\<lparr>DeleteList := DeleteList L @ [d]\<rparr>), 1) else (L, 0))
      else let EventQueue = [t \<leftarrow> ObjectList L. timer_data t = d];
               L = L\<lparr>ObjectList := [t \<leftarrow> ObjectList L. timer_data t \<noteq> d]\<rparr>;
               (EventQueue, L) = (case ActiveList L of None \<Rightarrow> (EventQueue, L)
                 | Some act \<Rightarrow> (EventQueue @ [t \<leftarrow> act. timer_data t = d],
                                 L\<lparr>ActiveList := Some [t \<leftarrow> act. timer_data t \<noteq> d]\<rparr>))
           in (L\<lparr>trace := trace L @ map Dropped EventQueue\<rparr>, 0))"

fun insert_timer :: "LifeTimeMonitorData \<Rightarrow> LifeTimeMonitorData list \<Rightarrow> LifeTimeMonitorData list" where
  "insert_timer ltms [] = [ltms]"
| "insert_timer ltms (t # ts) =
     (if ExpirationTick ltms < ExpirationTick t then ltms # t # ts else t # insert_timer ltms ts)"

definition expiration :: "int \<Rightarrow> int \<Rightarrow> int" where
  "expiration now ms = (if ms \<noteq> 0 then now + ms else 0)"

text \<open>The result is the token.  The metadata has at most 512 bytes; a longer one does not fit in its copy.\<close>

definition ILibLifeTime_AddEx4 ::
  "bool \<Rightarrow> int \<Rightarrow> addr \<Rightarrow> int \<Rightarrow> nat \<Rightarrow> nat option \<Rightarrow> byte list option \<Rightarrow> ILibLifeTime \<Rightarrow> ILibLifeTime \<times> nat" where
  "ILibLifeTime_AddEx4 on_chain now d ms Callback Destroy md L =
     (let L = fst (ILibLifeTime_Remove on_chain d L);
          ltms = \<lparr>token = nextToken L, ExpirationTick = expiration now ms, timer_data = d, CallbackPtr = Callback,
                  DestroyPtr = Destroy, metadata = map_option (\<lambda>m. m @ [0]) md\<rparr>;
          L = L\<lparr>nextToken := nextToken L + 1, ObjectList := insert_timer ltms (ObjectList L)\<rparr>;
          L = (if hd (ObjectList L) = ltms then event UnBlockChain L else L);
          L = (if NextTriggerTick L > ExpirationTick ltms \<or> NextTriggerTick L = -1
               then L\<lparr>NextTriggerTick := ExpirationTick ltms\<rparr> else L)
      in (L, token ltms))"

text \<open>
  The metadata is a block of memory that ends with a 0.  More is appended behind its last byte; \<open>m0\<close> is what the new
  memory holds.
\<close>

definition append_metadata :: "(nat \<Rightarrow> byte) \<Rightarrow> byte list \<Rightarrow> nat \<Rightarrow> byte list option \<Rightarrow> byte list" where
  "append_metadata m0 md metadataLen block =
     (let len = (if metadataLen = 0 then min 512 (length md) else metadataLen);
          old = (case block of None \<Rightarrow> [] | Some b \<Rightarrow> butlast b);
          text = take (len + 2) ((if old = [] then [] else str '', '') @ md)
      in old @ text @ [0] @ map m0 [length text + 1..<len + 3])"

text \<open>A token that is in neither list is a dangling pointer.\<close>

definition ILibLifeTime_SetMetadata ::
  "(nat \<Rightarrow> byte) \<Rightarrow> nat \<Rightarrow> byte list \<Rightarrow> nat \<Rightarrow> ILibLifeTime \<Rightarrow> ILibLifeTime option" where
  "ILibLifeTime_SetMetadata m0 obj md metadataLen L =
     (let set_one = (\<lambda>t. if token t = obj then t\<lparr>metadata := Some (append_metadata m0 md metadataLen (metadata t))\<rparr> else t) in
      if obj \<in> token ` (set (ObjectList L) \<union> set (case ActiveList L of None \<Rightarrow> [] | Some act \<Rightarrow> act))
      then Some (L\<lparr>ObjectList := map set_one (ObjectList L), ActiveList := map_option (map set_one) (ActiveList L)\<rparr>)
      else None)"

section \<open>Firing\<close>

text \<open>The calls made while a callback runs: by the callback, on the thread of the chain, or by other threads.\<close>

datatype timer_call =
    Call_Add bool int addr int nat "nat option" "byte list option"
  | Call_Remove bool addr

definition run_call :: "ILibLifeTime \<Rightarrow> timer_call \<Rightarrow> ILibLifeTime" where
  "run_call L c = (case c of
     Call_Add on_chain now d ms Callback Destroy md \<Rightarrow> fst (ILibLifeTime_AddEx4 on_chain now d ms Callback Destroy md L)
   | Call_Remove on_chain d \<Rightarrow> fst (ILibLifeTime_Remove on_chain d L))"

type_synonym callbacks = "LifeTimeMonitorData \<Rightarrow> ILibLifeTime \<Rightarrow> timer_call list"

definition fire :: "callbacks \<Rightarrow> LifeTimeMonitorData \<Rightarrow> ILibLifeTime \<Rightarrow> ILibLifeTime" where
  "fire cb EVT L =
     (let L = event (Fired EVT) (L\<lparr>CurrentTriggeredMetaData := metadata EVT\<rparr>);
          L = foldl run_call L (cb EVT L)
      in L\<lparr>CurrentTriggeredMetaData := None\<rparr>)"

definition active :: "ILibLifeTime \<Rightarrow> LifeTimeMonitorData list" where
  "active L = (case ActiveList L of None \<Rightarrow> [] | Some act \<Rightarrow> act)"

text \<open>Every round takes a timer from the list of due timers, and callbacks only shorten it.\<close>

lemma active_run_call: "length (active (run_call L c)) \<le> length (active L)"
  by (auto simp: active_def run_call_def ILibLifeTime_AddEx4_def ILibLifeTime_Remove_def event_def Let_def
      split: timer_call.split option.split)

lemma active_run_calls: "length (active (foldl run_call L cs)) \<le> length (active L)"
  by (induction cs arbitrary: L) (auto intro: order.trans [OF _ active_run_call])

lemma active_fire: "length (active (fire cb EVT L)) \<le> length (active L)"
  using active_run_calls [of "event (Fired EVT) (L\<lparr>CurrentTriggeredMetaData := metadata EVT\<rparr>)"]
  by (simp add: fire_def Let_def active_def event_def)

lemma active_next: "active L = EVT # act \<Longrightarrow> length (active (fire cb EVT (L\<lparr>ActiveList := Some act\<rparr>))) < length (active L)"
  using active_fire [of cb EVT "L\<lparr>ActiveList := Some act\<rparr>"] by (simp add: active_def)

function dispatch :: "callbacks \<Rightarrow> ILibLifeTime \<Rightarrow> ILibLifeTime" where
  "dispatch cb L = (case active L of [] \<Rightarrow> L
     | EVT # act \<Rightarrow> dispatch cb (fire cb EVT (L\<lparr>ActiveList := Some act\<rparr>)))"
  by pat_completeness auto
termination
proof (relation "measure (\<lambda>(cb, L). length (active L))", rule wf_measure)
  fix cb L EVT act
  assume "active L = EVT # act"
  then show "((cb, fire cb EVT (L\<lparr>ActiveList := Some act\<rparr>)), (cb, L)) \<in> measure (\<lambda>(cb, L). length (active L))"
    using active_next by simp
qed

declare dispatch.simps [simp del]

definition due :: "int \<Rightarrow> LifeTimeMonitorData \<Rightarrow> bool" where
  "due CurrentTick t \<longleftrightarrow> ExpirationTick t = 0 \<or> ExpirationTick t < CurrentTick"

text \<open>The scan of the list: the due timers, the others, and the least time among these.\<close>

fun next_tick :: "int \<Rightarrow> LifeTimeMonitorData list \<Rightarrow> int" where
  "next_tick n [] = n"
| "next_tick n (t # ts) = next_tick (if n = -1 \<or> ExpirationTick t < n then ExpirationTick t else n) ts"

definition delete_deferred :: "ILibLifeTime \<Rightarrow> ILibLifeTime" where
  "delete_deferred L = foldl (\<lambda>L d. fst (ILibLifeTime_Remove True d L)) (L\<lparr>DeleteList := []\<rparr>) (DeleteList L)"

text \<open>The result is the state and the new value of \<open>*blocktime\<close>; the differences are cast to \<open>int\<close>.\<close>

definition ILibLifeTime_Check :: "callbacks \<Rightarrow> int \<Rightarrow> int \<Rightarrow> ILibLifeTime \<Rightarrow> ILibLifeTime \<times> int" where
  "ILibLifeTime_Check cb CurrentTick blocktime L =
     (let L = delete_deferred L; delta = signed_take_bit 31 (NextTriggerTick L - CurrentTick) in
      if NextTriggerTick L \<noteq> 0 \<and> NextTriggerTick L > CurrentTick \<and> NextTriggerTick L \<noteq> -1 \<and> blocktime > delta
      then (L, delta)
      else let rest = [t \<leftarrow> ObjectList L. \<not> due CurrentTick t];
               L = L\<lparr>NextTriggerTick := next_tick (-1) rest, ActiveList := Some [t \<leftarrow> ObjectList L. due CurrentTick t],
                     ObjectList := rest\<rparr>;
               L = (dispatch cb L)\<lparr>ActiveList := None\<rparr>;
               delta = signed_take_bit 31 (NextTriggerTick L - CurrentTick)
           in (L, if NextTriggerTick L \<noteq> -1 \<and> blocktime > delta
                  then (if delta < 1000 then 1000 else delta) else blocktime))"

definition ILibLifeTime_Flush :: "ILibLifeTime \<Rightarrow> ILibLifeTime" where
  "ILibLifeTime_Flush L = L\<lparr>ObjectList := [], trace := trace L @ map Dropped (ObjectList L)\<rparr>"

definition ILibLifeTime_Destroy :: "ILibLifeTime \<Rightarrow> ILibLifeTime" where
  "ILibLifeTime_Destroy L = ILibLifeTime_Flush L"

end
