(* ===== verification/LifeTimeProps.thy ===== *)
theory LifeTimeProps
  imports LifeTime "HOL-Library.Multiset" "HOL-Library.Sublist"
begin

text \<open>
  Properties of the timers: the list stays ordered and \<open>NextTriggerTick\<close> a lower bound, every timer ends once, \<open>ILibLifeTime_Check\<close>
  fires what is due and nothing else, how long the chain sleeps, and what happens to a timer set again by another thread.
\<close>

section \<open>What the operations do to the lists\<close>

lemma event_simps [simp]:
  "NextTriggerTick (event e L) = NextTriggerTick L" "DeleteList (event e L) = DeleteList L" "ObjectList (event e L) = ObjectList L"
  "ActiveList (event e L) = ActiveList L" "nextToken (event e L) = nextToken L" "trace (event e L) = trace L @ [e]"
  "active (event e L) = active L"
  by (simp_all add: event_def active_def)

lemma active_upd [simp]:
  "active (L\<lparr>NextTriggerTick := x\<rparr>) = active L" "active (L\<lparr>DeleteList := ds\<rparr>) = active L" "active (L\<lparr>ObjectList := ts\<rparr>) = active L"
  "active (L\<lparr>nextToken := n\<rparr>) = active L" "active (L\<lparr>trace := es\<rparr>) = active L" "active (L\<lparr>CurrentTriggeredMetaData := m\<rparr>) = active L"
  "active (L\<lparr>ActiveList := Some act\<rparr>) = act" "active (L\<lparr>ActiveList := None\<rparr>) = []"
  by (simp_all add: active_def)

lemma mset_insert_timer [simp]: "mset (insert_timer t ts) = add_mset t (mset ts)"
  by (induction ts) auto

lemma set_insert_timer [simp]: "set (insert_timer t ts) = insert t (set ts)"
  by (induction ts) auto

lemma sorted_insert_timer: "sorted (map ExpirationTick ts) \<Longrightarrow> sorted (map ExpirationTick (insert_timer t ts))"
  by (induction ts) auto

lemma filter_insert_timer: "\<not> P t \<Longrightarrow> filter P (insert_timer t ts) = filter P ts"
  by (induction ts) auto

text \<open>Removing on the thread of the chain.\<close>

lemma Remove_on_chain:
  "ObjectList (fst (ILibLifeTime_Remove True d L)) = [t \<leftarrow> ObjectList L. timer_data t \<noteq> d]"
  "active (fst (ILibLifeTime_Remove True d L)) = [t \<leftarrow> active L. timer_data t \<noteq> d]"
  "trace (fst (ILibLifeTime_Remove True d L)) =
     trace L @ map Dropped ([t \<leftarrow> ObjectList L. timer_data t = d] @ [t \<leftarrow> active L. timer_data t = d])"
  "NextTriggerTick (fst (ILibLifeTime_Remove True d L)) = NextTriggerTick L"
  "nextToken (fst (ILibLifeTime_Remove True d L)) = nextToken L"
  "DeleteList (fst (ILibLifeTime_Remove True d L)) = DeleteList L"
  "ActiveList L = None \<Longrightarrow> ActiveList (fst (ILibLifeTime_Remove True d L)) = None"
  by (simp_all add: ILibLifeTime_Remove_def active_def Let_def split: option.split)

lemma Remove_off_chain:
  "ObjectList (fst (ILibLifeTime_Remove False d L)) = ObjectList L"
  "active (fst (ILibLifeTime_Remove False d L)) = active L"
  "ActiveList (fst (ILibLifeTime_Remove False d L)) = ActiveList L"
  "\<exists>us. set us \<subseteq> {UnBlockChain} \<and> trace (fst (ILibLifeTime_Remove False d L)) = trace L @ us"
  "NextTriggerTick (fst (ILibLifeTime_Remove False d L)) = NextTriggerTick L"
  "nextToken (fst (ILibLifeTime_Remove False d L)) = nextToken L"
  by (simp_all add: ILibLifeTime_Remove_def)

section \<open>The order of the list\<close>

definition timers_ok :: "ILibLifeTime \<Rightarrow> bool" where
  "timers_ok L \<longleftrightarrow> sorted (map ExpirationTick (ObjectList L)) \<and> -1 \<le> NextTriggerTick L
     \<and> (\<forall>t \<in> set (ObjectList L). 0 \<le> ExpirationTick t \<and> NextTriggerTick L \<noteq> -1 \<and> NextTriggerTick L \<le> ExpirationTick t)"

lemma timers_ok_sub:
  assumes "timers_ok L" "ObjectList L' = filter P (ObjectList L)" "NextTriggerTick L' = NextTriggerTick L"
  shows "timers_ok L'"
proof -
  have "sorted (map ExpirationTick (filter P (ObjectList L)))"
    using assms(1) by (simp add: timers_ok_def sorted_filter)
  then show ?thesis using assms by (auto simp: timers_ok_def)
qed

lemma timers_ok_upd [simp]:
  "timers_ok (L\<lparr>CurrentTriggeredMetaData := m\<rparr>) = timers_ok L" "timers_ok (L\<lparr>ActiveList := a\<rparr>) = timers_ok L"
  "timers_ok (L\<lparr>DeleteList := ds\<rparr>) = timers_ok L" "timers_ok (L\<lparr>nextToken := n\<rparr>) = timers_ok L"
  "timers_ok (L\<lparr>trace := es\<rparr>) = timers_ok L" "timers_ok (event e L) = timers_ok L"
  by (simp_all add: timers_ok_def)

lemma Remove_timers_ok: "timers_ok L \<Longrightarrow> timers_ok (fst (ILibLifeTime_Remove on_chain d L))"
  by (cases on_chain) (auto intro: timers_ok_sub simp: Remove_on_chain ILibLifeTime_Remove_def [of False])

lemma AddEx4_timers_ok:
  assumes "timers_ok L" "0 \<le> now" "0 \<le> ms"
  shows "timers_ok (fst (ILibLifeTime_AddEx4 on_chain now d ms c ds md L))"
proof -
  define L1 where "L1 = fst (ILibLifeTime_Remove on_chain d L)"
  have "timers_ok L1" using Remove_timers_ok [OF assms(1)] by (simp add: L1_def)
  moreover have "0 \<le> expiration now ms" using assms by (simp add: expiration_def)
  ultimately show ?thesis
    unfolding ILibLifeTime_AddEx4_def L1_def [symmetric] Let_def
    by (auto simp: timers_ok_def intro: sorted_insert_timer split: if_splits)
qed

definition call_ok :: "timer_call \<Rightarrow> bool" where
  "call_ok c = (case c of Call_Add _ now _ ms _ _ _ \<Rightarrow> 0 \<le> now \<and> 0 \<le> ms | Call_Remove _ _ \<Rightarrow> True)"

definition calls_ok :: "callbacks \<Rightarrow> bool" where
  "calls_ok cb \<longleftrightarrow> (\<forall>t L. \<forall>c \<in> set (cb t L). call_ok c)"

lemma run_calls_timers_ok: "timers_ok L \<Longrightarrow> \<forall>c \<in> set cs. call_ok c \<Longrightarrow> timers_ok (foldl run_call L cs)"
  by (induction cs arbitrary: L)
    (auto simp: run_call_def call_ok_def AddEx4_timers_ok Remove_timers_ok split: timer_call.split)

lemma fire_timers_ok: "calls_ok cb \<Longrightarrow> timers_ok L \<Longrightarrow> timers_ok (fire cb EVT L)"
  unfolding fire_def Let_def by (simp add: run_calls_timers_ok calls_ok_def)

lemma dispatch_timers_ok: "calls_ok cb \<Longrightarrow> timers_ok L \<Longrightarrow> timers_ok (dispatch cb L)"
  by (induction cb L rule: dispatch.induct) (subst dispatch.simps, simp add: fire_timers_ok split: list.split)

lemma next_tick_bound:
  "-1 \<le> n \<Longrightarrow> \<forall>t \<in> set ts. 0 \<le> ExpirationTick t \<Longrightarrow>
     (next_tick n ts = -1 \<longleftrightarrow> ts = [] \<and> n = -1) \<and> -1 \<le> next_tick n ts \<and> (n \<noteq> -1 \<longrightarrow> next_tick n ts \<le> n)
     \<and> (\<forall>t \<in> set ts. next_tick n ts \<le> ExpirationTick t)"
proof (induction ts arbitrary: n)
  case (Cons t ts)
  define n' where "n' = (if n = -1 \<or> ExpirationTick t < n then ExpirationTick t else n)"
  have n': "-1 < n'" "n' \<le> ExpirationTick t" "n \<noteq> -1 \<Longrightarrow> n' \<le> n" using Cons.prems by (auto simp: n'_def)
  have "next_tick n (t # ts) = next_tick n' ts" by (simp add: n'_def)
  then show ?case using Cons.IH [of n'] Cons.prems n' by force
qed simp

lemma delete_deferred_fold:
  "delete_deferred L = fold (\<lambda>d L. fst (ILibLifeTime_Remove True d L)) (DeleteList L) (L\<lparr>DeleteList := []\<rparr>)"
  by (simp add: delete_deferred_def foldl_conv_fold)

lemma delete_deferred_timers_ok: "timers_ok L \<Longrightarrow> timers_ok (delete_deferred L)"
  unfolding delete_deferred_fold
  by (rule fold_invariant [where Q = "\<lambda>_. True"]) (auto intro: Remove_timers_ok)

lemma scan_timers_ok:
  assumes "timers_ok L" "rest = filter P (ObjectList L)"
  shows "timers_ok (L\<lparr>NextTriggerTick := next_tick (-1) rest, ActiveList := a, ObjectList := rest\<rparr>)"
proof -
  have "\<forall>t \<in> set rest. 0 \<le> ExpirationTick t" using assms by (auto simp: timers_ok_def)
  moreover have "sorted (map ExpirationTick rest)" using assms by (simp add: timers_ok_def sorted_filter)
  moreover have "rest \<noteq> []" if "t \<in> set rest" for t using that by auto
  ultimately show ?thesis using next_tick_bound [of "-1" rest] unfolding timers_ok_def by fastforce
qed

lemma Check_timers_ok:
  assumes "calls_ok cb" "timers_ok L"
  shows "timers_ok (fst (ILibLifeTime_Check cb now blocktime L))"
  using assms delete_deferred_timers_ok [OF assms(2)]
  by (simp add: ILibLifeTime_Check_def Let_def dispatch_timers_ok scan_timers_ok)

section \<open>Every timer ends once\<close>

fun ended :: "lt_event \<Rightarrow> nat list" where
  "ended (Fired t) = [token t]"
| "ended (Dropped t) = [token t]"
| "ended _ = []"

definition tokens :: "ILibLifeTime \<Rightarrow> nat multiset" where
  "tokens L = mset (map token (ObjectList L)) + mset (map token (active L)) + mset (concat (map ended (trace L)))"

definition books :: "ILibLifeTime \<Rightarrow> bool" where
  "books L \<longleftrightarrow> tokens L = mset [0..<nextToken L]"

lemma books_upd [simp]: "books (L\<lparr>DeleteList := ds\<rparr>) = books L"
  by (simp add: books_def tokens_def)

lemma mset_tokens_Suc: "mset_set {0..<Suc n} = add_mset n (mset_set {0..<n})"
  by (simp add: atLeast0_lessThan_Suc)

lemma ended_Dropped [simp]: "concat (map (ended \<circ> Dropped) ts) = map token ts"
  by (induction ts) auto

lemma ended_UnBlock: "set us \<subseteq> {UnBlockChain} \<Longrightarrow> concat (map ended us) = []"
  by auto

lemma mset_filter_split: "image_mset f {#x \<in># A. P x#} + image_mset f {#x \<in># A. \<not> P x#} = image_mset f A"
  by (metis image_mset_union multiset_partition)

lemma Remove_tokens: "tokens (fst (ILibLifeTime_Remove on_chain d L)) = tokens L"
proof (cases on_chain)
  case True
  have "{#token t. t \<in># filter_mset (\<lambda>t. timer_data t \<noteq> d) (mset ts)#} + {#token t. t \<in># filter_mset (\<lambda>t. timer_data t = d) (mset ts)#}
     = {#token t. t \<in># mset ts#}" for ts
    using mset_filter_split [of token "\<lambda>t. timer_data t = d" "mset ts"] by (simp add: add.commute)
  note this [of "ObjectList L", symmetric] this [of "active L", symmetric]
  then show ?thesis using True by (simp add: tokens_def Remove_on_chain)
next
  case False
  obtain us where "set us \<subseteq> {UnBlockChain}" "trace (fst (ILibLifeTime_Remove False d L)) = trace L @ us"
    using Remove_off_chain(4) by blast
  then show ?thesis using False ended_UnBlock [of us] by (simp add: tokens_def Remove_off_chain)
qed

lemma tokens_upd [simp]:
  "tokens (L\<lparr>NextTriggerTick := x\<rparr>) = tokens L" "tokens (L\<lparr>DeleteList := ds\<rparr>) = tokens L"
  "tokens (L\<lparr>nextToken := n\<rparr>) = tokens L" "tokens (L\<lparr>CurrentTriggeredMetaData := m\<rparr>) = tokens L"
  "tokens (event UnBlockChain L) = tokens L"
  by (simp_all add: tokens_def)

lemma Remove_nextToken [simp]: "nextToken (fst (ILibLifeTime_Remove on_chain d L)) = nextToken L"
  by (cases on_chain) (simp_all add: Remove_on_chain Remove_off_chain)

lemma Remove_books: "books L \<Longrightarrow> books (fst (ILibLifeTime_Remove on_chain d L))"
  by (simp add: books_def Remove_tokens)

lemma AddEx4_books: "books L \<Longrightarrow> books (fst (ILibLifeTime_AddEx4 on_chain now d ms c ds md L))"
  using Remove_tokens [of on_chain d L]
  by (simp add: ILibLifeTime_AddEx4_def Let_def books_def) (simp add: tokens_def mset_tokens_Suc)

lemma run_calls_books: "books L \<Longrightarrow> books (foldl run_call L cs)"
  by (induction cs arbitrary: L) (auto simp: run_call_def AddEx4_books Remove_books split: timer_call.split)

lemma fire_books:
  assumes "books L" "active L = EVT # act"
  shows "books (fire cb EVT (L\<lparr>ActiveList := Some act\<rparr>))"
proof -
  have "books (event (Fired EVT) (L\<lparr>ActiveList := Some act, CurrentTriggeredMetaData := metadata EVT\<rparr>))"
    using assms by (simp add: books_def tokens_def)
  from run_calls_books [OF this] show ?thesis by (simp add: fire_def Let_def books_def)
qed

lemma dispatch_books: "books L \<Longrightarrow> books (dispatch cb L)"
  by (induction cb L rule: dispatch.induct) (subst dispatch.simps, simp add: fire_books split: list.split)

lemma dispatch_active: "active (dispatch cb L) = []"
  by (induction cb L rule: dispatch.induct) (subst dispatch.simps, simp split: list.split)

lemma delete_deferred_books: "books L \<Longrightarrow> books (delete_deferred L)"
  unfolding delete_deferred_fold
  by (rule fold_invariant [where Q = "\<lambda>_. True"]) (auto intro: Remove_books)

lemma delete_deferred_idle: "ActiveList L = None \<Longrightarrow> ActiveList (delete_deferred L) = None"
  unfolding delete_deferred_fold
  by (rule fold_invariant [where Q = "\<lambda>_. True"]) (auto simp: Remove_on_chain(7))

lemma scan_books:
  assumes "books L" "ActiveList L = None"
  shows "books (L\<lparr>NextTriggerTick := n, ActiveList := Some (filter P (ObjectList L)), ObjectList := [t \<leftarrow> ObjectList L. \<not> P t]\<rparr>)"
  using assms mset_filter_split [of token P "mset (ObjectList L)"]
  by (simp add: books_def tokens_def active_def add.commute)

lemma Check_books:
  assumes "books L" "ActiveList L = None"
  shows "books (fst (ILibLifeTime_Check cb now blocktime L)) \<and> ActiveList (fst (ILibLifeTime_Check cb now blocktime L)) = None"
proof -
  define M where "M = delete_deferred L"
  have M: "books M" "ActiveList M = None"
    using assms by (simp_all add: M_def delete_deferred_books delete_deferred_idle)
  have "books (dispatch cb S\<lparr>ActiveList := None\<rparr>)" if "books S" for S
    using dispatch_books [OF that, of cb] dispatch_active [of cb S] by (simp add: books_def tokens_def)
  then show ?thesis
    using M scan_books [OF M] by (simp add: ILibLifeTime_Check_def M_def [symmetric] Let_def)
qed

text \<open>The calls of a module, by the thread of the chain and by others, and the states between them.\<close>

inductive timers_call :: "callbacks \<Rightarrow> ILibLifeTime \<Rightarrow> ILibLifeTime \<Rightarrow> bool" for cb where
  add: "0 \<le> now \<Longrightarrow> 0 \<le> ms \<Longrightarrow> timers_call cb L (fst (ILibLifeTime_AddEx4 on_chain now d ms c ds md L))"
| remove: "timers_call cb L (fst (ILibLifeTime_Remove on_chain d L))"
| metadata: "ILibLifeTime_SetMetadata m0 obj md n L = Some L' \<Longrightarrow> timers_call cb L L'"
| check: "timers_call cb L (fst (ILibLifeTime_Check cb now blocktime L))"
| flush: "timers_call cb L (ILibLifeTime_Flush L)"

definition timers_reachable :: "callbacks \<Rightarrow> ILibLifeTime \<Rightarrow> bool" where
  "timers_reachable cb = (timers_call cb)\<^sup>*\<^sup>* ILibCreateLifeTime"

lemma reachable_call: "timers_reachable cb L \<Longrightarrow> timers_call cb L L' \<Longrightarrow> timers_reachable cb L'"
  unfolding timers_reachable_def by (rule rtranclp.rtrancl_into_rtrancl)

lemma reachable_later: "timers_reachable cb L \<Longrightarrow> (timers_call cb)\<^sup>*\<^sup>* L L' \<Longrightarrow> timers_reachable cb L'"
  unfolding timers_reachable_def by (rule rtranclp_trans)

lemma reachable_create: "timers_reachable cb ILibCreateLifeTime"
  by (simp add: timers_reachable_def)

lemmas reachable_add = reachable_call [OF _ timers_call.add]
lemmas reachable_check = reachable_call [OF _ timers_call.check]

lemma SetMetadata_lists:
  assumes "ILibLifeTime_SetMetadata m0 obj md n L = Some L'"
  shows "\<exists>f. (\<forall>t. ExpirationTick (f t) = ExpirationTick t \<and> token (f t) = token t \<and> timer_data (f t) = timer_data t)
    \<and> L' = L\<lparr>ObjectList := map f (ObjectList L), ActiveList := map_option (map f) (ActiveList L)\<rparr>"
  using assms
  by (intro exI [where x = "\<lambda>t. if token t = obj then t\<lparr>metadata := Some (append_metadata m0 md n (metadata t))\<rparr> else t"])
    (auto simp: ILibLifeTime_SetMetadata_def Let_def split: if_splits)

lemma AddEx4_idle: "ActiveList L = None \<Longrightarrow> ActiveList (fst (ILibLifeTime_AddEx4 on_chain now d ms c ds md L)) = None"
  by (cases on_chain) (simp_all add: ILibLifeTime_AddEx4_def Let_def Remove_on_chain Remove_off_chain)

lemma call_facts:
  assumes "calls_ok cb" "timers_ok L" "books L" "ActiveList L = None" "timers_call cb L L'"
  shows "timers_ok L' \<and> books L' \<and> ActiveList L' = None"
  using assms(5)
proof cases
  case (add now ms on_chain d c ds md)
  then show ?thesis using assms by (simp add: AddEx4_timers_ok AddEx4_books AddEx4_idle)
next
  case (remove on_chain d)
  then show ?thesis using assms by (cases on_chain) (simp_all add: Remove_timers_ok Remove_books Remove_on_chain(7) Remove_off_chain(3))
next
  case (metadata m0 obj md n)
  then obtain f where f: "\<And>t. ExpirationTick (f t) = ExpirationTick t" "\<And>t. token (f t) = token t"
    and L': "L' = L\<lparr>ObjectList := map f (ObjectList L), ActiveList := map_option (map f) (ActiveList L)\<rparr>"
    using SetMetadata_lists by blast
  have "map (ExpirationTick \<circ> f) ts = map ExpirationTick ts" "map (token \<circ> f) ts = map token ts" for ts
    using f by (simp_all add: comp_def)
  then show ?thesis using assms f L' by (simp add: timers_ok_def books_def tokens_def active_def image_mset.compositionality comp_def)
next
  case (check now blocktime)
  then show ?thesis using assms Check_books [of L cb now blocktime] by (simp add: Check_timers_ok)
next
  case flush
  then have "active L = []" using assms by (simp add: active_def)
  with flush assms show ?thesis by (simp add: ILibLifeTime_Flush_def timers_ok_def books_def tokens_def add.commute)
qed

lemma reachable_facts: "calls_ok cb \<Longrightarrow> timers_reachable cb L \<Longrightarrow> timers_ok L \<and> books L \<and> ActiveList L = None"
  unfolding timers_reachable_def
proof (rotate_tac, induction rule: rtranclp_induct)
  case base
  then show ?case by (simp add: ILibCreateLifeTime_def timers_ok_def books_def tokens_def active_def)
next
  case (step L L')
  then show ?case using call_facts by blast
qed

text \<open>C25 (invariant): Whatever callbacks and other threads do, the list of timers stays ordered by expiration, and \<open>NextTriggerTick\<close> is not above the
  time of any timer, so the quick test of \<open>ILibLifeTime_Check\<close> never skips one that is due; it is -1 only without timers.\<close>

theorem timer_list_invariant:
  assumes "calls_ok cb" "timers_reachable cb L"
  shows "sorted (map ExpirationTick (ObjectList L))
    \<and> (\<forall>t \<in> set (ObjectList L). NextTriggerTick L \<noteq> -1 \<and> NextTriggerTick L \<le> ExpirationTick t)"
  using reachable_facts [OF assms] by (auto simp: timers_ok_def)

definition fired_tokens :: "lt_event list \<Rightarrow> nat list" where
  "fired_tokens es = concat (map (\<lambda>e. case e of Fired t \<Rightarrow> [token t] | _ \<Rightarrow> []) es)"

definition dropped_tokens :: "lt_event list \<Rightarrow> nat list" where
  "dropped_tokens es = concat (map (\<lambda>e. case e of Dropped t \<Rightarrow> [token t] | _ \<Rightarrow> []) es)"

lemma mset_ended: "mset (concat (map ended es)) = mset (fired_tokens es) + mset (dropped_tokens es)"
proof (induction es)
  case (Cons e es)
  then show ?case by (cases e) (auto simp: fired_tokens_def dropped_tokens_def)
qed (simp add: fired_tokens_def dropped_tokens_def)

lemma Remove_trace: "prefix (trace L) (trace (fst (ILibLifeTime_Remove on_chain d L)))"
  by (cases on_chain) (simp_all add: Remove_on_chain ILibLifeTime_Remove_def [of False])

lemma AddEx4_trace: "prefix (trace L) (trace (fst (ILibLifeTime_AddEx4 on_chain now d ms c ds md L)))"
  using Remove_trace [of L on_chain d]
  by (auto simp: ILibLifeTime_AddEx4_def Let_def intro: prefix_order.trans)

lemma run_calls_trace: "prefix (trace L) (trace (foldl run_call L cs))"
proof (induction cs arbitrary: L)
  case (Cons c cs)
  have "prefix (trace L) (trace (run_call L c))"
    by (auto simp: run_call_def AddEx4_trace Remove_trace split: timer_call.split)
  then show ?case using Cons.IH [of "run_call L c"] by (auto intro: prefix_order.trans)
qed simp

lemma fire_trace: "prefix (trace L) (trace (fire cb EVT L))"
proof -
  let ?M = "event (Fired EVT) (L\<lparr>CurrentTriggeredMetaData := metadata EVT\<rparr>)"
  have "prefix (trace L) (trace ?M)" by simp
  from prefix_order.trans [OF this run_calls_trace [of ?M "cb EVT ?M"]]
  show ?thesis by (simp add: fire_def Let_def del: event_simps)
qed

lemma dispatch_trace: "prefix (trace L) (trace (dispatch cb L))"
proof (induction cb L rule: dispatch.induct)
  case (1 cb L)
  show ?case
  proof (cases "active L")
    case Nil
    then show ?thesis by (subst dispatch.simps) simp
  next
    case (Cons EVT act)
    then show ?thesis using 1 [OF Cons] fire_trace [of "L\<lparr>ActiveList := Some act\<rparr>" cb EVT]
      by (subst dispatch.simps) (auto intro: prefix_order.trans)
  qed
qed

lemma Check_trace: "prefix (trace (delete_deferred L)) (trace (fst (ILibLifeTime_Check cb now blocktime L)))"
  using dispatch_trace by (auto simp: ILibLifeTime_Check_def Let_def intro: prefix_order.trans [OF _ dispatch_trace])

lemma delete_deferred_dropped:
  assumes "t \<in> set (ObjectList L)" "timer_data t \<in> set (DeleteList L)"
  shows "Dropped t \<in> set (trace (delete_deferred L))"
proof -
  have "Dropped t \<in> set (trace (fold (\<lambda>d L. fst (ILibLifeTime_Remove True d L)) ds L))"
    if "t \<in> set (ObjectList L) \<and> timer_data t \<in> set ds \<or> Dropped t \<in> set (trace L)" for ds and L :: ILibLifeTime
    using that by (induction ds arbitrary: L) (auto simp: Remove_on_chain)
  then show ?thesis using assms by (simp add: delete_deferred_fold)
qed

lemma delete_deferred_trace: "prefix (trace L) (trace (delete_deferred L))"
proof -
  have "prefix (trace L) (trace (fold (\<lambda>d L. fst (ILibLifeTime_Remove True d L)) ds L))" for ds and L :: ILibLifeTime
    by (induction ds arbitrary: L) (auto intro: prefix_order.trans [OF Remove_trace])
  from this [of "L\<lparr>DeleteList := []\<rparr>"] show ?thesis by (simp add: delete_deferred_fold)
qed

text \<open>A timer that was dropped, or waits to be dropped by the next check because another thread removed it.\<close>

definition cancelled :: "nat \<Rightarrow> ILibLifeTime \<Rightarrow> bool" where
  "cancelled k L \<longleftrightarrow> k \<in> set (dropped_tokens (trace L)) \<or> (\<exists>t \<in> set (ObjectList L). token t = k \<and> timer_data t \<in> set (DeleteList L))"

lemma dropped_prefix: "prefix es es' \<Longrightarrow> k \<in> set (dropped_tokens es) \<Longrightarrow> k \<in> set (dropped_tokens es')"
  by (auto simp: prefix_def dropped_tokens_def)

lemma dropped_token: "Dropped t \<in> set es \<Longrightarrow> token t \<in> set (dropped_tokens es)"
  by (auto simp: dropped_tokens_def intro!: bexI [of _ "Dropped t"])

lemma Remove_cancels: "t \<in> set (ObjectList L) \<Longrightarrow> cancelled (token t) (fst (ILibLifeTime_Remove on_chain (timer_data t) L))"
proof (cases on_chain)
  case True
  moreover assume "t \<in> set (ObjectList L)"
  ultimately have "Dropped t \<in> set (trace (fst (ILibLifeTime_Remove on_chain (timer_data t) L)))" by (simp add: Remove_on_chain)
  then show ?thesis by (simp add: cancelled_def dropped_token)
next
  case False
  moreover assume "t \<in> set (ObjectList L)"
  ultimately show ?thesis by (auto simp: cancelled_def ILibLifeTime_Remove_def)
qed

lemma Remove_cancelled:
  assumes "cancelled k L"
  shows "cancelled k (fst (ILibLifeTime_Remove on_chain d L))"
proof (cases "k \<in> set (dropped_tokens (trace L))")
  case True
  then show ?thesis using dropped_prefix [OF Remove_trace] by (simp add: cancelled_def)
next
  case False
  then obtain t where t: "t \<in> set (ObjectList L)" "token t = k" "timer_data t \<in> set (DeleteList L)"
    using assms by (auto simp: cancelled_def)
  show ?thesis
  proof (cases "on_chain \<and> timer_data t \<noteq> d \<or> \<not> on_chain")
    case True
    then have "t \<in> set (ObjectList (fst (ILibLifeTime_Remove on_chain d L)))"
      "timer_data t \<in> set (DeleteList (fst (ILibLifeTime_Remove on_chain d L)))"
      using t by (cases on_chain; simp add: Remove_on_chain ILibLifeTime_Remove_def [of False])+
    then show ?thesis using t(2) by (auto simp: cancelled_def)
  next
    case False
    then show ?thesis using Remove_cancels [OF t(1), of on_chain] t(2) by simp
  qed
qed

lemma AddEx4_cancelled: "cancelled k L \<Longrightarrow> cancelled k (fst (ILibLifeTime_AddEx4 on_chain now d ms c ds md L))"
  using Remove_cancelled [of k L on_chain d]
  by (auto simp: ILibLifeTime_AddEx4_def Let_def cancelled_def dropped_tokens_def)

lemma delete_deferred_cancelled: "cancelled k L \<Longrightarrow> k \<in> set (dropped_tokens (trace (delete_deferred L)))"
  using dropped_prefix [OF delete_deferred_trace] delete_deferred_dropped
  by (auto simp: cancelled_def intro: dropped_token)

lemma call_cancelled:
  assumes "cancelled k L" "timers_call cb L L'"
  shows "cancelled k L'"
  using assms(2)
proof cases
  case (metadata m0 obj md n)
  then obtain f where "\<And>t. token (f t) = token t \<and> timer_data (f t) = timer_data t"
    and L': "L' = L\<lparr>ObjectList := map f (ObjectList L), ActiveList := map_option (map f) (ActiveList L)\<rparr>"
    using SetMetadata_lists by blast
  then show ?thesis using assms(1) by (auto simp: cancelled_def)
next
  case (check now blocktime)
  then show ?thesis
    using dropped_prefix [OF Check_trace delete_deferred_cancelled [OF assms(1)]] by (simp add: cancelled_def)
next
  case flush
  then show ?thesis
    using assms(1) by (force simp: cancelled_def ILibLifeTime_Flush_def dropped_tokens_def)
qed (simp_all add: AddEx4_cancelled Remove_cancelled assms(1))

lemma later_cancelled: "(timers_call cb)\<^sup>*\<^sup>* L L' \<Longrightarrow> cancelled k L \<Longrightarrow> cancelled k L'"
  by (induction rule: rtranclp_induct) (auto intro: call_cancelled)

lemma three_ways:
  assumes "calls_ok cb" "timers_reachable cb L"
  shows "mset (map token (ObjectList L)) + mset (fired_tokens (trace L)) + mset (dropped_tokens (trace L)) = mset [0..<nextToken L]"
proof -
  have "books L" "active L = []" using reachable_facts [OF assms] by (simp_all add: active_def)
  then show ?thesis by (simp add: books_def tokens_def mset_ended add.assoc)
qed

lemma three_ways_distinct:
  assumes "calls_ok cb" "timers_reachable cb L"
  shows "distinct (map token (ObjectList L) @ fired_tokens (trace L) @ dropped_tokens (trace L))"
proof -
  have "mset (map token (ObjectList L) @ fired_tokens (trace L) @ dropped_tokens (trace L)) = mset [0..<nextToken L]"
    using three_ways [OF assms] by (simp add: add.assoc)
  then show ?thesis by (metis distinct_upt mset_eq_imp_distinct_iff)
qed

lemma cancelled_not_fired:
  assumes "calls_ok cb" "timers_reachable cb L" "cancelled k L"
  shows "k \<notin> set (fired_tokens (trace L))"
  using three_ways_distinct [OF assms(1,2)] assms(3) by (auto simp: cancelled_def)


section \<open>What a check fires\<close>

text \<open>\<open>D\<close>: the data of timers that callbacks, or other threads meanwhile, add and remove.\<close>

definition call_data :: "timer_call \<Rightarrow> addr" where
  "call_data c = (case c of Call_Add _ _ d _ _ _ _ \<Rightarrow> d | Call_Remove _ d \<Rightarrow> d)"

definition calls_within :: "addr set \<Rightarrow> callbacks \<Rightarrow> bool" where
  "calls_within D cb \<longleftrightarrow> (\<forall>t L. \<forall>c \<in> set (cb t L). call_data c \<in> D)"

definition kept_timers :: "addr set \<Rightarrow> LifeTimeMonitorData list \<Rightarrow> LifeTimeMonitorData list" where
  "kept_timers D ts = [t \<leftarrow> ts. timer_data t \<notin> D]"

definition fired :: "lt_event list \<Rightarrow> LifeTimeMonitorData list" where
  "fired es = concat (map (\<lambda>e. case e of Fired t \<Rightarrow> [t] | _ \<Rightarrow> []) es)"

lemma fired_simps [simp]:
  "fired [] = []" "fired (es @ es') = fired es @ fired es'" "fired (e # es) = (case e of Fired t \<Rightarrow> [t] | _ \<Rightarrow> []) @ fired es"
  "fired (map Dropped ts) = []"
  by (induction ts) (simp_all add: fired_def)

lemma kept_simps [simp]:
  "kept_timers D [] = []" "kept_timers D (t # ts) = (if timer_data t \<in> D then [] else [t]) @ kept_timers D ts"
  "kept_timers D (ts @ us) = kept_timers D ts @ kept_timers D us"
  by (simp_all add: kept_timers_def)

lemma kept_remove: "d \<in> D \<Longrightarrow> kept_timers D [t \<leftarrow> ts. timer_data t \<noteq> d] = kept_timers D ts"
  by (induction ts) auto

lemma kept_insert: "timer_data t \<in> D \<Longrightarrow> kept_timers D (insert_timer t ts) = kept_timers D ts"
  unfolding kept_timers_def by (rule filter_insert_timer) simp

definition same_kept :: "addr set \<Rightarrow> ILibLifeTime \<Rightarrow> ILibLifeTime \<Rightarrow> bool" where
  "same_kept D L L' \<longleftrightarrow> kept_timers D (ObjectList L') = kept_timers D (ObjectList L) \<and> kept_timers D (active L') = kept_timers D (active L)
     \<and> fired (trace L') = fired (trace L)"

lemma fired_UnBlock: "set us \<subseteq> {UnBlockChain} \<Longrightarrow> fired us = []"
  by (induction us) auto

lemma Remove_same_kept: "d \<in> D \<Longrightarrow> same_kept D L (fst (ILibLifeTime_Remove on_chain d L))"
  by (cases on_chain) (auto simp: same_kept_def Remove_on_chain kept_remove ILibLifeTime_Remove_def [of False])

lemma AddEx4_same_kept: "d \<in> D \<Longrightarrow> same_kept D L (fst (ILibLifeTime_AddEx4 on_chain now d ms c ds md L))"
  using Remove_same_kept [of d D L on_chain] by (auto simp: ILibLifeTime_AddEx4_def Let_def same_kept_def kept_insert)

lemma run_calls_same_kept: "\<forall>c \<in> set cs. call_data c \<in> D \<Longrightarrow> same_kept D L (foldl run_call L cs)"
proof (induction cs arbitrary: L)
  case (Cons c cs)
  have "same_kept D L (run_call L c)"
    using Cons.prems by (auto simp: run_call_def call_data_def AddEx4_same_kept Remove_same_kept split: timer_call.splits)
  then show ?case using Cons.IH [of "run_call L c"] Cons.prems by (simp add: same_kept_def)
qed (simp add: same_kept_def)

lemma fire_kept:
  assumes "calls_within D cb"
  shows "kept_timers D (ObjectList (fire cb EVT L)) = kept_timers D (ObjectList L)"
    "kept_timers D (active (fire cb EVT L)) = kept_timers D (active L)"
    "fired (trace (fire cb EVT L)) = fired (trace L) @ [EVT]"
  using run_calls_same_kept [of _ D "event (Fired EVT) (L\<lparr>CurrentTriggeredMetaData := metadata EVT\<rparr>)"] assms
  by (simp_all add: fire_def Let_def same_kept_def calls_within_def)

lemma dispatch_kept:
  "calls_within D cb \<Longrightarrow>
     kept_timers D (ObjectList (dispatch cb L)) = kept_timers D (ObjectList L) \<and>
     kept_timers D (fired (trace (dispatch cb L))) = kept_timers D (fired (trace L)) @ kept_timers D (active L)"
proof (induction cb L rule: dispatch.induct)
  case (1 cb L)
  show ?case
  proof (cases "active L")
    case Nil
    then show ?thesis by (subst (1 2) dispatch.simps) simp
  next
    case (Cons EVT act)
    with 1 show ?thesis by (subst (1 2) dispatch.simps) (simp add: fire_kept)
  qed
qed

lemma delete_deferred_lists:
  "ObjectList (delete_deferred L) = [t \<leftarrow> ObjectList L. timer_data t \<notin> set (DeleteList L)]"
  "NextTriggerTick (delete_deferred L) = NextTriggerTick L" "fired (trace (delete_deferred L)) = fired (trace L)"
proof -
  have "ObjectList (fold (\<lambda>d L. fst (ILibLifeTime_Remove True d L)) ds L) = [t \<leftarrow> ObjectList L. timer_data t \<notin> set ds]
    \<and> NextTriggerTick (fold (\<lambda>d L. fst (ILibLifeTime_Remove True d L)) ds L) = NextTriggerTick L
    \<and> fired (trace (fold (\<lambda>d L. fst (ILibLifeTime_Remove True d L)) ds L)) = fired (trace L)" for ds and L :: ILibLifeTime
    by (induction ds arbitrary: L) (auto simp: Remove_on_chain intro: filter_cong)
  then show "ObjectList (delete_deferred L) = [t \<leftarrow> ObjectList L. timer_data t \<notin> set (DeleteList L)]"
    "NextTriggerTick (delete_deferred L) = NextTriggerTick L" "fired (trace (delete_deferred L)) = fired (trace L)"
    by (simp_all add: delete_deferred_fold)
qed

text \<open>C27 (functional): \<open>ILibLifeTime_Check\<close> fires the timers that are due, each once and in the order of their times, and keeps the others in
  the list: all timers but those whose data were removed before by another thread, or are added or removed while the callbacks run.\<close>

theorem check_fires_due_timers:
  assumes "calls_ok cb" "timers_reachable cb L" "0 \<le> now" "calls_within D cb" "set (DeleteList L) \<subseteq> D"
    and "ILibLifeTime_Check cb now blocktime L = (L', blocktime')"
  shows "kept_timers D (fired (trace L')) = kept_timers D (fired (trace L)) @ kept_timers D [t \<leftarrow> ObjectList L. due now t]
    \<and> kept_timers D (ObjectList L') = kept_timers D [t \<leftarrow> ObjectList L. \<not> due now t]"
proof -
  note r = reachable_facts [OF assms(1,2)]
  define M where "M = delete_deferred L"
  have M: "kept_timers D [t \<leftarrow> ObjectList M. P t] = kept_timers D [t \<leftarrow> ObjectList L. P t]" for P
    using assms(5) by (auto simp: M_def delete_deferred_lists kept_timers_def intro!: filter_cong)
  show ?thesis
  proof (cases "NextTriggerTick M \<noteq> 0 \<and> NextTriggerTick M > now \<and> NextTriggerTick M \<noteq> -1
      \<and> blocktime > signed_take_bit 31 (NextTriggerTick M - now)")
    case True
    then have L': "L' = M" using assms(6) by (simp add: ILibLifeTime_Check_def M_def [symmetric] Let_def)
    have nd: "\<not> due now t" if "t \<in> set (ObjectList L)" for t
      using r that True assms(3) by (auto simp: timers_ok_def due_def M_def delete_deferred_lists)
    then have "[t \<leftarrow> ObjectList L. due now t] = []" "[t \<leftarrow> ObjectList L. \<not> due now t] = ObjectList L"
      by (simp_all add: filter_empty_conv filter_id_conv)
    then show ?thesis using M [of "\<lambda>_. True"] L' by (simp add: M_def delete_deferred_lists)
  next
    case False
    define S where "S = M\<lparr>NextTriggerTick := next_tick (-1) [t \<leftarrow> ObjectList M. \<not> due now t],
      ActiveList := Some [t \<leftarrow> ObjectList M. due now t], ObjectList := [t \<leftarrow> ObjectList M. \<not> due now t]\<rparr>"
    have "L' = (dispatch cb S)\<lparr>ActiveList := None\<rparr>"
      using assms(6) False by (auto simp: ILibLifeTime_Check_def M_def [symmetric] S_def Let_def)
    then show ?thesis
      using dispatch_kept [OF assms(4), of S] M by (simp add: S_def) (simp add: M_def delete_deferred_lists)
  qed
qed

section \<open>How long the chain sleeps\<close>

lemma int32_small: "-(2 ^ 31) \<le> x \<Longrightarrow> x < 2 ^ 31 \<Longrightarrow> signed_take_bit 31 (x :: int) = x"
  by (simp add: signed_take_bit_int_eq_self)

lemma dispatch_no_calls:
  "NextTriggerTick (dispatch (\<lambda>_ _. []) L) = NextTriggerTick L \<and> ObjectList (dispatch (\<lambda>_ _. []) L) = ObjectList L"
proof (induction L rule: measure_induct_rule [where f = "\<lambda>L. length (active L)"])
  case (less L)
  show ?case
  proof (cases "active L")
    case (Cons EVT act)
    then show ?thesis
      using less [OF active_next [OF Cons, of "\<lambda>_ _. []"]] by (subst (1 2) dispatch.simps) (simp add: fire_def Let_def)
  qed (subst (1 2) dispatch.simps, simp)
qed

lemma next_tick_sorted:
  "sorted (map ExpirationTick ts) \<Longrightarrow> \<forall>t \<in> set ts. n \<le> ExpirationTick t \<Longrightarrow> n \<noteq> -1 \<Longrightarrow> next_tick n ts = n"
  by (induction ts) (auto simp: not_less)

lemma next_tick_least:
  "sorted (map ExpirationTick ts) \<Longrightarrow> \<forall>t \<in> set ts. 0 \<le> ExpirationTick t \<Longrightarrow>
     next_tick (-1) ts = (case ts of [] \<Rightarrow> -1 | t # _ \<Rightarrow> ExpirationTick t)"
  using next_tick_sorted by (cases ts) fastforce+


section \<open>A timer set again by another thread\<close>

lemma AddEx4_new:
  "snd (ILibLifeTime_AddEx4 on_chain now d ms c ds md L) = nextToken L"
  "\<exists>s \<in> set (ObjectList (fst (ILibLifeTime_AddEx4 on_chain now d ms c ds md L))). timer_data s = d \<and> token s = nextToken L"
  by (simp_all add: ILibLifeTime_AddEx4_def Let_def)

lemma AddEx4_deferred:
  "t \<in> set (ObjectList L) \<Longrightarrow> timer_data t \<in> set (DeleteList (fst (ILibLifeTime_AddEx4 False now (timer_data t) ms c ds md L)))"
  by (auto simp: ILibLifeTime_AddEx4_def ILibLifeTime_Remove_def Let_def)

text \<open>C29 (error): A thread that is not the chain's and sets a timer again loses it: the removal of the old timer is put off to the next check, which
  removes the new one as well, so it never fires.\<close>

theorem timer_set_again_is_lost:
  assumes "calls_ok cb" "timers_reachable cb L" "0 \<le> now" "0 \<le> ms" "t \<in> set (ObjectList L)" "timer_data t = d"
    and "ILibLifeTime_AddEx4 False now d ms c ds md L = (L1, k)" "ILibLifeTime_Check cb now' blocktime L1 = (L2, blocktime')"
  shows "k \<in> set (dropped_tokens (trace L2)) \<and> k \<notin> set (fired_tokens (trace L2)) \<and> k \<notin> token ` set (ObjectList L2)"
proof -
  have L1: "L1 = fst (ILibLifeTime_AddEx4 False now d ms c ds md L)" and L2: "L2 = fst (ILibLifeTime_Check cb now' blocktime L1)"
    using assms(7,8) by simp_all
  obtain s where s: "s \<in> set (ObjectList L1)" "timer_data s = d" "token s = k"
    using AddEx4_new [of False now d ms c ds md L] assms(7) by auto
  have "d \<in> set (DeleteList L1)"
    using AddEx4_deferred [OF assms(5)] assms(6) unfolding L1 by auto
  then have "Dropped s \<in> set (trace (delete_deferred L1))" using s by (intro delete_deferred_dropped) simp_all
  then have "Dropped s \<in> set (trace L2)"
    using Check_trace [of L1 cb now' blocktime] unfolding L2 by (auto simp: prefix_def)
  then have k: "k \<in> set (dropped_tokens (trace L2))"
    using s(3) by (auto simp: dropped_tokens_def intro!: bexI [of _ "Dropped s"])
  have "timers_reachable cb L2"
    unfolding L1 L2 using assms(2-4) by (intro reachable_check reachable_add)
  from three_ways_distinct [OF assms(1) this]
  show ?thesis using k by auto
qed

section \<open>The clock\<close>

text \<open>The clock gives the microseconds within a millisecond in place of the milliseconds within a second.  It goes back every
  millisecond, and a timer of less than a second that is set at the start of a second fires as many microseconds later as it should wait milliseconds.\<close>

theorem timer_fires_early:
  assumes "0 < ms" "ms < 999" "L = fst (ILibLifeTime_AddEx4 True (ILibGetUptime s 0) d ms c ds md ILibCreateLifeTime)"
    and "ILibLifeTime_Check (\<lambda>_ _. []) (ILibGetUptime s ((nat ms + 1) * 1000)) blocktime L = (L', blocktime')"
  shows "ILibGetUptime s 1000000 < ILibGetUptime s 999000 \<and> ObjectList L' = [] \<and> fired_tokens (trace L') = [0]"
proof -
  have u: "ILibGetUptime s 0 = int s * 1000" "ILibGetUptime s ((nat ms + 1) * 1000) = int s * 1000 + ms + 1"
    "ILibGetUptime s 1000000 < ILibGetUptime s 999000"
    using assms(1,2) by (simp_all add: ILibGetUptime_def)
  show ?thesis
    using assms u by (auto simp: ILibLifeTime_AddEx4_def ILibLifeTime_Remove_def ILibCreateLifeTime_def expiration_def event_def
        ILibLifeTime_Check_def delete_deferred_def due_def dispatch.simps fire_def active_def fired_tokens_def Let_def)
qed

lemma timer_fires_early_witness:
  "ObjectList (fst (ILibLifeTime_Check (\<lambda>_ _. []) (ILibGetUptime 5 501000) 60000
     (fst (ILibLifeTime_AddEx4 True (ILibGetUptime 5 0) 1 500 0 None None ILibCreateLifeTime)))) = []"
  using timer_fires_early [of 500 _ 5 1 0 None None 60000, OF _ _ refl prod.collapse [symmetric]] by simp

section \<open>Examples\<close>

text \<open>Two timers; the callback of the first adds another.\<close>

definition sample_callbacks :: callbacks where
  "sample_callbacks t L = (if CallbackPtr t = 1 then [Call_Add True 120 3 200 0 None None] else [])"

definition sample_timers :: ILibLifeTime where
  "sample_timers = fst (ILibLifeTime_AddEx4 True 100 2 300 0 None None
     (fst (ILibLifeTime_AddEx4 True 100 1 10 1 None None ILibCreateLifeTime)))"

definition sample_checked :: "ILibLifeTime \<times> int" where
  "sample_checked = ILibLifeTime_Check sample_callbacks 120 5000 sample_timers"

lemma sample_callbacks: "calls_ok sample_callbacks" "calls_within {3} sample_callbacks"
  by (simp_all add: calls_ok_def calls_within_def sample_callbacks_def call_ok_def call_data_def)

lemma sample_timers: "timers_reachable sample_callbacks sample_timers"
  unfolding sample_timers_def by (intro reachable_add reachable_create) simp_all

lemma sample_checked_reachable: "timers_reachable sample_callbacks (fst sample_checked)"
  unfolding sample_checked_def by (intro reachable_check sample_timers)

lemmas timer_defs = ILibLifeTime_AddEx4_def ILibLifeTime_Remove_def ILibCreateLifeTime_def expiration_def event_def

definition waiting :: "nat \<Rightarrow> int \<Rightarrow> addr \<Rightarrow> nat \<Rightarrow> LifeTimeMonitorData" where
  "waiting k tick d c = \<lparr>token = k, ExpirationTick = tick, timer_data = d, CallbackPtr = c, DestroyPtr = None, metadata = None\<rparr>"

lemma sample_lists:
  "ObjectList sample_timers = [waiting 0 110 1 1, waiting 1 400 2 0]" "DeleteList sample_timers = []" "trace sample_timers = [UnBlockChain]"
  by (simp_all add: sample_timers_def timer_defs waiting_def Let_def)

lemma sample_checked:
  "ObjectList (fst sample_checked) = [waiting 2 320 3 0, waiting 1 400 2 0]" "snd sample_checked = 1000"
  "trace (fst sample_checked) = [UnBlockChain, Fired (waiting 0 110 1 1), UnBlockChain]"
  "NextTriggerTick (fst sample_checked) = 320" "nextToken (fst sample_checked) = 3"
  by (simp_all add: sample_checked_def sample_timers_def timer_defs waiting_def ILibLifeTime_Check_def delete_deferred_def
      dispatch.simps fire_def run_call_def sample_callbacks_def due_def active_def Let_def)

lemma timer_list_invariant_witness:
  "sorted (map ExpirationTick (ObjectList (fst sample_checked))) \<and> length (ObjectList (fst sample_checked)) = 2"
  using timer_list_invariant [OF sample_callbacks(1) sample_checked_reachable] sample_checked by simp


lemma check_fires_due_timers_witness:
  "kept_timers {3} (fired (trace (fst sample_checked))) = [waiting 0 110 1 1]
   \<and> kept_timers {3} (ObjectList (fst sample_checked)) = [waiting 1 400 2 0]"
proof -
  have "ILibLifeTime_Check sample_callbacks 120 5000 sample_timers = (fst sample_checked, snd sample_checked)"
    by (simp add: sample_checked_def)
  from check_fires_due_timers [OF sample_callbacks(1) sample_timers _ sample_callbacks(2) _ this]
  show ?thesis by (simp add: sample_lists due_def waiting_def)
qed


definition sample_again :: "ILibLifeTime \<times> nat" where
  "sample_again = ILibLifeTime_AddEx4 False 105 1 500 0 None None sample_timers"

lemma timer_set_again_is_lost_witness:
  "snd sample_again = 2 \<and> 2 \<in> set (dropped_tokens (trace (fst (ILibLifeTime_Check sample_callbacks 1000 5000 (fst sample_again)))))"
proof -
  have k: "snd sample_again = 2" by (simp add: sample_again_def sample_timers_def timer_defs Let_def)
  have a: "ILibLifeTime_AddEx4 False 105 1 500 0 None None sample_timers = (fst sample_again, 2)"
    using k by (simp add: sample_again_def prod_eq_iff)
  have "waiting 0 110 1 1 \<in> set (ObjectList sample_timers)" "timer_data (waiting 0 110 1 1) = 1" "(0::int) \<le> 105" "(0::int) \<le> 500"
    by (simp_all add: sample_lists waiting_def)
  from timer_set_again_is_lost [OF sample_callbacks(1) sample_timers this(3,4,1,2) a prod.collapse [symmetric]] k
  show ?thesis by simp
qed

text \<open>Metadata appended a second time is behind the 0 of the first, so reading it as a string gives only the first.\<close>

lemma metadata_appended_twice:
  assumes "a \<noteq> []" "length a \<le> 512" "0 \<notin> set a"
  shows "takeWhile (\<lambda>c. c \<noteq> 0) (append_metadata m0 b n (Some (append_metadata m0 a 0 None))) = a"
proof -
  have "takeWhile (\<lambda>c. c \<noteq> 0) (a @ 0 # xs) = a" for xs
    using assms(3) by (subst takeWhile_append2) auto
  then show ?thesis using assms(1,2) by (simp add: append_metadata_def Let_def butlast_append)
qed

end
