(* ===== verification/ReaderWriterLock.thy ===== *)
theory ReaderWriterLock
  imports Prelude
begin

text \<open>
  The lock for readers and writers of microstack/ILibParsers.c (\<open>ILibReaderWriterLock_*\<close>), for any number of threads.

  The state of the lock is its three counters, the flag \<open>Exit\<close> and the values of its semaphores.  A thread is at a place in the code
  (\<open>rw_pc\<close>); one step of an operation is a section under \<open>CounterLock\<close>, which only one thread is in at a time, a
  semaphore operation, or a read of \<open>Exit\<close>.  A step of a thread that waits for a semaphore without a value is \<open>None\<close>.
\<close>

section \<open>State\<close>

record rw_data =
  WriteLock :: nat
  ReadLock :: nat
  ExitLock :: nat
  ActiveReaders :: int
  WaitingReaders :: int
  PendingWriters :: int
  Exit :: bool
  destroyed :: bool

definition ILibReaderWriterLock_Create :: rw_data where
  "ILibReaderWriterLock_Create = \<lparr>WriteLock = 0, ReadLock = 0, ExitLock = 0, ActiveReaders = 0, WaitingReaders = 0,
     PendingWriters = 0, Exit = False, destroyed = False\<rparr>"

text \<open>
  Outside of the lock, holding it, or in one of its functions: at its start, waiting, or behind the section under \<open>CounterLock\<close>
  with the local variables that are used later (\<open>AlreadyExiting\<close> and \<open>RetVal\<close>, whom to signal).
\<close>

datatype rw_pc =
    Idle | Reading | Writing
  | ReadLock_Enter | ReadLock_Wait | ReadLock_Through bool | ReadLock_Leave bool bool
  | ReadUnLock_Enter | ReadUnLock_Signal bool | ReadUnLock_Leave
  | WriteLock_Enter | WriteLock_Wait | WriteLock_Through bool | WriteLock_Leave bool bool
  | WriteUnLock_Enter | WriteUnLock_Writer | WriteUnLock_Readers nat | WriteUnLock_Leave
  | Destroy_Enter | Destroy_Wait nat

section \<open>Operations\<close>

text \<open>The calls a thread can make.  Only a thread that got the lock gives it back.\<close>

fun rw_calls :: "rw_pc \<Rightarrow> rw_pc list" where
  "rw_calls Idle = [ReadLock_Enter, WriteLock_Enter, Destroy_Enter]"
| "rw_calls Reading = [ReadUnLock_Enter]"
| "rw_calls Writing = [WriteUnLock_Enter]"
| "rw_calls _ = []"

fun ILibReaderWriterLock_ReadLock :: "rw_pc \<Rightarrow> rw_data \<Rightarrow> (rw_pc \<times> rw_data) option" where
  "ILibReaderWriterLock_ReadLock ReadLock_Enter rw =
     (if Exit rw then Some (ReadLock_Through True, rw)
      else if PendingWriters rw > 0 then Some (ReadLock_Wait, rw\<lparr>WaitingReaders := WaitingReaders rw + 1\<rparr>)
      else Some (ReadLock_Through False, rw\<lparr>ActiveReaders := ActiveReaders rw + 1\<rparr>))"
| "ILibReaderWriterLock_ReadLock ReadLock_Wait rw =
     (if ReadLock rw = 0 then None else Some (ReadLock_Through False, rw\<lparr>ReadLock := ReadLock rw - 1\<rparr>))"
| "ILibReaderWriterLock_ReadLock (ReadLock_Through AlreadyExiting) rw = Some (ReadLock_Leave AlreadyExiting (Exit rw), rw)"
| "ILibReaderWriterLock_ReadLock (ReadLock_Leave AlreadyExiting RetVal) rw =
     Some (if RetVal then Idle else Reading, if AlreadyExiting then rw else rw\<lparr>ExitLock := ExitLock rw + 1\<rparr>)"
| "ILibReaderWriterLock_ReadLock _ rw = None"

fun ILibReaderWriterLock_ReadUnLock :: "rw_pc \<Rightarrow> rw_data \<Rightarrow> (rw_pc \<times> rw_data) option" where
  "ILibReaderWriterLock_ReadUnLock ReadUnLock_Enter rw =
     (if Exit rw then Some (Idle, rw)
      else let rw = rw\<lparr>ActiveReaders := ActiveReaders rw - 1\<rparr>
           in Some (ReadUnLock_Signal (ActiveReaders rw = 0 \<and> PendingWriters rw > 0), rw))"
| "ILibReaderWriterLock_ReadUnLock (ReadUnLock_Signal SignalWriter) rw =
     Some (ReadUnLock_Leave, if SignalWriter then rw\<lparr>WriteLock := WriteLock rw + 1\<rparr> else rw)"
| "ILibReaderWriterLock_ReadUnLock ReadUnLock_Leave rw =
     (if ExitLock rw = 0 then None else Some (Idle, rw\<lparr>ExitLock := ExitLock rw - 1\<rparr>))"
| "ILibReaderWriterLock_ReadUnLock _ rw = None"

fun ILibReaderWriterLock_WriteLock :: "rw_pc \<Rightarrow> rw_data \<Rightarrow> (rw_pc \<times> rw_data) option" where
  "ILibReaderWriterLock_WriteLock WriteLock_Enter rw =
     (if Exit rw then Some (WriteLock_Through True, rw)
      else let rw = rw\<lparr>PendingWriters := PendingWriters rw + 1\<rparr>
           in Some (if ActiveReaders rw > 0 \<or> PendingWriters rw > 1 then WriteLock_Wait else WriteLock_Through False, rw))"
| "ILibReaderWriterLock_WriteLock WriteLock_Wait rw =
     (if WriteLock rw = 0 then None else Some (WriteLock_Through False, rw\<lparr>WriteLock := WriteLock rw - 1\<rparr>))"
| "ILibReaderWriterLock_WriteLock (WriteLock_Through AlreadyExiting) rw = Some (WriteLock_Leave AlreadyExiting (Exit rw), rw)"
| "ILibReaderWriterLock_WriteLock (WriteLock_Leave AlreadyExiting RetVal) rw =
     Some (if RetVal then Idle else Writing, if AlreadyExiting then rw else rw\<lparr>ExitLock := ExitLock rw + 1\<rparr>)"
| "ILibReaderWriterLock_WriteLock _ rw = None"

fun ILibReaderWriterLock_WriteUnLock :: "rw_pc \<Rightarrow> rw_data \<Rightarrow> (rw_pc \<times> rw_data) option" where
  "ILibReaderWriterLock_WriteUnLock WriteUnLock_Enter rw =
     (if Exit rw then Some (Idle, rw)
      else let rw = rw\<lparr>PendingWriters := PendingWriters rw - 1\<rparr> in
           if PendingWriters rw > 0 then Some (WriteUnLock_Writer, rw)
           else let SignalReaders = nat (WaitingReaders rw)
                in Some (WriteUnLock_Readers SignalReaders, rw\<lparr>WaitingReaders := WaitingReaders rw - int SignalReaders,
                     ActiveReaders := ActiveReaders rw + int SignalReaders\<rparr>))"
| "ILibReaderWriterLock_WriteUnLock WriteUnLock_Writer rw = Some (WriteUnLock_Leave, rw\<lparr>WriteLock := WriteLock rw + 1\<rparr>)"
| "ILibReaderWriterLock_WriteUnLock (WriteUnLock_Readers n) rw =
     Some (case n of 0 \<Rightarrow> (WriteUnLock_Leave, rw) | Suc n \<Rightarrow> (WriteUnLock_Readers n, rw\<lparr>ReadLock := ReadLock rw + 1\<rparr>))"
| "ILibReaderWriterLock_WriteUnLock WriteUnLock_Leave rw =
     (if ExitLock rw = 0 then None else Some (Idle, rw\<lparr>ExitLock := ExitLock rw - 1\<rparr>))"
| "ILibReaderWriterLock_WriteUnLock _ rw = None"

text \<open>The loops over the waiting threads are inside the section.  Destroying the semaphores ends the use of the lock.\<close>

fun ILibReaderWriterLock_Destroy2 :: "rw_pc \<Rightarrow> rw_data \<Rightarrow> (rw_pc \<times> rw_data) option" where
  "ILibReaderWriterLock_Destroy2 Destroy_Enter rw =
     (let readers = nat (WaitingReaders rw); writers = nat (PendingWriters rw - 1)
      in Some (Destroy_Wait (readers + writers), rw\<lparr>Exit := True, ReadLock := ReadLock rw + readers,
           WaitingReaders := WaitingReaders rw - int readers, WriteLock := WriteLock rw + writers,
           PendingWriters := PendingWriters rw - int writers\<rparr>))"
| "ILibReaderWriterLock_Destroy2 (Destroy_Wait n) rw = (case n of
     0 \<Rightarrow> Some (Idle, rw\<lparr>destroyed := True\<rparr>)
   | Suc n \<Rightarrow> if ExitLock rw = 0 then None else Some (Destroy_Wait n, rw\<lparr>ExitLock := ExitLock rw - 1\<rparr>))"
| "ILibReaderWriterLock_Destroy2 _ rw = None"

text \<open>A step of a thread that is in one of the functions.\<close>

definition thread_step :: "rw_pc \<Rightarrow> rw_data \<Rightarrow> (rw_pc \<times> rw_data) option" where
  "thread_step pc rw =
     (if destroyed rw then None
      else case ILibReaderWriterLock_ReadLock pc rw of Some r \<Rightarrow> Some r
      | None \<Rightarrow> (case ILibReaderWriterLock_ReadUnLock pc rw of Some r \<Rightarrow> Some r
      | None \<Rightarrow> (case ILibReaderWriterLock_WriteLock pc rw of Some r \<Rightarrow> Some r
      | None \<Rightarrow> (case ILibReaderWriterLock_WriteUnLock pc rw of Some r \<Rightarrow> Some r
      | None \<Rightarrow> ILibReaderWriterLock_Destroy2 pc rw))))"

text \<open>The lock and its threads.  \<open>n\<close> threads that are outside at the beginning make any calls, in any order.\<close>

type_synonym rw_system = "rw_data \<times> rw_pc list"

inductive rw_step :: "rw_system \<Rightarrow> rw_system \<Rightarrow> bool" where
  call: "i < length pcs \<Longrightarrow> pc \<in> set (rw_calls (pcs ! i)) \<Longrightarrow> rw_step (rw, pcs) (rw, pcs[i := pc])"
| run: "i < length pcs \<Longrightarrow> thread_step (pcs ! i) rw = Some (pc, rw') \<Longrightarrow> rw_step (rw, pcs) (rw', pcs[i := pc])"

inductive_cases rw_stepE: "rw_step (rw, pcs) s"

inductive rw_reachable :: "nat \<Rightarrow> rw_system \<Rightarrow> bool" for n where
  start: "rw_reachable n (ILibReaderWriterLock_Create, replicate n Idle)"
| step: "rw_reachable n s \<Longrightarrow> rw_step s s' \<Longrightarrow> rw_reachable n s'"

section \<open>The invariant\<close>

text \<open>What a thread contributes to the counters.\<close>

fun readers_in :: "rw_pc \<Rightarrow> int" where
  "readers_in (ReadLock_Through _) = 1" | "readers_in (ReadLock_Leave _ _) = 1" | "readers_in Reading = 1"
| "readers_in ReadUnLock_Enter = 1" | "readers_in _ = 0"

fun readers_waiting :: "rw_pc \<Rightarrow> int" where
  "readers_waiting ReadLock_Wait = 1" | "readers_waiting _ = 0"

fun readers_to_wake :: "rw_pc \<Rightarrow> int" where
  "readers_to_wake (WriteUnLock_Readers n) = int n" | "readers_to_wake _ = 0"

fun writers_in :: "rw_pc \<Rightarrow> int" where
  "writers_in (WriteLock_Through _) = 1" | "writers_in (WriteLock_Leave _ _) = 1" | "writers_in Writing = 1"
| "writers_in WriteUnLock_Enter = 1" | "writers_in _ = 0"

fun writers_waiting :: "rw_pc \<Rightarrow> int" where
  "writers_waiting WriteLock_Wait = 1" | "writers_waiting _ = 0"

fun writers_to_wake :: "rw_pc \<Rightarrow> int" where
  "writers_to_wake (ReadUnLock_Signal b) = of_bool b" | "writers_to_wake WriteUnLock_Writer = 1" | "writers_to_wake _ = 0"

fun exit_posts :: "rw_pc \<Rightarrow> int" where
  "exit_posts Reading = 1" | "exit_posts ReadUnLock_Enter = 1" | "exit_posts (ReadUnLock_Signal _) = 1" | "exit_posts ReadUnLock_Leave = 1"
| "exit_posts Writing = 1" | "exit_posts WriteUnLock_Enter = 1" | "exit_posts WriteUnLock_Writer = 1"
| "exit_posts (WriteUnLock_Readers _) = 1" | "exit_posts WriteUnLock_Leave = 1" | "exit_posts _ = 0"

fun exiting :: "rw_pc \<Rightarrow> int" where
  "exiting (ReadLock_Through b) = of_bool b" | "exiting (ReadLock_Leave a b) = of_bool (a \<or> b)"
| "exiting (WriteLock_Through b) = of_bool b" | "exiting (WriteLock_Leave a b) = of_bool (a \<or> b)"
| "exiting (Destroy_Wait _) = 1" | "exiting _ = 0"

definition sum_of :: "(rw_pc \<Rightarrow> int) \<Rightarrow> rw_pc list \<Rightarrow> int" where
  "sum_of f pcs = sum_list (map f pcs)"

definition rw_inv :: "rw_system \<Rightarrow> bool" where
  "rw_inv s = (case s of (rw, pcs) \<Rightarrow> \<not> Exit rw \<longrightarrow>
     (let woken = int (ReadLock rw) + sum_of readers_to_wake pcs;
          writers = sum_of writers_in pcs + int (WriteLock rw) + sum_of writers_to_wake pcs
      in ActiveReaders rw = sum_of readers_in pcs + woken
       \<and> sum_of readers_waiting pcs = WaitingReaders rw + woken \<and> 0 \<le> WaitingReaders rw
       \<and> PendingWriters rw = sum_of writers_in pcs + sum_of writers_waiting pcs
       \<and> (WaitingReaders rw > 0 \<longrightarrow> PendingWriters rw > 0)
       \<and> writers = (if ActiveReaders rw = 0 \<and> PendingWriters rw > 0 then 1 else 0)
       \<and> int (ExitLock rw) = sum_of exit_posts pcs \<and> sum_of exiting pcs = 0 \<and> \<not> destroyed rw))"

lemma sum_of_update:
  "i < length pcs \<Longrightarrow> sum_of f (pcs[i := pc]) = sum_of f pcs + f pc - f (pcs ! i)"
  unfolding sum_of_def by (induction pcs arbitrary: i) (auto simp: nth_Cons' split: nat.split)

lemma weights_nonneg [simp]:
  "0 \<le> readers_in pc" "0 \<le> readers_waiting pc" "0 \<le> readers_to_wake pc" "0 \<le> writers_in pc" "0 \<le> writers_waiting pc"
  "0 \<le> writers_to_wake pc" "0 \<le> exit_posts pc" "0 \<le> exiting pc"
  by (cases pc; simp)+

lemma sum_of_ge: "i < length pcs \<Longrightarrow> (\<And>pc. 0 \<le> f pc) \<Longrightarrow> f (pcs ! i) \<le> sum_of f pcs"
  unfolding sum_of_def by (intro member_le_sum_list) auto

lemma sum_of_nonneg: "(\<And>pc. 0 \<le> f pc) \<Longrightarrow> 0 \<le> sum_of f pcs"
  unfolding sum_of_def by (intro sum_list_nonneg) auto

lemma rw_inv_I:
  assumes "\<not> Exit rw \<Longrightarrow> ActiveReaders rw = sum_of readers_in pcs + int (ReadLock rw) + sum_of readers_to_wake pcs"
    "\<not> Exit rw \<Longrightarrow> sum_of readers_waiting pcs = WaitingReaders rw + int (ReadLock rw) + sum_of readers_to_wake pcs"
    "\<not> Exit rw \<Longrightarrow> 0 \<le> WaitingReaders rw"
    "\<not> Exit rw \<Longrightarrow> PendingWriters rw = sum_of writers_in pcs + sum_of writers_waiting pcs"
    "\<not> Exit rw \<Longrightarrow> WaitingReaders rw > 0 \<Longrightarrow> PendingWriters rw > 0"
    "\<not> Exit rw \<Longrightarrow> sum_of writers_in pcs + int (WriteLock rw) + sum_of writers_to_wake pcs
       = (if ActiveReaders rw = 0 \<and> PendingWriters rw > 0 then 1 else 0)"
    "\<not> Exit rw \<Longrightarrow> int (ExitLock rw) = sum_of exit_posts pcs" "\<not> Exit rw \<Longrightarrow> sum_of exiting pcs = 0" "\<not> Exit rw \<Longrightarrow> \<not> destroyed rw"
  shows "rw_inv (rw, pcs)"
  using assms by (simp add: rw_inv_def Let_def)

lemma start_inv: "rw_inv (ILibReaderWriterLock_Create, replicate n Idle)"
  by (simp add: rw_inv_def ILibReaderWriterLock_Create_def sum_of_def sum_list_replicate)

lemmas weight_bounds = sum_of_ge [where f = readers_in] sum_of_ge [where f = readers_waiting] sum_of_ge [where f = readers_to_wake]
  sum_of_ge [where f = writers_in] sum_of_ge [where f = writers_waiting] sum_of_ge [where f = writers_to_wake]
  sum_of_ge [where f = exit_posts] sum_of_ge [where f = exiting]

lemma call_inv:
  assumes "rw_inv (rw, pcs)" "i < length pcs" "pc \<in> set (rw_calls (pcs ! i))"
  shows "rw_inv (rw, pcs[i := pc])"
proof -
  have "readers_in pc = readers_in (pcs ! i)" "readers_waiting pc = readers_waiting (pcs ! i)"
    "readers_to_wake pc = readers_to_wake (pcs ! i)" "writers_in pc = writers_in (pcs ! i)"
    "writers_waiting pc = writers_waiting (pcs ! i)" "writers_to_wake pc = writers_to_wake (pcs ! i)"
    "exit_posts pc = exit_posts (pcs ! i)" "exiting pc = exiting (pcs ! i)"
    using assms(3) by (cases "pcs ! i"; auto)+
  then show ?thesis using assms(1,2) by (simp add: rw_inv_def sum_of_update)
qed

lemma rw_invD:
  assumes "rw_inv (rw, pcs)" "\<not> Exit rw"
  shows "ActiveReaders rw = sum_of readers_in pcs + int (ReadLock rw) + sum_of readers_to_wake pcs"
    "sum_of readers_waiting pcs = WaitingReaders rw + int (ReadLock rw) + sum_of readers_to_wake pcs" "0 \<le> WaitingReaders rw"
    "PendingWriters rw = sum_of writers_in pcs + sum_of writers_waiting pcs"
    "WaitingReaders rw > 0 \<longrightarrow> PendingWriters rw > 0"
    "sum_of writers_in pcs + int (WriteLock rw) + sum_of writers_to_wake pcs = (if ActiveReaders rw = 0 \<and> PendingWriters rw > 0 then 1 else 0)"
    "int (ExitLock rw) = sum_of exit_posts pcs" "sum_of exiting pcs = 0" "\<not> destroyed rw"
  using assms by (auto simp: rw_inv_def Let_def)

lemma sums_nonneg:
  "0 \<le> sum_of readers_in pcs" "0 \<le> sum_of readers_waiting pcs" "0 \<le> sum_of readers_to_wake pcs" "0 \<le> sum_of writers_in pcs"
  "0 \<le> sum_of writers_waiting pcs" "0 \<le> sum_of writers_to_wake pcs" "0 \<le> sum_of exit_posts pcs" "0 \<le> sum_of exiting pcs"
  by (simp_all add: sum_of_nonneg)

lemma ReadLock_inv:
  assumes "rw_inv (rw, pcs)" "i < length pcs" "ILibReaderWriterLock_ReadLock (pcs ! i) rw = Some (pc, rw')" "\<not> Exit rw"
  shows "rw_inv (rw', pcs[i := pc])"
  using assms(3) rw_invD [OF assms(1,4)] sums_nonneg [of pcs] weight_bounds [OF assms(2), simplified] assms(4)
  by (cases "pcs ! i"; simp?; intro rw_inv_I) (auto simp: sum_of_update [OF assms(2)] Let_def split: if_splits nat.splits)

lemma ReadUnLock_inv:
  assumes "rw_inv (rw, pcs)" "i < length pcs" "ILibReaderWriterLock_ReadUnLock (pcs ! i) rw = Some (pc, rw')" "\<not> Exit rw"
  shows "rw_inv (rw', pcs[i := pc])"
  using assms(3) rw_invD [OF assms(1,4)] sums_nonneg [of pcs] weight_bounds [OF assms(2), simplified] assms(4)
  by (cases "pcs ! i"; simp?; intro rw_inv_I) (auto simp: sum_of_update [OF assms(2)] Let_def split: if_splits nat.splits)

lemma WriteLock_inv:
  assumes "rw_inv (rw, pcs)" "i < length pcs" "ILibReaderWriterLock_WriteLock (pcs ! i) rw = Some (pc, rw')" "\<not> Exit rw"
  shows "rw_inv (rw', pcs[i := pc])"
  using assms(3) rw_invD [OF assms(1,4)] sums_nonneg [of pcs] weight_bounds [OF assms(2), simplified] assms(4)
  by (cases "pcs ! i"; simp?; intro rw_inv_I) (auto simp: sum_of_update [OF assms(2)] Let_def split: if_splits nat.splits)

lemma WriteUnLock_inv:
  assumes "rw_inv (rw, pcs)" "i < length pcs" "ILibReaderWriterLock_WriteUnLock (pcs ! i) rw = Some (pc, rw')" "\<not> Exit rw"
  shows "rw_inv (rw', pcs[i := pc])"
  using assms(3) rw_invD [OF assms(1,4)] sums_nonneg [of pcs] weight_bounds [OF assms(2), simplified] assms(4)
  by (cases "pcs ! i"; simp?; intro rw_inv_I) (auto simp: sum_of_update [OF assms(2)] Let_def split: if_splits nat.splits)

lemma Destroy2_inv:
  assumes "rw_inv (rw, pcs)" "i < length pcs" "ILibReaderWriterLock_Destroy2 (pcs ! i) rw = Some (pc, rw')" "\<not> Exit rw"
  shows "rw_inv (rw', pcs[i := pc])"
  using assms(3) rw_invD [OF assms(1,4)] sums_nonneg [of pcs] weight_bounds [OF assms(2), simplified] assms(4)
  by (cases "pcs ! i"; simp?; intro rw_inv_I) (auto simp: sum_of_update [OF assms(2)] Let_def split: if_splits nat.splits)

lemma Exit_stays: "thread_step pc rw = Some (pc', rw') \<Longrightarrow> Exit rw \<Longrightarrow> Exit rw'"
  by (cases pc) (auto simp: thread_step_def Let_def split: if_splits nat.splits)

lemma run_inv:
  assumes "rw_inv (rw, pcs)" "i < length pcs" "thread_step (pcs ! i) rw = Some (pc, rw')"
  shows "rw_inv (rw', pcs[i := pc])"
proof (cases "Exit rw")
  case True
  then show ?thesis using Exit_stays [OF assms(3)] by (simp add: rw_inv_def)
next
  case False
  then show ?thesis
    using assms ReadLock_inv ReadUnLock_inv WriteLock_inv WriteUnLock_inv Destroy2_inv
    by (auto simp: thread_step_def split: if_splits option.splits)
qed

lemma reachable_inv: "rw_reachable n s \<Longrightarrow> rw_inv s"
proof (induction rule: rw_reachable.induct)
  case start
  then show ?case by (rule start_inv)
next
  case (step s s')
  then show ?case by (cases s) (auto elim!: rw_stepE intro: call_inv run_inv)
qed

section \<open>Properties\<close>

definition count_pc :: "(rw_pc \<Rightarrow> bool) \<Rightarrow> rw_pc list \<Rightarrow> nat" where
  "count_pc P pcs = length (filter P pcs)"

lemma count_le_sum: "(\<And>pc. 0 \<le> f pc) \<Longrightarrow> (\<And>pc. P pc \<Longrightarrow> 1 \<le> f pc) \<Longrightarrow> int (count_pc P pcs) \<le> sum_of f pcs"
proof (induction pcs)
  case (Cons pc pcs)
  then have "int (count_pc P pcs) \<le> sum_of f pcs" "0 \<le> f pc" "P pc \<Longrightarrow> 1 \<le> f pc" by auto
  then show ?case by (cases "P pc") (simp_all add: count_pc_def sum_of_def)
qed (simp add: count_pc_def sum_of_def)

text \<open>
  The threads that hold the lock, or are about to return from the call that got it.  After \<open>ILibReaderWriterLock_Destroy2\<close> has set \<open>Exit\<close>
  nobody joins them, as \<open>RetVal\<close> is the value of \<open>Exit\<close> behind the wait.
\<close>

fun holds_write :: "rw_pc \<Rightarrow> int" where
  "holds_write (WriteLock_Leave _ RetVal) = of_bool (\<not> RetVal)" | "holds_write Writing = 1" | "holds_write WriteUnLock_Enter = 1"
| "holds_write _ = 0"

fun holds_read :: "rw_pc \<Rightarrow> int" where
  "holds_read (ReadLock_Leave _ RetVal) = of_bool (\<not> RetVal)" | "holds_read Reading = 1" | "holds_read ReadUnLock_Enter = 1"
| "holds_read _ = 0"

definition exclusive :: "rw_system \<Rightarrow> bool" where
  "exclusive s \<longleftrightarrow> sum_of holds_write (snd s) + (if sum_of holds_read (snd s) > 0 then 1 else 0) \<le> 1"

lemma holds_nonneg [simp]: "0 \<le> holds_write pc" "0 \<le> holds_read pc"
  by (cases pc; simp)+

lemma sum_of_mono: "(\<And>pc. f pc \<le> g pc) \<Longrightarrow> sum_of f pcs \<le> sum_of g pcs"
  unfolding sum_of_def by (intro sum_list_mono) auto

lemma holds_in: "holds_write pc \<le> writers_in pc" "holds_read pc \<le> readers_in pc"
  by (cases pc; simp)+

lemma exclusive_before_exit:
  assumes "rw_inv (rw, pcs)" "\<not> Exit rw"
  shows "exclusive (rw, pcs)"
proof -
  note I = rw_invD [OF assms] sums_nonneg [of pcs]
  have "sum_of holds_write pcs \<le> sum_of writers_in pcs" "sum_of holds_read pcs \<le> sum_of readers_in pcs"
    by (intro sum_of_mono holds_in)+
  with I(1,6) I(10-) show ?thesis by (auto simp: exclusive_def split: if_splits)
qed

lemma nobody_joins:
  "Exit rw \<Longrightarrow> thread_step pc rw = Some (pc', rw') \<Longrightarrow> holds_write pc' \<le> holds_write pc \<and> holds_read pc' \<le> holds_read pc"
  by (cases pc) (auto simp: thread_step_def Let_def split: if_splits nat.splits)

lemma holds_call: "pc' \<in> set (rw_calls pc) \<Longrightarrow> holds_write pc' = holds_write pc \<and> holds_read pc' = holds_read pc"
  by (cases pc) auto

lemma exclusive_fewer:
  assumes "exclusive (rw, pcs)" "i < length pcs" "holds_write pc \<le> holds_write (pcs ! i)" "holds_read pc \<le> holds_read (pcs ! i)"
  shows "exclusive (rw', pcs[i := pc])"
  using assms by (auto simp: exclusive_def sum_of_update split: if_splits)

lemma exclusive_step:
  assumes "exclusive (rw, pcs)" "rw_inv s" "rw_step (rw, pcs) s"
  shows "exclusive s"
proof -
  from assms(3) consider i pc where "i < length pcs" "pc \<in> set (rw_calls (pcs ! i))" "s = (rw, pcs[i := pc])"
    | i pc rw' where "i < length pcs" "thread_step (pcs ! i) rw = Some (pc, rw')" "s = (rw', pcs[i := pc])"
    by (auto elim: rw_stepE)
  then show ?thesis
  proof cases
    case 1
    then show ?thesis using exclusive_fewer [OF assms(1)] holds_call by simp
  next
    case run: (2 i pc rw')
    show ?thesis
    proof (cases "Exit rw'")
      case False
      then show ?thesis using exclusive_before_exit assms(2) run(3) by blast
    next
      case True
      then have "Exit rw \<or> pcs ! i = Destroy_Enter"
        using run(2) by (cases "pcs ! i") (auto simp: thread_step_def Let_def split: if_splits nat.splits)
      then have "holds_write pc \<le> holds_write (pcs ! i) \<and> holds_read pc \<le> holds_read (pcs ! i)"
        using nobody_joins [OF _ run(2)] run(2) by (auto simp: thread_step_def Let_def split: if_splits)
      then show ?thesis using exclusive_fewer [OF assms(1) run(1)] run(3) by blast
    qed
  qed
qed

lemma reachable_exclusive: "rw_reachable n s \<Longrightarrow> exclusive s"
proof (induction rule: rw_reachable.induct)
  case start
  then show ?case by (simp add: exclusive_def sum_of_def sum_list_replicate)
next
  case (step s s')
  then show ?case using exclusive_step [of "fst s" "snd s" s'] reachable_inv [OF rw_reachable.step] by simp
qed

text \<open>C23 (safety): Mutual exclusion: in every state that any number of threads reach, also while the lock is being destroyed and after that, at most one
  thread holds it for writing, and none holds it for reading then.\<close>

theorem writers_exclude_others:
  assumes "rw_reachable n (rw, pcs)"
  shows "count_pc (\<lambda>pc. pc = Writing) pcs \<le> 1
    \<and> (count_pc (\<lambda>pc. pc = Writing) pcs = 1 \<longrightarrow> count_pc (\<lambda>pc. pc = Reading) pcs = 0)"
proof -
  have "int (count_pc (\<lambda>pc. pc = Writing) pcs) \<le> sum_of holds_write pcs"
    "int (count_pc (\<lambda>pc. pc = Reading) pcs) \<le> sum_of holds_read pcs"
    by (intro count_le_sum; simp)+
  with reachable_exclusive [OF assms] sum_of_nonneg [of holds_write pcs] show ?thesis
    by (auto simp: exclusive_def split: if_splits)
qed

lemma sum_of_pos: "0 < sum_of f pcs \<Longrightarrow> (\<And>pc. 0 \<le> f pc) \<Longrightarrow> \<exists>i < length pcs. 0 < f (pcs ! i)"
proof (induction pcs)
  case (Cons pc pcs)
  show ?case
  proof (cases "0 < f pc")
    case False
    then have "0 < sum_of f pcs" using Cons.prems by (simp add: sum_of_def)
    then obtain i where "i < length pcs" "0 < f (pcs ! i)" using Cons by auto
    then show ?thesis by (intro exI [where x = "Suc i"]) simp
  qed (intro exI [where x = 0], simp)
qed (simp add: sum_of_def)

lemma positive_weights:
  "0 < readers_in pc \<Longrightarrow> pc = Reading \<or> thread_step pc rw \<noteq> None \<or> destroyed rw"
  "0 < writers_in pc \<Longrightarrow> pc = Writing \<or> thread_step pc rw \<noteq> None \<or> destroyed rw"
  "0 < readers_to_wake pc \<Longrightarrow> thread_step pc rw \<noteq> None \<or> destroyed rw"
  "0 < writers_to_wake pc \<Longrightarrow> thread_step pc rw \<noteq> None \<or> destroyed rw"
  "0 < readers_waiting pc \<Longrightarrow> 0 < ReadLock rw \<Longrightarrow> thread_step pc rw \<noteq> None \<or> destroyed rw"
  "0 < writers_waiting pc \<Longrightarrow> 0 < WriteLock rw \<Longrightarrow> thread_step pc rw \<noteq> None \<or> destroyed rw"
  by (cases pc; simp add: thread_step_def Let_def)+


lemma destroy_waits:
  "\<not> destroyed rw \<Longrightarrow> i < length pcs \<Longrightarrow> pcs ! i = Destroy_Wait k \<Longrightarrow> k \<le> ExitLock rw \<Longrightarrow>
     \<exists>rw'. rw_step\<^sup>*\<^sup>* (rw, pcs) (rw', pcs[i := Idle]) \<and> destroyed rw'"
proof (induction k arbitrary: rw pcs)
  case 0
  then have "thread_step (pcs ! i) rw = Some (Idle, rw\<lparr>destroyed := True\<rparr>)" by (simp add: thread_step_def)
  from rw_step.run [OF 0(2) this] show ?case by (intro exI [where x = "rw\<lparr>destroyed := True\<rparr>"]) auto
next
  case (Suc k)
  let ?rw = "rw\<lparr>ExitLock := ExitLock rw - 1\<rparr>"
  have "thread_step (pcs ! i) rw = Some (Destroy_Wait k, ?rw)" using Suc.prems by (simp add: thread_step_def)
  note step = rw_step.run [OF Suc.prems(2) this]
  obtain rw' where "rw_step\<^sup>*\<^sup>* (?rw, pcs[i := Destroy_Wait k]) (rw', pcs[i := Idle])" "destroyed rw'"
    using Suc.IH [of ?rw "pcs[i := Destroy_Wait k]"] Suc.prems by fastforce
  with converse_rtranclp_into_rtranclp [of rw_step, OF step] show ?case by blast
qed

text \<open>\<open>ILibReaderWriterLock_Destroy2\<close> counts the threads it has to wake, all but one of the writers, and then waits until as many have left.  It
  leaves out a writer that waits for readers, and it takes the marks of threads that hold the lock for those of woken ones: with enough holders
  it runs to its end, and the semaphores are destroyed, while every other thread is where it was, also those that wait for them.\<close>

theorem destroy_while_threads_wait:
  assumes "rw_reachable n (rw, pcs)" "\<not> Exit rw" "i < length pcs" "pcs ! i = Destroy_Enter"
    and "WaitingReaders rw + max 0 (PendingWriters rw - 1) \<le> int (ExitLock rw)"
  shows "\<exists>rw'. rw_step\<^sup>*\<^sup>* (rw, pcs) (rw', pcs[i := Idle]) \<and> destroyed rw'"
proof -
  note I = rw_invD [OF reachable_inv [OF assms(1)] assms(2)]
  define r w where "r = nat (WaitingReaders rw)" "w = nat (PendingWriters rw - 1)"
  define rw1 where "rw1 = rw\<lparr>Exit := True, ReadLock := ReadLock rw + r, WaitingReaders := WaitingReaders rw - int r,
    WriteLock := WriteLock rw + w, PendingWriters := PendingWriters rw - int w\<rparr>"
  have "thread_step (pcs ! i) rw = Some (Destroy_Wait (r + w), rw1)"
    using assms(4) I(9) by (simp add: thread_step_def rw1_def r_w_def Let_def)
  note step = rw_step.run [OF assms(3) this]
  have "r + w \<le> ExitLock rw1" using assms(5) I(3) by (simp add: rw1_def r_w_def)
  then obtain rw' where "rw_step\<^sup>*\<^sup>* (rw1, pcs[i := Destroy_Wait (r + w)]) (rw', pcs[i := Idle])" "destroyed rw'"
    using destroy_waits [of rw1 i "pcs[i := Destroy_Wait (r + w)]" "r + w"] assms(3) I(9) by (auto simp: rw1_def)
  with converse_rtranclp_into_rtranclp [of rw_step, OF step] show ?thesis by blast
qed

section \<open>Examples\<close>

text \<open>A thread reads, another waits to write, and a third destroys the lock.\<close>

definition sample_lock :: rw_data where
  "sample_lock = ILibReaderWriterLock_Create\<lparr>ActiveReaders := 1, PendingWriters := 1, ExitLock := 1\<rparr>"

lemma reach_call: "rw_reachable n (rw, pcs) \<Longrightarrow> i < length pcs \<Longrightarrow> pc \<in> set (rw_calls (pcs ! i)) \<Longrightarrow> rw_reachable n (rw, pcs[i := pc])"
  by (blast intro: rw_reachable.step rw_step.call)

lemma reach_run:
  "rw_reachable n (rw, pcs) \<Longrightarrow> i < length pcs \<Longrightarrow> thread_step (pcs ! i) rw = Some (pc, rw') \<Longrightarrow> rw_reachable n (rw', pcs[i := pc])"
  by (blast intro: rw_reachable.step rw_step.run)

lemma sample_lock_reachable: "rw_reachable 3 (sample_lock, [Reading, WriteLock_Wait, Destroy_Enter])"
proof -
  note d = ILibReaderWriterLock_Create_def thread_step_def sample_lock_def
  have "rw_reachable 3 (ILibReaderWriterLock_Create, [Idle, Idle, Idle])"
    using rw_reachable.start [of 3] by (simp add: numeral_3_eq_3)
  from reach_call [OF this, of 0 ReadLock_Enter]
  have "rw_reachable 3 (ILibReaderWriterLock_Create, [ReadLock_Enter, Idle, Idle])" by simp
  from reach_run [OF this, of 0]
  have "rw_reachable 3 (ILibReaderWriterLock_Create\<lparr>ActiveReaders := 1\<rparr>, [ReadLock_Through False, Idle, Idle])" by (simp add: d)
  from reach_run [OF this, of 0]
  have "rw_reachable 3 (ILibReaderWriterLock_Create\<lparr>ActiveReaders := 1\<rparr>, [ReadLock_Leave False False, Idle, Idle])" by (simp add: d)
  from reach_run [OF this, of 0]
  have "rw_reachable 3 (ILibReaderWriterLock_Create\<lparr>ActiveReaders := 1, ExitLock := 1\<rparr>, [Reading, Idle, Idle])" by (simp add: d)
  from reach_call [OF this, of 1 WriteLock_Enter]
  have "rw_reachable 3 (ILibReaderWriterLock_Create\<lparr>ActiveReaders := 1, ExitLock := 1\<rparr>, [Reading, WriteLock_Enter, Idle])" by simp
  from reach_run [OF this, of 1] have "rw_reachable 3 (sample_lock, [Reading, WriteLock_Wait, Idle])" by (simp add: d)
  from reach_call [OF this, of 2 Destroy_Enter] show ?thesis by simp
qed

lemma sample_lock_facts: "\<not> Exit sample_lock" "WaitingReaders sample_lock = 0" "PendingWriters sample_lock = 1" "ExitLock sample_lock = 1"
  by (simp_all add: sample_lock_def ILibReaderWriterLock_Create_def)

lemma writers_exclude_others_witness: "count_pc (\<lambda>pc. pc = Writing) [Reading, WriteLock_Wait, Destroy_Enter] \<le> 1"
  using writers_exclude_others [OF sample_lock_reachable] by blast


lemma destroy_while_threads_wait_witness:
  "\<exists>rw'. rw_step\<^sup>*\<^sup>* (sample_lock, [Reading, WriteLock_Wait, Destroy_Enter]) (rw', [Reading, WriteLock_Wait, Idle]) \<and> destroyed rw'"
  using destroy_while_threads_wait [OF sample_lock_reachable sample_lock_facts(1), of 2] sample_lock_facts by simp

end
