(* ===== verification/HttpClient.thy ===== *)
theory HttpClient
  imports HttpPacket Escapes WebSocket
begin

text \<open>
  What microstack/ILibWebClient.c does with the bytes that arrive on a connection, as client and for the web server: finding the end of the header,
  deciding how long the body is, the decoder of chunked bodies, the queue of pipelined requests, and the switch to WebSocket frames.

  The user of the module is a function: from what happened before, the status and the data of \<open>OnResponse\<close> it gives the number of bytes it
  consumes and whether it answers the request at once (for the web server, which then calls \<open>ILibWebClient_FinishedResponse_Server\<close>).
  A length is an \<open>int\<close>, which may be negative; with a negative one the user is called all the same, which is an event of its own.
  \<open>None\<close> is undefined behaviour: a read outside the data that arrived, a negative number of bytes consumed, an \<open>int\<close> that overflows, or
  a loop that does not end.

  The offset of the data in the buffer is 0, as the socket passes it.  Left out: the user closing the connection inside of
  \<open>OnResponse\<close>, pausing, cancelling of requests, addresses and digest authentication.
\<close>

section \<open>State\<close>

datatype chunk_flag = STARTCHUNK | ENDCHUNK | DATACHUNK | FOOTERCHUNK

definition INITIAL_BUFFER_SIZE :: nat where "INITIAL_BUFFER_SIZE = 65535"

text \<open>\<open>chunk_buffer\<close> is the \<open>offset\<close> bytes of the buffer that are in use.\<close>

record ILibWebClient_ChunkData =
  Flag :: chunk_flag
  chunk_buffer :: "byte list"
  mallocSize :: nat
  read_BeginPointer :: nat
  read_EndPointer :: int
  bytesLeft :: int
  complete :: bool

definition new_chunk :: ILibWebClient_ChunkData where
  "new_chunk = \<lparr>Flag = STARTCHUNK, chunk_buffer = [], mallocSize = INITIAL_BUFFER_SIZE, read_BeginPointer = 0, read_EndPointer = 0,
     bytesLeft = 0, complete = False\<rparr>"

text \<open>\<open>requestToken\<close>: the key the server has to answer for a WebSocket, if that is asked for, and the size of its buffer.\<close>

record ILibWebRequest =
  Buffer :: "byte list list"
  IsHeadRequest :: bool
  streamedState :: bool
  has_OnResponse :: bool
  requestToken :: "(byte list option \<times> nat) option"

datatype http_event =
    Answer ILibWebClient_ReceiveStatus "packetheader option" "byte list" nat
  | NegativeAnswer ILibWebClient_ReceiveStatus "packetheader option" int
  | ProcessExit
  | RequestDone bool
  | Sent "byte list"
  | IdleTimer
  | Disconnected
  | WebSocketEvent ws_event

record ILibWebClientDataObject =
  IsWebSocket :: bool
  PipelineFlag :: nat
  FinHeader :: bool
  NeedFlush :: bool
  Chunked :: bool
  chunk :: "ILibWebClient_ChunkData option"
  ConnectionCloseSpecified :: bool
  BytesLeft :: int
  WaitForClose :: bool
  Server :: nat
  HeaderLength :: nat
  header :: "packetheader option"
  InitialRequestAnswered :: bool
  RequestQueue :: "ILibWebRequest list"
  connected :: bool
  ws_state :: "ILibWebClient_WebSocketState option"
  errno_range :: bool
  events :: "http_event list"

type_synonym http_user = "http_event list \<Rightarrow> ILibWebClient_ReceiveStatus \<Rightarrow> byte list \<Rightarrow> nat \<times> bool"

definition emit :: "http_event \<Rightarrow> ILibWebClientDataObject \<Rightarrow> ILibWebClientDataObject" where
  "emit e w = w\<lparr>events := events w @ [e]\<rparr>"

section \<open>The end of a message\<close>

definition ILibWebClient_ResetWCDO :: "ILibWebClientDataObject \<Rightarrow> ILibWebClientDataObject" where
  "ILibWebClient_ResetWCDO w = w\<lparr>Chunked := False, FinHeader := False, WaitForClose := False, InitialRequestAnswered := True,
     ConnectionCloseSpecified := False, chunk := None, header := None\<rparr>"

definition ILibWebClient_FinishedResponse_Server :: "ILibWebClientDataObject \<Rightarrow> ILibWebClientDataObject" where
  "ILibWebClient_FinishedResponse_Server w =
     (if Chunked w \<and> (case chunk w of None \<Rightarrow> True | Some c \<Rightarrow> \<not> complete c) then w\<lparr>NeedFlush := True\<rparr>
      else ILibWebClient_ResetWCDO w)"

definition PIPELINE_YES :: nat where "PIPELINE_YES = 1"
definition PIPELINE_NO :: nat where "PIPELINE_NO = 2"

definition ILibWebClient_FinishedResponse :: "ILibWebClientDataObject \<Rightarrow> ILibWebClientDataObject" where
  "ILibWebClient_FinishedResponse w =
     (if Server w \<noteq> 0 then w
      else if (case header w of None \<Rightarrow> False | Some h \<Rightarrow> 100 \<le> StatusCode h \<and> StatusCode h < 200)
      then (ILibWebClient_ResetWCDO w)\<lparr>InitialRequestAnswered := False\<rparr>
      else let closeSpecified = ConnectionCloseSpecified w;
               w = ILibWebClient_ResetWCDO w in
      if \<not> connected w
      then (case RequestQueue w of [] \<Rightarrow> w | _ # q \<Rightarrow> emit (RequestDone True) (w\<lparr>RequestQueue := q\<rparr>))
      else let w = (case RequestQueue w of [] \<Rightarrow> w
             | _ # q \<Rightarrow>
                 let w = emit (RequestDone closeSpecified) (w\<lparr>RequestQueue := q\<rparr>) in
                 (case q of [] \<Rightarrow> emit IdleTimer w
                  | req # _ \<Rightarrow> if PipelineFlag w \<noteq> PIPELINE_NO \<and> \<not> closeSpecified
                      then fold (\<lambda>b. emit (Sent b)) (Buffer req) (w\<lparr>PipelineFlag := PIPELINE_YES\<rparr>) else w))
           in if PipelineFlag w = PIPELINE_NO \<or> closeSpecified then emit Disconnected w else w)"

text \<open>A call of \<open>OnResponse\<close>; the result is also what the user consumed.\<close>

definition respond ::
  "http_user \<Rightarrow> ILibWebClient_ReceiveStatus \<Rightarrow> byte list \<Rightarrow> ILibWebClientDataObject \<Rightarrow> ILibWebClientDataObject \<times> nat" where
  "respond user status d w =
     (let (consumed, answered) = user (events w) status d;
          w = emit (Answer status (header w) d consumed) w
      in (if answered then ILibWebClient_FinishedResponse_Server w else w, consumed))"

text \<open>
  A call with a negative length.  What the user then reads is not the data of the connection; it sees the length in the last event.
\<close>

definition respond_length ::
  "http_user \<Rightarrow> ILibWebClient_ReceiveStatus \<Rightarrow> int \<Rightarrow> ILibWebClientDataObject \<Rightarrow> ILibWebClientDataObject \<times> nat" where
  "respond_length user status len w =
     (let w = emit (NegativeAnswer status (header w) len) w;
          (consumed, answered) = user (events w) status []
      in (if answered then ILibWebClient_FinishedResponse_Server w else w, consumed))"

text \<open>A bounded copy that does not fit ends the process.\<close>

definition process_exit :: "ILibWebClientDataObject \<Rightarrow> ILibWebClientDataObject" where
  "process_exit w = emit ProcessExit (w\<lparr>connected := False\<rparr>)"

definition can_respond :: "ILibWebClientDataObject \<Rightarrow> bool" where
  "can_respond w = (case RequestQueue w of [] \<Rightarrow> False | req # _ \<Rightarrow> has_OnResponse req)"

section \<open>Chunked bodies\<close>

text \<open>The first \<open>i\<close> before \<open>stop\<close> with a line break in the two bytes before it.\<close>

function find_line_end :: "byte list \<Rightarrow> nat \<Rightarrow> nat \<Rightarrow> nat option option" where
  "find_line_end buffer i stop =
     (if i < stop then do {
        a \<leftarrow> rd buffer (i - 2); b \<leftarrow> rd buffer (i - 1);
        if a = 13 \<and> b = 10 then Some (Some i) else find_line_end buffer (i + 1) stop }
      else Some None)"
  by pat_completeness auto
termination by (relation "measure (\<lambda>(buffer, i, stop). stop - i)") auto

declare find_line_end.simps [simp del]

text \<open>\<open>(int)strtol(s, NULL, 16)\<close>.\<close>

definition strtol_hex :: "byte list \<Rightarrow> int" where
  "strtol_hex s = signed_take_bit 31 (max (- (2 ^ 63)) (min (2 ^ 63 - 1) (strtol16 s)))"

definition chunk_start :: "byte list \<Rightarrow> ILibWebClient_ChunkData \<Rightarrow> (ILibWebClient_ChunkData \<times> nat) option" where
  "chunk_start buffer c =
     (if length buffer < 3 then Some (c, 0)
      else do {
        r \<leftarrow> find_line_end buffer 2 (length buffer);
        (case r of
           None \<Rightarrow> Some (c, 0)
         | Some i \<Rightarrow> do {
             pr \<leftarrow> ILibParseString buffer 0 (i - 2) [59];
             let n = strtol_hex (case hd pr of (d, l) \<Rightarrow> slice buffer d l);
             Some (c\<lparr>bytesLeft := n, Flag := (if n = 0 then FOOTERCHUNK else DATACHUNK)\<rparr>, i) }) })"

text \<open>
  Appending \<open>i\<close> bytes to the buffer, which grows by what is missing, but at least by its first size: \<open>None\<close> when one of the \<open>int\<close>s
  overflows, \<open>Some None\<close> when the bounded copy ends the process (a negative \<open>i\<close> is a huge count).
\<close>

definition chunk_append :: "byte list \<Rightarrow> int \<Rightarrow> ILibWebClient_ChunkData \<Rightarrow> ILibWebClient_ChunkData option option" where
  "chunk_append buffer i c =
     (let need = length (chunk_buffer c) + length buffer;
          missing = need - mallocSize c;
          size = (if need > mallocSize c then mallocSize c + max missing INITIAL_BUFFER_SIZE else mallocSize c)
      in if need > INT32_MAX \<or> need > mallocSize c \<and> size > INT32_MAX then None
         else if i < 0 \<or> length (chunk_buffer c) + nat i > size then Some None
         else Some (Some (c\<lparr>mallocSize := size, chunk_buffer := chunk_buffer c @ take (nat i) buffer\<rparr>)))"

definition reset_chunk_buffer :: "ILibWebClient_ChunkData \<Rightarrow> ILibWebClient_ChunkData" where
  "reset_chunk_buffer c = c\<lparr>read_BeginPointer := 0, read_EndPointer := 0, chunk_buffer := []\<rparr>"

text \<open>
  The call of the user with the data of a chunk, of which \<open>i\<close> bytes are offered: the bytes in the buffer of the socket (\<open>offer_arrived\<close>), or all that
  was kept (\<open>offer_kept\<close>).  The second result is how much of the chunk is done with, or that the process ended.
\<close>

definition offer_arrived ::
  "http_user \<Rightarrow> byte list \<Rightarrow> int \<Rightarrow> ILibWebClientDataObject \<Rightarrow> (ILibWebClientDataObject \<times> nat option) option" where
  "offer_arrived user buffer i w =
     (let (w, bp) = (if i < 0 then respond_length user MoreDataToBeReceived i w else respond user MoreDataToBeReceived (take (nat i) buffer) w) in do {
        c \<leftarrow> chunk w;
        if bp = 0 then do {
          kept \<leftarrow> chunk_append buffer i (c\<lparr>read_BeginPointer := 0, read_EndPointer := i\<rparr>);
          Some (case kept of None \<Rightarrow> (w, None) | Some c \<Rightarrow> (w\<lparr>chunk := Some c\<rparr>, Some (nat i))) }
        else if int bp \<noteq> i then Some (w\<lparr>chunk := Some (c\<lparr>read_BeginPointer := bp, read_EndPointer := i\<rparr>)\<rparr>, Some bp)
        else Some (w\<lparr>chunk := Some (reset_chunk_buffer c)\<rparr>, Some bp) })"

definition offer_kept ::
  "http_user \<Rightarrow> nat \<Rightarrow> ILibWebClientDataObject \<Rightarrow> (ILibWebClientDataObject \<times> nat option) option" where
  "offer_kept user i w = do {
     c \<leftarrow> chunk w;
     let len = int (length (chunk_buffer c)) - int (read_BeginPointer c);
     let (w, bp) = (if len < 0 then respond_length user MoreDataToBeReceived len w
       else respond user MoreDataToBeReceived (drop (read_BeginPointer c) (chunk_buffer c)) w);
     c \<leftarrow> chunk w;
     let c = (if int bp = int (length (chunk_buffer c)) - int (read_BeginPointer c) then reset_chunk_buffer c
       else c\<lparr>read_BeginPointer := read_BeginPointer c + bp, read_EndPointer := int (length (chunk_buffer c))\<rparr>);
     Some (w\<lparr>chunk := Some c\<rparr>, Some i) }"

text \<open>
  \<open>i\<close> is how much of the chunk arrived, negative if the chunk's size is.  What arrives while something is kept is kept with it, before the user is called.  Without a
  user, or when the rest of the body is flushed, nothing is consumed.
\<close>

definition chunk_data ::
  "http_user \<Rightarrow> byte list \<Rightarrow> ILibWebClient_ChunkData \<Rightarrow> ILibWebClientDataObject \<Rightarrow> (ILibWebClientDataObject \<times> nat) option" where
  "chunk_data user buffer c w =
     (let i = (if int (length buffer) \<ge> bytesLeft c then bytesLeft c else int (length buffer));
          passthru = (int (read_BeginPointer c) = read_EndPointer c) in do {
        kept \<leftarrow> (if passthru then Some (Some c) else chunk_append buffer i c);
        (case kept of
           None \<Rightarrow> Some (process_exit w, 0)
         | Some c \<Rightarrow> do {
             let w = w\<lparr>chunk := Some c\<rparr>;
             (w, bp) \<leftarrow> (if can_respond w \<and> \<not> NeedFlush w
                then if passthru then offer_arrived user buffer i w else offer_kept user (nat i) w
                else Some (w, Some 0));
             (case bp of
                None \<Rightarrow> Some (process_exit w, 0)
              | Some bp \<Rightarrow> do {
                  c \<leftarrow> chunk w;
                  let left = bytesLeft c - int bp;
                  Some (w\<lparr>chunk := Some (c\<lparr>bytesLeft := left, Flag := (if left = 0 then ENDCHUNK else Flag c)\<rparr>)\<rparr>, bp) }) }) })"

text \<open>
  The chunk of size 0 is followed by lines, which are skipped, and an empty line.  At the end the user is offered what it has not consumed, which is \<open>None\<close> when that
  was never copied into the buffer: it is not after a user that consumed a part of what was passed on from the socket.
\<close>

definition chunk_finish :: "http_user \<Rightarrow> ILibWebClient_ChunkData \<Rightarrow> ILibWebClientDataObject \<Rightarrow> ILibWebClientDataObject option" where
  "chunk_finish user c w = do {
     let w = w\<lparr>chunk := Some (c\<lparr>complete := True\<rparr>)\<rparr>;
     let first = read_BeginPointer c;
     w \<leftarrow> (if \<not> can_respond w \<or> NeedFlush w then Some w
       else if read_EndPointer c < int first then Some (fst (respond_length user Complete (read_EndPointer c - int first) w))
       else if read_EndPointer c > int (length (chunk_buffer c)) then None
       else Some (fst (respond user Complete (drop first (take (nat (read_EndPointer c)) (chunk_buffer c))) w)));
     let w = (if NeedFlush w then ILibWebClient_FinishedResponse_Server (w\<lparr>NeedFlush := False\<rparr>) else w);
     Some (ILibWebClient_FinishedResponse (w\<lparr>chunk := None\<rparr>)) }"

definition ILibWebClient_ProcessChunk ::
  "http_user \<Rightarrow> byte list \<Rightarrow> ILibWebClientDataObject \<Rightarrow> (ILibWebClientDataObject \<times> nat) option" where
  "ILibWebClient_ProcessChunk user buffer w =
     (let c = (case chunk w of None \<Rightarrow> new_chunk | Some c \<Rightarrow> c); w = w\<lparr>chunk := Some c\<rparr> in
      case Flag c of
        STARTCHUNK \<Rightarrow> do { (c, p) \<leftarrow> chunk_start buffer c; Some (w\<lparr>chunk := Some c\<rparr>, p) }
      | ENDCHUNK \<Rightarrow> Some (if length buffer \<ge> 2 then (w\<lparr>chunk := Some (c\<lparr>Flag := STARTCHUNK\<rparr>)\<rparr>, 2) else (w, 0))
      | DATACHUNK \<Rightarrow> chunk_data user buffer c w
      | FOOTERCHUNK \<Rightarrow>
          if length buffer \<ge> 2 then do {
            r \<leftarrow> find_line_end buffer 2 (length buffer + 1);
            (case r of
               None \<Rightarrow> Some (w, 0)
             | Some i \<Rightarrow> do { w \<leftarrow> (if i = 2 then chunk_finish user c w else Some w); Some (w, i) }) }
          else Some (w, 0))"

section \<open>Headers\<close>

text \<open>
  \<open>atof(Version) > 1.0\<close> for versions of digits and a point; \<open>None\<close> for those with a sign, an exponent or more than 15 digits.
\<close>

definition version_above_1 :: "byte list \<Rightarrow> bool option" where
  "version_above_1 v =
     (let d = takeWhile is_digit v; rest = dropWhile is_digit v;
          f = (case rest of [] \<Rightarrow> [] | c # cs \<Rightarrow> if c = 46 then takeWhile is_digit cs else []);
          n = foldl (\<lambda>n c. 10 * n + (unat c - 48)) 0 d
      in if length d + length f > 15 \<or> (\<exists>c \<in> set v. \<not> is_digit c \<and> c \<noteq> 46) then None
         else Some (n > 1 \<or> n = 1 \<and> (\<exists>c \<in> set f. c \<noteq> 48)))"

definition field_is :: "byte list \<Rightarrow> string \<Rightarrow> bool option" where
  "field_is f name = (if length f = length name then strncaseeq f (str name) (length name) else Some False)"

text \<open>The fields of the header that say how long the body is.  The second result: the content length is invalid, the rest is not looked at.\<close>

fun introspect :: "packetheader_field_node list \<Rightarrow> ILibWebClientDataObject \<Rightarrow> (ILibWebClientDataObject \<times> bool) option" where
  "introspect [] w = Some (w, False)"
| "introspect (phfn # rest) w = do {
     te \<leftarrow> field_is (Field phfn) ''transfer-encoding'';
     ch \<leftarrow> (if te then field_is (FieldData phfn) ''chunked'' else Some False);
     let w = (if ch then w\<lparr>WaitForClose := False, Chunked := True\<rparr> else w);
     co \<leftarrow> field_is (Field phfn) ''connection'';
     cl \<leftarrow> (if co then field_is (FieldData phfn) ''close'' else Some False);
     let w = (if cl then w\<lparr>ConnectionCloseSpecified := True\<rparr> else w);
     len \<leftarrow> field_is (Field phfn) ''content-length'';
     if len then do {
       (n, err) \<leftarrow> ILib_atoi2_int32 (errno_range w) (FieldData phfn @ [0]) (length (FieldData phfn));
       let w = w\<lparr>WaitForClose := False, BytesLeft := signed_take_bit 31 (int n), errno_range := err\<rparr>;
       if BytesLeft w < 0 then Some (w\<lparr>BytesLeft := 0\<rparr>, True) else introspect rest w }
     else introspect rest w }"

datatype ILibWebClient_DataResults = DataResults_OK | InvalidRequest | InvalidContentLength

text \<open>Where the header ends: the position of the first empty line.\<close>

function header_end :: "bool \<Rightarrow> byte list \<Rightarrow> nat \<Rightarrow> nat option" where
  "header_end parsed buffer i =
     (if i + 4 \<le> length buffer
      then if buffer ! i = (if parsed then 0 else 13) \<and> buffer ! (i + 1) = 10 \<and> buffer ! (i + 2) = 13 \<and> buffer ! (i + 3) = 10
           then Some i else header_end parsed buffer (i + 1)
      else None)"
  by pat_completeness auto
termination by (relation "measure (\<lambda>(parsed, buffer, i). length buffer - i)") auto

declare header_end.simps [simp del]

section \<open>Informational responses\<close>

text \<open>
  A response with a status from 100 to 199: \<open>Some p\<close> when \<open>ILibWebClient_OnData\<close> is done with it, \<open>p\<close> being what was consumed.
  The key of a WebSocket handshake is compared as a C string.
\<close>

definition websocket_accepted :: "byte list \<Rightarrow> packetheader \<Rightarrow> bool option" where
  "websocket_accepted expected h = do {
     (v, _) \<leftarrow> ILibGetHeaderLineEx h (str ''Sec-WebSocket-Accept'') 20;
     (case v of None \<Rightarrow> Some False
      | Some (HText d) \<Rightarrow> Some (takeWhile (\<lambda>c. c \<noteq> 0) d = takeWhile (\<lambda>c. c \<noteq> 0) expected)
      | Some _ \<Rightarrow> None) }"

definition informational ::
  "http_user \<Rightarrow> packetheader \<Rightarrow> ILibWebRequest \<Rightarrow> ILibWebClientDataObject \<Rightarrow> (ILibWebClientDataObject \<times> nat option) option" where
  "informational user h req w =
     (let established = (\<lambda>w. if has_OnResponse req then fst (respond user Connection_Established [] w) else w) in
      case requestToken req of
        None \<Rightarrow> Some (established w, Some (HeaderLength w))
      | Some (wskey, maxBuffer) \<Rightarrow>
          if StatusCode h = 101 \<and> wskey \<noteq> None
          then do {
            ok \<leftarrow> websocket_accepted (the wskey) h;
            Some (if ok
              then (established (w\<lparr>IsWebSocket := True, ws_state := Some (ILibWebClient_WebSocket_GetState maxBuffer)\<rparr>),
                    Some (HeaderLength w))
              else (emit Disconnected (w\<lparr>connected := False, RequestQueue := []\<rparr>), Some 0)) }
          else if \<not> streamedState req
          then Some (w\<lparr>FinHeader := False, header := None\<rparr>, Some (HeaderLength w))
          else Some (w, None))"

section \<open>Bodies\<close>

text \<open>After the header: \<open>i\<close> is the position behind it, \<open>body\<close> the data there.  The result is the number of bytes consumed.\<close>

definition first_body ::
  "http_user \<Rightarrow> nat \<Rightarrow> byte list \<Rightarrow> ILibWebClientDataObject \<Rightarrow> (ILibWebClientDataObject \<times> nat) option" where
  "first_body user i body w =
     (let call = (\<lambda>status d w. if can_respond w then respond user status d w else (w, 0)) in
      if BytesLeft w = 0
      then let (w, _) = call Complete [] w in Some (ILibWebClient_FinishedResponse w, i)
      else if \<not> Chunked w
      then if BytesLeft w \<noteq> -1 \<and> int (length body) \<ge> BytesLeft w
           then let n = nat (BytesLeft w); (w, zero) = call Complete (take n body) w
                in Some (ILibWebClient_FinishedResponse w, i + (if zero = 0 then n else zero))
           else let (w, zero) = call MoreDataToBeReceived body w in do {
                  h \<leftarrow> (case header w of None \<Rightarrow> Some None | Some h \<Rightarrow> map_option Some (ILibClonePacket h));
                  Some (w\<lparr>HeaderLength := 0, BytesLeft := BytesLeft w - int zero, header := h\<rparr>, i + zero) }
      else let (w, zero) = (if chunk w = None then call MoreDataToBeReceived [] w else (w, 0)) in
           if chunk w = None \<and> \<not> FinHeader w then Some (w, i)
           else do {
             (w, zero) \<leftarrow> ILibWebClient_ProcessChunk user body w;
             h \<leftarrow> header w;
             h \<leftarrow> ILibClonePacket h;
             Some (w\<lparr>header := Some h\<rparr>, i + zero) })"

definition more_body :: "http_user \<Rightarrow> byte list \<Rightarrow> ILibWebClientDataObject \<Rightarrow> (ILibWebClientDataObject \<times> nat) option" where
  "more_body user buffer w =
     (if Chunked w then ILibWebClient_ProcessChunk user buffer w
      else if \<not> WaitForClose w \<and> BytesLeft w < 0 then None
      else let Fini = (\<not> WaitForClose w \<and> int (length buffer) \<ge> BytesLeft w);
               d = (if Fini then take (nat (BytesLeft w)) buffer else buffer);
               (w, p) = (if can_respond w then respond user (if Fini then Complete else MoreDataToBeReceived) d w else (w, 0))
           in if WaitForClose w then Some (w, p)
              else let w = w\<lparr>BytesLeft := BytesLeft w - int p\<rparr> in
                   Some (if Fini then (ILibWebClient_FinishedResponse w, nat (int p + BytesLeft w)) else (w, p)))"

section \<open>The data of a connection\<close>

text \<open>The results are the state, the buffer, in which the header was cut into strings, what was consumed, and the code for the web server.\<close>

definition after_header ::
  "http_user \<Rightarrow> ILibWebRequest \<Rightarrow> packetheader \<Rightarrow> nat \<Rightarrow> byte list \<Rightarrow> ILibWebClientDataObject
     \<Rightarrow> (ILibWebClientDataObject \<times> nat \<times> ILibWebClient_DataResults) option" where
  "after_header user req h i body w =
     (if Directive h = [] \<and> StatusCode h \<noteq> -1 \<and> Server w = 1 then Some (w, 0, InvalidRequest)
      else do {
        (w, invalid) \<leftarrow> introspect (Fields h) w;
        if invalid then Some (w, 0, InvalidContentLength)
        else do {
          v11 \<leftarrow> version_above_1 (Version h);
          let w = (if v11 \<and> \<not> Chunked w \<and> \<not> ConnectionCloseSpecified w \<and> WaitForClose w
                   then w\<lparr>WaitForClose := False, BytesLeft := 0\<rparr> else w);
          (w, done) \<leftarrow> (if 100 \<le> StatusCode h \<and> StatusCode h \<le> 199 then informational user h req w
             else Some (if StatusCode h = 204 \<or> StatusCode h = 304 then w\<lparr>WaitForClose := False, BytesLeft := 0\<rparr> else w, None));
          (case done of
             Some p \<Rightarrow> Some (w, p, DataResults_OK)
           | None \<Rightarrow> do {
               let w = (if Server w \<noteq> 0 \<and> BytesLeft w = -1 \<and> \<not> Chunked w then w\<lparr>BytesLeft := 0\<rparr> else w);
               let w = (if IsHeadRequest req then w\<lparr>BytesLeft := 0, WaitForClose := False, Chunked := False\<rparr> else w);
               (w, p) \<leftarrow> first_body user i body w;
               Some (w, p, DataResults_OK) }) } })"

definition ILibWebClient_OnData ::
  "http_user \<Rightarrow> byte list \<Rightarrow> ILibWebClientDataObject
     \<Rightarrow> (ILibWebClientDataObject \<times> byte list \<times> nat \<times> ILibWebClient_DataResults) option" where
  "ILibWebClient_OnData user buffer w =
     (if IsWebSocket w \<and> Server w = 0
      then do {
        (st, es, p) \<leftarrow> ILibWebClient_ProcessWebSocketData buffer 0 (length buffer) (ws_state w);
        Some (fold (\<lambda>e. emit (WebSocketEvent e)) es (w\<lparr>ws_state := st\<rparr>), buffer, p, DataResults_OK) }
      else case RequestQueue w of
        [] \<Rightarrow> Some (w, buffer, length buffer, DataResults_OK)
      | req # _ \<Rightarrow>
          if \<not> FinHeader w
          then (case header_end (header w \<noteq> None) buffer 0 of
              None \<Rightarrow> Some (w, buffer, 0, DataResults_OK)
            | Some i \<Rightarrow> do {
                let w = w\<lparr>HeaderLength := i + 4, WaitForClose := True, BytesLeft := -1, FinHeader := True\<rparr>;
                (buffer, h, err) \<leftarrow> (case header w of
                    Some h \<Rightarrow> Some (buffer, Some h, errno_range w)
                  | None \<Rightarrow> ILibParsePacketHeader (errno_range w) buffer 0 (length buffer));
                let w = w\<lparr>header := h, errno_range := err\<rparr>;
                (case h of
                   None \<Rightarrow> Some (w, buffer, 0, DataResults_OK)
                 | Some h \<Rightarrow> do {
                     (w, p, r) \<leftarrow> after_header user req h (i + 4) (drop (i + 4) buffer) w;
                     Some (w, buffer, p, r) }) })
          else do {
            (w, p) \<leftarrow> more_body user buffer w;
            Some (w, buffer, p, DataResults_OK) })"

text \<open>
  The loop of \<open>ILibProcessAsyncSocket\<close>: the data is offered until no more is consumed, or the connection was closed; the rest stays in the buffer of the socket.
  (Consuming more than was offered, the loop would not end.)
\<close>

function http_drain :: "http_user \<Rightarrow> byte list \<Rightarrow> ILibWebClientDataObject \<Rightarrow> (ILibWebClientDataObject \<times> byte list) option" where
  "http_drain user buffer w =
     (if buffer = [] \<or> \<not> connected w then Some (w, buffer)
      else case ILibWebClient_OnData user buffer w of
        None \<Rightarrow> None
      | Some (w, buffer', iPointer, _) \<Rightarrow>
          if iPointer = 0 then Some (w, buffer')
          else if length buffer < iPointer \<or> length buffer' \<noteq> length buffer then None
          else http_drain user (drop iPointer buffer') w)"
  by pat_completeness auto
termination by (relation "measure (\<lambda>(user, buffer, w). length buffer)") auto

declare http_drain.simps [simp del]

text \<open>The state of a connection is the client's and the bytes it has not consumed; reads append to them.\<close>

definition http_receive ::
  "http_user \<Rightarrow> ILibWebClientDataObject \<times> byte list \<Rightarrow> byte list \<Rightarrow> (ILibWebClientDataObject \<times> byte list) option" where
  "http_receive user conn d = (case conn of (w, buffer) \<Rightarrow> http_drain user (buffer @ d) w)"

fun http_receives ::
  "http_user \<Rightarrow> byte list list \<Rightarrow> ILibWebClientDataObject \<times> byte list \<Rightarrow> (ILibWebClientDataObject \<times> byte list) option" where
  "http_receives user [] conn = Some conn"
| "http_receives user (d # ds) conn = do { conn \<leftarrow> http_receive user conn d; http_receives user ds conn }"

end
