(* ===== verification/HttpChunks.thy ===== *)
theory HttpChunks
  imports HttpClient
begin

text \<open>
  Chunked bodies: the decoder delivers the body, however the network cuts the bytes into reads, to a user that consumes everything it is offered or nothing
  of it; and what it makes of sizes that are not sizes.
\<close>

section \<open>Lines\<close>

lemma line_found:
  assumes "13 \<notin> set t" "b = t @ 13 # 10 # r" "length t + 2 < stop" "stop \<le> length b + 1"
  shows "find_line_end b 2 stop = Some (Some (length t + 2))"
proof -
  have "find_line_end b i stop = Some (Some (length t + 2))" if "2 \<le> i" "i \<le> length t + 2" for i
    using that
  proof (induction "length t + 2 - i" arbitrary: i rule: less_induct)
    case less
    show ?case
    proof (cases "i = length t + 2")
      case True
      then show ?thesis using assms by (subst find_line_end.simps) (simp add: nth_append)
    next
      case False
      then have lt: "i - 2 < length t" "i < stop" "i \<le> length b" using less.prems assms(2,3) by simp_all
      then have "b ! (i - 2) = t ! (i - 2)" unfolding assms(2) by (simp add: nth_append)
      moreover have "t ! (i - 2) \<in> set t" using lt(1) by (rule nth_mem)
      ultimately have "b ! (i - 2) \<noteq> 13" using assms(1) by auto
      moreover have "find_line_end b (i + 1) stop = Some (Some (length t + 2))" using less False by simp
      ultimately show ?thesis using lt less.prems by (subst find_line_end.simps) simp
    qed
  qed
  then show ?thesis by simp
qed

lemma no_line:
  assumes "13 \<notin> set t" "b @ fut = t @ 13 # 10 # r" "stop \<le> length t + 2" "stop \<le> length b + 1" "2 \<le> i"
  shows "find_line_end b i stop = Some None"
  using assms(5)
proof (induction "stop - i" arbitrary: i rule: less_induct)
  case less
  show ?case
  proof (cases "i < stop")
    case False
    then show ?thesis by (subst find_line_end.simps) simp
  next
    case True
    then have i: "i - 2 < length t" "i - 2 < length b" "i - 1 < length b" using assms(3,4) less.prems by auto
    have "b ! (i - 2) = (b @ fut) ! (i - 2)" using i by (simp add: nth_append)
    also have "\<dots> = t ! (i - 2)" using i unfolding assms(2) by (simp add: nth_append)
    finally have "b ! (i - 2) \<noteq> 13" using i assms(1) nth_mem by fastforce
    then show ?thesis using less.hyps [of "i + 1"] less.prems True i by (subst find_line_end.simps) simp
  qed
qed

section \<open>The text of a chunked body\<close>

text \<open>
  A chunk is its first line, of which the part before a semicolon is the size, and its data.  \<open>encoded cs t trs\<close>: the chunks, the line of the last chunk, and
  the lines behind it.
\<close>

definition line_ok :: "byte list \<Rightarrow> bool" where
  "line_ok t \<longleftrightarrow> t \<noteq> [] \<and> 13 \<notin> set t \<and> last t \<noteq> 0 \<and> length t \<le> INT32_MAX"

definition size_of_line :: "byte list \<Rightarrow> int" where
  "size_of_line t = strtol_hex (hd (split_on [59] [] t))"

definition chunk_ok :: "byte list \<times> byte list \<Rightarrow> bool" where
  "chunk_ok td = (case td of (t, d) \<Rightarrow> line_ok t \<and> d \<noteq> [] \<and> size_of_line t = int (length d))"

fun trailers :: "byte list list \<Rightarrow> byte list" where
  "trailers [] = [13, 10]"
| "trailers (l # ls) = l @ 13 # 10 # trailers ls"

fun encoded :: "(byte list \<times> byte list) list \<Rightarrow> byte list \<Rightarrow> byte list list \<Rightarrow> byte list" where
  "encoded [] t trs = t @ 13 # 10 # trailers trs"
| "encoded ((t', d) # cs) t trs = t' @ 13 # 10 # d @ 13 # 10 # encoded cs t trs"

definition body_ok :: "(byte list \<times> byte list) list \<Rightarrow> byte list \<Rightarrow> byte list list \<Rightarrow> bool" where
  "body_ok cs t trs \<longleftrightarrow> (\<forall>c \<in> set cs. chunk_ok c) \<and> line_ok t \<and> size_of_line t = 0 \<and> (\<forall>l \<in> set trs. l \<noteq> [] \<and> 13 \<notin> set l)"

lemma length_trailers: "2 \<le> length (trailers trs)"
  by (cases trs) auto

lemma length_encoded: "4 \<le> length (encoded cs t trs)"
  using length_trailers [of trs] by (induction cs t trs rule: encoded.induct) auto

lemma append_prefix: "b @ fut = xs @ ys \<Longrightarrow> length xs \<le> length b \<Longrightarrow> b = xs @ drop (length xs) b"
  by (auto simp: append_eq_append_conv2)

text \<open>The size is read from the line.\<close>

lemma size_line:
  assumes "line_ok t" "b = t @ 13 # 10 # r"
  shows "\<exists>pr. ILibParseString b 0 (length t) [59] = Some pr \<and> strtol_hex (case hd pr of (d, l) \<Rightarrow> slice b d l) = size_of_line t"
proof -
  have "ILibParseString b 0 (length t) [59] = Some (layout [59] 0 (split_on [59] [] t))"
    using parse_range [of 0 b t "13 # 10 # r" "[59]"] assms by (simp add: line_ok_def no_straddle_single)
  moreover have "slice b 0 (length (hd (split_on [59] [] t))) = hd (split_on [59] [] t)"
  proof -
    obtain x xs where x: "split_on [59] [] t = x # xs" by (cases "split_on [59] [] t") auto
    have "join [59] (x # xs) = t" using join_split_on [of "[59]" "[]" t] x by simp
    then have "take (length x) t = x" by (cases xs) auto
    moreover have "length x \<le> length t" using \<open>join [59] (x # xs) = t\<close> by (cases xs) auto
    ultimately show ?thesis using assms(2) x by (simp add: slice_def)
  qed
  moreover obtain x xs where "split_on [59] [] t = x # xs" by (cases "split_on [59] [] t") auto
  ultimately show ?thesis by (simp add: size_of_line_def)
qed

lemma chunk_start_line:
  assumes "line_ok t" "b @ fut = t @ 13 # 10 # r"
  shows "chunk_start b c = Some (if length t + 2 < length b
     then (c\<lparr>bytesLeft := size_of_line t, Flag := (if size_of_line t = 0 then FOOTERCHUNK else DATACHUNK)\<rparr>, length t + 2)
     else (c, 0))"
proof (cases "length t + 2 < length b")
  case True
  then have b: "b = t @ 13 # 10 # drop (length t + 2) b"
    using append_prefix [of b fut "t @ [13, 10]" r] assms(2) by simp
  have t: "t \<noteq> []" "13 \<notin> set t" using assms(1) by (auto simp: line_ok_def)
  obtain pr where pr: "ILibParseString b 0 (length t) [59] = Some pr"
    "strtol_hex (case hd pr of (d, l) \<Rightarrow> slice b d l) = size_of_line t"
    using size_line [OF assms(1) b] by blast
  have "3 \<le> length b" using True by linarith
  then show ?thesis
    using line_found [OF t(2) b, of "length b"] True pr by (simp add: chunk_start_def Let_def)
next
  case False
  then show ?thesis
    using no_line [OF _ assms(2), of "length b" 2] assms(1) by (simp add: chunk_start_def line_ok_def)
qed

section \<open>One step\<close>

text \<open>A user that consumes all it is offered or nothing, and does not answer before the end, but at the end if \<open>a\<close>.\<close>

definition whole_user :: "bool \<Rightarrow> http_user \<Rightarrow> bool" where
  "whole_user a user \<longleftrightarrow> (\<forall>es st d. user es st d \<in> {(0, a \<and> st = Complete), (length d, a \<and> st = Complete)})"

text \<open>What the user consumed, and what it was offered and did not consume.\<close>

definition consumed :: "http_event list \<Rightarrow> byte list" where
  "consumed es = concat (map (\<lambda>e. case e of Answer _ _ d n \<Rightarrow> take n d | _ \<Rightarrow> []) es)"

definition more_event :: "http_event \<Rightarrow> bool" where
  "more_event e = (case e of Answer st _ _ _ \<Rightarrow> st = MoreDataToBeReceived | _ \<Rightarrow> False)"

lemma consumed_append [simp]: "consumed (es @ es') = consumed es @ consumed es'"
  by (simp add: consumed_def)

lemma consumed_simps [simp]: "consumed [] = []" "consumed (Answer st h d n # es) = take n d @ consumed es"
  by (simp_all add: consumed_def)

definition reading :: "ILibWebClientDataObject \<Rightarrow> bool" where
  "reading w \<longleftrightarrow> FinHeader w \<and> Chunked w \<and> \<not> NeedFlush w \<and> \<not> IsWebSocket w \<and> connected w \<and> can_respond w"

definition buffer_ok :: "ILibWebClient_ChunkData \<Rightarrow> bool" where
  "buffer_ok c \<longleftrightarrow> read_BeginPointer c = 0 \<and> read_EndPointer c = int (length (chunk_buffer c))"

text \<open>Room for what was kept and all that comes, without an overflow when the buffer grows.\<close>

definition room :: "ILibWebClient_ChunkData \<Rightarrow> byte list \<Rightarrow> bool" where
  "room c T \<longleftrightarrow> length (chunk_buffer c) + length T + INITIAL_BUFFER_SIZE \<le> INT32_MAX"

lemma chunk_append_ok:
  assumes "length (chunk_buffer c) + length buffer + INITIAL_BUFFER_SIZE \<le> INT32_MAX" "0 \<le> i" "i \<le> int (length buffer)"
  shows "\<exists>m. chunk_append buffer i c = Some (Some (c\<lparr>mallocSize := m, chunk_buffer := chunk_buffer c @ take (nat i) buffer\<rparr>))"
proof -
  define m where "m = (if length (chunk_buffer c) + length buffer > mallocSize c
    then mallocSize c + max (length (chunk_buffer c) + length buffer - mallocSize c) INITIAL_BUFFER_SIZE else mallocSize c)"
  have "length (chunk_buffer c) + nat i \<le> m" "length (chunk_buffer c) + length buffer > mallocSize c \<longrightarrow> \<not> INT32_MAX < m"
    using assms by (auto simp: m_def)
  then show ?thesis using assms by (intro exI [where x = m]) (simp add: chunk_append_def Let_def m_def [symmetric])
qed

text \<open>The decoder at its place in the text \<open>T\<close>, which carries the body \<open>D\<close> and ends with \<open>R\<close>.\<close>

definition chunk_at :: "byte list \<Rightarrow> ILibWebClient_ChunkData \<Rightarrow> byte list \<Rightarrow> byte list \<Rightarrow> bool" where
  "chunk_at R c T D \<longleftrightarrow> buffer_ok c \<and> room c T \<and> (\<exists>cs t trs. body_ok cs t trs \<and> (case Flag c of
     STARTCHUNK \<Rightarrow> T = encoded cs t trs @ R \<and> D = concat (map snd cs)
   | DATACHUNK \<Rightarrow> \<exists>d. d \<noteq> [] \<and> bytesLeft c = int (length d) \<and> T = d @ 13 # 10 # encoded cs t trs @ R \<and> D = d @ concat (map snd cs)
   | ENDCHUNK \<Rightarrow> T = 13 # 10 # encoded cs t trs @ R \<and> D = concat (map snd cs)
   | FOOTERCHUNK \<Rightarrow> T = trailers trs @ R \<and> D = []))"

lemma chunk_atI:
  "buffer_ok c \<Longrightarrow> Flag c = STARTCHUNK \<Longrightarrow> body_ok cs t trs \<Longrightarrow> room c (encoded cs t trs @ R)
     \<Longrightarrow> chunk_at R c (encoded cs t trs @ R) (concat (map snd cs))"
  "buffer_ok c \<Longrightarrow> Flag c = DATACHUNK \<Longrightarrow> body_ok cs t trs \<Longrightarrow> d \<noteq> [] \<Longrightarrow> bytesLeft c = int (length d) \<Longrightarrow> room c (d @ 13 # 10 # encoded cs t trs @ R)
     \<Longrightarrow> chunk_at R c (d @ 13 # 10 # encoded cs t trs @ R) (d @ concat (map snd cs))"
  "buffer_ok c \<Longrightarrow> Flag c = ENDCHUNK \<Longrightarrow> body_ok cs t trs \<Longrightarrow> room c (13 # 10 # encoded cs t trs @ R)
     \<Longrightarrow> chunk_at R c (13 # 10 # encoded cs t trs @ R) (concat (map snd cs))"
  "buffer_ok c \<Longrightarrow> Flag c = FOOTERCHUNK \<Longrightarrow> body_ok cs t trs \<Longrightarrow> room c (trailers trs @ R) \<Longrightarrow> chunk_at R c (trailers trs @ R) []"
  unfolding chunk_at_def by (simp; blast)+

definition cur_chunk :: "ILibWebClientDataObject \<Rightarrow> ILibWebClient_ChunkData" where
  "cur_chunk w = (case chunk w of None \<Rightarrow> new_chunk | Some c \<Rightarrow> c)"

lemma chunk_swap:
  "w\<lparr>events := es, chunk := k\<rparr> = w\<lparr>chunk := k, events := es\<rparr>"
  "w\<lparr>header := h, chunk := k\<rparr> = w\<lparr>chunk := k, header := h\<rparr>"
  by (cases w, simp)+

lemma respond_whole:
  assumes "whole_user a user"
  obtains n where "n = 0 \<or> n = length d"
    "respond user st d w = ((if a \<and> st = Complete then ILibWebClient_FinishedResponse_Server else id) (emit (Answer st (header w) d n) w), n)"
proof -
  have "user (events w) st d \<in> {(0, a \<and> st = Complete), (length d, a \<and> st = Complete)}" using assms by (simp add: whole_user_def)
  then show ?thesis using that by (auto simp: respond_def Let_def)
qed

text \<open>The data of a chunk: \<open>d\<close> is what is left of it, \<open>x\<close> what arrived of that.\<close>

lemma chunk_data_step:
  assumes "whole_user a user" "can_respond w" "\<not> NeedFlush w" "buffer_ok c" "d \<noteq> []" "bytesLeft c = int (length d)"
    and "buffer \<noteq> []" "x = take (length d) buffer" "room c buffer"
  shows "\<exists>c' n. chunk_data user buffer c w = Some (w\<lparr>chunk := Some c', events := events w
        @ [Answer MoreDataToBeReceived (header w) (chunk_buffer c @ x) n]\<rparr>, length x)
    \<and> buffer_ok c' \<and> take n (chunk_buffer c @ x) @ chunk_buffer c' = chunk_buffer c @ x
    \<and> bytesLeft c' = int (length d) - int (length x) \<and> Flag c' = (if length x = length d then ENDCHUNK else Flag c)"
proof -
  define i where "i = int (length x)"
  have i: "(if int (length buffer) \<ge> bytesLeft c then bytesLeft c else int (length buffer)) = i" "nat i = length x" "take (nat i) buffer = x"
    "0 < i" "i \<le> int (length d)" "i \<le> int (length buffer)"
    using assms(5-8) by (auto simp: i_def min_def)
  have cr: "can_respond (w\<lparr>chunk := k\<rparr>) = can_respond w" for k by (simp add: can_respond_def)
  let ?left = "\<lambda>c. c\<lparr>bytesLeft := bytesLeft c - i, Flag := (if bytesLeft c - i = 0 then ENDCHUNK else Flag c)\<rparr>"
  show ?thesis
  proof (cases "chunk_buffer c = []")
    case True
    then have p: "int (read_BeginPointer c) = read_EndPointer c" using assms(4) by (simp add: buffer_ok_def)
    obtain m where m: "m = 0 \<or> m = length x"
      "respond user MoreDataToBeReceived x (w\<lparr>chunk := Some c\<rparr>) = (emit (Answer MoreDataToBeReceived (header w) x m) (w\<lparr>chunk := Some c\<rparr>), m)"
      using respond_whole [OF assms(1), of x MoreDataToBeReceived "w\<lparr>chunk := Some c\<rparr>"] by auto
    obtain s where s: "chunk_append buffer i (c\<lparr>read_BeginPointer := 0, read_EndPointer := i\<rparr>)
        = Some (Some (c\<lparr>read_BeginPointer := 0, read_EndPointer := i, mallocSize := s, chunk_buffer := x\<rparr>))"
      using chunk_append_ok [of "c\<lparr>read_BeginPointer := 0, read_EndPointer := i\<rparr>" buffer i] assms(9) i(3,4,6) True by (auto simp: room_def)
    define c2 where "c2 = (if m = 0 then c\<lparr>read_BeginPointer := 0, read_EndPointer := i, mallocSize := s, chunk_buffer := x\<rparr> else reset_chunk_buffer c)"
    have "chunk_data user buffer c w = Some (w\<lparr>chunk := Some (?left c2), events := events w
        @ [Answer MoreDataToBeReceived (header w) (chunk_buffer c @ x) m]\<rparr>, length x)"
      using m s i(1-4) p assms(2,3) True
      by (auto simp: chunk_data_def offer_arrived_def Let_def cr emit_def c2_def i_def reset_chunk_buffer_def)
    moreover have "buffer_ok (?left c2)" "take m (chunk_buffer c @ x) @ chunk_buffer (?left c2) = chunk_buffer c @ x"
      "bytesLeft (?left c2) = int (length d) - int (length x)" "Flag (?left c2) = (if length x = length d then ENDCHUNK else Flag c)"
      using m(1) i(2) assms(6) True by (auto simp: c2_def reset_chunk_buffer_def buffer_ok_def i_def)
    ultimately show ?thesis by blast
  next
    case False
    then have p: "read_BeginPointer c = 0" "read_EndPointer c \<noteq> 0" using assms(4) by (auto simp: buffer_ok_def)
    obtain s where s: "chunk_append buffer i c = Some (Some (c\<lparr>mallocSize := s, chunk_buffer := chunk_buffer c @ x\<rparr>))"
      using chunk_append_ok [of c buffer i] assms(9) i(3,4,6) by (auto simp: room_def)
    let ?c = "c\<lparr>mallocSize := s, chunk_buffer := chunk_buffer c @ x\<rparr>"
    obtain m where m: "m = 0 \<or> m = length (chunk_buffer c @ x)"
      "respond user MoreDataToBeReceived (chunk_buffer c @ x) (w\<lparr>chunk := Some ?c\<rparr>)
         = (emit (Answer MoreDataToBeReceived (header w) (chunk_buffer c @ x) m) (w\<lparr>chunk := Some ?c\<rparr>), m)"
      using respond_whole [OF assms(1), of "chunk_buffer c @ x" MoreDataToBeReceived "w\<lparr>chunk := Some ?c\<rparr>"] by auto
    define c2 where "c2 = (if m = length (chunk_buffer c @ x) then reset_chunk_buffer ?c
      else ?c\<lparr>read_BeginPointer := m, read_EndPointer := int (length (chunk_buffer ?c))\<rparr>)"
    have ok: "offer_kept user (nat i) (w\<lparr>chunk := Some ?c\<rparr>) = Some (w\<lparr>chunk := Some c2, events := events w
        @ [Answer MoreDataToBeReceived (header w) (chunk_buffer c @ x) m]\<rparr>, Some (length x))"
      using m p i(2) by (auto simp: offer_kept_def Let_def emit_def c2_def)
    have "chunk_data user buffer c w = Some (w\<lparr>chunk := Some (?left c2), events := events w
        @ [Answer MoreDataToBeReceived (header w) (chunk_buffer c @ x) m]\<rparr>, length x)"
      using ok s i(1) p assms(2,3) by (simp add: chunk_data_def Let_def cr) (simp add: i_def)
    moreover have "buffer_ok (?left c2)" "take m (chunk_buffer c @ x) @ chunk_buffer (?left c2) = chunk_buffer c @ x"
      "bytesLeft (?left c2) = int (length d) - int (length x)" "Flag (?left c2) = (if length x = length d then ENDCHUNK else Flag c)"
      using m(1) p assms(6) by (auto simp: c2_def reset_chunk_buffer_def buffer_ok_def i_def)
    ultimately show ?thesis by blast
  qed
qed

text \<open>The other places: the decoder moves on, or it needs more bytes and leaves them, or the body is complete.\<close>

definition moved :: "http_user \<Rightarrow> byte list \<Rightarrow> byte list \<Rightarrow> byte list \<Rightarrow> byte list \<Rightarrow> ILibWebClientDataObject \<Rightarrow> bool" where
  "moved user R T D b w \<longleftrightarrow> (\<exists>c' p es D'. ILibWebClient_ProcessChunk user b w = Some (w\<lparr>chunk := Some c', events := events w @ es\<rparr>, p)
     \<and> p \<le> length b \<and> (\<forall>e \<in> set es. more_event e) \<and> chunk_at R c' (drop p T) D'
     \<and> consumed es @ chunk_buffer c' @ D' = chunk_buffer (cur_chunk w) @ D \<and> (p = 0 \<longrightarrow> length b + length R < length T))"

text \<open>The state behind a body, of which \<open>d\<close> was offered at the end.\<close>

definition body_done :: "bool \<Rightarrow> ILibWebClientDataObject \<Rightarrow> http_event list \<Rightarrow> byte list \<Rightarrow> nat \<Rightarrow> ILibWebClientDataObject" where
  "body_done a w es d n = ILibWebClient_FinishedResponse ((if a then ILibWebClient_ResetWCDO else id)
     (w\<lparr>chunk := None, events := events w @ es @ [Answer Complete (header w) d n]\<rparr>))"

definition finished :: "bool \<Rightarrow> http_user \<Rightarrow> byte list \<Rightarrow> byte list \<Rightarrow> byte list \<Rightarrow> byte list \<Rightarrow> ILibWebClientDataObject \<Rightarrow> bool" where
  "finished a user R T D b w \<longleftrightarrow> (\<exists>p n. ILibWebClient_ProcessChunk user b w = Some (body_done a w [] (chunk_buffer (cur_chunk w)) n, p)
     \<and> p \<le> length b \<and> 0 < p \<and> drop p T = R \<and> D = [])"

lemma movedI:
  assumes "ILibWebClient_ProcessChunk user b w = Some (w\<lparr>chunk := Some c', events := events w @ es\<rparr>, p)" "p \<le> length b"
    and "\<forall>e \<in> set es. more_event e" "chunk_at R c' (drop p T) D'"
    and "consumed es @ chunk_buffer c' @ D' = chunk_buffer (cur_chunk w) @ D" "p = 0 \<Longrightarrow> length b + length R < length T"
  shows "moved user R T D b w"
  using assms unfolding moved_def by blast

lemma step_start:
  assumes "Flag (cur_chunk w) = STARTCHUNK" "buffer_ok (cur_chunk w)" "body_ok cs t trs" "T = encoded cs t trs @ R" "T = b @ fut"
    and "D = concat (map snd cs)"
    and "room (cur_chunk w) T"
  shows "moved user R T D b w"
proof -
  let ?c = "cur_chunk w"
  define t1 r where "t1 = (case cs of [] \<Rightarrow> t | td # _ \<Rightarrow> fst td)"
    and "r = (case cs of [] \<Rightarrow> trailers trs @ R | td # cs \<Rightarrow> snd td @ 13 # 10 # encoded cs t trs @ R)"
  have T: "b @ fut = t1 @ 13 # 10 # r" using assms(4,5) by (auto simp: t1_def r_def split: list.split prod.split)
  have ok: "line_ok t1" using assms(3) by (auto simp: t1_def body_ok_def chunk_ok_def split: list.split)
  have r: "length R + 2 \<le> length r"
    using length_trailers [of trs] length_encoded [of "tl cs" t trs] by (auto simp: r_def split: list.split)
  have P: "ILibWebClient_ProcessChunk user b w = map_option (\<lambda>(c, p). (w\<lparr>chunk := Some c\<rparr>, p)) (chunk_start b ?c)"
    using assms(1) by (cases "chunk_start b ?c") (auto simp: ILibWebClient_ProcessChunk_def cur_chunk_def Let_def)
  show ?thesis
  proof (cases "length t1 + 2 < length b")
    case True
    let ?c' = "?c\<lparr>bytesLeft := size_of_line t1, Flag := (if size_of_line t1 = 0 then FOOTERCHUNK else DATACHUNK)\<rparr>"
    have "drop (length t1 + 2) T = r" using T assms(5) by simp
    moreover have "chunk_at R ?c' r D"
    proof (cases cs)
      case Nil
      then show ?thesis using chunk_atI(4) [of ?c' cs t trs R] assms(2,3,4,6,7) by (simp add: buffer_ok_def t1_def r_def body_ok_def room_def)
    next
      case (Cons td cs')
      obtain t' d where td: "td = (t', d)" by (cases td)
      have "body_ok cs' t trs" "d \<noteq> []" "size_of_line t' = int (length d)"
        using assms(3) Cons td by (auto simp: body_ok_def chunk_ok_def)
      then show ?thesis
        using chunk_atI(2) [of ?c' cs' t trs d R] assms(2,4,6,7) Cons td by (simp add: buffer_ok_def t1_def r_def room_def)
    qed
    ultimately show ?thesis
      using chunk_start_line [OF ok T, of ?c] P True assms(6)
      by (intro movedI [where c' = ?c' and es = "[]" and p = "length t1 + 2" and D' = D]) simp_all
  next
    case False
    then have "length b + length R < length T" using r T assms(5) arg_cong [OF T, of length] by simp
    moreover have "chunk_at R ?c T D" using assms(1-4,6,7) by (auto simp: chunk_at_def)
    ultimately show ?thesis
      using chunk_start_line [OF ok T, of ?c] P False
      by (intro movedI [where c' = ?c and es = "[]" and p = 0 and D' = D]) simp_all
  qed
qed

lemma step_end:
  assumes "Flag (cur_chunk w) = ENDCHUNK" "buffer_ok (cur_chunk w)" "body_ok cs t trs" "T = 13 # 10 # encoded cs t trs @ R" "T = b @ fut"
    and "D = concat (map snd cs)" "room (cur_chunk w) T"
  shows "moved user R T D b w"
proof -
  let ?c = "cur_chunk w"
  have P: "ILibWebClient_ProcessChunk user b w = Some (if length b \<ge> 2 then (w\<lparr>chunk := Some (?c\<lparr>Flag := STARTCHUNK\<rparr>)\<rparr>, 2) else (w\<lparr>chunk := Some ?c\<rparr>, 0))"
    using assms(1) by (auto simp: ILibWebClient_ProcessChunk_def cur_chunk_def Let_def)
  have "chunk_at R ?c T D" "chunk_at R (?c\<lparr>Flag := STARTCHUNK\<rparr>) (drop 2 T) D"
    using assms(1-4,6,7) by (auto simp: chunk_at_def buffer_ok_def room_def)
  moreover have "length b < 2 \<Longrightarrow> length b + length R < length T" using assms(4) by simp
  ultimately show ?thesis
    using P movedI [where c' = "?c\<lparr>Flag := STARTCHUNK\<rparr>" and es = "[]" and p = 2 and D' = D]
      movedI [where c' = ?c and es = "[]" and p = 0 and D' = D]
    by (cases "length b \<ge> 2") simp_all
qed

lemma step_data:
  assumes "whole_user a user" "reading w" "Flag (cur_chunk w) = DATACHUNK" "buffer_ok (cur_chunk w)" "body_ok cs t trs"
    and "d \<noteq> []" "bytesLeft (cur_chunk w) = int (length d)" "T = d @ 13 # 10 # encoded cs t trs @ R" "T = b @ fut" "b \<noteq> []"
    and "D = d @ concat (map snd cs)" "room (cur_chunk w) T"
  shows "moved user R T D b w"
proof -
  let ?c = "cur_chunk w"
  define x where "x = take (length d) b"
  have "take (length b) T = b" using assms(9) by simp
  then have "x = take (min (length d) (length b)) T" unfolding x_def by (metis take_take)
  then have "x = take (length b) d" using assms(8) by (simp add: min_def)
  then have x: "d = x @ drop (length x) d" "length x \<le> length b" "0 < length x" "length x \<le> length d"
    using assms(6,10) by (auto simp: x_def min_def)
  have rb: "room ?c b" using assms(9,12) by (simp add: room_def)
  obtain c' n where c': "chunk_data user b ?c (w\<lparr>chunk := Some ?c\<rparr>) = Some (w\<lparr>chunk := Some c', events := events w
        @ [Answer MoreDataToBeReceived (header w) (chunk_buffer ?c @ x) n]\<rparr>, length x)"
    "buffer_ok c'" "take n (chunk_buffer ?c @ x) @ chunk_buffer c' = chunk_buffer ?c @ x"
    "bytesLeft c' = int (length d) - int (length x)" "Flag c' = (if length x = length d then ENDCHUNK else Flag ?c)"
    using chunk_data_step [OF assms(1) _ _ assms(4,6,7,10) x_def rb, of "w\<lparr>chunk := Some ?c\<rparr>"] assms(2)
    by (auto simp: reading_def can_respond_def)
  have P: "ILibWebClient_ProcessChunk user b w = chunk_data user b ?c (w\<lparr>chunk := Some ?c\<rparr>)"
    using assms(3) by (auto simp: ILibWebClient_ProcessChunk_def cur_chunk_def Let_def)
  have "length (chunk_buffer c') \<le> length (chunk_buffer ?c) + length x" using arg_cong [OF c'(3), of length] by simp
  then have rc: "room c' (drop (length x) T)" using assms(9,12) x(2) by (simp add: room_def)
  have "chunk_at R c' (drop (length x) T) (drop (length x) d @ concat (map snd cs))"
  proof (cases "length x = length d")
    case True
    then show ?thesis using chunk_atI(3) [of c' cs t trs R] c' assms(5,8) rc by simp
  next
    case False
    then have "drop (length x) d \<noteq> []" using x by simp
    then show ?thesis using chunk_atI(2) [of c' cs t trs "drop (length x) d" R] c' False assms(3,5,8) x(4) rc by simp
  qed
  moreover have "take n (chunk_buffer ?c @ x) @ chunk_buffer c' @ drop (length x) d @ concat (map snd cs) = chunk_buffer ?c @ D"
  proof -
    have "take n (chunk_buffer ?c @ x) @ chunk_buffer c' @ drop (length x) d @ concat (map snd cs)
      = (take n (chunk_buffer ?c @ x) @ chunk_buffer c') @ drop (length x) d @ concat (map snd cs)" by simp
    also have "\<dots> = chunk_buffer ?c @ (x @ drop (length x) d) @ concat (map snd cs)" unfolding c'(3) by simp
    finally show ?thesis using assms(11) x(1) by simp
  qed
  ultimately show ?thesis
    using P c'(1) x(2,3)
    by (intro movedI [where c' = c' and p = "length x" and D' = "drop (length x) d @ concat (map snd cs)"
          and es = "[Answer MoreDataToBeReceived (header w) (chunk_buffer ?c @ x) n]"]) (simp_all add: more_event_def del: take_append)
qed

lemma step_footer:
  assumes "whole_user a user" "reading w" "Flag (cur_chunk w) = FOOTERCHUNK" "buffer_ok (cur_chunk w)" "body_ok cs t trs"
    and "T = trailers trs @ R" "T = b @ fut" "D = []" "room (cur_chunk w) T"
  shows "moved user R T D b w \<or> finished a user R T D b w"
proof -
  let ?c = "cur_chunk w"
  have P: "ILibWebClient_ProcessChunk user b w = (if length b \<ge> 2 then do {
      r \<leftarrow> find_line_end b 2 (length b + 1);
      (case r of None \<Rightarrow> Some (w\<lparr>chunk := Some ?c\<rparr>, 0) | Some i \<Rightarrow> do {
         w \<leftarrow> (if i = 2 then chunk_finish user ?c (w\<lparr>chunk := Some ?c\<rparr>) else Some (w\<lparr>chunk := Some ?c\<rparr>)); Some (w, i) }) }
      else Some (w\<lparr>chunk := Some ?c\<rparr>, 0))"
    using assms(3) unfolding ILibWebClient_ProcessChunk_def cur_chunk_def [symmetric] Let_def by simp
  define l r where "l = (case trs of [] \<Rightarrow> [] | x # _ \<Rightarrow> x)" and "r = (case trs of [] \<Rightarrow> R | _ # ls \<Rightarrow> trailers ls @ R)"
  have T: "b @ fut = l @ 13 # 10 # r" using assms(6,7) by (cases trs) (simp_all add: l_def r_def)
  have l: "13 \<notin> set l" "l = [] \<longleftrightarrow> trs = []" using assms(5) by (auto simp: l_def body_ok_def split: list.split)
  have at: "chunk_at R ?c T D" using chunk_atI(4) [OF assms(4,3,5)] assms(6,8,9) by simp
  show ?thesis
  proof (cases "length l + 2 \<le> length b")
    case False
    have "length R \<le> length r" by (simp add: r_def split: list.split)
    then have "length b + length R < length T" using False T assms(7) arg_cong [OF T, of length] by simp
    moreover have "ILibWebClient_ProcessChunk user b w = Some (w\<lparr>chunk := Some ?c\<rparr>, 0)"
      using no_line [OF l(1) T, of "length b + 1" 2] False unfolding P by simp
    ultimately show ?thesis using at by (intro disjI1 movedI [where c' = ?c and es = "[]" and p = 0 and D' = D]) simp_all
  next
    case True
    then have b: "b = l @ 13 # 10 # drop (length l + 2) b" using append_prefix [of b fut "l @ [13, 10]" r] T by simp
    have f: "find_line_end b 2 (length b + 1) = Some (Some (length l + 2))" using line_found [OF l(1) b] True by simp
    have r: "drop (length l + 2) T = r" using T assms(7) by simp
    show ?thesis
    proof (cases trs)
      case Nil
      then have ln: "l = []" "r = R" by (simp_all add: l_def r_def)
      let ?w = "w\<lparr>chunk := Some (?c\<lparr>complete := True\<rparr>)\<rparr>"
      obtain n where n: "respond user Complete (chunk_buffer ?c) ?w
        = ((if a then ILibWebClient_FinishedResponse_Server else id) (emit (Answer Complete (header w) (chunk_buffer ?c) n) ?w), n)"
        using respond_whole [OF assms(1), of "chunk_buffer ?c" Complete ?w] by auto
      have "chunk_finish user ?c (w\<lparr>chunk := Some ?c\<rparr>) = Some (body_done a w [] (chunk_buffer ?c) n)"
        using assms(2,4) n
        by (simp add: chunk_finish_def Let_def reading_def can_respond_def buffer_ok_def emit_def chunk_swap body_done_def
            ILibWebClient_FinishedResponse_Server_def ILibWebClient_ResetWCDO_def cong: list.case_cong)
      then have "ILibWebClient_ProcessChunk user b w = Some (body_done a w [] (chunk_buffer ?c) n, 2)"
        using f ln True unfolding P by simp
      then show ?thesis using r ln True assms(8) by (intro disjI2) (auto simp: finished_def numeral_2_eq_2)
    next
      case (Cons x ls)
      then have ln: "l = x" "r = trailers ls @ R" "l \<noteq> []" using l(2) by (simp_all add: l_def r_def)
      have "ILibWebClient_ProcessChunk user b w = Some (w\<lparr>chunk := Some ?c\<rparr>, length l + 2)"
        using f ln(3) True unfolding P by simp
      moreover have "chunk_at R ?c r D"
        using chunk_atI(4) [OF assms(4,3), of cs t ls R] assms(5,6,8,9) ln Cons by (simp add: body_ok_def room_def)
      ultimately show ?thesis using r True assms(8)
        by (intro disjI1 movedI [where c' = ?c and es = "[]" and p = "length l + 2" and D' = D]) simp_all
    qed
  qed
qed

lemma step_any:
  assumes "whole_user a user" "reading w" "chunk_at R (cur_chunk w) T D" "T = b @ fut" "b \<noteq> []"
  shows "moved user R T D b w \<or> finished a user R T D b w"
proof -
  obtain cs t trs where o: "buffer_ok (cur_chunk w)" "body_ok cs t trs" and rm: "room (cur_chunk w) T" and
    f: "case Flag (cur_chunk w) of
     STARTCHUNK \<Rightarrow> T = encoded cs t trs @ R \<and> D = concat (map snd cs)
   | DATACHUNK \<Rightarrow> \<exists>d. d \<noteq> [] \<and> bytesLeft (cur_chunk w) = int (length d) \<and> T = d @ 13 # 10 # encoded cs t trs @ R \<and> D = d @ concat (map snd cs)
   | ENDCHUNK \<Rightarrow> T = 13 # 10 # encoded cs t trs @ R \<and> D = concat (map snd cs)
   | FOOTERCHUNK \<Rightarrow> T = trailers trs @ R \<and> D = []"
    using assms(3) unfolding chunk_at_def by blast
  show ?thesis
  proof (cases "Flag (cur_chunk w)")
    case STARTCHUNK
    then show ?thesis using step_start [OF _ o, of T R b fut D user] f rm assms(4) by simp
  next
    case ENDCHUNK
    then show ?thesis using step_end [OF _ o, of T R b fut D user] f rm assms(4) by simp
  next
    case DATACHUNK
    then show ?thesis using step_data [OF assms(1,2) _ o, of _ T R b fut D] f rm assms(4,5) by auto
  next
    case FOOTERCHUNK
    then show ?thesis using step_footer [OF assms(1,2) _ o, of T R b fut D] f rm assms(4) by simp
  qed
qed

lemma chunk_at_longer: "chunk_at R c T D \<Longrightarrow> length R < length T"
proof -
  assume "chunk_at R c T D"
  then obtain cs t trs where "case Flag c of
     STARTCHUNK \<Rightarrow> T = encoded cs t trs @ R \<and> D = concat (map snd cs)
   | DATACHUNK \<Rightarrow> \<exists>d. d \<noteq> [] \<and> bytesLeft c = int (length d) \<and> T = d @ 13 # 10 # encoded cs t trs @ R \<and> D = d @ concat (map snd cs)
   | ENDCHUNK \<Rightarrow> T = 13 # 10 # encoded cs t trs @ R \<and> D = concat (map snd cs)
   | FOOTERCHUNK \<Rightarrow> T = trailers trs @ R \<and> D = []"
    unfolding chunk_at_def by blast
  then show ?thesis
    using length_trailers [of trs] length_encoded [of cs t trs] by (cases "Flag c") auto
qed

section \<open>Reading from the socket\<close>

lemma bind_Some: "http_receives user [] = Some"
  by (rule ext) simp

lemma OnData_reading: "reading w \<Longrightarrow> ILibWebClient_OnData user b w
    = map_option (\<lambda>(w, p). (w, b, p, DataResults_OK)) (ILibWebClient_ProcessChunk user b w)"
  by (cases "ILibWebClient_ProcessChunk user b w")
    (auto simp: ILibWebClient_OnData_def reading_def can_respond_def more_body_def split: list.split)

definition grown :: "ILibWebClientDataObject \<Rightarrow> ILibWebClientDataObject \<Rightarrow> http_event list \<Rightarrow> bool" where
  "grown w w' es \<longleftrightarrow> (\<exists>k. w' = w\<lparr>chunk := k, events := events w @ es\<rparr>) \<and> (\<forall>e \<in> set es. more_event e)"

lemma grown_reading: "grown w w' es \<Longrightarrow> reading w' = reading w"
  by (auto simp: grown_def reading_def can_respond_def)

lemma body_done_grown: "grown w w' es \<Longrightarrow> body_done a w' es' d n = body_done a w (es @ es') d n"
  by (auto simp: grown_def body_done_def)

text \<open>\<open>b\<close> arrived, \<open>fut\<close> did not yet.\<close>

lemma drain_part:
  assumes "whole_user a user" "reading w" "chunk_at R (cur_chunk w) (b @ fut) D" "length R < length fut"
  shows "\<exists>w' es b' D'. http_drain user b w = Some (w', b') \<and> grown w w' es \<and> chunk_at R (cur_chunk w') (b' @ fut) D'
    \<and> consumed es @ chunk_buffer (cur_chunk w') @ D' = chunk_buffer (cur_chunk w) @ D"
  using assms(2,3)
proof (induction "length b" arbitrary: b w D rule: less_induct)
  case less
  have none: "grown w w []" unfolding grown_def by (auto intro: exI [where x = "chunk w"])
  show ?case
  proof (cases "b = []")
    case True
    then have "http_drain user b w = Some (w, b)" by (subst http_drain.simps) simp
    then show ?thesis using none less.prems(2) by fastforce
  next
    case False
    have "\<not> finished a user R (b @ fut) D b w"
      using assms(4) by (auto simp: finished_def dest!: arg_cong [where f = length])
    then have "moved user R (b @ fut) D b w" using step_any [OF assms(1) less.prems(1,2) refl False] by blast
    then obtain c' p es D' where m: "ILibWebClient_ProcessChunk user b w = Some (w\<lparr>chunk := Some c', events := events w @ es\<rparr>, p)"
      "p \<le> length b" "\<forall>e \<in> set es. more_event e" "chunk_at R c' (drop p (b @ fut)) D'"
      "consumed es @ chunk_buffer c' @ D' = chunk_buffer (cur_chunk w) @ D"
      unfolding moved_def by blast
    let ?w = "w\<lparr>chunk := Some c', events := events w @ es\<rparr>"
    have g: "grown w ?w es" using m(3) by (auto simp: grown_def)
    have d: "http_drain user b w = (if p = 0 then Some (?w, b) else http_drain user (drop p b) ?w)"
      using False less.prems(1) m(1,2) by (subst http_drain.simps) (simp add: OnData_reading, simp add: reading_def)
    show ?thesis
    proof (cases "p = 0")
      case True
      then show ?thesis using d g m(4,5) by (intro exI [where x = ?w] exI [where x = es]) (auto simp: cur_chunk_def)
    next
      case False
      have at: "chunk_at R (cur_chunk ?w) (drop p b @ fut) D'" using m(2,4) by (simp add: cur_chunk_def)
      have r: "reading ?w" using grown_reading [OF g] less.prems(1) by simp
      obtain w' es' b' D'' where IH: "http_drain user (drop p b) ?w = Some (w', b')" "grown ?w w' es'"
        "chunk_at R (cur_chunk w') (b' @ fut) D''" "consumed es' @ chunk_buffer (cur_chunk w') @ D'' = chunk_buffer (cur_chunk ?w) @ D'"
        using less.hyps [OF _ r at] False \<open>b \<noteq> []\<close> by auto
      have "grown w w' (es @ es')" using IH(2) m(3) by (auto simp: grown_def)
      moreover have "consumed (es @ es') @ chunk_buffer (cur_chunk w') @ D'' = chunk_buffer (cur_chunk w) @ D"
        using IH(4) m(5) by (simp add: cur_chunk_def)
      ultimately show ?thesis using d False IH(1,3) by (intro exI [where x = w'] exI [where x = "es @ es'"] exI [where x = b'] exI [where x = D'']) simp
    qed
  qed
qed

lemma drain_all:
  assumes "whole_user a user" "reading w" "chunk_at R (cur_chunk w) (b @ fut) D" "R = r @ fut"
  shows "\<exists>es d n. http_drain user b w = http_drain user r (body_done a w es d n) \<and> (\<forall>e \<in> set es. more_event e)
    \<and> consumed es @ d = chunk_buffer (cur_chunk w) @ D"
  using assms(2,3)
proof (induction "length b" arbitrary: b w D rule: less_induct)
  case less
  have b: "b \<noteq> []" using chunk_at_longer [OF less.prems(2)] assms(4) by auto
  have p_pos: "p \<noteq> 0" if "p = 0 \<longrightarrow> length b + length R < length (b @ fut)" for p :: nat using that assms(4) by auto
  show ?case
  proof (cases "finished a user R (b @ fut) D b w")
    case True
    then obtain p n where f: "ILibWebClient_ProcessChunk user b w = Some (body_done a w [] (chunk_buffer (cur_chunk w)) n, p)"
      "p \<le> length b" "0 < p" "drop p (b @ fut) = R" "D = []"
      by (auto simp: finished_def body_done_def)
    then have "drop p b = r" using assms(4) by simp
    then have "http_drain user b w = http_drain user r (body_done a w [] (chunk_buffer (cur_chunk w)) n)"
      using b less.prems(1) f(1-3) by (subst http_drain.simps) (simp add: OnData_reading, simp add: reading_def)
    then show ?thesis using f(5)
      by (intro exI [where x = "[]"] exI [where x = "chunk_buffer (cur_chunk w)"] exI [where x = n]) simp
  next
    case False
    then have "moved user R (b @ fut) D b w" using step_any [OF assms(1) less.prems(1,2) refl b] by blast
    then obtain c' p es D' where m: "ILibWebClient_ProcessChunk user b w = Some (w\<lparr>chunk := Some c', events := events w @ es\<rparr>, p)"
      "p \<le> length b" "\<forall>e \<in> set es. more_event e" "chunk_at R c' (drop p (b @ fut)) D'"
      "consumed es @ chunk_buffer c' @ D' = chunk_buffer (cur_chunk w) @ D" "p \<noteq> 0"
      unfolding moved_def using p_pos by blast
    let ?w = "w\<lparr>chunk := Some c', events := events w @ es\<rparr>"
    have g: "grown w ?w es" using m(3) by (auto simp: grown_def)
    have d: "http_drain user b w = http_drain user (drop p b) ?w"
      using b less.prems(1) m(1,2,6) by (subst http_drain.simps) (simp add: OnData_reading, simp add: reading_def)
    have at: "chunk_at R (cur_chunk ?w) (drop p b @ fut) D'" using m(2,4) by (simp add: cur_chunk_def)
    have r: "reading ?w" using grown_reading [OF g] less.prems(1) by simp
    obtain es' x n where IH: "http_drain user (drop p b) ?w = http_drain user r (body_done a ?w es' x n)" "\<forall>e \<in> set es'. more_event e"
      "consumed es' @ x = chunk_buffer (cur_chunk ?w) @ D'"
      using less.hyps [OF _ r at] m(6) b by auto
    then show ?thesis using d m(3,5) body_done_grown [OF g]
      by (intro exI [where x = "es @ es'"] exI [where x = x] exI [where x = n]) (auto simp: cur_chunk_def)
  qed
qed

lemma receives_all:
  assumes "whole_user a user" "reading w" "chunk_at r (cur_chunk w) (b @ concat ds @ d) D" "length r < length d"
  shows "\<exists>es x n. http_receives user (ds @ [d]) (w, b) = http_drain user r (body_done a w es x n) \<and> (\<forall>e \<in> set es. more_event e)
    \<and> consumed es @ x = chunk_buffer (cur_chunk w) @ D"
  using assms(2,3)
proof (induction ds arbitrary: w b D)
  case Nil
  then show ?case
    using drain_all [OF assms(1), of w r "b @ d" "[]" D r] by (simp add: http_receive_def bind_Some)
next
  case (Cons d' ds)
  have at: "chunk_at r (cur_chunk w) ((b @ d') @ (concat ds @ d)) D" and fut: "length r < length (concat ds @ d)"
    using Cons.prems assms(4) by simp_all
  obtain w' es b' D' where w': "http_drain user (b @ d') w = Some (w', b')" "grown w w' es"
    "chunk_at r (cur_chunk w') (b' @ (concat ds @ d)) D'" "consumed es @ chunk_buffer (cur_chunk w') @ D' = chunk_buffer (cur_chunk w) @ D"
    using drain_part [OF assms(1) Cons.prems(1) at fut] by blast
  obtain es' x n where IH: "http_receives user (ds @ [d]) (w', b') = http_drain user r (body_done a w' es' x n)" "\<forall>e \<in> set es'. more_event e"
    "consumed es' @ x = chunk_buffer (cur_chunk w') @ D'"
    using Cons.IH [of w' b' D'] w'(3) grown_reading [OF w'(2)] Cons.prems(1) by auto
  have "http_receives user ((d' # ds) @ [d]) (w, b) = http_drain user r (body_done a w (es @ es') x n)"
    using w'(1) IH(1) body_done_grown [OF w'(2)] by (simp add: http_receive_def)
  moreover have "\<forall>e \<in> set (es @ es'). more_event e" using w'(2) IH(2) by (auto simp: grown_def)
  ultimately show ?case using w'(4) IH(3) by (intro exI [where x = "es @ es'"] exI [where x = x] exI [where x = n]) simp
qed

section \<open>Properties\<close>

definition sample_user :: http_user where
  "sample_user = (\<lambda>es st d. (length d, False))"

definition sample_request :: ILibWebRequest where
  "sample_request = \<lparr>Buffer = [], IsHeadRequest = False, streamedState = False, has_OnResponse = True, requestToken = None\<rparr>"

definition sample_reading :: ILibWebClientDataObject where
  "sample_reading = \<lparr>IsWebSocket = False, PipelineFlag = 0, FinHeader = True, NeedFlush = False, Chunked = True, chunk = None,
     ConnectionCloseSpecified = False, BytesLeft = -1, WaitForClose = False, Server = 0, HeaderLength = 20, header = None,
     InitialRequestAnswered = False, RequestQueue = [sample_request], connected = True, ws_state = None, errno_range = False, events = []\<rparr>"

lemmas read_size = line_ok_def size_of_line_def chunk_ok_def str_def strtol_hex_def strtol16_def hex_value_def is_space_def INT32_MAX_def split_on.simps(2)

lemma sample_user_whole: "whole_user False sample_user"
  by (simp add: whole_user_def sample_user_def)

lemma sample_reading_reading: "reading sample_reading"
  by (simp add: reading_def sample_reading_def can_respond_def sample_request_def)

text \<open>
  C22 (functional).  A chunked body is decoded, however it is cut into reads \<open>ds @ [d]\<close>, of which the last one brings its end and the bytes \<open>r\<close> behind it: a user
  that consumes all it is offered, or nothing until later, gets the data of the chunks, once and in order, the last part \<open>x\<close> of it with \<open>Complete\<close>,
  everything before it with \<open>MoreDataToBeReceived\<close>, as long as the \<open>int\<close>s that count the bytes do not overflow; then the state is reset, by the user's answer if it is a server, and by \<open>ILibWebClient_FinishedResponse\<close> if it is not, and the client goes on with \<open>r\<close>.
\<close>

theorem chunked_body_delivered:
  assumes "whole_user a user" "reading w" "chunk w = None" "body_ok cs t trs"
    and "concat ds @ d = encoded cs t trs @ r" "length r < length d" "length (concat ds @ d) + INITIAL_BUFFER_SIZE \<le> INT32_MAX"
  shows "\<exists>es x n. http_receives user (ds @ [d]) (w, []) = http_drain user r (body_done a w es x n)
    \<and> (\<forall>e \<in> set es. more_event e) \<and> consumed es @ x = concat (map snd cs)"
proof -
  have c: "cur_chunk w = new_chunk" using assms(3) by (simp add: cur_chunk_def)
  have "chunk_at r (cur_chunk w) ([] @ concat ds @ d) (concat (map snd cs))"
    using chunk_atI(1) [of new_chunk cs t trs r] assms(4,5,7) by (simp add: c new_chunk_def buffer_ok_def room_def)
  from receives_all [OF assms(1,2) this assms(6)] show ?thesis by (simp add: c new_chunk_def)
qed

theorem chunked_body_delivered_witness:
  "\<exists>es x n. http_receives sample_user [str ''3;a'', [13, 10, 97, 98], [99, 13, 10, 48, 13, 10, 13, 10, 72]] (sample_reading, [])
      = http_drain sample_user [72] (body_done False sample_reading es x n)
    \<and> (\<forall>e \<in> set es. more_event e) \<and> consumed es @ x = str ''abc''"
proof -
  have "body_ok [(str ''3;a'', str ''abc'')] (str ''0'') []" by (simp add: body_ok_def read_size)
  then show ?thesis
    using chunked_body_delivered [OF sample_user_whole sample_reading_reading _ \<open>body_ok _ _ _\<close>,
        of "[str ''3;a'', [13, 10, 97, 98]]" "[99, 13, 10, 48, 13, 10, 13, 10, 72]" "[72]"]
    by (simp add: sample_reading_def str_def INITIAL_BUFFER_SIZE_def INT32_MAX_def)
qed

text \<open>
  C32 (error).  The size of a chunk is read with \<open>strtol\<close> and cast to \<open>int\<close>: a line as \<open>-1\<close> or \<open>FFFFFFFF\<close> is accepted as the size of a chunk with data.  With
  the first byte behind it the user is called with this negative length, when nothing was kept before.  If the user consumes nothing, the copy of the negative number of bytes ends
  the process; if it consumes \<open>n\<close>, the client goes on behind them with the end of the unread data before its beginning and with even less than the negative length to come.
\<close>

theorem negative_chunk_size:
  assumes "reading w" "Flag (cur_chunk w) = STARTCHUNK" "line_ok t" "size_of_line t < 0" "r \<noteq> []"
    and "int (read_BeginPointer (cur_chunk w)) = read_EndPointer (cur_chunk w)" "room (cur_chunk w) r"
    and "user (events w @ [NegativeAnswer MoreDataToBeReceived (header w) (size_of_line t)]) MoreDataToBeReceived [] = (n, False)"
  shows "\<exists>w' c'. events w' = events w @ NegativeAnswer MoreDataToBeReceived (header w) (size_of_line t) # (if n = 0 then [ProcessExit] else [])
    \<and> http_drain user (t @ 13 # 10 # r) w = (if n = 0 then Some (w', r) else if n \<le> length r then http_drain user (drop n r) w' else None)
    \<and> connected w' = (n \<noteq> 0) \<and> chunk w' = Some c' \<and> Flag c' = DATACHUNK
    \<and> (n \<noteq> 0 \<longrightarrow> read_BeginPointer c' = n \<and> read_EndPointer c' = size_of_line t \<and> bytesLeft c' = size_of_line t - int n)"
proof -
  let ?b = "t @ 13 # 10 # r" and ?e = "NegativeAnswer MoreDataToBeReceived (header w) (size_of_line t)"
  define c where "c = (cur_chunk w)\<lparr>bytesLeft := size_of_line t, Flag := DATACHUNK\<rparr>"
  have P: "ILibWebClient_ProcessChunk user ?b w = Some (w\<lparr>chunk := Some c\<rparr>, length t + 2)"
    using assms(2,4,5) chunk_start_line [OF assms(3), of ?b "[]" r "cur_chunk w"]
    unfolding ILibWebClient_ProcessChunk_def cur_chunk_def [symmetric] c_def by simp
  have r: "reading (w\<lparr>chunk := Some c\<rparr>)" using assms(1) by (simp add: reading_def can_respond_def)
  have fc: "Flag c = DATACHUNK" "bytesLeft c = size_of_line t" "int (read_BeginPointer c) = read_EndPointer c" "room c r"
    using assms(6,7) by (simp_all add: c_def room_def)
  have up: "chunk_append r (size_of_line t) k = Some None" if "chunk_buffer k = chunk_buffer c" "mallocSize k = mallocSize c" for k
    using that fc(4) assms(4) by (auto simp: chunk_append_def Let_def room_def)
  define c' where "c' = (if n = 0 then c else c\<lparr>read_BeginPointer := n, read_EndPointer := size_of_line t, bytesLeft := size_of_line t - int n\<rparr>)"
  define w' where "w' = w\<lparr>chunk := Some c', connected := (n \<noteq> 0), events := events w @ ?e # (if n = 0 then [ProcessExit] else [])\<rparr>"
  have "connected w" using assms(1) by (simp add: reading_def)
  then have D: "ILibWebClient_ProcessChunk user r (w\<lparr>chunk := Some c\<rparr>) = Some (w', n)"
    using r fc(1-3) assms(4,8) up [of "c\<lparr>read_BeginPointer := 0, read_EndPointer := size_of_line t\<rparr>"]
    by (cases "n = 0") (simp_all add: ILibWebClient_ProcessChunk_def chunk_data_def offer_arrived_def respond_length_def reading_def can_respond_def
        emit_def process_exit_def Let_def w'_def c'_def)
  have 1: "http_drain user ?b w = http_drain user r (w\<lparr>chunk := Some c\<rparr>)"
    using assms(1) by (subst http_drain.simps) (simp add: OnData_reading P, simp add: reading_def)
  have 2: "http_drain user r (w\<lparr>chunk := Some c\<rparr>) = (if n = 0 then Some (w', r) else if n \<le> length r then http_drain user (drop n r) w' else None)"
    using r assms(5) by (subst http_drain.simps) (auto simp: OnData_reading D, simp_all add: reading_def)
  show ?thesis
    using fc(1) unfolding 1 2 by (intro exI [where x = w'] exI [where x = c']) (simp add: w'_def c'_def)
qed

theorem negative_chunk_size_witness:
  "\<exists>w'. http_drain (\<lambda>es st d. (0, False)) (str ''FFFFFFFF'' @ [13, 10, 97]) sample_reading = Some (w', [97])
    \<and> events w' = [NegativeAnswer MoreDataToBeReceived None (- 1), ProcessExit]"
proof -
  have t: "line_ok (str ''FFFFFFFF'')" "size_of_line (str ''FFFFFFFF'') = -1" by (simp_all add: read_size)
  have c: "cur_chunk sample_reading = new_chunk" and h: "header sample_reading = None" "events sample_reading = []"
    by (simp_all add: cur_chunk_def sample_reading_def)
  show ?thesis
    using negative_chunk_size [OF sample_reading_reading _ t(1), of "[97]" "\<lambda>es st d. (0, False)" 0] t(2)
    by (auto simp: c h new_chunk_def room_def INITIAL_BUFFER_SIZE_def INT32_MAX_def)
qed

text \<open>
  When the web server answers a request before its chunked body is complete, the rest of the body is to be flushed; but no data of a chunk is
  consumed any more: whatever arrives, nothing happens, and the bytes pile up in the buffer of the socket.
\<close>

theorem flush_never_ends:
  assumes "Chunked w" "FinHeader w" "chunk w = Some c" "\<not> complete c" "Flag c = DATACHUNK" "0 < bytesLeft c" "RequestQueue w \<noteq> []"
    and "\<not> IsWebSocket w" "connected w" "int (read_BeginPointer c) = read_EndPointer c"
    and "w' = ILibWebClient_FinishedResponse_Server w"
  shows "http_receives user ds (w', []) = Some (w', concat ds)"
proof -
  have w': "w' = w\<lparr>NeedFlush := True\<rparr>" using assms by (simp add: ILibWebClient_FinishedResponse_Server_def)
  have id: "w'\<lparr>chunk := Some c\<rparr> = w'" using assms(3) w' by (cases w) simp
  have "ILibWebClient_ProcessChunk user b w' = Some (w', 0)" for b
    using assms(3,5,6,10) w' id
    by (simp add: ILibWebClient_ProcessChunk_def chunk_data_def Let_def)
  then have "ILibWebClient_OnData user b w' = Some (w', b, 0, DataResults_OK)" for b
    using assms(1,2,7,8) w' by (simp add: ILibWebClient_OnData_def more_body_def split: list.split)
  then have "http_drain user b w' = Some (w', b)" for b by (subst http_drain.simps) simp
  then have "http_receives user ds (w', b) = Some (w', b @ concat ds)" for b
    by (induction ds arbitrary: b) (simp_all add: http_receive_def)
  then show ?thesis by simp
qed

definition sample_chunk :: ILibWebClient_ChunkData where
  "sample_chunk = new_chunk\<lparr>Flag := DATACHUNK, bytesLeft := 5\<rparr>"

theorem flush_never_ends_witness:
  "http_receives sample_user [str ''hello'', str ''world''] (sample_reading\<lparr>Server := 1, chunk := Some sample_chunk, NeedFlush := True\<rparr>, [])
     = Some (sample_reading\<lparr>Server := 1, chunk := Some sample_chunk, NeedFlush := True\<rparr>, str ''helloworld'')"
  using flush_never_ends [of "sample_reading\<lparr>Server := 1, chunk := Some sample_chunk\<rparr>" sample_chunk _ sample_user "[str ''hello'', str ''world'']"]
  by (simp add: sample_reading_def sample_chunk_def new_chunk_def str_def ILibWebClient_FinishedResponse_Server_def)

end
