(* ===== verification/HttpHeaders.thy ===== *)
theory HttpHeaders
  imports HttpChunks
begin

text \<open>
  The header of a request at the front of a larger buffer: where it ends, what the parser makes of it, what its copy keeps, and what its lines say about
  the length of the body.
\<close>

section \<open>The header in a larger buffer\<close>

text \<open>Lines behind an empty one are not looked at, and nothing behind them is written.\<close>

lemma header_lines_stop:
  "parse_header_lines node buf P (ls @ (q, 0) # rest) = parse_header_lines node buf P (ls @ [(q, 0)])"
proof (induction ls arbitrary: node buf P)
  case (Cons dl ls)
  then show ?case by (cases dl) (auto split: option.split prod.split intro!: Option.bind_cong)
qed simp

lemma put0_frame: "put0 buf i = Some buf' \<Longrightarrow> i < q \<Longrightarrow> length buf' = length buf \<and> drop q buf' = drop q buf"
  by (auto simp: put0_def split: if_splits)

lemma trim_back_le: "trim_back buf p l = Some l' \<Longrightarrow> l' \<le> l"
  by (induction buf p l rule: trim_back.induct) (auto split: if_splits option.splits bind_splits)

lemma trim_front_le: "trim_front buf p l = Some (p', l') \<Longrightarrow> p' + l' = p + l"
  by (induction buf p l rule: trim_front.induct) (auto split: if_splits option.splits bind_splits)

lemma trim_le: "ILibTrimString buf p l = Some (p', l') \<Longrightarrow> p' + l' \<le> p + l"
  using trim_front_le trim_back_le by (fastforce simp: ILibTrimString_def split: bind_splits)

lemma find_colon_lt: "find_colon buf d i n = Some (Some j) \<Longrightarrow> j < i + n"
proof (induction n arbitrary: i)
  case (Suc n)
  then show ?case using Suc.IH [of "i + 1"] by (auto split: if_splits bind_splits)
qed simp

lemma header_lines_frame:
  assumes "parse_header_lines node buf P lines = Some (buf', P')" "\<forall>(d, l) \<in> set (takeWhile (\<lambda>(d, l). l \<noteq> 0) lines). d + l < q"
  shows "length buf' = length buf \<and> drop q buf' = drop q buf"
  using assms
proof (induction node buf P lines rule: parse_header_lines.induct)
  case (2 node buf P d l lines)
  show ?case
  proof (cases "l = 0")
    case False
    have lt: "d + l < q" and rest: "\<forall>(d, l) \<in> set (takeWhile (\<lambda>(d, l). l \<noteq> 0) lines). d + l < q" using False "2.prems"(2) by auto
    obtain c where c: "rd buf d = Some c" using False "2.prems"(1) by (auto split: bind_splits)
    show ?thesis
    proof (cases "node \<and> (c = 32 \<or> c = 9)")
      case True
      then show ?thesis using "2.IH"(1) [OF False c True] "2.prems"(1) rest False c by (simp add: Let_def)
    next
      case nf: False
      obtain j where j: "find_colon buf d 0 l = Some j" using False "2.prems"(1) c nf by (auto split: bind_splits)
      show ?thesis
      proof (cases j)
        case None
        then show ?thesis using "2.IH"(2) [OF False c nf j] "2.prems"(1) rest False c nf j by simp
      next
        case (Some i)
        obtain dp dl where t: "ILibTrimString buf (d + i + 1) (l - i - 1) = Some (dp, dl)"
          using False "2.prems"(1) c nf j Some by (auto split: bind_splits)
        obtain b1 where b1: "put0 buf (d + i) = Some b1" using False "2.prems"(1) c nf j Some t by (auto split: bind_splits)
        obtain b2 where b2: "put0 b1 (dp + dl) = Some b2" using False "2.prems"(1) c nf j Some t b1 by (auto split: bind_splits)
        define n where "n = \<lparr>Field = slice buf d i, FieldData = slice buf dp dl\<rparr>"
        let ?t = "if dl \<le> INT32_MAX
             then ILibAddEntryEx (HeaderTable P) (Field n @ [0]) i (Some (HText (FieldData n))) (int dl) else Some (HeaderTable P)"
        have "?t \<noteq> None" using False "2.prems"(1) c nf j Some t b1 b2 by (auto simp: n_def Let_def split: bind_splits)
        then obtain tab where tab: "?t = Some tab" by blast
        have i: "i < l" using find_colon_lt [of buf d 0 l i] j Some by simp
        have "dp + dl < q" using trim_le [OF t] i lt by simp
        then have f: "length b2 = length buf \<and> drop q b2 = drop q buf"
          using put0_frame [OF b1, of q] put0_frame [OF b2, of q] i lt by simp
        have "parse_header_lines True b2 (P\<lparr>Fields := Fields P @ [n], HeaderTable := tab\<rparr>) lines = Some (buf', P')"
          using False "2.prems"(1) c nf j Some t b1 b2 tab [unfolded n_def] by (simp add: n_def Let_def)
        then show ?thesis using "2.IH"(3) [OF False c nf j Some t _ b1 b2 n_def tab] rest f by simp
      qed
    qed
  qed (use 2 in simp)
qed simp

section \<open>The lines of a buffer\<close>

lemma split_on_lines:
  "\<forall>t \<in> set ts. c \<notin> set t \<Longrightarrow> split_on (c # d) [] (join (c # d) (ts @ [[]]) @ y) = ts @ split_on (c # d) [] y"
proof (induction ts)
  case (Cons t ts)
  then have "split_on (c # d) [] (t @ c # d @ join (c # d) (ts @ [[]]) @ y) = t # ts @ split_on (c # d) [] y"
    using split_on_cut [of c t d "[]" "join (c # d) (ts @ [[]]) @ y"] by simp
  then show ?case by (simp add: join_Cons)
qed simp

lemma layout_append:
  "layout d p (xs @ ys) = layout d p xs @ layout d (p + length (concat (map (\<lambda>t. t @ d) xs))) ys"
  by (induction xs arbitrary: p) (simp_all add: add.assoc)

lemma layout_bound: "(p', l) \<in> set (layout d p ts) \<Longrightarrow> p' + l + length d \<le> p + length (concat (map (\<lambda>t. t @ d) ts))"
  by (induction ts arbitrary: p) (fastforce simp: add.assoc)+

lemma join_lines: "join d (ts @ [[]]) = concat (map (\<lambda>t. t @ d) ts)"
  by (induction ts) (simp_all add: join_Cons)

lemma takeWhile_until: "\<not> P y \<Longrightarrow> set (takeWhile P (xs @ y # ys)) \<subseteq> set xs"
  by (induction xs) auto

text \<open>The buffer is cut at its line breaks; a 0 at its end is dropped.\<close>

lemma parse_lines:
  assumes "buffer \<noteq> []" "length buffer \<le> INT32_MAX" "last buffer \<noteq> 13"
  shows "ILibParseString buffer 0 (length buffer) [13, 10]
    = Some (layout [13, 10] 0 (split_on [13, 10] [] (if last buffer = 0 then butlast buffer else buffer)))"
proof -
  have lst: "buffer ! (length buffer - 1) = last buffer" using assms(1) by (simp add: last_conv_nth)
  define n where "n = (if last buffer = 0 then length buffer - 1 else length buffer)"
  have n: "0 + n \<le> length buffer" "n \<le> INT32_MAX" using assms(2) by (auto simp: n_def)
  have "delim_match buffer i [13, 10] = Some False" if i: "i + 1 = n" for i
  proof (cases "last buffer = 0")
    case True
    then have "buffer ! (i + 1) = 0" "i + 1 < length buffer" using i lst assms(1) by (auto simp: n_def)
    then show ?thesis by (auto simp: rd_def split: option.split)
  next
    case False
    then have "i = length buffer - 1" "i < length buffer" using i by (simp_all add: n_def)
    then have "buffer ! i \<noteq> 13" "i < length buffer" using lst assms(3) by simp_all
    then show ?thesis by (auto simp: rd_def)
  qed
  then have "no_straddle buffer 0 n [13, 10]" unfolding no_straddle_def by auto
  then obtain ts where "parse_string_loop buffer 0 n [13, 10] 0 0 0 [] = Some ts"
    "ts = layout [13, 10] 0 (split_on [13, 10] [] (take n buffer))"
    using parse_string_loop_spec [OF n(1) _ _ n(2), of "[13, 10]" 0 0 0 "[]"] by (auto simp: slice_def)
  moreover have "(length buffer + SIZE_MOD - 1) mod SIZE_MOD = length buffer - 1"
    using assms(1,2) by (cases buffer) (simp_all add: SIZE_MOD_def INT32_MAX_def)
  moreover have "take n buffer = (if last buffer = 0 then butlast buffer else buffer)" by (simp add: n_def butlast_conv_take)
  ultimately show ?thesis using assms(1) lst by (auto simp: ILibParseString_def n_def rd_def)
qed

section \<open>The packet\<close>

text \<open>What a packet says: the request line and the header lines.\<close>

definition packet_is :: "byte list \<Rightarrow> byte list \<Rightarrow> byte list \<Rightarrow> (byte list \<times> byte list) list \<Rightarrow> packetheader \<Rightarrow> bool" where
  "packet_is dir obj ver hs P \<longleftrightarrow> Directive P = dir \<and> DirectiveObj P = obj \<and> Version P = ver \<and> StatusCode P = -1 \<and> StatusData P = []
     \<and> Fields P = map (\<lambda>(f, d). \<lparr>Field = f, FieldData = d\<rparr>) hs \<and> ht_ok 1 (HeaderTable P) \<and> ht_map 1 (HeaderTable P) = field_map hs"

definition request_header :: "byte list \<Rightarrow> byte list \<Rightarrow> byte list \<Rightarrow> (byte list \<times> byte list) list \<Rightarrow> byte list" where
  "request_header dir obj ver hs = join [13, 10] (request_lines dir obj ver hs)"

lemma parse_request_in_buffer:
  assumes "request_ok dir obj ver hs" "length buffer \<le> INT32_MAX" "buffer = request_header dir obj ver hs @ x" "x = [] \<or> last x \<noteq> 13"
  shows "\<exists>buf P. ILibParsePacketHeader e buffer 0 (length buffer) = Some (buf, Some P, e) \<and> packet_is dir obj ver hs P
    \<and> length buf = length buffer \<and> drop (length (request_header dir obj ver hs)) buf = x"
proof -
  let ?sl = "dir @ str '' '' @ obj @ str '' HTTP/'' @ ver" and ?fs = "map field_line hs"
  let ?J = "request_header dir obj ver hs"
  let ?n = "length dir + length obj + length ver + 7"
  have fok: "\<forall>fd \<in> set hs. field_ok fd" using assms(1) by (simp add: request_ok_def)
  have no_cr: "\<forall>t \<in> set (?sl # ?fs @ [[]]). 13 \<notin> set t"
    using assms(1) fok by (auto simp: request_ok_def field_line_def field_ok_def)
  have J: "?J = join [13, 10] ((?sl # ?fs @ [[]]) @ [[]])" by (simp add: request_header_def request_lines_def)
  have Jc: "?J = ?sl @ 13 # 10 # concat (map (\<lambda>t. t @ [13, 10]) ?fs) @ [13, 10]"
    unfolding J join_lines by simp
  then have lastJ: "last ?J = 10" "?J \<noteq> []" by simp_all
  define y where "y = (if x \<noteq> [] \<and> last x = 0 then butlast x else x)"
  have b: "buffer \<noteq> []" "last buffer \<noteq> 13" "(if last buffer = 0 then butlast buffer else buffer) = ?J @ y"
    using lastJ assms(3,4) by (auto simp: y_def butlast_append last_append)
  define ts where "ts = split_on [13, 10] [] y"
  have p: "ILibParseString buffer 0 (length buffer) [13, 10] = Some (layout [13, 10] 0 (?sl # ?fs @ [] # ts))"
    using parse_lines [OF b(1) assms(2) b(2)] b(3) split_on_lines [OF no_cr, of "[10]" y] unfolding J ts_def by simp
  have n: "?n \<le> INT32_MAX" "length ?sl = ?n" using assms(2,3) unfolding Jc by simp_all
  let ?R = "join [13, 10] (?fs @ [[], []]) @ x"
  have R: "join [13, 10] (?fs @ [[], []]) = concat (map (\<lambda>t. t @ [13, 10]) ?fs) @ [13, 10]"
    using join_lines [of "[13, 10]" "?fs @ [[]]"] by simp
  have d: "drop 0 buffer = dir @ str '' '' @ obj @ str '' HTTP/'' @ ver @ 13 # 10 # ?R"
    unfolding assms(3) Jc R by simp
  let ?P = "empty_header\<lparr>Directive := dir, DirectiveObj := obj, StatusCode := -1, Version := ver\<rparr>"
  obtain buf1 where b1: "parse_start_line e buffer (0, ?n) = Some (buf1, Some ?P, e)" "drop (0 + ?n + 1) buf1 = 10 # ?R"
    using parse_start_line_spec [OF assms(1) d refl n(1)] by auto
  have b2: "drop (?n + 2) buf1 = ?R" using arg_cong [OF b1(2), of "drop 1"] by simp
  have P: "ht_ok 1 (HeaderTable ?P)" "ht_map 1 (HeaderTable ?P) = (\<lambda>_. None)" "Fields ?P = []"
    using init_ok by (simp_all add: empty_header_def)
  obtain buf2 t where b3: "parse_header_lines False buf1 ?P (layout [13, 10] (?n + 2) (?fs @ [[], []]))
      = Some (buf2, ?P\<lparr>Fields := Fields ?P @ map (\<lambda>(f, d). \<lparr>Field = f, FieldData = d\<rparr>) hs, HeaderTable := t\<rparr>)"
    "ht_ok 1 t" "ht_map 1 t = field_map hs"
    using parse_header_lines_spec [OF fok b2 P(1), of False] P(2) by auto
  let ?Q = "?P\<lparr>Fields := Fields ?P @ map (\<lambda>(f, d). \<lparr>Field = f, FieldData = d\<rparr>) hs, HeaderTable := t\<rparr>"
  have same: "parse_header_lines False buf1 ?P (layout [13, 10] (?n + 2) (?fs @ [] # us))
    = parse_header_lines False buf1 ?P (layout [13, 10] (?n + 2) ?fs @ [(?n + 2 + length (concat (map (\<lambda>t. t @ [13, 10]) ?fs)), 0)])" for us
    unfolding layout_append layout.simps list.size(3) by (rule header_lines_stop)
  have h: "parse_header_lines False buf1 ?P (layout [13, 10] (?n + 2) (?fs @ [] # ts)) = Some (buf2, ?Q)"
    using b3(1) unfolding same [of ts] same [of "[[]]"] by assumption
  have "layout [13, 10] 0 (?sl # ?fs @ [] # ts) = (0, ?n) # layout [13, 10] (?n + 2) (?fs @ [] # ts)"
    unfolding layout.simps n(2) by simp
  with p have p': "ILibParseString buffer 0 (length buffer) [13, 10] = Some ((0, ?n) # layout [13, 10] (?n + 2) (?fs @ [] # ts))"
    by (simp only:)
  have res: "ILibParsePacketHeader e buffer 0 (length buffer) = Some (buf2, Some ?Q, e)"
    using b1(1) h unfolding ILibParsePacketHeader_def p' by simp
  have len1: "length buf1 = length buffer" using arg_cong [OF b1(2), of length] arg_cong [OF d, of length] by simp
  have lenJ: "length ?J = ?n + 2 + length (concat (map (\<lambda>t. t @ [13, 10]) ?fs)) + 2" unfolding Jc by simp
  have "\<forall>(d, l) \<in> set (takeWhile (\<lambda>(d, l). l \<noteq> 0) (layout [13, 10] (?n + 2) (?fs @ [] # ts))). d + l < length ?J"
    using takeWhile_until [of "\<lambda>(d, l). l \<noteq> 0"] layout_bound [of _ _ "[13, 10]" "?n + 2" ?fs] lenJ
    by (fastforce simp: layout_append)
  then have "length buf2 = length buf1 \<and> drop (length ?J) buf2 = drop (length ?J) buf1"
    by (rule header_lines_frame [OF h])
  moreover have "drop (length ?J) buf1 = x"
    using arg_cong [OF b2, of "drop (length (concat (map (\<lambda>t. t @ [13, 10]) ?fs)) + 2)"] unfolding lenJ R by (simp add: add.commute add.left_commute)
  ultimately show ?thesis using res len1 b3(2,3) P(3)
    by (intro exI [where x = buf2] exI [where x = ?Q]) (simp add: packet_is_def empty_header_def)
qed

section \<open>Copies\<close>

lemma field_map_some: "(f, d) \<in> set hs \<Longrightarrow> field_map hs (map to_lower f) \<noteq> None"
  unfolding field_map_def map_of_eq_None_iff by force

lemma field_key: "field_ok (f, d) \<Longrightarrow> ht_key 1 (f @ [0], length f) \<and> ht_norm 1 (f @ [0], length f) = map to_lower f"
  by (auto simp: field_ok_def ht_key_def ht_norm_def)

lemma add_field:
  assumes "ht_ok 1 (HeaderTable P)" "field_ok (f, d)"
  shows "\<exists>t. ILibAddHeaderLine P (f @ [0]) (length f) (d @ [0]) (length d)
      = Some (P\<lparr>HeaderTable := t, Fields := Fields P @ [\<lparr>Field = f, FieldData = d\<rparr>]\<rparr>)
    \<and> ht_ok 1 t \<and> ht_map 1 t = (ht_map 1 (HeaderTable P))(map to_lower f \<mapsto> (Some (HText d), int (length d)))"
proof -
  obtain t where t: "ILibAddEntryEx (HeaderTable P) (f @ [0]) (length f) (Some (HText d)) (int (length d)) = Some t"
    "ht_ok 1 t" "ht_map 1 t = (ht_map 1 (HeaderTable P))(map to_lower f \<mapsto> (Some (HText d), int (length d)))"
    using field_entry [OF assms] by blast
  have n: "length f \<noteq> 0" "length f \<le> INT32_MAX" "length d \<le> INT32_MAX" using assms(2) by (auto simp: field_ok_def)
  then have N: "length f \<noteq> NPOS" "length d \<noteq> NPOS" by (auto simp: INT32_MAX_def NPOS_def SIZE_MOD_def)
  have "len_or_strnlen True (d @ [0]) (length d) = Some (length d)"
    using N by (auto simp: len_or_strnlen_def strnlen_s_def)
  moreover have "len_or_strnlen True (f @ [0]) (length f) = Some (length f)" using n N by (simp add: len_or_strnlen_def)
  ultimately show ?thesis using t to_int32_small [OF n(3)] by (intro exI [where x = t]) (simp add: ILibAddHeaderLine_def)
qed

lemma clone_fields_spec:
  assumes "\<forall>fd \<in> set hs'. field_ok fd" "set hs' \<subseteq> set hs" "ht_ok 1 (HeaderTable P)" "ht_map 1 (HeaderTable P) = field_map hs"
    and "ht_ok 1 (HeaderTable r)"
  shows "\<exists>t. clone_fields P (map (\<lambda>(f, d). \<lparr>Field = f, FieldData = d\<rparr>) hs') r
      = Some (r\<lparr>HeaderTable := t, Fields := Fields r @ map (\<lambda>(f, d). \<lparr>Field = f, FieldData = d\<rparr>) hs'\<rparr>)
    \<and> ht_ok 1 t \<and> ht_map 1 t = ht_map 1 (HeaderTable r) ++ field_map hs'"
  using assms
proof (induction hs' arbitrary: r)
  case Nil
  then show ?case by (auto simp: field_map_def intro: exI [of _ "HeaderTable r"])
next
  case (Cons fd hs')
  obtain f d where fd: "fd = (f, d)" by (cases fd)
  have ok: "field_ok (f, d)" "(f, d) \<in> set hs" using Cons.prems(1,2) fd by auto
  obtain t where t: "ILibAddHeaderLine r (f @ [0]) (length f) (d @ [0]) (length d)
      = Some (r\<lparr>HeaderTable := t, Fields := Fields r @ [\<lparr>Field = f, FieldData = d\<rparr>]\<rparr>)"
    "ht_ok 1 t" "ht_map 1 t = (ht_map 1 (HeaderTable r))(map to_lower f \<mapsto> (Some (HText d), int (length d)))"
    using add_field [OF Cons.prems(5) ok(1)] by blast
  have h: "ILibHasEntry (HeaderTable P) (f @ [0]) (length f) = Some 1"
    using get_entry(1) [OF Cons.prems(3) conjunct1 [OF field_key [OF ok(1)]]] field_key [OF ok(1)] field_map_some [OF ok(2)] Cons.prems(4)
    by simp
  let ?r = "r\<lparr>HeaderTable := t, Fields := Fields r @ [\<lparr>Field = f, FieldData = d\<rparr>]\<rparr>"
  obtain t' where IH: "clone_fields P (map (\<lambda>(f, d). \<lparr>Field = f, FieldData = d\<rparr>) hs') ?r
      = Some (?r\<lparr>HeaderTable := t', Fields := Fields ?r @ map (\<lambda>(f, d). \<lparr>Field = f, FieldData = d\<rparr>) hs'\<rparr>)"
    "ht_ok 1 t'" "ht_map 1 t' = ht_map 1 (HeaderTable ?r) ++ field_map hs'"
    using Cons.IH [of ?r] Cons.prems(1-4) t(2) by auto
  then show ?case using h t
    by (intro exI [where x = t']) (simp add: fd field_map_Cons)
qed

lemma clone_packet:
  assumes "packet_is dir obj ver hs P" "\<forall>fd \<in> set hs. field_ok fd" "length dir \<le> INT32_MAX" "length obj \<le> INT32_MAX"
  shows "\<exists>P'. ILibClonePacket P = Some P' \<and> packet_is dir obj ver hs P'"
proof -
  have N: "length dir \<noteq> NPOS" "length obj \<noteq> NPOS" "0 \<noteq> NPOS" using assms(3,4) by (auto simp: INT32_MAX_def NPOS_def SIZE_MOD_def)
  let ?r = "ILibCreateEmptyPacketEx\<lparr>ClonedPacket := 1, Directive := dir, DirectiveObj := obj, StatusCode := -1, StatusData := [], Version := ver\<rparr>"
  have r: "ht_ok 1 (HeaderTable ?r)" "ht_map 1 (HeaderTable ?r) = (\<lambda>_. None)" "Fields ?r = []"
    using init_ok by (simp_all add: ILibCreateEmptyPacketEx_def)
  obtain t where t: "clone_fields P (map (\<lambda>(f, d). \<lparr>Field = f, FieldData = d\<rparr>) hs) ?r
      = Some (?r\<lparr>HeaderTable := t, Fields := Fields ?r @ map (\<lambda>(f, d). \<lparr>Field = f, FieldData = d\<rparr>) hs\<rparr>)"
    "ht_ok 1 t" "ht_map 1 t = field_map hs"
    using clone_fields_spec [OF assms(2) order.refl _ _ r(1), of P] assms(1) r(2) by (auto simp: packet_is_def)
  then show ?thesis using assms(1) N r(3)
    by (auto simp: ILibClonePacket_def packet_is_def ILibSetDirective_def ILibSetStatusCode_def ILibSetVersion_def len_or_strnlen_def Let_def)
qed

section \<open>Where the header ends\<close>

definition ends_at :: "byte list \<Rightarrow> nat \<Rightarrow> bool" where
  "ends_at b k \<longleftrightarrow> b ! k = 13 \<and> b ! (k + 1) = 10 \<and> b ! (k + 2) = 13 \<and> b ! (k + 3) = 10"

lemma header_end_found:
  assumes "i \<le> j" "j + 4 \<le> length b" "ends_at b j" "\<forall>k. i \<le> k \<and> k < j \<longrightarrow> \<not> ends_at b k"
  shows "header_end False b i = Some j"
  using assms(1,4)
proof (induction "j - i" arbitrary: i)
  case 0
  then show ?case using assms(2,3) by (subst header_end.simps) (simp add: ends_at_def)
next
  case (Suc n)
  then have "\<not> ends_at b i" "header_end False b (i + 1) = Some j" using Suc.hyps(1) [of "i + 1"] by auto
  then show ?case using Suc.prems Suc.hyps(2) assms(2) by (subst header_end.simps) (auto simp: ends_at_def)
qed

lemma header_end_none:
  assumes "\<forall>k. i \<le> k \<and> k + 4 \<le> length b \<longrightarrow> \<not> ends_at b k"
  shows "header_end False b i = None"
  using assms
proof (induction "length b - i" arbitrary: i rule: less_induct)
  case less
  show ?case
  proof (cases "i + 4 \<le> length b")
    case True
    then have "\<not> ends_at b i" "header_end False b (i + 1) = None" using less.hyps [of "i + 1"] less.prems by auto
    then show ?thesis by (subst header_end.simps) (auto simp: ends_at_def)
  next
    case False
    then show ?thesis by (subst header_end.simps) simp
  qed
qed

lemma ends_only_at_end:
  assumes "\<forall>t \<in> set ts. t \<noteq> [] \<and> 13 \<notin> set t" "ends_at (concat (map (\<lambda>t. t @ [13, 10]) ts) @ 13 # 10 # r) k" "ts \<noteq> []"
    and "k + 4 \<le> length (concat (map (\<lambda>t. t @ [13, 10]) ts)) + 2"
  shows "k + 2 = length (concat (map (\<lambda>t. t @ [13, 10]) ts))"
  using assms
proof (induction ts arbitrary: k)
  case (Cons t ts)
  let ?rest = "concat (map (\<lambda>t. t @ [13, 10]) ts) @ 13 # 10 # r"
  have e: "ends_at (t @ 13 # 10 # ?rest) k" using Cons.prems(2) by simp
  have t: "t \<noteq> []" "13 \<notin> set t" using Cons.prems(1) by auto
  consider "k < length t" | "k = length t" | "k = length t + 1" | j where "k = length t + 2 + j"
  proof -
    have "k < length t \<or> k = length t \<or> k = length t + 1 \<or> k = length t + 2 + (k - (length t + 2))" by auto
    then show ?thesis using that by blast
  qed
  then show ?case
  proof cases
    case 1
    then have "t ! k = 13" using e by (simp add: ends_at_def nth_append)
    then show ?thesis using t(2) 1 nth_mem by fastforce
  next
    case 2
    then have "(13 :: byte) = ?rest ! 0 \<and> 10 = ?rest ! 1" using e by (simp add: ends_at_def nth_append)
    moreover have "?rest ! 0 \<noteq> 13" if "ts \<noteq> []"
    proof -
      obtain u us where u: "ts = u # us" using \<open>ts \<noteq> []\<close> by (cases ts) auto
      then obtain c u' where c: "u = c # u'" "c \<noteq> 13" using Cons.prems(1) by (cases u) auto
      then show ?thesis using u by simp
    qed
    ultimately have "ts = []" by metis
    then show ?thesis using 2 by simp
  next
    case 3
    then show ?thesis using e by (simp add: ends_at_def nth_append)
  next
    case 4
    have "ends_at ?rest j" using e 4 by (simp add: ends_at_def nth_append add.commute)
    moreover have "ts \<noteq> []" using Cons.prems(4) 4 by (cases ts) auto
    ultimately show ?thesis using Cons.IH [of j] Cons.prems(1,4) 4 by simp
  qed
qed simp

lemma header_lines_concat:
  "request_header dir obj ver hs
    = concat (map (\<lambda>t. t @ [13, 10]) ((dir @ str '' '' @ obj @ str '' HTTP/'' @ ver) # map field_line hs)) @ [13, 10]"
  using join_lines [of "[13, 10]" "(dir @ str '' '' @ obj @ str '' HTTP/'' @ ver) # map field_line hs @ [[]]"]
  by (simp add: request_header_def request_lines_def)

lemma request_header_end:
  assumes "request_ok dir obj ver hs" "b @ fut = request_header dir obj ver hs @ r"
  shows "header_end False b 0 = (if length (request_header dir obj ver hs) \<le> length b
    then Some (length (request_header dir obj ver hs) - 4) else None)"
proof -
  let ?ts = "(dir @ str '' '' @ obj @ str '' HTTP/'' @ ver) # map field_line hs"
  let ?C = "concat (map (\<lambda>t. t @ [13, 10]) ?ts)" and ?H = "request_header dir obj ver hs"
  have ts: "\<forall>t \<in> set ?ts. t \<noteq> [] \<and> 13 \<notin> set t"
    using assms(1) by (auto simp: request_ok_def field_line_def field_ok_def)
  have b: "b @ fut = ?C @ 13 # 10 # r" using assms(2) by (simp add: header_lines_concat)
  have H: "length ?H = length ?C + 2" "2 \<le> length ?C" by (simp_all add: header_lines_concat)
  have same: "ends_at b k = ends_at (?C @ 13 # 10 # r) k" if "k + 4 \<le> length b" for k
    using that unfolding b [symmetric] ends_at_def by (simp add: nth_append)
  have only: "k + 2 = length ?C" if "k + 4 \<le> length b" "ends_at b k" "k + 4 \<le> length ?H" for k
    using ends_only_at_end [OF ts, of r k] that same H by simp
  show ?thesis
  proof (cases "length ?H \<le> length b")
    case True
    obtain C' where C': "?C = C' @ [13, 10]"
    proof
      show "?C = (concat (map (\<lambda>t. t @ [13, 10]) (butlast ?ts)) @ last ?ts) @ [13, 10]"
        using arg_cong [OF append_butlast_last_id [of ?ts], of "\<lambda>ts. concat (map (\<lambda>t. t @ [13, 10]) ts)"] by simp
    qed
    let ?j = "length C'"
    have j: "?j + 4 = length ?H" using H arg_cong [OF C', of length] by simp
    have "ends_at (?C @ 13 # 10 # r) ?j" unfolding C' ends_at_def by (simp add: nth_append)
    then have e: "ends_at b ?j" using same [of ?j] j True by simp
    have lc: "length ?C = ?j + 2" using arg_cong [OF C', of length] by (simp only: length_append list.size)
    have "\<not> ends_at b k" if "k < ?j" for k
    proof
      assume "ends_at b k"
      moreover have "k + 4 \<le> length ?H" "k + 4 \<le> length b" using that j True by linarith+
      ultimately have "k + 2 = length ?C" by (intro only)
      then show False using lc that by linarith
    qed
    then have "header_end False b 0 = Some ?j" using j True e by (intro header_end_found) simp_all
    moreover have "?j = length ?H - 4" using j by simp
    ultimately show ?thesis using True by simp
  next
    case False
    then have "header_end False b 0 = None" using only H by (intro header_end_none) fastforce
    then show ?thesis using False by simp
  qed
qed

section \<open>The length of the body\<close>

definition named :: "string \<Rightarrow> byte list \<Rightarrow> bool" where
  "named name f \<longleftrightarrow> map to_lower f = str name"

lemma to_lower_0: "to_lower c = 0 \<longleftrightarrow> c = 0"
  by (auto simp: to_lower_def split: if_splits) (unat_arith; simp)?

lemma strncaseeq_lower:
  "length a = length b \<Longrightarrow> 0 \<notin> set b \<Longrightarrow> strncaseeq a b (length b) = Some (map to_lower a = map to_lower b)"
proof (induction b arbitrary: a)
  case (Cons y b)
  then obtain x a' where "a = x # a'" by (cases a) auto
  then show ?case using Cons to_lower_0 [of x] to_lower_0 [of y] by auto
qed simp

lemma field_is_named:
  assumes "map to_lower (str name) = str name" "0 \<notin> set (str name)"
  shows "field_is f name = Some (named name f)"
proof (cases "length f = length name")
  case True
  then show ?thesis using strncaseeq_lower [of f "str name"] assms by (simp add: field_is_def named_def)
next
  case False
  then have "length (map to_lower f) \<noteq> length (str name)" by simp
  then have "map to_lower f \<noteq> str name" by metis
  then show ?thesis using False by (simp add: field_is_def named_def)
qed

lemma content_length: "n \<le> INT32_MAX \<Longrightarrow> ILib_atoi2_int32 False (dec_string n @ [0]) m = Some (n, False)"
  by (simp add: ILib_atoi2_int32_def atoi2_int_def ILib_atoi2_uint64_def ILib_atoi2_uint32_def ILib_atoi_uint32_ex_def
      ILib_atoi_uint64_ex_def strtoull_def scan_dec_string Let_def ULLONG_MAX_def SIZE_MOD_def INT32_MAX_def)

definition chunked_lines :: "(byte list \<times> byte list) list \<Rightarrow> bool" where
  "chunked_lines hs \<longleftrightarrow> (\<exists>(f, d) \<in> set hs. named ''transfer-encoding'' f \<and> named ''chunked'' d)"

definition close_lines :: "(byte list \<times> byte list) list \<Rightarrow> bool" where
  "close_lines hs \<longleftrightarrow> (\<exists>(f, d) \<in> set hs. named ''connection'' f \<and> named ''close'' d)"

definition length_lines :: "(byte list \<times> byte list) list \<Rightarrow> byte list set" where
  "length_lines hs = {d. \<exists>f. (f, d) \<in> set hs \<and> named ''content-length'' f}"

lemma named_once: "named n f \<Longrightarrow> named m f \<Longrightarrow> str n = str m"
  by (simp add: named_def)

lemma introspect_lines:
  assumes "length_lines hs \<subseteq> {v}" "n \<le> INT32_MAX" "\<not> errno_range w" "\<And>m. ILib_atoi2_int32 False (v @ [0]) m = Some (n, False)"
  shows "introspect (map (\<lambda>(f, d). \<lparr>Field = f, FieldData = d\<rparr>) hs) w
    = Some (w\<lparr>WaitForClose := WaitForClose w \<and> \<not> chunked_lines hs \<and> length_lines hs = {}, Chunked := Chunked w \<or> chunked_lines hs,
        ConnectionCloseSpecified := ConnectionCloseSpecified w \<or> close_lines hs,
        BytesLeft := if length_lines hs = {} then BytesLeft w else int n\<rparr>, False)"
  using assms
proof (induction hs arbitrary: w)
  case Nil
  then show ?case by (simp add: chunked_lines_def close_lines_def length_lines_def)
next
  case (Cons fd hs)
  obtain f d where fd: "fd = (f, d)" by (cases fd)
  have fi: "field_is x ''transfer-encoding'' = Some (named ''transfer-encoding'' x)" "field_is x ''chunked'' = Some (named ''chunked'' x)"
    "field_is x ''connection'' = Some (named ''connection'' x)" "field_is x ''close'' = Some (named ''close'' x)"
    "field_is x ''content-length'' = Some (named ''content-length'' x)" for x
    by (rule field_is_named; simp add: str_def to_lower_def)+
  have ll: "length_lines (fd # hs) = (if named ''content-length'' f then {d} else {}) \<union> length_lines hs"
    by (auto simp: length_lines_def fd)
  then have sub: "length_lines hs \<subseteq> {v}" using Cons.prems(1) by auto
  have cl: "chunked_lines (fd # hs) \<longleftrightarrow> named ''transfer-encoding'' f \<and> named ''chunked'' d \<or> chunked_lines hs"
    "close_lines (fd # hs) \<longleftrightarrow> named ''connection'' f \<and> named ''close'' d \<or> close_lines hs"
    by (auto simp: chunked_lines_def close_lines_def fd)
  have n: "signed_take_bit 31 (int n) = int n"
    using assms(2) by (simp add: signed_take_bit_int_eq_self INT32_MAX_def)
  then have nb: "\<not> bit (int n) 31" using signed_take_bit_negative_iff [of 31 "int n"] by simp
  let ?ps = "map (\<lambda>(f, d). \<lparr>Field = f, FieldData = d\<rparr>) hs"
  show ?case
  proof (cases "named ''content-length'' f")
    case True
    then have d: "d = v" using Cons.prems(1) ll by auto
    have no: "\<not> named ''transfer-encoding'' f" "\<not> named ''connection'' f"
      using True by (auto simp: named_def str_def)
    let ?w = "w\<lparr>WaitForClose := False, BytesLeft := int n, errno_range := False\<rparr>"
    have E: "introspect (map (\<lambda>(f, d). \<lparr>Field = f, FieldData = d\<rparr>) (fd # hs)) w = introspect ?ps ?w"
      using assms(4) True no n nb Cons.prems(3) by (simp add: fd fi d Let_def)
    show ?thesis unfolding E using Cons.IH [of ?w] sub assms(2,4) Cons.prems(3) True no by (cases w) (simp add: ll cl)
  next
    case False
    define w1 where "w1 = (if named ''transfer-encoding'' f \<and> named ''chunked'' d then w\<lparr>WaitForClose := False, Chunked := True\<rparr> else w)"
    define w2 where "w2 = (if named ''connection'' f \<and> named ''close'' d then w1\<lparr>ConnectionCloseSpecified := True\<rparr> else w1)"
    have E: "introspect (map (\<lambda>(f, d). \<lparr>Field = f, FieldData = d\<rparr>) (fd # hs)) w = introspect ?ps w2"
      using False by (simp add: fd fi w1_def w2_def Let_def)
    have "\<not> errno_range w2" using Cons.prems(3) by (simp add: w1_def w2_def)
    from Cons.IH [OF sub assms(2) this assms(4)] show ?thesis unfolding E using False by (cases w) (auto simp: ll cl w1_def w2_def)
  qed
qed

end
