(* ===== verification/HttpStreaming.thy ===== *)
theory HttpStreaming
  imports HttpChunks
begin

text \<open>
  Responses of the web server, from microstack/ILibWebServer.c: sending a packet, streaming a header and a body, in chunks unless the
  request is of HTTP 1.0, the end of a request, and streaming a file.

  What the socket does with bytes it is given is a parameter: from what was written before and the bytes to a status.  The reader of the
  connection is that of theory HttpClient.  The idle timer, the disconnect by a timer and the resuming of the socket are actions, in
  their order.  Left out: the counter of references and the log.
\<close>

section \<open>State\<close>

datatype ILibWebServer_Status =
    ILibWebServer_ALL_DATA_SENT | ILibWebServer_NOT_ALL_DATA_SENT_YET | ILibWebServer_SEND_RESULTED_IN_DISCONNECT
  | ILibWebServer_INVALID_SESSION | ILibWebServer_TRIED_TO_SEND_ON_CLOSED_SOCKET

datatype done_flag = NotDone | Done | PartDone | LastPartDone

datatype session_action = DisconnectSoon | SetIdleTimer | RemoveIdleTimer | ResumeSocket

text \<open>\<open>dispatched\<close>: the calls of handlers, of a virtual directory or of the receiver of the session.\<close>

datatype dispatch_call =
    To_Directory nat packetheader ILibWebClient_ReceiveStatus "byte list"
  | To_Receiver packetheader ILibWebClient_ReceiveStatus "byte list"

record ILibWebServer_Session =
  SessionInterrupted :: bool
  WebSocket_Request :: bool
  RequestAnsweredFlag :: bool
  RequestAnsweredMethod :: bool
  RequestMadeFlag :: bool
  CloseOverrideFlag :: bool
  VirtualDirectory :: "nat option"
  OverrideVirDirStruct :: bool
  WebSocketRequested :: bool
  WebClientDataObject :: ILibWebClientDataObject
  written :: "byte list list"
  session_actions :: "session_action list"
  dispatched :: "dispatch_call list"

type_synonym web_socket = "byte list list \<Rightarrow> byte list \<Rightarrow> ILibWebServer_Status"

text \<open>The status is at least 0, or one of those that end a response.\<close>

definition status_ok :: "ILibWebServer_Status \<Rightarrow> bool" where
  "status_ok r \<longleftrightarrow> r = ILibWebServer_ALL_DATA_SENT \<or> r = ILibWebServer_NOT_ALL_DATA_SENT_YET"

definition send_failed :: "ILibWebServer_Status \<Rightarrow> bool" where
  "send_failed r \<longleftrightarrow> r = ILibWebServer_TRIED_TO_SEND_ON_CLOSED_SOCKET \<or> r = ILibWebServer_SEND_RESULTED_IN_DISCONNECT"

definition do_action :: "session_action \<Rightarrow> ILibWebServer_Session \<Rightarrow> ILibWebServer_Session" where
  "do_action a s = s\<lparr>session_actions := session_actions s @ [a]\<rparr>"

definition socket_send :: "web_socket \<Rightarrow> byte list \<Rightarrow> ILibWebServer_Session \<Rightarrow> ILibWebServer_Status \<times> ILibWebServer_Session" where
  "socket_send sock b s = (let r = sock (written s) b in
     (r, if r = ILibWebServer_TRIED_TO_SEND_ON_CLOSED_SOCKET then s else s\<lparr>written := written s @ [b]\<rparr>))"

text \<open>A request of HTTP 1.0, and one with the method HEAD.\<close>

definition version_10 :: "packetheader \<Rightarrow> bool" where
  "version_10 hdr \<longleftrightarrow> Version hdr = str ''1.0''"

definition head_request :: "packetheader \<Rightarrow> bool option" where
  "head_request hdr = field_is (Directive hdr) ''HEAD''"

section \<open>The end of a request\<close>

text \<open>A field \<open>Connection: close\<close>.\<close>

fun close_token :: "packetheader_field_node list \<Rightarrow> bool option" where
  "close_token [] = Some False"
| "close_token (f # rest) = do {
     co \<leftarrow> field_is (Field f) ''CONNECTION'';
     cl \<leftarrow> (if co then field_is (FieldData f) ''CLOSE'' else Some False);
     if cl then Some True else close_token rest }"

definition ILibWebServer_RequestAnswered :: "ILibWebServer_Session \<Rightarrow> (ILibWebServer_Status \<times> ILibWebServer_Session) option" where
  "ILibWebServer_RequestAnswered s = (case header (WebClientDataObject s) of
     None \<Rightarrow> Some (if CloseOverrideFlag s then (ILibWebServer_SEND_RESULTED_IN_DISCONNECT, do_action DisconnectSoon s)
       else (ILibWebServer_ALL_DATA_SENT, s))
   | Some hdr \<Rightarrow>
       if RequestAnsweredMethod s then Some (ILibWebServer_ALL_DATA_SENT, s\<lparr>VirtualDirectory := None\<rparr>)
       else do {
         let s = s\<lparr>VirtualDirectory := None, RequestAnsweredMethod := True, RequestMadeFlag := False\<rparr>;
         persistent \<leftarrow> (if CloseOverrideFlag s \<or> length (Version hdr) \<noteq> 3 \<or> Version hdr = str ''1.0'' then Some False
           else map_option Not (close_token (Fields hdr)));
         Some (if \<not> persistent then (ILibWebServer_SEND_RESULTED_IN_DISCONNECT, do_action DisconnectSoon s)
           else (ILibWebServer_ALL_DATA_SENT, do_action ResumeSocket ((do_action SetIdleTimer s)
             \<lparr>WebClientDataObject := ILibWebClient_FinishedResponse_Server (WebClientDataObject s)\<rparr>))) })"

section \<open>Sending\<close>

text \<open>The bytes are those of the buffer and its length, which is not 0 for the callers here.\<close>

definition ILibWebServer_Send_Raw ::
  "web_socket \<Rightarrow> byte list \<Rightarrow> done_flag \<Rightarrow> ILibWebServer_Session \<Rightarrow> (ILibWebServer_Status \<times> ILibWebServer_Session) option" where
  "ILibWebServer_Send_Raw sock b flag s =
     (if SessionInterrupted s then Some (ILibWebServer_INVALID_SESSION, s)
      else let (r, s) = socket_send sock b (s\<lparr>RequestAnsweredFlag := (flag \<noteq> NotDone)\<rparr>) in
        if r = ILibWebServer_ALL_DATA_SENT \<and> flag \<noteq> NotDone then ILibWebServer_RequestAnswered s else Some (r, s))"

text \<open>A whole packet, of which the text is given; what \<open>ILibWebServer_RequestAnswered\<close> returns is only passed on when it disconnects.\<close>

definition ILibWebServer_Send ::
  "web_socket \<Rightarrow> byte list \<Rightarrow> ILibWebServer_Session \<Rightarrow> (ILibWebServer_Status \<times> ILibWebServer_Session) option" where
  "ILibWebServer_Send sock raw s =
     (if SessionInterrupted s \<or> WebSocket_Request s then Some (ILibWebServer_INVALID_SESSION, s)
      else let (r, s) = socket_send sock raw (s\<lparr>RequestAnsweredFlag := True\<rparr>) in
        if r = ILibWebServer_ALL_DATA_SENT then do {
          (r', s) \<leftarrow> ILibWebServer_RequestAnswered s;
          Some (if r' = ILibWebServer_SEND_RESULTED_IN_DISCONNECT then r' else r, s) }
        else Some (r, s))"

text \<open>
  The header of a streamed response: the content length is replaced by the transfer encoding, unless the request is of HTTP 1.0.  The content length that
  is then asked for is that of the request.
\<close>

definition ILibWebServer_StreamHeader ::
  "web_socket \<Rightarrow> (nat \<Rightarrow> byte) \<Rightarrow> packetheader \<Rightarrow> ILibWebServer_Session \<Rightarrow> failure + ILibWebServer_Status \<times> ILibWebServer_Session" where
  "ILibWebServer_StreamHeader sock m0 packet s =
     (if SessionInterrupted s \<or> WebSocket_Request s then Inr (ILibWebServer_INVALID_SESSION, s)
      else case header (WebClientDataObject s) of
        None \<Rightarrow> Inr (ILibWebServer_INVALID_SESSION, s)
      | Some hdr \<Rightarrow>
          and_then (or_UB (if \<not> version_10 hdr
            then do {
              packet \<leftarrow> ILibDeleteHeaderLine packet (str ''Content-Length'' @ [0]) 14;
              packet \<leftarrow> ILibAddHeaderLine packet (str ''Transfer-Encoding'' @ [0]) 17 (str ''chunked'' @ [0]) 7;
              Some (packet, s) }
            else do {
              (v, n) \<leftarrow> ILibGetHeaderLineEx hdr (str ''Content-Length'' @ [0]) 14;
              Some (packet, if v = None then s\<lparr>CloseOverrideFlag := True\<rparr> else s) })) (\<lambda>(packet, s).
          and_then (ILibGetRawPacket m0 packet) (\<lambda>(buf, n).
            or_UB (ILibWebServer_Send_Raw sock (take n buf) NotDone s))))"

text \<open>\<open>%X\<close>.\<close>

fun hex_number :: "nat \<Rightarrow> byte list" where
  "hex_number n = (if n < 16 then [hex_digit n] else hex_number (n div 16) @ [hex_digit (n mod 16)])"

declare hex_number.simps [simp del]

text \<open>A chunk: its three parts, as long as the socket is not closed.  The status of the line of the size and of the data is not passed on.\<close>

definition stream_chunk ::
  "web_socket \<Rightarrow> byte list \<Rightarrow> ILibWebServer_Session \<Rightarrow> (ILibWebServer_Status \<times> ILibWebServer_Session) option" where
  "stream_chunk sock buffer s = do {
     (r, s) \<leftarrow> ILibWebServer_Send_Raw sock (hex_number (length buffer) @ [13, 10]) NotDone s;
     if r = ILibWebServer_TRIED_TO_SEND_ON_CLOSED_SOCKET then Some (r, s)
     else do {
       (r, s) \<leftarrow> ILibWebServer_Send_Raw sock buffer NotDone s;
       if r = ILibWebServer_TRIED_TO_SEND_ON_CLOSED_SOCKET then Some (r, s)
       else ILibWebServer_Send_Raw sock [13, 10] NotDone s } }"

definition ILibWebServer_StreamBody ::
  "web_socket \<Rightarrow> byte list \<Rightarrow> done_flag \<Rightarrow> ILibWebServer_Session \<Rightarrow> (ILibWebServer_Status \<times> ILibWebServer_Session) option" where
  "ILibWebServer_StreamBody sock buffer flag s =
     (if SessionInterrupted s \<or> WebSocket_Request s then Some (ILibWebServer_INVALID_SESSION, s)
      else case header (WebClientDataObject s) of
        None \<Rightarrow> Some (ILibWebServer_INVALID_SESSION, s)
      | Some hdr \<Rightarrow>
          if version_10 hdr
          then (if buffer \<noteq> [] then ILibWebServer_Send_Raw sock buffer flag s
                else if flag \<noteq> NotDone then ILibWebServer_RequestAnswered s
                else Some (ILibWebServer_INVALID_SESSION, s))
          else do {
            (r, s) \<leftarrow> (if buffer \<noteq> [] then stream_chunk sock buffer s else Some (ILibWebServer_INVALID_SESSION, s));
            head \<leftarrow> (if flag = Done \<and> \<not> send_failed r then head_request hdr else Some False);
            if flag = Done \<and> \<not> send_failed r \<and> \<not> head then ILibWebServer_Send_Raw sock (str ''0'' @ [13, 10, 13, 10]) Done s
            else if flag = Done \<and> status_ok r then ILibWebServer_RequestAnswered s
            else Some (r, s) })"

text \<open>The socket could send what was waiting.  The result is whether the user is told.\<close>

definition ILibWebServer_OnSendOK :: "ILibWebServer_Session \<Rightarrow> (bool \<times> ILibWebServer_Session) option" where
  "ILibWebServer_OnSendOK s =
     (if RequestAnsweredFlag s then do {
        (r, s) \<leftarrow> ILibWebServer_RequestAnswered s;
        Some (r \<noteq> ILibWebServer_SEND_RESULTED_IN_DISCONNECT, s) }
      else Some (True, s))"

section \<open>Streaming a file\<close>

definition FILE_BLOCK :: nat where "FILE_BLOCK = 4096"

text \<open>
  The file is what is left of its bytes, or \<open>None\<close> when it is closed; reading a closed file is undefined.  The result is the file.
\<close>

function stream_file_loop ::
  "web_socket \<Rightarrow> byte list \<Rightarrow> ILibWebServer_Session \<Rightarrow> (byte list \<times> nat \<times> ILibWebServer_Status \<times> ILibWebServer_Session) option" where
  "stream_file_loop sock f s =
     (if f = [] then Some ([], 0, ILibWebServer_NOT_ALL_DATA_SENT_YET, s)
      else let d = take FILE_BLOCK f; f = drop FILE_BLOCK f in do {
        (r, s) \<leftarrow> ILibWebServer_StreamBody sock d NotDone s;
        if r \<noteq> ILibWebServer_ALL_DATA_SENT \<or> length d < FILE_BLOCK then Some (f, length d, r, s)
        else do {
          (f, n, r', s) \<leftarrow> stream_file_loop sock f s;
          Some (f, n, if n = 0 then r else r', s) } })"
  by pat_completeness auto
termination by (relation "measure (\<lambda>(sock, f, s). length f)") (auto simp: FILE_BLOCK_def)

declare stream_file_loop.simps [simp del]

definition ILibWebServer_StreamFileSendOK ::
  "web_socket \<Rightarrow> byte list option \<Rightarrow> ILibWebServer_Session \<Rightarrow> (byte list option \<times> ILibWebServer_Session) option" where
  "ILibWebServer_StreamFileSendOK sock pfile s = (case pfile of
     None \<Rightarrow> None
   | Some f \<Rightarrow> do {
       (f, len, status, s) \<leftarrow> stream_file_loop sock f s;
       if len < FILE_BLOCK \<or> \<not> status_ok status then do {
         (r, s) \<leftarrow> ILibWebServer_StreamBody sock [] Done s;
         Some (None, s) }
       else Some (Some f, s) })"

text \<open>The handler of the event that the socket could send, once a file is streamed.\<close>

definition file_send_ok ::
  "web_socket \<Rightarrow> byte list option \<Rightarrow> ILibWebServer_Session \<Rightarrow> (byte list option \<times> ILibWebServer_Session) option" where
  "file_send_ok sock pfile s = do {
     (tell, s) \<leftarrow> ILibWebServer_OnSendOK s;
     if tell then ILibWebServer_StreamFileSendOK sock pfile s else Some (pfile, s) }"

end
