(* ===== verification/HttpDispatch.thy ===== *)
theory HttpDispatch
  imports HttpStreaming
begin

text \<open>
  The requests of a session of the web server, from microstack/ILibWebServer.c: the handler of what the reader of the connection
  delivers, which asks for the host, finds the virtual directory for the first part of the path, or else calls the receiver of the session, and
  stops reading until the request is answered; the table of virtual directories; and the answers to what is not a request.

  The handlers are a parameter: from a call and the session to the session they leave.  Compiled without \<open>MAX_HTTP_HEADER_SIZE\<close> and \<open>MAX_HTTP_PACKET_SIZE\<close>.
\<close>

section \<open>Virtual directories\<close>

type_synonym directories = "nat HashNode_Root option"

text \<open>The results are those of the functions: 0, or 1 when the directory was there, or was not.\<close>

definition ILibWebServer_RegisterVirtualDirectory ::
  "directories \<Rightarrow> byte list \<Rightarrow> nat \<Rightarrow> nat \<Rightarrow> (directories \<times> int) option" where
  "ILibWebServer_RegisterVirtualDirectory dirs vd vdLength handler = do {
     let t = (case dirs of None \<Rightarrow> ILibInitHashTreeEx | Some t \<Rightarrow> t);
     h \<leftarrow> ILibHasEntry t vd vdLength;
     if h \<noteq> 0 then Some (Some t, 1)
     else do { t \<leftarrow> ILibAddEntry t vd vdLength (Some handler); Some (Some t, 0) } }"

definition ILibWebServer_UnRegisterVirtualDirectory :: "directories \<Rightarrow> byte list \<Rightarrow> nat \<Rightarrow> (directories \<times> int) option" where
  "ILibWebServer_UnRegisterVirtualDirectory dirs vd vdLength = (case dirs of None \<Rightarrow> None
   | Some t \<Rightarrow> do {
       h \<leftarrow> ILibHasEntry t vd vdLength;
       if h \<noteq> 0 then do { t \<leftarrow> ILibDeleteEntry t vd (int vdLength); Some (Some t, 0) }
       else Some (Some t, 1) })"

section \<open>Dispatching\<close>

type_synonym handlers = "dispatch_call \<Rightarrow> ILibWebServer_Session \<Rightarrow> ILibWebServer_Session"

definition call_handler :: "handlers \<Rightarrow> dispatch_call \<Rightarrow> ILibWebServer_Session \<Rightarrow> ILibWebServer_Session" where
  "call_handler user c s = user c (s\<lparr>dispatched := dispatched s @ [c]\<rparr>)"

text \<open>The first part of the path, as its place and length in the object of the request.\<close>

definition first_part :: "byte list \<Rightarrow> (nat \<times> nat) option" where
  "first_part obj = do {
     pr \<leftarrow> ILibParseString obj 0 (length obj) [47];
     (case pr of
        (d, 0) # (d', l) # _ \<Rightarrow> Some (d', l)
      | (d, Suc l) # _ \<Rightarrow> Some (d, Suc l)
      | _ \<Rightarrow> None) }"

text \<open>A virtual directory is looked for once for a request; the object of the request is then what follows its name.\<close>

definition dispatch_request ::
  "directories \<Rightarrow> bool \<Rightarrow> handlers \<Rightarrow> packetheader \<Rightarrow> ILibWebClient_ReceiveStatus \<Rightarrow> byte list
     \<Rightarrow> ILibWebServer_Session \<Rightarrow> ILibWebServer_Session option" where
  "dispatch_request dirs has_receiver user hdr status body s = (case dirs of
     None \<Rightarrow> Some (if has_receiver then call_handler user (To_Receiver hdr status body) s else s)
   | Some t \<Rightarrow> (case VirtualDirectory s of
       Some vd \<Rightarrow> if \<not> OverrideVirDirStruct s then Some (call_handler user (To_Directory vd hdr status body) s)
         else if has_receiver then Some (call_handler user (To_Receiver hdr status body) s) else None
     | None \<Rightarrow> do {
         (d, l) \<leftarrow> first_part (DirectiveObj hdr);
         h \<leftarrow> ILibHasEntry t (slice (DirectiveObj hdr) d l) l;
         if h \<noteq> 0 then do {
           vd \<leftarrow> ILibGetEntry t (slice (DirectiveObj hdr) d l) l;
           let hdr = hdr\<lparr>DirectiveObj := drop (d + l) (DirectiveObj hdr)\<rparr>;
           let s = s\<lparr>VirtualDirectory := vd, WebClientDataObject := (WebClientDataObject s)\<lparr>header := Some hdr\<rparr>\<rparr>;
           Some (case vd of None \<Rightarrow> s | Some vd \<Rightarrow> call_handler user (To_Directory vd hdr status body) s) }
         else Some (if has_receiver then call_handler user (To_Receiver hdr status body) s else s) }))"

text \<open>A handler of the events of the reader; the second result: stop reading from the socket.\<close>

definition ILibWebServer_OnResponse ::
  "web_socket \<Rightarrow> directories \<Rightarrow> bool \<Rightarrow> handlers \<Rightarrow> bool \<Rightarrow> packetheader option \<Rightarrow> ILibWebClient_ReceiveStatus \<Rightarrow> byte list
     \<Rightarrow> ILibWebServer_Session \<Rightarrow> (ILibWebServer_Session \<times> bool) option" where
  "ILibWebServer_OnResponse sock dirs has_receiver user interrupted hdr status body s = (case hdr of
     None \<Rightarrow> Some (s, False)
   | Some hdr \<Rightarrow> do {
       let s = (if RequestAnsweredFlag s \<or> \<not> RequestMadeFlag s
          then do_action RemoveIdleTimer (s\<lparr>RequestAnsweredFlag := False, RequestMadeFlag := True, RequestAnsweredMethod := False\<rparr>) else s);
       let request = (status = Complete \<and> Directive hdr \<noteq> []);
       v11 \<leftarrow> (if request then version_above_1 (Version hdr) else Some False);
       (host, n) \<leftarrow> (if v11 then ILibGetHeaderLineEx hdr (str ''host'' @ [0]) 4 else Some (None, 0));
       if v11 \<and> host = None then do {
         (r, s) \<leftarrow> ILibWebServer_Send_Raw sock (str ''HTTP/1.1 400 Bad Request (Missing Host Field)'' @ [13, 10, 13, 10]) Done s;
         Some (s, False) }
       else do {
         (key, n) \<leftarrow> (if request then ILibGetHeaderLineEx hdr (str ''Sec-WebSocket-Key'' @ [0]) 17 else Some (None, 0));
         let s = (if request then s\<lparr>WebSocketRequested := (key \<noteq> None)\<rparr> else s);
         s \<leftarrow> dispatch_request dirs has_receiver user hdr status body s;
         Some (s, status = Complete \<and> \<not> interrupted \<and> \<not> RequestAnsweredMethod s) } })"

section \<open>What is not a request\<close>

definition HTTP_MAX_HEADER_SIZE :: nat where "HTTP_MAX_HEADER_SIZE = 4096"

text \<open>
  The answer to a result of the reader (\<open>ILibWebClient_OnData\<close>) that consumed \<open>taken\<close> of \<open>offered\<close> bytes: to a header that is too long, to something
  that is not a request and to an invalid length, after each of which the connection is closed.
\<close>

definition refuse :: "web_socket \<Rightarrow> string \<Rightarrow> ILibWebServer_Session \<Rightarrow> ILibWebServer_Session option" where
  "refuse sock reason s = map_option snd (ILibWebServer_Send_Raw sock
     (str ''HTTP/1.1 '' @ str reason @ [13, 10] @ str ''Connection: close'' @ [13, 10, 13, 10]) Done (s\<lparr>CloseOverrideFlag := True\<rparr>))"

definition ILibWebServer_OnReceive ::
  "web_socket \<Rightarrow> ILibWebClient_DataResults \<Rightarrow> nat \<Rightarrow> nat \<Rightarrow> ILibWebServer_Session \<Rightarrow> ILibWebServer_Session option" where
  "ILibWebServer_OnReceive sock r taken offered s = (case r of
     DataResults_OK \<Rightarrow>
       if taken = 0 \<and> HTTP_MAX_HEADER_SIZE \<le> offered \<and> \<not> FinHeader (WebClientDataObject s)
       then refuse sock ''431 Header size too big'' s else Some s
   | InvalidRequest \<Rightarrow> refuse sock ''400 Bad Request'' s
   | InvalidContentLength \<Rightarrow> refuse sock ''400 Invalid content length'' s)"

text \<open>
  The loop of the socket on a session that is not a WebSocket: each offer goes to \<open>ILibWebClient_OnData\<close> and then through the switch on its result.
\<close>

function server_drain ::
  "web_socket \<Rightarrow> http_user \<Rightarrow> byte list \<Rightarrow> ILibWebServer_Session \<Rightarrow> (ILibWebServer_Session \<times> byte list) option" where
  "server_drain sock user buffer s =
     (if buffer = [] \<or> \<not> connected (WebClientDataObject s) then Some (s, buffer)
      else case ILibWebClient_OnData user buffer (WebClientDataObject s) of
        None \<Rightarrow> None
      | Some (w, buffer', iPointer, r) \<Rightarrow>
          (case ILibWebServer_OnReceive sock r iPointer (length buffer) (s\<lparr>WebClientDataObject := w\<rparr>) of
             None \<Rightarrow> None
           | Some s \<Rightarrow>
               if iPointer = 0 then Some (s, buffer')
               else if length buffer < iPointer \<or> length buffer' \<noteq> length buffer then None
               else server_drain sock user (drop iPointer buffer') s))"
  by pat_completeness auto
termination by (relation "measure (\<lambda>(sock, user, buffer, s). length buffer)") auto

declare server_drain.simps [simp del]

fun server_receives ::
  "web_socket \<Rightarrow> http_user \<Rightarrow> byte list list \<Rightarrow> ILibWebServer_Session \<times> byte list \<Rightarrow> (ILibWebServer_Session \<times> byte list) option" where
  "server_receives sock user [] conn = Some conn"
| "server_receives sock user (d # ds) (s, buffer) = do {
     conn \<leftarrow> server_drain sock user (buffer @ d) s; server_receives sock user ds conn }"

end
