(* ===== verification/HttpRequests.thy ===== *)
theory HttpRequests
  imports HttpHeaders HttpDispatch
begin

text \<open>
  Requests on a connection of the web server: from the bytes that arrive, cut into reads in any way, to the requests and bodies its user is given.
\<close>

section \<open>Requests\<close>

datatype http_body =
    NoBody
  | FixedBody "byte list"
  | ChunkedBody "(byte list \<times> byte list) list" "byte list" "byte list list"

fun body_text :: "http_body \<Rightarrow> byte list" where
  "body_text NoBody = []"
| "body_text (FixedBody d) = d"
| "body_text (ChunkedBody cs t trs) = encoded cs t trs"

fun body_data :: "http_body \<Rightarrow> byte list" where
  "body_data NoBody = []"
| "body_data (FixedBody d) = d"
| "body_data (ChunkedBody cs t trs) = concat (map snd cs)"

text \<open>The header lines that go with a body.\<close>

fun body_lines :: "http_body \<Rightarrow> (byte list \<times> byte list) list \<Rightarrow> bool" where
  "body_lines NoBody hs \<longleftrightarrow> \<not> chunked_lines hs \<and> length_lines hs = {}"
| "body_lines (FixedBody d) hs \<longleftrightarrow> \<not> chunked_lines hs \<and> length_lines hs = {dec_string (length d)} \<and> length d \<le> INT32_MAX"
| "body_lines (ChunkedBody cs t trs) hs \<longleftrightarrow> chunked_lines hs \<and> length_lines hs = {} \<and> body_ok cs t trs"

record http_request =
  verb :: "byte list"
  target :: "byte list"
  version :: "byte list"
  lines :: "(byte list \<times> byte list) list"
  body :: http_body

definition header_text_of :: "http_request \<Rightarrow> byte list" where
  "header_text_of r = request_header (verb r) (target r) (version r) (lines r)"

definition request_text :: "http_request \<Rightarrow> byte list" where
  "request_text r = header_text_of r @ body_text (body r)"

definition request_fits :: "http_request \<Rightarrow> bool" where
  "request_fits r \<longleftrightarrow> request_ok (verb r) (target r) (version r) (lines r) \<and> version r \<in> {str ''1.0'', str ''1.1''}
     \<and> body_lines (body r) (lines r) \<and> length (header_text_of r) \<le> INT32_MAX"

definition header_of :: "http_request \<Rightarrow> packetheader \<Rightarrow> bool" where
  "header_of r P \<longleftrightarrow> packet_is (verb r) (target r) (version r) (lines r) P"

text \<open>The requests a user has seen: what came with \<open>Complete\<close>, behind what it consumed before.\<close>

fun seen_step :: "(packetheader option \<times> byte list) list \<times> byte list \<Rightarrow> http_event \<Rightarrow> (packetheader option \<times> byte list) list \<times> byte list" where
  "seen_step (got, part) (Answer st h d n) =
     (if st = Complete then (got @ [(h, part @ d)], []) else (got, part @ take n d))"
| "seen_step s e = s"

definition seen :: "http_event list \<Rightarrow> (packetheader option \<times> byte list) list \<times> byte list" where
  "seen es = foldl seen_step ([], []) es"

definition is_request :: "packetheader option \<times> byte list \<Rightarrow> http_request \<Rightarrow> bool" where
  "is_request hb r \<longleftrightarrow> (\<exists>P. fst hb = Some P \<and> header_of r P) \<and> snd hb = body_data (body r)"

section \<open>The place in the stream\<close>

definition serving :: "ILibWebClientDataObject \<Rightarrow> bool" where
  "serving w \<longleftrightarrow> Server w = 1 \<and> \<not> IsWebSocket w \<and> connected w \<and> \<not> NeedFlush w \<and> \<not> errno_range w \<and> can_respond w
     \<and> \<not> IsHeadRequest (hd (RequestQueue w))"

definition between_requests :: "ILibWebClientDataObject \<Rightarrow> bool" where
  "between_requests w \<longleftrightarrow> serving w \<and> \<not> FinHeader w \<and> \<not> Chunked w \<and> header w = None \<and> chunk w = None"

definition texts :: "http_request list \<Rightarrow> byte list" where
  "texts rs = concat (map request_text rs)"

text \<open>No \<open>int\<close> that counts bytes overflows.\<close>

definition small :: "byte list \<Rightarrow> bool" where
  "small T \<longleftrightarrow> length T + INITIAL_BUFFER_SIZE \<le> INT32_MAX"

lemma small_less: "small T \<Longrightarrow> length T' \<le> length T \<Longrightarrow> small T'"
  by (simp add: small_def)

text \<open>
  \<open>ex\<close> are the requests that are not complete, each with what is still missing of its body; \<open>T\<close> is the text that was not consumed.
\<close>

definition whole :: "http_request list \<Rightarrow> (http_request \<times> byte list) list" where
  "whole rs = map (\<lambda>r. (r, body_data (body r))) rs"

inductive at :: "ILibWebClientDataObject \<Rightarrow> byte list \<Rightarrow> (http_request \<times> byte list) list \<Rightarrow> bool" where
  at_start: "between_requests w \<Longrightarrow> \<forall>r \<in> set rs. request_fits r \<Longrightarrow> small (texts rs) \<Longrightarrow> at w (texts rs) (whole rs)"
| at_fixed: "serving w \<Longrightarrow> FinHeader w \<Longrightarrow> \<not> Chunked w \<Longrightarrow> \<not> WaitForClose w \<Longrightarrow> D \<noteq> [] \<Longrightarrow> BytesLeft w = int (length D)
    \<Longrightarrow> header w = Some P \<Longrightarrow> header_of r P \<Longrightarrow> chunk w = None \<Longrightarrow> \<forall>r \<in> set rs. request_fits r
    \<Longrightarrow> small (D @ texts rs) \<Longrightarrow> at w (D @ texts rs) ((r, D) # whole rs)"
| at_chunk: "serving w \<Longrightarrow> reading w \<Longrightarrow> header w = Some P \<Longrightarrow> header_of r P \<Longrightarrow> \<forall>r \<in> set rs. request_fits r
    \<Longrightarrow> chunk_at (texts rs) (cur_chunk w) T D \<Longrightarrow> at w T ((r, chunk_buffer (cur_chunk w) @ D) # whole rs)"

text \<open>What was seen and what is missing make up all the requests \<open>rs0\<close>.\<close>

definition books :: "http_request list \<Rightarrow> ILibWebClientDataObject \<Rightarrow> (http_request \<times> byte list) list \<Rightarrow> bool" where
  "books rs0 w ex \<longleftrightarrow> (\<exists>got part rs. seen (events w) = (got, part) \<and> list_all2 is_request got rs \<and> rs0 = rs @ map fst ex
     \<and> (case ex of [] \<Rightarrow> part = [] | (r, b) # _ \<Rightarrow> part @ b = body_data (body r)))"

text \<open>The state when a request was completed, and the user has answered it.\<close>

definition answered :: "ILibWebClientDataObject \<Rightarrow> byte list \<Rightarrow> nat \<Rightarrow> ILibWebClientDataObject" where
  "answered w d n = ILibWebClient_ResetWCDO (w\<lparr>events := events w @ [Answer Complete (header w) d n]\<rparr>)"

lemma seen_append: "seen (es @ [e]) = seen_step (seen es) e"
  by (simp add: seen_def)

lemma answered_facts [simp]:
  "between_requests (answered w d n) \<longleftrightarrow> serving w"
  "events (answered w d n) = events w @ [Answer Complete (header w) d n]"
  by (auto simp: between_requests_def answered_def ILibWebClient_ResetWCDO_def serving_def can_respond_def)

lemma books_answered:
  assumes "books rs0 w ((r, d) # whole rs)" "header w = Some P" "header_of r P" "between_requests w'"
    and "events w' = events w @ [Answer Complete (header w) d n]"
  shows "books rs0 w' (whole rs)"
proof -
  obtain got part qs where b: "seen (events w) = (got, part)" "list_all2 is_request got qs" "rs0 = qs @ r # map fst (whole rs)"
    "part @ d = body_data (body r)"
    using assms(1) by (auto simp: books_def)
  have "seen (events w') = (got @ [(header w, part @ d)], [])" using b(1) assms(5) by (simp add: seen_append)
  moreover have "list_all2 is_request (got @ [(header w, part @ d)]) (qs @ [r])"
    using b(2,4) assms(2,3) by (intro list_all2_appendI) (auto simp: is_request_def)
  moreover have "case whole rs of [] \<Rightarrow> [] = [] | (r, b) # _ \<Rightarrow> [] @ b = body_data (body r)"
    by (cases rs) (simp_all add: whole_def)
  ultimately show ?thesis using b(3) unfolding books_def by (intro exI conjI) auto
qed

lemma books_more:
  assumes "books rs0 w ((r, b) # ex)" "events w' = events w @ [Answer MoreDataToBeReceived h x n]" "b = take n x @ b'"
  shows "books rs0 w' ((r, b') # ex)"
  using assms by (auto simp: books_def seen_append)

section \<open>One call\<close>

text \<open>\<open>b\<close> is in the buffer, \<open>fut\<close> did not arrive yet.\<close>

definition stepped :: "http_request list \<Rightarrow> http_user \<Rightarrow> byte list \<Rightarrow> byte list \<Rightarrow> ILibWebClientDataObject \<Rightarrow> bool" where
  "stepped rs0 user b fut w \<longleftrightarrow> (\<exists>w' b' p ex. ILibWebClient_OnData user b w = Some (w', b', p, DataResults_OK) \<and> p \<le> length b
     \<and> length b' = length b \<and> drop p b' = drop p b \<and> at w' (drop p (b @ fut)) ex \<and> books rs0 w' ex \<and> (p = 0 \<longrightarrow> fut \<noteq> [])
     \<and> (p = 0 \<and> \<not> FinHeader w' \<longrightarrow> (\<exists>r \<in> set rs0. length b < length (header_text_of r))))"

lemma steppedI:
  assumes "ILibWebClient_OnData user b w = Some (w', b', p, DataResults_OK)" "p \<le> length b" "length b' = length b" "drop p b' = drop p b"
    and "at w' T ex" "drop p (b @ fut) = T" "books rs0 w' ex" "p = 0 \<Longrightarrow> fut \<noteq> []"
    and "p = 0 \<Longrightarrow> FinHeader w' \<or> (\<exists>r \<in> set rs0. length b < length (header_text_of r))"
  shows "stepped rs0 user b fut w"
  using assms unfolding stepped_def by blast

lemma respond_more:
  assumes "whole_user True user"
  obtains n where "n = 0 \<or> n = length d" "respond user MoreDataToBeReceived d w = (emit (Answer MoreDataToBeReceived (header w) d n) w, n)"
  using respond_whole [OF assms, of d MoreDataToBeReceived w] by auto

lemma respond_complete:
  assumes "whole_user True user" "\<not> Chunked w"
  obtains n where "n = 0 \<or> n = length d" "respond user Complete d w = (answered w d n, n)"
  using respond_whole [OF assms(1), of d Complete w] assms(2)
  by (auto simp: ILibWebClient_FinishedResponse_Server_def answered_def emit_def)

lemma finished_serving: "serving w \<Longrightarrow> ILibWebClient_FinishedResponse w = w"
  by (simp add: ILibWebClient_FinishedResponse_def serving_def)

lemma serving_cong:
  "serving (w\<lparr>events := es\<rparr>) = serving w" "serving (w\<lparr>BytesLeft := n\<rparr>) = serving w" "serving (w\<lparr>header := h\<rparr>) = serving w"
  "serving (w\<lparr>HeaderLength := m\<rparr>) = serving w" "serving (w\<lparr>chunk := k\<rparr>) = serving w" "serving (w\<lparr>FinHeader := f\<rparr>) = serving w"
  "serving (w\<lparr>WaitForClose := f\<rparr>) = serving w" "serving (w\<lparr>Chunked := f\<rparr>) = serving w"
  "serving (w\<lparr>ConnectionCloseSpecified := f\<rparr>) = serving w"
  by (simp_all add: serving_def can_respond_def)

lemma between_BytesLeft: "between_requests (w\<lparr>BytesLeft := n\<rparr>) = between_requests w"
  by (simp add: between_requests_def serving_cong)

lemma step_fixed:
  assumes "whole_user True user" "serving w" "FinHeader w" "\<not> Chunked w" "\<not> WaitForClose w" "D \<noteq> []" "BytesLeft w = int (length D)"
    and "header w = Some P" "header_of r P" "chunk w = None" "\<forall>r \<in> set rs. request_fits r"
    and "b @ fut = D @ texts rs" "b \<noteq> []" "books rs0 w ((r, D) # whole rs)" "small (D @ texts rs)"
  shows "stepped rs0 user b fut w"
proof -
  have on: "ILibWebClient_OnData user b w = map_option (\<lambda>(w, p). (w, b, p, DataResults_OK)) (more_body user b w)"
    using assms(2,3) by (cases "more_body user b w") (auto simp: ILibWebClient_OnData_def serving_def can_respond_def split: list.split)
  have cr: "can_respond w" using assms(2) by (simp add: serving_def)
  show ?thesis
  proof (cases "length D \<le> length b")
    case True
    then have bD: "take (length D) b = D" using arg_cong [OF assms(12), of "take (length D)"] by simp
    obtain n where n: "n = 0 \<or> n = length D" "respond user Complete D w = (answered w D n, n)"
      using respond_complete [OF assms(1,4)] by blast
    let ?w = "(answered w D n)\<lparr>BytesLeft := int (length D) - int n\<rparr>"
    have bl: "BytesLeft (answered w D n) = int (length D)" "WaitForClose (answered w D n) = False"
      using assms(7) by (simp_all add: answered_def ILibWebClient_ResetWCDO_def)
    have m: "more_body user b w = Some (?w, length D)"
      using assms(4,5,7) True cr n bD bl finished_serving [of ?w] assms(2)
      by (auto simp: more_body_def Let_def serving_cong answered_def ILibWebClient_ResetWCDO_def serving_def can_respond_def)
    have bt: "between_requests ?w" using assms(2) by (simp add: between_BytesLeft)
    show ?thesis
    proof (rule steppedI)
      show "books rs0 ?w (whole rs)" by (rule books_answered [OF assms(14,8,9) bt]) simp
      show "at ?w (texts rs) (whole rs)" by (rule at_start [OF bt assms(11) small_less [OF assms(15)]]) simp
      show "ILibWebClient_OnData user b w = Some (?w, b, length D, DataResults_OK)" using on m by simp
    qed (use True assms(6,12) in simp_all)
  next
    case False
    obtain n where n: "n = 0 \<or> n = length b" "respond user MoreDataToBeReceived b w = (emit (Answer MoreDataToBeReceived (header w) b n) w, n)"
      using respond_more [OF assms(1)] by blast
    let ?w = "w\<lparr>events := events w @ [Answer MoreDataToBeReceived (header w) b n], BytesLeft := int (length D) - int n\<rparr>"
    have m: "more_body user b w = Some (?w, n)"
      using assms(4,5,7) False cr n by (simp add: more_body_def Let_def emit_def)
    obtain D' where D: "D = b @ D'" "fut = D' @ texts rs" using assms(12) False by (auto simp: append_eq_append_conv2)
    have D': "D' \<noteq> []" using D(1) False by auto
    have dn: "drop n D = drop n b @ D'" "take n b @ drop n D = D" "n \<le> length b" using n(1) D(1) by auto
    show ?thesis
    proof (rule steppedI)
      show "at ?w (drop n D @ texts rs) ((r, drop n D) # whole rs)"
        using assms(2-5,8-11) D' dn(1,3) D(1) small_less [OF assms(15)] by (intro at_fixed) (simp_all add: serving_cong)
      show "books rs0 ?w ((r, drop n D) # whole rs)"
        by (rule books_more [where h = "header w" and x = b and n = n, OF assms(14)]) (simp_all add: dn(2))
      show "ILibWebClient_OnData user b w = Some (?w, b, n, DataResults_OK)" using on m by simp
    qed (use D dn D' assms(3) in simp_all)
  qed
qed

text \<open>The header is complete: what is left is the first look at the body.\<close>

lemma versions: "version_above_1 (str ''1.0'') = Some False" "version_above_1 (str ''1.1'') = Some True"
  by (simp_all add: version_above_1_def is_digit_def str_def Let_def)

definition has_header :: "http_request \<Rightarrow> packetheader \<Rightarrow> bool \<Rightarrow> bool \<Rightarrow> ILibWebClientDataObject \<Rightarrow> ILibWebClientDataObject" where
  "has_header r P cl wfc w = w\<lparr>FinHeader := True, HeaderLength := length (header_text_of r), header := Some P, ConnectionCloseSpecified := cl, WaitForClose := wfc,
     Chunked := (case body r of ChunkedBody cs t trs \<Rightarrow> True | _ \<Rightarrow> False),
     BytesLeft := (case body r of NoBody \<Rightarrow> 0 | FixedBody d \<Rightarrow> int (length d) | ChunkedBody cs t trs \<Rightarrow> -1)\<rparr>"

lemma after_header_lines:
  fixes w P hl
  defines "w1 \<equiv> w\<lparr>HeaderLength := hl, WaitForClose := True, BytesLeft := -1, FinHeader := True, header := Some P, errno_range := False\<rparr>"
  assumes "serving w" "\<not> Chunked w" "packet_is m t ver hs P" "ver \<in> {str ''1.0'', str ''1.1''}" "RequestQueue w = req # q"
    and "length_lines hs \<subseteq> {l}" "n \<le> INT32_MAX" "\<And>k. ILib_atoi2_int32 False (l @ [0]) k = Some (n, False)"
  shows "\<exists>cl wfc. (chunked_lines hs \<or> length_lines hs \<noteq> {} \<longrightarrow> \<not> wfc) \<and> after_header user req P i x w1
    = map_option (\<lambda>(w, p). (w, p, DataResults_OK)) (first_body user i x (w\<lparr>FinHeader := True, HeaderLength := hl, header := Some P,
        ConnectionCloseSpecified := cl, WaitForClose := wfc, Chunked := chunked_lines hs,
        BytesLeft := (if length_lines hs \<noteq> {} then int n else if chunked_lines hs then -1 else 0)\<rparr>))"
proof -
  have P: "StatusCode P = -1" "Fields P = map (\<lambda>(f, d). \<lparr>Field = f, FieldData = d\<rparr>) hs" "Version P = ver"
    using assms(4) by (simp_all add: packet_is_def)
  have "\<exists>v. version_above_1 ver = Some v" using assms(5) versions by auto
  then obtain v where v: "version_above_1 ver = Some v" by blast
  have s: "Server w = 1" "\<not> IsHeadRequest req" "errno_range w = False" using assms(2,6) by (auto simp: serving_def)
  let ?ch = "chunked_lines hs" and ?no = "length_lines hs = {}" and ?cl = "close_lines hs"
  define wfc where "wfc = (\<not> ?ch \<and> ?no \<and> \<not> (v \<and> \<not> (ConnectionCloseSpecified w \<or> ?cl)))"
  define w3 where "w3 = w1\<lparr>WaitForClose := \<not> ?ch \<and> ?no, Chunked := ?ch, ConnectionCloseSpecified := ConnectionCloseSpecified w \<or> ?cl,
    BytesLeft := if ?no then -1 else int n\<rparr>"
  define w4 where "w4 = (if v \<and> \<not> Chunked w3 \<and> \<not> ConnectionCloseSpecified w3 \<and> WaitForClose w3
    then w3\<lparr>WaitForClose := False, BytesLeft := 0\<rparr> else w3)"
  define w5 where "w5 = (if BytesLeft w4 = -1 \<and> \<not> Chunked w4 then w4\<lparr>BytesLeft := 0\<rparr> else w4)"
  have I: "introspect (Fields P) w1 = Some (w3, False)"
    using introspect_lines [OF assms(7,8) _ assms(9), of w1] assms(3) unfolding P(2) w3_def by (simp add: w1_def)
  have s3: "Server w3 = 1" using s(1) by (simp add: w3_def w1_def)
  then have s4: "Server w4 = 1" by (simp add: w4_def)
  have "after_header user req P i x w1 = map_option (\<lambda>(w, p). (w, p, DataResults_OK)) (first_body user i x w5)"
    using s s3 s4 by (cases "first_body user i x w5")
      (auto simp: after_header_def w1_def P(1,3) I [unfolded w1_def] v w4_def [symmetric] w5_def Let_def split: if_splits prod.splits)
  moreover have "w5 = w\<lparr>FinHeader := True, HeaderLength := hl, header := Some P, ConnectionCloseSpecified := ConnectionCloseSpecified w \<or> ?cl,
      WaitForClose := wfc, Chunked := ?ch, BytesLeft := (if \<not> ?no then int n else if ?ch then -1 else 0)\<rparr>"
    using s(3) unfolding w5_def w4_def w3_def w1_def wfc_def by (cases w) auto
  moreover have "?ch \<or> \<not> ?no \<longrightarrow> \<not> wfc" by (auto simp: wfc_def)
  ultimately show ?thesis by metis
qed

lemma after_header_body:
  assumes "serving w" "\<not> Chunked w" "header_of r P" "request_fits r" "RequestQueue w = req # q"
  shows "\<exists>cl wfc. (body r \<noteq> NoBody \<longrightarrow> \<not> wfc) \<and> after_header user req P i x
      (w\<lparr>HeaderLength := length (header_text_of r), WaitForClose := True, BytesLeft := -1, FinHeader := True, header := Some P, errno_range := False\<rparr>)
    = map_option (\<lambda>(w, p). (w, p, DataResults_OK)) (first_body user i x (has_header r P cl wfc w))"
proof -
  define n where "n = (case body r of FixedBody d \<Rightarrow> length d | _ \<Rightarrow> 0)"
  let ?hs = "lines r"
  have ll: "length_lines ?hs \<subseteq> {dec_string n}" "n \<le> INT32_MAX"
    using assms(4) by (auto simp: request_fits_def n_def split: http_body.split)
  have v: "version r \<in> {str ''1.0'', str ''1.1''}" using assms(4) by (simp add: request_fits_def)
  obtain cl wfc where A: "chunked_lines ?hs \<or> length_lines ?hs \<noteq> {} \<longrightarrow> \<not> wfc" "after_header user req P i x
      (w\<lparr>HeaderLength := length (header_text_of r), WaitForClose := True, BytesLeft := -1, FinHeader := True, header := Some P, errno_range := False\<rparr>)
    = map_option (\<lambda>(w, p). (w, p, DataResults_OK)) (first_body user i x (w\<lparr>FinHeader := True, HeaderLength := length (header_text_of r),
        header := Some P, ConnectionCloseSpecified := cl, WaitForClose := wfc, Chunked := chunked_lines ?hs,
        BytesLeft := (if length_lines ?hs \<noteq> {} then int n else if chunked_lines ?hs then -1 else 0)\<rparr>))"
    using after_header_lines [OF assms(1,2) assms(3) [unfolded header_of_def] v assms(5) ll content_length [OF ll(2)], of user i x] by blast
  have "w\<lparr>FinHeader := True, HeaderLength := length (header_text_of r), header := Some P, ConnectionCloseSpecified := cl, WaitForClose := wfc,
      Chunked := chunked_lines ?hs, BytesLeft := (if length_lines ?hs \<noteq> {} then int n else if chunked_lines ?hs then -1 else 0)\<rparr>
    = has_header r P cl wfc w" "body r \<noteq> NoBody \<longrightarrow> \<not> wfc"
    using assms(4) A(1) by (cases "body r"; simp add: has_header_def request_fits_def n_def)+
  then show ?thesis using A(2) by metis
qed

text \<open>The three kinds of bodies.\<close>

lemma header_facts:
  "serving (has_header r P cl wfc w) = serving w" "header (has_header r P cl wfc w) = Some P" "events (has_header r P cl wfc w) = events w"
  "FinHeader (has_header r P cl wfc w)" "chunk (has_header r P cl wfc w) = chunk w" "WaitForClose (has_header r P cl wfc w) = wfc"
  by (simp_all add: has_header_def serving_cong)

lemma header_clone:
  assumes "request_fits r" "header_of r P"
  obtains P' where "ILibClonePacket P = Some P'" "header_of r P'"
proof -
  have "\<forall>fd \<in> set (lines r). field_ok fd" using assms(1) by (simp add: request_fits_def request_ok_def)
  moreover have "length (verb r) \<le> INT32_MAX" "length (target r) \<le> INT32_MAX"
    using assms(1) by (simp_all add: request_fits_def header_text_of_def header_lines_concat)
  ultimately show ?thesis using clone_packet [of "verb r" "target r" "version r" "lines r" P] assms(2) that by (auto simp: header_of_def)
qed

text \<open>What the first look at the body does, with \<open>x\<close> behind the header.\<close>

definition looked :: "http_request list \<Rightarrow> http_request \<Rightarrow> http_request list \<Rightarrow> http_user \<Rightarrow> nat \<Rightarrow> byte list \<Rightarrow> byte list \<Rightarrow> ILibWebClientDataObject \<Rightarrow> bool" where
  "looked rs0 r rs user i x fut w \<longleftrightarrow> (\<exists>w' p ex. first_body user i x w = Some (w', i + p) \<and> p \<le> length x
     \<and> at w' (drop p (x @ fut)) ex \<and> books rs0 w' ex)"

lemma look_complete:
  assumes "whole_user True user" "serving w" "header_of r P" "\<forall>r \<in> set rs. request_fits r"
    and "body_data (body r) = []" "body r \<noteq> ChunkedBody cs t trs" "body_text (body r) = []" "x @ fut = texts rs"
    and "w' = has_header r P cl wfc w" "BytesLeft w' = 0" "\<not> Chunked w'" "books rs0 w' ((r, []) # whole rs)" "small (texts rs)"
  shows "looked rs0 r rs user i x fut w'"
proof -
  have s: "serving w'" "header w' = Some P" using assms(2,9) by (simp_all add: header_facts)
  then have cr: "can_respond w'" by (simp add: serving_def)
  obtain n where n: "n = 0 \<or> n = length []" "respond user Complete [] w' = (answered w' [] n, n)"
    using respond_complete [OF assms(1,11)] by blast
  have bt: "between_requests (answered w' [] n)" using s(1) by simp
  then have "first_body user i x w' = Some (answered w' [] n, i + 0)"
    using assms(10) cr n(2) finished_serving [of "answered w' [] n"] by (simp add: first_body_def Let_def between_requests_def)
  moreover have "books rs0 (answered w' [] n) (whole rs)" by (rule books_answered [OF assms(12) s(2) assms(3) bt]) simp
  moreover have "at (answered w' [] n) (texts rs) (whole rs)" by (rule at_start [OF bt assms(4,13)])
  ultimately show ?thesis using assms(8) unfolding looked_def by fastforce
qed

lemma look_fixed:
  assumes "whole_user True user" "serving w" "header_of r P" "\<forall>r \<in> set rs. request_fits r" "request_fits r"
    and "body r = FixedBody D" "D \<noteq> []" "x @ fut = D @ texts rs" "chunk w = None"
    and "w' = has_header r P cl False w" "books rs0 w' ((r, D) # whole rs)" "small (D @ texts rs)"
  shows "looked rs0 r rs user i x fut w'"
proof -
  have s: "serving w'" "header w' = Some P" "chunk w' = None" "FinHeader w'" "\<not> WaitForClose w'" using assms(2,9,10) by (simp_all add: header_facts)
  have h: "BytesLeft w' = int (length D)" "\<not> Chunked w'" using assms(6,10) by (simp_all add: has_header_def)
  have cr: "can_respond w'" using s(1) by (simp add: serving_def)
  show ?thesis
  proof (cases "length D \<le> length x")
    case True
    then have xD: "take (length D) x = D" using arg_cong [OF assms(8), of "take (length D)"] by simp
    obtain n where n: "n = 0 \<or> n = length D" "respond user Complete D w' = (answered w' D n, n)"
      using respond_complete [OF assms(1) h(2)] by blast
    have bt: "between_requests (answered w' D n)" using s(1) by simp
    then have "first_body user i x w' = Some (answered w' D n, i + length D)"
      using h True cr n xD assms(7) finished_serving [of "answered w' D n"] by (auto simp: first_body_def Let_def between_requests_def)
    moreover have "books rs0 (answered w' D n) (whole rs)" by (rule books_answered [OF assms(11) s(2) assms(3) bt]) simp
    moreover have "at (answered w' D n) (texts rs) (whole rs)" by (rule at_start [OF bt assms(4) small_less [OF assms(12)]]) simp
    moreover have "drop (length D) (x @ fut) = texts rs" using assms(8) by simp
    ultimately show ?thesis using True unfolding looked_def by fastforce
  next
    case False
    obtain n where n: "n = 0 \<or> n = length x"
      "respond user MoreDataToBeReceived x w' = (emit (Answer MoreDataToBeReceived (header w') x n) w', n)"
      using respond_more [OF assms(1)] by blast
    obtain P' where P': "ILibClonePacket P = Some P'" "header_of r P'" by (rule header_clone [OF assms(5,3)])
    let ?w = "(emit (Answer MoreDataToBeReceived (header w') x n) w')\<lparr>HeaderLength := 0, BytesLeft := int (length D) - int n, header := Some P'\<rparr>"
    have f: "first_body user i x w' = Some (?w, i + n)"
      using h False cr n s(2) P'(1) assms(7) by (simp add: first_body_def Let_def emit_def)
    obtain D' where D: "D = x @ D'" "fut = D' @ texts rs" using assms(8) False by (auto simp: append_eq_append_conv2)
    have D': "D' \<noteq> []" using D(1) False by auto
    have dn: "drop n D = drop n x @ D'" "take n x @ drop n D = D" "n \<le> length x" using n(1) D(1) by auto
    have "at ?w (drop n D @ texts rs) ((r, drop n D) # whole rs)"
      using s h(2) P'(2) assms(4) D' dn(1,3) D(1) small_less [OF assms(12)] by (intro at_fixed) (simp_all add: emit_def serving_cong)
    moreover have "books rs0 ?w ((r, drop n D) # whole rs)"
      by (rule books_more [where h = "header w'" and x = x and n = n, OF assms(11)]) (simp_all add: emit_def dn(2))
    moreover have "drop n (x @ fut) = drop n D @ texts rs" using D dn by simp
    ultimately show ?thesis using f dn(3) unfolding looked_def by metis
  qed
qed

lemma seen_more:
  "\<forall>e \<in> set es. more_event e \<Longrightarrow> foldl seen_step (got, part) es = (got, part @ consumed es)"
proof (induction es arbitrary: part)
  case (Cons e es)
  then obtain h d n where "e = Answer MoreDataToBeReceived h d n" by (cases e) (auto simp: more_event_def)
  then show ?case using Cons by simp
qed simp

lemma books_consumed:
  assumes "books rs0 w ((r, consumed es @ b) # ex)" "events w' = events w @ es" "\<forall>e \<in> set es. more_event e"
  shows "books rs0 w' ((r, b) # ex)"
  using assms(1,2) seen_more [OF assms(3)] by (auto simp: books_def seen_def)

lemma look_chunked:
  assumes "whole_user True user" "serving w" "header_of r P" "\<forall>r \<in> set rs. request_fits r" "request_fits r"
    and "body r = ChunkedBody cs t trs" "x @ fut = encoded cs t trs @ texts rs" "chunk w = None"
    and "w' = has_header r P cl False w" "books rs0 w' ((r, concat (map snd cs)) # whole rs)" "small (encoded cs t trs @ texts rs)"
  shows "looked rs0 r rs user i x fut w'"
proof -
  have s: "serving w'" "header w' = Some P" "chunk w' = None" "FinHeader w'" using assms(2,8,9) by (simp_all add: header_facts)
  have h: "BytesLeft w' = -1" "Chunked w'" using assms(6,9) by (simp_all add: has_header_def)
  have cr: "can_respond w'" using s(1) by (simp add: serving_def)
  let ?e = "Answer MoreDataToBeReceived (header w') [] 0" and ?T = "encoded cs t trs @ texts rs"
  have r0: "respond user MoreDataToBeReceived [] w' = (emit ?e w', 0)"
    using respond_more [OF assms(1), of "[]" w'] by (metis list.size(3))
  let ?w = "emit ?e w'"
  have c: "cur_chunk ?w = new_chunk" using s(3) by (simp add: cur_chunk_def emit_def)
  have ok: "body_ok cs t trs" using assms(5,6) by (simp add: request_fits_def)
  have "moved user (texts rs) ?T (concat (map snd cs)) x ?w"
    by (rule step_start [where cs = cs and t = t and trs = trs and fut = fut])
      (use assms(11) in \<open>simp_all add: c new_chunk_def buffer_ok_def ok assms(7) room_def small_def\<close>)
  then obtain c' p es D' where m: "ILibWebClient_ProcessChunk user x ?w = Some (?w\<lparr>chunk := Some c', events := events ?w @ es\<rparr>, p)"
    "p \<le> length x" "\<forall>e \<in> set es. more_event e" "chunk_at (texts rs) c' (drop p ?T) D'"
    "consumed es @ chunk_buffer c' @ D' = concat (map snd cs)"
    unfolding moved_def c new_chunk_def ILibWebClient_ChunkData.simps append_Nil by blast
  obtain P' where P': "ILibClonePacket P = Some P'" "header_of r P'" by (rule header_clone [OF assms(5,3)])
  let ?w2 = "?w\<lparr>chunk := Some c', events := events ?w @ es, header := Some P'\<rparr>"
  have f: "first_body user i x w' = Some (?w2, i + p)"
    using h cr r0 s(2-4) m(1) P'(1) by (simp add: first_body_def Let_def emit_def)
  have cc: "cur_chunk ?w2 = c'" by (simp add: cur_chunk_def)
  have "reading ?w2" using s(1,4) h(2) by (simp add: reading_def serving_def can_respond_def emit_def)
  moreover have "serving ?w2" using s(1) by (simp add: emit_def serving_cong)
  ultimately have "at ?w2 (drop p ?T) ((r, chunk_buffer (cur_chunk ?w2) @ D') # whole rs)"
    using P'(2) assms(4) m(4) cc by (intro at_chunk) simp_all
  moreover have "books rs0 ?w2 ((r, chunk_buffer (cur_chunk ?w2) @ D') # whole rs)"
  proof -
    have b0: "books rs0 w' ((r, consumed (?e # es) @ chunk_buffer c' @ D') # whole rs)" using assms(10) m(5) by simp
    show ?thesis unfolding cc
    proof (rule books_consumed [OF b0])
      show "events ?w2 = events w' @ ?e # es" by (simp add: emit_def)
      show "\<forall>e \<in> set (?e # es). more_event e" using m(3) by (simp add: more_event_def)
    qed
  qed
  ultimately show ?thesis using f m(2) assms(7) unfolding looked_def by metis
qed

lemma step_header:
  assumes "whole_user True user" "between_requests w" "\<forall>r \<in> set rs. request_fits r" "b @ fut = texts rs" "b \<noteq> []" "last b \<noteq> 13"
    and "small (texts rs)" "books rs0 w (whole rs)"
  shows "stepped rs0 user b fut w"
proof -
  have lb: "length b \<le> INT32_MAX" using assms(7) arg_cong [OF assms(4), of length] by (simp add: small_def)
  obtain r rs' where rs: "rs = r # rs'" using assms(4,5) by (cases rs) (auto simp: texts_def)
  let ?H = "header_text_of r"
  have T: "b @ fut = ?H @ body_text (body r) @ texts rs'" using assms(4) rs by (simp add: texts_def request_text_def)
  have fits: "request_fits r" "\<forall>r \<in> set rs'. request_fits r" using assms(3) rs by simp_all
  then have rok: "request_ok (verb r) (target r) (version r) (lines r)" by (simp add: request_fits_def)
  have sv: "serving w" "\<not> FinHeader w" "\<not> Chunked w" "header w = None" "chunk w = None" using assms(2) by (simp_all add: between_requests_def)
  then obtain req q where rq: "RequestQueue w = req # q" "has_OnResponse req" by (auto simp: serving_def can_respond_def split: list.splits)
  have e: "errno_range w = False" "\<not> IsWebSocket w" "Server w = 1" using sv(1) by (simp_all add: serving_def)
  have he: "header_end False b 0 = (if length ?H \<le> length b then Some (length ?H - 4) else None)"
    using request_header_end [OF rok, of b fut "body_text (body r) @ texts rs'"] T by (simp add: header_text_of_def)
  show ?thesis
  proof (cases "length ?H \<le> length b")
    case False
    then have "fut \<noteq> []" using arg_cong [OF T, of length] by auto
    moreover have "ILibWebClient_OnData user b w = Some (w, b, 0, DataResults_OK)"
      using False he sv e rq by (simp add: ILibWebClient_OnData_def)
    moreover have "at w (b @ fut) (whole rs)" using at_start [OF assms(2,3,7)] assms(4) by simp
    moreover have "r \<in> set rs0" using assms(8) rs by (auto simp: books_def whole_def)
    ultimately show ?thesis using assms(8) False by (intro steppedI [where p = 0]) (auto simp: not_le)
  next
    case True
    define x where "x = drop (length ?H) b"
    have bx: "b = ?H @ x" using append_prefix [OF T True] by (simp add: x_def)
    have xT: "x @ fut = body_text (body r) @ texts rs'" using T unfolding bx by simp
    have lx: "x = [] \<or> last x \<noteq> 13" using assms(6) by (auto simp: bx)
    obtain b' P where P: "ILibParsePacketHeader False b 0 (length b) = Some (b', Some P, False)" "header_of r P"
      "length b' = length b" "drop (length ?H) b' = x"
      using parse_request_in_buffer [OF rok lb _ lx, of False] bx by (auto simp: header_of_def header_text_of_def)
    have H4: "4 \<le> length ?H" by (simp add: header_text_of_def header_lines_concat)
    obtain cl wfc where A: "body r \<noteq> NoBody \<longrightarrow> \<not> wfc" "after_header user req P (length ?H) x
      (w\<lparr>HeaderLength := length ?H, WaitForClose := True, BytesLeft := -1, FinHeader := True, header := Some P, errno_range := False\<rparr>)
      = map_option (\<lambda>(w, p). (w, p, DataResults_OK)) (first_body user (length ?H) x (has_header r P cl wfc w))"
      using after_header_body [OF sv(1,3) P(2) fits(1) rq(1), of user "length ?H" x] by blast
    let ?w = "has_header r P cl wfc w"
    have sm: "small (texts rs')" "small (body_text (body r) @ texts rs')"
      using small_less [OF assms(7)] rs by (simp_all add: texts_def request_text_def)
    have on: "ILibWebClient_OnData user b w = map_option (\<lambda>(w, p). (w, b', p, DataResults_OK)) (first_body user (length ?H) x ?w)"
      using True he sv e rq P H4 A(2)
      by (cases "first_body user (length ?H) x ?w") (auto simp: ILibWebClient_OnData_def Let_def)
    have bk: "books rs0 ?w ((r, body_data (body r)) # whole rs')"
      using assms(8) rs by (simp add: books_def whole_def header_facts)
    have "looked rs0 r rs' user (length ?H) x fut ?w"
    proof (cases "body r")
      case NoBody
      then show ?thesis using look_complete [OF assms(1) sv(1) P(2) fits(2), of _ _ _ x fut ?w cl wfc] xT bk sm by (simp add: has_header_def)
    next
      case (FixedBody D)
      show ?thesis
      proof (cases "D = []")
        case True
        then show ?thesis using look_complete [OF assms(1) sv(1) P(2) fits(2), of _ _ _ x fut ?w cl wfc] xT bk sm FixedBody by (simp add: has_header_def)
      next
        case False
        then show ?thesis using look_fixed [OF assms(1) sv(1) P(2) fits(2,1) FixedBody False _ sv(5), of x fut ?w cl] xT bk sm FixedBody A(1) by simp
      qed
    next
      case (ChunkedBody cs t trs)
      then show ?thesis using look_chunked [OF assms(1) sv(1) P(2) fits(2,1) ChunkedBody _ sv(5), of x fut ?w cl] xT bk sm ChunkedBody A(1) by simp
    qed
    then obtain w' p ex where l: "first_body user (length ?H) x ?w = Some (w', length ?H + p)" "p \<le> length x"
      "at w' (drop p (x @ fut)) ex" "books rs0 w' ex"
      unfolding looked_def by blast
    show ?thesis
    proof (rule steppedI)
      show "ILibWebClient_OnData user b w = Some (w', b', length ?H + p, DataResults_OK)" using on l(1) by simp
      show "drop (length ?H + p) b' = drop (length ?H + p) b"
        using arg_cong [OF P(4), of "drop p"] by (simp add: x_def add.commute)
      show "at w' (drop p (x @ fut)) ex" by (rule l(3))
      show "books rs0 w' ex" by (rule l(4))
      show "drop (length ?H + p) (b @ fut) = drop p (x @ fut)" using l(2) unfolding bx by simp
    qed (use l(2) bx P(3) H4 in auto)
  qed
qed

lemma body_done_answered: "serving w \<Longrightarrow> body_done True w [] d n = answered (w\<lparr>chunk := None\<rparr>) d n"
  using finished_serving [of "answered (w\<lparr>chunk := None\<rparr>) d n"]
  by (simp add: body_done_def answered_def ILibWebClient_ResetWCDO_def serving_def can_respond_def)

lemma step_chunk:
  assumes "whole_user True user" "serving w" "reading w" "header w = Some P" "header_of r P" "\<forall>r \<in> set rs. request_fits r"
    and "chunk_at (texts rs) (cur_chunk w) (b @ fut) D" "b \<noteq> []" "books rs0 w ((r, chunk_buffer (cur_chunk w) @ D) # whole rs)"
  shows "stepped rs0 user b fut w"
  using step_any [OF assms(1,3,7) HOL.refl assms(8)]
proof
  assume "moved user (texts rs) (b @ fut) D b w"
  then obtain c' p es D' where m: "ILibWebClient_ProcessChunk user b w = Some (w\<lparr>chunk := Some c', events := events w @ es\<rparr>, p)"
    "p \<le> length b" "\<forall>e \<in> set es. more_event e" "chunk_at (texts rs) c' (drop p (b @ fut)) D'"
    "consumed es @ chunk_buffer c' @ D' = chunk_buffer (cur_chunk w) @ D" "p = 0 \<longrightarrow> length b + length (texts rs) < length (b @ fut)"
    unfolding moved_def by blast
  let ?w = "w\<lparr>chunk := Some c', events := events w @ es\<rparr>"
  have cc: "cur_chunk ?w = c'" by (simp add: cur_chunk_def)
  have b0: "books rs0 w ((r, consumed es @ chunk_buffer c' @ D') # whole rs)" using assms(9) m(5) by simp
  show ?thesis
  proof (rule steppedI)
    show "ILibWebClient_OnData user b w = Some (?w, b, p, DataResults_OK)" using OnData_reading [OF assms(3)] m(1) by simp
    show "at ?w (drop p (b @ fut)) ((r, chunk_buffer (cur_chunk ?w) @ D') # whole rs)"
      using assms(2-6) m(4) cc by (intro at_chunk) (simp_all add: serving_cong reading_def can_respond_def)
    show "books rs0 ?w ((r, chunk_buffer (cur_chunk ?w) @ D') # whole rs)"
      unfolding cc by (rule books_consumed [OF b0 _ m(3)]) simp
    show "fut \<noteq> []" if "p = 0" using m(6) that by auto
  qed (use m(2) assms(3) in \<open>simp_all add: reading_def\<close>)
next
  assume "finished True user (texts rs) (b @ fut) D b w"
  then obtain p n where f: "ILibWebClient_ProcessChunk user b w = Some (body_done True w [] (chunk_buffer (cur_chunk w)) n, p)"
    "p \<le> length b" "0 < p" "drop p (b @ fut) = texts rs" "D = []"
    unfolding finished_def by blast
  let ?w = "answered (w\<lparr>chunk := None\<rparr>) (chunk_buffer (cur_chunk w)) n"
  have "room (cur_chunk w) (b @ fut)" using assms(7) by (simp add: chunk_at_def)
  then have sm: "small (texts rs)" using chunk_at_longer [OF assms(7)] by (simp add: room_def small_def)
  have bt: "between_requests ?w" using assms(2) by (simp add: serving_cong)
  have b0: "books rs0 w ((r, chunk_buffer (cur_chunk w)) # whole rs)" using assms(9) f(5) by simp
  show ?thesis
  proof (rule steppedI)
    show "ILibWebClient_OnData user b w = Some (?w, b, p, DataResults_OK)"
      using OnData_reading [OF assms(3)] f(1) body_done_answered [OF assms(2)] by simp
    show "at ?w (texts rs) (whole rs)" by (rule at_start [OF bt assms(6) sm])
    show "books rs0 ?w (whole rs)" by (rule books_answered [OF b0 assms(4,5) bt]) simp
  qed (use f in simp_all)
qed

lemma step_at:
  assumes "whole_user True user" "at w (b @ fut) ex" "books rs0 w ex" "b \<noteq> []" "last b \<noteq> 13"
  shows "stepped rs0 user b fut w"
  using assms(2)
proof cases
  case (at_start rs)
  then show ?thesis using step_header [OF assms(1), of w rs b fut rs0] assms(3-5) by simp
next
  case (at_fixed D P r rs)
  then show ?thesis using step_fixed [OF assms(1), of w D P r rs b fut rs0] assms(3,4) by simp
next
  case (at_chunk P r rs D)
  then show ?thesis using step_chunk [OF assms(1), of w P r rs b fut D rs0] assms(3,4) by simp
qed

section \<open>All reads\<close>

lemma at_connected: "at w T ex \<Longrightarrow> connected w"
  by (induction rule: at.induct) (simp_all add: between_requests_def serving_def)

lemma at_end:
  assumes "at w [] ex"
  shows "ex = [] \<and> between_requests w"
  using assms
proof cases
  case (at_start rs)
  have "request_text r \<noteq> []" for r by (simp add: request_text_def header_text_of_def header_lines_concat)
  then have "rs = []" using at_start(1) by (cases rs) (simp_all add: texts_def)
  then show ?thesis using at_start by (simp add: whole_def)
next
  case (at_chunk P r rs D)
  then show ?thesis using chunk_at_longer by fastforce
qed simp

text \<open>
  The same calls with the switch of the server behind each: it has nothing to refuse, if no header is longer than it takes.
\<close>

lemma drain_requests:
  assumes "whole_user True user" "at w (b @ fut) ex" "books rs0 w ex" "b = [] \<or> last b \<noteq> 13"
  shows "\<exists>w' b' ex'. http_drain user b w = Some (w', b')
    \<and> ((\<forall>r \<in> set rs0. length (header_text_of r) \<le> HTTP_MAX_HEADER_SIZE)
        \<longrightarrow> server_drain sock user b (s\<lparr>WebClientDataObject := w\<rparr>) = Some (s\<lparr>WebClientDataObject := w'\<rparr>, b'))
    \<and> at w' (b' @ fut) ex' \<and> books rs0 w' ex' \<and> (fut = [] \<longrightarrow> b' = []) \<and> (b' = [] \<or> b \<noteq> [] \<and> last b' = last b) \<and> length b' \<le> length b"
  using assms(2-)
proof (induction "length b" arbitrary: b w ex rule: less_induct)
  case less
  let ?short = "\<forall>r \<in> set rs0. length (header_text_of r) \<le> HTTP_MAX_HEADER_SIZE" and ?s = "\<lambda>w. s\<lparr>WebClientDataObject := w\<rparr>"
  show ?case
  proof (cases "b = []")
    case True
    then have "http_drain user b w = Some (w, b)" "server_drain sock user b (?s w) = Some (?s w, b)"
      by (subst http_drain.simps, simp, subst server_drain.simps, simp)
    then show ?thesis using less.prems True by auto
  next
    case False
    then have "stepped rs0 user b fut w" using step_at [OF assms(1) less.prems(1,2)] less.prems(3) by simp
    then obtain w' b' p ex' where s: "ILibWebClient_OnData user b w = Some (w', b', p, DataResults_OK)" "p \<le> length b"
      "length b' = length b" "drop p b' = drop p b" "at w' (drop p (b @ fut)) ex'" "books rs0 w' ex'" "p = 0 \<longrightarrow> fut \<noteq> []"
      and h: "p = 0 \<and> \<not> FinHeader w' \<longrightarrow> (\<exists>r \<in> set rs0. length b < length (header_text_of r))"
      unfolding stepped_def by blast
    have d: "http_drain user b w = (if p = 0 then Some (w', b') else http_drain user (drop p b') w')"
      using False at_connected [OF less.prems(1)] s(1-3) by (subst http_drain.simps) simp
    have "?short \<Longrightarrow> \<not> (p = 0 \<and> HTTP_MAX_HEADER_SIZE \<le> length b \<and> \<not> FinHeader w')"
      using h by (meson leD order_less_le_trans)
    then have "?short \<Longrightarrow> ILibWebServer_OnReceive sock DataResults_OK p (length b) (?s w') = Some (?s w')"
      by (auto simp: ILibWebServer_OnReceive_def)
    then have e: "?short \<Longrightarrow> server_drain sock user b (?s w) = (if p = 0 then Some (?s w', b') else server_drain sock user (drop p b') (?s w'))"
      using False at_connected [OF less.prems(1)] s(1-3) by (subst server_drain.simps) simp
    show ?thesis
    proof (cases "p = 0")
      case True
      then show ?thesis using d e s False by (intro exI [where x = w'] exI [where x = b] exI [where x = ex']) simp
    next
      case p: False
      let ?b = "drop p b"
      have at': "at w' (?b @ fut) ex'" using s(2,5) by simp
      have l: "?b = [] \<or> last ?b = last b" by (cases "p < length b") (simp_all add: last_drop)
      then have l13: "?b = [] \<or> last ?b \<noteq> 13" using less.prems(3) False by auto
      obtain w2 b2 ex2 where IH: "http_drain user ?b w' = Some (w2, b2)" "?short \<longrightarrow> server_drain sock user ?b (?s w') = Some (?s w2, b2)"
        "at w2 (b2 @ fut) ex2" "books rs0 w2 ex2" "fut = [] \<longrightarrow> b2 = []" "b2 = [] \<or> ?b \<noteq> [] \<and> last b2 = last ?b" "length b2 \<le> length ?b"
      proof -
        have "length ?b < length b" using p False by auto
        from less.hyps [OF this at' s(6) l13] show ?thesis using that by blast
      qed
      then show ?thesis using d e p s(4) l False by (intro exI [where x = w2] exI [where x = b2] exI [where x = ex2]) auto
    qed
  qed
qed

lemma http_drain_requests:
  assumes "whole_user True user" "at w b ex" "books rs0 w ex" "b = [] \<or> last b \<noteq> 13"
  shows "\<exists>w'. http_drain user b w = Some (w', []) \<and> between_requests w' \<and> books rs0 w' []"
proof -
  have at: "at w (b @ []) ex" using assms(2) by simp
  obtain w' ex' where "http_drain user b w = Some (w', [])" "at w' ([] @ []) ex'" "books rs0 w' ex'"
    using drain_requests [OF assms(1) at assms(3,4), of undefined undefined] by blast
  then show ?thesis using at_end [of w' ex'] by auto
qed

lemma receives_requests:
  assumes "whole_user True user" "at w (b @ concat ds) ex" "books rs0 w ex" "b = [] \<or> last b \<noteq> 13" "\<forall>d \<in> set ds. d = [] \<or> last d \<noteq> 13"
    and "ds = [] \<longrightarrow> b = []" "\<forall>r \<in> set rs0. length (header_text_of r) \<le> HTTP_MAX_HEADER_SIZE"
  shows "\<exists>w'. server_receives sock user ds (s\<lparr>WebClientDataObject := w\<rparr>, b) = Some (s\<lparr>WebClientDataObject := w'\<rparr>, [])
    \<and> at w' [] [] \<and> books rs0 w' []"
  using assms(2-6)
proof (induction ds arbitrary: w b ex)
  case Nil
  then show ?case using at_end [of w ex] by auto
next
  case (Cons d ds)
  have at: "at w ((b @ d) @ concat ds) ex" using Cons.prems(1) by simp
  have l: "b @ d = [] \<or> last (b @ d) \<noteq> 13" using Cons.prems(3,4) by (auto simp: last_append)
  obtain w' b' ex' where s: "server_drain sock user (b @ d) (s\<lparr>WebClientDataObject := w\<rparr>) = Some (s\<lparr>WebClientDataObject := w'\<rparr>, b')"
    "at w' (b' @ concat ds) ex'" "books rs0 w' ex'" "concat ds = [] \<longrightarrow> b' = []" "b' = [] \<or> b @ d \<noteq> [] \<and> last b' = last (b @ d)"
    using drain_requests [OF assms(1) at Cons.prems(2) l, of sock s] assms(7) by blast
  then have "\<exists>w2. server_receives sock user ds (s\<lparr>WebClientDataObject := w'\<rparr>, b') = Some (s\<lparr>WebClientDataObject := w2\<rparr>, [])
      \<and> at w2 [] [] \<and> books rs0 w2 []"
    using Cons.prems(4) l by (intro Cons.IH [OF s(2,3)]) auto
  then show ?case using s(1) by auto
qed

section \<open>Properties\<close>

text \<open>A request whose header the server takes, and after whose answer the connection stays open.\<close>

definition server_request :: "http_request \<Rightarrow> bool" where
  "server_request r \<longleftrightarrow> request_fits r \<and> length (header_text_of r) \<le> HTTP_MAX_HEADER_SIZE
     \<and> version r = str ''1.1'' \<and> \<not> close_lines (lines r)"


definition serving_user :: http_user where
  "serving_user = (\<lambda>es st d. (length d, st = Complete))"

definition sample_server :: ILibWebClientDataObject where
  "sample_server = sample_reading\<lparr>Server := 1, FinHeader := False, Chunked := False\<rparr>"

definition sample_requests :: "http_request list" where
  "sample_requests = [\<lparr>verb = str ''GET'', target = str ''/a'', version = str ''1.1'', lines = [(str ''Host'', str ''h'')], body = NoBody\<rparr>,
     \<lparr>verb = str ''PUT'', target = str ''/b'', version = str ''1.1'', lines = [(str ''content-length'', dec_string 2)], body = FixedBody (str ''xy'')\<rparr>,
     \<lparr>verb = str ''PUT'', target = str ''/c'', version = str ''1.1'', lines = [(str ''Transfer-Encoding'', str ''Chunked'')],
      body = ChunkedBody [(str ''3'', str ''abc'')] (str ''0'') []\<rparr>]"

lemma sample_texts:
  "map request_text sample_requests = [str ''GET /a HTTP/1.1'' @ [13, 10] @ str ''Host: h'' @ [13, 10, 13, 10],
     str ''PUT /b HTTP/1.1'' @ [13, 10] @ str ''content-length: '' @ dec_string 2 @ [13, 10, 13, 10] @ str ''xy'',
     str ''PUT /c HTTP/1.1'' @ [13, 10] @ str ''Transfer-Encoding: Chunked'' @ [13, 10, 13, 10]
       @ str ''3'' @ [13, 10] @ str ''abc'' @ [13, 10] @ str ''0'' @ [13, 10, 13, 10]]"
  by (simp add: sample_requests_def request_text_def header_text_of_def header_lines_concat field_line_def)

lemma sample_two: "dec_string 2 = [50]" "dec_string (Suc (Suc 0)) = [50]"
  by (subst dec_string.simps, simp add: str_def)+

lemma sample_fits: "\<forall>r \<in> set sample_requests. request_fits r"
  by (auto simp: sample_requests_def request_fits_def header_text_of_def header_lines_concat field_line_def sample_two request_ok_def field_ok_def
      is_blank_def chunked_lines_def length_lines_def named_def to_lower_def body_ok_def read_size)

definition sample_plain_session :: ILibWebServer_Session where
  "sample_plain_session = \<lparr>SessionInterrupted = False, WebSocket_Request = False, RequestAnsweredFlag = False, RequestAnsweredMethod = False,
     RequestMadeFlag = False, CloseOverrideFlag = False, VirtualDirectory = None, OverrideVirDirStruct = False, WebSocketRequested = False,
     WebClientDataObject = sample_server, written = [], session_actions = [], dispatched = []\<rparr>"

lemma sample_server_requests: "\<forall>r \<in> set sample_requests. server_request r"
  using sample_fits by (auto simp: sample_requests_def server_request_def header_text_of_def header_lines_concat field_line_def sample_two
      HTTP_MAX_HEADER_SIZE_def close_lines_def named_def to_lower_def)


lemma request_without_body:
  assumes "whole_user True user" "between_requests w" "request_ok m t ver hs" "ver \<in> {str ''1.0'', str ''1.1''}"
    and "length_lines hs = {l}" "\<And>k. ILib_atoi2_int32 False (l @ [0]) k = Some (0, False)" "\<not> chunked_lines hs"
    and "length (request_header m t ver hs @ x) \<le> INT32_MAX" "x = [] \<or> last x \<noteq> 13"
  shows "\<exists>w1 P k. http_drain user (request_header m t ver hs @ x) w = http_drain user x w1 \<and> between_requests w1 \<and> packet_is m t ver hs P
    \<and> events w1 = events w @ [Answer Complete (Some P) [] k]"
proof -
  let ?H = "request_header m t ver hs"
  have sv: "serving w" "\<not> FinHeader w" "\<not> Chunked w" "header w = None" "chunk w = None" using assms(2) by (simp_all add: between_requests_def)
  then obtain req q where rq: "RequestQueue w = req # q" "has_OnResponse req" by (auto simp: serving_def can_respond_def split: list.splits)
  have e: "errno_range w = False" "\<not> IsWebSocket w" "Server w = 1" "connected w" using sv(1) by (simp_all add: serving_def)
  have H4: "4 \<le> length ?H" by (simp add: header_lines_concat)
  have he: "header_end False (?H @ x) 0 = Some (length ?H - 4)"
    using request_header_end [OF assms(3), of "?H @ x" "[]" x] by simp
  obtain b' P where P: "ILibParsePacketHeader False (?H @ x) 0 (length (?H @ x)) = Some (b', Some P, False)" "packet_is m t ver hs P"
    "length b' = length (?H @ x)" "drop (length ?H) b' = x"
    using parse_request_in_buffer [OF assms(3,8) HOL.refl assms(9), of False] by blast
  obtain cl wfc where A: "after_header user req P (length ?H) x
      (w\<lparr>HeaderLength := length ?H, WaitForClose := True, BytesLeft := -1, FinHeader := True, header := Some P, errno_range := False\<rparr>)
    = map_option (\<lambda>(w, p). (w, p, DataResults_OK)) (first_body user (length ?H) x (w\<lparr>FinHeader := True, HeaderLength := length ?H,
        header := Some P, ConnectionCloseSpecified := cl, WaitForClose := wfc, Chunked := False, BytesLeft := 0\<rparr>))"
    using after_header_lines [where hl = "length ?H" and user = user and i = "length ?H" and x = x, OF sv(1,3) P(2) assms(4) rq(1) _ _ assms(6)]
      assms(5,7) by auto
  let ?w = "w\<lparr>FinHeader := True, HeaderLength := length ?H,
        header := Some P, ConnectionCloseSpecified := cl, WaitForClose := wfc, Chunked := False, BytesLeft := 0\<rparr>"
  have sw: "serving ?w" using sv(1) by (simp add: serving_cong)
  then have cr: "can_respond ?w" by (simp add: serving_def)
  obtain k where k: "respond user Complete [] ?w = (answered ?w [] k, k)"
    using respond_complete [OF assms(1), of ?w "[]"] by auto
  let ?w1 = "answered ?w [] k"
  have bt: "between_requests ?w1" using sw by simp
  have "first_body user (length ?H) x ?w = Some (?w1, length ?H)"
    using cr k finished_serving [of ?w1] bt by (simp add: first_body_def Let_def between_requests_def)
  then have on: "ILibWebClient_OnData user (?H @ x) w = Some (?w1, b', length ?H, DataResults_OK)"
    using he sv e rq P(1,4) H4 A by (simp add: ILibWebClient_OnData_def Let_def)
  have "http_drain user (?H @ x) w = http_drain user x ?w1"
    using on e(4) H4 P(3,4) by (subst http_drain.simps) (auto simp: header_lines_concat)
  then show ?thesis using bt P(2) by (intro exI [where x = ?w1] exI [where x = P] exI [where x = k]) simp
qed

text \<open>
  C30 (error).  A \<open>Content-Length\<close> of 2147483648 or more counts as 0, and the test for an invalid one never holds: the request is given to the user without a body, and
  what was sent as its body is read as further requests.
\<close>

theorem body_read_as_requests:
  assumes "whole_user True user" "between_requests w" "events w = []" "request_ok m t ver hs" "ver \<in> {str ''1.0'', str ''1.1''}"
    and "length_lines hs = {dec_string n}" "INT32_MAX < n" "n \<le> ULLONG_MAX" "\<not> chunked_lines hs"
    and "\<forall>r \<in> set rs. request_fits r" "x = concat (map request_text rs)" "length (request_header m t ver hs @ x) + INITIAL_BUFFER_SIZE \<le> INT32_MAX"
    and "x = [] \<or> last x \<noteq> 13"
  shows "\<exists>w'. http_receives user [request_header m t ver hs @ x] (w, []) = Some (w', [])
    \<and> list_all2 is_request (fst (seen (events w'))) (\<lparr>verb = m, target = t, version = ver, lines = hs, body = NoBody\<rparr> # rs)"
proof -
  let ?r = "\<lparr>verb = m, target = t, version = ver, lines = hs, body = NoBody\<rparr>"
  have "ILib_atoi2_int32 False (dec_string n @ [0]) k = Some (0, False)" for k
    using assms(7,8) by (simp add: ILib_atoi2_int32_def atoi2_int_def ILib_atoi2_uint64_def ILib_atoi2_uint32_def ILib_atoi_uint32_ex_def
        ILib_atoi_uint64_ex_def strtoull_def scan_dec_string Let_def ULLONG_MAX_def SIZE_MOD_def)
  then obtain w1 P k where d: "http_drain user (request_header m t ver hs @ x) w = http_drain user x w1" "between_requests w1"
    "packet_is m t ver hs P" "events w1 = events w @ [Answer Complete (Some P) [] k]"
    using request_without_body [OF assms(1,2,4-6) _ assms(9) _ assms(13)] assms(12) by fastforce
  have "books (?r # rs) w1 (whole rs)"
    using assms(3) d(3,4) by (cases rs) (auto simp: books_def seen_def whole_def comp_def is_request_def header_of_def intro!: exI [where x = "[?r]"])
  moreover have "at w1 x (whole rs)" using at_start [OF d(2) assms(10)] assms(11,12) by (simp add: texts_def small_def)
  ultimately obtain w' where w': "http_drain user x w1 = Some (w', [])" "books (?r # rs) w' []"
    using http_drain_requests [OF assms(1) _ _ assms(13)] by blast
  then have "list_all2 is_request (fst (seen (events w'))) (?r # rs)" by (auto simp: books_def)
  then show ?thesis using w'(1) d(1) by (simp add: http_receive_def bind_Some)
qed

theorem body_read_as_requests_witness:
  "\<exists>w'. http_receives serving_user [request_header (str ''PUT'') (str ''/'') (str ''1.1'') [(str ''content-length'', dec_string 2147483648)]
        @ concat (map request_text sample_requests)] (sample_server, []) = Some (w', [])
    \<and> list_all2 is_request (fst (seen (events w')))
        (\<lparr>verb = str ''PUT'', target = str ''/'', version = str ''1.1'', lines = [(str ''content-length'', dec_string 2147483648)], body = NoBody\<rparr>
         # sample_requests)"
proof (rule body_read_as_requests)
  have d: "dec_string 2147483648 = str ''2147483648''" by (simp add: dec_string.simps str_def)
  show "length_lines [(str ''content-length'', dec_string 2147483648)] = {dec_string 2147483648}"
    by (auto simp: length_lines_def named_def to_lower_def)
  show "\<not> chunked_lines [(str ''content-length'', dec_string 2147483648)]"
    by (simp add: chunked_lines_def named_def to_lower_def)
  show "request_ok (str ''PUT'') (str ''/'') (str ''1.1'') [(str ''content-length'', dec_string 2147483648)]"
    by (simp add: d request_ok_def field_ok_def is_blank_def INT32_MAX_def)
  show "concat (map request_text sample_requests) = [] \<or> last (concat (map request_text sample_requests)) \<noteq> 13"
    unfolding sample_texts sample_two by (simp add: str_def)
  show "length (request_header (str ''PUT'') (str ''/'') (str ''1.1'') [(str ''content-length'', dec_string 2147483648)]
        @ concat (map request_text sample_requests)) + INITIAL_BUFFER_SIZE \<le> INT32_MAX"
    unfolding sample_texts sample_two header_lines_concat d by (simp add: INITIAL_BUFFER_SIZE_def INT32_MAX_def field_line_def)
  show "\<forall>r \<in> set sample_requests. request_fits r" by (rule sample_fits)
  show "whole_user True serving_user" by (simp add: whole_user_def serving_user_def)
  show "between_requests sample_server" "events sample_server = []"
    by (simp_all add: between_requests_def serving_def can_respond_def sample_server_def sample_reading_def sample_request_def)
qed (simp_all add: INT32_MAX_def ULLONG_MAX_def SIZE_MOD_def)

end
