(* ===== verification/HttpBuffer.thy ===== *)
theory HttpBuffer
  imports HttpChunks
begin

text \<open>
  The buffer in which the decoder of chunked bodies keeps what its user did not consume never gets more than was allocated for it, and a bounded copy into it
  only fails for a negative number of bytes.
\<close>

section \<open>The buffer of the decoder\<close>

definition chunk_fits :: "ILibWebClientDataObject \<Rightarrow> bool" where
  "chunk_fits w \<longleftrightarrow> (\<forall>c. chunk w = Some c \<longrightarrow> length (chunk_buffer c) \<le> mallocSize c)"

lemma fits_append: "chunk_append buffer i c = Some (Some c') \<Longrightarrow> length (chunk_buffer c') \<le> mallocSize c'"
  by (auto simp: chunk_append_def Let_def split: if_splits)

lemma append_exits:
  "chunk_append buffer i c = Some None \<Longrightarrow> length (chunk_buffer c) \<le> mallocSize c \<Longrightarrow> i \<le> int (length buffer) \<Longrightarrow> i < 0"
  by (auto simp: chunk_append_def Let_def split: if_splits)

lemma fits_cong:
  "chunk_fits (emit e w) = chunk_fits w" "chunk_fits (w\<lparr>header := h\<rparr>) = chunk_fits w" "chunk_fits (w\<lparr>BytesLeft := n\<rparr>) = chunk_fits w"
  "chunk_fits (w\<lparr>HeaderLength := m\<rparr>) = chunk_fits w" "chunk_fits (w\<lparr>NeedFlush := f\<rparr>) = chunk_fits w" "chunk_fits (w\<lparr>FinHeader := f\<rparr>) = chunk_fits w"
  "chunk_fits (w\<lparr>WaitForClose := f\<rparr>) = chunk_fits w" "chunk_fits (w\<lparr>Chunked := f\<rparr>) = chunk_fits w"
  "chunk_fits (w\<lparr>ConnectionCloseSpecified := f\<rparr>) = chunk_fits w" "chunk_fits (w\<lparr>errno_range := f\<rparr>) = chunk_fits w"
  "chunk_fits (w\<lparr>IsWebSocket := f\<rparr>) = chunk_fits w" "chunk_fits (w\<lparr>ws_state := st\<rparr>) = chunk_fits w"
  "chunk_fits (w\<lparr>connected := f\<rparr>) = chunk_fits w" "chunk_fits (w\<lparr>RequestQueue := q\<rparr>) = chunk_fits w"
  "chunk_fits (w\<lparr>InitialRequestAnswered := f\<rparr>) = chunk_fits w" "chunk_fits (w\<lparr>PipelineFlag := m\<rparr>) = chunk_fits w"
  "chunk_fits (w\<lparr>chunk := None\<rparr>)" "chunk_fits (w\<lparr>chunk := Some c\<rparr>) = (length (chunk_buffer c) \<le> mallocSize c)"
  by (simp_all add: chunk_fits_def emit_def)

lemma fits_fold: "chunk_fits (fold (\<lambda>b. emit (f b)) bs w) = chunk_fits w"
  by (induction bs arbitrary: w) (simp_all add: fits_cong)

lemma fits_reset: "chunk_fits (ILibWebClient_ResetWCDO w)"
  by (simp add: ILibWebClient_ResetWCDO_def chunk_fits_def)

lemma fits_finished: "chunk_fits w \<Longrightarrow> chunk_fits (ILibWebClient_FinishedResponse w)"
  by (auto simp: ILibWebClient_FinishedResponse_def Let_def fits_cong fits_fold fits_reset split: list.split)

lemma fits_server: "chunk_fits w \<Longrightarrow> chunk_fits (ILibWebClient_FinishedResponse_Server w)"
  by (simp add: ILibWebClient_FinishedResponse_Server_def fits_cong fits_reset)

lemma fits_respond: "respond user st d w = (w', n) \<Longrightarrow> chunk_fits w \<Longrightarrow> chunk_fits w'"
  by (auto simp: respond_def Let_def fits_cong fits_server split: prod.splits if_splits)

lemma fits_respond_length: "respond_length user status len w = (w', n) \<Longrightarrow> chunk_fits w \<Longrightarrow> chunk_fits w'"
  by (auto simp: respond_length_def Let_def fits_cong fits_server split: prod.splits if_splits)

lemma fits_exit: "chunk_fits (process_exit w) = chunk_fits w"
  by (simp add: process_exit_def fits_cong)

lemma fits_chunk: "chunk w = Some c \<Longrightarrow> chunk_fits w \<Longrightarrow> length (chunk_buffer c) \<le> mallocSize c"
  by (simp add: chunk_fits_def)

lemma fits_arrived: "offer_arrived user buffer i w = Some (w', bp) \<Longrightarrow> chunk_fits w \<Longrightarrow> chunk_fits w'"
  by (auto simp: offer_arrived_def Let_def fits_cong reset_chunk_buffer_def split: prod.splits if_splits bind_splits option.splits
      dest: fits_append fits_respond fits_respond_length fits_chunk)

lemma fits_kept: "offer_kept user i w = Some (w', bp) \<Longrightarrow> chunk_fits w \<Longrightarrow> chunk_fits w'"
  by (auto simp: offer_kept_def Let_def fits_cong reset_chunk_buffer_def split: prod.splits if_splits bind_splits option.splits
      dest: fits_respond fits_respond_length fits_chunk)

lemma fits_offer:
  assumes "offer_arrived user buffer i w = Some (w', bp) \<or> offer_kept user j w = Some (w', bp)" "chunk_fits w" "chunk w' = Some c"
  shows "length (chunk_buffer c) \<le> mallocSize c"
  using assms fits_arrived fits_kept fits_chunk by blast

lemma fits_data:
  assumes "chunk_data user buffer c w = Some (w', p)" "length (chunk_buffer c) \<le> mallocSize c" "chunk_fits w"
  shows "chunk_fits w'"
proof -
  let ?i = "if int (length buffer) \<ge> bytesLeft c then bytesLeft c else int (length buffer)"
    and ?p = "int (read_BeginPointer c) = read_EndPointer c"
  define kept where "kept = (if ?p then Some (Some c) else chunk_append buffer ?i c)"
  have kept: "kept = Some (Some c1) \<Longrightarrow> length (chunk_buffer c1) \<le> mallocSize c1" for c1
    using fits_append assms(2) by (auto simp: kept_def split: if_splits)
  show ?thesis
    using assms(1,3) kept unfolding chunk_data_def Let_def kept_def [symmetric]
    by (auto simp: fits_cong fits_exit split: option.splits bind_splits prod.splits if_splits dest: fits_arrived fits_kept fits_chunk fits_offer [OF disjI1] fits_offer [OF disjI2])
qed

lemma fits_finish: "chunk_finish user c w = Some w' \<Longrightarrow> chunk_fits w'"
  by (auto simp: chunk_finish_def Let_def fits_cong intro!: fits_finished split: bind_splits if_splits)

lemma fits_process:
  assumes "ILibWebClient_ProcessChunk user buffer w = Some (w', p)" "chunk_fits w"
  shows "chunk_fits w'"
proof -
  define c where "c = cur_chunk w"
  have c: "length (chunk_buffer c) \<le> mallocSize c"
    using assms(2) by (auto simp: c_def cur_chunk_def chunk_fits_def new_chunk_def split: option.split)
  have start: "chunk_start buffer c = Some (c', q) \<Longrightarrow> length (chunk_buffer c') \<le> mallocSize c'" for c' q
    using c by (auto simp: chunk_start_def Let_def split: if_splits bind_splits option.splits)
  show ?thesis
    using assms(1) c start unfolding ILibWebClient_ProcessChunk_def cur_chunk_def [symmetric] c_def [symmetric] Let_def
    by (cases "Flag c") (auto simp: fits_cong intro: fits_data fits_finish split: if_splits bind_splits option.splits)
qed

lemma fits_introspect: "introspect phfns w = Some (w', bad) \<Longrightarrow> chunk_fits w' = chunk_fits w"
proof (induction phfns arbitrary: w)
  case (Cons a phfns)
  from Cons.prems show ?case
    by (auto simp: fits_cong Let_def split: if_splits bind_splits dest!: Cons.IH)
qed simp

lemma fits_informational: "informational user h req w = Some (w', p) \<Longrightarrow> chunk_fits w \<Longrightarrow> chunk_fits w'"
  by (auto simp: informational_def Let_def fits_cong split: option.splits if_splits bind_splits prod.splits
      intro: fits_respond [OF prod.collapse [symmetric]])

lemma fits_first: "first_body user i x w = Some (w', p) \<Longrightarrow> chunk_fits w \<Longrightarrow> chunk_fits w'"
  by (auto simp: first_body_def Let_def fits_cong split: option.splits if_splits bind_splits prod.splits
      intro!: fits_finished elim: fits_respond fits_process intro: fits_process [OF _ fits_respond])

lemma fits_more: "more_body user x w = Some (w', p) \<Longrightarrow> chunk_fits w \<Longrightarrow> chunk_fits w'"
  by (auto simp: more_body_def Let_def fits_cong split: option.splits if_splits bind_splits prod.splits
      intro!: fits_finished elim: fits_respond fits_process)

lemma fits_after:
  assumes "after_header user req h i x w = Some (w', p, r)" "chunk_fits w"
  shows "chunk_fits w'"
proof (cases "Directive h = [] \<and> StatusCode h \<noteq> -1 \<and> Server w = 1")
  case True
  then show ?thesis using assms by (simp add: after_header_def)
next
  case d: False
  obtain w1 bad where i: "introspect (Fields h) w = Some (w1, bad)" using assms(1) d by (auto simp: after_header_def split: bind_splits)
  have f1: "chunk_fits w1" using fits_introspect [OF i] assms(2) by simp
  show ?thesis
  proof (cases bad)
    case True
    then show ?thesis using assms(1) d i f1 by (simp add: after_header_def split: if_splits)
  next
    case False
    obtain v where v: "version_above_1 (Version h) = Some v" using assms(1) d i False by (auto simp: after_header_def split: bind_splits)
    define w2 where "w2 = (if v \<and> \<not> Chunked w1 \<and> \<not> ConnectionCloseSpecified w1 \<and> WaitForClose w1
      then w1\<lparr>WaitForClose := False, BytesLeft := 0\<rparr> else w1)"
    have f2: "chunk_fits w2" using f1 by (simp add: w2_def fits_cong)
    define inf where "inf = (if 100 \<le> StatusCode h \<and> StatusCode h \<le> 199 then informational user h req w2
      else Some (if StatusCode h = 204 \<or> StatusCode h = 304 then w2\<lparr>WaitForClose := False, BytesLeft := 0\<rparr> else w2, None))"
    have A: "after_header user req h i x w = do { (w, d) \<leftarrow> inf; (case d of Some p \<Rightarrow> Some (w, p, DataResults_OK)
        | None \<Rightarrow> do { let w = (if Server w \<noteq> 0 \<and> BytesLeft w = -1 \<and> \<not> Chunked w then w\<lparr>BytesLeft := 0\<rparr> else w);
               let w = (if IsHeadRequest req then w\<lparr>BytesLeft := 0, WaitForClose := False, Chunked := False\<rparr> else w);
               (w, p) \<leftarrow> first_body user i x w; Some (w, p, DataResults_OK) }) }"
      using d by (simp only: after_header_def i v if_False False bind.bind_lunit prod.case Let_def w2_def inf_def)
    then obtain w3 dn where inf: "inf = Some (w3, dn)" using assms(1) by (cases inf) auto
    have f3: "chunk_fits w3" using inf f2 fits_informational unfolding inf_def by (auto simp: fits_cong split: if_splits)
    show ?thesis
      using assms(1) f3 unfolding A inf
      by (auto simp: Let_def fits_cong split: option.splits if_splits bind_splits prod.splits elim!: fits_first)
  qed
qed

lemma fits_OnData:
  assumes "ILibWebClient_OnData user b w = Some (w', b', p, r)" "chunk_fits w"
  shows "chunk_fits w'"
  using assms
  by (auto simp: ILibWebClient_OnData_def Let_def fits_cong fits_fold split: if_splits bind_splits option.splits list.splits prod.splits
      elim!: fits_after fits_more)

lemma fits_drain: "http_drain user b w = Some (w', b') \<Longrightarrow> chunk_fits w \<Longrightarrow> chunk_fits w'"
proof (induction user b w rule: http_drain.induct)
  case (1 user b w)
  show ?case
  proof (cases "b = [] \<or> \<not> connected w")
    case True
    then show ?thesis using "1.prems" by (subst (asm) http_drain.simps) simp
  next
    case go: False
    obtain w1 b1 p r where on: "ILibWebClient_OnData user b w = Some (w1, b1, p, r)"
      using go "1.prems"(1) by (subst (asm) http_drain.simps) (auto split: option.splits)
    have f: "chunk_fits w1" by (rule fits_OnData [OF on "1.prems"(2)])
    have "(if p = 0 then Some (w1, b1) else if length b < p \<or> length b1 \<noteq> length b then None else http_drain user (drop p b1) w1) = Some (w', b')"
      using "1.prems"(1) go on by (subst (asm) http_drain.simps) simp
    then show ?thesis using f "1.IH" [OF go on HOL.refl HOL.refl HOL.refl] by (auto split: if_splits)
  qed
qed

text \<open>
  C31 (type).  Whatever arrives and whatever the user does, as long as no \<open>int\<close> overflows the data in the buffer of the decoder fits in its allocation; so the copy of
  bytes that arrived to the end of the buffer never ends the process, if the number of bytes is not negative.
\<close>

theorem chunk_buffer_fits:
  assumes "chunk w = None" "http_receives user ds (w, b) = Some (w', b')" "chunk w' = Some c"
  shows "length (chunk_buffer c) \<le> mallocSize c
    \<and> (\<forall>buffer i. 0 \<le> i \<and> i \<le> int (length buffer) \<longrightarrow> chunk_append buffer i c \<noteq> Some None)"
proof -
  have "http_receives user ds (w, b) = Some (w', b') \<Longrightarrow> chunk_fits w \<Longrightarrow> chunk_fits w'"
    by (induction ds arbitrary: w b) (auto simp: http_receive_def split: bind_splits dest: fits_drain)
  then have "length (chunk_buffer c) \<le> mallocSize c" using assms by (simp add: chunk_fits_def)
  then show ?thesis using append_exits by fastforce
qed

definition waiting_user :: http_user where
  "waiting_user = (\<lambda>es st d. (0, False))"

lemma sample_kept:
  "\<exists>w' c. http_receives waiting_user [str ''5'' @ 13 # 10 # str ''hello''] (sample_reading, []) = Some (w', []) \<and> chunk w' = Some c \<and> chunk_buffer c = str ''hello''"
proof -
  let ?b = "str ''5'' @ 13 # 10 # str ''hello''"
  define c where "c = new_chunk\<lparr>bytesLeft := 5, Flag := DATACHUNK\<rparr>"
  let ?w = "sample_reading\<lparr>chunk := Some c\<rparr>"
  have cc: "cur_chunk sample_reading = new_chunk" by (simp add: cur_chunk_def sample_reading_def)
  have r: "reading ?w" using sample_reading_reading by (simp add: reading_def can_respond_def)
  have "line_ok (str ''5'')" "size_of_line (str ''5'') = 5" by (simp_all add: read_size)
  then have "chunk_start ?b new_chunk = Some (c, 3)"
    using chunk_start_line [of "str ''5''" ?b "[]" "str ''hello''" new_chunk] by (simp add: c_def str_def)
  then have "ILibWebClient_ProcessChunk waiting_user ?b sample_reading = Some (?w, 3)"
    unfolding ILibWebClient_ProcessChunk_def cur_chunk_def [symmetric] cc by (simp add: new_chunk_def)
  then have 1: "http_drain waiting_user ?b sample_reading = http_drain waiting_user (str ''hello'') ?w"
    by (subst http_drain.simps) (simp add: OnData_reading [OF sample_reading_reading] str_def, simp add: sample_reading_def)
  obtain w' c' where p: "ILibWebClient_ProcessChunk waiting_user (str ''hello'') ?w = Some (w', 5)" "chunk w' = Some c'" "chunk_buffer c' = str ''hello''"
    using r by (simp add: ILibWebClient_ProcessChunk_def c_def new_chunk_def chunk_data_def Let_def offer_arrived_def reading_def can_respond_def respond_def
        waiting_user_def chunk_append_def INITIAL_BUFFER_SIZE_def INT32_MAX_def emit_def str_def cong: list.case_cong)
  then have "http_drain waiting_user (str ''hello'') ?w = Some (w', [])"
    by (subst http_drain.simps, subst http_drain.simps) (simp add: OnData_reading [OF r] str_def, simp add: sample_reading_def)
  then show ?thesis using 1 p by (simp add: http_receive_def)
qed

theorem chunk_buffer_fits_witness:
  "\<exists>w' c. http_receives waiting_user [str ''5'' @ 13 # 10 # str ''hello''] (sample_reading, []) = Some (w', []) \<and> chunk w' = Some c
    \<and> chunk_buffer c = str ''hello'' \<and> length (chunk_buffer c) \<le> mallocSize c \<and> chunk_append (str ''world'') 5 c \<noteq> Some None"
proof -
  have "chunk sample_reading = None" by (simp add: sample_reading_def)
  moreover have "int (length (str ''world'')) = 5" by (simp add: str_def)
  ultimately show ?thesis using sample_kept chunk_buffer_fits [of sample_reading waiting_user] by fastforce
qed

end
