(* ===== verification/HttpStreamingProps.thy ===== *)
theory HttpStreamingProps
  imports HttpStreaming
begin

text \<open>
  Properties of streamed responses: what the server writes for a body the decoder of the client reads as that body, and what is left of a file that was streamed.
\<close>

section \<open>The size of a chunk\<close>

lemma hex_digit_char: "d < 16 \<Longrightarrow> hex_digit d \<notin> {0, 13, 59, 88, 120}"
proof -
  have "list_all (\<lambda>d. hex_digit d \<notin> {0, 13, 59, 88, 120}) [0 ..< 16]"
    by (simp add: upt_rec [of _ "numeral _"] hex_digit_def)
  then show "d < 16 \<Longrightarrow> hex_digit d \<notin> {0, 13, 59, 88, 120}" by (auto simp: list_all_iff)
qed

lemma hex_number_digits: "c \<in> set (hex_number n) \<Longrightarrow> \<exists>d < 16. c = hex_digit d"
proof (induction n rule: hex_number.induct)
  case (1 n)
  show ?case
  proof (cases "n < 16")
    case True
    then show ?thesis using 1(2) by (subst (asm) hex_number.simps) auto
  next
    case False
    then have "c \<in> set (hex_number (n div 16)) \<or> c = hex_digit (n mod 16)" using 1(2) by (subst (asm) hex_number.simps) auto
    then show ?thesis
    proof
      assume "c = hex_digit (n mod 16)"
      then show ?thesis by (intro exI [of _ "n mod 16"]) simp
    qed (use 1(1) [OF False] in simp)
  qed
qed

lemma hex_number_ne [simp]: "hex_number n \<noteq> []"
  by (subst hex_number.simps) simp

lemma hex_digits_append:
  "\<forall>c \<in> set xs. hex_value c \<noteq> None \<Longrightarrow> hex_digits v (xs @ ys) = hex_digits (hex_digits v xs) ys"
  by (induction xs arbitrary: v) auto

lemma hex_digits_number: "hex_digits 0 (hex_number n) = int n"
proof (induction n rule: hex_number.induct)
  case (1 n)
  show ?case
  proof (cases "n < 16")
    case True
    then show ?thesis by (subst hex_number.simps) (simp add: hex_digit_facts)
  next
    case False
    have "\<forall>c \<in> set (hex_number (n div 16)). hex_value c \<noteq> None" using hex_number_digits hex_digit_facts(1) by fastforce
    then have "hex_digits 0 (hex_number n) = 16 * int (n div 16) + int (n mod 16)"
      using False 1 by (subst hex_number.simps) (simp add: hex_digits_append hex_digit_facts)
    also have "\<dots> = int n" by (metis mult_div_mod_eq of_nat_add of_nat_mult of_nat_numeral)
    finally show ?thesis .
  qed
qed

lemma unprefix_number: "hex_unprefix (hex_number n) = hex_number n"
proof (cases "hex_number n" rule: hex_unprefix.cases)
  case (1 a b c s)
  then have "b \<in> set (hex_number n)" by simp
  then have "b \<noteq> 120" "b \<noteq> 88" using hex_number_digits [of b n] hex_digit_char by auto
  then show ?thesis using 1 by simp
qed auto

lemma size_of_number:
  assumes "n \<le> INT32_MAX"
  shows "size_of_line (hex_number n) = int n"
proof -
  obtain c cs where c: "hex_number n = c # cs" by (cases "hex_number n") auto
  obtain d where d: "d < 16" "c = hex_digit d" using hex_number_digits [of c n] c by auto
  have "\<not> is_space c" "c \<noteq> 45" "c \<noteq> 43" using hex_digit_facts [OF d(1)] d(2) by simp_all
  then have "strtol16 (hex_number n) = int n"
    using hex_digits_number [of n] unprefix_number [of n] c by (simp add: strtol16_def)
  moreover have "59 \<notin> set (hex_number n)" using hex_number_digits hex_digit_char by fastforce
  then have "split_on [59] [] (hex_number n) = [hex_number n]" using split_on_last [of 59 "hex_number n" "[]"] by simp
  moreover have "signed_take_bit 31 (int n) = int n"
    using assms by (intro signed_take_bit_int_eq_self) (simp_all add: INT32_MAX_def)
  ultimately show ?thesis using assms by (simp add: size_of_line_def strtol_hex_def INT32_MAX_def)
qed

lemma length_hex_number: "n < 16 ^ k \<Longrightarrow> 0 < k \<Longrightarrow> length (hex_number n) \<le> k"
proof (induction k arbitrary: n)
  case (Suc k)
  show ?case
  proof (cases "n < 16")
    case True
    then show ?thesis by (subst hex_number.simps) simp
  next
    case False
    then have "0 < k" using Suc.prems by (cases k) auto
    moreover have "n div 16 < 16 ^ k" using Suc.prems(1) by (simp add: less_mult_imp_div_less mult.commute)
    ultimately show ?thesis using Suc.IH [of "n div 16"] False by (subst hex_number.simps) simp
  qed
qed simp

lemma number_line: "n \<le> INT32_MAX \<Longrightarrow> line_ok (hex_number n)"
proof -
  assume n: "n \<le> INT32_MAX"
  have "n < 16 ^ 8" using n by (simp add: INT32_MAX_def)
  then have "length (hex_number n) \<le> 8" by (rule length_hex_number) simp
  moreover have "last (hex_number n) \<in> set (hex_number n)" by (rule last_in_set) simp
  then have "last (hex_number n) \<noteq> 0" using hex_number_digits [of "last (hex_number n)" n] hex_digit_char by auto
  moreover have "13 \<notin> set (hex_number n)" using hex_number_digits hex_digit_char by fastforce
  ultimately show ?thesis by (simp add: line_ok_def INT32_MAX_def)
qed

section \<open>Streamed bodies\<close>

text \<open>A session with a request that is answered in chunks, and a socket that takes what it is given, at once or later.\<close>

definition streaming :: "ILibWebServer_Session \<Rightarrow> packetheader \<Rightarrow> bool" where
  "streaming s hdr \<longleftrightarrow> \<not> SessionInterrupted s \<and> \<not> WebSocket_Request s \<and> header (WebClientDataObject s) = Some hdr \<and> \<not> version_10 hdr"

definition takes_all :: "web_socket \<Rightarrow> bool" where
  "takes_all sock \<longleftrightarrow> (\<forall>ws b. status_ok (sock ws b))"

lemma status_ok_cases: "status_ok r \<Longrightarrow> r \<noteq> ILibWebServer_TRIED_TO_SEND_ON_CLOSED_SOCKET \<and> \<not> send_failed r"
  by (auto simp: status_ok_def send_failed_def)

lemma takes_all: "takes_all sock \<Longrightarrow> sock ws b \<noteq> ILibWebServer_TRIED_TO_SEND_ON_CLOSED_SOCKET" "takes_all sock \<Longrightarrow> \<not> send_failed (sock ws b)"
  "takes_all sock \<Longrightarrow> status_ok (sock ws b)"
  using status_ok_cases by (auto simp: takes_all_def)

lemma Send_Raw_NotDone:
  "takes_all sock \<Longrightarrow> \<not> SessionInterrupted s \<Longrightarrow>
   ILibWebServer_Send_Raw sock b NotDone s = Some (sock (written s) b, s\<lparr>RequestAnsweredFlag := False, written := written s @ [b]\<rparr>)"
  using takes_all(1) [of sock "written s" b] by (simp add: ILibWebServer_Send_Raw_def socket_send_def Let_def)

text \<open>What is written for a chunk.\<close>

definition chunk_text :: "byte list \<Rightarrow> byte list list" where
  "chunk_text d = (if d = [] then [] else [hex_number (length d) @ [13, 10], d, [13, 10]])"

lemma stream_chunk:
  "takes_all sock \<Longrightarrow> \<not> SessionInterrupted s \<Longrightarrow> d \<noteq> [] \<Longrightarrow>
   \<exists>r. status_ok r \<and> stream_chunk sock d s = Some (r, s\<lparr>RequestAnsweredFlag := False, written := written s @ chunk_text d\<rparr>)"
  using takes_all by (simp add: stream_chunk_def Send_Raw_NotDone chunk_text_def)

lemma stream_body_part:
  "takes_all sock \<Longrightarrow> streaming s hdr \<Longrightarrow>
   \<exists>r. ILibWebServer_StreamBody sock d NotDone s
     = Some (r, if d = [] then s else s\<lparr>RequestAnsweredFlag := False, written := written s @ chunk_text d\<rparr>)
     \<and> (d \<noteq> [] \<longrightarrow> status_ok r)"
  using stream_chunk [of sock s d] by (auto simp: ILibWebServer_StreamBody_def streaming_def)

lemma streaming_written: "streaming (s\<lparr>RequestAnsweredFlag := f, written := ws\<rparr>) hdr = streaming s hdr"
  by (simp add: streaming_def)

text \<open>The parts of a body, one after the other.\<close>

fun stream_bodies :: "web_socket \<Rightarrow> byte list list \<Rightarrow> ILibWebServer_Session \<Rightarrow> ILibWebServer_Session option" where
  "stream_bodies sock [] s = Some s"
| "stream_bodies sock (d # ds) s = do { (r, s) \<leftarrow> ILibWebServer_StreamBody sock d NotDone s; stream_bodies sock ds s }"

lemma stream_bodies:
  assumes "takes_all sock"
  shows "streaming s hdr \<Longrightarrow> \<exists>f. stream_bodies sock ds s
    = Some (s\<lparr>RequestAnsweredFlag := f, written := written s @ concat (map chunk_text ds)\<rparr>)"
proof (induction ds arbitrary: s)
  case Nil
  show ?case by (rule exI [of _ "RequestAnsweredFlag s"]) simp
next
  case (Cons d ds)
  obtain r where r: "ILibWebServer_StreamBody sock d NotDone s
      = Some (r, if d = [] then s else s\<lparr>RequestAnsweredFlag := False, written := written s @ chunk_text d\<rparr>)"
    using stream_body_part [OF assms Cons.prems, of d] by blast
  show ?case
  proof (cases "d = []")
    case True
    then show ?thesis using Cons.IH [OF Cons.prems] r by (simp add: chunk_text_def)
  next
    case False
    then show ?thesis
      using Cons.IH [of "s\<lparr>RequestAnsweredFlag := False, written := written s @ chunk_text d\<rparr>"] Cons.prems r
      by (simp add: streaming_written)
  qed
qed

lemma RequestAnswered_written: "ILibWebServer_RequestAnswered s = Some (r, s') \<Longrightarrow> written s' = written s"
  by (auto simp: ILibWebServer_RequestAnswered_def do_action_def Let_def split: option.splits Option.bind_splits if_splits)

lemma Send_Raw_written:
  "takes_all sock \<Longrightarrow> \<not> SessionInterrupted s \<Longrightarrow> ILibWebServer_Send_Raw sock b flag s = Some (r, s') \<Longrightarrow> written s' = written s @ [b]"
  using takes_all(1) [of sock "written s" b] RequestAnswered_written
  by (fastforce simp: ILibWebServer_Send_Raw_def socket_send_def Let_def split: if_splits)

text \<open>The encoding of a body.\<close>

lemma concat_chunk_text:
  "concat (concat (map chunk_text ds)) @ str ''0'' @ [13, 10, 13, 10] =
   encoded (map (\<lambda>d. (hex_number (length d), d)) (filter (\<lambda>d. d \<noteq> []) ds)) (str ''0'') []"
  by (induction ds) (simp_all add: chunk_text_def)

lemma encoded_ok:
  assumes "\<forall>d \<in> set ds. length d \<le> INT32_MAX"
  shows "body_ok (map (\<lambda>d. (hex_number (length d), d)) (filter (\<lambda>d. d \<noteq> []) ds)) (str ''0'') []"
proof -
  have "hex_number 0 = str ''0''" by (simp add: hex_number.simps hex_digit_def str_def)
  then have "line_ok (str ''0'')" "size_of_line (str ''0'') = 0" using number_line [of 0] size_of_number [of 0] by simp_all
  then show ?thesis using assms number_line size_of_number by (auto simp: body_ok_def chunk_ok_def)
qed

lemma concat_filter_ne: "concat (filter (\<lambda>d. d \<noteq> []) ds) = concat ds"
  by (induction ds) auto

text \<open>C17 (roundtrip): A response streamed with \<open>ILibWebServer_StreamBody\<close> is read as it was given.  The parts \<open>bs\<close> of a body and the end, for a
  request that is neither of HTTP 1.0 nor HEAD, on a socket that takes all bytes at once or later, are written such that the client that reads a chunked body gets the bytes of the parts, in order and
  complete, however the network cuts what was written into the reads \<open>ds @ [d]\<close>, and goes on with the bytes \<open>rest\<close> behind, as long as the
  \<open>int\<close>s with which the client counts the bytes do not overflow.\<close>

theorem streamed_body_decoded:
  assumes "streaming s hdr" "head_request hdr = Some False" "takes_all sock" "\<forall>b \<in> set bs. length b \<le> INT32_MAX"
    and "stream_bodies sock bs s = Some s1" "ILibWebServer_StreamBody sock [] Done s1 = Some (r, s2)"
    and "whole_user a user" "reading w" "chunk w = None"
    and "concat ds @ d = concat (drop (length (written s)) (written s2)) @ rest" "length rest < length d"
    and "length (concat ds @ d) + INITIAL_BUFFER_SIZE \<le> INT32_MAX"
  shows "\<exists>es x n. http_receives user (ds @ [d]) (w, []) = http_drain user rest (body_done a w es x n)
    \<and> (\<forall>e \<in> set es. more_event e) \<and> consumed es @ x = concat bs"
proof -
  obtain f where s1: "s1 = s\<lparr>RequestAnsweredFlag := f, written := written s @ concat (map chunk_text bs)\<rparr>"
    using stream_bodies [OF assms(3,1), of bs] assms(5) by auto
  have "ILibWebServer_Send_Raw sock (str ''0'' @ [13, 10, 13, 10]) Done s1 = Some (r, s2)"
    using assms(1,2,6) s1 by (simp add: ILibWebServer_StreamBody_def streaming_def send_failed_def)
  then have "written s2 = written s1 @ [str ''0'' @ [13, 10, 13, 10]]"
    using Send_Raw_written [OF assms(3), of s1] assms(1) s1 by (simp add: streaming_def)
  then have e: "concat (drop (length (written s)) (written s2))
      = encoded (map (\<lambda>d. (hex_number (length d), d)) (filter (\<lambda>d. d \<noteq> []) bs)) (str ''0'') []"
    using concat_chunk_text [of bs] s1 by simp
  show ?thesis
    using chunked_body_delivered [OF assms(7-9) encoded_ok [OF assms(4)] assms(10) [unfolded e] assms(11,12)]
    by (simp add: comp_def concat_filter_ne)
qed

definition sample_get :: packetheader where
  "sample_get = ILibCreateEmptyPacketEx\<lparr>Directive := str ''GET'', Version := str ''1.1''\<rparr>"

definition sample_streaming :: ILibWebServer_Session where
  "sample_streaming = \<lparr>SessionInterrupted = False, WebSocket_Request = False, RequestAnsweredFlag = False, RequestAnsweredMethod = False,
     RequestMadeFlag = True, CloseOverrideFlag = False, VirtualDirectory = None, OverrideVirDirStruct = False, WebSocketRequested = False,
     WebClientDataObject = sample_reading\<lparr>header := Some sample_get\<rparr>,
     written = [], session_actions = [], dispatched = []\<rparr>"

lemma sample_streaming: "streaming sample_streaming sample_get" "head_request sample_get = Some False" "written sample_streaming = []"
  by (simp_all add: streaming_def sample_streaming_def sample_get_def ILibCreateEmptyPacketEx_def version_10_def head_request_def field_is_def str_def)

lemma streamed_body_decoded_witness:
  "\<exists>s1 r s2 es x n. stream_bodies (\<lambda>ws b. ILibWebServer_ALL_DATA_SENT) [str ''abc'', [], str ''de''] sample_streaming = Some s1
    \<and> ILibWebServer_StreamBody (\<lambda>ws b. ILibWebServer_ALL_DATA_SENT) [] Done s1 = Some (r, s2)
    \<and> http_receives sample_user ([] @ [concat (written s2)]) (sample_reading, []) = http_drain sample_user [] (body_done False sample_reading es x n)
    \<and> consumed es @ x = str ''abcde''"
proof -
  let ?sock = "\<lambda>ws b. ILibWebServer_ALL_DATA_SENT" and ?bs = "[str ''abc'', [], str ''de'']"
  have sock: "takes_all ?sock" by (simp add: takes_all_def status_ok_def)
  obtain f where s1: "stream_bodies ?sock ?bs sample_streaming
      = Some (sample_streaming\<lparr>RequestAnsweredFlag := f, written := written sample_streaming @ concat (map chunk_text ?bs)\<rparr>)" (is "_ = Some ?s1")
    using stream_bodies [OF sock sample_streaming(1)] by blast
  have "ILibWebServer_StreamBody ?sock [] Done ?s1 \<noteq> None"
    using sample_streaming(2)
    by (simp add: ILibWebServer_StreamBody_def sample_streaming_def sample_get_def ILibCreateEmptyPacketEx_def version_10_def str_def
        send_failed_def ILibWebServer_Send_Raw_def socket_send_def ILibWebServer_RequestAnswered_def Let_def)
  then obtain r s2 where s2: "ILibWebServer_StreamBody ?sock [] Done ?s1 = Some (r, s2)" by auto
  have len: "\<forall>b \<in> set ?bs. length b \<le> INT32_MAX" by (simp add: INT32_MAX_def str_def)
  have "written s2 = written ?s1 @ [str ''0'' @ [13, 10, 13, 10]]"
    using s2 sample_streaming(1,2) Send_Raw_written [OF sock, of ?s1 "str ''0'' @ [13, 10, 13, 10]" Done r s2]
    by (simp add: ILibWebServer_StreamBody_def streaming_def send_failed_def)
  then have len2: "length [] < length (concat (written s2))" "length (concat [] @ concat (written s2)) + INITIAL_BUFFER_SIZE \<le> INT32_MAX"
    using sample_streaming(3) by (simp_all add: chunk_text_def hex_number.simps str_def INITIAL_BUFFER_SIZE_def INT32_MAX_def)
  obtain es x n where "http_receives sample_user ([] @ [concat (written s2)]) (sample_reading, []) = http_drain sample_user [] (body_done False sample_reading es x n)"
    "consumed es @ x = concat ?bs"
    using streamed_body_decoded [OF sample_streaming(1,2) sock len s1 s2 sample_user_whole sample_reading_reading, of "[]" "concat (written s2)" "[]"] len2
      sample_streaming(3) by (auto simp: sample_reading_def)
  then show ?thesis using s1 s2 by (intro exI conjI) (auto simp: str_def)
qed

section \<open>The end of a HEAD request, and of a file\<close>

text \<open>The end of a response to HEAD without a body is not noticed: the status is that of nothing sent, which is not taken for success.\<close>

lemma head_never_answered:
  "streaming s hdr \<Longrightarrow> head_request hdr = Some True \<Longrightarrow>
   ILibWebServer_StreamBody sock [] Done s = Some (ILibWebServer_INVALID_SESSION, s)"
  by (simp add: ILibWebServer_StreamBody_def streaming_def send_failed_def status_ok_def)

text \<open>C19 (error): A file is read after it was closed.  \<open>ILibWebServer_StreamFile\<close> leaves its handler on the session when the whole file is on its way: if the socket
  could not send the last bytes at once, the event that it could calls the handler again, which reads from the file that was closed.  It is so for every file of less
  than a block on a connection that stays open.\<close>

theorem file_read_after_close:
  assumes "streaming s hdr" "head_request hdr = Some False" "takes_all sock" "length f < FILE_BLOCK"
    and "\<forall>ws. sock ws (str ''0'' @ [13, 10, 13, 10]) = ILibWebServer_NOT_ALL_DATA_SENT_YET"
    and "\<not> RequestAnsweredMethod s" "\<not> CloseOverrideFlag s" "length (Version hdr) = 3" "close_token (Fields hdr) = Some False"
  shows "\<exists>s'. ILibWebServer_StreamFileSendOK sock (Some f) s = Some (None, s') \<and> file_send_ok sock None s' = None"
proof -
  define s1 where "s1 = (if f = [] then s else s\<lparr>RequestAnsweredFlag := False, written := written s @ chunk_text f\<rparr>)"
  have "\<exists>r. stream_file_loop sock f s = Some ([], length f, r, s1)"
    using stream_body_part [OF assms(3,1), of f] assms(4) by (subst stream_file_loop.simps) (auto simp: s1_def Let_def)
  then obtain r where r: "stream_file_loop sock f s = Some ([], length f, r, s1)" by blast
  define s2 where "s2 = s1\<lparr>RequestAnsweredFlag := True, written := written s1 @ [str ''0'' @ [13, 10, 13, 10]]\<rparr>"
  have "streaming s1 hdr" using assms(1) by (simp add: s1_def streaming_written)
  then have "ILibWebServer_StreamBody sock [] Done s1 = Some (ILibWebServer_NOT_ALL_DATA_SENT_YET, s2)"
    using assms(2,5) by (simp add: ILibWebServer_StreamBody_def streaming_def send_failed_def ILibWebServer_Send_Raw_def socket_send_def s2_def)
  then have a: "ILibWebServer_StreamFileSendOK sock (Some f) s = Some (None, s2)"
    using r assms(4) by (simp add: ILibWebServer_StreamFileSendOK_def)
  have "\<exists>s3. ILibWebServer_OnSendOK s2 = Some (True, s3)"
    using assms(1,6-9) by (auto simp: ILibWebServer_OnSendOK_def ILibWebServer_RequestAnswered_def s2_def s1_def streaming_def version_10_def Let_def)
  then have "file_send_ok sock None s2 = None" by (auto simp: file_send_ok_def ILibWebServer_StreamFileSendOK_def)
  then show ?thesis using a by blast
qed

lemma file_read_after_close_witness:
  "\<exists>s'. ILibWebServer_StreamFileSendOK (\<lambda>ws b. ILibWebServer_NOT_ALL_DATA_SENT_YET) (Some (str ''abc'')) sample_streaming = Some (None, s')
    \<and> file_send_ok (\<lambda>ws b. ILibWebServer_NOT_ALL_DATA_SENT_YET) None s' = None"
  by (rule file_read_after_close [OF sample_streaming(1,2)])
    (simp_all add: takes_all_def status_ok_def FILE_BLOCK_def str_def sample_streaming_def sample_get_def ILibCreateEmptyPacketEx_def)

end
