(* ===== verification/HttpDispatchProps.thy ===== *)
theory HttpDispatchProps
  imports HttpDispatch HttpStreamingProps
begin

text \<open>
  Properties of the requests of a session: each is given to one handler, that of its virtual directory if there is one, and a request of HTTP 1.1 without a host is refused.
\<close>

section \<open>The first part of the path\<close>

lemma first_part_slash:
  assumes "obj = 47 # name @ rest" "47 \<notin> set name" "name \<noteq> []" "rest = [] \<or> hd rest = 47" "last obj \<noteq> 0" "length obj \<le> INT32_MAX"
  shows "first_part obj = Some (1, length name)"
proof -
  have ne: "obj \<noteq> []" using assms(1) by simp
  have "ILibParseString obj 0 (length obj) [47] = Some (layout [47] 0 (split_on [47] [] obj))"
    by (rule parse_range [of 0 obj obj "[]"]) (use ne assms(5,6) in \<open>simp_all add: no_straddle_single\<close>)
  moreover have "split_on [47] [] obj = [] # split_on [47] [] (name @ rest)"
    using split_on_cut [of 47 "[]" "[]" "[]" "name @ rest"] assms(1) by simp
  moreover have "\<exists>ts. split_on [47] [] (name @ rest) = name # ts"
  proof (cases rest)
    case Nil
    then show ?thesis using split_on_last [OF assms(2), of "[]" "[]"] by simp
  next
    case (Cons c r)
    then show ?thesis using split_on_cut [OF assms(2), of "[]" "[]" r] assms(4) by simp
  qed
  moreover obtain n where "length name = Suc n" using assms(3) by (cases name) auto
  ultimately show ?thesis by (auto simp: first_part_def)
qed

section \<open>Requests reach the handler of their directory\<close>

text \<open>What the table of virtual directories says of a name.\<close>

definition directory_for :: "directories \<Rightarrow> byte list \<Rightarrow> nat option" where
  "directory_for dirs name = (case dirs of None \<Rightarrow> None | Some t \<Rightarrow> Option.bind (ht_map 0 t name) fst)"

lemma directory_for_simps [simp]: "directory_for None = (\<lambda>name. None)" "directory_for (Some t) = (\<lambda>name. Option.bind (ht_map 0 t name) fst)"
  by (simp_all add: directory_for_def fun_eq_iff)

definition directories_ok :: "directories \<Rightarrow> bool" where
  "directories_ok dirs \<longleftrightarrow> (case dirs of None \<Rightarrow> True | Some t \<Rightarrow> ht_ok 0 t \<and> (\<forall>name e. ht_map 0 t name \<noteq> Some (None, e)))"

lemma directory_key: "name \<noteq> [] \<Longrightarrow> length name \<le> INT32_MAX \<Longrightarrow> ht_key 0 (name, length name) \<and> ht_norm 0 (name, length name) = name"
  by (simp add: ht_key_def ht_norm_def)

lemma some_handler:
  assumes "\<forall>name e. m name \<noteq> Some (None, e)" "m name = Some d"
  shows "\<exists>vd e. d = (Some vd, e)"
proof (cases d)
  case (Pair a e)
  then show ?thesis using assms by (cases a) auto
qed

text \<open>Registering and unregistering.\<close>

lemma register_directory:
  assumes "directories_ok dirs" "name \<noteq> []" "length name \<le> INT32_MAX"
  shows "\<exists>dirs'. ILibWebServer_RegisterVirtualDirectory dirs name (length name) h
      = Some (dirs', if directory_for dirs name = None then 0 else 1)
    \<and> directories_ok dirs' \<and> directory_for dirs' = (if directory_for dirs name = None then (directory_for dirs)(name \<mapsto> h) else directory_for dirs)"
proof -
  define t where "t = (case dirs of None \<Rightarrow> ILibInitHashTreeEx | Some t \<Rightarrow> t)"
  have t: "ht_ok 0 t" "\<forall>name e. ht_map 0 t name \<noteq> Some (None, e)" "directory_for dirs = (\<lambda>name. Option.bind (ht_map 0 t name) fst)"
  proof -
    have new: "ht_map 0 (ILibInitHashTreeEx :: nat HashNode_Root) = (\<lambda>_. None)" by (rule init_ok)
    show "ht_ok 0 t" using assms(1) init_ok(1) by (cases dirs) (simp_all add: t_def directories_ok_def)
    show "\<forall>name e. ht_map 0 t name \<noteq> Some (None, e)" using assms(1) by (cases dirs) (simp_all add: t_def directories_ok_def new)
    show "directory_for dirs = (\<lambda>name. Option.bind (ht_map 0 t name) fst)" by (cases dirs) (simp_all add: t_def new)
  qed
  note k = directory_key [OF assms(2,3)]
  have n: "(directory_for dirs name = None) = (ht_map 0 t name = None)"
    using t(3) some_handler [OF t(2), of name] by (cases "ht_map 0 t name") auto
  have h: "ILibHasEntry t name (length name) = Some (if ht_map 0 t name = None then 0 else 1)"
    using get_entry(1) [OF t(1) conjunct1 [OF k]] k by simp
  show ?thesis
  proof (cases "ht_map 0 t name")
    case None
    obtain t' where t': "ILibAddEntry t name (length name) (Some h) = Some t'" "ht_ok 0 t'" "ht_map 0 t' = (ht_map 0 t)(name \<mapsto> (Some h, 0))"
      using add_entry [OF t(1) conjunct1 [OF k], of "Some h"] k None by auto
    then have "directories_ok (Some t')" using t(2) by (auto simp: directories_ok_def)
    moreover have "directory_for (Some t') = (directory_for dirs)(name \<mapsto> h)" using t'(3) t(3) by (simp add: fun_eq_iff)
    ultimately show ?thesis using t'(1) h None n t_def by (auto simp: ILibWebServer_RegisterVirtualDirectory_def Let_def)
  next
    case (Some d)
    have "directories_ok (Some t)" "directory_for (Some t) = directory_for dirs"
      using t by (simp_all add: directories_ok_def)
    then show ?thesis using h Some n t_def by (auto simp: ILibWebServer_RegisterVirtualDirectory_def Let_def)
  qed
qed

lemma dispatch_new:
  assumes "directories_ok dirs" "VirtualDirectory s = None"
    and "DirectiveObj hdr = 47 # name @ rest" "47 \<notin> set name" "name \<noteq> []" "rest = [] \<or> hd rest = 47" "last (DirectiveObj hdr) \<noteq> 0"
    and "length (DirectiveObj hdr) \<le> INT32_MAX"
  shows "dispatch_request dirs has_receiver user hdr status body s = Some (case directory_for dirs name of
      Some vd \<Rightarrow> call_handler user (To_Directory vd (hdr\<lparr>DirectiveObj := rest\<rparr>) status body)
        (s\<lparr>VirtualDirectory := Some vd, WebClientDataObject := (WebClientDataObject s)\<lparr>header := Some (hdr\<lparr>DirectiveObj := rest\<rparr>)\<rparr>\<rparr>)
    | None \<Rightarrow> if has_receiver then call_handler user (To_Receiver hdr status body) s else s)"
proof (cases dirs)
  case None
  then show ?thesis by (simp add: dispatch_request_def)
next
  case (Some t)
  have t: "ht_ok 0 t" "\<forall>name e. ht_map 0 t name \<noteq> Some (None, e)" using assms(1) Some by (simp_all add: directories_ok_def)
  note fp = first_part_slash [OF assms(3,4,5,6,7,8)]
  have nm: "slice (DirectiveObj hdr) 1 (length name) = name" "drop (1 + length name) (DirectiveObj hdr) = rest" by (simp_all add: slice_def assms(3))
  have k: "ht_key 0 (name, length name)" "ht_norm 0 (name, length name) = name" using directory_key [OF assms(5)] assms(3,8) by simp_all
  note g = get_entry [OF t(1) k(1), unfolded k(2) fst_conv snd_conv]
  show ?thesis
  proof (cases "ht_map 0 t name")
    case None
    then show ?thesis using Some fp nm g assms(2) by (simp add: dispatch_request_def)
  next
    case d: (Some d)
    obtain vd e where "d = (Some vd, e)" using some_handler [OF t(2) d] by blast
    then show ?thesis using Some d fp nm g assms(2) by (simp add: dispatch_request_def Let_def)
  qed
qed

text \<open>Directories registered one after the other.\<close>

fun register_all :: "(byte list \<times> nat) list \<Rightarrow> directories \<Rightarrow> directories option" where
  "register_all [] dirs = Some dirs"
| "register_all ((name, h) # ds) dirs = do {
     (dirs, r) \<leftarrow> ILibWebServer_RegisterVirtualDirectory dirs name (length name) h;
     register_all ds dirs }"

definition names_ok :: "(byte list \<times> nat) list \<Rightarrow> bool" where
  "names_ok ds \<longleftrightarrow> (\<forall>(name, h) \<in> set ds. name \<noteq> [] \<and> length name \<le> INT32_MAX)"

lemma register_all:
  "directories_ok dirs \<Longrightarrow> names_ok ds \<Longrightarrow> \<exists>dirs'. register_all ds dirs = Some dirs' \<and> directories_ok dirs'
     \<and> directory_for dirs' = (\<lambda>n. case directory_for dirs n of Some h \<Rightarrow> Some h | None \<Rightarrow> map_of ds n)"
proof (induction ds arbitrary: dirs)
  case Nil
  have "directory_for dirs = (\<lambda>n. case directory_for dirs n of Some h \<Rightarrow> Some h | None \<Rightarrow> None)" by (rule ext) (simp split: option.split)
  then show ?case using Nil by (auto cong: option.case_cong)
next
  case (Cons d ds)
  obtain name h where d: "d = (name, h)" by (cases d)
  have n: "name \<noteq> []" "length name \<le> INT32_MAX" "names_ok ds" using Cons.prems(2) d by (auto simp: names_ok_def)
  obtain dirs1 r where r: "ILibWebServer_RegisterVirtualDirectory dirs name (length name) h = Some (dirs1, r)" "directories_ok dirs1"
    "directory_for dirs1 = (if directory_for dirs name = None then (directory_for dirs)(name \<mapsto> h) else directory_for dirs)"
    using register_directory [OF Cons.prems(1) n(1,2), of h] by blast
  obtain dirs2 where "register_all ds dirs1 = Some dirs2" "directories_ok dirs2"
    "directory_for dirs2 = (\<lambda>n. case directory_for dirs1 n of Some h \<Rightarrow> Some h | None \<Rightarrow> map_of ds n)"
    using Cons.IH [OF r(2) n(3)] by blast
  moreover have "(\<lambda>n. case directory_for dirs1 n of Some h \<Rightarrow> Some h | None \<Rightarrow> map_of ds n)
      = (\<lambda>n. case directory_for dirs n of Some h \<Rightarrow> Some h | None \<Rightarrow> map_of (d # ds) n)"
    by (rule ext) (auto simp: r(3) d split: option.split)
  ultimately show ?case using r(1) d by simp
qed

text \<open>C18 (functional): A request is given to one handler, once.  For the directories \<open>ds\<close>, registered in their order, a complete request for \<open>/name rest\<close>, with a
  host if it is of HTTP 1.1, is given to the handler first registered for \<open>name\<close>, with \<open>rest\<close> for its object, and to the receiver of the session if
  there is none; reading stops if and only if the handler has not answered.\<close>

theorem request_dispatched:
  assumes "register_all ds None = Some dirs" "names_ok ds" "VirtualDirectory s = None"
    and "DirectiveObj hdr = 47 # name @ rest" "47 \<notin> set name" "name \<noteq> []" "rest = [] \<or> hd rest = 47" "last (DirectiveObj hdr) \<noteq> 0"
    and "length (DirectiveObj hdr) \<le> INT32_MAX"
    and "Directive hdr \<noteq> []" "version_above_1 (Version hdr) = Some newer"
    and "ILibGetHeaderLineEx hdr (str ''host'' @ [0]) 4 = Some (host, n)" "\<not> (newer \<and> host = None)"
    and "ILibGetHeaderLineEx hdr (str ''Sec-WebSocket-Key'' @ [0]) 17 = Some (wskey, m)"
    and "target = (case map_of ds name of Some vd \<Rightarrow> To_Directory vd (hdr\<lparr>DirectiveObj := rest\<rparr>) Complete body | None \<Rightarrow> To_Receiver hdr Complete body)"
  shows "\<exists>s0. dispatched s0 = dispatched s @ [target] \<and> WebSocketRequested s0 = (wskey \<noteq> None)
    \<and> ILibWebServer_OnResponse sock dirs True user False (Some hdr) Complete body s
      = Some (user target s0, \<not> RequestAnsweredMethod (user target s0))"
proof -
  have none: "directories_ok None" by (simp add: directories_ok_def)
  then have dirs: "directories_ok dirs" "directory_for dirs = map_of ds" using register_all [OF none assms(2)] assms(1) by auto
  define s1 where "s1 = (if RequestAnsweredFlag s \<or> \<not> RequestMadeFlag s
      then do_action RemoveIdleTimer (s\<lparr>RequestAnsweredFlag := False, RequestMadeFlag := True, RequestAnsweredMethod := False\<rparr>) else s)
    \<lparr>WebSocketRequested := (wskey \<noteq> None)\<rparr>"
  have s1: "VirtualDirectory s1 = None" "dispatched s1 = dispatched s" "WebSocketRequested s1 = (wskey \<noteq> None)"
    using assms(3) by (simp_all add: s1_def do_action_def)
  have "(if newer then ILibGetHeaderLineEx hdr (str ''host'' @ [0]) 4 else Some (None, 0)) = Some (if newer then (host, n) else (None, 0))"
    using assms(12) by simp
  then have r: "ILibWebServer_OnResponse sock dirs True user False (Some hdr) Complete body s
      = map_option (\<lambda>s. (s, \<not> RequestAnsweredMethod s)) (dispatch_request dirs True user hdr Complete body s1)"
    using assms(10,11,13,14) by (auto simp: ILibWebServer_OnResponse_def s1_def Let_def split: option.splits Option.bind_splits)
  note d = dispatch_new [OF dirs(1) s1(1) assms(4-9), of True user Complete body]
  show ?thesis
  proof (cases "map_of ds name")
    case None
    then show ?thesis using r d dirs(2) assms(15) s1(2,3)
      by (intro exI [of _ "s1\<lparr>dispatched := dispatched s1 @ [target]\<rparr>"]) (simp add: call_handler_def)
  next
    case (Some vd)
    let ?s = "s1\<lparr>VirtualDirectory := Some vd, WebClientDataObject := (WebClientDataObject s1)\<lparr>header := Some (hdr\<lparr>DirectiveObj := rest\<rparr>)\<rparr>\<rparr>"
    show ?thesis using Some r d dirs(2) assms(15) s1(2,3)
      by (intro exI [of _ "?s\<lparr>dispatched := dispatched ?s @ [target]\<rparr>"]) (simp add: call_handler_def)
  qed
qed

definition sample_page :: packetheader where
  "sample_page = sample_get\<lparr>DirectiveObj := str ''/dir/page'', Version := str ''1.0''\<rparr>"

lemma request_dispatched_witness:
  "\<exists>s0 pause. dispatched s0 = [To_Directory 7 (sample_page\<lparr>DirectiveObj := str ''/page''\<rparr>) Complete []]
    \<and> Option.bind (register_all [(str ''dir'', 7), (str ''dir'', 8)] None) (\<lambda>dirs.
        ILibWebServer_OnResponse (\<lambda>ws b. ILibWebServer_ALL_DATA_SENT) dirs True (\<lambda>c s. s) False (Some sample_page) Complete [] sample_streaming)
      = Some (s0, pause)"
proof -
  let ?ds = "[(str ''dir'', 7), (str ''dir'', 8)] :: (byte list \<times> nat) list"
  have names: "names_ok ?ds" by (simp add: names_ok_def str_def INT32_MAX_def)
  obtain dirs where dirs: "register_all ?ds None = Some dirs"
    using register_all [OF _ names, of None] by (auto simp: directories_ok_def)
  have tab: "ht_ok 1 (HeaderTable sample_page)" "ht_map 1 (HeaderTable sample_page) = (\<lambda>_. None)"
    by (simp_all add: sample_page_def sample_get_def ILibCreateEmptyPacketEx_def init_ok)
  have no: "ILibGetHeaderLineEx sample_page (str ''host'' @ [0]) 4 = Some (None, 0)"
    "ILibGetHeaderLineEx sample_page (str ''Sec-WebSocket-Key'' @ [0]) 17 = Some (None, 0)"
    using get_entry(2) [OF tab(1), of "(str ''host'' @ [0], 4)"] get_entry(2) [OF tab(1), of "(str ''Sec-WebSocket-Key'' @ [0], 17)"] tab(2)
    by (simp_all add: ILibGetHeaderLineEx_def ht_key_def INT32_MAX_def str_def to_size_def SIZE_MOD_def)
  have obj: "DirectiveObj sample_page = 47 # str ''dir'' @ str ''/page''" by (simp add: sample_page_def str_def)
  have "\<exists>s0. dispatched s0 = dispatched sample_streaming @ [To_Directory 7 (sample_page\<lparr>DirectiveObj := str ''/page''\<rparr>) Complete []]
      \<and> WebSocketRequested s0 = (None \<noteq> (None :: header_value option))
      \<and> ILibWebServer_OnResponse (\<lambda>ws b. ILibWebServer_ALL_DATA_SENT) dirs True (\<lambda>c s. s) False (Some sample_page) Complete [] sample_streaming
        = Some (s0, \<not> RequestAnsweredMethod s0)"
    by (rule request_dispatched [OF dirs names _ obj _ _ _ _ _ _ _ no(1) _ no(2),
          where user = "\<lambda>c s. s" and newer = False])
      (simp_all add: sample_page_def sample_get_def ILibCreateEmptyPacketEx_def sample_streaming_def str_def INT32_MAX_def version_above_1_def is_digit_def)
  then obtain s0 where s0: "dispatched s0 = [To_Directory 7 (sample_page\<lparr>DirectiveObj := str ''/page''\<rparr>) Complete []]"
    "ILibWebServer_OnResponse (\<lambda>ws b. ILibWebServer_ALL_DATA_SENT) dirs True (\<lambda>c s. s) False (Some sample_page) Complete [] sample_streaming = Some (s0, \<not> RequestAnsweredMethod s0)"
    by (auto simp: sample_streaming_def)
  then show ?thesis using dirs by (intro exI [of _ s0] exI [of _ "\<not> RequestAnsweredMethod s0"]) simp
qed

end
