(* ===== verification/Spec2Isabelle.thy ===== *)
theory Spec2Isabelle
  imports Queues Base64 Escapes HashtableMap HttpPacket Uri DataStoreCompact AgentUpdate WebServerProps LifeTimeProps ReaderWriterLock HttpRequests HttpBuffer HttpDispatchProps
begin

text \<open>
  A verification library for the native core of the MeshAgent.

  The agent is a C program: \<open>src/microstack\<close> is its portable base (containers, strings, encodings,
  HTTP, WebSockets, timers, sockets, the data store), \<open>src/meshcore\<close> the agent proper, \<open>src/microscript\<close>
  the JavaScript engine with its bindings and \<open>src/modules\<close> the scripts run by it.  This library models
  the parts with logic of their own, as they are written: the base in \<open>ILibParsers.c\<close>, the data store, the
  HTTP and WebSocket code of \<open>ILibWebClient.c\<close> and \<open>ILibWebServer.c\<close>, and the control channel of \<open>agentcore.c\<close>.

  Machine model.  A \<open>char\<close> is an 8 bit word, a string or buffer is the list of its bytes, and a
  pointer into it an offset.  A read outside the list is \<open>None\<close>, or \<open>Inl UB\<close> where the operation can
  also terminate the process (\<open>Inl (Exit 254)\<close>, the exit code of \<open>ILIBCRITICALEXIT\<close>).  Sizes are
  natural numbers below \<open>SIZE_MOD = 2^64\<close>, with \<open>sub64\<close> for a wrapping subtraction; \<open>int\<close> values are
  integers bounded by \<open>INT32_MAX\<close> where the code casts to them, hashes are 32 bit words.
  Dynamic memory is an explicit store where the code links nodes by pointers (the linked list,
  the chains of the Hashtable) and a value otherwise; \<open>malloc\<close> succeeds and gives
  arbitrary content \<open>m0\<close>, a parameter of the operations that return uninitialised bytes.

  Theories on \<open>src/microstack/ILibParsers.c\<close> and its header:

  \<^item> \<open>Prelude\<close>: types, checked reads, slices, the failure type.
  \<^item> \<open>LinkedList\<close>: \<open>ILibLinkedList_*\<close>, doubly linked nodes in a store with head, tail and count;
    the invariant \<open>ll_wf\<close> and the refinement to HOL lists.
  \<^item> \<open>Queues\<close>: \<open>ILibQueue_*\<close>, \<open>ILibCircularQueue_*\<close> and the stack, through the locales \<open>fifo_queue\<close>
    and \<open>bounded_queue\<close>.
  \<^item> \<open>CStrings\<close>: C library strings, \<open>ILibTrimString\<close>, the tokenizers \<open>ILibParseString\<close> and
    \<open>ILibParseStringAdv\<close>, the searches \<open>ILibString_IndexOf\<close>, \<open>StartsWith\<close> and their relatives.
  \<^item> \<open>StringBuffers\<close>: the bounded copies \<open>memcpy_s\<close>, \<open>strcpy_s\<close>, \<open>strcat_s\<close> and \<open>ILibString_Replace\<close>.
  \<^item> \<open>Numbers\<close>: \<open>ILib_atoi*\<close>, \<open>ILibGetLong\<close>, \<open>ILibGetULong\<close>, with \<open>errno\<close> as a state bit.
  \<^item> \<open>Base64\<close>, \<open>Escapes\<close>, \<open>HexCodec\<close> (with \<open>ILibCrypto.c\<close>): encoders and decoders with round trips.
  \<^item> \<open>Crc32\<close> (\<open>ILibWebRTC.c\<close>): the checksums by tables and by polynomial division.
  \<^item> \<open>Dictionary\<close>: the locale \<open>dictionary\<close>, the contract of the lookup structures;
    \<open>HashTree\<close>, \<open>SparseArray\<close>, \<open>Hashtable\<close> with \<open>HashtableMap\<close>: the three of them.
  \<^item> \<open>HttpPacket\<close>: the HTTP packet, its parser, serialiser and accessors, on \<open>HashTree\<close>.
  \<^item> \<open>Uri\<close>: \<open>ILibParseUriEx\<close> and \<open>ILibUrl_GetHost\<close>.
  \<^item> \<open>LifeTime\<close>, \<open>LifeTimeProps\<close>: the timers \<open>ILibLifeTime_*\<close>.  Callbacks are a function from the timer and the
    state to the calls they make; calls of other threads may stand among them.  The properties are invariants of
    every reachable state, and what one check fires.
  \<^item> \<open>ReaderWriterLock\<close>: each function is a sequence of steps, one for each section under \<open>CounterLock\<close> and each
    semaphore operation, and any number of threads interleave them; the invariant relates the counters and
    semaphores to where the threads are.

  The data store, \<open>src/microstack/ILibSimpleDataStore.c\<close>:

  \<^item> \<open>SimpleDataStore\<close>: records, a file as its bytes with a position, all operations.  A write can be
    partial and rename can fail: that is the environment \<open>fs_env\<close>; the hash, the compression and the clock are parameters.
  \<^item> \<open>DataStoreRecords\<close>, \<open>DataStore\<close>, \<open>DataStoreOps\<close>, \<open>DataStoreReload\<close>, \<open>DataStoreMap\<close>, \<open>DataStoreCompact\<close>:
    records are read back as written; the file is a log whose replay is the table of keys; the store is a map, also
    after it is opened again, after a torn write, and after compaction.

  The web client and the web server, \<open>src/microstack/ILibWebClient.c\<close>, \<open>ILibWebServer.c\<close> and \<open>ILibAsyncSocket.c\<close>:

  \<^item> \<open>AsyncStream\<close>: the loop of the socket that offers the bytes of a connection to its callback again and again.  The locale
    \<open>stream_reader\<close> is what a callback promises, \<open>strict_reader\<close> extends it; in them what a connection does is shown not to depend on how the bytes
    are cut into reads, so a property for one read holds for all.
  \<^item> \<open>WebSocket\<close>, \<open>WebSocketFrames\<close>, \<open>WebSocketChunks\<close>: the client's frames, their masking and reassembly, and the client
    as a reader.
  \<^item> \<open>WebServer\<close>: the WebSocket of a session of the server.
  \<^item> \<open>WebSocketMessages\<close>: the locale \<open>message_reader\<close>, a reader that takes the frames of messages and gives the user each message once and
    complete; \<open>WebSocketProps\<close> and \<open>WebServerProps\<close>: client and session are such readers, so that what one end sends arrives at the other.
  \<^item> \<open>HttpClient\<close>, \<open>HttpChunks\<close>, \<open>HttpBuffer\<close>: headers, the length of the body, chunked bodies, pipelined requests, the
    handshake of WebSockets.  The user of the module is a function of what happened so far.
  \<^item> \<open>HttpHeaders\<close>, \<open>HttpRequests\<close>: the same reader on a connection of the server: the requests of a connection reach
    the user one by one.
  \<^item> \<open>HttpStreaming\<close>, \<open>HttpStreamingProps\<close>: responses, streamed in chunks, files, and the end of a request; the decoder of \<open>HttpChunks\<close> reads
    what is streamed.
  \<^item> \<open>HttpDispatch\<close>, \<open>HttpDispatchProps\<close>: virtual directories, and which handler gets a request.

  The agent, \<open>src/meshcore/agentcore.c\<close>:

  \<^item> \<open>AgentCore\<close>: \<open>MeshServer_OnResponse\<close> and \<open>MeshServer_ProcessCommand\<close> with what they call.  The environment
    \<open>agent_env\<close> has the operations of OpenSSL, the script engine and the file system as functions.
  \<^item> \<open>AgentAuth\<close>, \<open>AgentChannel\<close>, \<open>AgentProps\<close>, \<open>AgentUpdate\<close>: who can make the agent act, as an invariant of all runs of
    the channel; reassembly of messages; the update of the binary; and, with the WebSocket theories,
    that a message of the server reaches the agent.

  How the parts interact: the queues and the SparseArray are built on the linked list and use only
  its refinement lemmas; the Hashtable keeps its chains in a SparseArray; the header table of a
  packet is a case-insensitive HashTree, and its lines are cut by \<open>ILibParseString\<close>; the data store keeps its
  keys in a Hashtable; HTTP packets come to \<open>HttpClient\<close> through \<open>ILibParsePacketHeader\<close>, and it reads the requests of the server
  and the bodies the server streams; the virtual directories of the server are a HashTree; what the WebSocket client delivers is an event of
  the control channel.

  Loops.  A loop that terminates for every input is a \<open>function\<close> with a measure; a loop that may
  run along a broken pointer chain or does not end for an empty delimiter is a
  \<open>partial_function (option)\<close>, and every property about it states that it returns.  No loop runs on fuel: that of
  the compressor goes over the pieces its parameter gives.

  Not modelled: opening and sending of connections, TLS, digest authentication, name resolution and proxies, the chain (event loop), the Windows branches, caller-provided memory
  arenas (\<open>ReservedMemory\<close>), XML, WebRTC, the remote desktop, and everything that only calls the operating system, OpenSSL, zlib or
  the JavaScript engine.
\<close>

end
